(* ===== verification/Prelude.thy ===== *)
theory Prelude
  imports Main "HOL-Library.Word"
begin

unbundle bit_operations_syntax

text \<open>
  Shared vocabulary of the development: the machine types of the kernel's C code, the
  way a call ends, and the arithmetic of 64-bit addresses that every component uses.

  A C pointer and a \<^verbatim>\<open>uint64_t\<close> are both a \<open>64 word\<close>; arithmetic on them wraps. A call that
  does not come back is a value: \<open>Panic\<close> is the branch that ends in \<^verbatim>\<open>kernel_panic\<close> (which
  halts the processor with interrupts off, \<^verbatim>\<open>src/kernel/kernel.s\<close>), \<open>Hang\<close> a loop that runs
  forever (a spin on a mutex nobody else will release, a walk of a cyclic list), \<open>Overrun\<close> an
  access outside the array it is meant for.
\<close>

section \<open>Machine types\<close>

type_synonym u8 = "8 word"
type_synonym u16 = "16 word"
type_synonym u32 = "32 word"
type_synonym u64 = "64 word"
type_synonym addr = "64 word"

section \<open>Calls that may not return\<close>

datatype stop = Panic string | Hang | Overrun

type_synonym 'a res = "stop + 'a"

fun bindR :: "'a res \<Rightarrow> ('a \<Rightarrow> 'b res) \<Rightarrow> 'b res" where
  "bindR (Inl e) f = Inl e"
| "bindR (Inr x) f = f x"

lemma bindR_eq_Inr [simp]: "bindR r f = Inr y \<longleftrightarrow> (\<exists>x. r = Inr x \<and> f x = Inr y)"
  by (cases r) auto

lemma bindR_eq_Inl: "bindR r f = Inl e \<longleftrightarrow> r = Inl e \<or> (\<exists>x. r = Inr x \<and> f x = Inl e)"
  by (cases r) auto

lemma bindR_assoc: "bindR (bindR r f) g = bindR r (\<lambda>x. bindR (f x) g)"
  by (cases r) auto

text \<open>A loop over a list of indices, left at the first iteration that does not come back.\<close>

fun each :: "('a \<Rightarrow> 's \<Rightarrow> 's res) \<Rightarrow> 'a list \<Rightarrow> 's \<Rightarrow> 's res" where
  "each f [] s = Inr s"
| "each f (x # xs) s = bindR (f x s) (each f xs)"

lemma each_append: "each f (xs @ ys) s = bindR (each f xs s) (each f ys)"
proof (induction xs arbitrary: s)
  case (Cons x xs)
  then have "each f (xs @ ys) = (\<lambda>s. bindR (each f xs s) (each f ys))" by (intro ext)
  then show ?case by (simp add: bindR_assoc)
qed simp

lemma each_cong [fundef_cong]:
  "xs = ys \<Longrightarrow> s = t \<Longrightarrow> (\<And>x s. x \<in> set ys \<Longrightarrow> f x s = g x s) \<Longrightarrow> each f xs s = each g ys t"
proof (induction xs arbitrary: ys s t)
  case (Cons x xs)
  then have "each f xs = each g xs" by auto
  with Cons.prems show ?case by auto
qed simp

lemma each_map: "each f (map h xs) s = each (\<lambda>x. f (h x)) xs s"
proof (induction xs arbitrary: s)
  case (Cons x xs)
  then have "each f (map h xs) = each (\<lambda>x. f (h x)) xs" by (intro ext)
  then show ?case by simp
qed simp

lemma each_nested: "each (\<lambda>y. each (f y) xs) ys s = each (\<lambda>(y, x). f y x) (List.product ys xs) s"
proof (induction ys arbitrary: s)
  case (Cons y ys)
  have "each (\<lambda>(y, x). f y x) (map (Pair y) xs) s = each (f y) xs s" for s
    by (simp add: each_map)
  moreover have "each (\<lambda>y. each (f y) xs) ys = each (\<lambda>(y, x). f y x) (List.product ys xs)"
    using Cons.IH by auto
  ultimately show ?case by (simp add: each_append)
qed simp

section \<open>Word arithmetic without wrap-around\<close>

named_theorems no_wrap
  \<open>equations that read a word operation as one on natural numbers when nothing wraps\<close>

lemma unat_add_no_wrap [no_wrap]:
  fixes a b :: "'a::len word"
  assumes "unat a + unat b < 2 ^ LENGTH('a)"
  shows "unat (a + b) = unat a + unat b"
  using assms by (simp add: unat_add_lem)

lemma unat_sub_no_wrap [no_wrap]:
  fixes a b :: "'a::len word"
  assumes "b \<le> a"
  shows "unat (a - b) = unat a - unat b"
  using assms by (rule unat_sub)

lemma unat_of_nat_no_wrap [no_wrap]:
  assumes "n < 2 ^ LENGTH('a)"
  shows "unat (of_nat n :: 'a::len word) = n"
  using assms by (simp add: unat_of_nat take_bit_nat_eq_self)

lemma unat_mult_no_wrap [no_wrap]:
  fixes a b :: "'a::len word"
  assumes "unat a * unat b < 2 ^ LENGTH('a)"
  shows "unat (a * b) = unat a * unat b"
  using assms by (simp add: unat_mult_lem)

lemma unat_u64_less [simp]: "unat (a :: u64) < 18446744073709551616"
  using unsigned_less [of a] by simp

lemma unat_u32_less: "unat (a :: u32) < 4294967296"
  using unsigned_less [of a] by simp

lemma u64_eq_iff_unat: "(a :: u64) = b \<longleftrightarrow> unat a = unat b"
  by (rule word_unat_eq_iff)

lemma unat_Suc_of_less:
  fixes a b :: u64
  assumes "a < b"
  shows "unat (a + 1) = Suc (unat a)"
proof -
  have "unat a < unat b" using assms by (simp add: word_less_nat_alt)
  moreover have "unat b < 2 ^ LENGTH(64)" by (rule unsigned_less)
  ultimately have "unat a + unat (1 :: u64) < 2 ^ LENGTH(64)" by (simp del: unat_u64_less)
  then show ?thesis by (simp add: unat_add_no_wrap)
qed

lemma unat_and_not_mask:
  fixes x :: "'a::len word"
  shows "unat (x AND NOT (mask k)) = unat x - unat x mod 2 ^ k"
proof -
  have "(x AND NOT (mask k)) AND take_bit k x = 0"
    by (rule bit_eqI) (auto simp: bit_simps)
  moreover have "x = (x AND NOT (mask k)) OR take_bit k x"
    by (rule bit_eqI) (auto simp: bit_simps)
  ultimately have "x = (x AND NOT (mask k)) + take_bit k x"
    by (simp add: disjunctive_add_eq_or)
  moreover have "take_bit k x \<le> x"
    by (simp add: word_le_nat_alt unsigned_take_bit_eq take_bit_nat_less_eq_self)
  ultimately show ?thesis
    by (metis add_diff_cancel_right' take_bit_eq_mod unat_sub unsigned_take_bit_eq)
qed

lemma not_bit_above:
  fixes w :: "'a::len word"
  assumes "unat w < 2 ^ k" "k \<le> n"
  shows "\<not> bit w n"
proof
  assume "bit w n"
  then have "bit (unat w) n" by (simp add: bit_unsigned_iff bit_imp_le_length)
  moreover have "take_bit k (unat w) = unat w" using assms(1) by (simp add: take_bit_nat_eq_self)
  ultimately show False using assms(2) by (metis bit_take_bit_iff not_less)
qed

lemma uint_eq_iff: "uint (a :: 'a::len word) = uint b \<longleftrightarrow> a = b"
  by (simp add: word_uint_eq_iff)

section \<open>Lists updated by index\<close>

lemma take_list_update_eq: "i < n \<Longrightarrow> take n (xs[i := v]) = (take n xs)[i := v]"
  by (simp add: take_update_swap)

lemma mem_set_list_update:
  "i < length xs \<Longrightarrow> x \<in> set (xs[i := v]) \<longleftrightarrow> x = v \<or> (\<exists>j < length xs. j \<noteq> i \<and> xs ! j = x)"
  by (auto simp: in_set_conv_nth nth_list_update)

lemma find_append: "find P (xs @ ys) = (case find P xs of None \<Rightarrow> find P ys | Some x \<Rightarrow> Some x)"
  by (induction xs) auto

end
