(* ===== verification/CMem.thy ===== *)
theory CMem
  imports Prelude
begin

text \<open>
  Flat byte memory as the C code of \<^verbatim>\<open>src/libc\<close> sees it: a value for every 64-bit address,
  addresses wrapping. A 64-bit access through a cast pointer is the little-endian access of
  the x86-64 target. The second half of the theory is about copying: what a memory looks like
  after part of a block has been copied, and when copying one more byte or one more quad-word,
  from the top or from the bottom, is safe although source and destination may overlap.
\<close>

type_synonym mem = "addr \<Rightarrow> u8"

section \<open>Quad-word accesses\<close>

definition load64 :: "mem \<Rightarrow> addr \<Rightarrow> u64" where
  "load64 m p = ucast (m p) OR push_bit 8 (ucast (m (p + 1))) OR push_bit 16 (ucast (m (p + 2)))
     OR push_bit 24 (ucast (m (p + 3))) OR push_bit 32 (ucast (m (p + 4)))
     OR push_bit 40 (ucast (m (p + 5))) OR push_bit 48 (ucast (m (p + 6)))
     OR push_bit 56 (ucast (m (p + 7)))"

definition store64 :: "mem \<Rightarrow> addr \<Rightarrow> u64 \<Rightarrow> mem" where
  "store64 m p v = m(p := ucast v, p + 1 := ucast (drop_bit 8 v), p + 2 := ucast (drop_bit 16 v),
     p + 3 := ucast (drop_bit 24 v), p + 4 := ucast (drop_bit 32 v), p + 5 := ucast (drop_bit 40 v),
     p + 6 := ucast (drop_bit 48 v), p + 7 := ucast (drop_bit 56 v))"

lemma less_8_cases: "(k::nat) < 8 \<Longrightarrow> k = 0 \<or> k = 1 \<or> k = 2 \<or> k = 3 \<or> k = 4 \<or> k = 5 \<or> k = 6 \<or> k = 7"
  by arith

lemma not_bit_u8: "8 \<le> n \<Longrightarrow> \<not> bit (w :: u8) n"
  by (auto dest: bit_imp_le_length)

lemma load64_byte:
  assumes "k < 8"
  shows "ucast (drop_bit (8 * k) (load64 m p)) = m (p + of_nat k)"
  using less_8_cases [OF assms]
  by (elim disjE) (auto simp: load64_def bit_simps not_bit_u8 intro!: bit_word_eqI)

lemma offset_eq_iff: "(a :: addr) = d + of_nat k \<longleftrightarrow> a - d = of_nat k"
  by (auto simp: algebra_simps)

lemma unat_offset_eq: "k < 2 ^ 64 \<Longrightarrow> (a :: addr) = d + of_nat k \<longleftrightarrow> unat (a - d) = k"
proof -
  assume k: "k < 2 ^ 64"
  have "a = d + of_nat k \<longleftrightarrow> a - d = of_nat k" by (rule offset_eq_iff)
  also have "\<dots> \<longleftrightarrow> unat (a - d) = unat (of_nat k :: addr)" by (rule word_unat_eq_iff)
  also have "unat (of_nat k :: addr) = k" using k by (intro unat_of_nat_no_wrap) simp
  finally show ?thesis .
qed

lemma offset_decomp: "(a :: addr) = d + of_nat (unat (a - d))"
  by (simp add: offset_eq_iff)

lemma store64_at:
  "store64 m p v a = (if unat (a - p) < 8 then ucast (drop_bit (8 * unat (a - p)) v) else m a)"
proof (cases "unat (a - p) < 8")
  case True
  then obtain k where k: "k < 8" "a = p + of_nat k"
    using offset_decomp by blast
  with less_8_cases [OF k(1)] show ?thesis
    by (elim disjE) (simp_all add: store64_def)
next
  case False
  have "a \<noteq> p + of_nat k" if "k < 8" for k
    using unat_offset_eq [of k a p] that False by auto
  from this [of 0] this [of 1] this [of 2] this [of 3] this [of 4] this [of 5] this [of 6] this [of 7]
  have "a \<noteq> p" "a \<noteq> p + 1" "a \<noteq> p + 2" "a \<noteq> p + 3" "a \<noteq> p + 4" "a \<noteq> p + 5" "a \<noteq> p + 6" "a \<noteq> p + 7"
    by simp_all
  with False show ?thesis by (simp add: store64_def)
qed

lemma load64_eqI:
  assumes "\<And>k. k < 8 \<Longrightarrow> m (p + of_nat k) = m' (p' + of_nat k)"
  shows "load64 m p = load64 m' p'"
  using assms [of 0] assms [of 1] assms [of 2] assms [of 3] assms [of 4] assms [of 5]
    assms [of 6] assms [of 7]
  by (simp add: load64_def)

lemma load64_eq_iff: "load64 m p = load64 m' p' \<longleftrightarrow> (\<forall>k < 8. m (p + of_nat k) = m' (p' + of_nat k))"
  by (metis load64_byte load64_eqI)

section \<open>Partly copied blocks\<close>

text \<open>
  \<open>copied m d s lo hi\<close> is \<open>m\<close> with the bytes \<open>lo\<close> to \<open>hi - 1\<close> of the block at
  \<open>d\<close> replaced by those of the block at \<open>s\<close>.
\<close>

definition copied :: "mem \<Rightarrow> addr \<Rightarrow> addr \<Rightarrow> nat \<Rightarrow> nat \<Rightarrow> mem" where
  "copied m d s lo hi = (\<lambda>a. if lo \<le> unat (a - d) \<and> unat (a - d) < hi then m (s + (a - d)) else m a)"

text \<open>Bytes \<open>n\<close> of the block at \<open>p\<close>.\<close>

definition bytes_at :: "mem \<Rightarrow> addr \<Rightarrow> nat \<Rightarrow> u8 list" where
  "bytes_at m p n = map (\<lambda>k. m (p + of_nat k)) [0..<n]"

text \<open>No byte of the source block lies in the destination block.\<close>

definition disjoint_blocks :: "addr \<Rightarrow> addr \<Rightarrow> nat \<Rightarrow> bool" where
  "disjoint_blocks d s n \<longleftrightarrow> (\<forall>k < n. n \<le> unat (s + of_nat k - d))"

text \<open>Copying from the top down (from the bottom up) never overwrites a byte still to be read.\<close>

definition down_safe :: "addr \<Rightarrow> addr \<Rightarrow> nat \<Rightarrow> bool" where
  "down_safe d s n \<longleftrightarrow> (\<forall>k < n. unat (s + of_nat k - d) \<le> k \<or> n \<le> unat (s + of_nat k - d))"

definition up_safe :: "addr \<Rightarrow> addr \<Rightarrow> nat \<Rightarrow> bool" where
  "up_safe d s n \<longleftrightarrow> (\<forall>k < n. k \<le> unat (s + of_nat k - d))"

lemma disjoint_down_safe: "disjoint_blocks d s n \<Longrightarrow> down_safe d s n"
  by (simp add: disjoint_blocks_def down_safe_def)

lemma disjoint_up_safe: "disjoint_blocks d s n \<Longrightarrow> up_safe d s n"
  by (force simp: disjoint_blocks_def up_safe_def)

lemma copied_empty [simp]: "hi \<le> lo \<Longrightarrow> copied m d s lo hi = m"
  by (rule ext) (auto simp: copied_def)

lemma copied_at:
  "k < 2 ^ 64 \<Longrightarrow> copied m d s lo hi (d + of_nat k) = (if lo \<le> k \<and> k < hi then m (s + of_nat k) else m (d + of_nat k))"
  by (simp add: copied_def unat_of_nat_no_wrap)

lemma copied_outside: "hi \<le> unat (a - d) \<Longrightarrow> copied m d s lo hi a = m a"
  by (simp add: copied_def)

lemma bytes_at_copied:
  "n < 2 ^ 64 \<Longrightarrow> bytes_at (copied m d s 0 n) d n = bytes_at m s n"
  by (simp add: bytes_at_def copied_at)

lemma down_safe_read:
  "\<lbrakk>down_safe d s n; k < j; j \<le> n\<rbrakk> \<Longrightarrow> copied m d s j n (s + of_nat k) = m (s + of_nat k)"
proof -
  assume a: "down_safe d s n" "k < j" "j \<le> n"
  then have "unat (s + of_nat k - d) \<le> k \<or> n \<le> unat (s + of_nat k - d)" by (simp add: down_safe_def)
  with a show ?thesis unfolding copied_def by auto
qed

lemma up_safe_read:
  "\<lbrakk>up_safe d s n; j \<le> k; k < n\<rbrakk> \<Longrightarrow> copied m d s 0 j (s + of_nat k) = m (s + of_nat k)"
  by (force simp: copied_def up_safe_def)

lemma copy_byte_at:
  assumes "j < 2 ^ 64"
  shows "((m :: mem)(d + of_nat j := v)) a = (if unat (a - d) = j then v else m a)"
  using unat_offset_eq [OF assms, of a d] by auto

lemma copy_byte_down:
  assumes "down_safe d s n" "j < n" "n \<le> 2 ^ 64"
  shows "(copied m d s (Suc j) n)(d + of_nat j := copied m d s (Suc j) n (s + of_nat j)) = copied m d s j n"
proof
  fix a :: addr
  have j: "j < 2 ^ 64" using assms by simp
  have r: "copied m d s (Suc j) n (s + of_nat j) = m (s + of_nat j)"
    using assms by (intro down_safe_read) auto
  have a: "unat (a - d) = j \<Longrightarrow> a - d = of_nat j" by auto
  show "((copied m d s (Suc j) n)(d + of_nat j := copied m d s (Suc j) n (s + of_nat j))) a = copied m d s j n a"
    unfolding r copy_byte_at [OF j] using assms(2) by (auto simp: copied_def dest: a)
qed

lemma copy_byte_up:
  assumes "up_safe d s n" "j < n" "n \<le> 2 ^ 64"
  shows "(copied m d s 0 j)(d + of_nat j := copied m d s 0 j (s + of_nat j)) = copied m d s 0 (Suc j)"
proof
  fix a :: addr
  have j: "j < 2 ^ 64" using assms by simp
  have r: "copied m d s 0 j (s + of_nat j) = m (s + of_nat j)"
    using assms by (intro up_safe_read) auto
  have a: "unat (a - d) = j \<Longrightarrow> a - d = of_nat j" by auto
  show "((copied m d s 0 j)(d + of_nat j := copied m d s 0 j (s + of_nat j))) a = copied m d s 0 (Suc j) a"
    unfolding r copy_byte_at [OF j] by (auto simp: copied_def less_Suc_eq dest: a)
qed

lemma unat_diff_of_nat:
  fixes x :: addr
  assumes "j \<le> unat x"
  shows "unat (x - of_nat j) = unat x - j"
proof -
  have "unat (of_nat j :: addr) = j"
    using order.strict_trans1 [OF assms unat_u64_less] by (intro unat_of_nat_no_wrap) simp
  with assms show ?thesis by (subst unat_sub_no_wrap) (simp_all add: word_le_nat_alt)
qed

lemma unat_diff_wrap:
  fixes x y :: addr
  assumes "x < y"
  shows "unat (x - y) = unat x + 2 ^ 64 - unat y"
  using assms by (simp add: unat_sub_if' word_less_nat_alt)

lemma window_iff:
  fixes a d :: addr
  assumes "j + 8 \<le> 2 ^ 64"
  shows "unat (a - (d + of_nat j)) < 8 \<longleftrightarrow> j \<le> unat (a - d) \<and> unat (a - d) < j + 8"
    and "unat (a - (d + of_nat j)) < 8 \<Longrightarrow> unat (a - (d + of_nat j)) = unat (a - d) - j"
proof -
  let ?x = "a - d"
  have e: "a - (d + of_nat j) = ?x - of_nat j" by (simp add: algebra_simps)
  have j: "unat (of_nat j :: addr) = j" using assms by (intro unat_of_nat_no_wrap) simp
  have "unat (?x - of_nat j) < 8 \<longleftrightarrow> j \<le> unat ?x \<and> unat ?x < j + 8"
  proof (cases "j \<le> unat ?x")
    case True
    then show ?thesis by (simp add: unat_diff_of_nat) linarith
  next
    case False
    have "?x < of_nat j" using False j by (simp add: word_less_nat_alt)
    then have "unat (?x - of_nat j) = unat ?x + 2 ^ 64 - j"
      by (simp only: unat_diff_wrap j)
    with False assms show ?thesis by simp
  qed
  then show "unat (a - (d + of_nat j)) < 8 \<longleftrightarrow> j \<le> unat (a - d) \<and> unat (a - d) < j + 8"
    by (simp only: e)
  then show "unat (a - (d + of_nat j)) < 8 \<Longrightarrow> unat (a - (d + of_nat j)) = unat (a - d) - j"
    unfolding e by (intro unat_diff_of_nat) simp
qed

text \<open>A quad-word copied from \<open>s + j\<close> to \<open>d + j\<close>, read in a memory that agrees with \<open>m\<close> there.\<close>

lemma copy_qword_at:
  assumes j: "j + 8 \<le> 2 ^ 64"
    and r: "\<And>k. \<lbrakk>j \<le> k; k < j + 8\<rbrakk> \<Longrightarrow> m' (s + of_nat k) = m (s + of_nat k)"
  shows "store64 m' (d + of_nat j) (load64 m' (s + of_nat j)) a =
    (if j \<le> unat (a - d) \<and> unat (a - d) < j + 8 then m (s + (a - d)) else m' a)"
proof (cases "unat (a - (d + of_nat j)) < 8")
  case True
  let ?k = "unat (a - (d + of_nat j))"
  have w: "j \<le> unat (a - d)" "unat (a - d) < j + 8" "?k = unat (a - d) - j"
    using window_iff [OF j, of a d] True by auto
  have "store64 m' (d + of_nat j) (load64 m' (s + of_nat j)) a = m' (s + of_nat j + of_nat ?k)"
    using True by (simp add: store64_at load64_byte)
  also have "s + of_nat j + of_nat ?k = s + of_nat (unat (a - d))"
    using w by (simp add: algebra_simps flip: of_nat_add)
  also have "m' (s + of_nat (unat (a - d))) = m (s + of_nat (unat (a - d)))"
    using w by (intro r)
  finally show ?thesis using w by simp
next
  case False
  then have "\<not> (j \<le> unat (a - d) \<and> unat (a - d) < j + 8)"
    using window_iff(1) [OF j, of a d] by blast
  with False show ?thesis by (simp only: store64_at if_False)
qed

lemma copy_qword_down:
  assumes "down_safe d s n" "j + 8 \<le> n" "n \<le> 2 ^ 64"
  shows "store64 (copied m d s (j + 8) n) (d + of_nat j) (load64 (copied m d s (j + 8) n) (s + of_nat j)) =
    copied m d s j n"
proof
  fix a
  have "copied m d s (j + 8) n (s + of_nat k) = m (s + of_nat k)" if "k < j + 8" for k
    using assms that by (intro down_safe_read) auto
  with assms show "store64 (copied m d s (j + 8) n) (d + of_nat j)
      (load64 (copied m d s (j + 8) n) (s + of_nat j)) a = copied m d s j n a"
    by (subst copy_qword_at [where m = m]) (auto simp: copied_def)
qed

lemma copy_qword_up:
  assumes "up_safe d s n" "j + 8 \<le> n" "n \<le> 2 ^ 64"
  shows "store64 (copied m d s 0 j) (d + of_nat j) (load64 (copied m d s 0 j) (s + of_nat j)) =
    copied m d s 0 (j + 8)"
proof
  fix a
  have "copied m d s 0 j (s + of_nat k) = m (s + of_nat k)" if "j \<le> k" "k < j + 8" for k
    using assms that by (intro up_safe_read [of d s n]) auto
  with assms show "store64 (copied m d s 0 j) (d + of_nat j)
      (load64 (copied m d s 0 j) (s + of_nat j)) a = copied m d s 0 (j + 8) a"
    by (subst copy_qword_at [where m = m]) (auto simp: copied_def)
qed

text \<open>When the destination lies above (below) the source and neither block wraps.\<close>

lemma above_down_safe:
  assumes "s < d" "unat d + n \<le> 2 ^ 64"
  shows "down_safe d s n"
  unfolding down_safe_def
proof (intro allI impI)
  fix k assume k: "k < n"
  have sd: "unat s < unat d" using assms(1) by (simp add: word_less_nat_alt)
  then have kk: "unat (of_nat k :: addr) = k" using assms k by (intro unat_of_nat_no_wrap) simp
  then have sk: "unat (s + of_nat k) = unat s + k"
    using assms k sd by (subst unat_add_no_wrap) simp_all
  show "unat (s + of_nat k - d) \<le> k \<or> n \<le> unat (s + of_nat k - d)"
  proof (cases "d \<le> s + of_nat k")
    case True
    then have "unat (s + of_nat k - d) = unat s + k - unat d"
      by (simp add: unat_sub_no_wrap sk)
    with sd show ?thesis by arith
  next
    case False
    then have "unat (s + of_nat k - d) = unat s + k + 2 ^ 64 - unat d"
      by (subst unat_diff_wrap) (simp_all add: sk)
    moreover have "n \<le> unat s + k + 2 ^ 64 - unat d" using assms(2) by simp
    ultimately show ?thesis by simp
  qed
qed

lemma below_up_safe:
  assumes "d < s" "unat s + n \<le> 2 ^ 64"
  shows "up_safe d s n"
  unfolding up_safe_def
proof (intro allI impI)
  fix k assume k: "k < n"
  have ds: "unat d < unat s" using assms(1) by (simp add: word_less_nat_alt)
  then have kk: "unat (of_nat k :: addr) = k" using assms k by (intro unat_of_nat_no_wrap) simp
  then have sk: "unat (s + of_nat k) = unat s + k"
    using assms k by (subst unat_add_no_wrap) simp_all
  then have "d \<le> s + of_nat k" using ds by (simp add: word_le_nat_alt)
  then have "unat (s + of_nat k - d) = unat s + k - unat d" by (simp add: unat_sub_no_wrap sk)
  with ds show "k \<le> unat (s + of_nat k - d)" by simp
qed

text \<open>Blocks that do not wrap and do not meet are disjoint.\<close>

lemma disjoint_blocksI:
  assumes "unat d + n \<le> 2 ^ 64" "unat s + n \<le> 2 ^ 64"
    and "unat d + n \<le> unat s \<or> unat s + n \<le> unat d"
  shows "disjoint_blocks d s n"
  unfolding disjoint_blocks_def
proof (intro allI impI)
  fix k assume k: "k < n"
  then have "unat (of_nat k :: addr) = k" using assms by (intro unat_of_nat_no_wrap) simp
  then have sk: "unat (s + of_nat k) = unat s + k"
    using assms k by (subst unat_add_no_wrap) simp_all
  show "n \<le> unat (s + of_nat k - d)"
  proof (cases "d \<le> s + of_nat k")
    case True
    then have "unat (s + of_nat k - d) = unat s + k - unat d" "unat d \<le> unat s + k"
      by (simp_all add: unat_sub_no_wrap sk word_le_nat_alt)
    with assms(3) k show ?thesis by arith
  next
    case False
    then have "unat (s + of_nat k - d) = unat s + k + 2 ^ 64 - unat d"
      by (subst unat_diff_wrap) (simp_all add: sk)
    moreover have "n \<le> unat s + k + 2 ^ 64 - unat d" using assms(1) by simp
    ultimately show ?thesis by simp
  qed
qed

end
