(* ===== verification/Stdlib.thy ===== *)
theory Stdlib
  imports CMem "HOL-Library.Signed_Division" "HOL-Library.Multiset"
begin

text \<open>
  \<^verbatim>\<open>src/libc/ctype.c\<close> and \<^verbatim>\<open>src/libc/stdlib.c\<close>: character classes, \<open>strtol\<close>, \<open>memswap\<close> and
  \<open>qsort\<close>. A \<^verbatim>\<open>char\<close> is signed, so a byte of memory is read as \<open>char_at\<close>; \<^verbatim>\<open>long\<close> and \<^verbatim>\<open>int\<close>
  are integers, and that they stay in the range of \<^verbatim>\<open>long\<close> is proved. Loops over a string are
  options, \<open>None\<close> when they do not end.
\<close>

section \<open>Character classes\<close>

definition char_at :: "mem \<Rightarrow> addr \<Rightarrow> int" where
  "char_at m a = sint (m a)"

definition isalnum :: "int \<Rightarrow> bool" where
  "isalnum ch \<longleftrightarrow> 48 \<le> ch \<and> ch \<le> 57 \<or> 97 \<le> ch \<and> ch \<le> 122 \<or> 65 \<le> ch \<and> ch \<le> 90"

definition isdigit :: "int \<Rightarrow> bool" where
  "isdigit ch \<longleftrightarrow> 48 \<le> ch \<and> ch \<le> 57"

definition isspace :: "int \<Rightarrow> bool" where
  "isspace ch \<longleftrightarrow> ch = 32 \<or> ch = 12 \<or> ch = 10 \<or> ch = 13 \<or> ch = 9 \<or> ch = 11"

section \<open>strtol\<close>

definition EINVAL :: int where "EINVAL = 22"
definition ERANGE :: int where "ERANGE = 3"
definition LONG_MAX :: int where "LONG_MAX = 2 ^ 63 - 1"
definition LONG_MIN :: int where "LONG_MIN = - (2 ^ 63)"

definition DIG_IN_BASE :: "int \<Rightarrow> int \<Rightarrow> bool" where
  "DIG_IN_BASE c b \<longleftrightarrow>
     (if 10 < b then isdigit c \<or> 97 \<le> c \<and> c < 97 + b - 10 \<or> 65 \<le> c \<and> c < 65 + b - 10
      else 48 \<le> c \<and> c < 48 + b)"

partial_function (option) skip_spaces :: "mem \<Rightarrow> addr \<Rightarrow> addr option" where
  "skip_spaces m cur = (if isspace (char_at m cur) then skip_spaces m (cur + 1) else Some cur)"

partial_function (option) skip_digits :: "mem \<Rightarrow> int \<Rightarrow> addr \<Rightarrow> addr option" where
  "skip_digits m base cur = (if DIG_IN_BASE (char_at m cur) base then skip_digits m base (cur + 1) else Some cur)"

text \<open>The prefix \<^verbatim>\<open>0x\<close> or \<^verbatim>\<open>0\<close> and the base it stands for.\<close>

definition number_prefix :: "mem \<Rightarrow> addr \<Rightarrow> int \<Rightarrow> int \<times> addr" where
  "number_prefix m cur base =
     (let (base, cur) =
        (if char_at m cur = 48
         then if char_at m (cur + 1) = 120 \<and> (base = 16 \<or> base = 0)
              then if isalnum (char_at m (cur + 2)) then (16, cur + 2) else (base, cur)
              else if (base = 8 \<or> base = 0) \<and> isalnum (char_at m (cur + 1)) then (8, cur + 1)
              else (base, cur)
         else (base, cur))
      in (if base = 0 then 10 else base, cur))"

definition digit_val :: "int \<Rightarrow> int" where
  "digit_val c = (if isdigit c then c - 48 else if 97 \<le> c \<and> c \<le> 122 then 10 + c - 97 else 10 + c - 65)"

text \<open>The conversion loop: value, whether it left the range, and where it stopped.\<close>

partial_function (option) strtol_digits :: "mem \<Rightarrow> int \<Rightarrow> bool \<Rightarrow> addr \<Rightarrow> int \<Rightarrow> (int \<times> bool \<times> addr) option" where
  "strtol_digits m base neg cur ret =
     (if \<not> DIG_IN_BASE (char_at m cur) base then Some (ret, False, cur)
      else if neg
      then if ret < LONG_MIN sdiv base + digit_val (char_at m cur)
           then Option.bind (skip_digits m base (cur + 1)) (\<lambda>cur. Some (LONG_MIN, True, cur))
           else strtol_digits m base neg (cur + 1) (ret * base - digit_val (char_at m cur))
      else if ret > LONG_MAX sdiv base - digit_val (char_at m cur)
      then Option.bind (skip_digits m base (cur + 1)) (\<lambda>cur. Some (LONG_MAX, True, cur))
      else strtol_digits m base neg (cur + 1) (ret * base + digit_val (char_at m cur)))"

text \<open>Result, \<^verbatim>\<open>errno\<close> afterwards, and what is stored through \<^verbatim>\<open>str_end\<close> (nothing for a bad base).\<close>

definition strtol :: "mem \<Rightarrow> addr \<Rightarrow> int \<Rightarrow> int \<Rightarrow> (int \<times> int \<times> addr option) option" where
  "strtol m str base errno =
     (if 36 < base \<or> base < 0 \<or> base = 1 then Some (0, EINVAL, None)
      else Option.bind (skip_spaces m str) (\<lambda>cur.
        let neg = (char_at m cur = 45);
            cur = (if neg then cur + 1 else cur);
            (base, cur) = number_prefix m cur base
        in Option.bind (strtol_digits m base neg cur 0) (\<lambda>(ret, out, cur).
           Some (ret, if out then ERANGE else errno, Some cur))))"

section \<open>memswap and qsort\<close>

primrec memswap :: "mem \<Rightarrow> addr \<Rightarrow> addr \<Rightarrow> nat \<Rightarrow> mem" where
  "memswap m lhs rhs 0 = m"
| "memswap m lhs rhs (Suc n) =
     (let m = memswap m lhs rhs n;
          tmp = m (lhs + of_nat n);
          m = m(lhs + of_nat n := m (rhs + of_nat n))
      in m(rhs + of_nat n := tmp))"

text \<open>
  \<open>cmp m a b\<close> is the caller's comparison of the elements at \<open>a\<close> and \<open>b\<close>. \<open>partition_loop\<close>
  yields the memory and the index \<open>i\<close> at which the two scans meet.
\<close>

function partition_loop ::
  "(mem \<Rightarrow> addr \<Rightarrow> addr \<Rightarrow> int) \<Rightarrow> addr \<Rightarrow> nat \<Rightarrow> mem \<Rightarrow> nat \<Rightarrow> nat \<Rightarrow> mem \<times> nat" where
  "partition_loop cmp ptr sz m i j =
     (if i < j
      then if cmp m (ptr + of_nat i) ptr \<le> 0 then partition_loop cmp ptr sz m (i + 1) j
           else if 0 < cmp m (ptr + of_nat j) ptr then partition_loop cmp ptr sz m i (j - 1)
           else partition_loop cmp ptr sz (memswap m (ptr + of_nat i) (ptr + of_nat j) sz) (i + 1) (j - 1)
      else (m, i))"
  by pat_completeness auto
termination by (relation "measure (\<lambda>(_, _, _, _, i, j). j - i)") auto

declare partition_loop.simps [simp del]

definition partition_at ::
  "(mem \<Rightarrow> addr \<Rightarrow> addr \<Rightarrow> int) \<Rightarrow> addr \<Rightarrow> nat \<Rightarrow> nat \<Rightarrow> nat \<Rightarrow> mem \<Rightarrow> mem \<times> nat" where
  "partition_at cmp ptr cnt sz piv_index m =
     (let m = memswap m ptr (ptr + of_nat piv_index) sz
      in case partition_loop cmp ptr sz m 1 (cnt - 1) of (m, i) \<Rightarrow>
         if 1 < i
         then if 0 < cmp m (ptr + of_nat i) ptr
              then (memswap m ptr (ptr + of_nat (i - 1)) sz, i - 1)
              else (memswap m ptr (ptr + of_nat i) sz, i)
         else (m, 0))"

lemma partition_loop_bound: "i \<le> k \<Longrightarrow> j \<le> k \<Longrightarrow> snd (partition_loop cmp ptr sz m i j) \<le> k"
proof (induction cmp ptr sz m i j rule: partition_loop.induct)
  case (1 cmp ptr sz m i j)
  then show ?case by (subst partition_loop.simps) auto
qed

lemma partition_at_bound:
  assumes "2 < cnt"
  shows "snd (partition_at cmp ptr cnt sz p m) < cnt"
proof -
  obtain m' i where l: "partition_loop cmp ptr sz (memswap m ptr (ptr + of_nat p) sz) 1 (cnt - 1) = (m', i)"
    by fastforce
  have "i \<le> cnt - 1"
    using partition_loop_bound [of 1 "cnt - 1" "cnt - 1" cmp ptr sz "memswap m ptr (ptr + of_nat p) sz"] assms
    by (simp only: l snd_conv)
  then have "i < cnt" "i - 1 < cnt" using assms by simp_all
  with assms l show ?thesis by (simp add: partition_at_def Let_def)
qed

function qsort :: "(mem \<Rightarrow> addr \<Rightarrow> addr \<Rightarrow> int) \<Rightarrow> addr \<Rightarrow> nat \<Rightarrow> nat \<Rightarrow> mem \<Rightarrow> mem" where
  "qsort cmp ptr cnt sz m =
     (if cnt \<le> 2
      then if cnt < 2 then m
           else if cmp m (ptr + 1) ptr < 0 then memswap m ptr (ptr + 1) sz else m
      else let r = partition_at cmp ptr cnt sz (sz div 2) m;
               piv_index = snd r
           in qsort cmp (ptr + of_nat piv_index + 1) (cnt - piv_index - 1) sz
                (qsort cmp ptr piv_index sz (fst r)))"
  by pat_completeness auto
termination
  by (relation "measure (\<lambda>(_, _, cnt, _, _). cnt)") (use partition_at_bound in \<open>auto simp: not_le\<close>)

declare qsort.simps [simp del]

section \<open>What strtol computes\<close>

fun digits_value :: "mem \<Rightarrow> int \<Rightarrow> addr \<Rightarrow> nat \<Rightarrow> int \<Rightarrow> int" where
  "digits_value m base cur 0 acc = acc"
| "digits_value m base cur (Suc n) acc =
     digits_value m base (cur + 1) n (acc * base + digit_val (char_at m cur))"

definition digit_run :: "mem \<Rightarrow> int \<Rightarrow> addr \<Rightarrow> nat \<Rightarrow> bool" where
  "digit_run m base cur n \<longleftrightarrow> (\<forall>k < n. DIG_IN_BASE (char_at m (cur + of_nat k)) base)"

lemma digit_run_Suc:
  "digit_run m base cur (Suc n) \<longleftrightarrow> DIG_IN_BASE (char_at m cur) base \<and> digit_run m base (cur + 1) n"
proof
  assume a: "digit_run m base cur (Suc n)"
  have "DIG_IN_BASE (char_at m (cur + 1 + of_nat k)) base" if "k < n" for k
    using a [unfolded digit_run_def, rule_format, of "Suc k"] that by (simp add: add.assoc)
  with a show "DIG_IN_BASE (char_at m cur) base \<and> digit_run m base (cur + 1) n"
    using a [unfolded digit_run_def, rule_format, of 0] by (simp add: digit_run_def)
next
  assume a: "DIG_IN_BASE (char_at m cur) base \<and> digit_run m base (cur + 1) n"
  show "digit_run m base cur (Suc n)" unfolding digit_run_def
  proof (intro allI impI)
    fix k assume "k < Suc n"
    with a show "DIG_IN_BASE (char_at m (cur + of_nat k)) base"
      by (cases k) (auto simp: digit_run_def add.assoc)
  qed
qed

lemma digit_val_bounds:
  assumes "DIG_IN_BASE c b" "2 \<le> b" "b \<le> 36"
  shows "0 \<le> digit_val c" "digit_val c < b"
  using assms by (auto simp: DIG_IN_BASE_def digit_val_def isdigit_def split: if_splits)

lemma digits_value_ge:
  assumes "digit_run m base cur n" "2 \<le> base" "base \<le> 36" "0 \<le> acc"
  shows "acc \<le> digits_value m base cur n acc"
  using assms
proof (induction n arbitrary: cur acc)
  case (Suc n)
  then have d: "0 \<le> digit_val (char_at m cur)" "digit_run m base (cur + 1) n"
    using digit_val_bounds(1) by (auto simp: digit_run_Suc)
  have "acc * 1 \<le> acc * base" using Suc.prems by (intro mult_left_mono) auto
  with d Suc.prems Suc.IH [OF d(2), of "acc * base + digit_val (char_at m cur)"] show ?case by simp
qed simp

text \<open>The range checks pass for every prefix of a number that leaves room of \<open>base * base\<close>.\<close>

lemma range_check_passes:
  fixes acc d base lim :: int
  assumes "acc * base + d \<le> lim - base * base" "0 \<le> acc" "0 \<le> d" "d < base" "2 \<le> base"
  shows "acc + d \<le> lim div base"
proof -
  have "d * (base - 1) \<le> base * base" using assms by (intro mult_mono) auto
  moreover have "(acc + d) * base = acc * base + d + d * (base - 1)" by (simp add: algebra_simps)
  ultimately have "(acc + d) * base \<le> lim" using assms(1) by simp
  then have "(acc + d) * base div base \<le> lim div base" using assms(5) by (intro zdiv_mono1) auto
  then show ?thesis using assms(5) by simp
qed

lemma LONG_sdiv:
  assumes "0 < base"
  shows "LONG_MAX sdiv base = LONG_MAX div base" "LONG_MIN sdiv base = - (2 ^ 63 div base)"
  using assms by (simp_all add: signed_divide_int_def LONG_MAX_def LONG_MIN_def)

lemma strtol_digits_prefix:
  assumes "digit_run m base cur n" "2 \<le> base" "base \<le> 36" "0 \<le> acc"
    and "digits_value m base cur n acc \<le> LONG_MAX - base * base"
  shows "strtol_digits m base False cur acc =
      strtol_digits m base False (cur + of_nat n) (digits_value m base cur n acc) \<and>
    strtol_digits m base True cur (- acc) =
      strtol_digits m base True (cur + of_nat n) (- digits_value m base cur n acc)"
  using assms
proof (induction n arbitrary: cur acc)
  case (Suc n)
  let ?d = "digit_val (char_at m cur)" and ?acc = "acc * base + digit_val (char_at m cur)"
  from Suc.prems(1) have dig: "DIG_IN_BASE (char_at m cur) base" and run: "digit_run m base (cur + 1) n"
    by (simp_all add: digit_run_Suc)
  have d: "0 \<le> ?d" "?d < base" using digit_val_bounds [OF dig] Suc.prems(2, 3) by simp_all
  have acc: "0 \<le> ?acc" using d(1) Suc.prems(2, 4) by simp
  have "?acc \<le> digits_value m base (cur + 1) n ?acc"
    by (rule digits_value_ge [OF run Suc.prems(2, 3) acc])
  then have le: "?acc \<le> LONG_MAX - base * base" using Suc.prems(5) by simp
  have pos: "acc + ?d \<le> LONG_MAX div base"
    by (rule range_check_passes [OF le Suc.prems(4) d Suc.prems(2)])
  have neg: "acc + ?d \<le> 2 ^ 63 div base"
    by (rule range_check_passes [OF _ Suc.prems(4) d Suc.prems(2)]) (use le in \<open>simp add: LONG_MAX_def\<close>)
  have b: "0 < base" using Suc.prems(2) by simp
  have v: "digits_value m base (cur + 1) n ?acc \<le> LONG_MAX - base * base" using Suc.prems(5) by simp
  have nxt: "cur + 1 + of_nat n = cur + of_nat (Suc n)" by simp
  note IH = Suc.IH [OF run Suc.prems(2, 3) acc v, unfolded nxt]
  have "strtol_digits m base False cur acc = strtol_digits m base False (cur + 1) ?acc"
    using dig pos by (subst strtol_digits.simps) (simp add: LONG_sdiv [OF b])
  moreover
  have "strtol_digits m base True cur (- acc) = strtol_digits m base True (cur + 1) (- ?acc)"
    using dig neg by (subst strtol_digits.simps) (simp add: LONG_sdiv [OF b] algebra_simps)
  ultimately show ?case using IH by simp
qed simp

lemma skip_spaces_run:
  assumes "\<forall>i < k. isspace (char_at m (cur + of_nat i))" "\<not> isspace (char_at m (cur + of_nat k))"
  shows "skip_spaces m cur = Some (cur + of_nat k)"
  using assms
proof (induction k arbitrary: cur)
  case 0
  then show ?case by (subst skip_spaces.simps) simp
next
  case (Suc k)
  have "isspace (char_at m cur)" using Suc.prems(1) [rule_format, of 0] by simp
  moreover have "\<forall>i < k. isspace (char_at m (cur + 1 + of_nat i))"
  proof (intro allI impI)
    fix i assume "i < k"
    then show "isspace (char_at m (cur + 1 + of_nat i))"
      using Suc.prems(1) [rule_format, of "Suc i"] by (simp add: add.assoc)
  qed
  moreover have "\<not> isspace (char_at m (cur + 1 + of_nat k))" using Suc.prems(2) by (simp add: add.assoc)
  ultimately have "skip_spaces m (cur + 1) = Some (cur + 1 + of_nat k)" by (intro Suc.IH)
  with \<open>isspace (char_at m cur)\<close> show ?case by (subst skip_spaces.simps) (simp add: add.assoc)
qed

text \<open>One turn of the loop for both signs: \<open>acc\<close> is the magnitude so far.\<close>

definition long_limit :: "bool \<Rightarrow> int" where
  "long_limit neg = (if neg then - LONG_MIN else LONG_MAX)"

definition with_sign :: "bool \<Rightarrow> int \<Rightarrow> int" where
  "with_sign neg v = (if neg then - v else v)"

lemma strtol_digits_turn:
  assumes "0 < base" "DIG_IN_BASE (char_at m cur) base"
  shows "strtol_digits m base neg cur (with_sign neg acc) =
    (if long_limit neg div base < acc + digit_val (char_at m cur)
     then Option.bind (skip_digits m base (cur + 1)) (\<lambda>cur. Some (with_sign neg (long_limit neg), True, cur))
     else strtol_digits m base neg (cur + 1) (with_sign neg (acc * base + digit_val (char_at m cur))))"
proof -
  have m: "- (2 ^ 63) = LONG_MIN" "long_limit True = 2 ^ 63" "long_limit False = LONG_MAX" by (simp_all add: LONG_MIN_def long_limit_def)
  show ?thesis
    by (subst strtol_digits.simps)
      (use assms(2) in \<open>cases neg; simp only: LONG_sdiv [OF assms(1)] m with_sign_def if_True if_False; force simp: algebra_simps\<close>)
qed

lemma skip_digits_run:
  assumes "digit_run m base cur n" "\<not> DIG_IN_BASE (char_at m (cur + of_nat n)) base"
  shows "skip_digits m base cur = Some (cur + of_nat n)"
  using assms
proof (induction n arbitrary: cur)
  case 0
  then show ?case by (subst skip_digits.simps) simp
next
  case (Suc n)
  then have "DIG_IN_BASE (char_at m cur) base" "skip_digits m base (cur + 1) = Some (cur + 1 + of_nat n)"
    by (simp_all add: digit_run_Suc add.assoc)
  then show ?case by (subst skip_digits.simps) (simp add: add.assoc)
qed

text \<open>The check that passes keeps the value in range; the one that fails is for a value near the limit.\<close>

lemma range_check_keeps:
  fixes acc d base lim :: int
  assumes "acc + d \<le> lim div base" "0 \<le> d" "2 \<le> base"
  shows "acc * base + d \<le> lim"
proof -
  have "(acc + d) * base \<le> lim div base * base" using assms by (intro mult_right_mono) auto
  also have "\<dots> \<le> lim" using div_mult_mod_eq [of lim base] pos_mod_sign [of base lim] assms(3) by linarith
  finally have "acc * base + d * base \<le> lim" by (simp add: algebra_simps)
  moreover have "d * 1 \<le> d * base" using assms by (intro mult_left_mono) auto
  ultimately show ?thesis by linarith
qed

lemma strtol_digits_outcome:
  assumes "digit_run m base cur n" "\<not> DIG_IN_BASE (char_at m (cur + of_nat n)) base" "2 \<le> base" "base \<le> 36"
    "0 \<le> acc" "acc \<le> long_limit neg"
  defines "v \<equiv> digits_value m base cur n acc"
  shows "strtol_digits m base neg cur (with_sign neg acc) = Some (with_sign neg v, False, cur + of_nat n) \<and> v \<le> long_limit neg \<or>
    strtol_digits m base neg cur (with_sign neg acc) = Some (with_sign neg (long_limit neg), True, cur + of_nat n) \<and>
      long_limit neg - base * base < v"
  using assms(1, 2, 5, 6) unfolding v_def
proof (induction n arbitrary: cur acc)
  case 0
  then show ?case by (subst strtol_digits.simps) simp
next
  case (Suc n)
  let ?d = "digit_val (char_at m cur)" and ?acc = "acc * base + digit_val (char_at m cur)"
  from Suc.prems(1) have dig: "DIG_IN_BASE (char_at m cur) base" and run: "digit_run m base (cur + 1) n"
    by (simp_all add: digit_run_Suc)
  have d: "0 \<le> ?d" "?d < base" using digit_val_bounds [OF dig] assms(3, 4) by simp_all
  have acc: "0 \<le> ?acc" using d(1) assms(3) Suc.prems(3) by simp
  have stop: "\<not> DIG_IN_BASE (char_at m (cur + 1 + of_nat n)) base" using Suc.prems(2) by (simp add: add.assoc)
  have b: "0 < base" using assms(3) by simp
  note turn = strtol_digits_turn [OF b dig, of neg acc]
  show ?case
  proof (cases "long_limit neg div base < acc + ?d")
    case True
    have "\<not> ?acc \<le> long_limit neg - base * base"
      using range_check_passes [of acc base ?d "long_limit neg"] Suc.prems(3) d assms(3) True by linarith
    moreover have "?acc \<le> digits_value m base cur (Suc n) acc"
      using digits_value_ge [OF run assms(3, 4) acc] by simp
    ultimately show ?thesis using turn True skip_digits_run [OF run stop] by (simp add: add.assoc)
  next
    case False
    then have "?acc \<le> long_limit neg" using range_check_keeps [of acc ?d "long_limit neg" base] d(1) assms(3) by simp
    from Suc.IH [OF run stop acc this] turn False show ?thesis by (simp add: add.assoc)
  qed
qed

lemma number_prefix_base:
  "number_prefix m cur base = (b, digits) \<Longrightarrow> 0 \<le> base \<Longrightarrow> base \<noteq> 1 \<Longrightarrow> base \<le> 36 \<Longrightarrow> 2 \<le> b \<and> b \<le> 36"
  by (auto simp: number_prefix_def Let_def split: if_splits)

text \<open>
  C30. \<open>strtol\<close> on every string, for every base. A base that is none is answered with \<open>EINVAL\<close>. Otherwise
  it skips white space, takes an optional minus sign (a plus sign is not parsed), the prefix
  \<open>number_prefix\<close> recognises, which settles the base \<open>b\<close> for base 0, and the longest run of digits of \<open>b\<close>,
  behind which it points. A number whose magnitude is at least \<open>b * b\<close> below the limit of its sign is returned, with \<^verbatim>\<open>errno\<close> left
  alone; one beyond the limit gives the limit and \<open>ERANGE\<close>; one in the last \<open>b * b\<close> values before the limit gives
  either of the two (theorem \<open>strtol_rejects_representable\<close>).
\<close>

theorem strtol_correct:
  fixes m str base err
  assumes spaces: "\<forall>i < k. isspace (char_at m (str + of_nat i))" "\<not> isspace (char_at m (str + of_nat k))"
  defines "neg \<equiv> char_at m (str + of_nat k) = 45"
  assumes prefix: "number_prefix m (str + of_nat k + (if neg then 1 else 0)) base = (b, digits)"
    and run: "digit_run m b digits n" "\<not> DIG_IN_BASE (char_at m (digits + of_nat n)) b"
  defines "v \<equiv> digits_value m b digits n 0" and "lim \<equiv> if neg then - LONG_MIN else LONG_MAX"
  defines "exact \<equiv> Some (if neg then - v else v, err, Some (digits + of_nat n))"
    and "clipped \<equiv> Some (if neg then LONG_MIN else LONG_MAX, ERANGE, Some (digits + of_nat n))"
  shows "if base < 0 \<or> base = 1 \<or> 36 < base then strtol m str base err = Some (0, EINVAL, None)
    else (v \<le> lim - b * b \<longrightarrow> strtol m str base err = exact) \<and> (lim < v \<longrightarrow> strtol m str base err = clipped) \<and>
      (strtol m str base err = exact \<or> strtol m str base err = clipped)"
proof (cases "base < 0 \<or> base = 1 \<or> 36 < base")
  case True
  then show ?thesis by (auto simp: strtol_def)
next
  case False
  then have b: "2 \<le> b" "b \<le> 36" using number_prefix_base [OF prefix] by simp_all
  have lim: "lim = long_limit neg" and "0 \<le> long_limit neg" by (simp_all add: lim_def long_limit_def LONG_MIN_def LONG_MAX_def)
  have st: "strtol m str base err = Option.bind (strtol_digits m b neg digits 0) (\<lambda>(ret, out, cur).
      Some (ret, if out then ERANGE else err, Some cur))"
    using False skip_spaces_run [OF spaces] prefix by (auto simp: strtol_def Let_def neg_def split: if_splits)
  have "strtol m str base err = exact \<and> v \<le> lim \<or> strtol m str base err = clipped \<and> lim - b * b < v"
    using strtol_digits_outcome [OF run b, of 0 neg] \<open>0 \<le> long_limit neg\<close>
    unfolding st exact_def clipped_def lim v_def
    by (auto simp: with_sign_def long_limit_def)
  moreover have "0 \<le> b * b" by simp
  ultimately show ?thesis using False by auto
qed

text \<open>The string \<open>s\<close> at address 0, zeros behind it.\<close>

definition text_at_0 :: "u8 list \<Rightarrow> mem" where
  "text_at_0 s = (\<lambda>a. if unat a < length s then s ! unat a else 0)"

lemma text_char: "char_at (text_at_0 s) (of_nat k) = (if k < length s then sint (s ! k) else 0)" if "k < 100" "length s < 100"
  using that by (simp add: char_at_def text_at_0_def unat_of_nat_no_wrap)

text \<open>\<^verbatim>\<open>" -129;"\<close>\<close>

theorem strtol_correct_witness:
  "strtol (text_at_0 [32, 45, 49, 50, 57, 59]) 0 10 7 = Some (-129, 7, Some 5)"
proof -
  let ?m = "text_at_0 [32, 45, 49, 50, 57, 59]"
  have c: "char_at ?m 0 = 32" "char_at ?m 1 = 45" "char_at ?m 2 = 49" "char_at ?m 3 = 50" "char_at ?m 4 = 57"
    "char_at ?m 5 = 59"
    by (simp_all add: char_at_def text_at_0_def)
  have "digit_run ?m 10 2 3" by (simp add: digit_run_def DIG_IN_BASE_def c less_Suc_eq numeral_3_eq_3 eval_nat_numeral)
  moreover have "digits_value ?m 10 2 3 0 = 129"
    by (simp add: numeral_3_eq_3 c digit_val_def isdigit_def)
  ultimately show ?thesis
    using strtol_correct [where k = 1 and m = ?m and str = 0 and base = 10 and b = 10 and digits = 2 and n = 3 and err = 7]
    by (simp add: c isspace_def number_prefix_def DIG_IN_BASE_def LONG_MAX_def LONG_MIN_def)
qed

text \<open>The range check is too strict near the limits: \<open>strtol\<close> answers \<open>LONG_MAX\<close> and \<open>ERANGE\<close> for
  \<^verbatim>\<open>9223372036854775799\<close>, which a \<^verbatim>\<open>long\<close> can hold.\<close>

theorem strtol_rejects_representable:
  "\<exists>m. digits_value m 10 0 19 0 = 9223372036854775799 \<and> 9223372036854775799 < LONG_MAX \<and>
     strtol m 0 10 0 = Some (LONG_MAX, ERANGE, Some 19)"
proof -
  let ?s = "[57, 50, 50, 51, 51, 55, 50, 48, 51, 54, 56, 53, 52, 55, 55, 53, 55, 57, 57] :: u8 list"
  let ?m = "text_at_0 ?s"
  have c: "char_at ?m 0 = 57" "char_at ?m 1 = 50" "char_at ?m 2 = 50" "char_at ?m 3 = 51" "char_at ?m 4 = 51"
    "char_at ?m 5 = 55" "char_at ?m 6 = 50" "char_at ?m 7 = 48" "char_at ?m 8 = 51" "char_at ?m 9 = 54"
    "char_at ?m 10 = 56" "char_at ?m 11 = 53" "char_at ?m 12 = 52" "char_at ?m 13 = 55" "char_at ?m 14 = 55"
    "char_at ?m 15 = 53" "char_at ?m 16 = 55" "char_at ?m 17 = 57" "char_at ?m 18 = 57" "char_at ?m 19 = 0"
    by (simp_all add: char_at_def text_at_0_def)
  have v: "digits_value ?m 10 0 18 0 = 922337203685477579" "digits_value ?m 10 0 19 0 = 9223372036854775799"
    by (simp_all add: eval_nat_numeral(2) eval_nat_numeral(3) c digit_val_def isdigit_def)
  have "\<forall>k < 18. DIG_IN_BASE (char_at ?m (of_nat k)) 10"
    by (simp add: c DIG_IN_BASE_def less_Suc_eq eval_nat_numeral)
  then have run: "digit_run ?m 10 0 18" by (simp add: digit_run_def)
  have "strtol_digits ?m 10 False 0 0 = strtol_digits ?m 10 False 18 922337203685477579"
    using strtol_digits_prefix [OF run, of 0] by (simp add: v LONG_MAX_def)
  also have "\<dots> = Some (LONG_MAX, True, 19)"
    by (subst strtol_digits.simps, subst skip_digits.simps)
      (simp add: c DIG_IN_BASE_def digit_val_def isdigit_def LONG_MAX_def)
  finally have "strtol ?m 0 10 0 = Some (LONG_MAX, ERANGE, Some 19)"
    using skip_spaces.simps [of ?m 0] by (simp add: strtol_def number_prefix_def c isspace_def)
  with v(2) show ?thesis by (intro exI [of _ ?m]) (simp add: LONG_MAX_def)
qed

section \<open>qsort on bytes\<close>

text \<open>
  Elements of one byte, compared by \<open>c\<close>: the index arithmetic of \<open>qsort\<close>, which adds element
  numbers to addresses, is right exactly for those.
\<close>

definition byte_cmp :: "(u8 \<Rightarrow> u8 \<Rightarrow> int) \<Rightarrow> mem \<Rightarrow> addr \<Rightarrow> addr \<Rightarrow> int" where
  "byte_cmp c m a b = c (m a) (m b)"

definition comparison :: "(u8 \<Rightarrow> u8 \<Rightarrow> int) \<Rightarrow> bool" where
  "comparison c \<longleftrightarrow> (\<forall>x y. c x y \<le> 0 \<longleftrightarrow> 0 \<le> c y x) \<and> (\<forall>x y z. c x y \<le> 0 \<longrightarrow> c y z \<le> 0 \<longrightarrow> c x z \<le> 0)"

definition unchanged :: "mem \<Rightarrow> mem \<Rightarrow> addr \<Rightarrow> nat \<Rightarrow> bool" where
  "unchanged m m' ptr n \<longleftrightarrow> (\<forall>a. n \<le> unat (a - ptr) \<longrightarrow> m' a = m a)"

lemma unchanged_trans: "unchanged m m1 ptr n \<Longrightarrow> unchanged m1 m2 ptr n \<Longrightarrow> unchanged m m2 ptr n"
  by (simp add: unchanged_def)

lemma length_bytes_at [simp]: "length (bytes_at m p n) = n"
  by (simp add: bytes_at_def)

lemma nth_bytes_at [simp]: "k < n \<Longrightarrow> bytes_at m p n ! k = m (p + of_nat k)"
  by (simp add: bytes_at_def)

lemma same_offset:
  assumes "i < n" "k < n" "n < 2 ^ 64"
  shows "ptr + of_nat i = ptr + (of_nat k :: addr) \<longleftrightarrow> i = k"
proof -
  have "unat (of_nat i :: addr) = i" "unat (of_nat k :: addr) = k"
    using assms by (simp_all add: unat_of_nat_no_wrap)
  then show ?thesis by (metis add_left_imp_eq)
qed

lemma bytes_at_upd:
  assumes "i < n" "n < 2 ^ 64"
  shows "bytes_at (m(ptr + of_nat i := x)) ptr n = (bytes_at m ptr n)[i := x]"
proof (rule nth_equalityI)
  fix k assume "k < length (bytes_at (m(ptr + of_nat i := x)) ptr n)"
  then have k: "k < n" by simp
  show "bytes_at (m(ptr + of_nat i := x)) ptr n ! k = (bytes_at m ptr n)[i := x] ! k"
    using same_offset [OF k assms, of ptr] assms k by (simp add: nth_list_update eq_commute)
qed simp

lemma unchanged_upd:
  assumes "i < n" "n < 2 ^ 64"
  shows "unchanged m (m(ptr + of_nat i := x)) ptr n"
  using assms by (auto simp: unchanged_def unat_of_nat_no_wrap)

text \<open>Swapping two bytes of the block.\<close>

lemma memswap_bytes:
  assumes "i < n" "j < n" "n < 2 ^ 64"
  shows "bytes_at (memswap m (ptr + of_nat i) (ptr + of_nat j) 1) ptr n =
      (bytes_at m ptr n)[i := bytes_at m ptr n ! j, j := bytes_at m ptr n ! i]"
    and "unchanged m (memswap m (ptr + of_nat i) (ptr + of_nat j) 1) ptr n"
  using assms unchanged_trans [OF unchanged_upd unchanged_upd]
  by (simp_all add: Let_def bytes_at_upd)

text \<open>The same loop on the list of the block's bytes.\<close>

definition swap_at :: "'a list \<Rightarrow> nat \<Rightarrow> nat \<Rightarrow> 'a list" where
  "swap_at xs i j = xs[i := xs ! j, j := xs ! i]"

function loop_list :: "(u8 \<Rightarrow> u8 \<Rightarrow> int) \<Rightarrow> u8 list \<Rightarrow> nat \<Rightarrow> nat \<Rightarrow> u8 list \<times> nat" where
  "loop_list c xs i j =
     (if i < j
      then if c (xs ! i) (xs ! 0) \<le> 0 then loop_list c xs (i + 1) j
           else if 0 < c (xs ! j) (xs ! 0) then loop_list c xs i (j - 1)
           else loop_list c (swap_at xs i j) (i + 1) (j - 1)
      else (xs, i))"
  by pat_completeness auto
termination by (relation "measure (\<lambda>(_, _, i, j). j - i)") auto

declare loop_list.simps [simp del]

lemma partition_loop_bytes:
  assumes "j < n" "n < 2 ^ 64" "partition_loop (byte_cmp c) ptr 1 m i j = (m', i')"
  shows "loop_list c (bytes_at m ptr n) i j = (bytes_at m' ptr n, i') \<and> unchanged m m' ptr n"
  using assms
proof (induction "j - i" arbitrary: m i j rule: less_induct)
  case less
  let ?x = "bytes_at m ptr n" and ?P = "partition_loop (byte_cmp c) ptr 1"
  let ?m = "memswap m (ptr + of_nat i) (ptr + of_nat j) 1"
  show ?case
  proof (cases "i < j")
    case False
    with less.prems show ?thesis
      by (subst (asm) partition_loop.simps, subst loop_list.simps) (simp add: unchanged_def)
  next
    case True
    have "?P m i j = (if c (?x ! i) (?x ! 0) \<le> 0 then ?P m (i + 1) j
       else if 0 < c (?x ! j) (?x ! 0) then ?P m i (j - 1) else ?P ?m (i + 1) (j - 1))"
      using less.prems True by (subst partition_loop.simps) (simp add: byte_cmp_def)
    moreover have "loop_list c ?x i j = (if c (?x ! i) (?x ! 0) \<le> 0 then loop_list c ?x (i + 1) j
       else if 0 < c (?x ! j) (?x ! 0) then loop_list c ?x i (j - 1) else loop_list c (swap_at ?x i j) (i + 1) (j - 1))"
      using True by (subst loop_list.simps) simp
    moreover have "bytes_at ?m ptr n = swap_at ?x i j" "unchanged m ?m ptr n"
      using memswap_bytes [of i n j m ptr] less.prems True by (auto simp: swap_at_def)
    ultimately show ?thesis
      using less.hyps [of j "i + 1" m] less.hyps [of "j - 1" i m] less.hyps [of "j - 1" "i + 1" ?m] less.prems True
        unchanged_trans [of m ?m ptr n m']
      by (auto split: if_splits)
  qed
qed

definition low :: "(u8 \<Rightarrow> u8 \<Rightarrow> int) \<Rightarrow> u8 list \<Rightarrow> nat \<Rightarrow> bool" where
  "low c xs i \<longleftrightarrow> (\<forall>k. 1 \<le> k \<longrightarrow> k < i \<longrightarrow> c (xs ! k) (xs ! 0) \<le> 0)"

definition high :: "(u8 \<Rightarrow> u8 \<Rightarrow> int) \<Rightarrow> u8 list \<Rightarrow> nat \<Rightarrow> bool" where
  "high c xs j \<longleftrightarrow> (\<forall>k. j < k \<longrightarrow> k < length xs \<longrightarrow> 0 < c (xs ! k) (xs ! 0))"

lemma swap_at_props:
  assumes "1 \<le> i" "i < j" "j < length xs"
  shows "swap_at xs i j ! 0 = xs ! 0" "mset (swap_at xs i j) = mset xs" "length (swap_at xs i j) = length xs"
    "k < length xs \<Longrightarrow> swap_at xs i j ! k = (if k = j then xs ! i else if k = i then xs ! j else xs ! k)"
  using assms mset_swap [of j xs i] by (auto simp: swap_at_def nth_list_update list_update_swap)

lemma loop_list_splits:
  assumes "loop_list c xs i j = (ys, i')" "1 \<le> i" "i \<le> j + 1" "j < length xs" "low c xs i" "high c xs j"
  shows "ys ! 0 = xs ! 0 \<and> mset ys = mset xs \<and> i \<le> i' \<and> low c ys i' \<and> high c ys i' \<and>
    (i < j \<and> i = i' \<longrightarrow> 0 < c (ys ! i') (ys ! 0))"
  using assms
proof (induction c xs i j arbitrary: ys i' rule: loop_list.induct)
  case (1 c xs i j)
  show ?case
  proof (cases "i < j")
    case False
    with "1.prems" have "j \<le> i" "ys = xs" "i' = i" by (simp_all add: loop_list.simps)
    with "1.prems"(5, 6) show ?thesis by (auto simp: high_def)
  next
    case True
    show ?thesis
    proof (cases "c (xs ! i) (xs ! 0) \<le> 0")
      case c: True
      have "loop_list c xs (i + 1) j = (ys, i')" using "1.prems"(1) True c by (simp add: loop_list.simps)
      moreover have "low c xs (i + 1)" using "1.prems"(5) c by (auto simp: low_def less_Suc_eq)
      ultimately show ?thesis using "1.IH"(1) [OF True c, of ys i'] "1.prems" True by auto
    next
      case c: False
      show ?thesis
      proof (cases "0 < c (xs ! j) (xs ! 0)")
        case d: True
        have l: "loop_list c xs i (j - 1) = (ys, i')" using "1.prems"(1) True c d by (simp add: loop_list.simps)
        have "high c xs (j - 1)" unfolding high_def
        proof (intro allI impI)
          fix k assume "j - 1 < k" "k < length xs"
          then show "0 < c (xs ! k) (xs ! 0)" using d "1.prems"(6) by (cases "k = j") (auto simp: high_def)
        qed
        moreover have "j - 1 < length xs" "i \<le> j - 1 + 1" using "1.prems"(4) True by auto
        ultimately have IH: "ys ! 0 = xs ! 0 \<and> mset ys = mset xs \<and> i \<le> i' \<and> low c ys i' \<and> high c ys i' \<and>
            (i < j - 1 \<and> i = i' \<longrightarrow> 0 < c (ys ! i') (ys ! 0))"
          using "1.IH"(2) [OF True c d l "1.prems"(2) _ _ "1.prems"(5)] by blast
        moreover have "ys = xs" if "\<not> i < j - 1" using l that by (simp add: loop_list.simps)
        ultimately show ?thesis using c by (metis not_le)
      next
        case d: False
        let ?y = "swap_at xs i j"
        have l: "loop_list c ?y (i + 1) (j - 1) = (ys, i')"
          using "1.prems"(1) True c d by (simp add: loop_list.simps)
        note sw = swap_at_props [OF "1.prems"(2) True "1.prems"(4)]
        have "low c ?y (i + 1)" unfolding low_def sw(1)
        proof (intro allI impI)
          fix k assume "1 \<le> k" "k < i + 1"
          then show "c (?y ! k) (xs ! 0) \<le> 0"
            using d "1.prems"(4, 5) True by (cases "k = i") (auto simp: low_def sw(4))
        qed
        moreover have "high c ?y (j - 1)" unfolding high_def sw(1, 3)
        proof (intro allI impI)
          fix k assume "j - 1 < k" "k < length xs"
          then show "0 < c (?y ! k) (xs ! 0)"
            using c "1.prems"(6) True by (cases "k = j") (auto simp: high_def sw(4))
        qed
        moreover have "j - 1 < length ?y" "i + 1 \<le> j - 1 + 1" "1 \<le> i + 1"
          using "1.prems"(4) True sw(3) by auto
        ultimately have "ys ! 0 = ?y ! 0 \<and> mset ys = mset ?y \<and> i + 1 \<le> i' \<and> low c ys i' \<and> high c ys i'"
          using "1.IH"(3) [OF True c d l] by blast
        then show ?thesis using sw by simp
      qed
    qed
  qed
qed

text \<open>\<open>partition\<close> puts the pivot at its place.\<close>

lemma partition_at_bytes:
  assumes "partition_at (byte_cmp c) ptr n 1 0 m = (m', q)" "2 < n" "n < 2 ^ 64"
  defines "zs \<equiv> bytes_at m' ptr n"
  shows "q < n" "mset zs = mset (bytes_at m ptr n)" "unchanged m m' ptr n"
    "\<forall>k < q. c (zs ! k) (zs ! q) \<le> 0" "\<forall>k. q < k \<and> k < n \<longrightarrow> 0 < c (zs ! k) (zs ! q)"
proof -
  have same: "memswap m ptr (ptr + of_nat 0) 1 = m" by (simp add: Let_def)
  obtain m1 i where loop: "partition_loop (byte_cmp c) ptr 1 m 1 (n - 1) = (m1, i)" by fastforce
  define ys where "ys = bytes_at m1 ptr n"
  from partition_loop_bytes [OF _ assms(3) loop] assms(2)
  have l: "loop_list c (bytes_at m ptr n) 1 (n - 1) = (ys, i)" and un: "unchanged m m1 ptr n"
    by (simp_all add: ys_def)
  have i: "i \<le> n - 1" using partition_loop_bound [of 1 "n - 1" "n - 1" "byte_cmp c" ptr 1 m] loop assms(2) by simp
  have sp: "mset ys = mset (bytes_at m ptr n)" "1 \<le> i" "low c ys i" "high c ys i"
    "i = 1 \<Longrightarrow> 0 < c (ys ! i) (ys ! 0)"
  proof -
    have "low c (bytes_at m ptr n) 1" "high c (bytes_at m ptr n) (n - 1)" by (auto simp: low_def high_def)
    moreover have "1 \<le> n - 1 + 1" "n - 1 < length (bytes_at m ptr n)" "1 < n - 1" using assms(2) by auto
    ultimately show "mset ys = mset (bytes_at m ptr n)" "1 \<le> i" "low c ys i" "high c ys i"
      "i = 1 \<Longrightarrow> 0 < c (ys ! i) (ys ! 0)"
      using loop_list_splits [OF l order.refl] by blast+
  qed
  have len: "length ys = n" by (simp add: ys_def)
  have m1: "m1 (ptr + of_nat i) = ys ! i" "m1 ptr = ys ! 0" using i assms(2) by (simp_all add: ys_def)
  define q' where "q' = (if 1 < i then if 0 < c (ys ! i) (ys ! 0) then i - 1 else i else 0)"
  have eq: "(if 1 < i then if 0 < c (ys ! i) (ys ! 0) then (memswap m1 ptr (ptr + of_nat (i - 1)) 1, i - 1)
      else (memswap m1 ptr (ptr + of_nat i) 1, i) else (m1, 0)) = (m', q)"
    using assms(1) unfolding partition_at_def Let_def same loop prod.case byte_cmp_def m1 .
  have res: "q = q'" "m' = (if 1 < i then memswap m1 ptr (ptr + of_nat q') 1 else m1)"
    using eq by (auto simp: q'_def simp del: memswap.simps split: if_splits)
  have qn: "q' < n" "q' \<le> i" using i assms(2) by (auto simp: q'_def)
  have q0: "q' = 0 \<longleftrightarrow> i = 1" using sp(2) by (auto simp: q'_def)
  have zs: "zs = ys[0 := ys ! q', q' := ys ! 0] \<and> unchanged m1 m' ptr n"
  proof (cases "1 < i")
    case True
    with memswap_bytes [of 0 n q' m1 ptr] qn(1) assms(2, 3) show ?thesis
      by (simp add: zs_def res(2) ys_def del: memswap.simps)
  next
    case False
    then show ?thesis using res(2) q0 sp(2) len by (simp add: zs_def ys_def unchanged_def)
  qed
  have nth: "zs ! k = (if k = q' then ys ! 0 else if k = 0 then ys ! q' else ys ! k)" if "k < n" for k
    using zs that qn(1) len assms(2) by (auto simp: nth_list_update)
  have lo: "c (ys ! k) (ys ! 0) \<le> 0" if "1 \<le> k" "k \<le> q'" for k
  proof (cases "k = i")
    case True
    then show ?thesis using that by (auto simp: q'_def split: if_splits)
  next
    case False
    then show ?thesis using that qn(2) sp(3) by (simp add: low_def)
  qed
  have hi: "0 < c (ys ! k) (ys ! 0)" if "q' < k" "k < n" for k
  proof (cases "k = i")
    case True
    moreover have "i = 1 \<or> 0 < c (ys ! i) (ys ! 0)"
      using that True sp(2) by (auto simp: q'_def split: if_splits)
    ultimately show ?thesis using sp(5) by auto
  next
    case False
    then have "i < k" using that by (auto simp: q'_def split: if_splits)
    then show ?thesis using that sp(4) len by (simp add: high_def)
  qed
  show "q < n" using qn res by simp
  have "mset zs = mset ys" using zs qn(1) len assms(2) mset_swap [of q' ys 0] by (simp add: list_update_swap)
  then show "mset zs = mset (bytes_at m ptr n)" using sp(1) by simp
  show "unchanged m m' ptr n" using un zs unchanged_trans by blast
  show "\<forall>k < q. c (zs ! k) (zs ! q) \<le> 0"
  proof (intro allI impI)
    fix k assume "k < q"
    then show "c (zs ! k) (zs ! q) \<le> 0" using lo [of k] lo [of q'] nth qn(1) res(1) by (cases "k = 0") auto
  qed
  show "\<forall>k. q < k \<and> k < n \<longrightarrow> 0 < c (zs ! k) (zs ! q)"
    using hi nth qn(1) res(1) by auto
qed

lemma bytes_at_add:
  "bytes_at m p (a + b) = bytes_at m p a @ bytes_at m (p + of_nat a) b"
  by (rule nth_equalityI) (auto simp: nth_append add.assoc simp flip: of_nat_add)

lemma bytes_at_around:
  assumes "q < n"
  shows "bytes_at m p n = bytes_at m p q @ m (p + of_nat q) # bytes_at m (p + of_nat q + 1) (n - q - 1)"
proof -
  have "n = q + (1 + (n - q - 1))" using assms by simp
  then have "bytes_at m p n = bytes_at m p q @ bytes_at m (p + of_nat q) 1 @ bytes_at m (p + of_nat q + of_nat 1) (n - q - 1)"
    by (metis bytes_at_add)
  then show ?thesis by (simp add: bytes_at_def)
qed

lemma unchanged_sub:
  assumes "unchanged m m' (p + of_nat a) b" "a + b \<le> n" "n < 2 ^ 64"
  shows "unchanged m m' p n" "bytes_at m' p a = bytes_at m p a"
    "a + b \<le> d \<Longrightarrow> d < n \<Longrightarrow> m' (p + of_nat d) = m (p + of_nat d)"
    "a + b \<le> d \<Longrightarrow> d + e \<le> n \<Longrightarrow> bytes_at m' (p + of_nat d) e = bytes_at m (p + of_nat d) e"
proof -
  have far: "m' x = m x" if "unat (x - p) < a \<or> a + b \<le> unat (x - p)" for x
  proof -
    have a: "unat (of_nat a :: addr) = a" using assms(2, 3) by (simp add: unat_of_nat_no_wrap)
    have eq: "x - (p + of_nat a) = (x - p) - of_nat a" by simp
    have "b \<le> unat ((x - p) - of_nat a)"
    proof (cases "unat (x - p) < a")
      case True
      then have "unat ((x - p) - of_nat a) = unat (x - p) + 2 ^ 64 - a"
        by (simp add: unat_sub_if_size a word_size word_le_nat_alt)
      then show ?thesis using assms(2, 3) by simp
    next
      case False
      then have "unat ((x - p) - of_nat a) = unat (x - p) - a"
        by (subst unat_sub_no_wrap) (simp_all add: a word_le_nat_alt)
      then show ?thesis using False that by simp
    qed
    with assms(1) show ?thesis by (simp only: unchanged_def eq)
  qed
  have off: "unat (p + of_nat k - p :: addr) = k" if "k < n" for k
    using that assms(3) by (simp add: unat_of_nat_no_wrap)
  show "unchanged m m' p n" using far assms(2) by (auto simp: unchanged_def)
  show "bytes_at m' p a = bytes_at m p a"
    by (rule nth_equalityI) (use far off assms(2) in auto)
  show d: "m' (p + of_nat d) = m (p + of_nat d)" if "a + b \<le> d" "d < n" for d
    using that far off by auto
  show "bytes_at m' (p + of_nat d) e = bytes_at m (p + of_nat d) e" if "a + b \<le> d" "d + e \<le> n"
  proof (rule nth_equalityI)
    fix k assume "k < length (bytes_at m' (p + of_nat d) e)"
    then show "bytes_at m' (p + of_nat d) e ! k = bytes_at m (p + of_nat d) e ! k"
      using d [of "d + k"] that by (simp add: add.assoc)
  qed simp
qed

lemma qsort_bytes:
  assumes "comparison c" "n < 2 ^ 64"
  shows "sorted_wrt (\<lambda>x y. c x y \<le> 0) (bytes_at (qsort (byte_cmp c) ptr n 1 m) ptr n) \<and>
    mset (bytes_at (qsort (byte_cmp c) ptr n 1 m) ptr n) = mset (bytes_at m ptr n) \<and>
    unchanged m (qsort (byte_cmp c) ptr n 1 m) ptr n"
  using assms(2)
proof (induction n arbitrary: ptr m rule: less_induct)
  case (less n)
  let ?le = "\<lambda>x y. c x y \<le> 0"
  have tot: "c x y \<le> 0" if "0 \<le> c y x" for x y using assms(1) that by (simp add: comparison_def)
  have trans: "c x z \<le> 0" if "c x y \<le> 0" "c y z \<le> 0" for x y z
    using assms(1) that unfolding comparison_def by blast
  consider "n < 2" | "n = 2" | "2 < n" by linarith
  then show ?case
  proof cases
    case 1
    then have "qsort (byte_cmp c) ptr n 1 m = m" by (simp add: qsort.simps)
    moreover have "sorted_wrt ?le xs" if "length xs < 2" for xs using that by (cases xs; cases "tl xs") auto
    ultimately show ?thesis using 1 by (simp add: unchanged_def)
  next
    case 2
    let ?m = "memswap m ptr (ptr + 1) 1"
    have sw: "bytes_at ?m ptr 2 = [m (ptr + 1), m ptr]" "unchanged m ?m ptr 2"
      using memswap_bytes [of 0 2 1 m ptr] by (simp_all add: bytes_at_def upt_rec del: memswap.simps)
    have b: "bytes_at m ptr 2 = [m ptr, m (ptr + 1)]" by (simp add: bytes_at_def upt_rec)
    have q: "qsort (byte_cmp c) ptr n 1 m = (if c (m (ptr + 1)) (m ptr) < 0 then ?m else m)"
      using 2 by (subst qsort.simps) (simp add: byte_cmp_def)
    show ?thesis
    proof (cases "c (m (ptr + 1)) (m ptr) < 0")
      case True
      then show ?thesis unfolding q using sw b 2 by (simp add: add_mset_commute del: memswap.simps)
    next
      case False
      then have "c (m ptr) (m (ptr + 1)) \<le> 0" by (intro tot) simp
      with False show ?thesis unfolding q using b 2 by (simp add: unchanged_def)
    qed
  next
    case 3
    obtain m1 q where p: "partition_at (byte_cmp c) ptr n 1 0 m = (m1, q)" by fastforce
    note pa = partition_at_bytes [OF p 3 less.prems]
    let ?z = "bytes_at m1 ptr n"
    define m2 where "m2 = qsort (byte_cmp c) ptr q 1 m1"
    define m3 where "m3 = qsort (byte_cmp c) (ptr + of_nat q + 1) (n - q - 1) 1 m2"
    have nxt: "ptr + of_nat q + 1 = ptr + of_nat (q + 1)" by simp
    have q3: "qsort (byte_cmp c) ptr n 1 m = m3"
      using 3 p by (subst qsort.simps) (simp add: Let_def m3_def m2_def)
    have IH2: "sorted_wrt ?le (bytes_at m2 ptr q)" "mset (bytes_at m2 ptr q) = mset (bytes_at m1 ptr q)"
      "unchanged m1 m2 ptr q"
      using less.IH [of q ptr m1] pa(1) less.prems by (simp_all add: m2_def)
    have IH3: "sorted_wrt ?le (bytes_at m3 (ptr + of_nat q + 1) (n - q - 1))"
      "mset (bytes_at m3 (ptr + of_nat q + 1) (n - q - 1)) = mset (bytes_at m2 (ptr + of_nat q + 1) (n - q - 1))"
      "unchanged m2 m3 (ptr + of_nat (q + 1)) (n - q - 1)"
      using less.IH [of "n - q - 1" "ptr + of_nat q + 1" m2] 3 less.prems by (simp_all add: m3_def nxt)
    note s2 = unchanged_sub [of m1 m2 ptr 0 q n, simplified, OF IH2(3) less_imp_le [OF pa(1)]]
    have bound: "q + 1 + (n - q - 1) \<le> n" using pa(1) by simp
    note s3 = unchanged_sub [OF IH3(3) bound less.prems]
    have left: "bytes_at m3 ptr q = bytes_at m2 ptr q" "m3 (ptr + of_nat q) = m2 (ptr + of_nat q)"
    proof -
      have e: "bytes_at m3 ptr (q + 1) = bytes_at m2 ptr (q + 1)" by (rule s3(2))
      have same: "m3 (ptr + of_nat k) = m2 (ptr + of_nat k)" if "k < q + 1" for k
        using arg_cong [OF e, of "\<lambda>l. l ! k"] that by (simp del: One_nat_def add_Suc_right)
      show "bytes_at m3 ptr q = bytes_at m2 ptr q" "m3 (ptr + of_nat q) = m2 (ptr + of_nat q)"
        using same by (auto simp: bytes_at_def)
    qed
    have right: "m2 (ptr + of_nat q) = m1 (ptr + of_nat q)"
      "bytes_at m2 (ptr + of_nat q + 1) (n - q - 1) = bytes_at m1 (ptr + of_nat q + 1) (n - q - 1)"
      using s2(3) [of q] s2(4) [of "q + 1" "n - q - 1"] less.prems pa(1) by (simp_all add: nxt)
    let ?L = "bytes_at m3 ptr q" and ?R = "bytes_at m3 (ptr + of_nat q + 1) (n - q - 1)" and ?p = "m1 (ptr + of_nat q)"
    have whole: "bytes_at m3 ptr n = ?L @ ?p # ?R" using bytes_at_around [OF pa(1), of m3 ptr] left(2) right(1) by simp
    have parts: "?z = bytes_at m1 ptr q @ ?p # bytes_at m1 (ptr + of_nat q + 1) (n - q - 1)"
      by (rule bytes_at_around [OF pa(1)])
    have ms: "mset ?L = mset (bytes_at m1 ptr q)" "mset ?R = mset (bytes_at m1 (ptr + of_nat q + 1) (n - q - 1))"
      using left IH2(2) IH3(2) right(2) by simp_all
    have lo: "\<forall>x \<in> set ?L. c x ?p \<le> 0"
    proof
      fix x assume "x \<in> set ?L"
      then have "x \<in> set (bytes_at m1 ptr q)" using mset_eq_setD [OF ms(1)] by simp
      then obtain k where "k < q" "x = m1 (ptr + of_nat k)" by (auto simp: bytes_at_def)
      then show "c x ?p \<le> 0" using pa(1, 4) by auto
    qed
    have hi: "\<forall>x \<in> set ?R. c ?p x \<le> 0"
    proof
      fix x assume "x \<in> set ?R"
      then have "x \<in> set (bytes_at m1 (ptr + of_nat (q + 1)) (n - q - 1))" using mset_eq_setD [OF ms(2)] by (simp add: nxt)
      then obtain k where "k < n - q - 1" "x = m1 (ptr + of_nat (q + 1) + of_nat k)" by (auto simp: bytes_at_def)
      then have x: "x = m1 (ptr + of_nat (q + 1 + k))" "q < q + 1 + k" "q + 1 + k < n" by (simp_all add: add.assoc)
      have "0 < c (m1 (ptr + of_nat (q + 1 + k))) ?p"
        using spec [OF pa(5), of "q + 1 + k"] pa(1) x(2, 3) by (simp only: nth_bytes_at)
      then have "0 \<le> c x ?p" by (simp only: x(1) less_imp_le)
      then show "c ?p x \<le> 0" by (rule tot)
    qed
    have "sorted_wrt ?le (?L @ ?p # ?R)"
      using IH2(1) IH3(1) left(1) lo hi trans by (fastforce simp: sorted_wrt_append)
    moreover have "mset (?L @ ?p # ?R) = mset (bytes_at m ptr n)"
      using ms pa(2) parts by simp
    moreover have "unchanged m m3 ptr n"
    proof -
      have "unchanged m1 m2 ptr n" using s2(1) less.prems by simp
      then show ?thesis by (rule unchanged_trans [OF unchanged_trans [OF pa(3)] s3(1)])
    qed
    ultimately show ?thesis unfolding q3 whole by blast
  qed
qed

text \<open>C31. \<open>qsort\<close> sorts arrays of bytes: for every comparison that is a total preorder it terminates with
  the array in order, a permutation of what it was, and no byte outside it changed.\<close>

theorem qsort_sorts_bytes:
  assumes "comparison c" "n < 2 ^ 64"
  shows "sorted_wrt (\<lambda>x y. c x y \<le> 0) (bytes_at (qsort (byte_cmp c) ptr n 1 m) ptr n) \<and>
    mset (bytes_at (qsort (byte_cmp c) ptr n 1 m) ptr n) = mset (bytes_at m ptr n) \<and>
    (\<forall>a. n \<le> unat (a - ptr) \<longrightarrow> qsort (byte_cmp c) ptr n 1 m a = m a)"
  using qsort_bytes [OF assms, of ptr m] by (simp add: unchanged_def)

lemma comparison_int: "comparison (\<lambda>x y. uint x - uint y)"
  by (auto simp: comparison_def)

theorem qsort_sorts_bytes_witness:
  "sorted_wrt (\<lambda>x y. uint x - uint y \<le> 0)
     (bytes_at (qsort (byte_cmp (\<lambda>x y. uint x - uint y)) 0 4 1 (text_at_0 [9, 3, 7, 1])) 0 4) \<and>
   mset (bytes_at (qsort (byte_cmp (\<lambda>x y. uint x - uint y)) 0 4 1 (text_at_0 [9, 3, 7, 1])) 0 4) = {#1, 3, 7, 9#}"
  using qsort_sorts_bytes [OF comparison_int, of 4 0 "text_at_0 [9, 3, 7, 1]"]
  by (auto simp: bytes_at_def text_at_0_def upt_rec)

text \<open>Elements of two bytes, least significant byte first.\<close>

definition u16_cmp :: "mem \<Rightarrow> addr \<Rightarrow> addr \<Rightarrow> int" where
  "u16_cmp m a b = (uint (m a) + 256 * uint (m (a + 1))) - (uint (m b) + 256 * uint (m (b + 1)))"

text \<open>\<open>qsort\<close> does not sort larger elements: it adds element numbers, not byte offsets, to the array's
  address, so of the two-byte elements 2, 1 it compares the first with the bytes between them and
  leaves the array as it is.\<close>

theorem qsort_misses_larger_elements:
  "qsort u16_cmp 0 2 2 (text_at_0 [2, 0, 1, 0]) = text_at_0 [2, 0, 1, 0] \<and>
   0 < u16_cmp (text_at_0 [2, 0, 1, 0]) 0 2"
  by (simp add: qsort.simps u16_cmp_def text_at_0_def)

end
