(* ===== verification/Threads.thy ===== *)
theory Threads
  imports Prelude
begin

text \<open>
  The spin mutex of \<^verbatim>\<open>src/libc/threads.c\<close>, twice. The functions themselves, for one thread
  that runs alone: \<open>mtx_lock\<close> is a loop, so its result is an option, \<open>None\<close> when it spins
  forever. And the same atomic accesses as steps of any number of threads that interleave
  freely: a thread in \<open>mtx_lock\<close> first loads \<open>locked\<close>, then exchanges it, and either enters
  its critical section or starts over.
\<close>

section \<open>The functions\<close>

record mtx =
  locked :: bool

definition thrd_success :: int where "thrd_success = 0"
definition thrd_busy :: int where "thrd_busy = 3"
definition thrd_error :: int where "thrd_error = 4"

definition mtx_plain :: u32 where "mtx_plain = 0"
definition mtx_recursive :: u32 where "mtx_recursive = 1"
definition mtx_timed :: u32 where "mtx_timed = 2"

definition mtx_init :: "mtx \<Rightarrow> u32 \<Rightarrow> int \<times> mtx" where
  "mtx_init mutex ty =
     (if ty AND mtx_recursive \<noteq> 0 \<or> ty AND mtx_timed \<noteq> 0 then (thrd_error, mutex)
      else (thrd_success, mutex\<lparr>locked := False\<rparr>))"

definition atomic_exchange :: "mtx \<Rightarrow> bool \<Rightarrow> bool \<times> mtx" where
  "atomic_exchange mutex v = (locked mutex, mutex\<lparr>locked := v\<rparr>)"

partial_function (option) mtx_lock :: "mtx \<Rightarrow> (int \<times> mtx) option" where
  "mtx_lock mutex =
     (if \<not> locked mutex
      then case atomic_exchange mutex True of
             (old, mutex') \<Rightarrow> if \<not> old then Some (thrd_success, mutex') else mtx_lock mutex'
      else mtx_lock mutex)"

definition mtx_trylock :: "mtx \<Rightarrow> int \<times> mtx" where
  "mtx_trylock mutex =
     (case atomic_exchange mutex True of
        (old, mutex') \<Rightarrow> if old then (thrd_busy, mutex') else (thrd_success, mutex'))"

definition mtx_unlock :: "mtx \<Rightarrow> int \<times> mtx" where
  "mtx_unlock mutex = (thrd_success, mutex\<lparr>locked := False\<rparr>)"

lemma mtx_lock_free: "\<not> locked mutex \<Longrightarrow> mtx_lock mutex = Some (thrd_success, mutex\<lparr>locked := True\<rparr>)"
  by (simp add: mtx_lock.simps atomic_exchange_def)

lemma mtx_lock_held: "locked mutex \<Longrightarrow> mtx_lock mutex = None"
proof (rule ccontr)
  assume l: "locked mutex" and "mtx_lock mutex \<noteq> None"
  then obtain r where "mtx_lock mutex = Some r" by auto
  then have "\<not> locked mutex"
    by (rule mtx_lock.raw_induct [where P = "\<lambda>mutex r. \<not> locked mutex", rotated])
      (auto simp: atomic_exchange_def split: if_splits)
  with l show False by simp
qed

section \<open>The interface of a mutex\<close>

text \<open>
  Every caller in the kernel wraps the calls in \<^verbatim>\<open>if(mtx_lock(&m) != thrd_success)
  kernel_panic(U"mutex failed")\<close>: \<open>acquire\<close> and \<open>release\<close> are these statements.
\<close>

definition acquire :: "mtx \<Rightarrow> mtx res" where
  "acquire mutex =
     (case mtx_lock mutex of
        None \<Rightarrow> Inl Hang
      | Some (r, mutex') \<Rightarrow> if r \<noteq> thrd_success then Inl (Panic ''mutex failed'') else Inr mutex')"

definition release :: "mtx \<Rightarrow> mtx res" where
  "release mutex =
     (case mtx_unlock mutex of
        (r, mutex') \<Rightarrow> if r \<noteq> thrd_success then Inl (Panic ''mutex failed'') else Inr mutex')"

locale mutex_ops =
  fixes lock :: "'m \<Rightarrow> 'm res" and unlock :: "'m \<Rightarrow> 'm res" and held :: "'m \<Rightarrow> bool"
  assumes lock_free: "\<not> held x \<Longrightarrow> \<exists>y. lock x = Inr y \<and> held y"
    and lock_held: "held x \<Longrightarrow> lock x = Inl Hang"
    and unlock_frees: "\<exists>y. unlock x = Inr y \<and> \<not> held y"
begin

lemma lock_returns_iff: "(\<exists>y. lock x = Inr y) \<longleftrightarrow> \<not> held x"
  using lock_free lock_held by force

text \<open>Locking twice without unlocking never returns.\<close>

lemma relock_hangs: "lock x = Inr y \<Longrightarrow> lock y = Inl Hang"
  by (metis Inl_Inr_False lock_free lock_held sum.inject(2))

lemma lock_then_unlock: "\<not> held x \<Longrightarrow> \<exists>y z. lock x = Inr y \<and> unlock y = Inr z \<and> \<not> held z"
  using lock_free unlock_frees by blast

end

lemma acquire_eq: "acquire mutex = (if locked mutex then Inl Hang else Inr (mutex\<lparr>locked := True\<rparr>))"
  by (simp add: acquire_def mtx_lock_free mtx_lock_held)

lemma release_eq: "release mutex = Inr (mutex\<lparr>locked := False\<rparr>)"
  by (simp add: release_def mtx_unlock_def)

interpretation mx: mutex_ops acquire release locked
  by unfold_locales (auto simp: acquire_eq release_eq)

section \<open>Threads that interleave\<close>

text \<open>
  What a thread does next: \<open>Outside\<close> any call, about to \<open>Load\<close> or to \<open>Xchg\<close> inside
  \<open>mtx_lock\<close>, about to exchange inside \<open>mtx_trylock\<close> (\<open>Try\<close>), or \<open>Inside\<close> its critical
  section, before its call of \<open>mtx_unlock\<close>.
\<close>

datatype pc = Outside | Load | Xchg | Try | Inside

record threads =
  pcs :: "nat \<Rightarrow> pc"
  mutex_word :: mtx

definition init_threads :: "threads" where
  "init_threads = \<lparr>pcs = (\<lambda>_. Outside), mutex_word = \<lparr>locked = False\<rparr>\<rparr>"

inductive thread_step :: "nat \<Rightarrow> threads \<Rightarrow> threads \<Rightarrow> bool" where
  call_lock: "pcs s t = Outside \<Longrightarrow> thread_step t s (s\<lparr>pcs := (pcs s)(t := Load)\<rparr>)"
| call_trylock: "pcs s t = Outside \<Longrightarrow> thread_step t s (s\<lparr>pcs := (pcs s)(t := Try)\<rparr>)"
| load: "pcs s t = Load \<Longrightarrow>
    thread_step t s (s\<lparr>pcs := (pcs s)(t := if locked (mutex_word s) then Load else Xchg)\<rparr>)"
| exchange: "\<lbrakk>pcs s t = Xchg; atomic_exchange (mutex_word s) True = (old, w)\<rbrakk> \<Longrightarrow>
    thread_step t s \<lparr>pcs = (pcs s)(t := if old then Load else Inside), mutex_word = w\<rparr>"
| try_exchange: "\<lbrakk>pcs s t = Try; mtx_trylock (mutex_word s) = (r, w)\<rbrakk> \<Longrightarrow>
    thread_step t s \<lparr>pcs = (pcs s)(t := if r = thrd_success then Inside else Outside), mutex_word = w\<rparr>"
| call_unlock: "\<lbrakk>pcs s t = Inside; mtx_unlock (mutex_word s) = (r, w)\<rbrakk> \<Longrightarrow>
    thread_step t s \<lparr>pcs = (pcs s)(t := Outside), mutex_word = w\<rparr>"

inductive reach_threads :: "threads \<Rightarrow> bool" where
  start: "reach_threads init_threads"
| step: "reach_threads s \<Longrightarrow> thread_step t s s' \<Longrightarrow> reach_threads s'"

inductive_cases thread_stepE: "thread_step t s s'"

text \<open>The word is set exactly while some thread is inside, and at most one is.\<close>

definition lock_inv :: "threads \<Rightarrow> bool" where
  "lock_inv s \<longleftrightarrow> (\<forall>t u. pcs s t = Inside \<longrightarrow> pcs s u = Inside \<longrightarrow> t = u) \<and>
     (locked (mutex_word s) \<longleftrightarrow> (\<exists>t. pcs s t = Inside))"

lemmas lock_op_defs = atomic_exchange_def mtx_trylock_def mtx_unlock_def thrd_success_def thrd_busy_def

lemma thread_step_inv: "thread_step t s s' \<Longrightarrow> lock_inv s \<Longrightarrow> lock_inv s'"
  by (induction rule: thread_step.induct)
    (auto simp: lock_inv_def lock_op_defs split: if_splits; metis pc.distinct)+

lemma reach_threads_inv: "reach_threads s \<Longrightarrow> lock_inv s"
proof (induction rule: reach_threads.induct)
  case start
  show ?case by (simp add: lock_inv_def init_threads_def)
next
  case (step s t s')
  then show ?case using thread_step_inv by blast
qed

section \<open>Properties\<close>

text \<open>
  C17. Mutual exclusion: in every state that any number of threads can reach by interleaving
  the atomic accesses of \<open>mtx_lock\<close>, \<open>mtx_trylock\<close> and \<open>mtx_unlock\<close> (called by the holder
  only), at most one thread is between a successful lock and its unlock.
\<close>

theorem mtx_mutual_exclusion:
  assumes "reach_threads s" "pcs s t = Inside" "pcs s u = Inside"
  shows "t = u"
  using reach_threads_inv [OF assms(1)] assms(2,3) unfolding lock_inv_def by blast

lemma reach_waiting: "reach_threads (init_threads\<lparr>pcs := (pcs init_threads)(0 := Load)\<rparr>)"
  by (rule reach_threads.step [OF reach_threads.start]) (rule thread_step.call_lock, simp add: init_threads_def)

lemma reach_inside: "\<exists>s. reach_threads s \<and> pcs s 0 = Inside"
proof -
  let ?s = "\<lparr>pcs = (pcs init_threads)(0 := Try), mutex_word = \<lparr>locked = False\<rparr>\<rparr>"
  have "reach_threads ?s"
    using reach_threads.step [OF reach_threads.start thread_step.call_trylock [of init_threads 0]]
    by (simp add: init_threads_def)
  from reach_threads.step [OF this thread_step.try_exchange [of ?s 0 thrd_success "\<lparr>locked = True\<rparr>"]]
  show ?thesis by (auto simp: lock_op_defs)
qed

theorem mtx_mutual_exclusion_witness:
  "\<exists>s. reach_threads s \<and> pcs s 0 = Inside \<and> (\<forall>u. u \<noteq> 0 \<longrightarrow> pcs s u \<noteq> Inside)"
  using reach_inside mtx_mutual_exclusion by metis

text \<open>
  The lock is never lost: in a reachable state in which no thread is inside its critical
  section, every thread that is spinning in \<open>mtx_lock\<close> gets the lock in at most two steps of
  its own if it runs undisturbed.
\<close>

theorem mtx_lock_progress:
  assumes "reach_threads s" "\<forall>u. pcs s u \<noteq> Inside" "pcs s t = Load \<or> pcs s t = Xchg"
  shows "\<exists>s1 s2. thread_step t s s1 \<and> (s2 = s1 \<or> thread_step t s1 s2) \<and> pcs s2 t = Inside"
proof -
  from reach_threads_inv [OF assms(1)] assms(2) have free: "\<not> locked (mutex_word s)"
    by (auto simp: lock_inv_def)
  have x: "\<exists>s2. thread_step t s1 s2 \<and> pcs s2 t = Inside"
    if "pcs s1 t = Xchg" "\<not> locked (mutex_word s1)" for s1
    using thread_step.exchange [OF that(1), of "False" "(mutex_word s1)\<lparr>locked := True\<rparr>"] that(2)
    by (auto simp: atomic_exchange_def)
  from assms(3) show ?thesis
  proof
    assume l: "pcs s t = Load"
    let ?s1 = "s\<lparr>pcs := (pcs s)(t := Xchg)\<rparr>"
    have "thread_step t s ?s1" using thread_step.load [OF l] free by simp
    with x [of ?s1] free show ?thesis by auto
  next
    assume "pcs s t = Xchg"
    with x [of s] free show ?thesis by blast
  qed
qed

theorem mtx_lock_progress_witness:
  "\<exists>s1 s2. thread_step 0 (init_threads\<lparr>pcs := (pcs init_threads)(0 := Load)\<rparr>) s1 \<and>
     (s2 = s1 \<or> thread_step 0 s1 s2) \<and> pcs s2 0 = Inside"
  by (rule mtx_lock_progress [OF reach_waiting]) (auto simp: init_threads_def)

end
