(* ===== verification/Processors.thy ===== *)
theory Processors
  imports Threads
begin

text \<open>
  Calls between processors: \<open>inter_processor_call\<close> and \<open>broadcast_ipi\<close> of \<^verbatim>\<open>src/kernel/apic.c\<close> and
  the handler of \<^verbatim>\<open>src/kernel/isr/inter_processor_call.c\<close>, with the processors' atomic accesses
  interleaved in every order. A processor is either outside \<open>inter_processor_call\<close> or at one of its
  statements (\<open>call_pc\<close>), and independently outside the handler or at one of the handler's
  (\<open>isr_pc\<close>); an interrupt that has been sent and not yet taken is \<open>pending\<close>. The list \<open>ran\<close> is
  history: who has run which function since the last interrupt was sent.
\<close>

section \<open>Statements and steps\<close>

datatype 'f call_pc = Idle | Locking 'f | Storing 'f | Resetting 'f | Sending 'f | Waiting 'f

datatype isr_pc = Outside | Calling | Ending | Counting

record 'f ipc =
  caller :: "nat \<Rightarrow> 'f call_pc"
  isr_at :: "nat \<Rightarrow> isr_pc"
  ipcall_mutex :: mtx
  ipc_fun :: "'f option"
  ipc_count :: u16
  pending :: "nat \<Rightarrow> bool"
  ran :: "(nat \<times> 'f) list"

text \<open>\<open>n\<close> processors are working; \<^verbatim>\<open>broadcast_ipi\<close> interrupts all of them but the sender.\<close>

definition broadcast_ipi :: "nat \<Rightarrow> nat \<Rightarrow> 'f ipc \<Rightarrow> 'f ipc" where
  "broadcast_ipi n p s = (if 1 < n then s\<lparr>pending := (\<lambda>c. c < n \<and> c \<noteq> p \<or> pending s c)\<rparr> else s)"

inductive ipc_step :: "nat \<Rightarrow> 'f ipc \<Rightarrow> 'f ipc \<Rightarrow> bool" for n where
  call: "p < n \<Longrightarrow> caller s p = Idle \<Longrightarrow> isr_at s p = Outside \<Longrightarrow>
    ipc_step n s (s\<lparr>caller := (caller s)(p := Locking f)\<rparr>)"
| lock: "p < n \<Longrightarrow> caller s p = Locking f \<Longrightarrow> isr_at s p = Outside \<Longrightarrow> mtx_lock (ipcall_mutex s) = Some (thrd_success, m) \<Longrightarrow>
    ipc_step n s (s\<lparr>caller := (caller s)(p := Storing f), ipcall_mutex := m\<rparr>)"
| store: "p < n \<Longrightarrow> caller s p = Storing f \<Longrightarrow> isr_at s p = Outside \<Longrightarrow>
    ipc_step n s (s\<lparr>caller := (caller s)(p := Resetting f), ipc_fun := Some f\<rparr>)"
| reset: "p < n \<Longrightarrow> caller s p = Resetting f \<Longrightarrow> isr_at s p = Outside \<Longrightarrow>
    ipc_step n s (s\<lparr>caller := (caller s)(p := Sending f), ipc_count := 0\<rparr>)"
| send: "p < n \<Longrightarrow> caller s p = Sending f \<Longrightarrow> isr_at s p = Outside \<Longrightarrow>
    ipc_step n s ((broadcast_ipi n p s)\<lparr>caller := (caller s)(p := Waiting f), ran := []\<rparr>)"
| return: "p < n \<Longrightarrow> caller s p = Waiting f \<Longrightarrow> isr_at s p = Outside \<Longrightarrow> \<not> unat (ipc_count s) < n - 1 \<Longrightarrow>
    mtx_unlock (ipcall_mutex s) = (thrd_success, m) \<Longrightarrow>
    ipc_step n s (s\<lparr>caller := (caller s)(p := Idle), ipcall_mutex := m\<rparr>)"
| interrupt: "c < n \<Longrightarrow> pending s c \<Longrightarrow> isr_at s c = Outside \<Longrightarrow>
    ipc_step n s (s\<lparr>pending := (pending s)(c := False), isr_at := (isr_at s)(c := Calling)\<rparr>)"
| run: "c < n \<Longrightarrow> isr_at s c = Calling \<Longrightarrow> ipc_fun s = Some f \<Longrightarrow>
    ipc_step n s (s\<lparr>isr_at := (isr_at s)(c := Ending), ran := (c, f) # ran s\<rparr>)"
| eoi: "c < n \<Longrightarrow> isr_at s c = Ending \<Longrightarrow> ipc_step n s (s\<lparr>isr_at := (isr_at s)(c := Counting)\<rparr>)"
| add_count: "c < n \<Longrightarrow> isr_at s c = Counting \<Longrightarrow>
    ipc_step n s (s\<lparr>isr_at := (isr_at s)(c := Outside), ipc_count := ipc_count s + 1\<rparr>)"

definition ipc_start :: "'f ipc" where
  "ipc_start = \<lparr>caller = (\<lambda>_. Idle), isr_at = (\<lambda>_. Outside), ipcall_mutex = \<lparr>locked = False\<rparr>, ipc_fun = None,
     ipc_count = 0, pending = (\<lambda>_. False), ran = []\<rparr>"

inductive ipc_reach :: "nat \<Rightarrow> 'f ipc \<Rightarrow> bool" for n where
  start: "ipc_reach n ipc_start"
| step: "ipc_reach n s \<Longrightarrow> ipc_step n s t \<Longrightarrow> ipc_reach n t"

section \<open>The invariant\<close>

text \<open>The processor that holds the mutex, and what it is about to run everywhere.\<close>

fun holding :: "'f call_pc \<Rightarrow> 'f option" where
  "holding Idle = None"
| "holding (Locking f) = None"
| "holding (Storing f) = Some f"
| "holding (Resetting f) = Some f"
| "holding (Sending f) = Some f"
| "holding (Waiting f) = Some f"

definition quiet :: "'f ipc \<Rightarrow> bool" where
  "quiet s \<longleftrightarrow> (\<forall>c. \<not> pending s c \<and> isr_at s c = Outside)"

text \<open>The processors that have answered the call of \<open>p\<close>.\<close>

definition answered :: "nat \<Rightarrow> nat \<Rightarrow> 'f ipc \<Rightarrow> nat set" where
  "answered n p s = {c. c < n \<and> c \<noteq> p \<and> \<not> pending s c \<and> isr_at s c = Outside}"

definition in_call :: "nat \<Rightarrow> nat \<Rightarrow> 'f \<Rightarrow> 'f ipc \<Rightarrow> bool" where
  "in_call n p f s \<longleftrightarrow> ipc_fun s = Some f \<and> unat (ipc_count s) = card (answered n p s) \<and>
     (\<forall>c. pending s c \<or> isr_at s c \<noteq> Outside \<longrightarrow> c < n \<and> c \<noteq> p) \<and> (\<forall>c. pending s c \<longrightarrow> isr_at s c = Outside) \<and>
     distinct (ran s) \<and> set (ran s) = {(c, f) | c. c < n \<and> c \<noteq> p \<and> \<not> pending s c \<and> isr_at s c \<noteq> Calling}"

fun stage :: "nat \<Rightarrow> nat \<Rightarrow> 'f ipc \<Rightarrow> 'f call_pc \<Rightarrow> bool" where
  "stage n p s (Waiting f) = in_call n p f s"
| "stage n p s (Sending f) = (quiet s \<and> ipc_fun s = Some f \<and> ipc_count s = 0)"
| "stage n p s (Resetting f) = (quiet s \<and> ipc_fun s = Some f)"
| "stage n p s _ = quiet s"

definition ipc_inv :: "nat \<Rightarrow> 'f ipc \<Rightarrow> bool" where
  "ipc_inv n s \<longleftrightarrow>
     (if locked (ipcall_mutex s)
      then \<exists>p < n. holding (caller s p) \<noteq> None \<and> (\<forall>q. q \<noteq> p \<longrightarrow> holding (caller s q) = None) \<and> stage n p s (caller s p)
      else quiet s \<and> (\<forall>q. holding (caller s q) = None))"

lemma ipc_inv_holder:
  assumes "ipc_inv n s" "holding (caller s p) = Some f"
  shows "locked (ipcall_mutex s)" "p < n" "stage n p s (caller s p)" "q \<noteq> p \<Longrightarrow> holding (caller s q) = None"
proof -
  have l: "locked (ipcall_mutex s)" using assms by (auto simp: ipc_inv_def split: if_splits)
  with assms(1) obtain r where r: "r < n" "\<forall>q. q \<noteq> r \<longrightarrow> holding (caller s q) = None" "stage n r s (caller s r)"
    by (auto simp: ipc_inv_def)
  with assms(2) have "r = p" by (metis option.distinct(1))
  with l r show "locked (ipcall_mutex s)" "p < n" "stage n p s (caller s p)" "q \<noteq> p \<Longrightarrow> holding (caller s q) = None"
    by auto
qed

lemma ipc_inv_free: "ipc_inv n s \<Longrightarrow> \<not> locked (ipcall_mutex s) \<Longrightarrow> quiet s \<and> (\<forall>q. holding (caller s q) = None)"
  by (simp add: ipc_inv_def)

text \<open>A processor that is interrupted, or about to be, answers the call of a waiting one.\<close>

lemma ipc_inv_busy:
  assumes "ipc_inv n s" "pending s c \<or> isr_at s c \<noteq> Outside"
  obtains p f where "caller s p = Waiting f" "in_call n p f s"
proof -
  have "\<not> quiet s" using assms(2) by (auto simp: quiet_def)
  with assms(1) obtain p where p: "holding (caller s p) \<noteq> None" "stage n p s (caller s p)"
    by (auto simp: ipc_inv_def split: if_splits)
  with \<open>\<not> quiet s\<close> have "\<exists>f. caller s p = Waiting f" by (cases "caller s p") auto
  with p that show ?thesis by auto
qed

lemma ipc_invI:
  assumes "holding (caller s p) = Some f" "p < n" "locked (ipcall_mutex s)"
    "\<And>q. q \<noteq> p \<Longrightarrow> holding (caller s q) = None" "stage n p s (caller s p)"
  shows "ipc_inv n s"
  using assms by (auto simp: ipc_inv_def)

text \<open>Steps of the handler leave the callers alone and keep \<open>in_call\<close>.\<close>

lemma handler_step:
  assumes "ipc_inv n s" "caller s p = Waiting f" "in_call n p f t" "caller t = caller s" "ipcall_mutex t = ipcall_mutex s"
  shows "ipc_inv n t"
proof -
  note h = ipc_inv_holder [OF assms(1), of p f]
  show ?thesis
    by (rule ipc_invI [of t p f]) (use h assms in auto)
qed

lemma finite_answered [simp]: "finite (answered n p s)"
  by (simp add: answered_def)

lemma answered_bound:
  assumes "p < n" "c \<notin> answered n p s" "c < n" "c \<noteq> p"
  shows "card (answered n p s) < n - 1"
proof -
  have "answered n p s \<subseteq> {..<n} - {p} - {c}" using assms(2) by (auto simp: answered_def)
  then have "card (answered n p s) \<le> card ({..<n} - {p} - {c})" by (intro card_mono) auto
  also have "card ({..<n} - {p} - {c}) = n - 2" using assms by simp
  finally show ?thesis using assms by (cases "n - 1") auto
qed

lemma in_call_interrupt:
  assumes "in_call n p f s" "pending s c" "isr_at s c = Outside"
  shows "in_call n p f (s\<lparr>pending := (pending s)(c := False), isr_at := (isr_at s)(c := Calling)\<rparr>)" (is "in_call n p f ?t")
proof -
  have "answered n p ?t = answered n p s" using assms(2, 3) by (auto simp: answered_def)
  with assms show ?thesis by (auto simp: in_call_def)
qed

lemma in_call_run:
  assumes "in_call n p f s" "isr_at s c = Calling"
  shows "in_call n p f (s\<lparr>isr_at := (isr_at s)(c := Ending), ran := (c, f) # ran s\<rparr>)" (is "in_call n p f ?t")
proof -
  have "answered n p ?t = answered n p s" using assms(2) by (auto simp: answered_def)
  moreover have new: "(c, f) \<notin> set (ran s)" using assms by (auto simp: in_call_def)
  moreover have "set ((c, f) # ran s) = {(d, f) | d. d < n \<and> d \<noteq> p \<and> \<not> pending ?t d \<and> isr_at ?t d \<noteq> Calling}"
    using assms by (auto simp: in_call_def)
  ultimately show ?thesis using assms unfolding in_call_def by (simp del: set_simps) auto
qed

lemma in_call_eoi:
  assumes "in_call n p f s" "isr_at s c = Ending"
  shows "in_call n p f (s\<lparr>isr_at := (isr_at s)(c := Counting)\<rparr>)" (is "in_call n p f ?t")
proof -
  have "answered n p ?t = answered n p s" using assms(2) by (auto simp: answered_def)
  with assms show ?thesis by (auto simp: in_call_def)
qed

lemma in_call_count:
  assumes "in_call n p f s" "isr_at s c = Counting" "p < n" "n < 2 ^ 16"
  shows "in_call n p f (s\<lparr>isr_at := (isr_at s)(c := Outside), ipc_count := ipc_count s + 1\<rparr>)" (is "in_call n p f ?t")
proof -
  have c: "c < n" "c \<noteq> p" "\<not> pending s c" "c \<notin> answered n p s"
    using assms(1, 2) by (auto simp: in_call_def answered_def)
  then have "answered n p ?t = insert c (answered n p s)" by (auto simp: answered_def)
  then have card: "card (answered n p ?t) = card (answered n p s) + 1" using c(4) by simp
  have "unat (ipc_count s) = card (answered n p s)" using assms(1) by (simp add: in_call_def)
  moreover have "card (answered n p s) + 1 < 2 ^ 16" using answered_bound [OF assms(3) c(4, 1, 2)] assms(4) by simp
  ultimately have "unat (ipc_count s + 1) = card (answered n p ?t)"
    using card by (subst unat_add_no_wrap) simp_all
  with assms c show ?thesis by (auto simp: in_call_def)
qed

lemma quiet_start_call:
  assumes "quiet s" "ipc_fun s = Some f" "ipc_count s = 0" "p < n"
  shows "in_call n p f ((broadcast_ipi n p s)\<lparr>caller := x, ran := []\<rparr>)"
  using assms by (auto simp: in_call_def broadcast_ipi_def quiet_def answered_def)

lemma ipc_step_inv:
  assumes "ipc_step n s t" "ipc_inv n s" "n < 2 ^ 16"
  shows "ipc_inv n t"
  using assms(1)
proof cases
  case (call p f)
  have h: "holding (((caller s)(p := Locking f)) q) = holding (caller s q)" for q using call(3) by simp
  show ?thesis
  proof (cases "locked (ipcall_mutex s)")
    case False
    with ipc_inv_free [OF assms(2)] h show ?thesis by (simp add: ipc_inv_def call(1) quiet_def)
  next
    case True
    with assms(2) obtain r g where r: "holding (caller s r) = Some g" by (auto simp: ipc_inv_def)
    note hr = ipc_inv_holder [OF assms(2) r]
    have "r \<noteq> p" using r call(3) by auto
    with hr(3) have "stage n r t (caller t r)"
      by (cases "caller s r") (auto simp: call(1) quiet_def in_call_def answered_def)
    then show ?thesis
      by (intro ipc_invI [of t r g]) (use hr r h True \<open>r \<noteq> p\<close> in \<open>simp_all add: call(1)\<close>)
  qed
next
  case (lock p f m)
  then have "\<not> locked (ipcall_mutex s)" by (metis mtx_lock_held option.distinct(1))
  then have free: "\<forall>q. holding (caller s q) = None" "quiet s" "locked m"
    using assms(2) lock(5) by (auto simp: ipc_inv_def mtx_lock_free)
  show ?thesis by (rule ipc_invI [of t p f]) (use free lock in \<open>auto simp: quiet_def\<close>)
next
  case (store p f)
  note h = ipc_inv_holder [OF assms(2), of p f]
  show ?thesis by (rule ipc_invI [of t p f]) (use h store in \<open>auto simp: quiet_def\<close>)
next
  case (reset p f)
  note h = ipc_inv_holder [OF assms(2), of p f]
  show ?thesis by (rule ipc_invI [of t p f]) (use h reset in \<open>auto simp: quiet_def\<close>)
next
  case (send p f)
  note h = ipc_inv_holder [OF assms(2), of p f]
  show ?thesis
    by (rule ipc_invI [of t p f]) (use h send quiet_start_call [of s f p n] in \<open>auto simp: broadcast_ipi_def\<close>)
next
  case (return p f m)
  note h = ipc_inv_holder [OF assms(2), of p f]
  have c: "in_call n p f s" using h(3) return(3) by simp
  have "quiet s" unfolding quiet_def
  proof (rule ccontr)
    assume "\<not> (\<forall>c. \<not> pending s c \<and> isr_at s c = Outside)"
    then obtain d where "pending s d \<or> isr_at s d \<noteq> Outside" by blast
    with c have "d < n" "d \<noteq> p" "d \<notin> answered n p s" by (auto simp: in_call_def answered_def)
    with answered_bound [OF return(2), of d s] return(5) c show False by (simp add: in_call_def)
  qed
  moreover have "\<not> locked m" using return(6) by (auto simp: mtx_unlock_def)
  ultimately show ?thesis using h return by (auto simp: ipc_inv_def quiet_def)
next
  case (interrupt c)
  from ipc_inv_busy [OF assms(2), of c] interrupt(3) obtain p f where "caller s p = Waiting f" "in_call n p f s" by blast
  then show ?thesis using interrupt in_call_interrupt [of n p f s c] handler_step [OF assms(2)] by simp
next
  case (run c f)
  from ipc_inv_busy [OF assms(2), of c] run(3) obtain p g where g: "caller s p = Waiting g" "in_call n p g s" by auto
  then have "g = f" using run(4) by (simp add: in_call_def)
  with g show ?thesis using run in_call_run [of n p f s c] handler_step [OF assms(2)] by simp
next
  case (eoi c)
  from ipc_inv_busy [OF assms(2), of c] eoi(3) obtain p f where "caller s p = Waiting f" "in_call n p f s" by auto
  then show ?thesis using eoi in_call_eoi [of n p f s c] handler_step [OF assms(2)] by simp
next
  case (add_count c)
  from ipc_inv_busy [OF assms(2), of c] add_count(3) obtain p f where w: "caller s p = Waiting f" "in_call n p f s" by auto
  then have "p < n" using ipc_inv_holder(2) [OF assms(2)] by simp
  with w show ?thesis using add_count assms(3) in_call_count [of n p f s c] handler_step [OF assms(2)] by simp
qed

lemma ipc_reach_inv: "ipc_reach n s \<Longrightarrow> n < 2 ^ 16 \<Longrightarrow> ipc_inv n s"
proof (induction rule: ipc_reach.induct)
  case start
  show ?case by (simp add: ipc_inv_def ipc_start_def quiet_def)
next
  case (step s t)
  then show ?case using ipc_step_inv by blast
qed

section \<open>What a caller can rely on\<close>

text \<open>
  C3. Whenever \<open>inter_processor_call\<close> returns on some processor, every other working processor has run
  the function it was called with, and run it exactly once, however the processors' accesses and the
  calls of several processors interleave.
\<close>

theorem ipc_all_ran:
  assumes "ipc_reach n s" "n < 2 ^ 16" "ipc_step n s t" "caller s p = Waiting f" "caller t p = Idle"
  shows "distinct (ran s) \<and> set (ran s) = {(c, f) | c. c < n \<and> c \<noteq> p}"
proof -
  note inv = ipc_reach_inv [OF assms(1, 2)]
  note h = ipc_inv_holder [OF inv, of p f]
  have c: "in_call n p f s" using h(3) assms(4) by simp
  have "\<not> unat (ipc_count s) < n - 1"
    using assms(3-5) by cases (auto simp: broadcast_ipi_def split: if_splits)
  then have full: "\<not> card (answered n p s) < n - 1" using c by (simp add: in_call_def)
  have "p < n" using h(2) assms(4) by simp
  then have "d \<in> answered n p s" if "d < n" "d \<noteq> p" for d
    using answered_bound [of p n d s] that full by blast
  then have "{(d, f) | d. d < n \<and> d \<noteq> p \<and> \<not> pending s d \<and> isr_at s d \<noteq> Calling} = {(d, f) | d. d < n \<and> d \<noteq> p}"
    by (auto simp: answered_def)
  with c show ?thesis by (simp add: in_call_def)
qed

definition two_cpu :: "nat ipc" where
  "two_cpu = ipc_start\<lparr>caller := (\<lambda>_. Idle)(0 := Waiting 7), ipcall_mutex := \<lparr>locked = True\<rparr>, ipc_fun := Some 7,
     ipc_count := 1, ran := [(1, 7)]\<rparr>"

lemma two_cpu_reachable: "ipc_reach 2 two_cpu"
proof -
  let ?s0 = "ipc_start :: nat ipc"
  let ?s1 = "?s0\<lparr>caller := (caller ?s0)(0 := Locking 7)\<rparr>"
  let ?s2 = "?s1\<lparr>caller := (caller ?s1)(0 := Storing 7), ipcall_mutex := \<lparr>locked = True\<rparr>\<rparr>"
  let ?s3 = "?s2\<lparr>caller := (caller ?s2)(0 := Resetting 7), ipc_fun := Some 7\<rparr>"
  let ?s4 = "?s3\<lparr>caller := (caller ?s3)(0 := Sending 7), ipc_count := 0\<rparr>"
  let ?s5 = "(broadcast_ipi 2 0 ?s4)\<lparr>caller := (caller ?s4)(0 := Waiting 7), ran := []\<rparr>"
  let ?s6 = "?s5\<lparr>pending := (pending ?s5)(1 := False), isr_at := (isr_at ?s5)(1 := Calling)\<rparr>"
  let ?s7 = "?s6\<lparr>isr_at := (isr_at ?s6)(1 := Ending), ran := (1, 7) # ran ?s6\<rparr>"
  let ?s8 = "?s7\<lparr>isr_at := (isr_at ?s7)(1 := Counting)\<rparr>"
  let ?s9 = "?s8\<lparr>isr_at := (isr_at ?s8)(1 := Outside), ipc_count := ipc_count ?s8 + 1\<rparr>"
  have 1: "ipc_step 2 ?s0 ?s1" by (rule ipc_step.call) (simp_all add: ipc_start_def)
  have 2: "ipc_step 2 ?s1 ?s2" by (rule ipc_step.lock) (simp_all add: ipc_start_def mtx_lock_free)
  have 3: "ipc_step 2 ?s2 ?s3" by (rule ipc_step.store) (simp_all add: ipc_start_def)
  have 4: "ipc_step 2 ?s3 ?s4" by (rule ipc_step.reset) (simp_all add: ipc_start_def)
  have 5: "ipc_step 2 ?s4 ?s5" by (rule ipc_step.send) (simp_all add: ipc_start_def)
  have 6: "ipc_step 2 ?s5 ?s6" by (rule ipc_step.interrupt) (simp_all add: ipc_start_def broadcast_ipi_def)
  have 7: "ipc_step 2 ?s6 ?s7" by (rule ipc_step.run) (simp_all add: ipc_start_def broadcast_ipi_def)
  have 8: "ipc_step 2 ?s7 ?s8" by (rule ipc_step.eoi) (simp_all add: ipc_start_def broadcast_ipi_def)
  have 9: "ipc_step 2 ?s8 ?s9" by (rule ipc_step.add_count) (simp_all add: ipc_start_def broadcast_ipi_def)
  have "ipc_reach 2 ?s9"
    by (rule ipc_reach.step [OF ipc_reach.step [OF ipc_reach.step [OF ipc_reach.step [OF ipc_reach.step [OF ipc_reach.step [OF
      ipc_reach.step [OF ipc_reach.step [OF ipc_reach.step [OF ipc_reach.start 1] 2] 3] 4] 5] 6] 7] 8] 9])
  moreover have "?s9 = two_cpu"
    by (auto simp: two_cpu_def ipc_start_def broadcast_ipi_def fun_eq_iff)
  ultimately show ?thesis by simp
qed

theorem ipc_all_ran_witness:
  "distinct (ran two_cpu) \<and> set (ran two_cpu) = {(c, 7) | c. c < 2 \<and> c \<noteq> 0}"
proof -
  let ?t = "two_cpu\<lparr>caller := (caller two_cpu)(0 := Idle), ipcall_mutex := \<lparr>locked = False\<rparr>\<rparr>"
  have "ipc_step 2 two_cpu ?t"
    by (rule ipc_step.return) (simp_all add: two_cpu_def ipc_start_def mtx_unlock_def)
  from ipc_all_ran [OF two_cpu_reachable _ this, of 0 7] show ?thesis by (simp add: two_cpu_def)
qed

text \<open>How many steps the handlers of the other processors still have to make.\<close>

definition handler_work :: "'f ipc \<Rightarrow> nat \<Rightarrow> nat" where
  "handler_work s c = (if pending s c then 4 else case isr_at s c of Outside \<Rightarrow> 0 | Calling \<Rightarrow> 3 | Ending \<Rightarrow> 2 | Counting \<Rightarrow> 1)"

lemma work_decreases:
  assumes "c < n" "handler_work t c < handler_work s c" "\<And>d. d \<noteq> c \<Longrightarrow> handler_work t d = handler_work s d"
  shows "(\<Sum>d<n. handler_work t d) < (\<Sum>d<n. handler_work s d)"
  using assms by (intro sum_strict_mono_ex1) (auto, metis less_or_eq_imp_le order_refl)

lemma handler_advances:
  assumes "ipc_inv n s" "caller s p = Waiting f" "c < n" "c \<noteq> p" "c \<notin> answered n p s" "n < 2 ^ 16"
  obtains t where "ipc_step n s t" "caller t = caller s" "(\<Sum>d<n. handler_work t d) < (\<Sum>d<n. handler_work s d)"
proof -
  have c: "in_call n p f s" using ipc_inv_holder(3) [OF assms(1), of p f] assms(2) by simp
  have out: "isr_at s c = Outside" if "pending s c" using c that by (simp add: in_call_def)
  consider (p) "pending s c" | (c) "\<not> pending s c" "isr_at s c = Calling"
    | (e) "\<not> pending s c" "isr_at s c = Ending" | (n) "\<not> pending s c" "isr_at s c = Counting"
    using assms(3-5) by (cases "isr_at s c") (auto simp: answered_def)
  then show ?thesis
  proof cases
    case p
    show ?thesis
      by (rule that [OF ipc_step.interrupt [OF assms(3) p out [OF p]]], simp, rule work_decreases [OF assms(3)])
        (simp_all add: handler_work_def p)
  next
    case c': c
    have "ipc_fun s = Some f" using c by (simp add: in_call_def)
    from ipc_step.run [OF assms(3) c'(2) this] show ?thesis
      by (rule that, simp, intro work_decreases [OF assms(3)]) (simp_all add: handler_work_def c')
  next
    case e
    show ?thesis
      by (rule that [OF ipc_step.eoi [OF assms(3) e(2)]], simp, rule work_decreases [OF assms(3)])
        (simp_all add: handler_work_def e)
  next
    case n
    show ?thesis
      by (rule that [OF ipc_step.add_count [OF assms(3) n(2)]], simp, rule work_decreases [OF assms(3)])
        (simp_all add: handler_work_def n)
  qed
qed

lemma caller_returns:
  assumes "ipc_inv n s" "caller s p = Waiting f" "n < 2 ^ 16"
  shows "\<exists>k \<le> (\<Sum>d<n. handler_work s d) + 1. \<exists>t. (ipc_step n ^^ k) s t \<and> caller t p = Idle"
  using assms
proof (induction "\<Sum>d<n. handler_work s d" arbitrary: s rule: less_induct)
  case less
  note h = ipc_inv_holder [OF less.prems(1), of p f]
  have c: "in_call n p f s" and pn: "p < n" using h(2, 3) less.prems(2) by simp_all
  show ?case
  proof (cases "\<exists>c < n. c \<noteq> p \<and> c \<notin> answered n p s")
    case True
    then obtain c where "c < n" "c \<noteq> p" "c \<notin> answered n p s" by blast
    from handler_advances [OF less.prems(1, 2) this less.prems(3)] obtain t where
      t: "ipc_step n s t" "caller t = caller s" "(\<Sum>d<n. handler_work t d) < (\<Sum>d<n. handler_work s d)" .
    from less.hyps [OF t(3) ipc_step_inv [OF t(1) less.prems(1, 3)]] t(2) less.prems(2, 3)
    obtain k u where k: "k \<le> (\<Sum>d<n. handler_work t d) + 1" "(ipc_step n ^^ k) t u" "caller u p = Idle" by auto
    from t(1) k(2) have "(ipc_step n ^^ Suc k) s u" by (rule relpowp_Suc_I2)
    moreover have "Suc k \<le> (\<Sum>d<n. handler_work s d) + 1" using k(1) t(3) by simp
    ultimately show ?thesis using k(3) by blast
  next
    case False
    then have "{..<n} - {p} \<subseteq> answered n p s" by auto
    then have "card ({..<n} - {p}) \<le> card (answered n p s)" by (intro card_mono) simp_all
    then have "\<not> unat (ipc_count s) < n - 1" using c pn by (simp add: in_call_def)
    moreover have "isr_at s p = Outside" using c by (auto simp: in_call_def)
    ultimately have "ipc_step n s (s\<lparr>caller := (caller s)(p := Idle), ipcall_mutex := (ipcall_mutex s)\<lparr>locked := False\<rparr>\<rparr>)"
      using less.prems(2) pn by (intro ipc_step.return) (auto simp: mtx_unlock_def)
    then show ?thesis by (intro exI [of _ "Suc 0"]) (auto intro!: exI relpowp_Suc_I [OF relpowp_0_I])
  qed
qed

text \<open>
  A processor waiting in \<open>inter_processor_call\<close> is never stuck: from every reachable state at most
  four steps of the handler on each of the \<open>n\<close> processors lead to its return.
\<close>

theorem ipc_caller_returns:
  assumes "ipc_reach n s" "n < 2 ^ 16" "caller s p = Waiting f"
  shows "\<exists>k \<le> 4 * n + 1. \<exists>t. (ipc_step n ^^ k) s t \<and> caller t p = Idle"
proof -
  have "(\<Sum>d<n. handler_work s d) \<le> (\<Sum>d<n. 4)"
    by (intro sum_mono) (simp add: handler_work_def split: isr_pc.split)
  then have "(\<Sum>d<n. handler_work s d) + 1 \<le> 4 * n + 1" by simp
  with caller_returns [OF ipc_reach_inv [OF assms(1, 2)] assms(3, 2)] show ?thesis by (meson le_trans)
qed

theorem ipc_caller_returns_witness:
  "\<exists>k \<le> 9. \<exists>t. (ipc_step 2 ^^ k) two_cpu t \<and> caller t 0 = Idle"
  using ipc_caller_returns [OF two_cpu_reachable, of 0 7] by (simp add: two_cpu_def)

end
