(* ===== verification/Mmap.thy ===== *)
theory Mmap
  imports Prelude
begin

text \<open>
  The page-range map of \<^verbatim>\<open>src/kernel/mmap.c\<close> (types in \<^verbatim>\<open>include/kernel/mmap.h\<close>): an array of
  ranges of free 4 KiB pages, from which \<open>mmap_get_pages\<close> takes pages and to which
  \<open>mmap_add_range\<close> and \<open>mmap_add_range_merge\<close> give them back. The kernel keeps one for
  physical and one for virtual memory.

  The array is the list \<open>memory_ranges\<close> with all its cells; only the first
  \<open>range_count\<close> of them are live. The counters are natural numbers: they only move
  by one, between 0 and the size of an array that is in memory, so their C types are never
  left (the \<^verbatim>\<open>int\<close> loop counters stay below \<open>2 ^ 31\<close> for every array the kernel can hold).
  Addresses and page counts are machine words and wrap.
\<close>

section \<open>State\<close>

record memory_range =
  base_addr :: addr
  pages :: u64

record memory_map =
  memory_ranges :: "memory_range list"
  range_count :: nat
  max_range_count :: nat

section \<open>Operations\<close>

definition mmap_add_range :: "memory_map \<Rightarrow> addr \<Rightarrow> u64 \<Rightarrow> bool \<times> memory_map" where
  "mmap_add_range mmap base npages =
     (if npages = 0 then (False, mmap)
      else if max_range_count mmap \<le> range_count mmap then (False, mmap)
      else (True, mmap\<lparr>memory_ranges := (memory_ranges mmap)
                          [range_count mmap := \<lparr>base_addr = base, pages = npages\<rparr>],
                       range_count := Suc (range_count mmap)\<rparr>))"

text \<open>The search loop of \<open>mmap_add_range_merge\<close>; \<open>None\<close> when it runs to its end.\<close>

function merge_from :: "memory_map \<Rightarrow> addr \<Rightarrow> addr \<Rightarrow> u64 \<Rightarrow> nat \<Rightarrow> memory_map option" where
  "merge_from mmap merge_addr base npages i =
     (if i < range_count mmap
      then let r = memory_ranges mmap ! i
           in if base_addr r = merge_addr
              then Some (mmap\<lparr>memory_ranges := (memory_ranges mmap)
                          [i := r\<lparr>base_addr := base, pages := pages r + npages\<rparr>]\<rparr>)
              else merge_from mmap merge_addr base npages (Suc i)
      else None)"
  by pat_completeness auto
termination
  by (relation "measure (\<lambda>(mmap, _, _, _, i). range_count mmap - i)") auto

definition mmap_add_range_merge :: "memory_map \<Rightarrow> addr \<Rightarrow> u64 \<Rightarrow> bool \<times> memory_map" where
  "mmap_add_range_merge mmap base npages =
     (if npages = 0 then (False, mmap)
      else case merge_from mmap (base + 4096 * npages) base npages 0 of
             Some mmap' \<Rightarrow> (True, mmap')
           | None \<Rightarrow> mmap_add_range mmap base npages)"

text \<open>The inner loop of \<open>mmap_get_pages\<close>: move the cells from \<open>j\<close> on one place down.\<close>

function shift_down :: "memory_range list \<Rightarrow> nat \<Rightarrow> nat \<Rightarrow> memory_range list" where
  "shift_down ranges j n =
     (if j < n then shift_down (ranges[j - 1 := ranges ! j]) (Suc j) n else ranges)"
  by pat_completeness auto
termination
  by (relation "measure (\<lambda>(_, j, n). n - j)") auto

function get_pages_from :: "memory_map \<Rightarrow> u64 \<Rightarrow> nat \<Rightarrow> addr \<times> memory_map" where
  "get_pages_from mmap npages i =
     (if i < range_count mmap
      then let r = memory_ranges mmap ! i
           in if pages r = npages
              then (base_addr r,
                    mmap\<lparr>memory_ranges := shift_down (memory_ranges mmap) (Suc i) (range_count mmap),
                         range_count := range_count mmap - 1\<rparr>)
              else if npages < pages r
              then (base_addr r,
                    mmap\<lparr>memory_ranges := (memory_ranges mmap)
                       [i := r\<lparr>base_addr := base_addr r + 4096 * npages,
                               pages := pages r - npages\<rparr>]\<rparr>)
              else get_pages_from mmap npages (Suc i)
      else (0, mmap))"
  by pat_completeness auto
termination
  by (relation "measure (\<lambda>(mmap, _, i). range_count mmap - i)") auto

definition mmap_get_pages :: "memory_map \<Rightarrow> u64 \<Rightarrow> addr \<times> memory_map" where
  "mmap_get_pages mmap npages = get_pages_from mmap npages 0"

function get_range_from :: "memory_map \<Rightarrow> addr \<Rightarrow> nat \<Rightarrow> u64 \<times> memory_map" where
  "get_range_from mmap base i =
     (if i < range_count mmap
      then if base_addr (memory_ranges mmap ! i) = base
           then (pages (memory_ranges mmap ! i), mmap\<lparr>range_count := range_count mmap - 1\<rparr>)
           else get_range_from mmap base (Suc i)
      else (0, mmap))"
  by pat_completeness auto
termination
  by (relation "measure (\<lambda>(mmap, _, i). range_count mmap - i)") auto

definition mmap_get_range :: "memory_map \<Rightarrow> addr \<Rightarrow> u64 \<times> memory_map" where
  "mmap_get_range mmap base = get_range_from mmap base 0"

declare merge_from.simps [simp del] shift_down.simps [simp del]
  get_pages_from.simps [simp del] get_range_from.simps [simp del]

section \<open>What a map stands for\<close>

definition live :: "memory_map \<Rightarrow> memory_range list" where
  "live mmap = take (range_count mmap) (memory_ranges mmap)"

text \<open>The bytes of \<open>n\<close> pages from \<open>b\<close>, as natural numbers (no wrap-around).\<close>

definition block :: "addr \<Rightarrow> u64 \<Rightarrow> nat set" where
  "block b n = {unat b ..< unat b + 4096 * unat n}"

definition range_end :: "memory_range \<Rightarrow> nat" where
  "range_end r = unat (base_addr r) + 4096 * unat (pages r)"

abbreviation range_bytes :: "memory_range \<Rightarrow> nat set" where
  "range_bytes r \<equiv> block (base_addr r) (pages r)"

definition ranges_bytes :: "memory_range list \<Rightarrow> nat set" where
  "ranges_bytes rs = (\<Union>r \<in> set rs. range_bytes r)"

definition free_bytes :: "memory_map \<Rightarrow> nat set" where
  "free_bytes mmap = ranges_bytes (live mmap)"

definition wf_range :: "memory_range \<Rightarrow> bool" where
  "wf_range r \<longleftrightarrow> base_addr r \<noteq> 0 \<and> pages r \<noteq> 0 \<and> range_end r \<le> 2 ^ 64"

definition apart :: "memory_range \<Rightarrow> memory_range \<Rightarrow> bool" where
  "apart r s \<longleftrightarrow> range_end r \<le> unat (base_addr s) \<or> range_end s \<le> unat (base_addr r)"

definition wf_ranges :: "memory_range list \<Rightarrow> bool" where
  "wf_ranges rs \<longleftrightarrow> list_all wf_range rs \<and> sorted_wrt apart rs"

definition wf_mmap :: "memory_map \<Rightarrow> bool" where
  "wf_mmap mmap \<longleftrightarrow> range_count mmap \<le> max_range_count mmap \<and>
     max_range_count mmap \<le> length (memory_ranges mmap) \<and> wf_ranges (live mmap)"

section \<open>The operations on the list of live ranges\<close>

fun take_pages :: "u64 \<Rightarrow> memory_range list \<Rightarrow> (addr \<times> memory_range list) option" where
  "take_pages n [] = None"
| "take_pages n (r # rs) =
     (if pages r = n then Some (base_addr r, rs)
      else if n < pages r
      then Some (base_addr r, r\<lparr>base_addr := base_addr r + 4096 * n, pages := pages r - n\<rparr> # rs)
      else map_option (\<lambda>(b, rs'). (b, r # rs')) (take_pages n rs))"

fun merge_pages :: "addr \<Rightarrow> u64 \<Rightarrow> memory_range list \<Rightarrow> memory_range list option" where
  "merge_pages b n [] = None"
| "merge_pages b n (r # rs) =
     (if base_addr r = b + 4096 * n then Some (r\<lparr>base_addr := b, pages := pages r + n\<rparr> # rs)
      else map_option ((#) r) (merge_pages b n rs))"

lemma shift_down_length [simp]: "length (shift_down xs j n) = length xs"
  by (induction xs j n rule: shift_down.induct) (subst shift_down.simps, simp)

lemma shift_down_nth:
  "\<lbrakk>0 < j; n \<le> length xs; k < length xs\<rbrakk> \<Longrightarrow>
     shift_down xs j n ! k = (if j \<le> Suc k \<and> Suc k < n then xs ! Suc k else xs ! k)"
proof (induction xs j n rule: shift_down.induct)
  case (1 xs j n)
  show ?case
  proof (cases "j < n")
    case True
    with 1 show ?thesis
      by (subst shift_down.simps) (auto simp: nth_list_update)
  next
    case False
    with 1 show ?thesis by (subst shift_down.simps) auto
  qed
qed

lemma take_shift_down:
  assumes "i < n" "n \<le> length xs"
  shows "take (n - 1) (shift_down xs (Suc i) n) = take i xs @ drop (Suc i) (take n xs)"
proof (rule nth_equalityI)
  show "length (take (n - 1) (shift_down xs (Suc i) n)) = length (take i xs @ drop (Suc i) (take n xs))"
    using assms by simp
next
  fix k assume "k < length (take (n - 1) (shift_down xs (Suc i) n))"
  with assms show "take (n - 1) (shift_down xs (Suc i) n) ! k = (take i xs @ drop (Suc i) (take n xs)) ! k"
    by (simp add: shift_down_nth nth_append)
qed

lemma length_live: "range_count mmap \<le> length (memory_ranges mmap) \<Longrightarrow> length (live mmap) = range_count mmap"
  by (simp add: live_def)

lemma drop_live_Cons:
  "i < range_count mmap \<Longrightarrow> range_count mmap \<le> length (memory_ranges mmap) \<Longrightarrow>
     drop i (live mmap) = memory_ranges mmap ! i # drop (Suc i) (live mmap)"
  by (simp add: live_def flip: Cons_nth_drop_Suc)

lemma live_update:
  "i < range_count mmap \<Longrightarrow> range_count mmap \<le> length (memory_ranges mmap) \<Longrightarrow>
     live (mmap\<lparr>memory_ranges := (memory_ranges mmap)[i := r]\<rparr>) = take i (live mmap) @ r # drop (Suc i) (live mmap)"
proof -
  assume i: "i < range_count mmap" "range_count mmap \<le> length (memory_ranges mmap)"
  have "live (mmap\<lparr>memory_ranges := (memory_ranges mmap)[i := r]\<rparr>) = (live mmap)[i := r]"
    by (simp add: live_def take_update_swap)
  with i show ?thesis by (simp add: upd_conv_take_nth_drop length_live)
qed

text \<open>
  Refinement: each loop computes the list operation on the live ranges, from any index.
\<close>

lemma get_pages_from_refines:
  assumes "range_count mmap \<le> length (memory_ranges mmap)" "i \<le> range_count mmap"
  shows "case take_pages n (drop i (live mmap)) of
      None \<Rightarrow> get_pages_from mmap n i = (0, mmap)
    | Some (b, rs) \<Rightarrow> \<exists>mmap'. get_pages_from mmap n i = (b, mmap') \<and>
        live mmap' = take i (live mmap) @ rs \<and>
        max_range_count mmap' = max_range_count mmap \<and>
        range_count mmap' \<le> range_count mmap \<and>
        length (memory_ranges mmap') = length (memory_ranges mmap)"
  using assms
proof (induction mmap n i rule: get_pages_from.induct)
  case (1 mmap n i)
  show ?case
  proof (cases "i < range_count mmap")
    case False
    with 1 show ?thesis by (simp add: length_live get_pages_from.simps [of mmap])
  next
    case i: True
    define r where "r = memory_ranges mmap ! i"
    have d: "drop i (live mmap) = r # drop (Suc i) (live mmap)"
      using i 1 by (simp add: drop_live_Cons r_def)
    have t: "take (Suc i) (live mmap) = take i (live mmap) @ [r]"
      using i 1 by (simp add: live_def r_def take_Suc_conv_app_nth)
    consider "pages r = n" | "pages r \<noteq> n" "n < pages r" | "pages r \<noteq> n" "\<not> n < pages r"
      by blast
    then show ?thesis
    proof cases
      case eq: 1
      let ?m = "mmap\<lparr>memory_ranges := shift_down (memory_ranges mmap) (Suc i) (range_count mmap),
                 range_count := range_count mmap - 1\<rparr>"
      have "live ?m = take i (live mmap) @ drop (Suc i) (live mmap)"
        using i 1 by (simp add: live_def take_shift_down [simplified])
      with i eq show ?thesis
        by (subst get_pages_from.simps) (simp add: d r_def [symmetric])
    next
      case lt: 2
      with i 1 show ?thesis
        by (subst get_pages_from.simps) (simp add: d r_def [symmetric] live_update Let_def)
    next
      case more: 3
      have step: "get_pages_from mmap n i = get_pages_from mmap n (Suc i)"
        using i more by (subst get_pages_from.simps) (simp add: r_def Let_def)
      have "Suc i \<le> range_count mmap" using i by simp
      from "1.IH" [OF i r_def _ _ "1.prems"(1) this] more show ?thesis
        by (auto simp: d t step split: option.splits)
    qed
  qed
qed

lemma merge_from_refines:
  assumes "range_count mmap \<le> length (memory_ranges mmap)" "i \<le> range_count mmap"
  shows "case merge_pages b n (drop i (live mmap)) of
      None \<Rightarrow> merge_from mmap (b + 4096 * n) b n i = None
    | Some rs \<Rightarrow> \<exists>mmap'. merge_from mmap (b + 4096 * n) b n i = Some mmap' \<and>
        live mmap' = take i (live mmap) @ rs \<and>
        max_range_count mmap' = max_range_count mmap \<and>
        range_count mmap' = range_count mmap \<and>
        length (memory_ranges mmap') = length (memory_ranges mmap)"
  using assms
proof (induction mmap "b + 4096 * n" b n i rule: merge_from.induct)
  case (1 mmap b n i)
  show ?case
  proof (cases "i < range_count mmap")
    case False
    with 1 show ?thesis by (simp add: length_live merge_from.simps [of mmap])
  next
    case i: True
    define r where "r = memory_ranges mmap ! i"
    have d: "drop i (live mmap) = r # drop (Suc i) (live mmap)"
      using i 1 by (simp add: drop_live_Cons r_def)
    have t: "take (Suc i) (live mmap) = take i (live mmap) @ [r]"
      using i 1 by (simp add: live_def r_def take_Suc_conv_app_nth)
    show ?thesis
    proof (cases "base_addr r = b + 4096 * n")
      case True
      with i 1 show ?thesis
        by (subst merge_from.simps) (simp add: d r_def [symmetric] live_update Let_def)
    next
      case more: False
      have step: "merge_from mmap (b + 4096 * n) b n i = merge_from mmap (b + 4096 * n) b n (Suc i)"
        using i more by (subst merge_from.simps) (simp add: r_def Let_def)
      have "Suc i \<le> range_count mmap" using i by simp
      from "1.hyps" [OF i r_def more "1.prems"(1) this] more show ?thesis
        by (auto simp: d t step split: option.splits)
    qed
  qed
qed

section \<open>Laws of the list operations\<close>

lemma page_bytes_no_wrap:
  fixes n :: u64
  assumes "unat b + 4096 * unat n < 2 ^ 64"
  shows "unat (b + 4096 * n) = unat b + 4096 * unat n"
proof -
  have "unat (4096 * n) = 4096 * unat n"
    using assms by (subst unat_mult_no_wrap) simp_all
  with assms show ?thesis by (subst unat_add_no_wrap) simp_all
qed

lemma page_end_zero:
  fixes n :: u64
  assumes "unat b + 4096 * unat n = 2 ^ 64"
  shows "b + 4096 * n = 0"
proof -
  have "b + 4096 * n = of_nat (unat b + 4096 * unat n)" by simp
  also have "\<dots> = (of_nat (2 ^ 64) :: u64)" by (simp only: assms)
  also have "\<dots> = 0" by simp
  finally show ?thesis .
qed

lemma ranges_bytes_simps [simp]:
  "ranges_bytes [] = {}"
  "ranges_bytes (r # rs) = range_bytes r \<union> ranges_bytes rs"
  "ranges_bytes (rs @ ss) = ranges_bytes rs \<union> ranges_bytes ss"
  by (auto simp: ranges_bytes_def)

lemma wf_ranges_simps [simp]:
  "wf_ranges []"
  "wf_ranges (r # rs) \<longleftrightarrow> wf_range r \<and> list_all (apart r) rs \<and> wf_ranges rs"
  by (auto simp: wf_ranges_def list_all_iff)

lemma wf_ranges_all: "wf_ranges rs \<Longrightarrow> list_all wf_range rs"
  by (simp add: wf_ranges_def)

lemma range_bytes_eq: "range_bytes r = {unat (base_addr r) ..< range_end r}"
  by (simp add: block_def range_end_def)

lemma wf_range_nonempty: "wf_range r \<Longrightarrow> unat (base_addr r) < range_end r"
  by (simp add: wf_range_def range_end_def unat_gt_0)

lemma apart_disjoint:
  "wf_range r \<Longrightarrow> wf_range s \<Longrightarrow> apart r s \<longleftrightarrow> range_bytes r \<inter> range_bytes s = {}"
  using wf_range_nonempty [of r] wf_range_nonempty [of s]
  by (auto simp: range_bytes_eq apart_def disjoint_iff not_le)

lemma ranges_bytes_disjoint:
  "wf_range r \<Longrightarrow> list_all wf_range rs \<Longrightarrow>
     range_bytes r \<inter> ranges_bytes rs = {} \<longleftrightarrow> list_all (apart r) rs"
  by (induction rs) (auto simp: apart_disjoint Int_Un_distrib)

lemma list_all_apart_mono:
  "\<lbrakk>list_all (apart r) rs; unat (base_addr r) \<le> unat (base_addr r'); range_end r' \<le> range_end r\<rbrakk> \<Longrightarrow>
     list_all (apart r') rs"
  by (auto simp: list_all_iff apart_def dest: bspec)

text \<open>Splitting the first \<open>n\<close> pages off a larger range.\<close>

lemma split_range:
  assumes wf: "wf_range r" and n: "n < pages r"
  defines "r' \<equiv> r\<lparr>base_addr := base_addr r + 4096 * n, pages := pages r - n\<rparr>"
  shows "unat (base_addr r') = unat (base_addr r) + 4096 * unat n" and "range_end r' = range_end r"
    and "wf_range r'" and "range_bytes r' = range_bytes r - block (base_addr r) n"
    and "block (base_addr r) n \<subseteq> range_bytes r"
proof -
  have un: "unat n < unat (pages r)" using n by (simp add: word_less_nat_alt)
  with wf have lt: "unat (base_addr r) + 4096 * unat n < 2 ^ 64"
    by (simp add: wf_range_def range_end_def)
  show base: "unat (base_addr r') = unat (base_addr r) + 4096 * unat n"
    unfolding r'_def using page_bytes_no_wrap [OF lt] by simp
  have np: "unat (pages r') = unat (pages r) - unat n"
    using n by (simp add: r'_def unat_sub)
  show e: "range_end r' = range_end r"
    unfolding range_end_def base np using un by simp
  have "base_addr r' \<noteq> 0" using base wf by (auto simp: wf_range_def unat_eq_0 simp flip: unat_gt_0)
  moreover have "pages r' \<noteq> 0" using n by (simp add: r'_def)
  ultimately show "wf_range r'" using wf e by (simp add: wf_range_def)
  show "range_bytes r' = range_bytes r - block (base_addr r) n"
    unfolding range_bytes_eq e base by (auto simp: block_def)
  show "block (base_addr r) n \<subseteq> range_bytes r"
    using un by (auto simp: block_def)
qed

lemma take_pages_Some:
  assumes "wf_ranges rs" "take_pages n rs = Some (b, rs')"
  shows "b \<noteq> 0 \<and> unat b + 4096 * unat n \<le> 2 ^ 64 \<and> wf_ranges rs' \<and>
    block b n \<subseteq> ranges_bytes rs \<and> ranges_bytes rs' = ranges_bytes rs - block b n"
  using assms
proof (induction rs arbitrary: rs')
  case Nil
  then show ?case by simp
next
  case (Cons r rs)
  from Cons.prems(1) have wf: "wf_range r" "list_all (apart r) rs" "wf_ranges rs" "list_all wf_range rs"
    by (simp_all add: wf_ranges_all)
  then have disj: "range_bytes r \<inter> ranges_bytes rs = {}"
    by (simp add: ranges_bytes_disjoint)
  consider "pages r = n" | "n < pages r" | "\<not> n < pages r" "pages r \<noteq> n" by blast
  then show ?case
  proof cases
    case 1
    with Cons.prems wf disj show ?thesis
      by (auto simp: wf_range_def range_end_def)
  next
    case 2
    note s = split_range [OF wf(1) 2]
    have "unat n < unat (pages r)" using 2 by (simp add: word_less_nat_alt)
    with wf(1) have "unat (base_addr r) + 4096 * unat n \<le> 2 ^ 64"
      by (simp add: wf_range_def range_end_def)
    with 2 Cons.prems wf disj s list_all_apart_mono [OF wf(2), of "r\<lparr>base_addr := base_addr r + 4096 * n, pages := pages r - n\<rparr>"]
    show ?thesis by (auto simp: wf_range_def)
  next
    case 3
    with Cons.prems obtain rs'' where rs'': "take_pages n rs = Some (b, rs'')" "rs' = r # rs''"
      by auto
    from Cons.IH [OF wf(3) rs''(1)]
    have IH: "b \<noteq> 0" "unat b + 4096 * unat n \<le> 2 ^ 64" "wf_ranges rs''"
      "block b n \<subseteq> ranges_bytes rs" "ranges_bytes rs'' = ranges_bytes rs - block b n"
      by auto
    then have "list_all (apart r) rs''"
      using ranges_bytes_disjoint [OF wf(1), of rs''] disj by (simp add: wf_ranges_all) blast
    with IH wf disj rs''(2) show ?thesis by auto
  qed
qed

lemma take_pages_None:
  "take_pages n rs = None \<longleftrightarrow> (\<forall>r \<in> set rs. pages r < n)"
  by (induction rs) (auto simp: not_less order.strict_iff_order)

lemma merge_pages_Some:
  assumes "wf_ranges rs" "merge_pages b n rs = Some rs'"
    and "b \<noteq> 0" "n \<noteq> 0" "unat b + 4096 * unat n \<le> 2 ^ 64" "block b n \<inter> ranges_bytes rs = {}"
  shows "wf_ranges rs' \<and> ranges_bytes rs' = ranges_bytes rs \<union> block b n"
  using assms
proof (induction rs arbitrary: rs')
  case Nil
  then show ?case by simp
next
  case (Cons r rs)
  from Cons.prems(1) have wf: "wf_range r" "list_all (apart r) rs" "wf_ranges rs" "list_all wf_range rs"
    by (simp_all add: wf_ranges_all)
  then have disj: "range_bytes r \<inter> ranges_bytes rs = {}"
    by (simp add: ranges_bytes_disjoint)
  show ?case
  proof (cases "base_addr r = b + 4096 * n")
    case True
    then have "unat b + 4096 * unat n \<noteq> 2 ^ 64"
      using page_end_zero [of b n] wf(1) by (auto simp: wf_range_def)
    then have base: "unat (base_addr r) = unat b + 4096 * unat n"
      using True Cons.prems page_bytes_no_wrap [of b n] by simp
    let ?r = "r\<lparr>base_addr := b, pages := pages r + n\<rparr>"
    have "4096 * (unat (pages r) + unat n) \<le> 2 ^ 64"
      using base wf(1) by (simp add: wf_range_def range_end_def)
    then have p: "unat (pages r + n) = unat (pages r) + unat n"
      by (subst unat_add_no_wrap) simp_all
    have e: "range_end ?r = range_end r" by (simp add: range_end_def p base)
    have "pages r + n \<noteq> 0" using p Cons.prems(4) by (metis add_is_0 unat_eq_0)
    then have wf': "wf_range ?r" using wf(1) Cons.prems(3) e by (simp add: wf_range_def)
    have bytes: "range_bytes ?r = block b n \<union> range_bytes r"
      using wf_range_nonempty [OF wf(1)] unfolding range_bytes_eq e by (auto simp: block_def base)
    have "range_bytes ?r \<inter> ranges_bytes rs = {}"
      using bytes disj Cons.prems(6) by (auto simp: Int_Un_distrib2)
    then have "list_all (apart ?r) rs"
      by (simp only: ranges_bytes_disjoint [OF wf' wf(4)])
    with True Cons.prems wf wf' bytes show ?thesis by auto
  next
    case False
    with Cons.prems obtain rs'' where rs'': "merge_pages b n rs = Some rs''" "rs' = r # rs''"
      by auto
    from Cons.IH [OF wf(3) rs''(1)] Cons.prems
    have IH: "wf_ranges rs''" "ranges_bytes rs'' = ranges_bytes rs \<union> block b n" by auto
    then have "list_all (apart r) rs''"
      using ranges_bytes_disjoint [OF wf(1), of rs''] disj Cons.prems(6)
      by (simp add: wf_ranges_all) blast
    with IH wf rs''(2) show ?thesis by auto
  qed
qed

section \<open>The operations on a well-formed map\<close>

lemma wf_mmap_bounds:
  "wf_mmap mmap \<Longrightarrow> range_count mmap \<le> length (memory_ranges mmap)"
  by (simp add: wf_mmap_def)

lemma get_pages_cases:
  assumes wf: "wf_mmap mmap"
  obtains (none) "take_pages n (live mmap) = None" "mmap_get_pages mmap n = (0, mmap)"
  | (some) b rs mmap' where "take_pages n (live mmap) = Some (b, rs)"
      "mmap_get_pages mmap n = (b, mmap')" "live mmap' = rs"
      "max_range_count mmap' = max_range_count mmap" "range_count mmap' \<le> range_count mmap"
      "length (memory_ranges mmap') = length (memory_ranges mmap)"
proof (cases "take_pages n (live mmap)")
  case None
  with get_pages_from_refines [OF wf_mmap_bounds [OF wf], of 0 n] none show ?thesis
    by (simp add: mmap_get_pages_def)
next
  case (Some p)
  obtain b rs where p: "p = (b, rs)" by (cases p)
  with get_pages_from_refines [OF wf_mmap_bounds [OF wf], of 0 n] Some some show ?thesis
    by (auto simp: mmap_get_pages_def)
qed

lemma mmap_get_pages_hit:
  assumes wf: "wf_mmap mmap" and get: "mmap_get_pages mmap n = (b, mmap')" and b: "b \<noteq> 0"
  shows "wf_mmap mmap' \<and> block b n \<subseteq> free_bytes mmap \<and>
    free_bytes mmap' = free_bytes mmap - block b n \<and>
    unat b + 4096 * unat n \<le> 2 ^ 64 \<and> max_range_count mmap' = max_range_count mmap"
  using wf
proof (cases rule: get_pages_cases [of mmap n])
  case none
  with get b show ?thesis by simp
next
  case (some b2 rs mmap2)
  with get have eq: "b2 = b" "mmap2 = mmap'" by simp_all
  from wf have "wf_ranges (live mmap)" by (simp add: wf_mmap_def)
  from take_pages_Some [OF this some(1)] some wf show ?thesis
    by (simp add: eq free_bytes_def wf_mmap_def)
qed

lemma mmap_get_pages_miss:
  assumes wf: "wf_mmap mmap" and get: "mmap_get_pages mmap n = (0, mmap')"
  shows "mmap' = mmap" and "r \<in> set (live mmap) \<Longrightarrow> pages r < n"
proof -
  from wf have w: "wf_ranges (live mmap)" by (simp add: wf_mmap_def)
  from wf get have "take_pages n (live mmap) = None \<and> mmap' = mmap"
    by (cases rule: get_pages_cases [of mmap n]) (auto dest: take_pages_Some [OF w])
  then show "mmap' = mmap" "r \<in> set (live mmap) \<Longrightarrow> pages r < n"
    by (auto simp: take_pages_None)
qed

definition returnable :: "memory_map \<Rightarrow> addr \<Rightarrow> u64 \<Rightarrow> bool" where
  "returnable mmap b n \<longleftrightarrow> b \<noteq> 0 \<and> n \<noteq> 0 \<and> unat b + 4096 * unat n \<le> 2 ^ 64 \<and>
     block b n \<inter> free_bytes mmap = {}"

lemma mmap_add_range_ok:
  assumes wf: "wf_mmap mmap" and ret: "returnable mmap b n"
    and add: "mmap_add_range mmap b n = (True, mmap')"
  shows "wf_mmap mmap' \<and> free_bytes mmap' = free_bytes mmap \<union> block b n \<and>
    max_range_count mmap' = max_range_count mmap"
proof -
  let ?r = "\<lparr>base_addr = b, pages = n\<rparr>"
  from add have c: "range_count mmap < max_range_count mmap"
    and mmap': "mmap' = mmap\<lparr>memory_ranges := (memory_ranges mmap)[range_count mmap := ?r],
                    range_count := Suc (range_count mmap)\<rparr>"
    by (auto simp: mmap_add_range_def split: if_splits)
  with wf have live': "live mmap' = live mmap @ [?r]"
    by (simp add: live_def wf_mmap_def take_Suc_conv_app_nth)
  from ret have r: "wf_range ?r" by (simp add: returnable_def wf_range_def range_end_def)
  from wf have w: "wf_ranges (live mmap)" by (simp add: wf_mmap_def)
  have "range_bytes ?r \<inter> ranges_bytes (live mmap) = {}"
    using ret by (simp add: returnable_def free_bytes_def)
  then have "list_all (apart ?r) (live mmap)"
    by (simp only: ranges_bytes_disjoint [OF r wf_ranges_all [OF w]])
  then have "wf_ranges (live mmap')"
    using w r by (auto simp: live' wf_ranges_def sorted_wrt_append list_all_iff apart_def)
  with c wf mmap' live' show ?thesis by (auto simp: wf_mmap_def free_bytes_def)
qed

lemma add_merge_cases:
  assumes wf: "wf_mmap mmap" and n: "n \<noteq> 0"
  obtains (merged) rs mmap' where "merge_pages b n (live mmap) = Some rs"
      "mmap_add_range_merge mmap b n = (True, mmap')" "live mmap' = rs"
      "max_range_count mmap' = max_range_count mmap" "range_count mmap' = range_count mmap"
      "length (memory_ranges mmap') = length (memory_ranges mmap)"
  | (added) "mmap_add_range_merge mmap b n = mmap_add_range mmap b n"
proof (cases "merge_pages b n (live mmap)")
  case None
  with merge_from_refines [OF wf_mmap_bounds [OF wf], of 0 b n] n added show ?thesis
    by (simp add: mmap_add_range_merge_def)
next
  case (Some rs)
  with merge_from_refines [OF wf_mmap_bounds [OF wf], of 0 b n] n merged show ?thesis
    by (auto simp: mmap_add_range_merge_def)
qed

lemma mmap_add_range_merge_ok:
  assumes wf: "wf_mmap mmap" and ret: "returnable mmap b n"
    and add: "mmap_add_range_merge mmap b n = (True, mmap')"
  shows "wf_mmap mmap' \<and> free_bytes mmap' = free_bytes mmap \<union> block b n \<and>
    max_range_count mmap' = max_range_count mmap"
proof -
  from ret have n: "n \<noteq> 0" by (simp add: returnable_def)
  from wf n show ?thesis
  proof (cases rule: add_merge_cases [of mmap n b])
    case (merged rs mmap2)
    with add have eq: "mmap2 = mmap'" by simp
    from wf have "wf_ranges (live mmap)" by (simp add: wf_mmap_def)
    from merge_pages_Some [OF this merged(1)] ret merged wf show ?thesis
      by (simp add: eq returnable_def free_bytes_def wf_mmap_def)
  next
    case added
    with add have "mmap_add_range mmap b n = (True, mmap')" by simp
    with wf ret show ?thesis by (rule mmap_add_range_ok)
  qed
qed

lemma mmap_add_range_merge_fail:
  assumes "mmap_add_range_merge mmap b n = (False, mmap')"
  shows "mmap' = mmap" and "n = 0 \<or> max_range_count mmap \<le> range_count mmap"
  using assms by (auto simp: mmap_add_range_merge_def mmap_add_range_def split: if_splits option.splits)

section \<open>The interface of a page source\<close>

text \<open>
  What the kernel's allocators rely on: a source of page blocks, from which \<open>grab\<close> takes a
  block and to which \<open>give\<close> returns one. The laws are those of a set of free bytes.
\<close>

locale page_source =
  fixes grab :: "'s \<Rightarrow> u64 \<Rightarrow> addr \<times> 's"
    and give :: "'s \<Rightarrow> addr \<Rightarrow> u64 \<Rightarrow> bool \<times> 's"
    and avail :: "'s \<Rightarrow> nat set"
    and ok :: "'s \<Rightarrow> bool"
  assumes grab_hit: "\<lbrakk>ok s; grab s n = (b, s'); b \<noteq> 0\<rbrakk> \<Longrightarrow>
      ok s' \<and> block b n \<subseteq> avail s \<and> avail s' = avail s - block b n \<and>
      unat b + 4096 * unat n \<le> 2 ^ 64"
    and grab_miss: "\<lbrakk>ok s; grab s n = (0, s')\<rbrakk> \<Longrightarrow> s' = s"
    and give_ok: "\<lbrakk>ok s; give s b n = (True, s'); b \<noteq> 0; n \<noteq> 0; unat b + 4096 * unat n \<le> 2 ^ 64;
      block b n \<inter> avail s = {}\<rbrakk> \<Longrightarrow> ok s' \<and> avail s' = avail s \<union> block b n"
    and give_fail: "\<lbrakk>ok s; give s b n = (False, s')\<rbrakk> \<Longrightarrow> s' = s"

text \<open>
  A client of a page source: it remembers the blocks it holds, never asks for no pages, and
  gives back only blocks it holds.
\<close>

datatype pool_op = Grab u64 | Give nat

fun pool_step :: "('s \<Rightarrow> u64 \<Rightarrow> addr \<times> 's) \<Rightarrow> ('s \<Rightarrow> addr \<Rightarrow> u64 \<Rightarrow> bool \<times> 's) \<Rightarrow>
    pool_op \<Rightarrow> 's \<times> (addr \<times> u64) list \<Rightarrow> 's \<times> (addr \<times> u64) list" where
  "pool_step grab give (Grab n) (s, held) =
     (if n = 0 then (s, held)
      else let (b, s') = grab s n in (s', if b = 0 then held else (b, n) # held))"
| "pool_step grab give (Give k) (s, held) =
     (if k < length held
      then let (r, s') = give s (fst (held ! k)) (snd (held ! k))
           in (s', if r then take k held @ drop (Suc k) held else held)
      else (s, held))"

definition pool_run :: "('s \<Rightarrow> u64 \<Rightarrow> addr \<times> 's) \<Rightarrow> ('s \<Rightarrow> addr \<Rightarrow> u64 \<Rightarrow> bool \<times> 's) \<Rightarrow>
    pool_op list \<Rightarrow> 's \<Rightarrow> 's \<times> (addr \<times> u64) list" where
  "pool_run grab give ops s = fold (pool_step grab give) ops (s, [])"

definition held_bytes :: "(addr \<times> u64) list \<Rightarrow> nat set" where
  "held_bytes held = (\<Union>p \<in> set held. block (fst p) (snd p))"

definition pool_inv :: "nat set \<Rightarrow> nat set \<times> (addr \<times> u64) list \<Rightarrow> bool" where
  "pool_inv whole = (\<lambda>(av, held). sorted_wrt (\<lambda>p q. block (fst p) (snd p) \<inter> block (fst q) (snd q) = {}) held \<and>
     (\<forall>p \<in> set held. fst p \<noteq> 0 \<and> snd p \<noteq> 0 \<and> unat (fst p) + 4096 * unat (snd p) \<le> 2 ^ 64) \<and>
     av \<inter> held_bytes held = {} \<and> av \<union> held_bytes held = whole)"

lemma held_bytes_simps [simp]:
  "held_bytes [] = {}"
  "held_bytes (p # held) = block (fst p) (snd p) \<union> held_bytes held"
  "held_bytes (xs @ ys) = held_bytes xs \<union> held_bytes ys"
  by (auto simp: held_bytes_def split_beta)

lemma pool_inv_Nil [simp]: "pool_inv whole (av, []) \<longleftrightarrow> av = whole"
  by (simp add: pool_inv_def)

lemma sorted_wrt_disjoint_held:
  "(\<forall>q \<in> set held. block b n \<inter> block (fst q) (snd q) = {}) \<longleftrightarrow> block b n \<inter> held_bytes held = {}"
  unfolding held_bytes_def by blast

lemma pool_inv_grab:
  assumes "pool_inv whole (av, held)" "block b n \<subseteq> av" "b \<noteq> 0" "n \<noteq> 0"
    "unat b + 4096 * unat n \<le> 2 ^ 64"
  shows "pool_inv whole (av - block b n, (b, n) # held)"
  using assms by (auto simp: pool_inv_def sorted_wrt_disjoint_held)

lemma pool_inv_give:
  assumes inv: "pool_inv whole (av, held)" and k: "k < length held" and p: "held ! k = (b, n)"
  shows "b \<noteq> 0 \<and> n \<noteq> 0 \<and> unat b + 4096 * unat n \<le> 2 ^ 64 \<and> block b n \<inter> av = {} \<and>
    pool_inv whole (av \<union> block b n, take k held @ drop (Suc k) held)"
proof -
  have h: "held = take k held @ (b, n) # drop (Suc k) held"
    using id_take_nth_drop [OF k] p by simp
  define xs where "xs = take k held"
  define ys where "ys = drop (Suc k) held"
  from h have held: "held = xs @ (b, n) # ys" by (simp add: xs_def ys_def)
  have "block b n \<inter> held_bytes xs = {}"
    using inv unfolding sorted_wrt_disjoint_held [symmetric]
    by (auto simp: held pool_inv_def sorted_wrt_append)
  moreover have "block b n \<inter> held_bytes ys = {}"
    using inv by (simp add: held pool_inv_def sorted_wrt_append sorted_wrt_disjoint_held)
  ultimately show ?thesis
    using inv unfolding xs_def [symmetric] ys_def [symmetric]
    by (auto simp: held pool_inv_def sorted_wrt_append)
qed

context page_source
begin

lemma pool_step_inv:
  assumes "ok s" "pool_inv whole (avail s, held)" "pool_step grab give opn (s, held) = (s', held')"
  shows "ok s' \<and> pool_inv whole (avail s', held')"
proof (cases opn)
  case (Grab n)
  obtain b s1 where g: "grab s n = (b, s1)" by fastforce
  show ?thesis
  proof (cases "n = 0 \<or> b = 0")
    case True
    with assms Grab g grab_miss [of s n s1] show ?thesis by (auto split: if_splits)
  next
    case False
    with assms Grab g grab_hit [OF assms(1) g] show ?thesis
      by (auto intro: pool_inv_grab)
  qed
next
  case (Give k)
  show ?thesis
  proof (cases "k < length held")
    case False
    with assms Give show ?thesis by auto
  next
    case True
    obtain b n where p: "held ! k = (b, n)" by fastforce
    obtain r s1 where g: "give s b n = (r, s1)" by fastforce
    note held = pool_inv_give [OF assms(2) True p]
    from assms(3) Give True p g
    have s': "s' = s1" "held' = (if r then take k held @ drop (Suc k) held else held)" by auto
    show ?thesis
    proof (cases r)
      case True
      with held give_ok [OF assms(1), of b n s1] g s' show ?thesis by auto
    next
      case False
      with give_fail [OF assms(1), of b n s1] g s' assms show ?thesis by auto
    qed
  qed
qed

lemma pool_run_inv:
  assumes "ok s" "pool_run grab give ops s = (s', held)"
  shows "ok s' \<and> pool_inv (avail s) (avail s', held)"
proof -
  have "ok s' \<and> pool_inv whole (avail s', held')"
    if "ok s" "pool_inv whole (avail s, held)" "fold (pool_step grab give) ops (s, held) = (s', held')"
    for whole s held s' held'
    using that
  proof (induction ops arbitrary: s held)
    case Nil
    then show ?case by simp
  next
    case (Cons opn ops)
    obtain s1 held1 where st: "pool_step grab give opn (s, held) = (s1, held1)" by fastforce
    from pool_step_inv [OF Cons.prems(1,2) st] Cons.IH [of s1 held1] Cons.prems(3) st
    show ?case by simp
  qed
  from this [of s "avail s" "[]" s' held] assms show ?thesis by (simp add: pool_run_def)
qed

end

interpretation mm: page_source mmap_get_pages mmap_add_range_merge free_bytes wf_mmap
proof unfold_locales
  fix s n b s'
  assume "wf_mmap s" "mmap_get_pages s n = (b, s')" "b \<noteq> 0"
  from mmap_get_pages_hit [OF this]
  show "wf_mmap s' \<and> block b n \<subseteq> free_bytes s \<and> free_bytes s' = free_bytes s - block b n \<and>
      unat b + 4096 * unat n \<le> 2 ^ 64" by simp
next
  fix s n s' assume "wf_mmap s" "mmap_get_pages s n = (0, s')"
  then show "s' = s" by (rule mmap_get_pages_miss(1))
next
  fix s b n s'
  assume "wf_mmap s" "mmap_add_range_merge s b n = (True, s')" "b \<noteq> 0" "n \<noteq> 0"
    "unat b + 4096 * unat n \<le> 2 ^ 64" "block b n \<inter> free_bytes s = {}"
  then show "wf_mmap s' \<and> free_bytes s' = free_bytes s \<union> block b n"
    using mmap_add_range_merge_ok [of s b n s'] by (simp add: returnable_def)
next
  fix s b n s' assume "wf_mmap s" "mmap_add_range_merge s b n = (False, s')"
  from mmap_add_range_merge_fail(1) [OF this(2)] show "s' = s" .
qed

section \<open>Properties\<close>

lemma take_pages_room:
  "take_pages n rs = Some (b, rs') \<Longrightarrow>
     length rs' < length rs \<or> length rs' = length rs \<and> merge_pages b n rs' \<noteq> None"
proof (induction rs arbitrary: rs')
  case Nil
  then show ?case by simp
next
  case (Cons r rs)
  consider "pages r = n" | "n < pages r" "pages r \<noteq> n" | "\<not> n < pages r" "pages r \<noteq> n" by blast
  then show ?case
  proof cases
    case 3
    with Cons.prems obtain rs1 where "take_pages n rs = Some (b, rs1)" "rs' = r # rs1" by auto
    with Cons.IH [of rs1] show ?thesis by auto
  qed (use Cons.prems in auto)
qed

text \<open>
  C1. No page is ever handed out twice. Whatever sequence of requests and returns a client
  makes, starting from a well-formed map: the map stays well-formed, the blocks the client
  holds are pairwise disjoint and disjoint from what is still free, and held and free bytes
  together are exactly the bytes that were free at the start.
\<close>

theorem mmap_no_double_allocation:
  assumes "wf_mmap mmap"
    and "pool_run mmap_get_pages mmap_add_range_merge ops mmap = (mmap', held)"
  shows "wf_mmap mmap' \<and> pool_inv (free_bytes mmap) (free_bytes mmap', held)"
  using assms by (rule mm.pool_run_inv)

definition demo_mmap :: memory_map where
  "demo_mmap = \<lparr>memory_ranges = [\<lparr>base_addr = 0x1000, pages = 4\<rparr>, \<lparr>base_addr = 0x9000, pages = 2\<rparr>,
       \<lparr>base_addr = 0, pages = 0\<rparr>], range_count = 2, max_range_count = 3\<rparr>"

lemma wf_demo_mmap: "wf_mmap demo_mmap"
  by (simp add: demo_mmap_def wf_mmap_def live_def wf_range_def apart_def range_end_def)

lemma get_demo_mmap: "mmap_get_pages demo_mmap 3 = (0x1000, demo_mmap\<lparr>memory_ranges :=
    [\<lparr>base_addr = 0x4000, pages = 1\<rparr>, \<lparr>base_addr = 0x9000, pages = 2\<rparr>, \<lparr>base_addr = 0, pages = 0\<rparr>]\<rparr>)"
  by (simp add: demo_mmap_def mmap_get_pages_def get_pages_from.simps Let_def)

theorem mmap_no_double_allocation_witness:
  "case pool_run mmap_get_pages mmap_add_range_merge [Grab 3] demo_mmap of (m, held) \<Rightarrow>
     held = [(0x1000, 3)] \<and> pool_inv (free_bytes demo_mmap) (free_bytes m, held)"
  using mmap_no_double_allocation [OF wf_demo_mmap, of "[Grab 3]"]
  by (simp add: pool_run_def get_demo_mmap)

text \<open>
  C21. Giving a block back never fails and undoes the allocation: after \<open>mmap_get_pages\<close> has
  handed out a block, \<open>mmap_add_range_merge\<close> of that block succeeds, and the free bytes are
  those of before.
\<close>

theorem mmap_get_add_roundtrip:
  assumes wf: "wf_mmap mmap" and n: "n \<noteq> 0"
    and get: "mmap_get_pages mmap n = (b, mmap')" and b: "b \<noteq> 0"
  shows "\<exists>mmap''. mmap_add_range_merge mmap' b n = (True, mmap'') \<and> wf_mmap mmap'' \<and>
    free_bytes mmap'' = free_bytes mmap"
proof -
  note hit = mmap_get_pages_hit [OF wf get b]
  then have wf': "wf_mmap mmap'" by simp
  obtain r mmap'' where add: "mmap_add_range_merge mmap' b n = (r, mmap'')" by fastforce
  have r
  proof (rule ccontr)
    assume "\<not> r"
    with add have f: "mmap_add_range_merge mmap' b n = (False, mmap'')" by simp
    from wf show False
    proof (cases rule: get_pages_cases [of mmap n])
      case none
      with get b show False by simp
    next
      case (some b2 rs mmap2)
      with get have eq: "b2 = b" "mmap2 = mmap'" "rs = live mmap'" by simp_all
      from wf' n show False
      proof (cases rule: add_merge_cases [of mmap' n b])
        case merged
        with f show False by simp
      next
        case added
        from mmap_add_range_merge_fail(2) [OF f] n
        have "max_range_count mmap' \<le> range_count mmap'" by simp
        with some wf wf' have len: "length (live mmap') = length (live mmap)"
          by (simp add: eq wf_mmap_def length_live)
        with take_pages_room [OF some(1)] have "merge_pages b n (live mmap') \<noteq> None"
          by (simp add: eq)
        with merge_from_refines [OF wf_mmap_bounds [OF wf'], of 0 b n] f n show False
          by (auto simp: mmap_add_range_merge_def split: option.splits)
      qed
    qed
  qed
  moreover from hit n b have "returnable mmap' b n" by (auto simp: returnable_def)
  ultimately show ?thesis
    using mmap_add_range_merge_ok [OF wf', of b n mmap''] add hit by auto
qed

theorem mmap_get_add_roundtrip_witness:
  "\<exists>m. mmap_add_range_merge (snd (mmap_get_pages demo_mmap 3)) 0x1000 3 = (True, m) \<and>
     wf_mmap m \<and> free_bytes m = free_bytes demo_mmap"
  using mmap_get_add_roundtrip [OF wf_demo_mmap _ get_demo_mmap]
  by (simp add: get_demo_mmap)

text \<open>
  C22. First fit, exactly: on a well-formed map \<open>mmap_get_pages\<close> returns 0, and changes
  nothing, if and only if no single live range has enough pages; otherwise it returns the
  start of the first live range that is large enough and leaves the ranges before it alone.
\<close>

theorem mmap_get_pages_first_fit:
  assumes wf: "wf_mmap mmap"
  shows "case dropWhile (\<lambda>r. pages r < n) (live mmap) of
      [] \<Rightarrow> mmap_get_pages mmap n = (0, mmap)
    | r # rs \<Rightarrow> \<exists>mmap'. mmap_get_pages mmap n = (base_addr r, mmap') \<and> base_addr r \<noteq> 0 \<and>
        live mmap' = takeWhile (\<lambda>r. pages r < n) (live mmap) @
          (if pages r = n then rs
           else r\<lparr>base_addr := base_addr r + 4096 * n, pages := pages r - n\<rparr> # rs)"
proof -
  have spec: "take_pages n rs = (case dropWhile (\<lambda>r. pages r < n) rs of [] \<Rightarrow> None
     | r # rs' \<Rightarrow> Some (base_addr r, takeWhile (\<lambda>r. pages r < n) rs @
         (if pages r = n then rs'
          else r\<lparr>base_addr := base_addr r + 4096 * n, pages := pages r - n\<rparr> # rs')))" for rs
  proof (induction rs)
    case (Cons r rs)
    show ?case
    proof (cases "pages r < n")
      case True
      then have "pages r \<noteq> n" "\<not> n < pages r" by auto
      with True Cons show ?thesis
        by (cases "dropWhile (\<lambda>r. pages r < n) rs") (simp_all del: dropWhile_eq_Nil_conv)
    next
      case False
      then have "pages r \<noteq> n \<longleftrightarrow> n < pages r" by (auto simp: not_less)
      with False show ?thesis by simp
    qed
  qed simp
  from wf have w: "wf_ranges (live mmap)" by (simp add: wf_mmap_def)
  from wf show ?thesis
  proof (cases rule: get_pages_cases [of mmap n])
    case none
    then show ?thesis using spec [of "live mmap"]
      by (cases "dropWhile (\<lambda>r. pages r < n) (live mmap)") (simp_all del: dropWhile_eq_Nil_conv)
  next
    case (some b rs mmap')
    then show ?thesis using spec [of "live mmap"] take_pages_Some [OF w some(1)]
      by (cases "dropWhile (\<lambda>r. pages r < n) (live mmap)") (auto simp del: dropWhile_eq_Nil_conv)
  qed
qed

theorem mmap_get_pages_first_fit_witness:
  "mmap_get_pages demo_mmap 5 = (0, demo_mmap)"
  using mmap_get_pages_first_fit [OF wf_demo_mmap, of 5]
  by (simp add: demo_mmap_def live_def)

text \<open>
  \<open>mmap_get_range\<close> reports the size of the first live range that starts at the address,
  but the range it drops from the map is the last one: the pages reported stay in the map
  whenever that range is not the last.
\<close>

theorem mmap_get_range_drops_last:
  assumes "range_count mmap \<le> length (memory_ranges mmap)"
  shows "case dropWhile (\<lambda>r. base_addr r \<noteq> base) (live mmap) of
      [] \<Rightarrow> mmap_get_range mmap base = (0, mmap)
    | r # rs \<Rightarrow> \<exists>mmap'. mmap_get_range mmap base = (pages r, mmap') \<and> live mmap' = butlast (live mmap)"
proof -
  have "case dropWhile (\<lambda>r. base_addr r \<noteq> base) (drop i (live mmap)) of
      [] \<Rightarrow> get_range_from mmap base i = (0, mmap)
    | r # rs \<Rightarrow> \<exists>mmap'. get_range_from mmap base i = (pages r, mmap') \<and> live mmap' = butlast (live mmap)"
    if "i \<le> range_count mmap" for i
    using assms that
  proof (induction mmap base i rule: get_range_from.induct)
    case (1 mmap base i)
    show ?case
    proof (cases "i < range_count mmap")
      case False
      with 1 show ?thesis by (simp add: length_live get_range_from.simps [of mmap])
    next
      case i: True
      have bl: "live (mmap\<lparr>range_count := range_count mmap - Suc 0\<rparr>) = butlast (live mmap)"
        using 1 i by (simp add: live_def butlast_take)
      let ?r = "memory_ranges mmap ! i"
      have d: "drop i (live mmap) = ?r # drop (Suc i) (live mmap)"
        using 1 i by (simp add: drop_live_Cons)
      have step: "get_range_from mmap base i =
          (if base_addr ?r = base then (pages ?r, mmap\<lparr>range_count := range_count mmap - 1\<rparr>)
           else get_range_from mmap base (Suc i))"
        using i by (subst get_range_from.simps) simp
      show ?thesis
      proof (cases "base_addr ?r = base")
        case True
        with bl show ?thesis by (simp add: d step)
      next
        case False
        then have eq: "get_range_from mmap base i = get_range_from mmap base (Suc i)"
          by (simp add: step)
        from "1.IH" [OF i False] 1 i False show ?thesis
          unfolding d eq by (simp split: list.splits)
      qed
    qed
  qed
  from this [of 0] show ?thesis unfolding mmap_get_range_def by simp
qed

theorem mmap_get_range_drops_last_witness:
  "\<exists>m. mmap_get_range demo_mmap 0x1000 = (4, m) \<and> live m = [\<lparr>base_addr = 0x1000, pages = 4\<rparr>]"
  using mmap_get_range_drops_last [of demo_mmap "0x1000"] by (simp add: demo_mmap_def live_def)

end
