(* ===== verification/Kernel_State.thy ===== *)
theory Kernel_State
  imports Mmap Threads CMem
begin

text \<open>
  The state of the memory manager, \<^verbatim>\<open>src/kernel/memory.c\<close>: its static variables, the physical
  words that hold the paging structures, the heap's headers and the bytes of the heap's
  blocks, with the primitive operations every function of the file is built from: taking and
  releasing one of its mutexes, and taking pages from and returning pages to the physical map.

  Memory is split by what the kernel keeps in it. Paging structures are 64-bit words by
  physical address (\<open>pt\<close>), reached from C only through the processor's page walk (theory
  \<open>Paging\<close>). Heap headers are records by virtual address (\<open>headers\<close>), the data of
  heap blocks is bytes by virtual address (\<open>bytes\<close>), and the two page-range maps are the
  records of theory \<open>Mmap\<close> together with the address of their array.
\<close>

section \<open>State\<close>

datatype mutex_id = Heap_Mutex | Phys_Mmap_Mutex | Phys_Mmap_Ext_Mutex | Virt_Mmap_Mutex
  | Paging_Mutex | Ipcall_Mutex

record heap_entry =
  he_size :: u64
  he_used :: bool
  he_last :: addr
  he_next :: addr

record kmem =
  mutexes :: "mutex_id \<Rightarrow> mtx"
  phys_mmap :: memory_map
  phys_ranges :: addr
  phys_mmap_max_size :: u64
  virt_mmap :: memory_map
  virt_ranges :: addr
  pt :: "addr \<Rightarrow> u64"
  cr3 :: addr
  cr0_wp :: bool
  invld_tlbs_addr :: addr
  flushed :: "addr list"
  working_processors :: u16
  ip_call_count :: u16
  kernel_heap_start :: addr
  kernel_heap_end :: addr
  first_heap_entry :: addr
  last_heap_entry :: addr
  headers :: "addr \<Rightarrow> heap_entry"
  bytes :: mem

section \<open>Mutexes\<close>

definition klock :: "mutex_id \<Rightarrow> kmem \<Rightarrow> kmem res" where
  "klock i s = bindR (acquire (mutexes s i)) (\<lambda>m. Inr (s\<lparr>mutexes := (mutexes s)(i := m)\<rparr>))"

definition kunlock :: "mutex_id \<Rightarrow> kmem \<Rightarrow> kmem res" where
  "kunlock i s = bindR (release (mutexes s i)) (\<lambda>m. Inr (s\<lparr>mutexes := (mutexes s)(i := m)\<rparr>))"

abbreviation held :: "mutex_id \<Rightarrow> kmem \<Rightarrow> bool" where
  "held i s \<equiv> locked (mutexes s i)"

lemma klock_eq: "klock i s = (if held i s then Inl Hang
    else Inr (s\<lparr>mutexes := (mutexes s)(i := (mutexes s i)\<lparr>locked := True\<rparr>)\<rparr>))"
  by (simp add: klock_def acquire_eq)

lemma kunlock_eq: "kunlock i s = Inr (s\<lparr>mutexes := (mutexes s)(i := (mutexes s i)\<lparr>locked := False\<rparr>)\<rparr>)"
  by (simp add: kunlock_def release_eq)

interpretation km: mutex_ops "klock i" "kunlock i" "held i" for i
  by unfold_locales (auto simp: klock_eq kunlock_eq)

lemma relock_state:
  "\<not> held i s \<Longrightarrow> (mutexes s)(i := (mutexes s i)\<lparr>locked := True\<rparr>, i := (mutexes s i)\<lparr>locked := False\<rparr>) = mutexes s"
  by (rule ext) (cases "mutexes s i", auto)

section \<open>Physical pages\<close>

definition alloc_phys_pages :: "u64 \<Rightarrow> kmem \<Rightarrow> (addr \<times> kmem) res" where
  "alloc_phys_pages npages s =
     bindR (klock Phys_Mmap_Mutex s) (\<lambda>s.
     case mmap_get_pages (phys_mmap s) npages of (base, mmap) \<Rightarrow>
     bindR (kunlock Phys_Mmap_Mutex (s\<lparr>phys_mmap := mmap\<rparr>)) (\<lambda>s.
     if base \<noteq> 0 then Inr (base, s) else Inr (0, s)))"

text \<open>
  When nobody holds the mutex the call returns, with the map as \<open>mmap_get_pages\<close> leaves it
  and every mutex as it was; when it is held, the call spins forever.
\<close>

lemma alloc_phys_pages_eq:
  "alloc_phys_pages npages s =
     (if held Phys_Mmap_Mutex s then Inl Hang
      else case mmap_get_pages (phys_mmap s) npages of (base, mmap) \<Rightarrow> Inr (base, s\<lparr>phys_mmap := mmap\<rparr>))"
proof (cases "held Phys_Mmap_Mutex s")
  case True
  then show ?thesis by (simp add: alloc_phys_pages_def klock_eq)
next
  case False
  then have "s\<lparr>phys_mmap := mmap, mutexes := mutexes s\<rparr> = s\<lparr>phys_mmap := mmap\<rparr>" for mmap by simp
  with False relock_state [OF False] show ?thesis
    by (simp add: alloc_phys_pages_def klock_eq kunlock_eq split: prod.split)
qed

end
