(* ===== verification/Paging.thy ===== *)
theory Paging
  imports Kernel_State
begin

text \<open>
  Paging: the processor's four-level page walk, the recursive mapping through which the
  kernel reaches its own paging structures (the macros \<^verbatim>\<open>PML4E_ADDR_OF\<close> to \<^verbatim>\<open>PTE_ADDR_OF\<close>
  of \<^verbatim>\<open>src/kernel/memory.c\<close>), and the functions that edit them: \<open>map_page\<close>, \<open>unmap_page\<close>,
  \<open>unmap_page_fix_size\<close>, \<open>free_phys_pages\<close> and the TLB shoot-down they end with. What \<open>map_page\<close> promises is in
  theory \<open>Map_Page\<close>.

  A C access to a paging entry is \<open>vread\<close> or \<open>vwrite\<close>: it goes through the page walk on
  the structures as they are at that moment, and an access the walk does not allow is the
  page fault, which the kernel answers with \<^verbatim>\<open>kernel_panic\<close> (\<^verbatim>\<open>src/kernel/interrupt.s\<close>).
  TLBs are not modelled as caches; \<open>flushed\<close> records the addresses the kernel has
  invalidated on every processor.
\<close>

section \<open>Flags and entry addresses\<close>

definition PAGING_FLAG_PRESENT :: u64 where "PAGING_FLAG_PRESENT = push_bit 0 1"
definition PAGING_FLAG_READ_WRITE :: u64 where "PAGING_FLAG_READ_WRITE = push_bit 1 1"
definition PAGING_FLAG_PAGE_LEVEL_CACHE_DISABLE :: u64 where
  "PAGING_FLAG_PAGE_LEVEL_CACHE_DISABLE = push_bit 4 1"
definition PAGING_FLAG_PAGE_SIZE :: u64 where "PAGING_FLAG_PAGE_SIZE = push_bit 7 1"

lemmas flag_defs = PAGING_FLAG_PRESENT_def PAGING_FLAG_READ_WRITE_def PAGING_FLAG_PAGE_SIZE_def
  PAGING_FLAG_PAGE_LEVEL_CACHE_DISABLE_def

definition ALIGN_DOWN :: "u64 \<Rightarrow> u64 \<Rightarrow> u64" where
  "ALIGN_DOWN a align = a AND NOT (align - 1)"

definition ALIGN_UP :: "u64 \<Rightarrow> u64 \<Rightarrow> u64" where
  "ALIGN_UP a align = ALIGN_DOWN (a - 1) align + align"

definition PAGE_BASE :: "u64 \<Rightarrow> u64" where
  "PAGE_BASE x = x AND 0xFFFFFFFFFFFFF000"

definition PML4E_ADDR_OF :: "addr \<Rightarrow> addr" where
  "PML4E_ADDR_OF v = 0xFFFFFFFFFFFFF000 OR drop_bit 36 (v AND 0xFF8000000000)"

definition PDPTE_ADDR_OF :: "addr \<Rightarrow> addr" where
  "PDPTE_ADDR_OF v = 0xFFFFFFFFFFE00000 OR drop_bit 27 (v AND 0xFFFFC0000000)"

definition PDE_ADDR_OF :: "addr \<Rightarrow> addr" where
  "PDE_ADDR_OF v = 0xFFFFFFFFC0000000 OR drop_bit 18 (v AND 0xFFFFFFE00000)"

definition PTE_ADDR_OF :: "addr \<Rightarrow> addr" where
  "PTE_ADDR_OF v = 0xFFFFFF8000000000 OR drop_bit 9 (v AND 0xFFFFFFFFF000)"

section \<open>The page walk\<close>

text \<open>
  \<open>pt_index l v\<close> is the 9-bit index of \<open>v\<close> at level \<open>l\<close>: 0 in the page table, 3 in the PML4.
  \<open>walk\<close> yields the physical address and whether every entry on the way allows writing,
  or \<open>None\<close> where an entry is not present.
\<close>

definition frame_mask :: u64 where "frame_mask = 0x000FFFFFFFFFF000"

definition pt_index :: "nat \<Rightarrow> addr \<Rightarrow> u64" where
  "pt_index l v = drop_bit (12 + 9 * l) v AND mask 9"

fun walk :: "(addr \<Rightarrow> u64) \<Rightarrow> nat \<Rightarrow> addr \<Rightarrow> addr \<Rightarrow> (bool \<times> addr) option" where
  "walk mem 0 table v =
     (let e = mem (table + 8 * pt_index 0 v)
      in if \<not> bit e 0 then None
         else Some (bit e 1, (e AND frame_mask) OR (v AND mask 12)))"
| "walk mem (Suc l) table v =
     (let e = mem (table + 8 * pt_index (Suc l) v)
      in if \<not> bit e 0 then None
         else if bit e 7
         then if 2 \<le> l then None
              else Some (bit e 1, (e AND frame_mask AND NOT (mask (12 + 9 * Suc l))) OR (v AND mask (12 + 9 * Suc l)))
         else map_option (\<lambda>(w, p). (bit e 1 \<and> w, p)) (walk mem l (e AND frame_mask) v))"

definition pml4_of :: "kmem \<Rightarrow> addr" where
  "pml4_of s = cr3 s AND frame_mask"

definition translate :: "kmem \<Rightarrow> addr \<Rightarrow> (bool \<times> addr) option" where
  "translate s v = walk (pt s) 3 (pml4_of s) v"

definition page_fault :: stop where
  "page_fault = Panic ''page fault [#PF]''"

definition vread :: "addr \<Rightarrow> kmem \<Rightarrow> u64 res" where
  "vread v s = (case translate s v of None \<Rightarrow> Inl page_fault | Some (w, p) \<Rightarrow> Inr (pt s p))"

definition vwrite :: "addr \<Rightarrow> u64 \<Rightarrow> kmem \<Rightarrow> kmem res" where
  "vwrite v x s = (case translate s v of None \<Rightarrow> Inl page_fault
     | Some (w, p) \<Rightarrow> if w \<or> \<not> cr0_wp s then Inr (s\<lparr>pt := (pt s)(p := x)\<rparr>) else Inl page_fault)"

text \<open>\<^verbatim>\<open>*p |= flags\<close>\<close>

definition vor :: "addr \<Rightarrow> u64 \<Rightarrow> kmem \<Rightarrow> kmem res" where
  "vor v flags s = bindR (vread v s) (\<lambda>x. vwrite v (x OR flags) s)"

section \<open>TLB shoot-down\<close>

text \<open>
  \<open>inter_processor_call\<close> (\<^verbatim>\<open>src/kernel/apic.c\<close>) as the calling processor sees it when every
  other working processor answers the interrupt once: the counter it waits for reaches the
  number of the others, and the function has run on each of them. Called with
  \<^verbatim>\<open>__invalidate_tlbs\<close>, as everywhere in the kernel.
\<close>

definition inter_processor_call :: "kmem \<Rightarrow> kmem res" where
  "inter_processor_call s =
     bindR (klock Ipcall_Mutex s) (\<lambda>s.
     kunlock Ipcall_Mutex (s\<lparr>ip_call_count := if 1 < working_processors s then working_processors s - 1 else 0\<rparr>))"

definition invalidate_tlbs_for :: "addr \<Rightarrow> kmem \<Rightarrow> kmem res" where
  "invalidate_tlbs_for v s =
     bindR (inter_processor_call (s\<lparr>invld_tlbs_addr := v\<rparr>)) (\<lambda>s. Inr (s\<lparr>flushed := v # flushed s\<rparr>))"

section \<open>Mapping a page\<close>

text \<open>The loop that clears a new structure through the recursive mapping.\<close>

function zero_entries :: "(u64 \<Rightarrow> addr) \<Rightarrow> nat \<Rightarrow> kmem \<Rightarrow> kmem res" where
  "zero_entries entry i s =
     (if i < 512 then bindR (vwrite (entry (of_nat i)) 0 s) (zero_entries entry (Suc i)) else Inr s)"
  by pat_completeness auto
termination by (relation "measure (\<lambda>(_, i, _). 512 - i)") auto

declare zero_entries.simps [simp del]

definition map_pml4e :: "addr \<Rightarrow> u64 \<Rightarrow> kmem \<Rightarrow> kmem res" where
  "map_pml4e v flags s =
     bindR (vread (PML4E_ADDR_OF v) s) (\<lambda>e.
     if e AND PAGING_FLAG_PRESENT \<noteq> 0
     then vor (PML4E_ADDR_OF v) flags s
     else bindR (alloc_phys_pages 1 s) (\<lambda>(pdpt_addr, s).
       if pdpt_addr \<noteq> 0
       then bindR (vwrite (PML4E_ADDR_OF v) (pdpt_addr OR PAGING_FLAG_PRESENT OR PAGING_FLAG_READ_WRITE) s) (\<lambda>s.
            bindR (zero_entries (\<lambda>i. PDPTE_ADDR_OF ((v AND 0xFFFFFF8000000000) + 0x40000000 * i)) 0 s) (\<lambda>s.
            vwrite (PML4E_ADDR_OF v) (pdpt_addr OR PAGING_FLAG_PRESENT OR flags) s))
       else Inl (Panic ''no space for PDPT'')))"

definition map_pdpte :: "addr \<Rightarrow> u64 \<Rightarrow> kmem \<Rightarrow> kmem res" where
  "map_pdpte v flags s =
     bindR (vread (PDPTE_ADDR_OF v) s) (\<lambda>e.
     if e AND PAGING_FLAG_PRESENT \<noteq> 0
     then vor (PDPTE_ADDR_OF v) flags s
     else bindR (alloc_phys_pages 1 s) (\<lambda>(pde_addr, s).
       if pde_addr \<noteq> 0
       then bindR (vread (PML4E_ADDR_OF v) s) (\<lambda>pml4e_val.
            bindR (vor (PML4E_ADDR_OF v) PAGING_FLAG_READ_WRITE s) (\<lambda>s.
            bindR (vwrite (PDPTE_ADDR_OF v) (pde_addr OR PAGING_FLAG_PRESENT OR PAGING_FLAG_READ_WRITE) s) (\<lambda>s.
            bindR (zero_entries (\<lambda>i. PDE_ADDR_OF ((v AND 0xFFFFFFFFC0000000) + 0x200000 * i)) 0 s) (\<lambda>s.
            bindR (vwrite (PDPTE_ADDR_OF v) (pde_addr OR PAGING_FLAG_PRESENT OR flags) s) (\<lambda>s.
            vwrite (PML4E_ADDR_OF v) pml4e_val s)))))
       else Inl (Panic ''no space for PD'')))"

definition map_pde :: "addr \<Rightarrow> u64 \<Rightarrow> kmem \<Rightarrow> kmem res" where
  "map_pde v flags s =
     bindR (vread (PDE_ADDR_OF v) s) (\<lambda>e.
     if e AND PAGING_FLAG_PRESENT \<noteq> 0
     then vor (PDE_ADDR_OF v) flags s
     else bindR (alloc_phys_pages 1 s) (\<lambda>(pte_addr, s).
       if pte_addr \<noteq> 0
       then bindR (vread (PML4E_ADDR_OF v) s) (\<lambda>pml4e_val.
            bindR (vor (PML4E_ADDR_OF v) PAGING_FLAG_READ_WRITE s) (\<lambda>s.
            bindR (vread (PDPTE_ADDR_OF v) s) (\<lambda>pdpte_val.
            bindR (vor (PDPTE_ADDR_OF v) PAGING_FLAG_READ_WRITE s) (\<lambda>s.
            bindR (vwrite (PDE_ADDR_OF v) (pte_addr OR PAGING_FLAG_PRESENT OR PAGING_FLAG_READ_WRITE OR flags) s) (\<lambda>s.
            bindR (zero_entries (\<lambda>i. PTE_ADDR_OF ((v AND 0xFFFFFFFFFFE00000) + 0x1000 * i)) 0 s) (\<lambda>s.
            bindR (vwrite (PDE_ADDR_OF v) (pte_addr OR PAGING_FLAG_PRESENT OR flags) s) (\<lambda>s.
            bindR (vwrite (PDPTE_ADDR_OF v) pdpte_val s) (\<lambda>s.
            vwrite (PML4E_ADDR_OF v) pml4e_val s))))))))
       else Inl (Panic ''no space for PT'')))"

text \<open>
  The entry of the page itself is written with the three entries above it made writable for
  the moment; \<open>map_page\<close> and \<open>unmap_page\<close> both do this.
\<close>

definition write_pte :: "addr \<Rightarrow> u64 \<Rightarrow> kmem \<Rightarrow> kmem res" where
  "write_pte v x s =
     bindR (vread (PML4E_ADDR_OF v) s) (\<lambda>pml4e_val.
     bindR (vor (PML4E_ADDR_OF v) PAGING_FLAG_READ_WRITE s) (\<lambda>s.
     bindR (vread (PDPTE_ADDR_OF v) s) (\<lambda>pdpte_val.
     bindR (vor (PDPTE_ADDR_OF v) PAGING_FLAG_READ_WRITE s) (\<lambda>s.
     bindR (vread (PDE_ADDR_OF v) s) (\<lambda>pde_val.
     bindR (vor (PDE_ADDR_OF v) PAGING_FLAG_READ_WRITE s) (\<lambda>s.
     bindR (vwrite (PTE_ADDR_OF v) x s) (\<lambda>s.
     bindR (vwrite (PDE_ADDR_OF v) pde_val s) (\<lambda>s.
     bindR (vwrite (PDPTE_ADDR_OF v) pdpte_val s) (\<lambda>s.
     vwrite (PML4E_ADDR_OF v) pml4e_val s)))))))))"

definition map_page :: "addr \<Rightarrow> addr \<Rightarrow> u64 \<Rightarrow> kmem \<Rightarrow> kmem res" where
  "map_page v p flags s =
     bindR (klock Paging_Mutex s) (\<lambda>s.
     bindR (map_pml4e v flags s) (\<lambda>s.
     bindR (map_pdpte v flags s) (\<lambda>s.
     bindR (map_pde v flags s) (\<lambda>s.
     bindR (write_pte v (p OR PAGING_FLAG_PRESENT OR flags) s) (\<lambda>s.
     bindR (invalidate_tlbs_for v s) (kunlock Paging_Mutex))))))"

definition unmap_page :: "addr \<Rightarrow> kmem \<Rightarrow> kmem res" where
  "unmap_page v s =
     bindR (klock Paging_Mutex s) (\<lambda>s.
     bindR (write_pte v 0 s) (\<lambda>s.
     bindR (invalidate_tlbs_for v s) (kunlock Paging_Mutex)))"

text \<open>\<open>n\<close> pages from \<open>v\<close>, mapped one after the other to the pages from \<open>p\<close>.\<close>

fun map_pages :: "addr \<Rightarrow> addr \<Rightarrow> u64 \<Rightarrow> nat \<Rightarrow> kmem \<Rightarrow> kmem res" where
  "map_pages v p flags 0 s = Inr s"
| "map_pages v p flags (Suc n) s =
     bindR (map_page v p flags s) (map_pages (v + 0x1000) (p + 0x1000) flags n)"

definition unmap_page_fix_size :: "addr \<Rightarrow> kmem \<Rightarrow> kmem res" where
  "unmap_page_fix_size v s =
     bindR (bindR (vread (PDPTE_ADDR_OF v) s) (\<lambda>pdpte.
       if pdpte AND PAGING_FLAG_PAGE_SIZE \<noteq> 0
       then let flags = pdpte AND 0x3E; page_addr = pdpte AND 0xFFFFFFFFF000
            in bindR (vread (PML4E_ADDR_OF v) s) (\<lambda>pml4e_val.
               bindR (vor (PML4E_ADDR_OF v) PAGING_FLAG_READ_WRITE s) (\<lambda>s.
               bindR (vwrite (PDPTE_ADDR_OF v) 0 s) (\<lambda>s.
               bindR (vwrite (PML4E_ADDR_OF v) pml4e_val s) (\<lambda>s.
               bindR (invalidate_tlbs_for v s)
                 (map_pages (ALIGN_DOWN v 0x40000000) page_addr flags 0x40000)))))
       else bindR (vread (PDE_ADDR_OF v) s) (\<lambda>pde.
         if pde AND PAGING_FLAG_PAGE_SIZE \<noteq> 0
         then let flags = pde AND 0x3E; page_addr = pde AND 0xFFFFFFFFF000
              in bindR (vread (PML4E_ADDR_OF v) s) (\<lambda>pml4e_val.
                 bindR (vor (PML4E_ADDR_OF v) PAGING_FLAG_READ_WRITE s) (\<lambda>s.
                 bindR (vread (PDPTE_ADDR_OF v) s) (\<lambda>pdpte_val.
                 bindR (vor (PDPTE_ADDR_OF v) PAGING_FLAG_READ_WRITE s) (\<lambda>s.
                 bindR (vwrite (PDE_ADDR_OF v) 0 s) (\<lambda>s.
                 bindR (vwrite (PDPTE_ADDR_OF v) pdpte_val s) (\<lambda>s.
                 bindR (vwrite (PML4E_ADDR_OF v) pml4e_val s) (\<lambda>s.
                 bindR (invalidate_tlbs_for v s)
                   (map_pages (ALIGN_DOWN v 0x200000) page_addr flags 0x200))))))))
         else Inr s)))
     (unmap_page v)"

definition PHYS_ADDR_OF :: "addr \<Rightarrow> kmem \<Rightarrow> addr res" where
  "PHYS_ADDR_OF v s = bindR (vread (PTE_ADDR_OF v) s) (\<lambda>e. Inr ((e AND 0xFFFFFFFFF000) + (v AND 0xFFF)))"

section \<open>Returning physical pages\<close>

text \<open>
  When the physical map is full, the pages given back become room for the map itself: the
  first of them is mapped behind its array. The cells gained hold whatever the page held;
  they are above \<open>range_count\<close> and written before they are read, so the model fills them
  with zeros.
\<close>

definition empty_cell :: memory_range where
  "empty_cell = \<lparr>base_addr = 0, pages = 0\<rparr>"

definition free_phys_pages :: "addr \<Rightarrow> u64 \<Rightarrow> kmem \<Rightarrow> (bool \<times> kmem) res" where
  "free_phys_pages base count s =
     bindR (klock Phys_Mmap_Mutex s) (\<lambda>s.
     case mmap_add_range_merge (phys_mmap s) base count of (added, mmap) \<Rightarrow>
     let s = s\<lparr>phys_mmap := mmap\<rparr>
     in if added
        then bindR (kunlock Phys_Mmap_Mutex s) (\<lambda>s. Inr (True, s))
        else
          bindR (kunlock Phys_Mmap_Mutex s) (\<lambda>s.
          bindR (klock Phys_Mmap_Ext_Mutex s) (\<lambda>s.
          if phys_mmap_max_size s \<le> of_nat (max_range_count (phys_mmap s)) * 16 + count * 0x1000
          then bindR (kunlock Phys_Mmap_Ext_Mutex s) (\<lambda>s. Inr (False, s))
          else
            bindR (map_page (phys_ranges s + 16 * of_nat (max_range_count (phys_mmap s))) base
                     PAGING_FLAG_READ_WRITE s) (\<lambda>s.
            let m = phys_mmap s;
                s = s\<lparr>phys_mmap := m\<lparr>memory_ranges := memory_ranges m @ replicate 256 empty_cell,
                        max_range_count := max_range_count m + unat (count * 0x1000 div 16)\<rparr>\<rparr>
            in bindR (kunlock Phys_Mmap_Ext_Mutex s) (\<lambda>s. Inr (True, s))))))"

section \<open>The recursive mapping\<close>

text \<open>The constants of the address macros as shifted masks, so that single bits can be read off.\<close>

lemma mask_consts:
  "(0xFFFFFFFFFFFFF000 :: u64) = NOT (mask 12)" "(0xFFFFFFFFFFE00000 :: u64) = NOT (mask 21)"
  "(0xFFFFFFFFC0000000 :: u64) = NOT (mask 30)" "(0xFFFFFF8000000000 :: u64) = NOT (mask 39)"
  "(0xFF8000000000 :: u64) = push_bit 39 (mask 9)" "(0xFFFFC0000000 :: u64) = push_bit 30 (mask 18)"
  "(0xFFFFFFE00000 :: u64) = push_bit 21 (mask 27)" "(0xFFFFFFFFF000 :: u64) = push_bit 12 (mask 36)"
  "(0x000FFFFFFFFFF000 :: u64) = push_bit 12 (mask 40)" "(0x1FF :: u64) = mask 9" "(511 :: u64) = mask 9"
  by (simp_all add: mask_eq_exp_minus_1)

lemmas address_bits = PML4E_ADDR_OF_def PDPTE_ADDR_OF_def PDE_ADDR_OF_def PTE_ADDR_OF_def
  pt_index_def frame_mask_def mask_consts

lemma pt_index_PTE:
  "pt_index 3 (PTE_ADDR_OF v) = 511" "pt_index 2 (PTE_ADDR_OF v) = pt_index 3 v"
  "pt_index 1 (PTE_ADDR_OF v) = pt_index 2 v" "pt_index 0 (PTE_ADDR_OF v) = pt_index 1 v"
  by (rule bit_word_eqI; auto simp: address_bits bit_simps)+

lemma pt_index_PDE:
  "pt_index 3 (PDE_ADDR_OF v) = 511" "pt_index 2 (PDE_ADDR_OF v) = 511"
  "pt_index 1 (PDE_ADDR_OF v) = pt_index 3 v" "pt_index 0 (PDE_ADDR_OF v) = pt_index 2 v"
  by (rule bit_word_eqI; auto simp: address_bits bit_simps)+

lemma pt_index_PDPTE:
  "pt_index 3 (PDPTE_ADDR_OF v) = 511" "pt_index 2 (PDPTE_ADDR_OF v) = 511"
  "pt_index 1 (PDPTE_ADDR_OF v) = 511" "pt_index 0 (PDPTE_ADDR_OF v) = pt_index 3 v"
  by (rule bit_word_eqI; auto simp: address_bits bit_simps)+

lemma pt_index_PML4E:
  "pt_index 3 (PML4E_ADDR_OF v) = 511" "pt_index 2 (PML4E_ADDR_OF v) = 511"
  "pt_index 1 (PML4E_ADDR_OF v) = 511" "pt_index 0 (PML4E_ADDR_OF v) = 511"
  by (rule bit_word_eqI; auto simp: address_bits bit_simps)+

lemma page_offsets:
  "PML4E_ADDR_OF v AND mask 12 = push_bit 3 (pt_index 3 v)"
  "PDPTE_ADDR_OF v AND mask 12 = push_bit 3 (pt_index 2 v)"
  "PDE_ADDR_OF v AND mask 12 = push_bit 3 (pt_index 1 v)"
  "PTE_ADDR_OF v AND mask 12 = push_bit 3 (pt_index 0 v)"
  by (rule bit_word_eqI; auto simp: address_bits bit_simps)+

text \<open>\<open>entry_of l table v\<close>: the physical address of the entry for \<open>v\<close> in a table of level \<open>l\<close>.\<close>

definition entry_of :: "nat \<Rightarrow> addr \<Rightarrow> addr \<Rightarrow> addr" where
  "entry_of l table v = table + 8 * pt_index l v"

lemma frame_or_entry:
  "(e AND frame_mask) OR push_bit 3 (pt_index l v) = entry_of l (e AND frame_mask) v"
proof -
  have "(e AND frame_mask) AND push_bit 3 (pt_index l v) = 0"
    by (rule bit_word_eqI) (auto simp: address_bits bit_simps)
  then have "(e AND frame_mask) OR push_bit 3 (pt_index l v) = (e AND frame_mask) + push_bit 3 (pt_index l v)"
    by (simp add: disjunctive_add_eq_or)
  then show ?thesis by (simp add: entry_of_def push_bit_eq_mult)
qed

section \<open>Reaching the entries of a page\<close>

definition table_entry :: "u64 \<Rightarrow> addr \<Rightarrow> bool" where
  "table_entry e table \<longleftrightarrow> bit e 0 \<and> \<not> bit e 7 \<and> e AND frame_mask = table"

text \<open>
  \<open>tables P T3 T2 T1 v f\<close>: in the physical words \<open>f\<close> the PML4 at \<open>P\<close> maps itself at
  its last entry, writable, and the tables of \<open>v\<close> are present at \<open>T3\<close>, \<open>T2\<close> and \<open>T1\<close>.
\<close>

definition tables :: "addr \<Rightarrow> addr \<Rightarrow> addr \<Rightarrow> addr \<Rightarrow> addr \<Rightarrow> (addr \<Rightarrow> u64) \<Rightarrow> bool" where
  "tables P T3 T2 T1 v f \<longleftrightarrow>
     table_entry (f (P + 8 * 511)) P \<and> bit (f (P + 8 * 511)) 1 \<and>
     table_entry (f (entry_of 3 P v)) T3 \<and> table_entry (f (entry_of 2 T3 v)) T2 \<and>
     table_entry (f (entry_of 1 T2 v)) T1"

lemma walk_levels:
  "walk f 3 t v = (let e = f (entry_of 3 t v) in if \<not> bit e 0 then None else if bit e 7 then None
     else map_option (\<lambda>(w, p). (bit e 1 \<and> w, p)) (walk f 2 (e AND frame_mask) v))"
  "walk f 2 t v = (let e = f (entry_of 2 t v) in if \<not> bit e 0 then None else if bit e 7
     then Some (bit e 1, (e AND frame_mask AND NOT (mask 30)) OR (v AND mask 30))
     else map_option (\<lambda>(w, p). (bit e 1 \<and> w, p)) (walk f 1 (e AND frame_mask) v))"
  "walk f 1 t v = (let e = f (entry_of 1 t v) in if \<not> bit e 0 then None else if bit e 7
     then Some (bit e 1, (e AND frame_mask AND NOT (mask 21)) OR (v AND mask 21))
     else map_option (\<lambda>(w, p). (bit e 1 \<and> w, p)) (walk f 0 (e AND frame_mask) v))"
  "walk f 0 t v = (let e = f (entry_of 0 t v) in if \<not> bit e 0 then None
     else Some (bit e 1, (e AND frame_mask) OR (v AND mask 12)))"
  by (simp_all add: eval_nat_numeral entry_of_def Let_def)

lemma entry_of_simps:
  "entry_of 3 t (PTE_ADDR_OF v) = t + 8 * 511" "entry_of 2 t (PTE_ADDR_OF v) = entry_of 3 t v"
  "entry_of 1 t (PTE_ADDR_OF v) = entry_of 2 t v" "entry_of 0 t (PTE_ADDR_OF v) = entry_of 1 t v"
  "entry_of 3 t (PDE_ADDR_OF v) = t + 8 * 511" "entry_of 2 t (PDE_ADDR_OF v) = t + 8 * 511"
  "entry_of 1 t (PDE_ADDR_OF v) = entry_of 3 t v" "entry_of 0 t (PDE_ADDR_OF v) = entry_of 2 t v"
  "entry_of 3 t (PDPTE_ADDR_OF v) = t + 8 * 511" "entry_of 2 t (PDPTE_ADDR_OF v) = t + 8 * 511"
  "entry_of 1 t (PDPTE_ADDR_OF v) = t + 8 * 511" "entry_of 0 t (PDPTE_ADDR_OF v) = entry_of 3 t v"
  "entry_of 3 t (PML4E_ADDR_OF v) = t + 8 * 511" "entry_of 2 t (PML4E_ADDR_OF v) = t + 8 * 511"
  "entry_of 1 t (PML4E_ADDR_OF v) = t + 8 * 511" "entry_of 0 t (PML4E_ADDR_OF v) = t + 8 * 511"
  by (simp_all add: entry_of_def pt_index_PTE pt_index_PDE pt_index_PDPTE pt_index_PML4E del: One_nat_def)

text \<open>
  Through the last entry of the PML4, one level of the walk fewer is spent on real tables: the
  addresses of the macros reach the entries of \<open>v\<close>, and a write needs the entries above to
  allow it.
\<close>

lemma translate_entries:
  assumes "tables P T3 T2 T1 v (pt s)" "pml4_of s = P"
  shows "translate s (PML4E_ADDR_OF v) = Some (True, entry_of 3 P v)"
    "translate s (PDPTE_ADDR_OF v) = Some (bit (pt s (entry_of 3 P v)) 1, entry_of 2 T3 v)"
    "translate s (PDE_ADDR_OF v) =
      Some (bit (pt s (entry_of 3 P v)) 1 \<and> bit (pt s (entry_of 2 T3 v)) 1, entry_of 1 T2 v)"
    "translate s (PTE_ADDR_OF v) =
      Some (bit (pt s (entry_of 3 P v)) 1 \<and> bit (pt s (entry_of 2 T3 v)) 1 \<and> bit (pt s (entry_of 1 T2 v)) 1,
        entry_of 0 T1 v)"
  using assms frame_or_entry [of "pt s (P + 8 * 511)" 3 v] frame_or_entry [of "pt s (entry_of 3 P v)" 2 v]
    frame_or_entry [of "pt s (entry_of 2 T3 v)" 1 v] frame_or_entry [of "pt s (entry_of 1 T2 v)" 0 v]
  by (simp_all add: translate_def walk_levels entry_of_simps tables_def table_entry_def page_offsets
      del: One_nat_def walk.simps)

lemma entry_accesses:
  assumes "tables P T3 T2 T1 v (pt s)" "pml4_of s = P"
  shows "vread (PML4E_ADDR_OF v) s = Inr (pt s (entry_of 3 P v))"
    "vread (PDPTE_ADDR_OF v) s = Inr (pt s (entry_of 2 T3 v))"
    "vread (PDE_ADDR_OF v) s = Inr (pt s (entry_of 1 T2 v))"
    "vread (PTE_ADDR_OF v) s = Inr (pt s (entry_of 0 T1 v))"
    "vwrite (PML4E_ADDR_OF v) x s = Inr (s\<lparr>pt := (pt s)(entry_of 3 P v := x)\<rparr>)"
    "bit (pt s (entry_of 3 P v)) 1 \<or> \<not> cr0_wp s \<Longrightarrow>
      vwrite (PDPTE_ADDR_OF v) x s = Inr (s\<lparr>pt := (pt s)(entry_of 2 T3 v := x)\<rparr>)"
    "bit (pt s (entry_of 3 P v)) 1 \<and> bit (pt s (entry_of 2 T3 v)) 1 \<or> \<not> cr0_wp s \<Longrightarrow>
      vwrite (PDE_ADDR_OF v) x s = Inr (s\<lparr>pt := (pt s)(entry_of 1 T2 v := x)\<rparr>)"
    "bit (pt s (entry_of 3 P v)) 1 \<and> bit (pt s (entry_of 2 T3 v)) 1 \<and> bit (pt s (entry_of 1 T2 v)) 1 \<or> \<not> cr0_wp s \<Longrightarrow>
      vwrite (PTE_ADDR_OF v) x s = Inr (s\<lparr>pt := (pt s)(entry_of 0 T1 v := x)\<rparr>)"
  unfolding vread_def vwrite_def translate_entries [OF assms] by auto

section \<open>map_page and unmap_page\<close>

text \<open>The four entries of \<open>v\<close> and the one through which the PML4 maps itself are five words.\<close>

definition separate :: "addr \<Rightarrow> addr \<Rightarrow> addr \<Rightarrow> addr \<Rightarrow> addr \<Rightarrow> bool" where
  "separate P T3 T2 T1 v \<longleftrightarrow>
     distinct [P + 8 * 511, entry_of 3 P v, entry_of 2 T3 v, entry_of 1 T2 v, entry_of 0 T1 v]"

lemma tables_upd:
  assumes "separate P T3 T2 T1 v" "tables P T3 T2 T1 v f"
  shows "table_entry x T3 \<Longrightarrow> tables P T3 T2 T1 v (f(entry_of 3 P v := x))"
    "table_entry x T2 \<Longrightarrow> tables P T3 T2 T1 v (f(entry_of 2 T3 v := x))"
    "table_entry x T1 \<Longrightarrow> tables P T3 T2 T1 v (f(entry_of 1 T2 v := x))"
    "tables P T3 T2 T1 v (f(entry_of 0 T1 v := x))"
  using assms by (auto simp: tables_def separate_def)

lemma tablesD:
  assumes "tables P T3 T2 T1 v f"
  shows "table_entry (f (entry_of 3 P v)) T3" "table_entry (f (entry_of 2 T3 v)) T2"
    "table_entry (f (entry_of 1 T2 v)) T1"
  using assms by (simp_all add: tables_def)

lemma pml4_of_pt [simp]: "pml4_of (s\<lparr>pt := f\<rparr>) = pml4_of s"
  by (simp add: pml4_of_def)

text \<open>Flags that may be added to an entry without changing the frame it holds or its size.\<close>

definition plain_flags :: "u64 \<Rightarrow> bool" where
  "plain_flags flags \<longleftrightarrow> flags AND (frame_mask OR PAGING_FLAG_PAGE_SIZE) = 0"

lemma table_entry_or:
  assumes "table_entry e t" "plain_flags flags"
  shows "table_entry (e OR flags) t"
proof -
  have z: "\<not> (bit flags n \<and> (bit frame_mask n \<or> bit PAGING_FLAG_PAGE_SIZE n))" for n
  proof
    assume "bit flags n \<and> (bit frame_mask n \<or> bit PAGING_FLAG_PAGE_SIZE n)"
    then have "bit (flags AND (frame_mask OR PAGING_FLAG_PAGE_SIZE)) n" by (simp add: bit_simps)
    with assms(2) show False by (simp add: plain_flags_def)
  qed
  have "\<not> bit flags 7" using z [of 7] by (simp add: PAGING_FLAG_PAGE_SIZE_def bit_simps)
  moreover have "flags AND frame_mask = 0"
    by (rule bit_word_eqI) (use z in \<open>auto simp: bit_simps\<close>)
  then have "(e OR flags) AND frame_mask = e AND frame_mask"
    by (simp add: bit.conj_disj_distrib2)
  ultimately show ?thesis using assms(1) by (simp add: table_entry_def bit_simps)
qed

lemma plain_RW: "plain_flags PAGING_FLAG_READ_WRITE"
  by (simp add: plain_flags_def frame_mask_def flag_defs)

lemma bit_or_RW [simp]: "bit (e OR PAGING_FLAG_READ_WRITE) (Suc 0)" "bit (e OR PAGING_FLAG_READ_WRITE) 1"
  by (simp_all add: PAGING_FLAG_READ_WRITE_def bit_simps)

lemma write_pte_eq:
  assumes sep: "separate P T3 T2 T1 v" and t: "tables P T3 T2 T1 v (pt s)" and p: "pml4_of s = P"
  shows "write_pte v x s = Inr (s\<lparr>pt := (pt s)(entry_of 0 T1 v := x)\<rparr>)"
proof -
  let ?a4 = "entry_of 3 P v" and ?a3 = "entry_of 2 T3 v" and ?a2 = "entry_of (Suc 0) T2 v" and ?a1 = "entry_of 0 T1 v"
  let ?w = "\<lambda>e. e OR PAGING_FLAG_READ_WRITE"
  define f4 where "f4 = (pt s)(?a4 := ?w (pt s ?a4))"
  define f3 where "f3 = f4(?a3 := ?w (pt s ?a3))"
  define f2 where "f2 = f3(?a2 := ?w (pt s ?a2))"
  define f1 where "f1 = f2(?a1 := x)"
  define g2 where "g2 = f1(?a2 := pt s ?a2)"
  define g3 where "g3 = g2(?a3 := pt s ?a3)"
  have d: "?a4 \<noteq> ?a3" "?a4 \<noteq> ?a2" "?a4 \<noteq> ?a1" "?a3 \<noteq> ?a2" "?a3 \<noteq> ?a1" "?a2 \<noteq> ?a1"
    using sep by (auto simp: separate_def)
  note te = tablesD [OF t, unfolded One_nat_def] and up = tables_upd [OF sep, unfolded One_nat_def] and rw = table_entry_or [OF _ plain_RW]
  have t4: "tables P T3 T2 T1 v f4" unfolding f4_def by (intro up(1) rw te t)
  have t3: "tables P T3 T2 T1 v f3" unfolding f3_def by (intro up(2) rw te t4)
  have t2: "tables P T3 T2 T1 v f2" unfolding f2_def by (intro up(3) rw te t3)
  have t1: "tables P T3 T2 T1 v f1" unfolding f1_def by (intro up(4) t2)
  have u2: "tables P T3 T2 T1 v g2" unfolding g2_def by (intro up(3) te t1)
  have u3: "tables P T3 T2 T1 v g3" unfolding g3_def by (intro up(2) te u2)
  have acc: "tables P T3 T2 T1 v f \<Longrightarrow> pml4_of (s\<lparr>pt := f\<rparr>) = P" for f using p by simp
  note a = entry_accesses [of P T3 T2 T1 v "s\<lparr>pt := _\<rparr>", simplified, OF _ p]
  have e4: "f4 ?a4 = ?w (pt s ?a4)" "f4 ?a3 = pt s ?a3" "f4 ?a2 = pt s ?a2" using d by (auto simp: f4_def)
  have e3: "f3 ?a4 = ?w (pt s ?a4)" "f3 ?a3 = ?w (pt s ?a3)" "f3 ?a2 = pt s ?a2" using d e4 by (auto simp: f3_def)
  have e2: "f2 ?a4 = ?w (pt s ?a4)" "f2 ?a3 = ?w (pt s ?a3)" "f2 ?a2 = ?w (pt s ?a2)" using d e3 by (auto simp: f2_def)
  have e1: "f1 ?a4 = ?w (pt s ?a4)" "f1 ?a3 = ?w (pt s ?a3)" using d e2 by (auto simp: f1_def)
  have h2: "g2 ?a4 = ?w (pt s ?a4)" using d e1 by (auto simp: g2_def)
  have fin: "g3(?a4 := pt s ?a4) = (pt s)(?a1 := x)"
    using d by (auto simp: g3_def g2_def f1_def f2_def f3_def f4_def fun_eq_iff)
  note b = entry_accesses [OF t p, unfolded One_nat_def]
  show ?thesis
    unfolding write_pte_def vor_def
    by (simp add: b a t4 t3 t2 t1 u2 u3 e4 e3 e2 e1 h2 fin del: fun_upd_apply flip: f4_def f3_def f2_def f1_def g2_def g3_def)
qed

lemma present_iff: "e AND PAGING_FLAG_PRESENT \<noteq> 0 \<longleftrightarrow> bit e 0"
  by (simp add: bit_iff_and_push_bit_not_eq_0 PAGING_FLAG_PRESENT_def)

lemma map_structures_eq:
  assumes sep: "separate P T3 T2 T1 v" and t: "tables P T3 T2 T1 v (pt s)" and p: "pml4_of s = P"
  shows "map_pml4e v flags s = Inr (s\<lparr>pt := (pt s)(entry_of 3 P v := pt s (entry_of 3 P v) OR flags)\<rparr>)"
    "bit (pt s (entry_of 3 P v)) 1 \<or> \<not> cr0_wp s \<Longrightarrow> map_pdpte v flags s =
      Inr (s\<lparr>pt := (pt s)(entry_of 2 T3 v := pt s (entry_of 2 T3 v) OR flags)\<rparr>)"
    "bit (pt s (entry_of 3 P v)) 1 \<and> bit (pt s (entry_of 2 T3 v)) 1 \<or> \<not> cr0_wp s \<Longrightarrow> map_pde v flags s =
      Inr (s\<lparr>pt := (pt s)(entry_of 1 T2 v := pt s (entry_of 1 T2 v) OR flags)\<rparr>)"
  using tablesD [OF t, unfolded table_entry_def]
  by (simp_all add: map_pml4e_def map_pdpte_def map_pde_def vor_def present_iff
      entry_accesses [OF t p] del: One_nat_def)

lemma inter_processor_call_eq:
  "inter_processor_call s = (if held Ipcall_Mutex s then Inl Hang
     else Inr (s\<lparr>ip_call_count := if 1 < working_processors s then working_processors s - 1 else 0\<rparr>))"
proof (cases "held Ipcall_Mutex s")
  case True
  then show ?thesis by (simp add: inter_processor_call_def klock_eq)
next
  case False
  have "s\<lparr>ip_call_count := c, mutexes := mutexes s\<rparr> = s\<lparr>ip_call_count := c\<rparr>" for c by simp
  with False relock_state [OF False] show ?thesis
    by (simp add: inter_processor_call_def klock_eq kunlock_eq)
qed

text \<open>What a finished edit of a page leaves besides the paging structures.\<close>

definition shot_down :: "addr \<Rightarrow> kmem \<Rightarrow> kmem" where
  "shot_down v s = s\<lparr>invld_tlbs_addr := v, flushed := v # flushed s,
     ip_call_count := if 1 < working_processors s then working_processors s - 1 else 0\<rparr>"

lemma invalidate_tlbs_for_eq:
  "invalidate_tlbs_for v s = (if held Ipcall_Mutex s then Inl Hang else Inr (shot_down v s))"
  by (simp add: invalidate_tlbs_for_def inter_processor_call_eq shot_down_def)

lemma map_page_eq:
  fixes s :: kmem and P T3 T2 T1 v :: addr
  defines "a4 \<equiv> entry_of 3 P v" and "a3 \<equiv> entry_of 2 T3 v" and "a2 \<equiv> entry_of 1 T2 v" and "a1 \<equiv> entry_of 0 T1 v"
  assumes sep: "separate P T3 T2 T1 v" and t: "tables P T3 T2 T1 v (pt s)" and P: "pml4_of s = P"
    and fl: "plain_flags flags" and nh: "\<not> held Paging_Mutex s" "\<not> held Ipcall_Mutex s"
    and wp: "cr0_wp s \<Longrightarrow> bit (pt s a4 OR flags) 1 \<and> bit (pt s a3 OR flags) 1"
  shows "map_page v p flags s = Inr (shot_down v (s\<lparr>pt := (pt s)
    (a4 := pt s a4 OR flags, a3 := pt s a3 OR flags, a2 := pt s a2 OR flags, a1 := p OR PAGING_FLAG_PRESENT OR flags)\<rparr>))"
proof -
  define m where "m = (mutexes s)(Paging_Mutex := (mutexes s Paging_Mutex)\<lparr>locked := True\<rparr>)"
  define f4 where "f4 = (pt s)(a4 := pt s a4 OR flags)"
  define f3 where "f3 = f4(a3 := pt s a3 OR flags)"
  define f2 where "f2 = f3(a2 := pt s a2 OR flags)"
  define st where "st = (\<lambda>f. s\<lparr>mutexes := m, pt := f\<rparr>)"
  have d: "a4 \<noteq> a3" "a4 \<noteq> a2" "a3 \<noteq> a2"
    using sep by (auto simp: separate_def a4_def a3_def a2_def)
  note te = tablesD [OF t] and up = tables_upd [OF sep] and fe = table_entry_or [OF _ fl]
  have t4: "tables P T3 T2 T1 v f4" unfolding f4_def a4_def by (intro up(1) fe te t)
  have t3: "tables P T3 T2 T1 v f3" unfolding f3_def a3_def by (intro up(2) fe te t4)
  have t2: "tables P T3 T2 T1 v f2" unfolding f2_def a2_def by (intro up(3) fe te t3)
  have st: "pt (st f) = f" "pml4_of (st f) = P" "cr0_wp (st f) = cr0_wp s" "(st f)\<lparr>pt := g\<rparr> = st g" for f g
    using P by (simp_all add: st_def pml4_of_def)
  have ms: "tables P T3 T2 T1 v f \<Longrightarrow> map_pml4e v flags (st f) = Inr (st (f(a4 := f a4 OR flags)))"
    "tables P T3 T2 T1 v f \<Longrightarrow> bit (f a4) 1 \<or> \<not> cr0_wp s \<Longrightarrow>
      map_pdpte v flags (st f) = Inr (st (f(a3 := f a3 OR flags)))"
    "tables P T3 T2 T1 v f \<Longrightarrow> bit (f a4) 1 \<and> bit (f a3) 1 \<or> \<not> cr0_wp s \<Longrightarrow>
      map_pde v flags (st f) = Inr (st (f(a2 := f a2 OR flags)))"
    "tables P T3 T2 T1 v f \<Longrightarrow> write_pte v x (st f) = Inr (st (f(a1 := x)))" for f x
    using map_structures_eq [OF sep, of "st f" flags] write_pte_eq [OF sep, of "st f" x]
    by (simp_all add: st a4_def a3_def a2_def a1_def)
  have m4: "map_pml4e v flags (st (pt s)) = Inr (st f4)" using ms(1) [OF t] by (simp add: f4_def)
  have m3: "map_pdpte v flags (st f4) = Inr (st f3)" using ms(2) [OF t4] wp d by (auto simp: f4_def f3_def)
  have m2: "map_pde v flags (st f3) = Inr (st f2)" using ms(3) [OF t3] wp d by (auto simp: f4_def f3_def f2_def)
  have m1: "write_pte v x (st f2) = Inr (st (f2(a1 := x)))" for x by (rule ms(4) [OF t2])
  have nh2: "\<not> held Ipcall_Mutex (st f)" for f using nh(2) by (simp add: st_def m_def)
  have "klock Paging_Mutex s = Inr (st (pt s))" using nh(1) by (simp add: klock_eq st_def m_def)
  moreover have "kunlock Paging_Mutex (shot_down v (st f)) = Inr (shot_down v (s\<lparr>pt := f\<rparr>))" for f
    using relock_state [OF nh(1)] by (simp add: kunlock_eq shot_down_def st_def m_def)
  ultimately show ?thesis
    unfolding f4_def [symmetric] f3_def [symmetric] f2_def [symmetric]
    by (simp add: map_page_def m4 m3 m2 m1 invalidate_tlbs_for_eq nh2 del: fun_upd_apply)
qed

lemma translate_mapped:
  assumes "tables P T3 T2 T1 v (pt s)" "pml4_of s = P"
  shows "translate s v = (let e = pt s (entry_of 0 T1 v) in if \<not> bit e 0 then None
    else Some (bit (pt s (entry_of 3 P v)) 1 \<and> bit (pt s (entry_of 2 T3 v)) 1 \<and> bit (pt s (entry_of 1 T2 v)) 1 \<and> bit e 1,
      (e AND frame_mask) OR (v AND mask 12)))"
  using assms by (simp add: translate_def walk_levels tables_def table_entry_def Let_def del: One_nat_def walk.simps)

lemma unmap_page_eq:
  assumes sep: "separate P T3 T2 T1 v" and t: "tables P T3 T2 T1 v (pt s)" and P: "pml4_of s = P"
    and nh: "\<not> held Paging_Mutex s" "\<not> held Ipcall_Mutex s"
  shows "unmap_page v s = Inr (shot_down v (s\<lparr>pt := (pt s)(entry_of 0 T1 v := 0)\<rparr>))"
proof -
  define m where "m = (mutexes s)(Paging_Mutex := (mutexes s Paging_Mutex)\<lparr>locked := True\<rparr>)"
  define st where "st = (\<lambda>f. s\<lparr>mutexes := m, pt := f\<rparr>)"
  have st: "pt (st f) = f" "pml4_of (st f) = P" "(st f)\<lparr>pt := g\<rparr> = st g" for f g
    using P by (simp_all add: st_def pml4_of_def)
  have w: "write_pte v 0 (st (pt s)) = Inr (st ((pt s)(entry_of 0 T1 v := 0)))"
    using write_pte_eq [OF sep, of "st (pt s)" 0] t by (simp add: st)
  have nh2: "\<not> held Ipcall_Mutex (st f)" for f using nh(2) by (simp add: st_def m_def)
  have "klock Paging_Mutex s = Inr (st (pt s))" using nh(1) by (simp add: klock_eq st_def m_def)
  moreover have "kunlock Paging_Mutex (shot_down v (st f)) = Inr (shot_down v (s\<lparr>pt := f\<rparr>))" for f
    using relock_state [OF nh(1)] by (simp add: kunlock_eq shot_down_def st_def m_def)
  ultimately show ?thesis
    by (simp add: unmap_page_def w invalidate_tlbs_for_eq nh2 del: fun_upd_apply)
qed

lemma shot_down_simps [simp]:
  "pt (shot_down v s) = pt s" "cr3 (shot_down v s) = cr3 s" "cr0_wp (shot_down v s) = cr0_wp s"
  "mutexes (shot_down v s) = mutexes s" "flushed (shot_down v s) = v # flushed s"
  "pml4_of (shot_down v s) = pml4_of s"
  by (simp_all add: shot_down_def pml4_of_def)

lemma frame_of_pte:
  assumes "plain_flags flags" "p AND frame_mask = p"
  shows "(p OR PAGING_FLAG_PRESENT OR flags) AND frame_mask = p" "bit (p OR PAGING_FLAG_PRESENT OR flags) 0"
proof -
  have "flags AND frame_mask = 0"
  proof (rule bit_word_eqI)
    fix n assume "n < LENGTH(64)"
    have "\<not> bit (flags AND (frame_mask OR PAGING_FLAG_PAGE_SIZE)) n" using assms(1) by (simp add: plain_flags_def)
    then show "bit (flags AND frame_mask) n \<longleftrightarrow> bit (0 :: u64) n" by (auto simp: bit_simps)
  qed
  moreover have "PAGING_FLAG_PRESENT AND frame_mask = 0" by (simp add: flag_defs frame_mask_def)
  ultimately show "(p OR PAGING_FLAG_PRESENT OR flags) AND frame_mask = p"
    using assms(2) by (simp add: bit.conj_disj_distrib2)
  show "bit (p OR PAGING_FLAG_PRESENT OR flags) 0" by (simp add: flag_defs bit_simps)
qed

section \<open>What mapping promises\<close>

text \<open>C26. The address macros are right: when the PML4 maps itself at its last entry and the tables of an
  address are present, \<open>PML4E_ADDR_OF\<close> to \<open>PTE_ADDR_OF\<close> are virtual addresses of exactly the four
  entries of that address.\<close>

theorem recursive_mapping:
  assumes "tables P T3 T2 T1 v (pt s)" "pml4_of s = P"
  shows "map_option snd (translate s (PML4E_ADDR_OF v)) = Some (P + 8 * pt_index 3 v) \<and>
    map_option snd (translate s (PDPTE_ADDR_OF v)) = Some (T3 + 8 * pt_index 2 v) \<and>
    map_option snd (translate s (PDE_ADDR_OF v)) = Some (T2 + 8 * pt_index 1 v) \<and>
    map_option snd (translate s (PTE_ADDR_OF v)) = Some (T1 + 8 * pt_index 0 v)"
  by (simp add: translate_entries [OF assms] entry_of_def)

text \<open>C24. \<open>unmap_page\<close> unmaps: with the tables of the address present it returns, the address no longer
  translates, no other entry has changed, the TLBs are told and every mutex is as before.\<close>

theorem unmap_page_unmaps:
  assumes sep: "separate P T3 T2 T1 v" and t: "tables P T3 T2 T1 v (pt s)" and P: "pml4_of s = P"
    and nh: "\<not> held Paging_Mutex s" "\<not> held Ipcall_Mutex s"
  shows "\<exists>s'. unmap_page v s = Inr s' \<and> translate s' v = None \<and>
    pt s' = (pt s)(entry_of 0 T1 v := 0) \<and> flushed s' = v # flushed s \<and> mutexes s' = mutexes s"
proof -
  define s' where "s' = shot_down v (s\<lparr>pt := (pt s)(entry_of 0 T1 v := 0)\<rparr>)"
  have "unmap_page v s = Inr s'" unfolding s'_def by (rule unmap_page_eq [OF assms])
  moreover have "tables P T3 T2 T1 v (pt s')"
    by (simp add: s'_def del: fun_upd_apply) (rule tables_upd(4) [OF sep t])
  then have "translate s' v = None" using P by (subst translate_mapped) (auto simp: s'_def)
  ultimately show ?thesis by (simp add: s'_def)
qed

text \<open>The entries a walk looks at.\<close>

fun walk_path :: "(addr \<Rightarrow> u64) \<Rightarrow> nat \<Rightarrow> addr \<Rightarrow> addr \<Rightarrow> addr list" where
  "walk_path f 0 t v = [entry_of 0 t v]"
| "walk_path f (Suc l) t v = entry_of (Suc l) t v #
     (let e = f (entry_of (Suc l) t v) in if bit e 0 \<and> \<not> bit e 7 then walk_path f l (e AND frame_mask) v else [])"

definition same_target :: "u64 \<Rightarrow> u64 \<Rightarrow> bool" where
  "same_target e e' \<longleftrightarrow> e AND frame_mask = e' AND frame_mask \<and> bit e 0 = bit e' 0 \<and> bit e 7 = bit e' 7"

lemma walk_same_targets:
  assumes "\<forall>x \<in> set (walk_path f l t v). same_target (f x) (g x)"
  shows "map_option snd (walk f l t v) = map_option snd (walk g l t v)"
  using assms
proof (induction l arbitrary: t)
  case 0
  then show ?case by (auto simp: Let_def same_target_def entry_of_def)
next
  case (Suc l)
  let ?e = "f (entry_of (Suc l) t v)" and ?e' = "g (entry_of (Suc l) t v)"
  from Suc.prems have e: "same_target ?e ?e'" by simp
  have snd_map: "map_option snd (map_option (\<lambda>(w, p). (c \<and> w, p)) r) = map_option snd r" for c r
    by (cases r) auto
  show ?case
  proof (cases "bit ?e 0 \<and> \<not> bit ?e 7")
    case True
    with Suc.prems Suc.IH [of "?e AND frame_mask"]
    have "map_option snd (walk f l (?e AND frame_mask) v) = map_option snd (walk g l (?e AND frame_mask) v)"
      by (simp add: Let_def)
    with e True show ?thesis by (simp add: same_target_def Let_def snd_map flip: entry_of_def)
  next
    case False
    with e show ?thesis by (auto simp: same_target_def Let_def simp flip: entry_of_def and.assoc)
  qed
qed

section \<open>What paging leaves alone\<close>

text \<open>Only the paging structures, the physical map and the TLB bookkeeping differ.\<close>

definition paging_only :: "kmem \<Rightarrow> kmem \<Rightarrow> bool" where
  "paging_only s s' \<longleftrightarrow> s' = s\<lparr>pt := pt s', phys_mmap := phys_mmap s', invld_tlbs_addr := invld_tlbs_addr s',
     flushed := flushed s', ip_call_count := ip_call_count s'\<rparr>"

text \<open>\<open>keeps s r\<close>: when the call \<open>r\<close> returns, it has kept the rest of \<open>s\<close>.\<close>

definition keeps :: "kmem \<Rightarrow> kmem res \<Rightarrow> bool" where
  "keeps s r \<longleftrightarrow> (\<forall>s'. r = Inr s' \<longrightarrow> paging_only s s')"

named_theorems paging_frame \<open>steps of the paging code that keep the rest of the state\<close>

lemma paging_only_trans: "paging_only s t \<Longrightarrow> paging_only t r \<Longrightarrow> paging_only s r"
  unfolding paging_only_def by (cases s; cases t; cases r) simp

lemma keeps_bind [paging_frame]: "keeps s r \<Longrightarrow> (\<And>t. keeps t (f t)) \<Longrightarrow> keeps s (bindR r f)"
  unfolding keeps_def by (auto intro: paging_only_trans)

lemma keeps_vread [paging_frame]: "(\<And>x. keeps s (f x)) \<Longrightarrow> keeps s (bindR (vread v t) f)"
  by (auto simp: keeps_def)

lemma keeps_Inr [paging_frame]: "keeps s (Inr s)"
  by (simp add: keeps_def paging_only_def)

lemma keeps_Inl [paging_frame]: "keeps s (Inl e)"
  by (simp add: keeps_def)

lemma keeps_if [paging_frame]: "keeps s r \<Longrightarrow> keeps s r' \<Longrightarrow> keeps s (if c then r else r')"
  by simp

lemma keeps_alloc [paging_frame]:
  assumes "\<And>a t. keeps t (f a t)"
  shows "keeps s (bindR (alloc_phys_pages n s) (\<lambda>(a, t). f a t))"
proof -
  have "paging_only s t" if "alloc_phys_pages n s = Inr (a, t)" for a t
    using that by (auto simp: alloc_phys_pages_eq paging_only_def split: if_splits prod.splits)
  with assms show ?thesis by (auto simp: keeps_def intro: paging_only_trans)
qed

lemma keeps_vwrite [paging_frame]: "keeps s (vwrite v x s)"
  by (auto simp: keeps_def vwrite_def paging_only_def split: option.splits if_splits)

lemma keeps_vor [paging_frame]: "keeps s (vor v x s)"
  unfolding vor_def by (intro paging_frame)

lemma keeps_zero [paging_frame]: "keeps s (zero_entries f i s)"
proof (induction "512 - i" arbitrary: i s)
  case 0
  then show ?case by (subst zero_entries.simps) (simp add: keeps_Inr)
next
  case (Suc n)
  then have "keeps t (zero_entries f (Suc i) t)" for t by simp
  then show ?case by (subst zero_entries.simps) (intro paging_frame)
qed

lemma keeps_invalidate [paging_frame]: "keeps s (invalidate_tlbs_for v s)"
  by (auto simp: keeps_def invalidate_tlbs_for_eq shot_down_def paging_only_def split: if_splits)

lemma keeps_write_pte [paging_frame]: "keeps s (write_pte v x s)"
  unfolding write_pte_def by (intro paging_frame)

lemma keeps_structures [paging_frame]:
  "keeps s (map_pml4e v flags s)" "keeps s (map_pdpte v flags s)" "keeps s (map_pde v flags s)"
  unfolding map_pml4e_def map_pdpte_def map_pde_def by (intro paging_frame)+

text \<open>A call under a mutex keeps the mutexes as well.\<close>

lemma keeps_locked:
  assumes "\<And>t. keeps t (f t)"
  shows "keeps s (bindR (klock i s) (\<lambda>t. bindR (f t) (kunlock i)))"
  unfolding keeps_def
proof (intro allI impI)
  fix s' assume "bindR (klock i s) (\<lambda>t. bindR (f t) (kunlock i)) = Inr s'"
  then obtain t t' where c: "klock i s = Inr t" "f t = Inr t'" "kunlock i t' = Inr s'" by auto
  from c(1) have nh: "\<not> held i s" and t: "t = s\<lparr>mutexes := (mutexes s)(i := (mutexes s i)\<lparr>locked := True\<rparr>)\<rparr>"
    by (auto simp: klock_eq split: if_splits)
  have po: "paging_only t t'" using assms c(2) by (simp add: keeps_def)
  have "mutexes t' = mutexes t" by (subst po [unfolded paging_only_def]) simp
  then have "s' = t'\<lparr>mutexes := mutexes s\<rparr>"
    using c(3) relock_state [OF nh] by (simp add: kunlock_eq t)
  with po show "paging_only s s'" unfolding paging_only_def t by (cases s; cases t') simp
qed

lemma keeps_map_page [paging_frame]: "keeps s (map_page v p flags s)"
proof -
  let ?f = "\<lambda>s. bindR (map_pml4e v flags s) (\<lambda>s. bindR (map_pdpte v flags s) (\<lambda>s.
     bindR (map_pde v flags s) (\<lambda>s. bindR (write_pte v (p OR PAGING_FLAG_PRESENT OR flags) s) (invalidate_tlbs_for v))))"
  have "keeps s (bindR (klock Paging_Mutex s) (\<lambda>s. bindR (?f s) (kunlock Paging_Mutex)))"
    by (intro keeps_locked paging_frame)
  then show ?thesis by (simp add: map_page_def bindR_assoc)
qed

lemma keeps_unmap_page [paging_frame]: "keeps s (unmap_page v s)"
proof -
  have "keeps s (bindR (klock Paging_Mutex s) (\<lambda>s. bindR (bindR (write_pte v 0 s) (invalidate_tlbs_for v)) (kunlock Paging_Mutex)))"
    by (intro keeps_locked paging_frame)
  then show ?thesis by (simp add: unmap_page_def bindR_assoc)
qed

lemma keeps_map_pages [paging_frame]: "keeps s (map_pages v p flags n s)"
proof (induction n arbitrary: v p s)
  case (Suc n)
  then show ?case by simp (intro paging_frame)
qed (simp add: keeps_Inr)

section \<open>Concrete tables\<close>

text \<open>One page table for the kernel's linear addresses, the PML4 at 0x1000 mapping itself.\<close>

definition demo_paging :: kmem where
  "demo_paging = \<lparr>mutexes = (\<lambda>_. \<lparr>locked = False\<rparr>),
     phys_mmap = \<lparr>memory_ranges = [], range_count = 0, max_range_count = 0\<rparr>, phys_ranges = 0, phys_mmap_max_size = 0,
     virt_mmap = \<lparr>memory_ranges = [], range_count = 0, max_range_count = 0\<rparr>, virt_ranges = 0,
     pt = (\<lambda>_. 0)(0x1FF8 := 0x1003, 0x1FF0 := 0x2003, 0x2200 := 0x3003, 0x3000 := 0x4003, 0x4008 := 0x7001),
     cr3 = 0x1000, cr0_wp = True, invld_tlbs_addr = 0, flushed = [], working_processors = 1, ip_call_count = 0,
     kernel_heap_start = 0, kernel_heap_end = 0, first_heap_entry = 0, last_heap_entry = 0,
     headers = (\<lambda>_. \<lparr>he_size = 0, he_used = False, he_last = 0, he_next = 0\<rparr>), bytes = (\<lambda>_. 0)\<rparr>"

lemma mask9: "mask 9 = (511 :: u64)"
  by (simp add: mask_eq_exp_minus_1)

lemma demo_paging_facts:
  "separate 0x1000 0x2000 0x3000 0x4000 0xFFFFFF1000000000"
  "tables 0x1000 0x2000 0x3000 0x4000 0xFFFFFF1000000000 (pt demo_paging)"
  "pml4_of demo_paging = 0x1000" "plain_flags 2" "\<not> held i demo_paging"
  by (simp_all add: separate_def tables_def table_entry_def entry_of_def pt_index_def mask9 demo_paging_def
      pml4_of_def plain_flags_def frame_mask_def flag_defs)

lemma bit_or_flag_2: "bit (e OR 2 :: u64) (Suc 0)"
  by (simp add: bit_simps)

lemma walk_path_levels:
  "walk_path f 3 t v = entry_of 3 t v #
     (let e = f (entry_of 3 t v) in if bit e 0 \<and> \<not> bit e 7 then walk_path f 2 (e AND frame_mask) v else [])"
  "walk_path f 2 t v = entry_of 2 t v #
     (let e = f (entry_of 2 t v) in if bit e 0 \<and> \<not> bit e 7 then walk_path f 1 (e AND frame_mask) v else [])"
  "walk_path f 1 t v = entry_of 1 t v #
     (let e = f (entry_of 1 t v) in if bit e 0 \<and> \<not> bit e 7 then walk_path f 0 (e AND frame_mask) v else [])"
  by (simp_all add: eval_nat_numeral Let_def)

lemma demo_entries:
  "entry_of 3 0x1000 0xFFFFFF1000001000 = 0x1FF0" "entry_of 2 0x2000 0xFFFFFF1000001000 = 0x2200"
  "entry_of 1 0x3000 0xFFFFFF1000001000 = 0x3000" "entry_of 0 0x4000 0xFFFFFF1000001000 = 0x4008"
  "entry_of 0 0x4000 0xFFFFFF1000000000 = 0x4000"
  "pt demo_paging 0x1FF0 = 0x2003" "pt demo_paging 0x2200 = 0x3003" "pt demo_paging 0x3000 = 0x4003"
  "pt demo_paging 0x4008 = 0x7001"
  by (simp_all add: entry_of_def pt_index_def mask9 demo_paging_def)

lemma demo_next_page:
  "entry_of 0 0x4000 0xFFFFFF1000000000 \<notin> set (walk_path (pt demo_paging) 3 0x1000 0xFFFFFF1000001000)"
  "translate demo_paging 0xFFFFFF1000001000 = Some (False, 0x7000)"
  by (simp_all add: walk_path_levels walk_levels translate_def demo_paging_facts(3) demo_entries frame_mask_def
      Let_def mask_eq_exp_minus_1 del: walk.simps One_nat_def) simp

theorem recursive_mapping_witness:
  "map_option snd (translate demo_paging (PTE_ADDR_OF 0xFFFFFF1000000000)) = Some 0x4000"
  using recursive_mapping [OF demo_paging_facts(2, 3)] by (simp add: pt_index_def mask9)

theorem unmap_page_unmaps_witness:
  "\<exists>s'. unmap_page 0xFFFFFF1000000000 demo_paging = Inr s' \<and> translate s' 0xFFFFFF1000000000 = None"
  using unmap_page_unmaps [OF demo_paging_facts(1, 2, 3) demo_paging_facts(5) demo_paging_facts(5)] by blast

end
