(* ===== verification/LibcString.thy ===== *)
theory LibcString
  imports CMem
begin

text \<open>
  \<^verbatim>\<open>src/libc/string.c\<close> over the flat memory of \<^verbatim>\<open>CMem\<close>: every function of the file, with the
  loops the code has. A loop bounded by a count is total; a loop that runs until it meets a
  NUL byte returns an \<open>option\<close>, \<open>None\<close> when it never stops. Functions that write return the
  memory they leave (and the pointer, where the C function returns one). The C type \<^verbatim>\<open>char\<close>
  is signed on the kernel's target; the \<^verbatim>\<open>int\<close> index variables of \<open>memcmp\<close> are naturals,
  which is what they are for counts below \<open>2 ^ 31\<close>.
\<close>

section \<open>Strings ended by NUL\<close>

partial_function (option) strlen_from :: "mem \<Rightarrow> addr \<Rightarrow> u64 \<Rightarrow> u64 option" where
  "strlen_from m str len = (if m (str + len) \<noteq> 0 then strlen_from m str (len + 1) else Some len)"

definition strlen :: "mem \<Rightarrow> addr \<Rightarrow> u64 option" where
  "strlen m str = strlen_from m str 0"

partial_function (option) strcpy_from :: "mem \<Rightarrow> addr \<Rightarrow> addr \<Rightarrow> u64 \<Rightarrow> mem option" where
  "strcpy_from m dest src i =
     (if m (src + i) \<noteq> 0 then strcpy_from (m(dest + i := m (src + i))) dest src (i + 1)
      else Some (m(dest + i := 0)))"

definition strcpy :: "mem \<Rightarrow> addr \<Rightarrow> addr \<Rightarrow> (addr \<times> mem) option" where
  "strcpy m dest src = map_option (\<lambda>m'. (dest, m')) (strcpy_from m dest src 0)"

text \<open>The copying loop of \<open>strncpy\<close>: the memory and the index it stops at.\<close>

function strncpy_copy :: "mem \<Rightarrow> addr \<Rightarrow> addr \<Rightarrow> nat \<Rightarrow> nat \<Rightarrow> mem \<times> nat" where
  "strncpy_copy m dest src i count =
     (if i < count
      then let m' = m(dest + of_nat i := m (src + of_nat i))
           in if m' (src + of_nat i) = 0 then (m', i) else strncpy_copy m' dest src (Suc i) count
      else (m, i))"
  by pat_completeness auto
termination by (relation "measure (\<lambda>(_, _, _, i, count). count - i)") auto

function strncpy_fill :: "mem \<Rightarrow> addr \<Rightarrow> nat \<Rightarrow> nat \<Rightarrow> mem" where
  "strncpy_fill m dest i count =
     (if i < count then strncpy_fill (m(dest + of_nat i := 0)) dest (Suc i) count else m)"
  by pat_completeness auto
termination by (relation "measure (\<lambda>(_, _, i, count). count - i)") auto

definition strncpy :: "mem \<Rightarrow> addr \<Rightarrow> addr \<Rightarrow> u64 \<Rightarrow> addr \<times> mem" where
  "strncpy m dest src count =
     (case strncpy_copy m dest src 0 (unat count) of
        (m', i) \<Rightarrow> (dest, strncpy_fill m' dest i (unat count)))"

partial_function (option) strcat_seek :: "mem \<Rightarrow> addr \<Rightarrow> addr option" where
  "strcat_seek m dest = (if m dest \<noteq> 0 then strcat_seek m (dest + 1) else Some dest)"

definition strcat :: "mem \<Rightarrow> addr \<Rightarrow> addr \<Rightarrow> (addr \<times> mem) option" where
  "strcat m dest src =
     (case strcat_seek m dest of
        None \<Rightarrow> None
      | Some dest' \<Rightarrow> map_option (\<lambda>m'. (dest, m')) (strcpy_from m dest' src 0))"

partial_function (option) strcmp_from :: "mem \<Rightarrow> addr \<Rightarrow> addr \<Rightarrow> u64 \<Rightarrow> int option" where
  "strcmp_from m lhs rhs i =
     (if m (lhs + i) = m (rhs + i)
      then if m (lhs + i) = 0 then Some 0 else strcmp_from m lhs rhs (i + 1)
      else Some (sint (m (lhs + i)) - sint (m (rhs + i))))"

definition strcmp :: "mem \<Rightarrow> addr \<Rightarrow> addr \<Rightarrow> int option" where
  "strcmp m lhs rhs = strcmp_from m lhs rhs 0"

function strncmp_from :: "mem \<Rightarrow> addr \<Rightarrow> addr \<Rightarrow> nat \<Rightarrow> nat \<Rightarrow> int" where
  "strncmp_from m lhs rhs i count =
     (if i < count
      then if m (lhs + of_nat i) \<noteq> m (rhs + of_nat i)
           then sint (m (lhs + of_nat i)) - sint (m (rhs + of_nat i))
           else if m (lhs + of_nat i) = 0 then 0 else strncmp_from m lhs rhs (Suc i) count
      else 0)"
  by pat_completeness auto
termination by (relation "measure (\<lambda>(_, _, _, i, count). count - i)") auto

definition strncmp :: "mem \<Rightarrow> addr \<Rightarrow> addr \<Rightarrow> u64 \<Rightarrow> int" where
  "strncmp m lhs rhs count = strncmp_from m lhs rhs 0 (unat count)"

text \<open>
  \<open>char_matches c ch\<close> is the comparison \<^verbatim>\<open>(unsigned char)*str == (char)ch\<close>: the left side is
  promoted from an unsigned, the right side from a signed character.
\<close>

definition char_matches :: "u8 \<Rightarrow> u32 \<Rightarrow> bool" where
  "char_matches c ch \<longleftrightarrow> uint c = sint (ucast ch :: u8)"

partial_function (option) strchr :: "mem \<Rightarrow> addr \<Rightarrow> u32 \<Rightarrow> addr option" where
  "strchr m str ch =
     (if m str \<noteq> 0
      then if char_matches (m str) ch then Some str else strchr m str ch
      else if (ucast ch :: u8) \<noteq> 0 then Some 0 else Some str)"

partial_function (option) strrchr_from :: "mem \<Rightarrow> addr \<Rightarrow> u32 \<Rightarrow> addr \<Rightarrow> addr option" where
  "strrchr_from m str ch ret =
     (if m str \<noteq> 0
      then strrchr_from m (str + 1) ch (if char_matches (m str) ch then str else ret)
      else if (ucast ch :: u8) = 0 \<and> m str = 0 then Some str else Some ret)"

definition strrchr :: "mem \<Rightarrow> addr \<Rightarrow> u32 \<Rightarrow> addr option" where
  "strrchr m str ch = strrchr_from m str ch 0"

text \<open>The inner loop of \<open>strstr\<close>: the index it stops at and the flag \<^verbatim>\<open>match\<close>.\<close>

function strstr_match :: "mem \<Rightarrow> addr \<Rightarrow> addr \<Rightarrow> nat \<Rightarrow> nat \<Rightarrow> nat \<times> bool" where
  "strstr_match m str substr len i =
     (if i < len
      then if m (str + of_nat i) \<noteq> m (substr + of_nat i) then (i, False)
           else strstr_match m str substr len (Suc i)
      else (i, True))"
  by pat_completeness auto
termination by (relation "measure (\<lambda>(_, _, _, len, i). len - i)") auto

partial_function (option) strstr_from :: "mem \<Rightarrow> addr \<Rightarrow> addr \<Rightarrow> nat \<Rightarrow> addr option" where
  "strstr_from m str substr len =
     (if m str \<noteq> 0
      then if m str = m substr
           then case strstr_match m str substr len 1 of
                  (i, matched) \<Rightarrow> if matched then Some str else strstr_from m (str + of_nat i) substr len
           else strstr_from m (str + 1) substr len
      else Some 0)"

definition strstr :: "mem \<Rightarrow> addr \<Rightarrow> addr \<Rightarrow> addr option" where
  "strstr m str substr =
     (case strlen m substr of
        None \<Rightarrow> None
      | Some len \<Rightarrow> if len = 0 then Some str else strstr_from m str substr (unat len))"

section \<open>Blocks of bytes\<close>

function memchr_from :: "mem \<Rightarrow> addr \<Rightarrow> u32 \<Rightarrow> nat \<Rightarrow> nat \<Rightarrow> addr" where
  "memchr_from m ptr ch i count =
     (if i < count
      then if m (ptr + of_nat i) = ucast ch then ptr + of_nat i else memchr_from m ptr ch (Suc i) count
      else 0)"
  by pat_completeness auto
termination by (relation "measure (\<lambda>(_, _, _, i, count). count - i)") auto

definition memchr :: "mem \<Rightarrow> addr \<Rightarrow> u32 \<Rightarrow> u64 \<Rightarrow> addr" where
  "memchr m ptr ch count = memchr_from m ptr ch 0 (unat count)"

function memcmp_qwords :: "mem \<Rightarrow> addr \<Rightarrow> addr \<Rightarrow> nat \<Rightarrow> nat \<Rightarrow> nat" where
  "memcmp_qwords m lhs rhs i qcount =
     (if i < qcount
      then if load64 m (lhs + of_nat (8 * i)) \<noteq> load64 m (rhs + of_nat (8 * i)) then i
           else memcmp_qwords m lhs rhs (Suc i) qcount
      else i)"
  by pat_completeness auto
termination by (relation "measure (\<lambda>(_, _, _, i, qcount). qcount - i)") auto

function memcmp_bytes :: "mem \<Rightarrow> addr \<Rightarrow> addr \<Rightarrow> nat \<Rightarrow> nat \<Rightarrow> int" where
  "memcmp_bytes m lhs rhs i count =
     (if i < count
      then let diff = uint (m (lhs + of_nat i)) - uint (m (rhs + of_nat i))
           in if diff \<noteq> 0 then diff else memcmp_bytes m lhs rhs (Suc i) count
      else 0)"
  by pat_completeness auto
termination by (relation "measure (\<lambda>(_, _, _, i, count). count - i)") auto

definition memcmp :: "mem \<Rightarrow> addr \<Rightarrow> addr \<Rightarrow> u64 \<Rightarrow> int" where
  "memcmp m lhs rhs count =
     memcmp_bytes m lhs rhs (8 * memcmp_qwords m lhs rhs 0 (unat (drop_bit 3 count))) (unat count)"

primrec set_bytes_down :: "mem \<Rightarrow> addr \<Rightarrow> u8 \<Rightarrow> nat \<Rightarrow> nat \<Rightarrow> mem" where
  "set_bytes_down m dest v base 0 = m"
| "set_bytes_down m dest v base (Suc b) = set_bytes_down (m(dest + of_nat (base + b) := v)) dest v base b"

primrec set_qwords_down :: "mem \<Rightarrow> addr \<Rightarrow> u64 \<Rightarrow> nat \<Rightarrow> mem" where
  "set_qwords_down m dest v 0 = m"
| "set_qwords_down m dest v (Suc q) = set_qwords_down (store64 m (dest + of_nat (8 * q)) v) dest v q"

definition big_val :: "u32 \<Rightarrow> u64" where
  "big_val ch = (let v = ucast (ucast ch :: u8);
                     v = push_bit 8 v OR v;
                     v = push_bit 16 v OR v
                 in push_bit 32 v OR v)"

definition memset :: "mem \<Rightarrow> addr \<Rightarrow> u32 \<Rightarrow> u64 \<Rightarrow> addr \<times> mem" where
  "memset m dest ch count =
     (let qword_count = unat (drop_bit 3 count);
          byte_count = unat (count AND 7);
          m' = set_bytes_down m dest (ucast ch) (qword_count * 8) byte_count
      in (dest, set_qwords_down m' dest (big_val ch) qword_count))"

primrec copy_bytes_down :: "mem \<Rightarrow> addr \<Rightarrow> addr \<Rightarrow> nat \<Rightarrow> nat \<Rightarrow> mem" where
  "copy_bytes_down m dest src base 0 = m"
| "copy_bytes_down m dest src base (Suc b) =
     copy_bytes_down (m(dest + of_nat (base + b) := m (src + of_nat (base + b)))) dest src base b"

primrec copy_qwords_down :: "mem \<Rightarrow> addr \<Rightarrow> addr \<Rightarrow> nat \<Rightarrow> mem" where
  "copy_qwords_down m dest src 0 = m"
| "copy_qwords_down m dest src (Suc q) =
     copy_qwords_down (store64 m (dest + of_nat (8 * q)) (load64 m (src + of_nat (8 * q)))) dest src q"

definition memcpy :: "mem \<Rightarrow> addr \<Rightarrow> addr \<Rightarrow> u64 \<Rightarrow> addr \<times> mem" where
  "memcpy m dest src count =
     (let qword_count = unat (drop_bit 3 count);
          byte_count = unat (count AND 7);
          m' = copy_bytes_down m dest src (qword_count * 8) byte_count
      in (dest, copy_qwords_down m' dest src qword_count))"

function copy_qwords_up :: "mem \<Rightarrow> addr \<Rightarrow> addr \<Rightarrow> nat \<Rightarrow> nat \<Rightarrow> mem" where
  "copy_qwords_up m dest src i q =
     (if i < q
      then copy_qwords_up (store64 m (dest + of_nat (8 * i)) (load64 m (src + of_nat (8 * i)))) dest src (Suc i) q
      else m)"
  by pat_completeness auto
termination by (relation "measure (\<lambda>(_, _, _, i, q). q - i)") auto

function copy_bytes_up :: "mem \<Rightarrow> addr \<Rightarrow> addr \<Rightarrow> nat \<Rightarrow> nat \<Rightarrow> nat \<Rightarrow> mem" where
  "copy_bytes_up m dest src base i b =
     (if i < b
      then copy_bytes_up (m(dest + of_nat (base + i) := m (src + of_nat (base + i)))) dest src base (Suc i) b
      else m)"
  by pat_completeness auto
termination by (relation "measure (\<lambda>(_, _, _, _, i, b). b - i)") auto

definition memmove :: "mem \<Rightarrow> addr \<Rightarrow> addr \<Rightarrow> u64 \<Rightarrow> addr \<times> mem" where
  "memmove m dest src count =
     (let qword_count = unat (drop_bit 3 count);
          byte_count = unat (count AND 7)
      in if src < dest
         then let m' = copy_bytes_down m dest src (qword_count * 8) byte_count
              in (dest, copy_qwords_down m' dest src qword_count)
         else if dest < src
         then let m' = copy_qwords_up m dest src 0 qword_count
              in (dest, copy_bytes_up m' dest src (qword_count * 8) 0 byte_count)
         else (dest, m))"

declare strncpy_copy.simps [simp del] strncpy_fill.simps [simp del] strncmp_from.simps [simp del]
  strstr_match.simps [simp del] memchr_from.simps [simp del] memcmp_qwords.simps [simp del]
  memcmp_bytes.simps [simp del] copy_qwords_up.simps [simp del] copy_bytes_up.simps [simp del]

section \<open>The block operations\<close>

lemma unat_qwords: "unat (drop_bit 3 count :: u64) = unat count div 8"
  by (simp only: unat_drop_bit_eq) (simp add: drop_bit_eq_div)

lemma unat_tail: "unat (count AND 7 :: u64) = unat count mod 8"
proof -
  have "count AND 7 = take_bit 3 count" by (simp add: take_bit_eq_mask mask_eq_decr_exp)
  also have "\<dots> = count mod 8" by (simp add: take_bit_eq_mod)
  finally show ?thesis by (simp add: unat_mod)
qed

lemma copy_bytes_down_copied:
  "\<lbrakk>down_safe d s n; base + b \<le> n; n \<le> 2 ^ 64\<rbrakk> \<Longrightarrow>
     copy_bytes_down (copied m d s (base + b) n) d s base b = copied m d s base n"
proof (induction b)
  case (Suc b)
  then have "(copied m d s (Suc (base + b)) n)(d + of_nat (base + b) :=
      copied m d s (Suc (base + b)) n (s + of_nat (base + b))) = copied m d s (base + b) n"
    by (intro copy_byte_down) auto
  with Suc show ?case by simp
qed simp

lemma copy_qwords_down_copied:
  "\<lbrakk>down_safe d s n; 8 * q \<le> n; n \<le> 2 ^ 64\<rbrakk> \<Longrightarrow>
     copy_qwords_down (copied m d s (8 * q) n) d s q = copied m d s 0 n"
proof (induction q)
  case (Suc q)
  then have "store64 (copied m d s (8 * q + 8) n) (d + of_nat (8 * q))
      (load64 (copied m d s (8 * q + 8) n) (s + of_nat (8 * q))) = copied m d s (8 * q) n"
    by (intro copy_qword_down) auto
  moreover have "8 * Suc q = 8 * q + 8" by simp
  ultimately show ?case using Suc by (simp only: copy_qwords_down.simps)
qed simp

lemma copy_qwords_up_copied:
  assumes "up_safe d s n" "8 * q \<le> n" "n \<le> 2 ^ 64" "i \<le> q"
  shows "copy_qwords_up (copied m d s 0 (8 * i)) d s i q = copied m d s 0 (8 * q)"
  using assms(4)
proof (induction rule: inc_induct)
  case base
  show ?case by (simp add: copy_qwords_up.simps [of _ d s q q])
next
  case (step i)
  then have "store64 (copied m d s 0 (8 * i)) (d + of_nat (8 * i))
      (load64 (copied m d s 0 (8 * i)) (s + of_nat (8 * i))) = copied m d s 0 (8 * i + 8)"
    using assms by (intro copy_qword_up [of d s n]) auto
  with step show ?case by (subst copy_qwords_up.simps) (simp add: add.commute)
qed

lemma copy_bytes_up_copied:
  assumes "up_safe d s n" "base + b \<le> n" "n \<le> 2 ^ 64" "i \<le> b"
  shows "copy_bytes_up (copied m d s 0 (base + i)) d s base i b = copied m d s 0 (base + b)"
  using assms(4)
proof (induction rule: inc_induct)
  case base
  show ?case by (simp add: copy_bytes_up.simps [of _ d s base b b])
next
  case (step i)
  then have "(copied m d s 0 (base + i))(d + of_nat (base + i) :=
      copied m d s 0 (base + i) (s + of_nat (base + i))) = copied m d s 0 (Suc (base + i))"
    using assms by (intro copy_byte_up [of d s n]) auto
  with step show ?case by (subst copy_bytes_up.simps) simp
qed

lemma copy_down_correct:
  assumes "down_safe d s (unat count)"
  shows "copy_qwords_down (copy_bytes_down m d s (unat (drop_bit 3 count) * 8) (unat (count AND 7)))
    d s (unat (drop_bit 3 count)) = copied m d s 0 (unat (count :: u64))"
proof -
  let ?n = "unat count"
  have n: "?n div 8 * 8 + ?n mod 8 = ?n" "?n \<le> 2 ^ 64"
    using unat_u64_less [of count] by (simp_all del: unat_u64_less)
  have "copy_bytes_down (copied m d s (?n div 8 * 8 + ?n mod 8) ?n) d s (?n div 8 * 8) (?n mod 8) =
      copied m d s (8 * (?n div 8)) ?n"
    using assms n by (subst copy_bytes_down_copied) (simp_all add: mult.commute)
  then have "copy_bytes_down m d s (?n div 8 * 8) (?n mod 8) = copied m d s (8 * (?n div 8)) ?n"
    by (simp add: n)
  with assms n show ?thesis
    by (simp add: unat_qwords unat_tail copy_qwords_down_copied)
qed

lemma copy_up_correct:
  assumes "up_safe d s (unat count)"
  shows "copy_bytes_up (copy_qwords_up m d s 0 (unat (drop_bit 3 count))) d s
    (unat (drop_bit 3 count) * 8) 0 (unat (count AND 7)) = copied m d s 0 (unat (count :: u64))"
proof -
  let ?n = "unat count"
  have n: "?n div 8 * 8 + ?n mod 8 = ?n" "?n \<le> 2 ^ 64" "8 * (?n div 8) \<le> ?n"
    using unat_u64_less [of count] by (simp_all del: unat_u64_less)
  have "copy_qwords_up (copied m d s 0 (8 * 0)) d s 0 (?n div 8) = copied m d s 0 (8 * (?n div 8))"
    using assms n by (intro copy_qwords_up_copied) auto
  then have q: "copy_qwords_up m d s 0 (?n div 8) = copied m d s 0 (?n div 8 * 8 + 0)"
    by (simp add: mult.commute)
  have "copy_bytes_up (copied m d s 0 (?n div 8 * 8 + 0)) d s (?n div 8 * 8) 0 (?n mod 8) =
      copied m d s 0 (?n div 8 * 8 + ?n mod 8)"
    using assms n by (intro copy_bytes_up_copied [where n = ?n]) auto
  then show ?thesis by (simp add: unat_qwords unat_tail q n)
qed

lemma memmove_copied:
  assumes "unat dest + unat count \<le> 2 ^ 64" "unat src + unat count \<le> 2 ^ 64"
  shows "memmove m dest src count = (dest, copied m dest src 0 (unat count))"
proof -
  consider "src < dest" | "dest < src" | "dest = src" by fastforce
  then show ?thesis
  proof cases
    case 1
    with above_down_safe [OF 1 assms(1)] show ?thesis
      by (simp add: memmove_def Let_def copy_down_correct)
  next
    case 2
    then have "\<not> src < dest" by simp
    with 2 below_up_safe [OF 2 assms(2)] show ?thesis
      by (simp add: memmove_def Let_def copy_up_correct)
  next
    case 3
    have "copied m dest dest 0 (unat count) = m" by (auto simp: copied_def)
    with 3 show ?thesis by (simp add: memmove_def)
  qed
qed

text \<open>A block filled with one byte is a copy from a memory that holds it everywhere.\<close>

definition filled :: "mem \<Rightarrow> addr \<Rightarrow> u8 \<Rightarrow> nat \<Rightarrow> nat \<Rightarrow> mem" where
  "filled m d v lo hi = (\<lambda>a. if lo \<le> unat (a - d) \<and> unat (a - d) < hi then v else m a)"

lemma big_val_bytes: "k < 8 \<Longrightarrow> ucast (drop_bit (8 * k) (big_val ch)) = (ucast ch :: u8)"
proof -
  assume "k < 8"
  have "big_val ch = load64 (\<lambda>_. ucast ch) 0"
    by (rule bit_word_eqI)
      (auto simp: big_val_def load64_def Let_def bit_simps not_bit_u8)
  with \<open>k < 8\<close> show ?thesis by (simp add: load64_byte)
qed

lemma set_bytes_down_filled:
  "\<lbrakk>base + b \<le> n; n \<le> 2 ^ 64\<rbrakk> \<Longrightarrow> set_bytes_down (filled m d v (base + b) n) d v base b = filled m d v base n"
proof (induction b)
  case (Suc b)
  then have "(filled m d v (Suc (base + b)) n)(d + of_nat (base + b) := v) = filled m d v (base + b) n"
    by (intro ext, subst copy_byte_at) (auto simp: filled_def)
  with Suc show ?case by simp
qed simp

lemma set_qwords_down_filled:
  assumes w: "\<And>k. k < 8 \<Longrightarrow> ucast (drop_bit (8 * k) w) = v"
  shows "\<lbrakk>8 * q \<le> n; n \<le> 2 ^ 64\<rbrakk> \<Longrightarrow> set_qwords_down (filled m d v (8 * q) n) d w q = filled m d v 0 n"
proof (induction q)
  case (Suc q)
  then have "store64 (filled m d v (8 * Suc q) n) (d + of_nat (8 * q)) w = filled m d v (8 * q) n"
    using window_iff(1) [of "8 * q"] by (auto simp: store64_at w filled_def)
  moreover from Suc have "set_qwords_down (filled m d v (8 * q) n) d w q = filled m d v 0 n" by simp
  ultimately show ?case by (simp only: set_qwords_down.simps)
qed simp

lemma memset_filled: "memset m dest ch count = (dest, filled m dest (ucast ch) 0 (unat count))"
proof -
  let ?n = "unat count" and ?v = "ucast ch :: u8"
  have n: "?n div 8 * 8 + ?n mod 8 = ?n" "?n \<le> 2 ^ 64" "8 * (?n div 8) \<le> ?n"
    using unat_u64_less [of count] by (simp_all del: unat_u64_less)
  have "set_bytes_down (filled m dest ?v (?n div 8 * 8 + ?n mod 8) ?n) dest ?v (?n div 8 * 8) (?n mod 8) =
      filled m dest ?v (?n div 8 * 8) ?n"
    using n by (intro set_bytes_down_filled) auto
  moreover have "filled m dest ?v ?n ?n = m" by (rule ext) (auto simp: filled_def)
  ultimately have "set_bytes_down m dest ?v (?n div 8 * 8) (?n mod 8) = filled m dest ?v (8 * (?n div 8)) ?n"
    by (simp add: n mult.commute)
  with set_qwords_down_filled [OF big_val_bytes n(3) n(2)] show ?thesis
    by (simp add: memset_def Let_def unat_qwords unat_tail)
qed

section \<open>Comparison and search as functions of byte lists\<close>

fun lex_diff :: "u8 list \<Rightarrow> u8 list \<Rightarrow> int" where
  "lex_diff (a # as) (b # bs) = (if a \<noteq> b then uint a - uint b else lex_diff as bs)"
| "lex_diff _ _ = 0"

fun str_diff :: "u8 list \<Rightarrow> u8 list \<Rightarrow> int" where
  "str_diff (a # as) (b # bs) =
     (if a \<noteq> b then sint a - sint b else if a = 0 then 0 else str_diff as bs)"
| "str_diff _ _ = 0"

definition bytes_from :: "mem \<Rightarrow> addr \<Rightarrow> nat \<Rightarrow> nat \<Rightarrow> u8 list" where
  "bytes_from m p i n = map (\<lambda>k. m (p + of_nat k)) [i..<n]"

lemma bytes_at_from: "bytes_at m p n = bytes_from m p 0 n"
  by (simp add: bytes_at_def bytes_from_def)

lemma bytes_from_Cons: "i < n \<Longrightarrow> bytes_from m p i n = m (p + of_nat i) # bytes_from m p (Suc i) n"
  by (simp add: bytes_from_def upt_conv_Cons)

lemma bytes_from_Nil: "n \<le> i \<Longrightarrow> bytes_from m p i n = []"
  by (simp add: bytes_from_def)

lemma bytes_at_append: "i \<le> n \<Longrightarrow> bytes_at m p n = bytes_at m p i @ bytes_from m p i n"
  using upt_add_eq_append [of 0 i "n - i"] by (simp add: bytes_at_def bytes_from_def flip: map_append)

lemma bytes_at_eq_iff: "bytes_at m p n = bytes_at m' p' n \<longleftrightarrow> (\<forall>k < n. m (p + of_nat k) = m' (p' + of_nat k))"
  by (auto simp: bytes_at_def)

lemma lex_diff_same_prefix: "lex_diff (xs @ ys) (xs @ zs) = lex_diff ys zs"
  by (induction xs) auto

lemma lex_diff_0_iff: "length xs = length ys \<Longrightarrow> lex_diff xs ys = 0 \<longleftrightarrow> xs = ys"
  by (induction xs ys rule: list_induct2) (auto simp: uint_eq_iff)

lemma memcmp_bytes_lex: "memcmp_bytes m l r i n = lex_diff (bytes_from m l i n) (bytes_from m r i n)"
proof (induction m l r i n rule: memcmp_bytes.induct)
  case (1 m l r i n)
  then show ?case
    by (subst memcmp_bytes.simps) (auto simp: bytes_from_Cons bytes_from_Nil Let_def uint_eq_iff)
qed

lemma memcmp_qwords_equal:
  assumes "i \<le> q" "bytes_at m l (8 * i) = bytes_at m r (8 * i)"
  shows "memcmp_qwords m l r i q \<le> q \<and>
    bytes_at m l (8 * memcmp_qwords m l r i q) = bytes_at m r (8 * memcmp_qwords m l r i q)"
  using assms
proof (induction m l r i q rule: memcmp_qwords.induct)
  case (1 m l r i q)
  show ?case
  proof (cases "i < q \<and> load64 m (l + of_nat (8 * i)) = load64 m (r + of_nat (8 * i))")
    case True
    then have q8: "\<forall>k < 8. m (l + of_nat (8 * i) + of_nat k) = m (r + of_nat (8 * i) + of_nat k)"
      by (simp only: load64_eq_iff) blast
    have "m (l + of_nat k) = m (r + of_nat k)" if "k < 8 * Suc i" for k
    proof (cases "k < 8 * i")
      case True
      with 1 show ?thesis by (simp add: bytes_at_eq_iff)
    next
      case False
      then have k: "k = 8 * i + (k - 8 * i)" "k - 8 * i < 8" using that by simp_all
      from q8 k(2) have "m (l + of_nat (8 * i) + of_nat (k - 8 * i)) = m (r + of_nat (8 * i) + of_nat (k - 8 * i))"
        by (elim allE impE)
      then show ?thesis by (subst (1 2) k(1)) (simp only: of_nat_add add.assoc)
    qed
    then have "bytes_at m l (8 * Suc i) = bytes_at m r (8 * Suc i)" unfolding bytes_at_eq_iff by blast
    moreover have "memcmp_qwords m l r i q = memcmp_qwords m l r (Suc i) q"
      using True by (subst memcmp_qwords.simps) simp
    ultimately show ?thesis using "1.IH" True by simp
  next
    case False
    then have "memcmp_qwords m l r i q = i" by (subst memcmp_qwords.simps) auto
    with 1 show ?thesis by simp
  qed
qed

lemma memcmp_lex_diff: "memcmp m l r c = lex_diff (bytes_at m l (unat c)) (bytes_at m r (unat c))"
proof -
  let ?n = "unat c"
  define q where "q = memcmp_qwords m l r 0 (?n div 8)"
  have q: "q \<le> ?n div 8" "bytes_at m l (8 * q) = bytes_at m r (8 * q)"
    unfolding q_def using memcmp_qwords_equal [of 0 "?n div 8" m l r] by (auto simp: bytes_at_def)
  then have "8 * q \<le> ?n" by simp
  then show ?thesis
    by (simp add: memcmp_def unat_qwords q_def [symmetric] memcmp_bytes_lex lex_diff_same_prefix q
        bytes_at_append [of "8 * q" ?n])
qed

lemma strncmp_from_diff: "strncmp_from m l r i n = str_diff (bytes_from m l i n) (bytes_from m r i n)"
proof (induction m l r i n rule: strncmp_from.induct)
  case (1 m l r i n)
  then show ?case
    by (subst strncmp_from.simps) (auto simp: bytes_from_Cons bytes_from_Nil)
qed

lemma memchr_from_find:
  "memchr_from m p ch i n = (case find (\<lambda>k. m (p + of_nat k) = ucast ch) [i..<n] of
     None \<Rightarrow> 0 | Some k \<Rightarrow> p + of_nat k)"
proof (induction m p ch i n rule: memchr_from.induct)
  case (1 m p ch i n)
  then show ?case by (subst memchr_from.simps) (simp add: upt_conv_Cons)
qed

section \<open>Strings\<close>

text \<open>\<open>is_cstr m p n\<close>: a string of \<open>n\<close> characters and its NUL byte stand at \<open>p\<close>.\<close>

definition is_cstr :: "mem \<Rightarrow> addr \<Rightarrow> nat \<Rightarrow> bool" where
  "is_cstr m p n \<longleftrightarrow> Suc n < 2 ^ 64 \<and> (\<forall>k < n. m (p + of_nat k) \<noteq> 0) \<and> m (p + of_nat n) = 0"

lemma is_cstrD:
  assumes "is_cstr m p n"
  shows "Suc n < 2 ^ 64" and "k < n \<Longrightarrow> m (p + of_nat k) \<noteq> 0" and "m (p + of_nat n) = 0"
  using assms by (auto simp: is_cstr_def)

lemma is_cstr_code:
  "is_cstr m p n \<longleftrightarrow> Suc n < 2 ^ 64 \<and> list_all (\<lambda>b. b \<noteq> 0) (bytes_at m p n) \<and> m (p + of_nat n) = 0"
  by (auto simp: is_cstr_def bytes_at_def list_all_iff)

lemma is_cstr_shift:
  assumes "is_cstr m p n" "k \<le> n"
  shows "is_cstr m (p + of_nat k) (n - k)"
proof -
  have e: "p + of_nat k + of_nat j = p + of_nat (k + j)" for j by (simp add: add.assoc)
  have "m (p + of_nat k + of_nat (n - k)) = 0"
    unfolding e using is_cstrD(3) [OF assms(1)] assms(2) by simp
  moreover have "m (p + of_nat k + of_nat j) \<noteq> 0" if "j < n - k" for j
    unfolding e using is_cstrD(2) [OF assms(1), of "k + j"] that by simp
  ultimately show ?thesis using is_cstrD(1,3) [OF assms(1)] unfolding is_cstr_def by auto
qed

lemma strlen_from_cstr:
  assumes "is_cstr m p n" "i \<le> n"
  shows "strlen_from m p (of_nat i) = Some (of_nat n)"
  using assms(2)
proof (induction rule: inc_induct)
  case base
  with is_cstrD(3) [OF assms(1)] show ?case by (simp add: strlen_from.simps)
next
  case (step i)
  with is_cstrD(2) [OF assms(1), of i] show ?case
    by (subst strlen_from.simps) (simp add: add.commute)
qed

lemma strlen_cstr: "is_cstr m p n \<Longrightarrow> strlen m p = Some (of_nat n)"
  using strlen_from_cstr [of m p n 0] by (simp add: strlen_def)

lemma strcpy_from_cstr:
  assumes s: "is_cstr m s n" and up: "up_safe d s (Suc n)" and "i \<le> n"
  shows "strcpy_from (copied m d s 0 i) d s (of_nat i) = Some (copied m d s 0 (Suc n))"
  using assms(3)
proof (induction rule: inc_induct)
  case base
  have "copied m d s 0 n (s + of_nat n) = 0"
    using up_safe_read [OF up, of n n] is_cstrD(3) [OF s] by simp
  moreover have "(copied m d s 0 n)(d + of_nat n := 0) = copied m d s 0 (Suc n)"
    using copy_byte_up [OF up, of n m] is_cstrD(1) [OF s] calculation by simp
  ultimately show ?case by (simp add: strcpy_from.simps [of _ d s "of_nat n"])
next
  case (step i)
  have r: "copied m d s 0 i (s + of_nat i) \<noteq> 0"
    using up_safe_read [OF up, of i i] is_cstrD(2) [OF s] step by simp
  have "(copied m d s 0 i)(d + of_nat i := copied m d s 0 i (s + of_nat i)) = copied m d s 0 (Suc i)"
    using copy_byte_up [OF up, of i] is_cstrD(1) [OF s] step by simp
  with step r show ?case by (subst strcpy_from.simps) (simp add: add.commute)
qed

lemma strcat_seek_cstr:
  assumes "is_cstr m p n" "i \<le> n"
  shows "strcat_seek m (p + of_nat i) = Some (p + of_nat n)"
  using assms(2)
proof (induction rule: inc_induct)
  case base
  with is_cstrD(3) [OF assms(1)] show ?case by (simp add: strcat_seek.simps)
next
  case (step i)
  with is_cstrD(2) [OF assms(1), of i] show ?case
    by (subst strcat_seek.simps) (simp add: algebra_simps)
qed

lemma strcmp_from_cstr:
  assumes l: "is_cstr m l n" and "i \<le> n"
  shows "strcmp_from m l r (of_nat i) = Some (str_diff (bytes_from m l i (Suc n)) (bytes_from m r i (Suc n)))"
  using assms(2)
proof (induction rule: inc_induct)
  case base
  with is_cstrD(3) [OF l] show ?case
    by (subst strcmp_from.simps) (simp add: bytes_from_Cons bytes_from_Nil)
next
  case (step i)
  with is_cstrD(2) [OF l, of i] show ?case
    by (subst strcmp_from.simps) (simp add: bytes_from_Cons add.commute)
qed

lemma char_matches_iff: "char_matches c ch \<longleftrightarrow> c = ucast ch \<and> uint c < 128"
proof -
  let ?b = "ucast ch :: u8"
  have "sint ?b = (if uint ?b < 128 then uint ?b else uint ?b - 256)"
  proof -
    have "0 \<le> uint ?b" "uint ?b < 256" using unsigned_less [of ?b, where 'a = int] by simp_all
    moreover have "(x + 128) mod 256 = (if x < 128 then x + 128 else x - 128)"
      if "0 \<le> x" "x < 256" for x :: int
    proof (cases "x < 128")
      case False
      have "(x + 128) mod 256 = (x - 128 + 256) mod 256" by (simp add: add.commute)
      also have "\<dots> = x - 128" unfolding mod_add_self2 using that False by (intro mod_pos_pos_trivial) simp_all
      finally show ?thesis using False by simp
    qed (use that in \<open>simp add: mod_pos_pos_trivial\<close>)
    ultimately show ?thesis
      by (simp add: sint_uint signed_take_bit_eq_take_bit_shift take_bit_eq_mod)
  qed
  note b = this
  show ?thesis
  proof (cases "uint ?b < 128")
    case True
    then show ?thesis by (auto simp: char_matches_def b uint_eq_iff)
  next
    case False
    then have "sint ?b < 0" using unsigned_less [of ?b, where 'a = int] by (simp add: b)
    then have "\<not> char_matches c ch"
      unfolding char_matches_def using uint_ge_0 [of c] by linarith
    with False show ?thesis by auto
  qed
qed

lemma strncpy_copy_copied:
  assumes "disjoint_blocks d s c" "c < 2 ^ 64" "i \<le> c"
  shows "strncpy_copy (copied m d s 0 i) d s i c =
    (let j = i + length (takeWhile (\<lambda>b. b \<noteq> 0) (bytes_from m s i c))
     in (copied m d s 0 (min c (Suc j)), j))"
  using assms(3)
proof (induction rule: inc_induct)
  case base
  show ?case by (simp add: strncpy_copy.simps [of _ d s c c] bytes_from_Nil)
next
  case (step i)
  note up = disjoint_up_safe [OF assms(1)]
  have w: "(copied m d s 0 i)(d + of_nat i := copied m d s 0 i (s + of_nat i)) = copied m d s 0 (Suc i)"
    using copy_byte_up [OF up, of i m] assms step by simp
  have r: "copied m d s 0 (Suc i) (s + of_nat i) = m (s + of_nat i)"
    using assms(1) step by (auto simp: copied_def disjoint_blocks_def)
  show ?case
  proof (cases "m (s + of_nat i) = 0")
    case True
    with step w r show ?thesis
      by (subst strncpy_copy.simps) (simp add: bytes_from_Cons Let_def)
  next
    case False
    with step w r show ?thesis
      by (subst strncpy_copy.simps) (simp add: bytes_from_Cons Let_def)
  qed
qed

lemma strncpy_fill_at:
  "c < 2 ^ 64 \<Longrightarrow> strncpy_fill m d i c a = (if i \<le> unat (a - d) \<and> unat (a - d) < c then 0 else m a)"
proof (induction m d i c rule: strncpy_fill.induct)
  case (1 m d i c)
  show ?case
  proof (cases "i < c")
    case True
    then have "strncpy_fill m d i c a = strncpy_fill (m(d + of_nat i := 0)) d (Suc i) c a"
      by (subst strncpy_fill.simps) simp
    also have "\<dots> = (if Suc i \<le> unat (a - d) \<and> unat (a - d) < c then 0 else (m(d + of_nat i := 0)) a)"
      using True "1.prems" by (rule "1.IH")
    also have "(m(d + of_nat i := 0)) a = (if unat (a - d) = i then 0 else m a)"
      using True 1 by (intro copy_byte_at) simp
    finally show ?thesis using True by auto
  next
    case False
    then show ?thesis by (subst strncpy_fill.simps) auto
  qed
qed

section \<open>Properties\<close>

text \<open>A memory whose byte at every address is the low byte of the address, for examples.\<close>

definition demo_mem :: mem where
  "demo_mem = (\<lambda>a. ucast a)"

text \<open>
  \<open>memcpy\<close> copies: for blocks that do not overlap, of any length, the destination holds
  the source's bytes afterwards, no other byte changes, and the destination is returned.
\<close>

theorem memcpy_correct:
  assumes "disjoint_blocks dest src (unat count)"
  shows "\<exists>m'. memcpy m dest src count = (dest, m') \<and>
    bytes_at m' dest (unat count) = bytes_at m src (unat count) \<and>
    (\<forall>a. unat count \<le> unat (a - dest) \<longrightarrow> m' a = m a)"
  using copy_down_correct [OF disjoint_down_safe [OF assms]] unat_u64_less [of count]
  by (simp add: memcpy_def Let_def bytes_at_copied copied_outside del: unat_u64_less)

theorem memcpy_correct_witness:
  "\<exists>m'. memcpy demo_mem 0x2000 0x1003 11 = (0x2000, m') \<and>
    bytes_at m' 0x2000 11 = [3, 4, 5, 6, 7, 8, 9, 10, 11, 12, 13]"
  using memcpy_correct [of "0x2000" "0x1003" 11 demo_mem]
  by (simp add: disjoint_blocksI) (auto simp: bytes_at_def demo_mem_def upt_rec)

text \<open>
  C16. \<open>memmove\<close> copies correctly however source and destination overlap, as long as
  neither block wraps around the end of the address space: the quad-word loops run in the
  direction that never overwrites bytes still to be read.
\<close>

theorem memmove_correct:
  assumes "unat dest + unat count \<le> 2 ^ 64" "unat src + unat count \<le> 2 ^ 64"
  shows "\<exists>m'. memmove m dest src count = (dest, m') \<and>
    bytes_at m' dest (unat count) = bytes_at m src (unat count) \<and>
    (\<forall>a. unat count \<le> unat (a - dest) \<longrightarrow> m' a = m a)"
  using memmove_copied [OF assms] unat_u64_less [of count]
  by (simp add: bytes_at_copied copied_outside del: unat_u64_less)

theorem memmove_correct_witness:
  "\<exists>m'. memmove demo_mem 0x1003 0x1000 10 = (0x1003, m') \<and>
    bytes_at m' 0x1003 10 = [0, 1, 2, 3, 4, 5, 6, 7, 8, 9]"
  using memmove_correct [of "0x1003" 10 "0x1000" demo_mem]
  by simp (auto simp: bytes_at_def demo_mem_def upt_rec)

text \<open>
  \<open>memset\<close> writes the low byte of its argument to every byte of the block, through
  quad-words and single bytes, and to no other byte.
\<close>

theorem memset_correct:
  "memset m dest ch count =
     (dest, \<lambda>a. if unat (a - dest) < unat count then ucast ch else m a)"
  by (simp add: memset_filled filled_def)

text \<open>
  C34. \<open>memcmp\<close>, quad-words first, is the byte-wise comparison: its result is the difference
  of the first two bytes that differ, 0 exactly when the blocks are equal. The blocks have less than
  \<^verbatim>\<open>2 ^ 31\<close> bytes: the indices of the code are of type \<^verbatim>\<open>int\<close>.
\<close>

theorem memcmp_correct:
  assumes "unat count < 2 ^ 31"
  shows "memcmp m lhs rhs count =
      lex_diff (bytes_at m lhs (unat count)) (bytes_at m rhs (unat count)) \<and>
    (memcmp m lhs rhs count = 0 \<longleftrightarrow> bytes_at m lhs (unat count) = bytes_at m rhs (unat count))"
  by (simp add: memcmp_lex_diff lex_diff_0_iff bytes_at_def)

theorem memcmp_correct_witness: "memcmp demo_mem 0x1000 0x1101 9 = -1"
  using memcmp_correct [of 9 demo_mem "0x1000" "0x1101"]
  by (simp add: bytes_at_def demo_mem_def upt_rec)

text \<open>
  \<open>strcat\<close> appends: after it, the string at the destination is the old one followed by
  the source string, so \<open>strlen\<close> returns the sum of the lengths.
\<close>

theorem strcat_correct:
  assumes d: "is_cstr m dest n" and s: "is_cstr m src k" and room: "Suc (n + k) < 2 ^ 64"
    and disj: "disjoint_blocks (dest + of_nat n) src (Suc k)"
  shows "\<exists>m'. strcat m dest src = Some (dest, m') \<and>
    bytes_at m' dest (n + k) = bytes_at m dest n @ bytes_at m src k \<and>
    is_cstr m' dest (n + k) \<and> strlen m' dest = Some (of_nat (n + k))"
proof -
  let ?d = "dest + of_nat n"
  let ?m = "copied m ?d src 0 (Suc k)"
  have "strcat m dest src = Some (dest, ?m)"
    using strcat_seek_cstr [OF d, of 0] strcpy_from_cstr [OF s disjoint_up_safe [OF disj], of 0]
    by (simp add: strcat_def)
  moreover have lo: "?m (dest + of_nat j) = m (dest + of_nat j)" if "j < n" for j
  proof -
    have nj: "unat (of_nat n :: addr) = n" "unat (of_nat j :: addr) = j"
      using room that by (simp_all add: unat_of_nat_no_wrap)
    have "dest + of_nat j - ?d = of_nat j - of_nat n" by simp
    then have "unat (dest + of_nat j - ?d) = j + 2 ^ 64 - n"
      using that by (simp add: unat_diff_wrap nj word_less_nat_alt)
    with room that show ?thesis by (intro copied_outside) simp
  qed
  moreover have hi: "?m (dest + of_nat (n + j)) = m (src + of_nat j)" if "j \<le> k" for j
    using copied_at [of j m ?d src 0 "Suc k"] room that by (simp add: add.assoc)
  moreover have cat: "bytes_at ?m dest (n + k) = bytes_at m dest n @ bytes_at m src k"
  proof (rule nth_equalityI)
    fix i assume "i < length (bytes_at ?m dest (n + k))"
    then have i: "i < n + k" by (simp add: bytes_at_def)
    show "bytes_at ?m dest (n + k) ! i = (bytes_at m dest n @ bytes_at m src k) ! i"
      using i lo [of i] hi [of "i - n"] by (cases "i < n") (auto simp: bytes_at_def nth_append)
  qed (simp add: bytes_at_def)
  moreover have c: "is_cstr ?m dest (n + k)"
  proof -
    have "?m (dest + of_nat j) \<noteq> 0" if "j < n + k" for j
      using lo [of j] hi [of "j - n"] is_cstrD(2) [OF d, of j] is_cstrD(2) [OF s, of "j - n"] that
      by (cases "j < n") auto
    moreover have "?m (dest + of_nat (n + k)) = 0" using hi [of k] is_cstrD(3) [OF s] by simp
    ultimately show ?thesis using room by (auto simp: is_cstr_def)
  qed
  ultimately show ?thesis using strlen_cstr [OF c] by blast
qed

theorem strcat_correct_witness:
  "\<exists>m'. strcat (demo_mem(0x1003 := 0, 0x2013 := 0)) 0x1001 0x2011 = Some (0x1001, m') \<and>
    bytes_at m' 0x1001 4 = [1, 2, 0x11, 0x12]"
proof -
  let ?m = "demo_mem(0x1003 := 0, 0x2013 := 0)"
  have d: "is_cstr ?m 0x1001 2" and s: "is_cstr ?m 0x2011 2"
    by (simp_all add: is_cstr_code bytes_at_def demo_mem_def upt_rec)
  have "disjoint_blocks (0x1001 + of_nat 2) 0x2011 (Suc 2)" by (rule disjoint_blocksI) simp_all
  moreover have "bytes_at ?m 0x1001 2 = [1, 2]" "bytes_at ?m 0x2011 2 = [0x11, 0x12]"
    by (simp_all add: bytes_at_def demo_mem_def upt_rec)
  ultimately show ?thesis using strcat_correct [OF d s] by auto
qed

text \<open>
  \<open>strncpy\<close> fills exactly \<open>count\<close> bytes: the source's characters up to its NUL (or up
  to \<open>count\<close> of them), padded with NUL bytes; no other byte changes.
\<close>

theorem strncpy_correct:
  assumes "disjoint_blocks dest src (unat count)"
  shows "\<exists>m'. strncpy m dest src count = (dest, m') \<and>
    (let cs = takeWhile (\<lambda>b. b \<noteq> 0) (bytes_at m src (unat count))
     in bytes_at m' dest (unat count) = cs @ replicate (unat count - length cs) 0) \<and>
    (\<forall>a. unat count \<le> unat (a - dest) \<longrightarrow> m' a = m a)"
proof -
  let ?c = "unat count"
  let ?cs = "takeWhile (\<lambda>b. b \<noteq> 0) (bytes_at m src ?c)"
  let ?j = "length ?cs"
  have c: "?c < 2 ^ 64" using unat_u64_less [of count] by (simp del: unat_u64_less)
  have j: "?j \<le> ?c" using length_takeWhile_le [of _ "bytes_at m src ?c"] by (simp add: bytes_at_def)
  let ?m' = "strncpy_fill (copied m dest src 0 (min ?c (Suc ?j))) dest ?j ?c"
  have e: "strncpy m dest src count = (dest, ?m')"
    using strncpy_copy_copied [OF assms c, of 0 m] by (simp add: strncpy_def Let_def bytes_at_from)
  have at: "?m' (dest + of_nat k) = (if k < ?j then m (src + of_nat k) else 0)" if "k < ?c" for k
  proof -
    have k: "k < 2 ^ 64" using that c by (rule order.strict_trans)
    then have "unat (of_nat k :: addr) = k" by (intro unat_of_nat_no_wrap) simp
    with that k j show ?thesis by (simp add: strncpy_fill_at [OF c] copied_at)
  qed
  have cs: "?cs ! k = m (src + of_nat k)" if "k < ?j" for k
    using that takeWhile_nth [OF that] j by (simp add: bytes_at_def)
  have "bytes_at ?m' dest ?c = ?cs @ replicate (?c - ?j) 0"
  proof (rule nth_equalityI)
    fix i assume "i < length (bytes_at ?m' dest ?c)"
    then have "i < ?c" by (simp add: bytes_at_def)
    then show "bytes_at ?m' dest ?c ! i = (?cs @ replicate (?c - ?j) 0) ! i"
      by (simp add: bytes_at_def [of ?m'] at nth_append cs)
  qed (use j in \<open>simp add: bytes_at_def\<close>)
  moreover have "?m' a = m a" if "?c \<le> unat (a - dest)" for a
    using that c by (simp add: strncpy_fill_at copied_outside)
  ultimately show ?thesis using e by (simp add: Let_def)
qed

theorem strncpy_correct_witness:
  "\<exists>m'. strncpy (demo_mem(0x1003 := 0)) 0x2000 0x1001 5 = (0x2000, m') \<and>
    bytes_at m' 0x2000 5 = [1, 2, 0, 0, 0]"
proof -
  have "disjoint_blocks 0x2000 0x1001 (unat (5 :: u64))" by (rule disjoint_blocksI) simp_all
  moreover have b: "bytes_at (demo_mem(0x1003 := 0)) 0x1001 5 = [1, 2, 0, 4, 5]"
    by (simp add: bytes_at_def demo_mem_def upt_rec)
  ultimately show ?thesis
    using strncpy_correct [of "0x2000" "0x1001" 5 "demo_mem(0x1003 := 0)"]
    by (simp add: Let_def numeral_3_eq_3) blast
qed

lemma sint_eq_iff: "sint (a :: u8) = sint b \<longleftrightarrow> a = b"
  by (auto intro: signed_word_eqI)

lemma str_diff_0_iff:
  assumes "length xs = length ys" "xs = as @ [0]" "0 \<notin> set as"
  shows "str_diff xs ys = 0 \<longleftrightarrow> xs = ys"
  using assms
proof (induction xs ys arbitrary: as rule: list_induct2)
  case (Cons x xs y ys)
  then show ?case
    by (cases as) (auto simp: sint_eq_iff sint_eq_iff [of _ 0, simplified])
qed simp

text \<open>
  \<open>strcmp\<close> terminates on strings and compares them: its result is the difference of the
  first characters that differ (as signed characters), and 0 exactly when the strings are
  the same.
\<close>

theorem strcmp_correct:
  assumes l: "is_cstr m lhs n"
  shows "\<exists>d. strcmp m lhs rhs = Some d \<and>
    d = str_diff (bytes_at m lhs (Suc n)) (bytes_at m rhs (Suc n)) \<and>
    (d = 0 \<longleftrightarrow> bytes_at m lhs (Suc n) = bytes_at m rhs (Suc n))"
proof -
  have "bytes_at m lhs (Suc n) = bytes_at m lhs n @ [0]" "0 \<notin> set (bytes_at m lhs n)"
    using is_cstrD(2,3) [OF l] by (auto simp: bytes_at_def)
  then have "str_diff (bytes_at m lhs (Suc n)) (bytes_at m rhs (Suc n)) = 0 \<longleftrightarrow>
      bytes_at m lhs (Suc n) = bytes_at m rhs (Suc n)"
    by (intro str_diff_0_iff [where as = "bytes_at m lhs n"]) (simp_all add: bytes_at_def)
  with strcmp_from_cstr [OF l, of 0 rhs] show ?thesis
    by (simp add: strcmp_def bytes_at_from)
qed

theorem strcmp_correct_witness:
  "strcmp (demo_mem(0x1083 := 0)) 0x1080 0x1001 = Some (-129)"
proof -
  have "is_cstr (demo_mem(0x1083 := 0)) 0x1080 3"
    by (simp add: is_cstr_code bytes_at_def demo_mem_def upt_rec)
  from strcmp_correct [OF this, of "0x1001"] show ?thesis
    by (auto simp: bytes_at_def demo_mem_def upt_rec)
qed

lemma strrchr_from_cstr:
  assumes s: "is_cstr m str n" and "i \<le> n"
  shows "strrchr_from m (str + of_nat i) ch ret = Some
    (if (ucast ch :: u8) = 0 then str + of_nat n
     else case find (\<lambda>k. char_matches (m (str + of_nat k)) ch) (rev [i..<n]) of
       None \<Rightarrow> ret | Some k \<Rightarrow> str + of_nat k)"
  using assms(2)
proof (induction arbitrary: ret rule: inc_induct)
  case base
  with is_cstrD(3) [OF s] show ?case by (simp add: strrchr_from.simps)
next
  case (step i)
  with is_cstrD(2) [OF s, of i] show ?case
    by (subst strrchr_from.simps)
      (simp add: upt_conv_Cons find_append add.assoc [symmetric] add.commute [of 1] split: option.split)
qed

text \<open>
  \<open>strrchr\<close> terminates on a string and returns the last character that matches, the
  NUL byte when that is what is searched for, and the null pointer when there is none. A
  character with its top bit set matches nothing.
\<close>

theorem strrchr_correct:
  assumes "is_cstr m str n"
  shows "strrchr m str ch = Some
    (if (ucast ch :: u8) = 0 then str + of_nat n
     else case find (\<lambda>k. m (str + of_nat k) = ucast ch \<and> uint (m (str + of_nat k)) < 128) (rev [0..<n]) of
       None \<Rightarrow> 0 | Some k \<Rightarrow> str + of_nat k)"
  using strrchr_from_cstr [OF assms, of 0 ch 0] by (simp add: strrchr_def char_matches_iff)

theorem strrchr_correct_witness:
  "strrchr (demo_mem(0x1003 := 1, 0x1004 := 0)) 0x1001 1 = Some 0x1003"
proof -
  have "is_cstr (demo_mem(0x1003 := 1, 0x1004 := 0)) 0x1001 3"
    by (simp add: is_cstr_code bytes_at_def demo_mem_def upt_rec)
  from strrchr_correct [OF this, of 1] show ?thesis
    by (simp add: demo_mem_def upt_rec)
qed

text \<open>
  \<open>strchr\<close> looks at the first character only: its loop does not advance, so it never
  returns when the string is not empty and its first character does not match.
\<close>

theorem strchr_returns_iff:
  "strchr m str ch = None \<longleftrightarrow> m str \<noteq> 0 \<and> \<not> (m str = ucast ch \<and> uint (m str) < 128)"
proof
  assume "strchr m str ch = None"
  then show "m str \<noteq> 0 \<and> \<not> (m str = ucast ch \<and> uint (m str) < 128)"
    by (subst (asm) strchr.simps) (auto simp: char_matches_iff split: if_splits)
next
  assume stuck: "m str \<noteq> 0 \<and> \<not> (m str = ucast ch \<and> uint (m str) < 128)"
  show "strchr m str ch = None"
  proof (rule ccontr)
    assume "strchr m str ch \<noteq> None"
    then obtain r where "strchr m str ch = Some r" by auto
    then have "\<not> (m str \<noteq> 0 \<and> \<not> char_matches (m str) ch)"
      by (rule strchr.raw_induct [where P = "\<lambda>m str ch r. \<not> (m str \<noteq> 0 \<and> \<not> char_matches (m str) ch)", rotated])
        (auto split: if_splits)
    with stuck show False by (auto simp: char_matches_iff)
  qed
qed

lemma strstr_match_spec:
  assumes "i \<le> len" "strstr_match m str sub len i = (j, b)"
  shows "i \<le> j \<and> j \<le> len \<and> (\<forall>k. i \<le> k \<and> k < j \<longrightarrow> m (str + of_nat k) = m (sub + of_nat k)) \<and> (b \<longrightarrow> j = len)"
  using assms
proof (induction m str sub len i rule: strstr_match.induct)
  case (1 m str sub len i)
  show ?case
  proof (cases "i < len \<and> m (str + of_nat i) = m (sub + of_nat i)")
    case True
    with 1 have "strstr_match m str sub len (Suc i) = (j, b)" by (subst (asm) strstr_match.simps) simp
    with 1 True have IH: "Suc i \<le> j" "j \<le> len" "b \<longrightarrow> j = len"
      "\<And>k. Suc i \<le> k \<Longrightarrow> k < j \<Longrightarrow> m (str + of_nat k) = m (sub + of_nat k)" by auto
    have "m (str + of_nat k) = m (sub + of_nat k)" if "i \<le> k" "k < j" for k
      using IH(4) [of k] True that by (cases "k = i") auto
    with IH show ?thesis by auto
  next
    case False
    with 1 show ?thesis by (subst (asm) (2) strstr_match.simps) (auto split: if_splits)
  qed
qed

definition occurs_at :: "mem \<Rightarrow> addr \<Rightarrow> nat \<Rightarrow> addr \<Rightarrow> nat \<Rightarrow> addr \<Rightarrow> bool" where
  "occurs_at m str n sub l p \<longleftrightarrow>
     (\<exists>k. k + l \<le> n \<and> p = str + of_nat k \<and> bytes_at m p l = bytes_at m sub l)"

lemma occurs_at_shift:
  "j \<le> n \<Longrightarrow> occurs_at m (str + of_nat j) (n - j) sub l p \<Longrightarrow> occurs_at m str n sub l p"
proof -
  assume j: "j \<le> n" and "occurs_at m (str + of_nat j) (n - j) sub l p"
  then obtain k where k: "k + l \<le> n - j" "p = str + of_nat j + of_nat k" "bytes_at m p l = bytes_at m sub l"
    by (auto simp: occurs_at_def)
  then have "j + k + l \<le> n \<and> p = str + of_nat (j + k)" using j by (simp add: add.assoc)
  with k(3) show ?thesis unfolding occurs_at_def by blast
qed

lemma strstr_from_total:
  assumes "is_cstr m str n" "is_cstr m sub l" "0 < l"
  shows "\<exists>p. strstr_from m str sub l = Some p \<and> (p = 0 \<or> occurs_at m str n sub l p)"
  using assms(1)
proof (induction n arbitrary: str rule: less_induct)
  case (less n)
  have next_start: "\<exists>p. strstr_from m (str + of_nat j) sub l = Some p \<and> (p = 0 \<or> occurs_at m str n sub l p)"
    if "0 < j" "j \<le> n" for j
  proof -
    from less.IH [of "n - j" "str + of_nat j"] is_cstr_shift [OF less.prems that(2)] that
    obtain p where "strstr_from m (str + of_nat j) sub l = Some p"
      "p = 0 \<or> occurs_at m (str + of_nat j) (n - j) sub l p" by auto
    with occurs_at_shift [OF that(2)] show ?thesis by blast
  qed
  show ?case
  proof (cases "n = 0")
    case True
    with is_cstrD(3) [OF less.prems] show ?thesis by (simp add: strstr_from.simps)
  next
    case False
    then have c: "m str \<noteq> 0" using is_cstrD(2) [OF less.prems, of 0] by simp
    show ?thesis
    proof (cases "m str = m sub")
      case False
      with c next_start [of 1] \<open>n \<noteq> 0\<close> show ?thesis by (simp add: strstr_from.simps [of m str])
    next
      case True
      obtain j b where j: "strstr_match m str sub l 1 = (j, b)" by fastforce
      from strstr_match_spec [OF _ j] assms(3)
      have spec: "1 \<le> j" "j \<le> l" "b \<longrightarrow> j = l"
        and same': "\<And>k. 1 \<le> k \<Longrightarrow> k < j \<Longrightarrow> m (str + of_nat k) = m (sub + of_nat k)" by auto
      have same: "m (str + of_nat k) = m (sub + of_nat k)" if "k < j" for k
        using True same' [of k] that by (cases "k = 0") auto
      have "j \<le> n"
      proof (rule ccontr)
        assume "\<not> j \<le> n"
        with same [of n] is_cstrD(3) [OF less.prems] is_cstrD(2) [OF assms(2), of n] spec
        show False by simp
      qed
      show ?thesis
      proof (cases b)
        case True
        then have "occurs_at m str n sub l str"
          using spec same \<open>j \<le> n\<close> unfolding occurs_at_def bytes_at_eq_iff by (intro exI [of _ 0]) simp
        with True c \<open>m str = m sub\<close> j show ?thesis by (simp add: strstr_from.simps [of m str])
      next
        case False
        with c \<open>m str = m sub\<close> j next_start [of j] spec \<open>j \<le> n\<close> show ?thesis
          by (simp add: strstr_from.simps [of m str])
      qed
    qed
  qed
qed

text \<open>
  \<open>strstr\<close> terminates on strings, and a pointer other than null that it returns is a
  position inside the string at which the whole substring stands.
\<close>

theorem strstr_sound:
  assumes "is_cstr m str n" "is_cstr m sub l"
  shows "\<exists>p. strstr m str sub = Some p \<and> (p = 0 \<or> occurs_at m str n sub l p)"
proof (cases "l = 0")
  case True
  then have "occurs_at m str n sub l str" by (auto simp: occurs_at_def bytes_at_def)
  with True strlen_cstr [OF assms(2)] show ?thesis by (simp add: strstr_def)
next
  case False
  have "unat (of_nat l :: u64) = l" using is_cstrD(1) [OF assms(2)] by (intro unat_of_nat_no_wrap) simp
  moreover from this False have "(of_nat l :: u64) \<noteq> 0" by (metis unat_0)
  ultimately show ?thesis
    using strlen_cstr [OF assms(2)] strstr_from_total [OF assms] False by (simp add: strstr_def)
qed

theorem strstr_sound_witness:
  "\<exists>p. strstr (demo_mem(0x1006 := 0, 0x2005 := 0)) 0x1001 0x2003 = Some p \<and>
     (p = 0 \<or> occurs_at (demo_mem(0x1006 := 0, 0x2005 := 0)) 0x1001 5 0x2003 2 p)"
  by (rule strstr_sound) (simp_all add: is_cstr_code bytes_at_def demo_mem_def upt_rec)

definition aaab :: mem where
  "aaab = (\<lambda>_. 0)(0x1000 := 97, 0x1001 := 97, 0x1002 := 97, 0x1003 := 98,
     0x2000 := 97, 0x2001 := 97, 0x2002 := 98)"

text \<open>
  The search is not complete: after a partial match \<open>strstr\<close> resumes behind the matched
  characters instead of at the next character, so it reports that \<open>aab\<close> does not occur in
  \<open>aaab\<close>.
\<close>

theorem strstr_incomplete:
  "strstr aaab 0x1000 0x2000 = Some 0 \<and> is_cstr aaab 0x1000 4 \<and> is_cstr aaab 0x2000 3 \<and>
   occurs_at aaab 0x1000 4 0x2000 3 0x1001"
proof -
  have sub: "is_cstr aaab 0x2000 3" and str: "is_cstr aaab 0x1000 4"
    by (simp_all add: is_cstr_code bytes_at_def aaab_def upt_rec)
  have "strstr_from aaab 0x1000 0x2000 3 = Some 0"
    by (simp add: strstr_from.simps strstr_match.simps aaab_def)
  then have "strstr aaab 0x1000 0x2000 = Some 0"
    using strlen_cstr [OF sub] by (simp add: strstr_def)
  moreover have "occurs_at aaab 0x1000 4 0x2000 3 0x1001"
    unfolding occurs_at_def by (intro exI [of _ 1]) (simp add: bytes_at_def aaab_def upt_rec)
  ultimately show ?thesis using sub str by blast
qed

end
