(* ===== verification/Heap.thy ===== *)
theory Heap
  imports Paging LibcString
begin

text \<open>
  The kernel heap of \<^verbatim>\<open>src/kernel/memory.c\<close>: \<open>kmalloc\<close>, \<open>krealloc\<close>, \<open>kfree\<close>, the initial heap
  and \<open>heap_consistency_check\<close>. The heap is one range of virtual addresses, cut into entries;
  each entry is a header (32 bytes: size, flag, links to the entries before and after) and the
  block it describes. \<^verbatim>\<open>sizeof(heap_entry)\<close> and \<^verbatim>\<open>sizeof(max_align_t)\<close> are 32 and
  \<^verbatim>\<open>alignof(max_align_t)\<close> is 16 on the kernel's target.

  Loops along the links are options, \<open>None\<close> when the links form a cycle and the loop does
  not end; a call of the heap then ends in \<open>Hang\<close>.
\<close>

section \<open>Entries\<close>

definition HDR :: u64 where "HDR = 32"
definition MAX_ALIGN :: u64 where "MAX_ALIGN = 32"

definition he_memory :: "addr \<Rightarrow> addr" where
  "he_memory entry = entry + HDR"

definition upd_header :: "addr \<Rightarrow> (heap_entry \<Rightarrow> heap_entry) \<Rightarrow> kmem \<Rightarrow> kmem" where
  "upd_header a f s = s\<lparr>headers := (headers s)(a := f (headers s a))\<rparr>"

text \<open>
  \<open>link_back following n\<close>: what follows a new or moved entry \<open>n\<close> now points back to it; when
  nothing follows, \<open>n\<close> is the last entry of the heap.
\<close>

definition link_back :: "addr \<Rightarrow> addr \<Rightarrow> kmem \<Rightarrow> kmem" where
  "link_back following n s =
     (if following \<noteq> 0 then upd_header following (\<lambda>e. e\<lparr>he_last := n\<rparr>) s
      else s\<lparr>last_heap_entry := n\<rparr>)"

text \<open>Cut the block of \<open>entry\<close> after \<open>sz\<close> bytes and make the rest a free entry.\<close>

definition split_entry :: "addr \<Rightarrow> u64 \<Rightarrow> kmem \<Rightarrow> kmem" where
  "split_entry entry sz s =
     (let e = headers s entry;
          next_entry = he_memory entry + sz;
          s = upd_header next_entry (\<lambda>_. \<lparr>he_size = he_size e - (sz + HDR), he_used = False,
                he_last = entry, he_next = he_next e\<rparr>) s;
          s = upd_header entry (\<lambda>e. e\<lparr>he_size := sz\<rparr>) s;
          s = link_back (he_next (headers s entry)) next_entry s
      in upd_header entry (\<lambda>e. e\<lparr>he_next := next_entry\<rparr>) s)"

section \<open>Start and consistency check\<close>

definition KERNEL_HEAP_INIT_SIZE :: u64 where "KERNEL_HEAP_INIT_SIZE = 0x1000"

definition init_heap :: "kmem \<Rightarrow> kmem" where
  "init_heap s =
     (let s = s\<lparr>last_heap_entry := kernel_heap_start s\<rparr>;
          s = upd_header (last_heap_entry s) (\<lambda>_. \<lparr>he_size = KERNEL_HEAP_INIT_SIZE - HDR, he_used = False,
                he_last = 0, he_next = 0\<rparr>) s
      in s\<lparr>first_heap_entry := last_heap_entry s\<rparr>)"

text \<open>The walk forwards: \<open>Some None\<close> when a link is wrong, else the entry it ends at.\<close>

partial_function (option) check_forward :: "(addr \<Rightarrow> heap_entry) \<Rightarrow> addr \<Rightarrow> addr option option" where
  "check_forward h entry =
     (if he_next (h entry) \<noteq> 0
      then if he_next (h entry) \<noteq> he_memory entry + he_size (h entry) then Some None
           else check_forward h (he_next (h entry))
      else Some (Some entry))"

partial_function (option) check_backward :: "(addr \<Rightarrow> heap_entry) \<Rightarrow> addr \<Rightarrow> addr option" where
  "check_backward h entry =
     (if he_last (h entry) \<noteq> 0 then check_backward h (he_last (h entry)) else Some entry)"

definition heap_consistency_check :: "kmem \<Rightarrow> bool res" where
  "heap_consistency_check s =
     (let h = headers s
      in if kernel_heap_start s \<noteq> first_heap_entry s then Inr False
         else if kernel_heap_end s \<noteq> he_memory (last_heap_entry s) + he_size (h (last_heap_entry s)) then Inr False
         else case check_forward h (first_heap_entry s) of
             None \<Rightarrow> Inl Hang
           | Some None \<Rightarrow> Inr False
           | Some (Some entry) \<Rightarrow>
               if entry \<noteq> last_heap_entry s then Inr False
               else case check_backward h entry of
                   None \<Rightarrow> Inl Hang
                 | Some entry \<Rightarrow> Inr (entry = first_heap_entry s))"

section \<open>kmalloc\<close>

partial_function (option) kmalloc_find :: "(addr \<Rightarrow> heap_entry) \<Rightarrow> u64 \<Rightarrow> addr \<Rightarrow> addr option" where
  "kmalloc_find h sz entry =
     (if entry = 0 then Some 0
      else if \<not> he_used (h entry) \<and> sz \<le> he_size (h entry) then Some entry
      else kmalloc_find h sz (he_next (h entry)))"

text \<open>
  No entry is large enough: map fresh pages behind the heap and make them a free entry.
  Returns 0 when there are no physical pages.
\<close>

definition heap_grow :: "u64 \<Rightarrow> kmem \<Rightarrow> (addr \<times> kmem) res" where
  "heap_grow sz s =
     (let page_count = (sz + HDR) div 0x1000 + 1
      in bindR (alloc_phys_pages page_count s) (\<lambda>(paddr, s).
         if paddr = 0 then Inr (0, s)
         else bindR (map_pages (kernel_heap_end s) paddr PAGING_FLAG_READ_WRITE (unat page_count) s) (\<lambda>s.
           let entry = kernel_heap_end s;
               s = upd_header entry (\<lambda>_. \<lparr>he_size = 0x1000 * page_count - HDR, he_used = False,
                     he_last = last_heap_entry s, he_next = 0\<rparr>) s;
               s = upd_header (last_heap_entry s) (\<lambda>e. e\<lparr>he_next := entry\<rparr>) s;
               s = s\<lparr>last_heap_entry := entry\<rparr>;
               s = s\<lparr>kernel_heap_end := kernel_heap_end s + page_count * 0x1000\<rparr>
           in Inr (entry, s))))"

text \<open>The end of \<open>kmalloc\<close>: the entry found is in use now, cut when enough is left over.\<close>

definition take_entry :: "u64 \<Rightarrow> addr \<Rightarrow> kmem \<Rightarrow> kmem" where
  "take_entry sz entry s =
     (let s = upd_header entry (\<lambda>e. e\<lparr>he_used := True\<rparr>) s
      in if sz + HDR + MAX_ALIGN < he_size (headers s entry) then split_entry entry sz s else s)"

definition kmalloc :: "u64 \<Rightarrow> kmem \<Rightarrow> (addr \<times> kmem) res" where
  "kmalloc sz s =
     (let sz = ALIGN_UP sz 16;
          entry = first_heap_entry s
      in bindR (klock Heap_Mutex s) (\<lambda>s.
         case kmalloc_find (headers s) sz entry of
           None \<Rightarrow> Inl Hang
         | Some entry \<Rightarrow>
             bindR (if entry = 0 then heap_grow sz s else Inr (entry, s)) (\<lambda>(entry, s).
             if entry = 0 then bindR (kunlock Heap_Mutex s) (\<lambda>s. Inr (0, s))
             else
               let s = take_entry sz entry s
               in bindR (kunlock Heap_Mutex s) (\<lambda>s. Inr (he_memory entry, s)))))"

section \<open>kfree\<close>

text \<open>Merge the entry with a free entry before it; the entry the merged block belongs to.\<close>

definition kfree_merge_last :: "addr \<Rightarrow> kmem \<Rightarrow> addr \<times> kmem" where
  "kfree_merge_last entry s =
     (let e = headers s entry; l = he_last e
      in if l \<noteq> 0
         then if \<not> he_used (headers s l) \<and> he_memory l + he_size (headers s l) = entry
              then let s = upd_header l (\<lambda>el. el\<lparr>he_size := he_size el + (HDR + he_size e)\<rparr>) s;
                       s = link_back (he_next e) l s
                   in (l, upd_header l (\<lambda>el. el\<lparr>he_next := he_next e\<rparr>) s)
              else (entry, s)
         else (entry, s))"

definition kfree_merge_next :: "addr \<Rightarrow> kmem \<Rightarrow> kmem" where
  "kfree_merge_next entry s =
     (let e = headers s entry; n = he_next e
      in if n \<noteq> 0
         then if \<not> he_used (headers s n) \<and> he_memory entry + he_size e = n
              then let s = upd_header entry (\<lambda>e. e\<lparr>he_size := he_size e + (HDR + he_size (headers s n))\<rparr>) s;
                       s = upd_header entry (\<lambda>e. e\<lparr>he_next := he_next (headers s n)\<rparr>) s
                   in link_back (he_next (headers s entry)) entry s
              else s
         else s)"

text \<open>
  \<^verbatim>\<open>for(page_base = kernel_heap_end; page_base < new_end; page_base++) unmap_page(page_base)\<close>
\<close>

function unmap_from :: "addr \<Rightarrow> addr \<Rightarrow> kmem \<Rightarrow> kmem res" where
  "unmap_from page_base new_end s =
     (if page_base < new_end then bindR (unmap_page page_base s) (unmap_from (page_base + 1) new_end)
      else Inr s)"
  by pat_completeness auto
termination
proof (relation "measure (\<lambda>(page_base, new_end, _). unat new_end - unat page_base)")
  fix page_base new_end :: addr and s x
  assume lt: "page_base < new_end"
  then have "unat (page_base + 1) = Suc (unat page_base)"
    by (rule unat_Suc_of_less)
  with lt show "((page_base + 1, new_end, x), page_base, new_end, s)
      \<in> measure (\<lambda>(page_base, new_end, _). unat new_end - unat page_base)"
    by (auto simp: word_less_nat_alt)
qed simp

declare unmap_from.simps [simp del]

text \<open>
  Give the pages behind a last, free entry back: the entry goes when it starts at the new end,
  otherwise it is cut to reach up to it.
\<close>

definition trim_entries :: "addr \<Rightarrow> addr \<Rightarrow> kmem \<Rightarrow> kmem" where
  "trim_entries entry new_end s =
     (if entry = new_end
      then let s = s\<lparr>last_heap_entry := he_last (headers s entry)\<rparr>
           in upd_header (last_heap_entry s) (\<lambda>e. e\<lparr>he_next := 0\<rparr>) s
      else upd_header entry (\<lambda>e. e\<lparr>he_size := new_end - entry - HDR\<rparr>) s)"

definition kfree_shrink :: "addr \<Rightarrow> kmem \<Rightarrow> kmem res" where
  "kfree_shrink entry s =
     (let e = headers s entry
      in if he_next e = 0 \<and> he_last e \<noteq> 0 \<and>
            ALIGN_UP (he_memory entry + MAX_ALIGN) 0x1000 \<noteq> kernel_heap_end s
         then let new_end = ALIGN_UP entry 0x1000;
                  s = trim_entries entry new_end s;
                  page_count = (kernel_heap_end s - new_end) div 0x1000
              in bindR (PHYS_ADDR_OF new_end s) (\<lambda>paddr.
                 bindR (free_phys_pages paddr page_count s) (\<lambda>(_, s).
                 bindR (unmap_from (kernel_heap_end s) new_end s) (\<lambda>s.
                 Inr (s\<lparr>kernel_heap_end := new_end\<rparr>))))
         else Inr s)"

definition kfree :: "addr \<Rightarrow> kmem \<Rightarrow> kmem res" where
  "kfree ptr s =
     (let entry = ptr - HDR
      in bindR (klock Heap_Mutex s) (\<lambda>s.
         let s = upd_header entry (\<lambda>e. e\<lparr>he_used := False\<rparr>) s
         in case kfree_merge_last entry s of (entry, s) \<Rightarrow>
            let s = kfree_merge_next entry s
            in bindR (kfree_shrink entry s) (kunlock Heap_Mutex)))"

section \<open>krealloc\<close>

text \<open>A smaller block: a free entry \<open>n\<close> behind it moves down, otherwise the block is cut.\<close>

definition pull_next :: "addr \<Rightarrow> u64 \<Rightarrow> addr \<Rightarrow> kmem \<Rightarrow> kmem" where
  "pull_next entry sz n s =
     (let s = upd_header (he_memory entry + sz) (\<lambda>_. headers s n) s;
          s = upd_header entry (\<lambda>e. e\<lparr>he_next := he_memory entry + sz\<rparr>) s;
          n = he_next (headers s entry);
          s = upd_header n (\<lambda>en. en\<lparr>he_size := he_size en + (he_size (headers s entry) - sz)\<rparr>) s
      in link_back (he_next (headers s n)) n s)"

definition krealloc_shrink :: "addr \<Rightarrow> u64 \<Rightarrow> kmem \<Rightarrow> kmem" where
  "krealloc_shrink entry sz s =
     (let e = headers s entry
      in if he_next e \<noteq> 0 \<and> \<not> he_used (headers s (he_next e)) then pull_next entry sz (he_next e) s
         else if HDR + MAX_ALIGN \<le> he_size e - sz then split_entry entry sz s
         else s)"

text \<open>The search for free entries behind the block; 0 when the entries end.\<close>

partial_function (option) krealloc_scan :: "(addr \<Rightarrow> heap_entry) \<Rightarrow> u64 \<Rightarrow> u64 \<Rightarrow> addr \<Rightarrow> (u64 \<times> addr) option" where
  "krealloc_scan h sz tot_size cur_entry =
     (if tot_size < sz
      then let cur_entry = he_next (h cur_entry)
           in if cur_entry = 0 then Some (tot_size, cur_entry)
              else if he_used (h cur_entry) then Some (tot_size, cur_entry)
              else krealloc_scan h sz (he_size (h cur_entry) + HDR) cur_entry
      else Some (tot_size, cur_entry))"

definition krealloc_extend :: "addr \<Rightarrow> u64 \<Rightarrow> u64 \<Rightarrow> addr \<Rightarrow> kmem \<Rightarrow> kmem" where
  "krealloc_extend entry sz tot_size cur_entry s =
     (let s = upd_header entry (\<lambda>e. e\<lparr>he_next := he_next (headers s cur_entry)\<rparr>) s;
          s = link_back (he_next (headers s entry)) entry s;
          s = upd_header entry (\<lambda>e. e\<lparr>he_size := tot_size\<rparr>) s
      in if sz + HDR + MAX_ALIGN < he_size (headers s entry)
         then let e = headers s entry;
                  next_entry = he_memory entry + sz;
                  s = upd_header next_entry (\<lambda>_. \<lparr>he_size = he_size e - (sz + HDR), he_used = False,
                        he_last = entry, he_next = he_next e\<rparr>) s;
                  s = upd_header entry (\<lambda>e. e\<lparr>he_size := he_size e - (he_size (headers s next_entry) + HDR)\<rparr>) s;
                  s = link_back (he_next (headers s entry)) next_entry s
              in upd_header entry (\<lambda>e. e\<lparr>he_next := next_entry\<rparr>) s
         else s)"

definition krealloc :: "addr \<Rightarrow> u64 \<Rightarrow> kmem \<Rightarrow> (addr \<times> kmem) res" where
  "krealloc ptr sz s =
     (let sz = ALIGN_UP sz 16;
          entry = ptr - HDR
      in bindR (klock Heap_Mutex s) (\<lambda>s.
         if sz < he_size (headers s entry)
         then bindR (kunlock Heap_Mutex (krealloc_shrink entry sz s)) (\<lambda>s. Inr (ptr, s))
         else if sz = he_size (headers s entry)
         then bindR (kunlock Heap_Mutex s) (\<lambda>s. Inr (ptr, s))
         else case krealloc_scan (headers s) sz (he_size (headers s entry)) entry of
           None \<Rightarrow> Inl Hang
         | Some (tot_size, cur_entry) \<Rightarrow>
             if sz \<le> tot_size
             then bindR (kunlock Heap_Mutex (krealloc_extend entry sz tot_size cur_entry s)) (\<lambda>s. Inr (ptr, s))
             else bindR (kunlock Heap_Mutex s) (\<lambda>s.
                  bindR (kmalloc sz s) (\<lambda>(ret, s).
                  if ret \<noteq> 0
                  then bindR (kfree ptr (s\<lparr>bytes := snd (memcpy (bytes s) ret ptr (he_size (headers s entry)))\<rparr>)) (\<lambda>s.
                       Inr (ret, s))
                  else Inr (0, s)))))"

end
