(* ===== verification/Heap_Blocks.thy ===== *)
theory Heap_Blocks
  imports Heap
begin

text \<open>
  The heap as a list of blocks, and the proof that the linked entries of theory \<open>Heap\<close>
  implement it. A block is the address of its entry, the size of its memory and whether it is
  in use; \<open>heap_is s bs\<close> says that the entries of the state are exactly the blocks \<open>bs\<close>,
  linked in both directions, one directly behind the other from \<open>kernel_heap_start\<close> to
  \<open>kernel_heap_end\<close>. On such lists \<open>alloc_blocks\<close> and \<open>free_blocks\<close> are the first-fit
  allocator with coalescing that \<open>kmalloc\<close> and \<open>kfree\<close> promise.
\<close>

type_synonym block = "addr \<times> u64 \<times> bool"

section \<open>Chains of entries\<close>

definition hd_or :: "block list \<Rightarrow> addr \<Rightarrow> addr" where
  "hd_or bs n = (case bs of [] \<Rightarrow> n | b # _ \<Rightarrow> fst b)"

definition start_of :: "block list \<Rightarrow> nat \<Rightarrow> nat" where
  "start_of bs e = (case bs of [] \<Rightarrow> e | b # _ \<Rightarrow> unat (fst b))"

definition last_or :: "block list \<Rightarrow> addr \<Rightarrow> addr" where
  "last_or bs p = (if bs = [] then p else fst (last bs))"

fun seg :: "(addr \<Rightarrow> heap_entry) \<Rightarrow> addr \<Rightarrow> block list \<Rightarrow> addr \<Rightarrow> nat \<Rightarrow> bool" where
  "seg h p [] n e = True"
| "seg h p ((a, z, u) # bs) n e =
     (a \<noteq> 0 \<and> h a = \<lparr>he_size = z, he_used = u, he_last = p, he_next = hd_or bs n\<rparr> \<and>
      unat a + 32 + unat z = start_of bs e \<and> seg h a bs n e)"

lemma hd_or_simps [simp]:
  "hd_or [] n = n" "hd_or (b # bs) n = fst b" "hd_or (bs @ cs) n = hd_or bs (hd_or cs n)"
  by (auto simp: hd_or_def split: list.split)

lemma start_of_simps [simp]:
  "start_of [] e = e" "start_of (b # bs) e = unat (fst b)"
  "start_of (bs @ cs) e = start_of bs (start_of cs e)"
  by (auto simp: start_of_def split: list.split)

lemma last_or_simps [simp]:
  "last_or [] p = p" "last_or (b # bs) p = last_or bs (fst b)"
  "last_or (bs @ cs) p = last_or cs (last_or bs p)"
  by (auto simp: last_or_def)

lemma seg_append:
  "seg h p (xs @ ys) n e \<longleftrightarrow>
     seg h p xs (hd_or ys n) (start_of ys e) \<and> seg h (last_or xs p) ys n e"
proof (induction xs arbitrary: p)
  case (Cons b xs)
  then show ?case by (cases b) simp
qed simp

lemma seg_cong:
  assumes "\<And>b. b \<in> set bs \<Longrightarrow> h (fst b) = h' (fst b)"
  shows "seg h p bs n e = seg h' p bs n e"
  using assms
proof (induction bs arbitrary: p)
  case (Cons b bs)
  from Cons.IH [of "fst b"] Cons.prems have "seg h (fst b) bs n e = seg h' (fst b) bs n e"
    by (meson list.set_intros(2))
  moreover have "h (fst b) = h' (fst b)" using Cons.prems by (meson list.set_intros(1))
  ultimately show ?case by (cases b) simp
qed simp

lemma seg_start_le: "seg h p bs n e \<Longrightarrow> start_of bs e \<le> e"
proof (induction bs arbitrary: p)
  case (Cons b bs)
  then obtain a z u where b: "b = (a, z, u)" by (cases b)
  with Cons.prems Cons.IH [of a] show ?case by simp
qed simp

lemma seg_bounds_all:
  "seg h p bs n e \<Longrightarrow> (b, z, u) \<in> set bs \<Longrightarrow>
     start_of bs e \<le> unat b \<and> unat b + 32 + unat z \<le> e \<and> b \<noteq> 0"
proof (induction bs arbitrary: p)
  case (Cons c bs)
  obtain a y v where c: "c = (a, y, v)" by (cases c)
  with Cons.prems have s: "seg h a bs n e" "unat a + 32 + unat y = start_of bs e" "a \<noteq> 0" by simp_all
  show ?case
  proof (cases "(b, z, u) = c")
    case True
    then show ?thesis using s(2, 3) seg_start_le [OF s(1)] by (simp add: c)
  next
    case False
    then have "(b, z, u) \<in> set bs" using Cons.prems(2) by simp
    then show ?thesis using Cons.IH [OF s(1)] s(2) by (simp add: c)
  qed
qed simp

lemma seg_bounds:
  assumes "seg h p bs n e" "(b, z, u) \<in> set bs"
  shows "start_of bs e \<le> unat b" "unat b + 32 + unat z \<le> e" "b \<noteq> 0"
  using seg_bounds_all [OF assms] by simp_all

lemma seg_cong_below:
  assumes "seg h p bs n e" "\<And>x. unat x < e \<Longrightarrow> h' x = h x"
  shows "seg h' p bs n e"
proof (rule seg_cong [THEN iffD1, OF _ assms(1)])
  fix b assume "b \<in> set bs"
  then have "unat (fst b) < e"
    using seg_bounds(2) [OF assms(1), of "fst b" "fst (snd b)" "snd (snd b)"] by simp
  then show "h (fst b) = h' (fst b)" by (simp add: assms(2))
qed

lemma seg_cong_above:
  assumes "seg h p bs n e" "\<And>x. start_of bs e \<le> unat x \<Longrightarrow> h' x = h x"
  shows "seg h' p bs n e"
proof (rule seg_cong [THEN iffD1, OF _ assms(1)])
  fix b assume "b \<in> set bs"
  then have "start_of bs e \<le> unat (fst b)"
    using seg_bounds(1) [OF assms(1), of "fst b" "fst (snd b)" "snd (snd b)"] by simp
  then show "h (fst b) = h' (fst b)" by (simp add: assms(2))
qed

text \<open>The chain behind a changed entry, its first link turned back to \<open>q\<close>.\<close>

definition relink :: "(addr \<Rightarrow> heap_entry) \<Rightarrow> block list \<Rightarrow> addr \<Rightarrow> (addr \<Rightarrow> heap_entry)" where
  "relink h bs q = (case bs of [] \<Rightarrow> h | b # _ \<Rightarrow> h(fst b := (h (fst b))\<lparr>he_last := q\<rparr>))"

lemma relink_simps [simp]:
  "relink h [] q = h" "relink h (b # bs) q = h(fst b := (h (fst b))\<lparr>he_last := q\<rparr>)"
  by (simp_all add: relink_def)

lemma relink_below: "unat x < start_of bs e \<Longrightarrow> relink h bs q x = h x"
  by (cases bs) auto

lemma seg_relink:
  assumes "seg h p bs n e"
  shows "seg (relink h bs q) q bs n e"
proof (cases bs)
  case (Cons b cs)
  obtain a z u where b: "b = (a, z, u)" by (cases b)
  from assms have s: "seg h a cs n e" "unat a + 32 + unat z = start_of cs e" by (simp_all add: Cons b)
  then have "seg (h(a := (h a)\<lparr>he_last := q\<rparr>)) a cs n e"
    by (elim seg_cong_above) (auto simp: fun_upd_def)
  then show ?thesis using assms by (simp add: Cons b)
qed simp

lemma seg_tail_changed:
  assumes "seg h p ys n e" "\<And>x. start_of ys e \<le> unat x \<Longrightarrow> h' x = relink h ys q x"
  shows "seg h' q ys n e"
  using seg_cong_above [OF seg_relink [OF assms(1)]] assms(2) by blast

lemma hd_or_0: "seg h p bs 0 e \<Longrightarrow> hd_or bs 0 = 0 \<longleftrightarrow> bs = []"
  by (cases bs) auto

section \<open>Blocks of a state\<close>

definition heap_is :: "kmem \<Rightarrow> block list \<Rightarrow> bool" where
  "heap_is s bs \<longleftrightarrow> bs \<noteq> [] \<and> first_heap_entry s = fst (hd bs) \<and> kernel_heap_start s = fst (hd bs) \<and>
     last_heap_entry s = fst (last bs) \<and> 0x1000 \<le> unat (kernel_heap_start s) \<and>
     seg (headers s) 0 bs 0 (unat (kernel_heap_end s))"

lemma heap_isD:
  assumes "heap_is s bs"
  shows "bs \<noteq> []" "first_heap_entry s = hd_or bs 0" "kernel_heap_start s = hd_or bs 0"
    "last_heap_entry s = last_or bs 0" "0x1000 \<le> unat (kernel_heap_start s)"
    "seg (headers s) 0 bs 0 (unat (kernel_heap_end s))"
  using assms by (auto simp: heap_is_def hd_or_def last_or_def split: list.split)

lemma heap_isI:
  assumes "bs \<noteq> []" "first_heap_entry s = hd_or bs 0" "kernel_heap_start s = hd_or bs 0"
    "last_heap_entry s = last_or bs 0" "0x1000 \<le> unat (kernel_heap_start s)"
    "seg (headers s) 0 bs 0 (unat (kernel_heap_end s))"
  shows "heap_is s bs"
  using assms by (auto simp: heap_is_def hd_or_def last_or_def split: list.splits)

text \<open>The state seen from one of its blocks.\<close>

lemma heap_is_mid:
  assumes "heap_is s (xs @ (a, z, u) # ys)"
  shows "a \<noteq> 0" "headers s a = \<lparr>he_size = z, he_used = u, he_last = last_or xs 0, he_next = hd_or ys 0\<rparr>"
    "unat a + 32 + unat z = start_of ys (unat (kernel_heap_end s))"
    "seg (headers s) 0 xs a (unat a)" "seg (headers s) a ys 0 (unat (kernel_heap_end s))"
    "unat a + 32 + unat z \<le> unat (kernel_heap_end s)" "0x1000 \<le> unat a"
proof -
  note d = heap_isD [OF assms]
  from d(6) show g: "a \<noteq> 0"
    "headers s a = \<lparr>he_size = z, he_used = u, he_last = last_or xs 0, he_next = hd_or ys 0\<rparr>"
    "unat a + 32 + unat z = start_of ys (unat (kernel_heap_end s))"
    "seg (headers s) 0 xs a (unat a)" "seg (headers s) a ys 0 (unat (kernel_heap_end s))"
    by (simp_all add: seg_append)
  from seg_start_le [OF g(5)] g(3) show "unat a + 32 + unat z \<le> unat (kernel_heap_end s)" by simp
  from seg_start_le [OF g(4)] d(3, 5) show "0x1000 \<le> unat a" by (cases xs) auto
qed

section \<open>The walks along the links\<close>

lemma next_address:
  fixes a z b :: u64
  assumes "unat a + 32 + unat z = unat b"
  shows "he_memory a + z = b"
proof -
  have "of_nat (unat a + 32 + unat z) = (of_nat (unat b) :: u64)" using assms by simp
  then show ?thesis by (simp add: he_memory_def HDR_def)
qed

lemma check_forward_seg:
  "seg h p bs 0 e \<Longrightarrow> bs \<noteq> [] \<Longrightarrow> check_forward h (hd_or bs 0) = Some (Some (last_or bs p))"
proof (induction bs arbitrary: p)
  case (Cons b bs)
  obtain a z u where b: "b = (a, z, u)" by (cases b)
  from Cons.prems have s: "h a = \<lparr>he_size = z, he_used = u, he_last = p, he_next = hd_or bs 0\<rparr>"
    "unat a + 32 + unat z = start_of bs e" "seg h a bs 0 e" by (simp_all add: b)
  show ?case
  proof (cases bs)
    case Nil
    then show ?thesis by (subst check_forward.simps) (simp add: b s(1))
  next
    case (Cons c cs)
    then have "hd_or bs 0 \<noteq> 0" using hd_or_0 [OF s(3)] by simp
    moreover have "he_memory a + z = hd_or bs 0" using s(2) by (intro next_address) (simp add: Cons)
    ultimately have "check_forward h a = check_forward h (hd_or bs 0)"
      by (subst check_forward.simps) (simp add: s(1))
    then show ?thesis using Cons.IH [OF s(3)] by (simp add: b Cons)
  qed
qed simp

lemma check_backward_seg:
  "seg h 0 bs n e \<Longrightarrow> bs \<noteq> [] \<Longrightarrow> check_backward h (last_or bs 0) = Some (hd_or bs 0)"
proof (induction bs arbitrary: n e rule: rev_induct)
  case (snoc b bs)
  obtain a z u where b: "b = (a, z, u)" by (cases b)
  from snoc.prems have s: "h a = \<lparr>he_size = z, he_used = u, he_last = last_or bs 0, he_next = n\<rparr>"
    "seg h 0 bs a (unat a)" by (simp_all add: b seg_append)
  show ?case
  proof (cases "bs = []")
    case True
    then show ?thesis by (subst check_backward.simps) (simp add: b s(1))
  next
    case False
    then have "last_or bs 0 \<noteq> 0"
      using seg_bounds(3) [OF s(2), of "fst (last bs)" "fst (snd (last bs))" "snd (snd (last bs))"]
      by (simp add: last_or_def)
    then have "check_backward h a = check_backward h (last_or bs 0)"
      by (subst check_backward.simps) (simp add: s(1))
    moreover have "hd_or bs 0 = hd_or (bs @ [b]) 0" using False by (cases bs) auto
    ultimately show ?thesis using snoc.IH [OF s(2) False] by (simp add: b)
  qed
qed simp

text \<open>On a heap that is a list of blocks the kernel's own consistency check ends and
  answers \<open>true\<close>: both walks along the links stop, the one forwards at the last entry, the one
  backwards at the first.\<close>

theorem heap_consistency_check_holds:
  assumes "heap_is s bs"
  shows "heap_consistency_check s = Inr True"
proof -
  note d = heap_isD [OF assms]
  obtain xs b where bs: "bs = xs @ [b]" using d(1) by (cases bs rule: rev_cases) auto
  obtain a z u where b: "b = (a, z, u)" by (cases b)
  note m = heap_is_mid [OF assms [unfolded bs b]]
  have "he_memory a + z = kernel_heap_end s" using m(3) by (intro next_address) simp
  moreover have "last_heap_entry s = a" using d(4) by (simp add: bs b)
  moreover have "check_forward (headers s) (first_heap_entry s) = Some (Some (last_heap_entry s))"
    using check_forward_seg [OF d(6) d(1)] d(2, 4) by simp
  moreover have "check_backward (headers s) (last_heap_entry s) = Some (first_heap_entry s)"
    using check_backward_seg [OF d(6) d(1)] d(2, 4) by simp
  ultimately show ?thesis using d(2, 3) m(2)
    by (simp add: heap_consistency_check_def Let_def)
qed

definition fits :: "u64 \<Rightarrow> block \<Rightarrow> bool" where
  "fits sz b \<longleftrightarrow> \<not> snd (snd b) \<and> sz \<le> fst (snd b)"

lemma kmalloc_find_seg:
  "seg h p bs 0 e \<Longrightarrow> kmalloc_find h sz (hd_or bs 0) = Some (case find (fits sz) bs of None \<Rightarrow> 0 | Some b \<Rightarrow> fst b)"
proof (induction bs arbitrary: p)
  case Nil
  then show ?case by (subst kmalloc_find.simps) simp
next
  case (Cons b bs)
  obtain a z u where b: "b = (a, z, u)" by (cases b)
  from Cons.prems have s: "a \<noteq> 0" "h a = \<lparr>he_size = z, he_used = u, he_last = p, he_next = hd_or bs 0\<rparr>"
    "seg h a bs 0 e" by (simp_all add: b)
  then have "kmalloc_find h sz a = (if fits sz b then Some a else kmalloc_find h sz (hd_or bs 0))"
    by (subst kmalloc_find.simps) (simp add: b fits_def)
  then show ?case using Cons.IH [OF s(3)] by (simp add: b)
qed

section \<open>Replacing blocks\<close>

text \<open>
  The one step behind every change of the heap: the blocks \<open>os\<close> become the blocks \<open>ms\<close> at
  the same place, entries below stay, the entry behind is linked back to the last of \<open>ms\<close>.
\<close>

lemma heap_is_replace:
  assumes h: "heap_is s (xs @ os @ ys)" and ne: "os \<noteq> []" "ms \<noteq> []" "hd_or ms 0 = hd_or os 0"
    and same: "kernel_heap_start s' = kernel_heap_start s" "first_heap_entry s' = first_heap_entry s"
      "kernel_heap_end s' = kernel_heap_end s"
    and below: "\<And>x. unat x < unat (hd_or os 0) \<Longrightarrow> headers s' x = headers s x"
    and above: "\<And>x. start_of ys (unat (kernel_heap_end s)) \<le> unat x \<Longrightarrow>
        headers s' x = relink (headers s) ys (last_or ms 0) x"
    and mid: "seg (headers s') (last_or xs 0) ms (hd_or ys 0) (start_of ys (unat (kernel_heap_end s)))"
    and lst: "last_heap_entry s' = last_or (ms @ ys) 0"
  shows "heap_is s' (xs @ ms @ ys)"
proof (rule heap_isI)
  note d = heap_isD [OF h]
  obtain b bs where os: "os = b # bs" using ne(1) by (cases os) auto
  obtain c cs where ms: "ms = c # cs" using ne(2) by (cases ms) auto
  have c: "fst c = fst b" using ne(3) by (simp add: os ms)
  have seg: "seg (headers s) 0 xs (fst b) (unat (fst b))"
      "seg (headers s) (last_or bs (fst b)) ys 0 (unat (kernel_heap_end s))"
    using d(6) by (simp_all add: os seg_append flip: append_Cons)
  show "xs @ ms @ ys \<noteq> []" using ne by simp
  show "first_heap_entry s' = hd_or (xs @ ms @ ys) 0" "kernel_heap_start s' = hd_or (xs @ ms @ ys) 0"
    using d(2, 3) same c by (simp_all add: os ms)
  show "last_heap_entry s' = last_or (xs @ ms @ ys) 0"
    using lst by (simp add: ms)
  show "0x1000 \<le> unat (kernel_heap_start s')" using d(5) same by simp
  have "seg (headers s') 0 xs (fst b) (unat (fst b))"
    using seg(1) below by (rule seg_cong_below) (simp add: os)
  moreover have "seg (headers s') (last_or cs (fst c)) ys 0 (unat (kernel_heap_end s))"
    by (rule seg_tail_changed [OF seg(2)]) (use above in \<open>simp add: ms\<close>)
  ultimately show "seg (headers s') 0 (xs @ ms @ ys) 0 (unat (kernel_heap_end s'))"
    using mid same c by (simp add: seg_append ms flip: append_Cons)
qed

lemma relink_same: "seg h q ys n e \<Longrightarrow> relink h ys q = h"
  by (cases ys) auto

lemma link_back_headers:
  assumes "seg h p ys 0 e" "ys \<noteq> []"
  shows "headers (link_back (hd_or ys 0) n s) = relink (headers s) ys n"
    "last_heap_entry (link_back (hd_or ys 0) n s) = last_heap_entry s"
  using assms by (cases ys; auto simp: link_back_def upd_header_def)+

lemma link_back_eq:
  assumes "seg h p ys 0 e"
  shows "link_back (hd_or ys 0) n s =
    s\<lparr>headers := relink (headers s) ys n, last_heap_entry := (if ys = [] then n else last_heap_entry s)\<rparr>"
  using assms by (cases ys) (auto simp: link_back_def upd_header_def)

lemma set_used_blocks:
  assumes "heap_is s (xs @ (a, z, u) # ys)"
  shows "heap_is (upd_header a (\<lambda>e. e\<lparr>he_used := v\<rparr>) s) (xs @ (a, z, v) # ys)"
proof -
  note m = heap_is_mid [OF assms]
  have "heap_is (upd_header a (\<lambda>e. e\<lparr>he_used := v\<rparr>) s) (xs @ [(a, z, v)] @ ys)"
  proof (rule heap_is_replace [of s xs "[(a, z, u)]"])
    show "last_heap_entry (upd_header a (\<lambda>e. e\<lparr>he_used := v\<rparr>) s) = last_or ([(a, z, v)] @ ys) 0"
      using heap_isD(4) [OF assms] by (simp add: upd_header_def)
    show "headers (upd_header a (\<lambda>e. e\<lparr>he_used := v\<rparr>) s) x = relink (headers s) ys (last_or [(a, z, v)] 0) x"
      if "start_of ys (unat (kernel_heap_end s)) \<le> unat x" for x
      using that m(3) relink_same [OF m(5)] by (auto simp: upd_header_def)
  qed (use assms m in \<open>auto simp: upd_header_def\<close>)
  then show ?thesis by simp
qed

lemma split_entry_blocks:
  assumes "heap_is s (xs @ (a, z, u) # ys)" and fit: "unat sz + 32 \<le> unat z"
  shows "heap_is (split_entry a sz s) (xs @ (a, sz, u) # (a + 32 + sz, z - (sz + 32), False) # ys)"
proof -
  note m = heap_is_mid [OF assms(1)]
  define new where "new = a + 32 + sz"
  have n: "unat new = unat a + 32 + unat sz"
    using m(6) fit unat_u64_less [of "kernel_heap_end s"] unfolding new_def
    by (simp add: unat_add_no_wrap del: unat_u64_less)
  have le: "sz + 32 \<le> z" and sz: "unat (sz + 32) = unat sz + 32"
    using fit unat_u64_less [of z] by (simp_all add: word_le_nat_alt unat_add_no_wrap del: unat_u64_less)
  have z: "unat (z - (sz + 32)) = unat z - (unat sz + 32)"
    using le sz by (simp add: unat_sub_no_wrap)
  define h1 where "h1 = (headers s)(new := \<lparr>he_size = z - (sz + 32), he_used = False, he_last = a, he_next = hd_or ys 0\<rparr>,
    a := \<lparr>he_size = sz, he_used = u, he_last = last_or xs 0, he_next = hd_or ys 0\<rparr>)"
  have na: "a \<noteq> new" using n by auto
  have hdr: "headers (split_entry a sz s) = (relink h1 ys new)(a := (relink h1 ys new a)\<lparr>he_next := new\<rparr>)"
    and lst: "last_heap_entry (split_entry a sz s) = (if ys = [] then new else last_heap_entry s)"
    and rest: "kernel_heap_start (split_entry a sz s) = kernel_heap_start s"
      "first_heap_entry (split_entry a sz s) = first_heap_entry s"
      "kernel_heap_end (split_entry a sz s) = kernel_heap_end s"
    using na by (simp_all add: split_entry_def Let_def upd_header_def he_memory_def HDR_def m(2)
        link_back_eq [OF m(5)] h1_def new_def [symmetric] fun_upd_twist)
  have low: "relink h1 ys new x = h1 x" if "unat x < unat a + 32 + unat z" for x
    using that m(3) by (intro relink_below [of _ _ "unat (kernel_heap_end s)"]) simp
  have high: "relink h1 ys new x = relink (headers s) ys new x" if "unat a + 32 + unat z \<le> unat x" for x
  proof -
    have "x \<noteq> a" "x \<noteq> new" using that n fit by auto
    moreover have "fst (hd ys) \<noteq> a" "fst (hd ys) \<noteq> new" if "ys \<noteq> []"
      using that m(3) n fit by (cases ys; auto)+
    ultimately show ?thesis by (cases ys) (auto simp: h1_def)
  qed
  have "heap_is (split_entry a sz s) (xs @ [(a, sz, u), (new, z - (sz + 32), False)] @ ys)"
  proof (rule heap_is_replace [of s xs "[(a, z, u)]"])
    show "headers (split_entry a sz s) x = headers s x" if "unat x < unat (hd_or [(a, z, u)] 0)" for x
      using that low [of x] n by (auto simp: hdr h1_def)
    show "headers (split_entry a sz s) x = relink (headers s) ys (last_or [(a, sz, u), (new, z - (sz + 32), False)] 0) x"
      if "start_of ys (unat (kernel_heap_end s)) \<le> unat x" for x
      using that high [of x] m(3) by (auto simp: hdr)
    show "seg (headers (split_entry a sz s)) (last_or xs 0) [(a, sz, u), (new, z - (sz + 32), False)]
        (hd_or ys 0) (start_of ys (unat (kernel_heap_end s)))"
      using low [of a] low [of new] n z fit m(1, 3) na by (auto simp: hdr h1_def)
    show "last_heap_entry (split_entry a sz s) = last_or ([(a, sz, u), (new, z - (sz + 32), False)] @ ys) 0"
      using heap_isD(4) [OF assms(1)] by (cases ys) (simp_all add: lst)
  qed (use assms rest in simp_all)
  then show ?thesis by (simp add: new_def)
qed

lemma merged_blocks:
  assumes h: "heap_is s (xs @ (a, z, u) # (b, y, v) # ys)"
    and hdr: "headers s' = (relink (headers s) ys a)
      (a := \<lparr>he_size = z + (32 + y), he_used = u, he_last = last_or xs 0, he_next = hd_or ys 0\<rparr>)"
    and lst: "last_heap_entry s' = (if ys = [] then a else last_heap_entry s)"
    and same: "kernel_heap_start s' = kernel_heap_start s" "first_heap_entry s' = first_heap_entry s"
      "kernel_heap_end s' = kernel_heap_end s"
  shows "heap_is s' (xs @ (a, z + (32 + y), u) # ys)"
proof -
  note m = heap_is_mid [OF h]
  from h have "heap_is s ((xs @ [(a, z, u)]) @ (b, y, v) # ys)" by simp
  note m2 = heap_is_mid [OF this]
  have z: "unat (z + (32 + y)) = unat z + (32 + unat y)"
    using m(3) m2(6) unat_u64_less [of "kernel_heap_end s"]
    by (simp add: unat_add_no_wrap del: unat_u64_less)
  have "heap_is s' (xs @ [(a, z + (32 + y), u)] @ ys)"
  proof (rule heap_is_replace [of s xs "[(a, z, u), (b, y, v)]"])
    show "headers s' x = headers s x" if "unat x < unat (hd_or [(a, z, u), (b, y, v)] 0)" for x
    proof -
      have "x \<noteq> a" "unat x < start_of ys (unat (kernel_heap_end s))" using that m(3) m2(3) by auto
      then show ?thesis by (simp add: hdr relink_below)
    qed
    show "headers s' x = relink (headers s) ys (last_or [(a, z + (32 + y), u)] 0) x"
      if "start_of ys (unat (kernel_heap_end s)) \<le> unat x" for x
    proof -
      have "x \<noteq> a" using that m(3) m2(3) by auto
      then show ?thesis by (simp add: hdr)
    qed
    show "last_heap_entry s' = last_or ([(a, z + (32 + y), u)] @ ys) 0"
      using heap_isD(4) [OF h] by (cases ys) (simp_all add: lst)
    show "seg (headers s') (last_or xs 0) [(a, z + (32 + y), u)] (hd_or ys 0) (start_of ys (unat (kernel_heap_end s)))"
      using m(1, 3) m2(3) z by (simp add: hdr)
  qed (use h same in simp_all)
  then show ?thesis by simp
qed

text \<open>\<open>kfree\<close> joins the freed entry with a free neighbour on either side.\<close>

fun join_next :: "addr \<Rightarrow> u64 \<Rightarrow> block list \<Rightarrow> block list" where
  "join_next a z ((b, y, False) # ys) = (a, z + (32 + y), False) # ys"
| "join_next a z ys = (a, z, False) # ys"

definition free_blocks :: "block list \<Rightarrow> addr \<Rightarrow> u64 \<Rightarrow> block list \<Rightarrow> block list" where
  "free_blocks xs a z ys =
     (if xs \<noteq> [] \<and> \<not> snd (snd (last xs))
      then butlast xs @ join_next (fst (last xs)) (fst (snd (last xs)) + (32 + z)) ys
      else xs @ join_next a z ys)"

lemma kfree_merge_next_blocks:
  assumes h: "heap_is s (xs @ (a, z, False) # ys)"
  shows "heap_is (kfree_merge_next a s) (xs @ join_next a z ys)"
proof (cases ys)
  case Nil
  then show ?thesis using assms heap_is_mid(2) [OF assms] by (simp add: kfree_merge_next_def Let_def)
next
  case (Cons c ys')
  obtain b y v where c: "c = (b, y, v)" by (cases c)
  note m = heap_is_mid [OF h]
  from h have "heap_is s ((xs @ [(a, z, False)]) @ (b, y, v) # ys')" by (simp add: Cons c)
  note m2 = heap_is_mid [OF this]
  have adj: "he_memory a + z = b" using m(3) by (intro next_address) (simp add: Cons c)
  show ?thesis
  proof (cases v)
    case True
    then show ?thesis using h m(2) m2(1, 2) by (simp add: kfree_merge_next_def Let_def Cons c)
  next
    case False
    have ab: "a \<noteq> b" using m(3) by (auto simp: Cons c)
    have "heap_is (kfree_merge_next a s) (xs @ (a, z + (32 + y), False) # ys')"
    proof (rule merged_blocks)
      show "heap_is s (xs @ (a, z, False) # (b, y, v) # ys')" using h by (simp add: Cons c)
      have rl: "relink (h(a := e)) ys' a = (relink h ys' a)(a := e)" for h e
        using m(3) m2(3) by (cases ys') (auto simp: Cons c fun_upd_twist)
      have "kfree_merge_next a s = link_back (hd_or ys' 0) a (s\<lparr>headers := (headers s)
          (a := \<lparr>he_size = z + (32 + y), he_used = False, he_last = last_or xs 0, he_next = hd_or ys' 0\<rparr>)\<rparr>)"
        using m(2) m2(1, 2) adj ab False
        by (simp add: kfree_merge_next_def Let_def upd_header_def Cons c HDR_def)
      then show "headers (kfree_merge_next a s) = (relink (headers s) ys' a)
          (a := \<lparr>he_size = z + (32 + y), he_used = False, he_last = last_or xs 0, he_next = hd_or ys' 0\<rparr>)"
        "last_heap_entry (kfree_merge_next a s) = (if ys' = [] then a else last_heap_entry s)"
        "kernel_heap_start (kfree_merge_next a s) = kernel_heap_start s"
        "first_heap_entry (kfree_merge_next a s) = first_heap_entry s"
        "kernel_heap_end (kfree_merge_next a s) = kernel_heap_end s"
        by (simp_all add: link_back_eq [OF m2(5)] rl)
    qed
    then show ?thesis using False by (simp add: Cons c)
  qed
qed

text \<open>Nothing but the entries and the pointer to the last of them differs.\<close>

definition entries_only :: "kmem \<Rightarrow> kmem \<Rightarrow> bool" where
  "entries_only s s' \<longleftrightarrow> s' = s\<lparr>headers := headers s', last_heap_entry := last_heap_entry s'\<rparr>"

lemma entries_only_refl: "entries_only s s"
  by (simp add: entries_only_def)

lemma entries_only_trans: "entries_only s t \<Longrightarrow> entries_only t r \<Longrightarrow> entries_only s r"
  unfolding entries_only_def by (cases s; cases t; cases r) simp

lemma entries_only_upd: "entries_only s (upd_header a f s)"
  by (simp add: entries_only_def upd_header_def)

lemma entries_only_link: "entries_only s (link_back n a s)"
  by (simp add: entries_only_def link_back_def upd_header_def)

lemma entries_only_split: "entries_only s (split_entry a sz s)"
  unfolding split_entry_def Let_def
  by (meson entries_only_trans entries_only_upd entries_only_link)

lemma entries_only_merge_next: "entries_only s (kfree_merge_next a s)"
  unfolding kfree_merge_next_def Let_def
  by (simp, meson entries_only_refl entries_only_trans entries_only_upd entries_only_link)

lemma entries_only_merge_last: "entries_only s (snd (kfree_merge_last a s))"
  unfolding kfree_merge_last_def Let_def
  by (simp, meson entries_only_refl entries_only_trans entries_only_upd entries_only_link)

lemma kfree_merge_last_blocks:
  assumes h: "heap_is s (xs @ (a, z, False) # ys)" and r: "kfree_merge_last a s = (a', s')"
  shows "\<exists>xs' z'. heap_is s' (xs' @ (a', z', False) # ys) \<and> free_blocks xs a z ys = xs' @ join_next a' z' ys"
proof (cases xs rule: rev_cases)
  case Nil
  then have "a' = a" "s' = s" "free_blocks xs a z ys = [] @ join_next a z ys"
    using r heap_is_mid(2) [OF h] by (auto simp: kfree_merge_last_def Let_def free_blocks_def)
  then show ?thesis using h Nil by blast
next
  case (snoc xs' c)
  obtain l y v where c: "c = (l, y, v)" by (cases c)
  note m = heap_is_mid [OF h]
  from h have hl: "heap_is s (xs' @ (l, y, v) # (a, z, False) # ys)" by (simp add: snoc c)
  note ml = heap_is_mid [OF hl]
  have adj: "he_memory l + y = a" using ml(3) by (intro next_address) simp
  show ?thesis
  proof (cases v)
    case True
    then have "kfree_merge_last a s = (a, s)" using m(2) ml(2) by (simp add: kfree_merge_last_def Let_def snoc c)
    then have "a' = a" "s' = s" "free_blocks xs a z ys = xs @ join_next a z ys"
      using r True by (simp_all add: free_blocks_def snoc c)
    then show ?thesis using h by blast
  next
    case False
    have la: "l \<noteq> a" using ml(3) by auto
    have rl: "relink (h(l := e)) ys l = (relink h ys l)(l := e)" for h e
      using m(3) ml(3) by (cases ys) (auto simp: fun_upd_twist)
    have at: "relink h ys l l = h l" for h
      using m(3) ml(3) by (intro relink_below [of _ _ "unat (kernel_heap_end s)"]) simp
    have r2: "kfree_merge_last a s = (l, upd_header l (\<lambda>el. el\<lparr>he_next := hd_or ys 0\<rparr>)
        (link_back (hd_or ys 0) l (upd_header l (\<lambda>el. el\<lparr>he_size := he_size el + (HDR + z)\<rparr>) s)))"
      using m(2) ml(1, 2) adj la False by (simp add: kfree_merge_last_def Let_def snoc c)
    have "heap_is s' (xs' @ (l, y + (32 + z), False) # ys)"
    proof (rule merged_blocks)
      show "heap_is s (xs' @ (l, y, False) # (a, z, False) # ys)" using hl False by simp
      show "headers s' = (relink (headers s) ys l)
          (l := \<lparr>he_size = y + (32 + z), he_used = False, he_last = last_or xs' 0, he_next = hd_or ys 0\<rparr>)"
        "last_heap_entry s' = (if ys = [] then l else last_heap_entry s)"
        "kernel_heap_start s' = kernel_heap_start s" "first_heap_entry s' = first_heap_entry s"
        "kernel_heap_end s' = kernel_heap_end s"
        using r r2 ml(2) False by (auto simp: upd_header_def link_back_eq [OF m(5)] rl at HDR_def)
    qed
    moreover have "a' = l" using r r2 by simp
    moreover have "free_blocks xs a z ys = xs' @ join_next l (y + (32 + z)) ys"
      using False by (simp add: free_blocks_def snoc c)
    ultimately show ?thesis by blast
  qed
qed

section \<open>kfree\<close>

lemma heap_is_mutexes [simp]: "heap_is (s\<lparr>mutexes := m\<rparr>) bs = heap_is s bs"
  by (simp add: heap_is_def)

lemma entries_only_fields:
  assumes "entries_only s s'"
  shows "mutexes s' = mutexes s" "kernel_heap_start s' = kernel_heap_start s"
    "kernel_heap_end s' = kernel_heap_end s"
  by (subst assms [unfolded entries_only_def], simp)+

text \<open>Taking the mutex, changing entries and releasing it changes entries only.\<close>

lemma entries_only_locked:
  assumes "\<not> held i s"
    and "entries_only (s\<lparr>mutexes := (mutexes s)(i := (mutexes s i)\<lparr>locked := True\<rparr>)\<rparr>) t"
  shows "\<exists>s'. kunlock i t = Inr s' \<and> entries_only s s' \<and> (\<forall>bs. heap_is s' bs = heap_is t bs)"
proof -
  have m: "mutexes t = (mutexes s)(i := (mutexes s i)\<lparr>locked := True\<rparr>)"
    using entries_only_fields(1) [OF assms(2)] by simp
  have "kunlock i t = Inr (t\<lparr>mutexes := mutexes s\<rparr>)"
    using relock_state [OF assms(1)] by (simp add: kunlock_eq m)
  moreover have "entries_only s (t\<lparr>mutexes := mutexes s\<rparr>)"
    using assms(2) unfolding entries_only_def by (cases s; cases t) simp
  ultimately show ?thesis by simp
qed

definition stays :: "kmem \<Rightarrow> block list \<Rightarrow> bool" where
  "stays s bs \<longleftrightarrow> snd (snd (last bs)) \<or> length bs = 1 \<or>
     ALIGN_UP (he_memory (fst (last bs)) + MAX_ALIGN) 0x1000 = kernel_heap_end s"

lemma join_next_cases:
  obtains y where "join_next a z ys = (a, y, False) # tl ys" | "join_next a z ys = (a, z, False) # ys"
  by (cases "(a, z, ys)" rule: join_next.cases) auto

lemma kfree_shrink_stays:
  assumes h: "heap_is s bs" and bs: "bs = xs @ join_next a z ys" and st: "stays s bs"
  shows "kfree_shrink a s = Inr s"
proof -
  obtain y ws where j: "join_next a z ys = (a, y, False) # ws" by (rule join_next_cases)
  note m = heap_is_mid [OF h [unfolded bs j]]
  have "he_next (headers s a) = 0 \<longleftrightarrow> ws = []" using m(2) hd_or_0 [OF m(5)] by simp
  moreover have "he_last (headers s a) = 0" if "xs = []" using that m(2) by simp
  moreover have "xs = [] \<or> ALIGN_UP (he_memory a + MAX_ALIGN) 0x1000 = kernel_heap_end s" if "ws = []"
    using st that by (simp add: stays_def bs j)
  ultimately show ?thesis by (auto simp: kfree_shrink_def Let_def)
qed

lemma kfree_refines:
  assumes h: "heap_is s (xs @ (a, z, True) # ys)" and nh: "\<not> held Heap_Mutex s"
    and st: "stays s (free_blocks xs a z ys)"
  shows "\<exists>s'. kfree (he_memory a) s = Inr s' \<and> heap_is s' (free_blocks xs a z ys) \<and> entries_only s s'"
proof -
  define t where "t = s\<lparr>mutexes := (mutexes s)(Heap_Mutex := (mutexes s Heap_Mutex)\<lparr>locked := True\<rparr>)\<rparr>"
  define t1 where "t1 = upd_header a (\<lambda>e. e\<lparr>he_used := False\<rparr>) t"
  obtain a' t2 where ml: "kfree_merge_last a t1 = (a', t2)" by (cases "kfree_merge_last a t1")
  define t3 where "t3 = kfree_merge_next a' t2"
  have "heap_is t1 (xs @ (a, z, False) # ys)"
    unfolding t1_def by (rule set_used_blocks [of _ _ _ _ True]) (simp add: t_def h)
  from kfree_merge_last_blocks [OF this ml] obtain xs' z'
    where 2: "heap_is t2 (xs' @ (a', z', False) # ys)" "free_blocks xs a z ys = xs' @ join_next a' z' ys"
    by blast
  have h3: "heap_is t3 (free_blocks xs a z ys)"
    unfolding t3_def 2(2) by (rule kfree_merge_next_blocks [OF 2(1)])
  have eo: "entries_only t t3"
    using entries_only_upd [of t a] entries_only_merge_last [of t1 a] entries_only_merge_next [of t2 a']
    by (metis t1_def t3_def ml snd_conv entries_only_trans)
  have "stays t3 (free_blocks xs a z ys)"
    using st entries_only_fields(3) [OF eo] by (simp add: stays_def t_def)
  from kfree_shrink_stays [OF h3 2(2) this] have "kfree_shrink a' t3 = Inr t3" .
  moreover have "he_memory a - HDR = a" by (simp add: he_memory_def)
  ultimately have "kfree (he_memory a) s = kunlock Heap_Mutex t3"
    using nh ml by (simp add: kfree_def klock_eq Let_def flip: t_def t1_def t3_def)
  with entries_only_locked [OF nh eo [unfolded t_def]] h3 show ?thesis by auto
qed

text \<open>C4. \<open>kfree\<close> of a block in use coalesces: on a heap that is the list of blocks
  \<open>xs, (a, z), ys\<close> it returns with a heap that is the list in which the block is free and joined
  with a free block directly before or behind it. Only entries change and the mutex is released.
  (The last block of the heap is trimmed when it does not end flush; this is the case without.)\<close>

theorem kfree_coalesces:
  assumes h: "heap_is s (xs @ (a, z, True) # ys)" and nh: "\<not> held Heap_Mutex s"
    and st: "stays s (free_blocks xs a z ys)"
  shows "\<exists>s'. kfree (he_memory a) s = Inr s' \<and> heap_is s' (free_blocks xs a z ys) \<and> entries_only s s'"
  by (rule kfree_refines [OF h nh st])

section \<open>kmalloc\<close>

text \<open>First fit: the first free block that is large enough, cut when enough is left over.\<close>

definition carve :: "u64 \<Rightarrow> addr \<Rightarrow> u64 \<Rightarrow> block list" where
  "carve sz a z =
     (if sz + 64 < z then [(a, sz, True), (a + 32 + sz, z - (sz + 32), False)] else [(a, z, True)])"

fun alloc_blocks :: "u64 \<Rightarrow> block list \<Rightarrow> (addr \<times> block list) option" where
  "alloc_blocks sz [] = None"
| "alloc_blocks sz (b # bs) =
     (if fits sz b then Some (he_memory (fst b), carve sz (fst b) (fst (snd b)) @ bs)
      else map_option (\<lambda>(r, bs). (r, b # bs)) (alloc_blocks sz bs))"

lemma alloc_blocks_SomeE:
  assumes "alloc_blocks sz bs = Some (r, bs')"
  obtains xs a z ys where "bs = xs @ (a, z, False) # ys" "sz \<le> z" "r = he_memory a"
    "bs' = xs @ carve sz a z @ ys" "find (fits sz) bs = Some (a, z, False)"
  using assms
proof (induction bs arbitrary: bs' thesis)
  case (Cons b bs)
  obtain a z u where b: "b = (a, z, u)" by (cases b)
  show ?case
  proof (cases "fits sz b")
    case True
    with Cons.prems show ?thesis by (intro Cons.prems(1) [of "[]" a z bs]) (auto simp: b fits_def)
  next
    case False
    with Cons.prems(2) obtain cs where cs: "alloc_blocks sz bs = Some (r, cs)" "bs' = b # cs" by auto
    from Cons.IH [OF _ cs(1)] obtain xs a z ys where "bs = xs @ (a, z, False) # ys" "sz \<le> z"
      "r = he_memory a" "cs = xs @ carve sz a z @ ys" "find (fits sz) bs = Some (a, z, False)" by blast
    then show ?thesis using False cs(2) by (intro Cons.prems(1) [of "b # xs" a z ys]) auto
  qed
qed simp

lemma alloc_blocks_None: "alloc_blocks sz bs = None \<longleftrightarrow> find (fits sz) bs = None"
  by (induction bs) auto

lemma take_entry_blocks:
  assumes h: "heap_is s (xs @ (a, z, False) # ys)" and le: "sz \<le> z"
  shows "heap_is (take_entry sz a s) (xs @ carve sz a z @ ys)"
proof -
  define t where "t = upd_header a (\<lambda>e. e\<lparr>he_used := True\<rparr>) s"
  have ht: "heap_is t (xs @ (a, z, True) # ys)" unfolding t_def by (rule set_used_blocks [OF h])
  note m = heap_is_mid [OF ht]
  have "unat sz \<le> unat z" using le by (simp add: word_le_nat_alt)
  then have "unat sz + 64 < 2 ^ 64"
    using m(6, 7) unat_u64_less [of "kernel_heap_end t"] by (simp del: unat_u64_less)
  then have "unat (sz + 64) = unat sz + 64" by (simp add: unat_add_no_wrap)
  then have fit: "unat sz + 32 \<le> unat z" if "sz + 64 < z" using that by (simp add: word_less_nat_alt)
  have "take_entry sz a s = (if sz + 64 < z then split_entry a sz t else t)"
    using m(2) by (simp add: take_entry_def HDR_def MAX_ALIGN_def add.assoc flip: t_def)
  then show ?thesis using split_entry_blocks [OF ht fit] ht by (simp add: carve_def)
qed

lemma entries_only_take: "entries_only s (take_entry sz a s)"
  unfolding take_entry_def Let_def by (simp, meson entries_only_trans entries_only_upd entries_only_split)

lemma kmalloc_refines:
  assumes h: "heap_is s bs" and nh: "\<not> held Heap_Mutex s"
    and al: "alloc_blocks (ALIGN_UP sz 16) bs = Some (r, bs')"
  shows "\<exists>s'. kmalloc sz s = Inr (r, s') \<and> heap_is s' bs' \<and> entries_only s s'"
proof -
  define t where "t = s\<lparr>mutexes := (mutexes s)(Heap_Mutex := (mutexes s Heap_Mutex)\<lparr>locked := True\<rparr>)\<rparr>"
  obtain xs a z ys where bs: "bs = xs @ (a, z, False) # ys" "ALIGN_UP sz 16 \<le> z" "r = he_memory a"
    "bs' = xs @ carve (ALIGN_UP sz 16) a z @ ys" "find (fits (ALIGN_UP sz 16)) bs = Some (a, z, False)"
    using al by (rule alloc_blocks_SomeE)
  have ht: "heap_is t (xs @ (a, z, False) # ys)" using h by (simp add: t_def bs(1))
  note d = heap_isD [OF h] and m = heap_is_mid [OF ht]
  have f: "kmalloc_find (headers t) (ALIGN_UP sz 16) (first_heap_entry s) = Some a"
    using kmalloc_find_seg [OF d(6), of "ALIGN_UP sz 16"] d(2) bs(5) by (simp add: t_def)
  have "kmalloc sz s = bindR (kunlock Heap_Mutex (take_entry (ALIGN_UP sz 16) a t)) (\<lambda>t. Inr (r, t))"
    using nh m(1) f by (simp add: kmalloc_def klock_eq bs(3) Let_def flip: t_def)
  with entries_only_locked [OF nh, of "take_entry (ALIGN_UP sz 16) a t"] entries_only_take [of t]
    take_entry_blocks [OF ht bs(2)]
  show ?thesis by (auto simp: bs(4) simp flip: t_def)
qed

text \<open>C2. \<open>kmalloc\<close> is first fit: when a free block holds the request (rounded up to 16), it
  returns the memory of the first such block, the heap becomes the list in which that block is
  in use, cut behind the request when more than an entry and a unit are left, and nothing but
  entries changes; the mutex is released.\<close>

theorem kmalloc_first_fit:
  assumes h: "heap_is s bs" and nh: "\<not> held Heap_Mutex s"
    and al: "alloc_blocks (ALIGN_UP sz 16) bs = Some (r, bs')"
  shows "\<exists>s'. kmalloc sz s = Inr (r, s') \<and> heap_is s' bs' \<and> entries_only s s'"
  by (rule kmalloc_refines [OF h nh al])

section \<open>What callers rely on\<close>

lemma ALIGN_UP_16_nat:
  assumes "unat sz \<le> 2 ^ 64 - 16" "sz \<noteq> 0"
  shows "unat (ALIGN_UP sz 16) = (unat sz - 1) - (unat sz - 1) mod 16 + 16"
proof -
  have m: "(15 :: u64) = mask 4" by (simp add: mask_eq_exp_minus_1)
  have d: "unat (ALIGN_DOWN (sz - 1) 16) = (unat sz - 1) - (unat sz - 1) mod 16"
    using assms(2) by (simp add: ALIGN_DOWN_def m unat_and_not_mask unat_minus_one)
  moreover have "unat sz \<noteq> 0" using assms(2) by (simp add: unat_eq_0)
  ultimately show ?thesis using assms(1)
    unfolding ALIGN_UP_def by (subst unat_add_no_wrap) auto
qed

lemma ALIGN_UP_16_0 [simp]: "ALIGN_UP 0 16 = 0"
  by (simp add: ALIGN_UP_def ALIGN_DOWN_def)

lemma ALIGN_UP_16:
  assumes "unat sz \<le> 2 ^ 64 - 16"
  shows "unat sz \<le> unat (ALIGN_UP sz 16)" "unat (ALIGN_UP sz 16) < unat sz + 16" "16 dvd unat (ALIGN_UP sz 16)"
proof -
  have round: "n \<le> n - 1 - (n - 1) mod 16 + 16 \<and> n - 1 - (n - 1) mod 16 + 16 < n + 16 \<and>
      16 dvd (n - 1 - (n - 1) mod 16 + 16)" if "n \<noteq> 0" for n :: nat
  proof -
    define q r where "q = (n - 1) div 16" and "r = (n - 1) mod 16"
    have "n - 1 = 16 * q + r" "r < 16" by (simp_all add: q_def r_def)
    then have "n - 1 - r = 16 * q" "n = 16 * q + r + 1" using that by simp_all
    then show ?thesis using \<open>r < 16\<close> by (simp flip: r_def)
  qed
  have "unat sz \<le> unat (ALIGN_UP sz 16) \<and> unat (ALIGN_UP sz 16) < unat sz + 16 \<and> 16 dvd unat (ALIGN_UP sz 16)"
  proof (cases "sz = 0")
    case False
    then show ?thesis using round [of "unat sz"] by (simp add: ALIGN_UP_16_nat [OF assms] unat_eq_0)
  qed simp
  then show "unat sz \<le> unat (ALIGN_UP sz 16)" "unat (ALIGN_UP sz 16) < unat sz + 16" "16 dvd unat (ALIGN_UP sz 16)"
    by simp_all
qed

text \<open>Two blocks of a heap do not overlap.\<close>

lemma seg_ordered:
  assumes "seg h p (xs @ (a, z, u) # ys) n e"
  shows "(b, y, v) \<in> set xs \<Longrightarrow> unat b + 32 + unat y \<le> unat a"
    and "(b, y, v) \<in> set ys \<Longrightarrow> unat a + 32 + unat z \<le> unat b"
proof -
  from assms have s: "seg h p xs a (unat a)" "seg h a ys n e" "unat a + 32 + unat z = start_of ys e"
    by (simp_all add: seg_append)
  show "unat b + 32 + unat y \<le> unat a" if "(b, y, v) \<in> set xs" using seg_bounds(2) [OF s(1) that] .
  show "unat a + 32 + unat z \<le> unat b" if "(b, y, v) \<in> set ys" using seg_bounds(1) [OF s(2) that] s(3) by simp
qed

text \<open>The block an allocation hands out: long enough, inside the heap, and clear of every block in use.\<close>

lemma alloc_blocks_fresh:
  assumes h: "heap_is s bs" and sz: "unat sz \<le> 2 ^ 64 - 16" and al: "alloc_blocks (ALIGN_UP sz 16) bs = Some (r, bs')"
  shows "\<exists>a z. r = he_memory a \<and> (a, z, True) \<in> set bs' \<and> unat sz \<le> unat z \<and>
    unat a + 32 + unat z \<le> unat (kernel_heap_end s) \<and>
    (\<forall>b y. (b, y, True) \<in> set bs \<longrightarrow> (b, y, True) \<in> set bs' \<and>
      (unat b + 32 + unat y \<le> unat a \<or> unat a + 32 + unat z \<le> unat b))"
proof -
  define n where "n = ALIGN_UP sz 16"
  obtain xs a z ys where d: "bs = xs @ (a, z, False) # ys" "n \<le> z" "r = he_memory a"
    "bs' = xs @ carve n a z @ ys" using al unfolding n_def by (rule alloc_blocks_SomeE)
  obtain y where y: "(a, y, True) \<in> set (carve n a z)" "n \<le> y" "y \<le> z"
    using d(2) by (cases "n + 64 < z") (auto simp: carve_def)
  have "unat n \<le> unat y" "unat y \<le> unat z" using y by (simp_all add: word_le_nat_alt)
  moreover have "unat sz \<le> unat n" using ALIGN_UP_16 [OF sz] by (simp add: n_def)
  moreover note seg_ordered [OF heap_isD(6) [OF h, unfolded d(1)]] heap_is_mid(6) [OF h [unfolded d(1)]]
  ultimately have b: "unat sz \<le> unat y" "unat a + 32 + unat y \<le> unat (kernel_heap_end s)"
    "\<And>b x. (b, x, True) \<in> set bs \<Longrightarrow> (b, x, True) \<in> set bs' \<and>
      (unat b + 32 + unat x \<le> unat a \<or> unat a + 32 + unat y \<le> unat b)"
    by (force simp: d(1, 4))+
  show ?thesis using b y(1) d(3) by (intro exI [of _ a] exI [of _ y]) (auto simp: d(4))
qed

fun coalesced :: "block list \<Rightarrow> bool" where
  "coalesced (b # c # bs) = ((snd (snd b) \<or> snd (snd c)) \<and> coalesced (c # bs))"
| "coalesced _ = True"

lemma coalesced_append:
  "coalesced (xs @ (a, z, u) # ys) \<longleftrightarrow> coalesced xs \<and> (xs \<noteq> [] \<longrightarrow> snd (snd (last xs)) \<or> u) \<and>
     (ys \<noteq> [] \<longrightarrow> u \<or> snd (snd (hd ys))) \<and> coalesced ys"
proof (induction xs)
  case Nil
  then show ?case by (cases ys) auto
next
  case (Cons x xs)
  then show ?case by (cases xs) auto
qed

lemma free_blocks_carve:
  assumes "coalesced (xs @ (a, z, False) # ys)" "bs' = xs @ carve sz a z @ ys" "sz \<le> z"
  obtains y ws where "bs' = xs @ (a, y, True) # ws" "free_blocks xs a y ws = xs @ (a, z, False) # ys"
proof (cases "sz + 64 < z")
  case True
  have "sz + (32 + (z - (sz + 32))) = z" by simp
  with True assms that [of sz "(a + 32 + sz, z - (sz + 32), False) # ys"] show ?thesis
    by (auto simp: carve_def free_blocks_def coalesced_append)
next
  case False
  have "join_next a z ys = (a, z, False) # ys"
    using assms(1) by (cases "(a, z, ys)" rule: join_next.cases) (auto simp: coalesced_append)
  with False assms that [of z ys] show ?thesis
    by (auto simp: carve_def free_blocks_def coalesced_append)
qed

text \<open>C18. Allocating and freeing again gives the heap back, where the heap neither grows nor shrinks: on a
  heap without adjacent free blocks, with a free block that is large enough and whose last block
  \<open>stays\<close> (\<open>kfree\<close> does not trim it: it is in use, is the only one, or ends where it would be cut), \<open>kfree\<close> of what \<open>kmalloc\<close> returned
  restores the very list of blocks, and every part of the state outside the heap's entries.\<close>

theorem kmalloc_kfree_roundtrip:
  assumes h: "heap_is s bs" and nh: "\<not> held Heap_Mutex s" and co: "coalesced bs" and st: "stays s bs"
    and fit: "\<exists>b \<in> set bs. fits (ALIGN_UP sz 16) b"
  shows "\<exists>r s1 s2. kmalloc sz s = Inr (r, s1) \<and> kfree r s1 = Inr s2 \<and> heap_is s2 bs \<and> entries_only s s2"
proof -
  define n where "n = ALIGN_UP sz 16"
  from fit have "alloc_blocks n bs \<noteq> None" unfolding alloc_blocks_None find_None_iff n_def by blast
  then obtain r bs' where al: "alloc_blocks n bs = Some (r, bs')" by auto
  then obtain xs a z ys where d: "bs = xs @ (a, z, False) # ys" "n \<le> z" "r = he_memory a"
    "bs' = xs @ carve n a z @ ys" by (rule alloc_blocks_SomeE)
  from kmalloc_refines [OF h nh al [unfolded n_def]] obtain s1
    where s1: "kmalloc sz s = Inr (r, s1)" "heap_is s1 bs'" "entries_only s s1" by auto
  obtain y ws where f: "bs' = xs @ (a, y, True) # ws" "free_blocks xs a y ws = bs"
    using free_blocks_carve [OF co [unfolded d(1)] d(4, 2)] d(1) by metis
  have "stays s1 (free_blocks xs a y ws)"
    using st entries_only_fields(3) [OF s1(3)] by (simp add: f(2) stays_def)
  with kfree_refines [OF s1(2) [unfolded f(1)]] nh entries_only_fields(1) [OF s1(3)]
  obtain s2 where "kfree r s1 = Inr s2" "heap_is s2 bs" "entries_only s1 s2" by (auto simp: d(3) f(2))
  then show ?thesis using s1 entries_only_trans by blast
qed

text \<open>\<open>init_heap\<close> leaves one free block, the first page of the heap but for its entry.\<close>

theorem init_heap_one_block:
  assumes "0x1000 \<le> unat (kernel_heap_start s)" "unat (kernel_heap_start s) + 0x1000 < 2 ^ 64"
    and "kernel_heap_end s = kernel_heap_start s + KERNEL_HEAP_INIT_SIZE"
  shows "heap_is (init_heap s) [(kernel_heap_start s, 0xFE0, False)]"
  using assms
  by (auto simp: heap_is_def init_heap_def Let_def upd_header_def KERNEL_HEAP_INIT_SIZE_def HDR_def unat_add_no_wrap)

lemma ALIGN_UP_wraps:
  assumes "2 ^ 64 - 16 < unat (sz :: u64)"
  shows "ALIGN_UP sz 16 = 0"
proof -
  have c: "unat (0xFFFFFFFFFFFFFFF1 :: u64) = 2 ^ 64 - 15" by simp
  have "(0xFFFFFFFFFFFFFFF1 :: u64) \<le> sz" using assms unfolding word_le_nat_alt c by linarith
  then have "unat (sz - 0xFFFFFFFFFFFFFFF1) = unat sz - (2 ^ 64 - 15)" by (simp only: unat_sub c)
  then have n: "unat (sz - 0xFFFFFFFFFFFFFFF1) < 16" using unat_u64_less [of sz] by (simp del: unat_u64_less)
  define r where "r = 15 - (sz - 0xFFFFFFFFFFFFFFF1)"
  have "sz - 0xFFFFFFFFFFFFFFF1 \<le> 15" using n by (simp add: word_le_nat_alt)
  then have "unat r \<le> 15" using unat_sub [of "sz - 0xFFFFFFFFFFFFFFF1" 15] by (simp add: r_def)
  then have r: "\<not> bit r k" if "4 \<le> k" for k using not_bit_above [of r 4 k] that by simp
  have "sz - 1 = NOT r" by (simp add: r_def not_eq_complement)
  have m: "(16 - 1 :: u64) = mask 4" "NOT (mask 4) = (- 16 :: u64)" by (simp_all add: mask_eq_exp_minus_1 not_eq_complement)
  have "NOT r AND NOT (mask 4) = NOT (mask 4)"
    by (rule bit_word_eqI) (use r in \<open>auto simp: bit_simps not_less\<close>)
  then have "(sz - 1) AND NOT (16 - 1) = - 16" unfolding \<open>sz - 1 = NOT r\<close> m(1) by (simp only: m(2))
  then show ?thesis by (simp only: ALIGN_UP_def ALIGN_DOWN_def) simp
qed

text \<open>C40. The rounding of the request has no overflow check: a request of more than
  \<open>2 ^ 64 - 16\<close> bytes is served like one of 0 bytes, where the caller expects a failure.\<close>

theorem kmalloc_huge_request_wraps:
  assumes "2 ^ 64 - 16 < unat sz"
  shows "kmalloc sz s = kmalloc 0 s"
proof -
  have "ALIGN_UP 0 16 = 0" by (rule bit_word_eqI) (simp add: ALIGN_UP_def ALIGN_DOWN_def)
  with ALIGN_UP_wraps [OF assms] show ?thesis by (simp only: kmalloc_def)
qed

section \<open>A concrete heap\<close>

text \<open>One page: a block of 0x40 bytes in use, the rest free.\<close>

definition small_heap :: kmem where
  "small_heap = \<lparr>mutexes = (\<lambda>_. \<lparr>locked = False\<rparr>),
     phys_mmap = \<lparr>memory_ranges = [], range_count = 0, max_range_count = 0\<rparr>, phys_ranges = 0, phys_mmap_max_size = 0,
     virt_mmap = \<lparr>memory_ranges = [], range_count = 0, max_range_count = 0\<rparr>, virt_ranges = 0,
     pt = (\<lambda>_. 0), cr3 = 0, cr0_wp = True, invld_tlbs_addr = 0, flushed = [], working_processors = 1,
     ip_call_count = 0, kernel_heap_start = 0x100000, kernel_heap_end = 0x101000,
     first_heap_entry = 0x100000, last_heap_entry = 0x100060,
     headers = (\<lambda>_. \<lparr>he_size = 0, he_used = False, he_last = 0, he_next = 0\<rparr>)
       (0x100000 := \<lparr>he_size = 0x40, he_used = True, he_last = 0, he_next = 0x100060\<rparr>,
        0x100060 := \<lparr>he_size = 0xF80, he_used = False, he_last = 0x100000, he_next = 0\<rparr>),
     bytes = (\<lambda>_. 0)\<rparr>"

lemma small_heap_blocks: "heap_is small_heap [(0x100000, 0x40, True), (0x100060, 0xF80, False)]"
  by (simp add: heap_is_def small_heap_def)

lemma small_heap_free: "\<not> held Heap_Mutex small_heap"
  by (simp add: small_heap_def)

lemma small_heap_end: "stays small_heap [(0x100000, 0x40, True), (0x100060, 0xF80, False)]"
  by (simp add: stays_def small_heap_def he_memory_def HDR_def MAX_ALIGN_def ALIGN_UP_def ALIGN_DOWN_def)

theorem heap_consistency_check_holds_witness: "heap_consistency_check small_heap = Inr True"
  by (rule heap_consistency_check_holds [OF small_heap_blocks])

theorem kfree_coalesces_witness:
  "\<exists>s'. kfree 0x100020 small_heap = Inr s' \<and> heap_is s' [(0x100000, 0xFE0, False)]"
  using kfree_coalesces [of small_heap "[]" "0x100000" "0x40" "[(0x100060, 0xF80, False)]"]
    small_heap_blocks small_heap_free
  by (auto simp: he_memory_def HDR_def free_blocks_def stays_def)

theorem kmalloc_first_fit_witness:
  "\<exists>s'. kmalloc 100 small_heap = Inr (0x100080, s') \<and>
     heap_is s' [(0x100000, 0x40, True), (0x100060, 0x70, True), (0x1000F0, 0xEF0, False)]"
  using kmalloc_first_fit [OF small_heap_blocks small_heap_free, of 100 "0x100080"
      "[(0x100000, 0x40, True), (0x100060, 0x70, True), (0x1000F0, 0xEF0, False)]"]
  by (auto simp: fits_def carve_def he_memory_def HDR_def ALIGN_UP_def ALIGN_DOWN_def)

theorem kmalloc_kfree_roundtrip_witness:
  "\<exists>r s1 s2. kmalloc 100 small_heap = Inr (r, s1) \<and> kfree r s1 = Inr s2 \<and>
     heap_is s2 [(0x100000, 0x40, True), (0x100060, 0xF80, False)]"
  using kmalloc_kfree_roundtrip [OF small_heap_blocks small_heap_free _ small_heap_end, of 100]
  by (auto simp: fits_def ALIGN_UP_def ALIGN_DOWN_def)

theorem init_heap_one_block_witness: "heap_is (init_heap small_heap) [(0x100000, 0xFE0, False)]"
  using init_heap_one_block [of small_heap] by (simp add: small_heap_def KERNEL_HEAP_INIT_SIZE_def)

theorem kmalloc_huge_request_wraps_witness: "kmalloc 0xFFFFFFFFFFFFFFFF small_heap = kmalloc 0 small_heap"
  by (rule kmalloc_huge_request_wraps) simp

end
