(* ===== verification/Page_Tables.thy ===== *)
theory Page_Tables
  imports Paging
begin

text \<open>
  The page tables as a trie of 512-way nodes: the table an address reaches at each depth, when a kernel's tables
  are well-formed, and what the three kinds of change an edit is made of do to the walks of all addresses. They
  add flags to an entry, write the entry of a page, or hang a cleared page in as a new table.
\<close>

section \<open>Frames and entries\<close>

definition page_of :: "addr \<Rightarrow> addr" where "page_of a = a AND NOT (mask 12)"

definition is_frame :: "addr \<Rightarrow> bool" where "is_frame t \<longleftrightarrow> t AND frame_mask = t"

lemma bit_frame_mask: "bit frame_mask n \<longleftrightarrow> 12 \<le> n \<and> n < 52"
  unfolding frame_mask_def mask_consts by (simp only: bit_push_bit_iff bit_mask_iff) auto

lemma frame_bit: "is_frame t \<Longrightarrow> bit t n \<Longrightarrow> 12 \<le> n \<and> n < 52"
  unfolding is_frame_def by (metis bit_and_iff bit_frame_mask)

lemma is_frame_iff: "is_frame a \<longleftrightarrow> unat a mod 0x1000 = 0 \<and> unat a < 2 ^ 52"
proof
  assume f: "is_frame a"
  have "a AND mask 12 = 0" "a AND mask 52 = a"
    by (rule bit_word_eqI, use frame_bit [OF f] in \<open>fastforce simp: bit_and_iff bit_mask_iff\<close>)+
  then have "unat (take_bit 12 a) = 0" "take_bit 52 a = a" by (simp_all add: take_bit_eq_mask)
  then have "unat a mod 2 ^ 12 = 0" by (metis unsigned_take_bit_eq take_bit_eq_mod)
  moreover have "take_bit 52 (unat a) = unat a" using \<open>take_bit 52 a = a\<close> by (metis unsigned_take_bit_eq)
  ultimately show "unat a mod 0x1000 = 0 \<and> unat a < 2 ^ 52" using take_bit_nat_less_exp [of 52 "unat a"] by simp
next
  assume a: "unat a mod 0x1000 = 0 \<and> unat a < 2 ^ 52"
  then have "take_bit 12 (unat a) = 0" by (simp add: take_bit_eq_mod)
  then have "take_bit 12 a = 0" by (metis unsigned_take_bit_eq unat_eq_0)
  then have "\<not> bit a n" if "n < 12" for n using that by (metis bit_take_bit_iff bit_0_eq bot_apply bot_bool_def)
  moreover have "\<not> bit a n" if "52 \<le> n" for n using a that by (intro not_bit_above [of a 52]) auto
  ultimately have "bit (a AND frame_mask) n = bit a n" for n
    by (cases "n < 12"; cases "52 \<le> n") (simp_all add: bit_and_iff bit_frame_mask)
  then show "is_frame a" unfolding is_frame_def by (intro bit_word_eqI) blast
qed

lemma page_of_entry [simp]:
  assumes "is_frame t"
  shows "page_of (entry_of l t v) = t"
proof -
  have "entry_of l t v = t OR push_bit 3 (pt_index l v)"
    using frame_or_entry [of t l v] assms by (simp add: is_frame_def)
  moreover have "page_of (t OR push_bit 3 (pt_index l v)) = t"
    by (rule bit_word_eqI) (auto simp: page_of_def pt_index_def bit_simps dest: frame_bit [OF assms])
  ultimately show ?thesis by simp
qed

lemma page_of_cell:
  assumes "is_frame t" "k < 512"
  shows "page_of (t + 8 * of_nat k) = t"
proof -
  have "unat (of_nat k :: u64) < 2 ^ 9" using assms(2) by (simp add: unat_of_nat_no_wrap)
  then have b: "\<not> bit (of_nat k :: u64) n" if "9 \<le> n" for n using that by (rule not_bit_above)
  have "t AND push_bit 3 (of_nat k) = 0"
    by (rule bit_word_eqI) (use frame_bit [OF assms(1)] b in \<open>fastforce simp: bit_simps\<close>)
  then have "t + 8 * of_nat k = t OR push_bit 3 (of_nat k)"
    using disjunctive_add_eq_or [of t "push_bit 3 (of_nat k)"] by (simp add: push_bit_eq_mult mult.commute)
  moreover have "page_of (t OR push_bit 3 (of_nat k)) = t"
    by (rule bit_word_eqI) (use frame_bit [OF assms(1)] b in \<open>fastforce simp: page_of_def bit_simps\<close>)
  ultimately show ?thesis by simp
qed

lemma entry_of_cell: "\<exists>i < 512. entry_of l t v = t + 8 * of_nat i"
proof -
  have "unat (pt_index l v) < 2 ^ 9"
    using take_bit_nat_less_exp [of 9 "unat (drop_bit (12 + 9 * l) v)"]
    by (simp add: pt_index_def unsigned_take_bit_eq flip: take_bit_eq_mask)
  then show ?thesis by (intro exI [of _ "unat (pt_index l v)"]) (simp add: entry_of_def)
qed

lemma flag_bits:
  "bit PAGING_FLAG_PRESENT n \<longleftrightarrow> n = 0" "bit PAGING_FLAG_READ_WRITE n \<longleftrightarrow> n = 1" "bit PAGING_FLAG_PAGE_SIZE n \<longleftrightarrow> n = 7"
  unfolding flag_defs bit_push_bit_iff bit_1_iff by auto

fun table_at :: "(addr \<Rightarrow> u64) \<Rightarrow> addr \<Rightarrow> nat \<Rightarrow> addr \<Rightarrow> addr option" where
  "table_at m p 0 v = Some p"
| "table_at m p (Suc d) v = (case table_at m p d v of None \<Rightarrow> None | Some t \<Rightarrow>
     let e = m (entry_of (3 - d) t v) in if bit e 0 \<and> \<not> bit e 7 then Some (e AND frame_mask) else None)"

lemma entry_of_inj:
  assumes "is_frame t" "is_frame s" "entry_of k t u = entry_of l s v"
  shows "t = s" "pt_index k u = pt_index l v"
proof -
  show ts: "t = s" using assms page_of_entry by metis
  have "8 * pt_index k u = 8 * pt_index l v" using assms(3) ts by (simp add: entry_of_def)
  then have eq: "push_bit 3 (pt_index k u) = push_bit 3 (pt_index l v)" by (simp add: push_bit_eq_mult mult.commute)
  show "pt_index k u = pt_index l v"
  proof (rule bit_word_eqI)
    fix n
    have "bit (push_bit 3 (pt_index k u)) (n + 3) = bit (push_bit 3 (pt_index l v)) (n + 3)" using eq by simp
    moreover have "\<not> bit (pt_index i w) n" if "9 \<le> n" for i w using that by (simp add: pt_index_def bit_and_iff bit_mask_iff)
    ultimately show "bit (pt_index k u) n = bit (pt_index l v) n"
      by (cases "n < 9") (simp_all add: bit_push_bit_iff)
  qed
qed

lemma entry_of_cong: "pt_index l u = pt_index l v \<Longrightarrow> entry_of l t u = entry_of l t v"
  by (simp add: entry_of_def)

lemma table_at_frame: "is_frame p \<Longrightarrow> table_at m p d v = Some t \<Longrightarrow> is_frame t"
  by (cases d) (auto simp: is_frame_def and.assoc Let_def split: option.splits if_splits)

text \<open>The tables on the way do not change when their entries do not.\<close>

lemma table_at_frame_cong:
  assumes "\<And>k t. k < d \<Longrightarrow> table_at m p k u = Some t \<Longrightarrow> m' (entry_of (3 - k) t u) = m (entry_of (3 - k) t u)"
  shows "table_at m' p d u = table_at m p d u"
  using assms
proof (induction d)
  case (Suc d)
  then have "table_at m' p d u = table_at m p d u" by simp
  with Suc.prems [of d] show ?case by (simp split: option.split)
qed simp

section \<open>The kernel's paging structures\<close>

text \<open>
  Two addresses take the same way for \<open>d\<close> levels. \<open>ordinary\<close> addresses are those the last entry of the PML4
  does not serve: that entry is the recursive mapping.
\<close>

definition same_path :: "nat \<Rightarrow> addr \<Rightarrow> addr \<Rightarrow> bool" where
  "same_path d u v \<longleftrightarrow> (\<forall>j < d. pt_index (3 - j) u = pt_index (3 - j) v)"

definition ordinary :: "addr \<Rightarrow> bool" where
  "ordinary v \<longleftrightarrow> pt_index 3 v \<noteq> 511"

text \<open>The PML4 maps itself, writable, and no page is a table in two places.\<close>

definition kernel_tables :: "(addr \<Rightarrow> u64) \<Rightarrow> addr \<Rightarrow> bool" where
  "kernel_tables f P \<longleftrightarrow> table_entry (f (P + 8 * 511)) P \<and> bit (f (P + 8 * 511)) 1 \<and>
     (\<forall>u v d k t. ordinary u \<and> ordinary v \<and> d \<le> 3 \<and> k \<le> 3 \<and> table_at f P d u = Some t \<and> table_at f P k v = Some t \<longrightarrow>
        d = k \<and> same_path d u v)"

definition table_pages :: "(addr \<Rightarrow> u64) \<Rightarrow> addr \<Rightarrow> addr set" where
  "table_pages f P = {t. \<exists>v d. ordinary v \<and> d \<le> 3 \<and> table_at f P d v = Some t}"

text \<open>Every entry on the way to the table of depth \<open>d\<close> allows writing.\<close>

fun table_w :: "(addr \<Rightarrow> u64) \<Rightarrow> addr \<Rightarrow> nat \<Rightarrow> addr \<Rightarrow> bool" where
  "table_w f P 0 v = True"
| "table_w f P (Suc d) v = (table_w f P d v \<and>
     (case table_at f P d v of None \<Rightarrow> False | Some t \<Rightarrow> bit (f (entry_of (3 - d) t v)) 1))"

lemma kernel_tablesD:
  assumes "kernel_tables f P"
  shows "table_entry (f (P + 8 * 511)) P" "bit (f (P + 8 * 511)) 1" "is_frame P"
    "\<lbrakk>ordinary u; ordinary v; d \<le> 3; k \<le> 3; table_at f P d u = Some t; table_at f P k v = Some t\<rbrakk> \<Longrightarrow>
       d = k \<and> same_path d u v"
proof -
  show "table_entry (f (P + 8 * 511)) P" "bit (f (P + 8 * 511)) 1" using assms by (simp_all add: kernel_tables_def)
  then have "f (P + 8 * 511) AND frame_mask = P" by (simp add: table_entry_def)
  then show "is_frame P" unfolding is_frame_def by (metis and.assoc and.idem)
  show "d = k \<and> same_path d u v"
    if "ordinary u" "ordinary v" "d \<le> 3" "k \<le> 3" "table_at f P d u = Some t" "table_at f P k v = Some t"
    using assms that unfolding kernel_tables_def by blast
qed

lemma same_path_refl [simp]: "same_path d v v"
  by (simp add: same_path_def)

lemma same_path_Suc: "same_path (Suc d) u v \<longleftrightarrow> same_path d u v \<and> pt_index (3 - d) u = pt_index (3 - d) v"
  by (auto simp: same_path_def less_Suc_eq)

lemma same_path_mono: "same_path d u v \<Longrightarrow> k \<le> d \<Longrightarrow> same_path k u v"
  by (simp add: same_path_def)

lemma same_path_4: "same_path 4 u v \<longleftrightarrow> pt_index 3 u = pt_index 3 v \<and> pt_index 2 u = pt_index 2 v \<and>
    pt_index 1 u = pt_index 1 v \<and> pt_index 0 u = pt_index 0 v"
proof -
  have "j < 4 \<longleftrightarrow> j = 0 \<or> j = 1 \<or> j = 2 \<or> j = 3" for j :: nat by linarith
  then show ?thesis by (auto simp: same_path_def)
qed

lemma table_at_path: "same_path d u v \<Longrightarrow> table_at f P d u = table_at f P d v"
proof (induction d)
  case (Suc d)
  then have "table_at f P d u = table_at f P d v" and i: "pt_index (3 - d) u = pt_index (3 - d) v"
    by (simp_all add: same_path_Suc)
  moreover have "entry_of (3 - d) t u = entry_of (3 - d) t v" for t by (rule entry_of_cong [OF i])
  ultimately show ?case by (simp only: table_at.simps)
qed simp

lemma table_w_path: "same_path d u v \<Longrightarrow> table_w f P d u = table_w f P d v"
proof (induction d)
  case (Suc d)
  then have p: "same_path d u v" and i: "pt_index (3 - d) u = pt_index (3 - d) v" by (simp_all add: same_path_Suc)
  moreover have "entry_of (3 - d) t u = entry_of (3 - d) t v" for t by (rule entry_of_cong [OF i])
  ultimately show ?case using Suc.IH table_at_path [OF p, of f P] by (simp only: table_w.simps)
qed simp

text \<open>An entry on the way of one address is one on the way of another only where their ways agree.\<close>

lemma entry_shared:
  assumes K: "kernel_tables f P" and o: "ordinary u" "ordinary v" and d: "d \<le> 3" "k \<le> 3"
    and t: "table_at f P d u = Some t" "table_at f P k v = Some t'" and e: "entry_of (3 - d) t u = entry_of (3 - k) t' v"
  shows "d = k \<and> same_path (Suc d) u v \<and> t = t'"
proof -
  note fr = table_at_frame [OF kernel_tablesD(3) [OF K]]
  note i = entry_of_inj [OF fr [OF t(1)] fr [OF t(2)] e]
  with kernel_tablesD(4) [OF K o d] t have "d = k \<and> same_path d u v" by blast
  with i show ?thesis by (auto simp: same_path_Suc)
qed

lemma self_entry_other:
  assumes K: "kernel_tables f P" and o: "ordinary v" and d: "d \<le> 3" and t: "table_at f P d v = Some t"
  shows "entry_of (3 - d) t v \<noteq> P + 8 * 511"
proof
  assume e: "entry_of (3 - d) t v = P + 8 * 511"
  let ?u = "PTE_ADDR_OF v"
  have s: "entry_of 3 P ?u = P + 8 * 511" by (simp add: entry_of_simps)
  note fr = table_at_frame [OF kernel_tablesD(3) [OF K] t] and P = kernel_tablesD(3) [OF K]
  note i = entry_of_inj [OF fr P e [folded s]]
  have "table_at f P 0 v = Some P" by simp
  with kernel_tablesD(4) [OF K o o d _ t] i have "d = 0" by blast
  with i(2) o show False by (simp add: pt_index_PTE ordinary_def)
qed

section \<open>Walks that stay\<close>

text \<open>
  What a change of the tables may do to the translation of a page that was not asked for: the frame stays, a
  page that was not there stays away, and writing is at most allowed anew, where the flags say so.
\<close>

definition kept :: "u64 \<Rightarrow> (bool \<times> addr) option \<Rightarrow> (bool \<times> addr) option \<Rightarrow> bool" where
  "kept flags r r' \<longleftrightarrow> (case r of None \<Rightarrow> r' = None
     | Some (w, q) \<Rightarrow> (case r' of None \<Rightarrow> False | Some (w', q') \<Rightarrow> q' = q \<and> (w \<longrightarrow> w') \<and> (w' \<longrightarrow> w \<or> bit flags 1)))"

definition entry_kept :: "u64 \<Rightarrow> u64 \<Rightarrow> u64 \<Rightarrow> bool" where
  "entry_kept flags e e' \<longleftrightarrow> e' = e \<or> bit e 0 \<and> e' = e OR flags"

lemma kept_refl [simp]: "kept flags r r"
  by (auto simp: kept_def split: option.split)

lemma kept_trans: "kept flags r r' \<Longrightarrow> kept flags r' r'' \<Longrightarrow> kept flags r r''"
  by (auto simp: kept_def split: option.splits)

lemma kept_map:
  "kept flags r r' \<Longrightarrow> (b \<longrightarrow> b') \<Longrightarrow> (b' \<longrightarrow> b \<or> bit flags 1) \<Longrightarrow>
    kept flags (map_option (\<lambda>(w, q). (b \<and> w, q)) r) (map_option (\<lambda>(w, q). (b' \<and> w, q)) r')"
  by (auto simp: kept_def split: option.splits)

lemma plain_bits:
  assumes "plain_flags flags"
  shows "\<not> bit flags 7" "12 \<le> n \<Longrightarrow> n < 52 \<Longrightarrow> \<not> bit flags n"
proof -
  have z: "\<not> (bit flags n \<and> (bit frame_mask n \<or> bit PAGING_FLAG_PAGE_SIZE n))" for n
  proof
    assume "bit flags n \<and> (bit frame_mask n \<or> bit PAGING_FLAG_PAGE_SIZE n)"
    then have "bit (flags AND (frame_mask OR PAGING_FLAG_PAGE_SIZE)) n" by (simp add: bit_simps)
    with assms show False by (simp add: plain_flags_def)
  qed
  show "\<not> bit flags 7" using z [of 7] by (simp add: flag_bits)
  show "\<not> bit flags n" if "12 \<le> n" "n < 52" using z [of n] that by (simp add: bit_frame_mask)
qed

lemma entry_kept_bits:
  assumes "entry_kept flags e e'" "plain_flags flags"
  shows "bit e' 0 = bit e 0" "bit e' 7 = bit e 7" "e' AND frame_mask = e AND frame_mask"
    "bit e 1 \<Longrightarrow> bit e' 1" "bit e' 1 \<Longrightarrow> bit e 1 \<or> bit flags 1"
proof -
  have "(e OR flags) AND frame_mask = e AND frame_mask"
    by (rule bit_word_eqI) (auto simp: bit_and_iff bit_or_iff bit_frame_mask dest: plain_bits(2) [OF assms(2)])
  then show "bit e' 0 = bit e 0" "bit e' 7 = bit e 7" "e' AND frame_mask = e AND frame_mask"
    "bit e 1 \<Longrightarrow> bit e' 1" "bit e' 1 \<Longrightarrow> bit e 1 \<or> bit flags 1"
    using assms(1) plain_bits(1) [OF assms(2)] by (auto simp: entry_kept_def bit_or_iff)
qed

lemma walk_kept:
  assumes fl: "plain_flags flags" and "\<forall>x \<in> set (walk_path f l t v). entry_kept flags (f x) (g x)"
  shows "kept flags (walk f l t v) (walk g l t v)"
  using assms(2)
proof (induction l arbitrary: t)
  case 0
  then have "entry_kept flags (f (entry_of 0 t v)) (g (entry_of 0 t v))" by simp
  note b = entry_kept_bits [OF this fl]
  then show ?case by (auto simp: Let_def kept_def simp flip: entry_of_def)
next
  case (Suc l)
  let ?e = "f (entry_of (Suc l) t v)" and ?e' = "g (entry_of (Suc l) t v)"
  from Suc.prems have "entry_kept flags ?e ?e'" by simp
  note b = entry_kept_bits [OF this fl]
  show ?case
  proof (cases "bit ?e 0 \<and> \<not> bit ?e 7")
    case True
    with Suc.prems Suc.IH [of "?e AND frame_mask"]
    have "kept flags (walk f l (?e AND frame_mask) v) (walk g l (?e AND frame_mask) v)" by (simp add: Let_def)
    then have "kept flags (map_option (\<lambda>(w, q). (bit ?e 1 \<and> w, q)) (walk f l (?e AND frame_mask) v))
        (map_option (\<lambda>(w, q). (bit ?e' 1 \<and> w, q)) (walk g l (?e AND frame_mask) v))"
      using b by (intro kept_map) auto
    with b True show ?thesis by (simp add: Let_def flip: entry_of_def)
  next
    case False
    with b show ?thesis by (auto simp: kept_def Let_def simp flip: entry_of_def and.assoc)
  qed
qed

lemma walk_path_at:
  assumes "x \<in> set (walk_path f l t u)" "l \<le> 3" "table_at f P (3 - l) u = Some t"
  shows "\<exists>k t'. k \<le> 3 \<and> table_at f P k u = Some t' \<and> x = entry_of (3 - k) t' u"
  using assms
proof (induction l arbitrary: t)
  case 0
  then show ?case by (intro exI [of _ 3] exI [of _ t]) simp
next
  case (Suc l)
  let ?e = "f (entry_of (Suc l) t u)"
  have l: "3 - (3 - Suc l) = Suc l" "Suc (3 - Suc l) = 3 - l" using Suc.prems(2) by simp_all
  show ?case
  proof (cases "x = entry_of (Suc l) t u")
    case True
    with Suc.prems(3) show ?thesis by (intro exI [of _ "3 - Suc l"] exI [of _ t]) (simp only: l, simp)
  next
    case False
    with Suc.prems(1) have e: "bit ?e 0 \<and> \<not> bit ?e 7" "x \<in> set (walk_path f l (?e AND frame_mask) u)"
      by (auto simp: Let_def split: if_splits)
    have "table_at f P (Suc (3 - Suc l)) u = Some (?e AND frame_mask)"
      unfolding table_at.simps Suc.prems(3) option.case l(1) Let_def using e(1) by simp
    with Suc.IH [OF e(2)] Suc.prems(2) show ?thesis unfolding l by simp
  qed
qed

lemma walk_at_kept:
  assumes fl: "plain_flags flags"
    and "\<And>k t. k \<le> 3 \<Longrightarrow> table_at f P k u = Some t \<Longrightarrow> entry_kept flags (f (entry_of (3 - k) t u)) (g (entry_of (3 - k) t u))"
  shows "kept flags (walk f 3 P u) (walk g 3 P u)"
  by (rule walk_kept [OF fl]) (use walk_path_at [of _ f 3 P u P] assms(2) in fastforce)

text \<open>A walk passes through the tables on the way; where an entry is missing it ends.\<close>

lemma walk_via:
  assumes "k \<le> 3" "table_at f P k u = Some t"
  shows "walk f 3 P u = map_option (\<lambda>(w, p). (table_w f P k u \<and> w, p)) (walk f (3 - k) t u)"
  using assms
proof (induction k arbitrary: t)
  case 0
  then show ?case by (cases "walk f 3 P u") simp_all
next
  case (Suc k)
  from Suc.prems(2) obtain t' where t': "table_at f P k u = Some t'" by (auto split: option.splits)
  let ?e = "f (entry_of (3 - k) t' u)"
  have e: "bit ?e 0 \<and> \<not> bit ?e 7" "t = ?e AND frame_mask" using Suc.prems(2) t' by (auto simp: Let_def split: if_splits)
  have l: "3 - k = Suc (3 - Suc k)" using Suc.prems(1) by simp
  have "walk f (3 - k) t' u = map_option (\<lambda>(w, p). (bit ?e 1 \<and> w, p)) (walk f (3 - Suc k) t u)"
    using e unfolding l by (simp add: Let_def flip: entry_of_def)
  moreover have "walk f 3 P u = map_option (\<lambda>(w, p). (table_w f P k u \<and> w, p)) (walk f (3 - k) t' u)"
    using Suc.IH [OF _ t'] Suc.prems(1) by simp
  ultimately show ?case using t' by (cases "walk f (3 - Suc k) t u") auto
qed

lemma walk_ends:
  assumes "k \<le> 3" "table_at f P k u = Some t" "\<not> bit (f (entry_of (3 - k) t u)) 0"
  shows "walk f 3 P u = None"
proof -
  have "walk f (3 - k) t u = None" using assms(3) by (cases "3 - k") (simp_all add: Let_def flip: entry_of_def)
  then show ?thesis by (simp add: walk_via [OF assms(1, 2)])
qed

section \<open>The three kinds of change\<close>

text \<open>The 512 entries of a table, and a table with all of them cleared.\<close>

definition cells :: "addr \<Rightarrow> addr set" where
  "cells a = (\<lambda>i. a + 8 * of_nat i) ` {..<512}"

definition cleared :: "addr \<Rightarrow> (addr \<Rightarrow> u64) \<Rightarrow> addr \<Rightarrow> u64" where
  "cleared a f = (\<lambda>x. if x \<in> cells a then 0 else f x)"

lemma entry_in_cells [simp]: "entry_of l a v \<in> cells a"
  using entry_of_cell [of l a v] by (auto simp: cells_def)

lemma entry_not_cell: "is_frame a \<Longrightarrow> is_frame t \<Longrightarrow> t \<noteq> a \<Longrightarrow> entry_of l t v \<notin> cells a"
  unfolding cells_def using page_of_cell [of a] page_of_entry [of t l v] by fastforce

text \<open>Flags are added to entries that are present.\<close>

lemma all_kept:
  assumes fl: "plain_flags flags" and k: "\<And>x. entry_kept flags (f x) (g x)"
  shows "table_at g P d u = table_at f P d u" "table_w f P d u \<Longrightarrow> table_w g P d u"
    "kernel_tables f P \<Longrightarrow> kernel_tables g P" "kept flags (walk f 3 P u) (walk g 3 P u)"
proof -
  note b = entry_kept_bits [OF k fl]
  have t: "table_at g P d u = table_at f P d u" for d u
    by (induction d) (simp_all add: b Let_def split: option.split)
  then show "table_at g P d u = table_at f P d u" .
  show "table_w g P d u" if "table_w f P d u" using that
    by (induction d) (auto simp: t b(4) simp del: One_nat_def split: option.splits)
  show "kernel_tables g P" if "kernel_tables f P"
    using kernel_tablesD [OF that] b unfolding kernel_tables_def t by (auto simp: table_entry_def)
  show "kept flags (walk f 3 P u) (walk g 3 P u)" by (rule walk_kept [OF fl]) (use k in blast)
qed

text \<open>The entry of a page is written.\<close>

lemma leaf_step:
  fixes x :: u64 and f :: "addr \<Rightarrow> u64" and t v u P :: addr
  assumes K: "kernel_tables f P" and o: "ordinary v" "ordinary u" and t: "table_at f P 3 v = Some t"
  defines "g \<equiv> f(entry_of 0 t v := x)"
  shows "d \<le> 3 \<Longrightarrow> table_at g P d u = table_at f P d u" "d \<le> 3 \<Longrightarrow> table_w g P d u = table_w f P d u"
    "kernel_tables g P" "\<not> same_path 4 u v \<Longrightarrow> walk g 3 P u = walk f 3 P u"
proof -
  have other: "g (entry_of (3 - k) t' u) = f (entry_of (3 - k) t' u)"
    if "k < 3 \<or> k \<le> 3 \<and> \<not> same_path 4 u v" "table_at f P k u = Some t'" "ordinary u" for k u t'
  proof -
    have "entry_of (3 - k) t' u \<noteq> entry_of 0 t v"
      using entry_shared [OF K that(3) o(1) _ _ that(2) t] that(1) by (auto simp: eval_nat_numeral)
    then show ?thesis by (simp add: g_def)
  qed
  have ta: "table_at g P d u = table_at f P d u" if "d \<le> 3" "ordinary u" for d u
    by (rule table_at_frame_cong) (use other that in auto)
  show "table_at g P d u = table_at f P d u" if "d \<le> 3" using ta that o(2) by blast
  show "table_w g P d u = table_w f P d u" if "d \<le> 3" using that
  proof (induction d)
    case (Suc d)
    then show ?case using ta [of d u] other [of d u] o(2) by (auto split: option.split)
  qed simp
  have "g (P + 8 * 511) = f (P + 8 * 511)" using self_entry_other [OF K o(1) _ t] by (simp add: g_def)
  then show "kernel_tables g P" using K ta unfolding kernel_tables_def by (metis (no_types, lifting))
  show "walk g 3 P u = walk f 3 P u" if "\<not> same_path 4 u v"
  proof -
    have "plain_flags 0" by (simp add: plain_flags_def)
    then have "kept 0 (walk f 3 P u) (walk g 3 P u)"
      using other that o(2) by (intro walk_at_kept) (auto simp: entry_kept_def)
    then show ?thesis by (auto simp: kept_def split: option.splits)
  qed
qed

text \<open>A cleared page becomes a table.\<close>

lemma link_step:
  fixes x :: u64 and f :: "addr \<Rightarrow> u64" and a t v u P :: addr and d :: nat
  assumes K: "kernel_tables f P" and o: "ordinary v" "ordinary u" and d: "d \<le> 2" and t: "table_at f P d v = Some t"
    and absent: "\<not> bit (f (entry_of (3 - d) t v)) 0"
    and a: "is_frame a" "a \<notin> table_pages f P" and x: "table_entry x a"
  defines "g \<equiv> (cleared a f)(entry_of (3 - d) t v := x)"
  shows "k \<le> 3 \<Longrightarrow> table_at g P k u = (if k = Suc d \<and> same_path (Suc d) u v then Some a else table_at f P k u)"
    "k \<le> 3 \<Longrightarrow> table_at f P k u = Some t' \<Longrightarrow> table_w g P k u = table_w f P k u"
    "kernel_tables g P" "kept flags (walk f 3 P u) (walk g 3 P u)"
    "k \<le> 3 \<Longrightarrow> table_at g P k u = Some t' \<Longrightarrow> \<not> bit (g (entry_of (3 - k) t' u)) 7 \<or>
       table_at f P k u = Some t' \<and> g (entry_of (3 - k) t' u) = f (entry_of (3 - k) t' u)"
proof -
  let ?e = "entry_of (3 - d) t v"
  note P = kernel_tablesD(3) [OF K] and ft = table_at_frame [OF kernel_tablesD(3) [OF K]]
  have ne: "t' \<noteq> a" if "table_at f P k u = Some t'" "k \<le> 3" "ordinary u" for k t' u
    using a(2) that by (auto simp: table_pages_def)
  have "P \<noteq> a" using ne [of 0 u P] o(2) by simp
  have other: "g (entry_of (3 - k) t' u) = f (entry_of (3 - k) t' u)"
    if "table_at f P k u = Some t'" "k \<le> 3" "ordinary u" "\<not> (k = d \<and> same_path (Suc d) u v)" for k t' u
  proof -
    have "entry_of (3 - k) t' u \<notin> cells a" using ne [OF that(1-3)] ft [OF that(1)] a(1) by (intro entry_not_cell)
    moreover have "entry_of (3 - k) t' u \<noteq> ?e" using entry_shared [OF K that(3) o(1) that(2) _ that(1) t] that(4) d by auto
    ultimately show ?thesis by (simp add: g_def cleared_def)
  qed
  have here: "t' = t \<and> entry_of (3 - d) t' u = ?e" if "table_at f P d u = Some t'" "same_path (Suc d) u v" for t' u
    using that t table_at_path [of d u v f P] by (auto simp: same_path_Suc intro: entry_of_cong)
  have fresh: "g (entry_of l a u) = 0" for l u
  proof -
    have "?e \<notin> cells a" using ne [OF t _ o(1)] ft [OF t] a(1) d by (intro entry_not_cell) auto
    then have "entry_of l a u \<noteq> ?e" by (metis entry_in_cells)
    then show ?thesis by (simp add: g_def cleared_def)
  qed
  have ta: "table_at g P k u = (if k = Suc d \<and> same_path (Suc d) u v then Some a else table_at f P k u)"
    if "k \<le> 3" "ordinary u" for k u
    using that(1)
  proof (induction k)
    case (Suc k)
    then have IH: "table_at g P k u = (if k = Suc d \<and> same_path (Suc d) u v then Some a else table_at f P k u)" by simp
    consider "k = Suc d" "same_path (Suc d) u v" | "k = d" "same_path (Suc d) u v"
      | "\<not> ((k = d \<or> k = Suc d) \<and> same_path (Suc d) u v)" by blast
    then show ?case
    proof cases
      case 1
      have "table_at f P d u = Some t" using t table_at_path [of d u v f P] 1(2) by (simp add: same_path_Suc)
      then have "table_at f P (Suc d) u = None" using here [OF _ 1(2), of t] absent by simp
      then have "table_at f P (Suc k) u = None" by (simp add: 1)
      moreover have "table_at g P (Suc k) u = None" using IH 1 fresh by simp
      ultimately show ?thesis using 1 by simp
    next
      case 2
      have "table_at f P d u = Some t" using t table_at_path [of d u v f P] 2(2) by (simp add: same_path_Suc)
      then have "table_at g P k u = Some t" "entry_of (3 - k) t u = ?e" using IH here [OF _ 2(2), of t] 2 by auto
      moreover have "g ?e = x" by (simp add: g_def)
      ultimately show ?thesis using 2 x by (simp add: table_entry_def)
    next
      case 3
      then have "table_at g P k u = table_at f P k u" using IH by auto
      then show ?thesis using other [of k u] 3 Suc.prems that(2) by (auto split: option.split)
    qed
  qed simp
  show "table_at g P k u = (if k = Suc d \<and> same_path (Suc d) u v then Some a else table_at f P k u)" if "k \<le> 3"
    using ta that o(2) by blast
  show "\<not> bit (g (entry_of (3 - k) t' u)) 7 \<or> table_at f P k u = Some t' \<and> g (entry_of (3 - k) t' u) = f (entry_of (3 - k) t' u)"
    if "k \<le> 3" "table_at g P k u = Some t'"
  proof (cases "k = Suc d \<and> same_path (Suc d) u v")
    case True
    then show ?thesis using that ta [of k u] o(2) fresh by auto
  next
    case False
    then have t': "table_at f P k u = Some t'" using that ta [of k u] o(2) by auto
    have "\<not> bit (g ?e) 7" using x by (simp add: g_def table_entry_def)
    then show ?thesis using other [OF t' that(1) o(2)] here [of u t'] t' by (cases "k = d \<and> same_path (Suc d) u v") auto
  qed
  show "table_w g P k u = table_w f P k u" if "k \<le> 3" "table_at f P k u = Some t'"
    using that
  proof (induction k arbitrary: t')
    case (Suc k)
    then obtain t1 where t1: "table_at f P k u = Some t1" by (auto split: option.splits)
    have "\<not> (k = d \<and> same_path (Suc d) u v)" using Suc.prems(2) t1 here [of u t1] absent by (auto simp: Let_def split: if_splits)
    moreover have "table_at f P (Suc k) u \<noteq> None" using Suc.prems by simp
    then have "\<not> (k = Suc d \<and> same_path (Suc d) u v)"
    proof (rule contrapos_nn)
      assume k: "k = Suc d \<and> same_path (Suc d) u v"
      then obtain t2 where "table_at f P d u = Some t2" "bit (f (entry_of (3 - d) t2 u)) 0"
        using t1 by (auto simp: Let_def split: option.splits if_splits)
      with here [of u t2] k absent show "table_at f P (Suc k) u = None" by auto
    qed
    ultimately have "table_at g P k u = Some t1" "g (entry_of (3 - k) t1 u) = f (entry_of (3 - k) t1 u)"
      using Suc.prems(1) t1 ta [of k u] other [OF t1] o(2) by auto
    moreover have "table_w g P k u = table_w f P k u" using Suc.IH [OF _ t1] Suc.prems(1) by simp
    ultimately show ?case using t1 by (simp only: table_w.simps option.case)
  qed simp
  have "P + 8 * 511 \<noteq> ?e" using self_entry_other [OF K o(1) _ t] d by auto
  moreover have "P + 8 * 511 \<notin> cells a"
    using entry_not_cell [OF a(1) P \<open>P \<noteq> a\<close>, of 3 "PTE_ADDR_OF v"] by (simp add: entry_of_simps)
  ultimately have self: "g (P + 8 * 511) = f (P + 8 * 511)" by (simp add: g_def cleared_def)
  have "i = k \<and> same_path i u w"
    if "ordinary u" "ordinary w" "i \<le> 3" "k \<le> 3" "table_at g P i u = Some t'" "table_at g P k w = Some t'" for u w i k t'
  proof (cases "t' = a")
    case True
    have "j = Suc d \<and> same_path (Suc d) y v" if "table_at g P j y = Some a" "j \<le> 3" "ordinary y" for j y
      using that ta [of j y] ne [of j y a] by (auto split: if_splits)
    from this [of i u] this [of k w] that True show ?thesis by (auto simp: same_path_def)
  next
    case False
    then have "table_at f P i u = Some t'" "table_at f P k w = Some t'" using that ta by (auto split: if_splits)
    with kernel_tablesD(4) [OF K] that show ?thesis by blast
  qed
  then show "kernel_tables g P" using kernel_tablesD(1, 2) [OF K] unfolding kernel_tables_def self by blast
  show "kept flags (walk f 3 P u) (walk g 3 P u)"
  proof (cases "same_path (Suc d) u v")
    case True
    then have "table_at f P d u = Some t" using t table_at_path [of d u v f P] by (simp add: same_path_Suc)
    then have "walk f 3 P u = None" using here [OF _ True] absent d by (intro walk_ends [of d]) auto
    moreover have "walk g 3 P u = None" using ta [of "Suc d" u] True d o(2) fresh by (intro walk_ends [of "Suc d"]) auto
    ultimately show ?thesis by simp
  next
    case False
    have "plain_flags 0" by (simp add: plain_flags_def)
    then have "kept 0 (walk f 3 P u) (walk g 3 P u)"
      using other False o(2) by (intro walk_at_kept) (auto simp: entry_kept_def)
    then show ?thesis by (auto simp: kept_def split: option.splits)
  qed
qed

end
