(* ===== verification/Map_Page.thy ===== *)
theory Map_Page
  imports Page_Tables
begin

text \<open>
  What \<open>map_page\<close> of \<^verbatim>\<open>src/kernel/memory.c\<close> does, whichever of the three tables above the page are missing: it
  takes a page from the physical map for each, clears it through the recursive mapping and hangs it in. The page
  then translates to the frame given, and every other page translates as before.
\<close>

section \<open>Clearing a new table through the recursive mapping\<close>

definition self_map :: "(addr \<Rightarrow> u64) \<Rightarrow> addr \<Rightarrow> bool" where
  "self_map f P \<longleftrightarrow> table_entry (f (P + 8 * 511)) P \<and> bit (f (P + 8 * 511)) 1"

text \<open>The accesses that need the upper tables only.\<close>

lemma upper_accesses:
  assumes "self_map (pt s) P" "pml4_of s = P"
  shows "vread (PML4E_ADDR_OF v) s = Inr (pt s (entry_of 3 P v))"
    "vwrite (PML4E_ADDR_OF v) x s = Inr (s\<lparr>pt := (pt s)(entry_of 3 P v := x)\<rparr>)"
    "table_entry (pt s (entry_of 3 P v)) T3 \<Longrightarrow> vread (PDPTE_ADDR_OF v) s = Inr (pt s (entry_of 2 T3 v))"
    "table_entry (pt s (entry_of 3 P v)) T3 \<Longrightarrow> bit (pt s (entry_of 3 P v)) 1 \<or> \<not> cr0_wp s \<Longrightarrow>
      vwrite (PDPTE_ADDR_OF v) x s = Inr (s\<lparr>pt := (pt s)(entry_of 2 T3 v := x)\<rparr>)"
    "table_entry (pt s (entry_of 3 P v)) T3 \<Longrightarrow> table_entry (pt s (entry_of 2 T3 v)) T2 \<Longrightarrow>
      vread (PDE_ADDR_OF v) s = Inr (pt s (entry_of 1 T2 v))"
    "table_entry (pt s (entry_of 3 P v)) T3 \<Longrightarrow> table_entry (pt s (entry_of 2 T3 v)) T2 \<Longrightarrow>
      bit (pt s (entry_of 3 P v)) 1 \<and> bit (pt s (entry_of 2 T3 v)) 1 \<or> \<not> cr0_wp s \<Longrightarrow>
      vwrite (PDE_ADDR_OF v) x s = Inr (s\<lparr>pt := (pt s)(entry_of 1 T2 v := x)\<rparr>)"
  using assms frame_or_entry [of "pt s (P + 8 * 511)" 3 v] frame_or_entry [of "pt s (entry_of 3 P v)" 2 v]
    frame_or_entry [of "pt s (entry_of 2 T3 v)" 1 v]
  by (auto simp: vread_def vwrite_def translate_def walk_levels entry_of_simps self_map_def table_entry_def page_offsets
      simp del: One_nat_def walk.simps)

lemma self_map_upd: "self_map f P \<Longrightarrow> e \<noteq> P + 8 * 511 \<Longrightarrow> self_map (f(e := x)) P"
  by (simp add: self_map_def)

lemma zero_entries_cells:
  assumes w: "\<And>i g. i < 512 \<Longrightarrow> (\<And>x. x \<notin> cells a \<Longrightarrow> g x = pt s x) \<Longrightarrow>
    vwrite (entry (of_nat i)) 0 (s\<lparr>pt := g\<rparr>) = Inr (s\<lparr>pt := g(a + 8 * of_nat i := 0)\<rparr>)"
  shows "zero_entries entry 0 s = Inr (s\<lparr>pt := cleared a (pt s)\<rparr>)"
proof -
  have "zero_entries entry i (s\<lparr>pt := g\<rparr>) = Inr (s\<lparr>pt := (\<lambda>x. if \<exists>j. i \<le> j \<and> j < 512 \<and> x = a + 8 * of_nat j then 0 else g x)\<rparr>)"
    if "\<And>x. x \<notin> cells a \<Longrightarrow> g x = pt s x" "i \<le> 512" for i g
    using that
  proof (induction "512 - i" arbitrary: i g)
    case 0
    then have i: "i = 512" by simp
    have "(\<lambda>x. if \<exists>j. i \<le> j \<and> j < 512 \<and> x = a + 8 * of_nat j then 0 else g x) = g" unfolding i by (rule ext) auto
    then show ?case by (subst zero_entries.simps) (simp only: i, simp)
  next
    case (Suc n)
    then have i: "i < 512" by simp
    let ?g = "g(a + 8 * of_nat i := 0)"
    have out: "?g x = pt s x" if "x \<notin> cells a" for x using that i Suc.prems(1) [OF that] by (auto simp: cells_def)
    have "n = 512 - Suc i" "Suc i \<le> 512" using Suc.hyps(2) i by simp_all
    from Suc.hyps(1) [OF this(1) out this(2)]
    have "zero_entries entry (Suc i) (s\<lparr>pt := ?g\<rparr>) =
      Inr (s\<lparr>pt := (\<lambda>x. if \<exists>j. Suc i \<le> j \<and> j < 512 \<and> x = a + 8 * of_nat j then 0 else ?g x)\<rparr>)" by blast
    moreover have "(\<lambda>x. if \<exists>j. Suc i \<le> j \<and> j < 512 \<and> x = a + 8 * of_nat j then 0 else ?g x) =
      (\<lambda>x. if \<exists>j. i \<le> j \<and> j < 512 \<and> x = a + 8 * of_nat j then 0 else g x)"
    proof
      fix x
      have "(\<exists>j. i \<le> j \<and> j < 512 \<and> x = a + 8 * of_nat j) \<longleftrightarrow>
          x = a + 8 * of_nat i \<or> (\<exists>j. Suc i \<le> j \<and> j < 512 \<and> x = a + 8 * of_nat j)"
        using i by (metis Suc_le_eq le_eq_less_or_eq)
      then show "(if \<exists>j. Suc i \<le> j \<and> j < 512 \<and> x = a + 8 * of_nat j then 0 else ?g x) =
          (if \<exists>j. i \<le> j \<and> j < 512 \<and> x = a + 8 * of_nat j then 0 else g x)" by auto
    qed
    ultimately show ?case using i by (subst zero_entries.simps) (simp add: w [OF i Suc.prems(1)])
  qed
  from this [of "pt s" 0] show ?thesis by (simp add: cleared_def cells_def image_iff Bex_def)
qed

text \<open>The addresses the loops clear: entry \<open>i\<close> of the table below the entry of \<open>v\<close>.\<close>

lemma sub_entry_index:
  fixes v :: addr
  assumes "i < 512"
  defines "w \<equiv> \<lambda>l. (v AND NOT (mask (21 + 9 * l))) + push_bit (12 + 9 * l) (of_nat i)"
  shows "l \<le> 2 \<Longrightarrow> pt_index l (w l) = of_nat i" "l < k \<Longrightarrow> k \<le> 3 \<Longrightarrow> pt_index k (w l) = pt_index k v"
proof -
  have "unat (of_nat i :: u64) < 2 ^ 9" using assms(1) by (simp add: unat_of_nat_no_wrap)
  then have b: "\<not> bit (of_nat i :: u64) n" if "9 \<le> n" for n using that by (rule not_bit_above)
  have b9: "n < 9" if "bit (of_nat i :: u64) n" for n using b [of n] that by (cases "n < 9") auto
  have "(v AND NOT (mask (21 + 9 * l))) AND push_bit (12 + 9 * l) (of_nat i) = 0" for l
    by (rule bit_word_eqI) (use b in \<open>auto simp: bit_simps\<close>)
  then have w: "w l = (v AND NOT (mask (21 + 9 * l))) OR push_bit (12 + 9 * l) (of_nat i)" for l
    by (simp add: w_def disjunctive_add_eq_or)
  show "pt_index l (w l) = of_nat i" if "l \<le> 2"
    by (rule bit_word_eqI) (use b b9 that in \<open>auto simp: w pt_index_def bit_simps\<close>)
  show "pt_index k (w l) = pt_index k v" if "l < k" "k \<le> 3"
    by (rule bit_word_eqI) (use b b9 that in \<open>auto simp: w pt_index_def bit_simps\<close>)
qed

lemma linked_entry:
  assumes "is_frame a" "plain_flags flags"
  shows "table_entry (a OR PAGING_FLAG_PRESENT OR flags) a" "bit (a OR PAGING_FLAG_PRESENT OR flags) 1 = bit flags 1"
proof -
  have "\<not> bit a 7" "\<not> bit a 1" using frame_bit [OF assms(1), of 7] frame_bit [OF assms(1), of 1] by auto
  then show "table_entry (a OR PAGING_FLAG_PRESENT OR flags) a" "bit (a OR PAGING_FLAG_PRESENT OR flags) 1 = bit flags 1"
    using frame_of_pte [OF assms(2), of a] assms(1) plain_bits(1) [OF assms(2)]
    by (simp_all add: table_entry_def is_frame_def bit_or_iff flag_bits)
qed

text \<open>
  The three functions when their entry is missing: the page the physical map gives is hung in writable, cleared,
  and its entry written again with the flags; the entries above have what they had.
\<close>

lemma alloc_page:
  "\<not> held Phys_Mmap_Mutex s \<Longrightarrow> mmap_get_pages (phys_mmap s) 1 = (a, m) \<Longrightarrow>
     alloc_phys_pages 1 s = Inr (a, s\<lparr>phys_mmap := m\<rparr>)"
  by (simp add: alloc_phys_pages_eq)

lemma cleared_upd: "e \<notin> cells a \<Longrightarrow> cleared a (f(e := x)) = (cleared a f)(e := x)"
  by (auto simp: cleared_def)

lemma cleared_out: "e \<notin> cells a \<Longrightarrow> cleared a f e = f e"
  by (simp add: cleared_def)

lemma map_pml4e_link:
  fixes s :: kmem and P v a :: addr
  defines "e \<equiv> entry_of 3 P v"
  assumes self: "self_map (pt s) P" "pml4_of s = P" and absent: "\<not> bit (pt s e) 0" and fl: "plain_flags flags"
    and get: "\<not> held Phys_Mmap_Mutex s" "mmap_get_pages (phys_mmap s) 1 = (a, m)"
    and a: "a \<noteq> 0" "is_frame a" "P + 8 * 511 \<notin> cells a" "e \<notin> cells a" and e: "e \<noteq> P + 8 * 511"
  shows "map_pml4e v flags s = Inr (s\<lparr>phys_mmap := m, pt := (cleared a (pt s))(e := a OR PAGING_FLAG_PRESENT OR flags)\<rparr>)"
proof -
  define st where "st g = s\<lparr>phys_mmap := m, pt := g\<rparr>" for g
  have st: "pt (st g) = g" "pml4_of (st g) = P" "(st g)\<lparr>pt := h\<rparr> = st h" "s\<lparr>phys_mmap := m\<rparr> = st (pt s)" for g h
    using self(2) by (simp_all add: st_def pml4_of_def)
  note acc = upper_accesses [of "st _" P, unfolded st, OF _ refl, folded e_def]
  let ?x = "a OR PAGING_FLAG_PRESENT OR PAGING_FLAG_READ_WRITE"
  let ?f = "(pt s)(e := ?x)"
  note ne = linked_entry [OF a(2) plain_RW]
  have "zero_entries (\<lambda>i. PDPTE_ADDR_OF ((v AND 0xFFFFFF8000000000) + 0x40000000 * i)) 0 (st ?f) = Inr ((st ?f)\<lparr>pt := cleared a (pt (st ?f))\<rparr>)"
  proof (rule zero_entries_cells)
    fix i :: nat and g assume i: "i < 512" and g: "\<And>x. x \<notin> cells a \<Longrightarrow> g x = pt (st ?f) x"
    let ?w = "(v AND 0xFFFFFF8000000000) + 0x40000000 * of_nat i"
    have w: "?w = (v AND NOT (mask (21 + 9 * 2))) + push_bit (12 + 9 * 2) (of_nat i)"
      unfolding mask_consts(4) by (simp add: push_bit_eq_mult mult.commute)
    have "pt_index 2 ?w = of_nat i" "pt_index 3 ?w = pt_index 3 v"
      unfolding w by (rule sub_entry_index [OF i]; simp)+
    then have ix: "entry_of 2 a ?w = a + 8 * of_nat i" "entry_of 3 P ?w = e"
      by (simp_all add: entry_of_def e_def)
    have "g e = ?x" "self_map g P" using g a(3, 4) self(1) e by (simp_all add: st self_map_def)
    then show "vwrite (PDPTE_ADDR_OF ?w) 0 ((st ?f)\<lparr>pt := g\<rparr>) = Inr ((st ?f)\<lparr>pt := g(a + 8 * of_nat i := 0)\<rparr>)"
      using upper_accesses(4) [of "st g" P ?w a 0] ne by (simp add: st ix PAGING_FLAG_READ_WRITE_def bit_simps)
  qed
  then have z: "zero_entries (\<lambda>i. PDPTE_ADDR_OF ((v AND 0xFFFFFF8000000000) + 0x40000000 * i)) 0 (st ?f) = Inr (st ((cleared a (pt s))(e := ?x)))"
    by (simp add: st cleared_upd [OF a(4)])
  have c: "self_map ((cleared a (pt s))(e := ?x)) P" using self(1) e a(3) by (simp add: self_map_def cleared_def)
  have "map_pml4e v flags s = Inr (st ((cleared a (pt s))(e := a OR PAGING_FLAG_PRESENT OR flags)))"
    using absent a(1) upper_accesses(1) [OF self, of v] acc(2) [OF self(1), of v] acc(2) [OF c, of v]
    by (simp add: map_pml4e_def present_iff alloc_page [OF get] st z flip: e_def)
  then show ?thesis by (simp add: st_def)
qed

lemma map_pdpte_link:
  fixes s :: kmem and P T3 v a :: addr
  defines "e3 \<equiv> entry_of 3 P v" and "e2 \<equiv> entry_of 2 T3 v"
  assumes self: "self_map (pt s) P" "pml4_of s = P" and t: "table_entry (pt s e3) T3"
    and absent: "\<not> bit (pt s e2) 0" and fl: "plain_flags flags"
    and get: "\<not> held Phys_Mmap_Mutex s" "mmap_get_pages (phys_mmap s) 1 = (a, m)"
    and a: "a \<noteq> 0" "is_frame a" "{P + 8 * 511, e3, e2} \<inter> cells a = {}" and d: "distinct [P + 8 * 511, e3, e2]"
  shows "map_pdpte v flags s = Inr (s\<lparr>phys_mmap := m, pt := (cleared a (pt s))(e2 := a OR PAGING_FLAG_PRESENT OR flags)\<rparr>)"
proof -
  define st where "st g = s\<lparr>phys_mmap := m, pt := g\<rparr>" for g
  have st: "pt (st g) = g" "pml4_of (st g) = P" "(st g)\<lparr>pt := h\<rparr> = st h" "s\<lparr>phys_mmap := m\<rparr> = st (pt s)" for g h
    using self(2) by (simp_all add: st_def pml4_of_def)
  note acc = upper_accesses [of "st _" P, unfolded st, OF _ refl]
  let ?x = "a OR PAGING_FLAG_PRESENT OR PAGING_FLAG_READ_WRITE" and ?y = "a OR PAGING_FLAG_PRESENT OR flags"
  define g1 where "g1 = (pt s)(e3 := pt s e3 OR PAGING_FLAG_READ_WRITE)"
  define g2 where "g2 = g1(e2 := ?x)"
  define g3 where "g3 = cleared a g2"
  define g4 where "g4 = g3(e2 := ?y)"
  have ne: "e3 \<noteq> e2" "e3 \<noteq> P + 8 * 511" "e2 \<noteq> P + 8 * 511" using d by auto
  have out: "e3 \<notin> cells a" "e2 \<notin> cells a" "P + 8 * 511 \<notin> cells a" using a(3) by auto
  have s1: "self_map g1 P" "self_map g2 P" "self_map g4 P"
    using self(1) ne out by (simp_all add: self_map_def g1_def g2_def g3_def g4_def cleared_def)
  have v: "g1 e3 = pt s e3 OR PAGING_FLAG_READ_WRITE" "g2 e3 = pt s e3 OR PAGING_FLAG_READ_WRITE" "g2 e2 = ?x"
    "g3 e3 = pt s e3 OR PAGING_FLAG_READ_WRITE" "g1 e2 = pt s e2" "g4 e3 = pt s e3 OR PAGING_FLAG_READ_WRITE"
    using ne out by (simp_all add: g1_def g2_def g3_def g4_def cleared_def)
  note rw = table_entry_or [OF t plain_RW]
  have z: "zero_entries (\<lambda>i. PDE_ADDR_OF ((v AND 0xFFFFFFFFC0000000) + 0x200000 * i)) 0 (st g2) = Inr ((st g2)\<lparr>pt := cleared a (pt (st g2))\<rparr>)"
  proof (rule zero_entries_cells)
    fix i :: nat and g assume i: "i < 512" and g: "\<And>x. x \<notin> cells a \<Longrightarrow> g x = pt (st g2) x"
    let ?w = "(v AND 0xFFFFFFFFC0000000) + 0x200000 * of_nat i"
    have w: "?w = (v AND NOT (mask (21 + 9 * 1))) + push_bit (12 + 9 * 1) (of_nat i)"
      unfolding mask_consts(3) by (simp add: push_bit_eq_mult mult.commute)
    have "pt_index 1 ?w = of_nat i" "pt_index 2 ?w = pt_index 2 v" "pt_index 3 ?w = pt_index 3 v"
      unfolding w by (rule sub_entry_index [OF i]; simp)+
    then have ix: "entry_of 1 a ?w = a + 8 * of_nat i" "entry_of 2 T3 ?w = e2" "entry_of 3 P ?w = e3"
      by (simp_all add: entry_of_def e3_def e2_def)
    have "g e3 = g2 e3" "g e2 = ?x" "self_map g P" using g out s1(2) v by (simp_all add: st self_map_def)
    then show "vwrite (PDE_ADDR_OF ?w) 0 ((st g2)\<lparr>pt := g\<rparr>) = Inr ((st g2)\<lparr>pt := g(a + 8 * of_nat i := 0)\<rparr>)"
      using upper_accesses(6) [of "st g" P ?w T3 a 0] linked_entry(1) [OF a(2) plain_RW] rw
      by (simp add: st ix v PAGING_FLAG_READ_WRITE_def bit_simps del: One_nat_def)
  qed
  have o: "vor (PML4E_ADDR_OF v) PAGING_FLAG_READ_WRITE (st (pt s)) = Inr (st g1)"
    using acc(1, 2) [OF self(1), of v] by (simp add: vor_def g1_def flip: e3_def)
  have w: "vwrite (PDPTE_ADDR_OF v) x (st g) = Inr (st (g(e2 := x)))"
    if "self_map g P" "g e3 = pt s e3 OR PAGING_FLAG_READ_WRITE" for g x
    using acc(4) [OF that(1), of v T3 x] that(2) rw by (simp flip: e3_def e2_def)
  have s3: "self_map g3 P" using s1(2) out by (simp add: self_map_def g3_def cleared_def)
  have r: "vwrite (PML4E_ADDR_OF v) (pt s e3) (st g4) = Inr (st (g4(e3 := pt s e3)))"
    using acc(2) [OF s1(3), of v] by (simp flip: e3_def)
  have fin: "g4(e3 := pt s e3) = (cleared a (pt s))(e2 := ?y)"
    using ne out by (auto simp: g4_def g3_def g2_def g1_def cleared_def fun_eq_iff)
  have c: "vwrite (PDPTE_ADDR_OF v) ?x (st g1) = Inr (st g2)" "vwrite (PDPTE_ADDR_OF v) ?y (st g3) = Inr (st g4)"
    using w [OF s1(1) v(1)] w [OF s3 v(4)] by (simp_all add: g2_def g4_def)
  have "map_pdpte v flags s = Inr (st (g4(e3 := pt s e3)))"
    using absent a(1) upper_accesses(3) [OF self, of v T3, folded e3_def e2_def, OF t] acc(1) [OF self(1), of v, folded e3_def]
    by (simp add: map_pdpte_def present_iff alloc_page [OF get] st(1,3,4) z o c r flip: g3_def)
  then show ?thesis by (simp add: fin) (simp add: st_def)
qed

lemma map_pde_link:
  fixes s :: kmem and P T3 T2 v a :: addr
  defines "e3 \<equiv> entry_of 3 P v" and "e2 \<equiv> entry_of 2 T3 v" and "e1 \<equiv> entry_of 1 T2 v"
  assumes self: "self_map (pt s) P" "pml4_of s = P" and t: "table_entry (pt s e3) T3" "table_entry (pt s e2) T2"
    and absent: "\<not> bit (pt s e1) 0" and fl: "plain_flags flags"
    and get: "\<not> held Phys_Mmap_Mutex s" "mmap_get_pages (phys_mmap s) 1 = (a, m)"
    and a: "a \<noteq> 0" "is_frame a" "{P + 8 * 511, e3, e2, e1} \<inter> cells a = {}" and d: "distinct [P + 8 * 511, e3, e2, e1]"
  shows "map_pde v flags s = Inr (s\<lparr>phys_mmap := m, pt := (cleared a (pt s))(e1 := a OR PAGING_FLAG_PRESENT OR flags)\<rparr>)"
proof -
  define st where "st g = s\<lparr>phys_mmap := m, pt := g\<rparr>" for g
  have st: "pt (st g) = g" "pml4_of (st g) = P" "(st g)\<lparr>pt := h\<rparr> = st h" "s\<lparr>phys_mmap := m\<rparr> = st (pt s)" for g h
    using self(2) by (simp_all add: st_def pml4_of_def)
  note acc = upper_accesses [of "st _" P, unfolded st, OF _ refl]
  let ?w = "\<lambda>e. e OR PAGING_FLAG_READ_WRITE"
  let ?x = "a OR PAGING_FLAG_PRESENT OR PAGING_FLAG_READ_WRITE OR flags" and ?y = "a OR PAGING_FLAG_PRESENT OR flags"
  define g0 where "g0 = (pt s)(e3 := ?w (pt s e3))"
  define g1 where "g1 = g0(e2 := ?w (pt s e2))"
  define g2 where "g2 = g1(e1 := ?x)"
  define g3 where "g3 = cleared a g2"
  define g4 where "g4 = g3(e1 := ?y)"
  define g5 where "g5 = g4(e2 := pt s e2)"
  have ne: "e3 \<noteq> e2" "e3 \<noteq> e1" "e2 \<noteq> e1" "e3 \<noteq> P + 8 * 511" "e2 \<noteq> P + 8 * 511" "e1 \<noteq> P + 8 * 511" using d by auto
  have out: "e3 \<notin> cells a" "e2 \<notin> cells a" "e1 \<notin> cells a" "P + 8 * 511 \<notin> cells a" using a(3) by auto
  have s1: "self_map g0 P" "self_map g1 P" "self_map g2 P" "self_map g3 P" "self_map g4 P" "self_map g5 P"
    using self(1) ne out by (simp_all add: self_map_def g0_def g1_def g2_def g3_def g4_def g5_def cleared_def)
  have v: "g0 e3 = ?w (pt s e3)" "g0 e2 = pt s e2" "g1 e3 = ?w (pt s e3)" "g1 e2 = ?w (pt s e2)"
    "g2 e3 = ?w (pt s e3)" "g2 e2 = ?w (pt s e2)" "g2 e1 = ?x" "g3 e3 = ?w (pt s e3)" "g3 e2 = ?w (pt s e2)"
    "g4 e3 = ?w (pt s e3)"
    using ne out by (simp_all add: g0_def g1_def g2_def g3_def g4_def cleared_def)
  note rw = table_entry_or [OF t(1) plain_RW] table_entry_or [OF t(2) plain_RW]
  have xt: "table_entry ?x a"
    using table_entry_or [OF linked_entry(1) [OF a(2) plain_RW] fl] by (simp add: or.assoc)
  have z: "zero_entries (\<lambda>i. PTE_ADDR_OF ((v AND 0xFFFFFFFFFFE00000) + 0x1000 * i)) 0 (st g2) = Inr ((st g2)\<lparr>pt := cleared a (pt (st g2))\<rparr>)"
  proof (rule zero_entries_cells)
    fix i :: nat and g assume i: "i < 512" and g: "\<And>x. x \<notin> cells a \<Longrightarrow> g x = pt (st g2) x"
    let ?u = "(v AND 0xFFFFFFFFFFE00000) + 0x1000 * of_nat i"
    have w: "?u = (v AND NOT (mask (21 + 9 * 0))) + push_bit (12 + 9 * 0) (of_nat i)"
      unfolding mask_consts(2) by (simp add: push_bit_eq_mult mult.commute)
    have "pt_index 0 ?u = of_nat i" "pt_index 1 ?u = pt_index 1 v" "pt_index 2 ?u = pt_index 2 v" "pt_index 3 ?u = pt_index 3 v"
      unfolding w by (rule sub_entry_index [OF i]; simp)+
    then have ix: "entry_of 0 a ?u = a + 8 * of_nat i" "entry_of 1 T2 ?u = e1" "entry_of 2 T3 ?u = e2" "entry_of 3 P ?u = e3"
      by (simp_all add: entry_of_def e3_def e2_def e1_def)
    have ge: "g e3 = ?w (pt s e3)" "g e2 = ?w (pt s e2)" "g e1 = ?x" "self_map g P" using g out s1(3) v by (simp_all add: st self_map_def)
    then have "tables P T3 T2 a ?u g" using rw xt by (simp add: tables_def ix self_map_def del: One_nat_def)
    then show "vwrite (PTE_ADDR_OF ?u) 0 ((st g2)\<lparr>pt := g\<rparr>) = Inr ((st g2)\<lparr>pt := g(a + 8 * of_nat i := 0)\<rparr>)"
      using entry_accesses(8) [of P T3 T2 a ?u "st g" 0] ge
      by (simp add: st ix PAGING_FLAG_READ_WRITE_def bit_simps del: One_nat_def)
  qed
  have o3: "vor (PML4E_ADDR_OF v) PAGING_FLAG_READ_WRITE (st (pt s)) = Inr (st g0)"
    using acc(1, 2) [OF self(1), of v] by (simp add: vor_def g0_def flip: e3_def)
  have rw3: "table_entry (g0 e3) T3" using rw v by simp
  have o2: "vor (PDPTE_ADDR_OF v) PAGING_FLAG_READ_WRITE (st g0) = Inr (st g1)"
    using acc(3, 4) [OF s1(1), of v T3, folded e3_def e2_def, OF rw3] by (simp add: vor_def v g1_def)
  have r2: "vread (PDPTE_ADDR_OF v) (st g0) = Inr (pt s e2)"
    using acc(3) [OF s1(1), of v T3, folded e3_def e2_def, OF rw3] by (simp add: v)
  have w: "vwrite (PDE_ADDR_OF v) x (st g) = Inr (st (g(e1 := x)))"
    if "self_map g P" "g e3 = ?w (pt s e3)" "g e2 = ?w (pt s e2)" for g x
    using acc(6) [OF that(1), of v T3 T2 x, folded e3_def e2_def e1_def] that(2, 3) rw by simp
  have q: "vwrite (PDPTE_ADDR_OF v) (pt s e2) (st g4) = Inr (st g5)"
    using acc(4) [OF s1(5), of v T3, folded e3_def e2_def] rw(1) v(10) by (simp add: g5_def)
  have r: "vwrite (PML4E_ADDR_OF v) (pt s e3) (st g5) = Inr (st (g5(e3 := pt s e3)))"
    using acc(2) [OF s1(6), of v] by (simp flip: e3_def)
  have fin: "g5(e3 := pt s e3) = (cleared a (pt s))(e1 := ?y)"
    using ne out by (auto simp: g5_def g4_def g3_def g2_def g1_def g0_def cleared_def fun_eq_iff)
  have c: "vwrite (PDE_ADDR_OF v) ?x (st g1) = Inr (st g2)" "vwrite (PDE_ADDR_OF v) ?y (st g3) = Inr (st g4)"
    using w [OF s1(2) v(3, 4)] w [OF s1(4) v(8, 9)] by (simp_all add: g2_def g4_def)
  have "map_pde v flags s = Inr (st (g5(e3 := pt s e3)))"
    using absent a(1) upper_accesses(5) [OF self, of v T3 T2, folded e3_def e2_def e1_def, OF t]
      acc(1) [OF self(1), of v, folded e3_def]
    by (simp add: map_pde_def present_iff alloc_page [OF get] st(1,3,4) z o3 o2 r2 c q r del: One_nat_def flip: g3_def)
  then show ?thesis by (simp add: fin) (simp add: st_def)
qed

section \<open>Pages for new tables\<close>

text \<open>The ranges of the physical map are whole pages the page tables can point to.\<close>

definition page_range :: "memory_range \<Rightarrow> bool" where
  "page_range r \<longleftrightarrow> is_frame (base_addr r) \<and> range_end r \<le> 2 ^ 52"

definition spare :: "memory_map \<Rightarrow> addr set \<Rightarrow> bool" where
  "spare m T \<longleftrightarrow> wf_mmap m \<and> list_all page_range (live m) \<and> (\<forall>t \<in> T. unat t \<notin> free_bytes m)"

definition free_pages :: "memory_map \<Rightarrow> nat" where
  "free_pages m = (\<Sum>r \<leftarrow> live m. unat (pages r))"

lemma take_pages_count:
  "take_pages n rs = Some (b, rs') \<Longrightarrow> (\<Sum>r \<leftarrow> rs. unat (pages r)) = unat n + (\<Sum>r \<leftarrow> rs'. unat (pages r))"
proof (induction rs arbitrary: rs')
  case (Cons r rs)
  consider "pages r = n" | "pages r \<noteq> n" "n < pages r" | "pages r \<noteq> n" "\<not> n < pages r" by blast
  then show ?case
  proof cases
    case 2
    then have "unat n < unat (pages r)" "n \<le> pages r" by (simp_all add: word_less_nat_alt less_imp_le)
    moreover have "unat (pages r - n) = unat (pages r) - unat n" using \<open>n \<le> pages r\<close> by (rule unat_sub)
    ultimately have "unat (pages r - n) = unat (pages r) - unat n" "unat n < unat (pages r)" by simp_all
    with Cons.prems 2 show ?thesis by auto
  next
    case 3
    with Cons.prems obtain rs1 where "take_pages n rs = Some (b, rs1)" "rs' = r # rs1" by auto
    with Cons.IH show ?thesis by simp
  qed (use Cons.prems in auto)
qed simp

lemma take_pages_frames:
  assumes "take_pages n rs = Some (b, rs')" "wf_ranges rs" "list_all page_range rs"
  shows "is_frame b \<and> list_all page_range rs'"
  using assms
proof (induction rs arbitrary: rs')
  case (Cons r rs)
  have r: "wf_range r" "page_range r" "wf_ranges rs" "list_all page_range rs" using Cons.prems(2, 3) by auto
  consider "pages r = n" | "pages r \<noteq> n" "n < pages r" | "pages r \<noteq> n" "\<not> n < pages r" by blast
  then show ?case
  proof cases
    case 2
    let ?r = "r\<lparr>base_addr := base_addr r + 4096 * n, pages := pages r - n\<rparr>"
    note s = split_range [OF r(1) 2(2)]
    have "unat (base_addr ?r) < range_end ?r" using s(3) by (rule wf_range_nonempty)
    then have "is_frame (base_addr ?r)" using s(1, 2) r(2) unfolding is_frame_iff page_range_def by simp
    then have "page_range ?r" using s(2) r(2) by (simp add: page_range_def)
    with Cons.prems 2 r show ?thesis by (auto simp: page_range_def)
  next
    case 3
    with Cons.prems obtain rs1 where "take_pages n rs = Some (b, rs1)" "rs' = r # rs1" by auto
    with Cons.IH r show ?thesis by simp
  qed (use Cons.prems r in \<open>auto simp: page_range_def\<close>)
qed simp

lemma get_some_pages:
  assumes s: "spare m T" and get: "mmap_get_pages m n = (a, m')" "a \<noteq> 0" "n \<noteq> 0"
  shows "is_frame a" "spare m' T" "block a n \<subseteq> free_bytes m" "free_bytes m' = free_bytes m - block a n"
    "unat a + unat n * 0x1000 \<le> 2 ^ 52"
proof -
  have wf: "wf_mmap m" and w: "wf_ranges (live m)" and p: "list_all page_range (live m)" using s by (simp_all add: spare_def wf_mmap_def)
  note h = mmap_get_pages_hit [OF wf get(1, 2)]
  then show b: "block a n \<subseteq> free_bytes m" "free_bytes m' = free_bytes m - block a n" by simp_all
  have "is_frame a \<and> list_all page_range (live m')"
  proof (rule get_pages_cases [OF wf, of n])
    assume "mmap_get_pages m n = (0, m)"
    with get show ?thesis by simp
  next
    fix b rs m2
    assume some: "take_pages n (live m) = Some (b, rs)" "mmap_get_pages m n = (b, m2)" "live m2 = rs"
    then have "b = a" "rs = live m'" using get by simp_all
    with take_pages_frames [OF some(1) w p] show ?thesis by simp
  qed
  then show "is_frame a" "spare m' T" using s h unfolding spare_def by auto
  have n: "0 < unat n" using get(3) by (simp add: unat_gt_0)
  then have "unat a + 0x1000 * unat n - 1 \<in> block a n" by (simp add: block_def)
  then have "unat a + 0x1000 * unat n - 1 \<in> free_bytes m" using b(1) by blast
  then obtain r where r: "r \<in> set (live m)" "unat a + 0x1000 * unat n - 1 < range_end r"
    by (auto simp: free_bytes_def ranges_bytes_def range_bytes_eq)
  then have "range_end r \<le> 2 ^ 52" using p by (auto simp: list_all_iff page_range_def)
  with r(2) n show "unat a + unat n * 0x1000 \<le> 2 ^ 52" by simp
qed

lemma get_one_page:
  assumes s: "spare m T" and get: "mmap_get_pages m 1 = (a, m')"
  shows "a = 0 \<longleftrightarrow> free_pages m = 0" "a = 0 \<Longrightarrow> m' = m"
    "a \<noteq> 0 \<Longrightarrow> is_frame a \<and> a \<notin> T \<and> spare m' (insert a T) \<and> free_pages m = Suc (free_pages m') \<and>
       unat a \<in> free_bytes m \<and> free_bytes m' = free_bytes m - block a 1"
proof -
  have wf: "wf_mmap m" and w: "wf_ranges (live m)" and p: "list_all page_range (live m)" using s by (simp_all add: spare_def wf_mmap_def)
  show "a = 0 \<Longrightarrow> m' = m" using mmap_get_pages_miss(1) [OF wf] get by simp
  have hit: "is_frame a \<and> a \<notin> T \<and> spare m' (insert a T) \<and> free_pages m = Suc (free_pages m') \<and>
    unat a \<in> free_bytes m \<and> free_bytes m' = free_bytes m - block a 1" if "a \<noteq> 0"
  proof (rule get_pages_cases [OF wf, of 1])
    assume "mmap_get_pages m 1 = (0, m)"
    with get that show ?thesis by simp
  next
    fix b rs m2
    assume some: "take_pages 1 (live m) = Some (b, rs)" "mmap_get_pages m 1 = (b, m2)" "live m2 = rs"
    then have e: "b = a" "m2 = m'" "rs = live m'" using get by simp_all
    note h = mmap_get_pages_hit [OF wf get that]
    have blk: "unat a \<in> block a 1" by (simp add: block_def)
    note t = take_pages_frames [OF some(1) w p] and c = take_pages_count [OF some(1)]
    have "unat a \<in> free_bytes m" "unat a \<notin> free_bytes m'" using h blk by auto
    with t c h s show ?thesis unfolding e free_pages_def spare_def by (auto simp: e)
  qed
  then show "a \<noteq> 0 \<Longrightarrow> is_frame a \<and> a \<notin> T \<and> spare m' (insert a T) \<and> free_pages m = Suc (free_pages m') \<and>
    unat a \<in> free_bytes m \<and> free_bytes m' = free_bytes m - block a 1" .
  show "a = 0 \<longleftrightarrow> free_pages m = 0"
  proof (cases "a = 0")
    case True
    then have "live m = []"
      using mmap_get_pages_miss(2) [OF wf, of 1 m'] get wf_ranges_all [OF w]
      by (cases "live m") (auto simp: wf_range_def word_less_1)
    with True show ?thesis by (simp add: free_pages_def)
  qed (use hit in simp)
qed

section \<open>The state in which pages are mapped\<close>

text \<open>
  The kernel's tables are a trie, no table lies in pages the physical map still has to give, and nobody holds the
  mutexes of the physical map and of the processor calls. \<open>vm_ok\<close> is this with the paging mutex free.
\<close>

definition vm_inner :: "kmem \<Rightarrow> bool" where
  "vm_inner s \<longleftrightarrow> kernel_tables (pt s) (pml4_of s) \<and> spare (phys_mmap s) (table_pages (pt s) (pml4_of s)) \<and>
     \<not> held Phys_Mmap_Mutex s \<and> \<not> held Ipcall_Mutex s"

definition vm_ok :: "kmem \<Rightarrow> bool" where
  "vm_ok s \<longleftrightarrow> vm_inner s \<and> \<not> held Paging_Mutex s"

abbreviation table_of :: "nat \<Rightarrow> addr \<Rightarrow> kmem \<Rightarrow> addr option" where
  "table_of d v s \<equiv> table_at (pt s) (pml4_of s) d v"

abbreviation writable_to :: "nat \<Rightarrow> addr \<Rightarrow> kmem \<Rightarrow> bool" where
  "writable_to d v s \<equiv> table_w (pt s) (pml4_of s) d v"

text \<open>No entry on the way maps a large page.\<close>

definition no_large :: "addr \<Rightarrow> kmem \<Rightarrow> bool" where
  "no_large v s \<longleftrightarrow> (\<forall>k < 3. case table_of k v s of None \<Rightarrow> True
     | Some t \<Rightarrow> \<not> (bit (pt s (entry_of (3 - k) t v)) 0 \<and> bit (pt s (entry_of (3 - k) t v)) 7))"

text \<open>The number of tables to be made before \<open>v\<close> can be mapped.\<close>

definition missing :: "addr \<Rightarrow> kmem \<Rightarrow> nat" where
  "missing v s = length (filter (\<lambda>d. table_of d v s = None) [1, 2, 3])"

text \<open>What making room for a page leaves of the tables of any page.\<close>

definition grows :: "kmem \<Rightarrow> kmem \<Rightarrow> bool" where
  "grows s s' \<longleftrightarrow> paging_only s s' \<and> vm_inner s' \<and> free_bytes (phys_mmap s') \<subseteq> free_bytes (phys_mmap s) \<and>
     (\<forall>u. ordinary u \<longrightarrow> (no_large u s \<longrightarrow> no_large u s') \<and>
       (\<forall>k \<le> 3. \<forall>t. table_of k u s = Some t \<longrightarrow> table_of k u s' = Some t \<and> (writable_to k u s \<longrightarrow> writable_to k u s')))"

lemma paging_only_simps:
  assumes "paging_only s s'"
  shows "pml4_of s' = pml4_of s" "cr3 s' = cr3 s" "cr0_wp s' = cr0_wp s" "mutexes s' = mutexes s"
proof -
  note e = assms [unfolded paging_only_def]
  show "cr3 s' = cr3 s" "cr0_wp s' = cr0_wp s" "mutexes s' = mutexes s" by (subst e, simp)+
  then show "pml4_of s' = pml4_of s" by (simp add: pml4_of_def)
qed

lemma growsD:
  assumes "grows s s'"
  shows "paging_only s s'" "vm_inner s'" "free_bytes (phys_mmap s') \<subseteq> free_bytes (phys_mmap s)"
    "ordinary u \<Longrightarrow> no_large u s \<Longrightarrow> no_large u s'"
    "ordinary u \<Longrightarrow> k \<le> 3 \<Longrightarrow> table_of k u s = Some t \<Longrightarrow> table_of k u s' = Some t"
    "ordinary u \<Longrightarrow> k \<le> 3 \<Longrightarrow> table_of k u s = Some t \<Longrightarrow> writable_to k u s \<Longrightarrow> writable_to k u s'"
  using assms unfolding grows_def by blast+

lemma grows_trans: "grows s t \<Longrightarrow> grows t r \<Longrightarrow> grows s r"
  unfolding grows_def using paging_only_trans [of s t r] by (meson order_trans)

lemma table_at_SucD:
  assumes "table_at f P (Suc d) v = Some t'"
  shows "\<exists>t. table_at f P d v = Some t \<and> table_entry (f (entry_of (3 - d) t v)) t'"
  using assms by (auto simp: Let_def table_entry_def split: option.splits if_splits)

lemma vm_innerD:
  assumes "vm_inner s"
  shows "kernel_tables (pt s) (pml4_of s)" "spare (phys_mmap s) (table_pages (pt s) (pml4_of s))"
    "\<not> held Phys_Mmap_Mutex s" "\<not> held Ipcall_Mutex s" "self_map (pt s) (pml4_of s)"
  using assms kernel_tablesD(1, 2) [of "pt s" "pml4_of s"] unfolding vm_inner_def self_map_def by blast+

text \<open>An entry that is absent, and one that is not, where there are no large pages.\<close>

lemma no_large_entry:
  assumes "no_large v s" "d \<le> 2" "table_of d v s = Some t"
  shows "table_of (Suc d) v s = (let e = pt s (entry_of (3 - d) t v) in if bit e 0 then Some (e AND frame_mask) else None)"
proof -
  have "d < 3" using assms(2) by simp
  with assms(1) have "case table_of d v s of None \<Rightarrow> True
     | Some t \<Rightarrow> \<not> (bit (pt s (entry_of (3 - d) t v)) 0 \<and> bit (pt s (entry_of (3 - d) t v)) 7)" unfolding no_large_def by blast
  then show ?thesis using assms(3) by (simp add: Let_def)
qed

text \<open>The three functions, by the depth of the table whose entry they look at.\<close>

definition map_level :: "nat \<Rightarrow> addr \<Rightarrow> u64 \<Rightarrow> kmem \<Rightarrow> kmem res" where
  "map_level d = (if d = 0 then map_pml4e else if d = 1 then map_pdpte else map_pde)"

lemma depth_cases:
  assumes "d \<le> (2 :: nat)"
  obtains "d = 0" | "d = 1" | "d = 2"
  using assms by linarith

text \<open>The tables above an entry, and that the entries on the way are different words.\<close>

lemma way:
  assumes "kernel_tables f P" "ordinary v"
  shows "table_at f P 0 v = Some P" "entry_of 3 P v \<noteq> P + 8 * 511"
    "table_at f P 1 v = Some T3 \<Longrightarrow> table_entry (f (entry_of 3 P v)) T3 \<and> distinct [P + 8 * 511, entry_of 3 P v, entry_of 2 T3 v]"
    "table_at f P 2 v = Some T2 \<Longrightarrow> \<exists>T3. table_at f P 1 v = Some T3 \<and> table_entry (f (entry_of 3 P v)) T3 \<and>
       table_entry (f (entry_of 2 T3 v)) T2 \<and> distinct [P + 8 * 511, entry_of 3 P v, entry_of 2 T3 v, entry_of 1 T2 v]"
    "table_at f P 3 v = Some T1 \<Longrightarrow> \<exists>T3 T2. table_at f P 1 v = Some T3 \<and> table_at f P 2 v = Some T2 \<and>
       separate P T3 T2 T1 v \<and> tables P T3 T2 T1 v f"
proof -
  note K = assms(1) and o = assms(2)
  show t0: "table_at f P 0 v = Some P" by simp
  have self: "entry_of (3 - d) t v \<noteq> P + 8 * 511" if "d \<le> 3" "table_at f P d v = Some t" for d t
    using self_entry_other [OF K o that] .
  have diff: "entry_of (3 - d) t v \<noteq> entry_of (3 - k) t' v"
    if "d < k" "k \<le> 3" "table_at f P d v = Some t" "table_at f P k v = Some t'" for d k t t'
    using entry_shared [OF K o o _ that(2) that(3, 4)] that(1, 2) by fastforce
  show "entry_of 3 P v \<noteq> P + 8 * 511" using self [of 0] by simp
  have "Suc 0 = 1" "Suc 1 = 2" "Suc 2 = (3 :: nat)" "3 - 0 = (3 :: nat)" "3 - 1 = (2 :: nat)" "3 - 2 = (1 :: nat)" "3 - 3 = (0 :: nat)" by simp_all
  note n = this
  note S = table_at_SucD [of f P 0 v, unfolded n] table_at_SucD [of f P 1 v, unfolded n] table_at_SucD [of f P 2 v, unfolded n]
  have e1: "table_entry (f (entry_of 3 P v)) T3 \<and> distinct [P + 8 * 511, entry_of 3 P v, entry_of 2 T3 v]"
    if "table_at f P 1 v = Some T3" for T3
    using S(1) [OF that] self [of 0 P] self [of 1 T3] diff [of 0 1 P T3] that by (simp add: eq_commute del: One_nat_def)
  then show "table_entry (f (entry_of 3 P v)) T3 \<and> distinct [P + 8 * 511, entry_of 3 P v, entry_of 2 T3 v]"
    if "table_at f P 1 v = Some T3" using that by blast
  have e2: "\<exists>T3. table_at f P 1 v = Some T3 \<and> table_entry (f (entry_of 3 P v)) T3 \<and>
       table_entry (f (entry_of 2 T3 v)) T2 \<and> distinct [P + 8 * 511, entry_of 3 P v, entry_of 2 T3 v, entry_of 1 T2 v]"
    if t2: "table_at f P 2 v = Some T2" for T2
  proof -
    from S(2) [OF t2] obtain T3 where t3: "table_at f P 1 v = Some T3" "table_entry (f (entry_of 2 T3 v)) T2" by blast
    have "entry_of 1 T2 v \<noteq> P + 8 * 511" "entry_of 3 P v \<noteq> entry_of 1 T2 v" "entry_of 2 T3 v \<noteq> entry_of 1 T2 v"
      using self [of 2, unfolded n, OF _ t2] diff [of 0 2, unfolded n, OF _ _ t0 t2] diff [of 1 2, unfolded n, OF _ _ t3(1) t2]
      by (simp_all del: One_nat_def)
    with t3 e1 [OF t3(1)] show ?thesis by auto
  qed
  then show "table_at f P 2 v = Some T2 \<Longrightarrow> \<exists>T3. table_at f P 1 v = Some T3 \<and> table_entry (f (entry_of 3 P v)) T3 \<and>
       table_entry (f (entry_of 2 T3 v)) T2 \<and> distinct [P + 8 * 511, entry_of 3 P v, entry_of 2 T3 v, entry_of 1 T2 v]" .
  show "\<exists>T3 T2. table_at f P 1 v = Some T3 \<and> table_at f P 2 v = Some T2 \<and> separate P T3 T2 T1 v \<and> tables P T3 T2 T1 v f"
    if t1: "table_at f P 3 v = Some T1"
  proof -
    from S(3) [OF t1] obtain T2 where t2: "table_at f P 2 v = Some T2" "table_entry (f (entry_of 1 T2 v)) T1" by blast
    from e2 [OF t2(1)] obtain T3 where t3: "table_at f P 1 v = Some T3" "table_entry (f (entry_of 3 P v)) T3"
      "table_entry (f (entry_of 2 T3 v)) T2" "distinct [P + 8 * 511, entry_of 3 P v, entry_of 2 T3 v, entry_of 1 T2 v]" by blast
    have "entry_of 0 T1 v \<noteq> P + 8 * 511" "entry_of 3 P v \<noteq> entry_of 0 T1 v" "entry_of 2 T3 v \<noteq> entry_of 0 T1 v"
        "entry_of 1 T2 v \<noteq> entry_of 0 T1 v"
      using self [of 3, unfolded n, OF _ t1] diff [of 0 3, unfolded n, OF _ _ t0 t1] diff [of 1 3, unfolded n, OF _ _ t3(1) t1]
        diff [of 2 3, unfolded n, OF _ _ t2(1) t1] by (simp_all del: One_nat_def)
    with t3(4) have "separate P T3 T2 T1 v" by (auto simp: separate_def)
    with t3 t2 kernel_tablesD(1, 2) [OF K] show ?thesis unfolding tables_def by blast
  qed
qed

lemma level_present:
  fixes s :: kmem and d :: nat and t v :: addr
  defines "e \<equiv> entry_of (3 - d) t v"
  assumes vm: "vm_inner s" "ordinary v" and d: "d \<le> 2" and t: "table_of d v s = Some t"
    and p: "bit (pt s e) 0" and w: "cr0_wp s \<longrightarrow> writable_to d v s"
  shows "map_level d v flags s = Inr (s\<lparr>pt := (pt s)(e := pt s e OR flags)\<rparr>)"
  using d
proof (cases rule: depth_cases)
  note K = vm_innerD(1) [OF vm(1)] and up = upper_accesses [OF vm_innerD(5) [OF vm(1)] refl]
  case 1
  then show ?thesis using t p up(1, 2) [of v]
    by (simp add: map_level_def map_pml4e_def present_iff vor_def e_def)
next
  note K = vm_innerD(1) [OF vm(1)] and up = upper_accesses [OF vm_innerD(5) [OF vm(1)] refl]
  case 2
  then have "table_of 1 v s = Some t" using t by simp
  from way(3) [OF K vm(2) this] have te: "table_entry (pt s (entry_of 3 (pml4_of s) v)) t" by blast
  from w 2 have "bit (pt s (entry_of 3 (pml4_of s) v)) 1 \<or> \<not> cr0_wp s" by auto
  with 2 p up(3, 4) [OF te] show ?thesis
    by (simp add: map_level_def map_pdpte_def present_iff vor_def e_def)
next
  note K = vm_innerD(1) [OF vm(1)] and up = upper_accesses [OF vm_innerD(5) [OF vm(1)] refl]
  case 3
  then have t2: "table_of 2 v s = Some t" using t by simp
  from way(4) [OF K vm(2) this] obtain T3 where te: "table_of 1 v s = Some T3"
    "table_entry (pt s (entry_of 3 (pml4_of s) v)) T3" "table_entry (pt s (entry_of 2 T3 v)) t" by blast
  have "writable_to 2 v s \<longleftrightarrow> bit (pt s (entry_of 3 (pml4_of s) v)) 1 \<and> bit (pt s (entry_of 2 T3 v)) 1"
    using te(1) by (simp add: numeral_2_eq_2 del: table_at.simps(2))
  with w 3 have "bit (pt s (entry_of 3 (pml4_of s) v)) 1 \<and> bit (pt s (entry_of 2 T3 v)) 1 \<or> \<not> cr0_wp s" by auto
  with 3 p up(5, 6) [OF te(2, 3)] show ?thesis
    by (simp add: map_level_def map_pde_def present_iff vor_def e_def)
qed

lemma level_absent:
  fixes s :: kmem and d :: nat and t v :: addr
  defines "e \<equiv> entry_of (3 - d) t v"
  assumes vm: "vm_inner s" "ordinary v" and d: "d \<le> 2" and t: "table_of d v s = Some t" and fl: "plain_flags flags"
    and absent: "\<not> bit (pt s e) 0" and get: "mmap_get_pages (phys_mmap s) 1 = (a, m)"
  shows "a = 0 \<Longrightarrow> \<exists>msg. map_level d v flags s = Inl (Panic msg)"
    "a \<noteq> 0 \<Longrightarrow> map_level d v flags s =
       Inr (s\<lparr>phys_mmap := m, pt := (cleared a (pt s))(e := a OR PAGING_FLAG_PRESENT OR flags)\<rparr>)"
proof -
  let ?P = "pml4_of s"
  note K = vm_innerD(1) [OF vm(1)] and nh = vm_innerD(3) [OF vm(1)] and self = vm_innerD(5) [OF vm(1)]
  note up = upper_accesses [OF self refl] and P = kernel_tablesD(3) [OF K]
  note page = get_one_page(3) [OF vm_innerD(2) [OF vm(1)] get]
  have out: "entry_of l t' u \<notin> cells a" if "a \<noteq> 0" "table_of k v s = Some t'" "k \<le> 3" for l k t' u
  proof -
    have "t' \<in> table_pages (pt s) ?P" using that vm(2) unfolding table_pages_def by blast
    then have "t' \<noteq> a" using page [OF that(1)] by auto
    then show ?thesis using page [OF that(1)] table_at_frame [OF P that(2)] by (intro entry_not_cell) auto
  qed
  have self_out: "?P + 8 * 511 \<notin> cells a" if "a \<noteq> 0"
    using out [OF that, of 0 ?P 3 "PTE_ADDR_OF v"] by (simp add: entry_of_simps)
  have "(a = 0 \<longrightarrow> (\<exists>msg. map_level d v flags s = Inl (Panic msg))) \<and> (a \<noteq> 0 \<longrightarrow> map_level d v flags s =
       Inr (s\<lparr>phys_mmap := m, pt := (cleared a (pt s))(e := a OR PAGING_FLAG_PRESENT OR flags)\<rparr>))"
    using d
  proof (cases rule: depth_cases)
    case 1
    then have t0: "t = ?P" using t by simp
    then have e: "e = entry_of 3 ?P v" using 1 by (simp add: e_def)
    have "map_pml4e v flags s = Inr (s\<lparr>phys_mmap := m, pt := (cleared a (pt s))(e := a OR PAGING_FLAG_PRESENT OR flags)\<rparr>)"
      if "a \<noteq> 0" unfolding e using map_pml4e_link [OF self refl _ fl nh get that] page [OF that] self_out [OF that]
        out [OF that, of 0 ?P 3 v] way(2) [OF K vm(2)] absent by (simp add: e)
    moreover have "\<exists>msg. map_pml4e v flags s = Inl (Panic msg)" if "a = 0"
      using that absent up(1) [of v] by (simp add: map_pml4e_def present_iff alloc_page [OF nh get] flip: e)
    ultimately show ?thesis using 1 by (simp add: map_level_def)
  next
    case 2
    then have t1: "table_of 1 v s = Some t" using t by simp
    note y = way(3) [OF K vm(2) t1]
    have e: "e = entry_of 2 t v" using 2 by (simp add: e_def)
    have "map_pdpte v flags s = Inr (s\<lparr>phys_mmap := m, pt := (cleared a (pt s))(e := a OR PAGING_FLAG_PRESENT OR flags)\<rparr>)"
      if "a \<noteq> 0" unfolding e using page [OF that] self_out [OF that]
        out [OF that, of 0 ?P 3 v] out [OF that t1, of 2 v] y absent
      by (intro map_pdpte_link [OF self refl _ _ fl nh get that]) (auto simp: e)
    moreover have "\<exists>msg. map_pdpte v flags s = Inl (Panic msg)" if "a = 0"
      using that absent up(3) [of v t] y by (simp add: map_pdpte_def present_iff alloc_page [OF nh get] flip: e)
    ultimately show ?thesis using 2 by (simp add: map_level_def)
  next
    case 3
    then have t2: "table_of 2 v s = Some t" using t by simp
    from way(4) [OF K vm(2) t2] obtain T3 where y: "table_of 1 v s = Some T3"
      "table_entry (pt s (entry_of 3 ?P v)) T3" "table_entry (pt s (entry_of 2 T3 v)) t"
      "distinct [?P + 8 * 511, entry_of 3 ?P v, entry_of 2 T3 v, entry_of 1 t v]" by blast
    have e: "e = entry_of 1 t v" using 3 by (simp add: e_def)
    have "map_pde v flags s = Inr (s\<lparr>phys_mmap := m, pt := (cleared a (pt s))(e := a OR PAGING_FLAG_PRESENT OR flags)\<rparr>)"
      if "a \<noteq> 0" unfolding e using page [OF that] self_out [OF that]
        out [OF that, of 0 ?P 3 v] out [OF that y(1), of 2 v] out [OF that t2, of 1 v] y absent
      by (intro map_pde_link [OF self refl _ _ _ fl nh get that]) (auto simp: e)
    moreover have "\<exists>msg. map_pde v flags s = Inl (Panic msg)" if "a = 0"
      using that absent up(5) [OF y(2, 3)] by (simp add: map_pde_def present_iff alloc_page [OF nh get] e)
    ultimately show ?thesis using 3 by (simp add: map_level_def)
  qed
  then show "a = 0 \<Longrightarrow> \<exists>msg. map_level d v flags s = Inl (Panic msg)"
    "a \<noteq> 0 \<Longrightarrow> map_level d v flags s =
       Inr (s\<lparr>phys_mmap := m, pt := (cleared a (pt s))(e := a OR PAGING_FLAG_PRESENT OR flags)\<rparr>)" by blast+
qed

lemma pml4_of_mmap [simp]: "pml4_of (s\<lparr>phys_mmap := m\<rparr>) = pml4_of s"
  by (simp add: pml4_of_def)

text \<open>One level of \<open>map_page\<close>: whether the entry is there or a table has to be made for it.\<close>

lemma level_step:
  assumes vm: "vm_inner s" "ordinary v" "no_large v s" and d: "d \<le> 2" and t: "table_of d v s = Some t" and fl: "plain_flags flags"
    and w: "cr0_wp s \<longrightarrow> table_of (Suc d) v s \<noteq> None \<longrightarrow> writable_to d v s"
  shows "table_of (Suc d) v s = None \<Longrightarrow> free_pages (phys_mmap s) = 0 \<Longrightarrow> \<exists>msg. map_level d v flags s = Inl (Panic msg)"
    "table_of (Suc d) v s \<noteq> None \<or> free_pages (phys_mmap s) \<noteq> 0 \<Longrightarrow> \<exists>s'. map_level d v flags s = Inr s' \<and> grows s s' \<and>
       flushed s' = flushed s \<and> (\<forall>u. ordinary u \<longrightarrow> kept flags (translate s u) (translate s' u)) \<and>
       table_of (Suc d) v s' \<noteq> None \<and> (\<forall>k \<le> 3. Suc d < k \<longrightarrow> table_of k v s' = table_of k v s) \<and>
       free_pages (phys_mmap s) = free_pages (phys_mmap s') + (if table_of (Suc d) v s = None then 1 else 0) \<and>
       (bit flags 1 \<longrightarrow> writable_to d v s \<longrightarrow> writable_to (Suc d) v s')"
proof -
  let ?P = "pml4_of s" and ?e = "entry_of (3 - d) t v"
  note K = vm_innerD(1) [OF vm(1)] and sp = vm_innerD(2) [OF vm(1)]
  note nl = no_large_entry [OF vm(3) d t]
  obtain a m where get: "mmap_get_pages (phys_mmap s) 1 = (a, m)" by fastforce
  note page = get_one_page [OF sp get]
  show "\<exists>msg. map_level d v flags s = Inl (Panic msg)" if "table_of (Suc d) v s = None" "free_pages (phys_mmap s) = 0"
  proof -
    have "\<not> bit (pt s ?e) 0" using that(1) nl by (auto simp: Let_def split: if_splits)
    then show ?thesis using level_absent(1) [OF vm(1, 2) d t fl _ get] page(1) that(2) by blast
  qed
  assume room: "table_of (Suc d) v s \<noteq> None \<or> free_pages (phys_mmap s) \<noteq> 0"
  show "\<exists>s'. map_level d v flags s = Inr s' \<and> grows s s' \<and>
       flushed s' = flushed s \<and> (\<forall>u. ordinary u \<longrightarrow> kept flags (translate s u) (translate s' u)) \<and>
       table_of (Suc d) v s' \<noteq> None \<and> (\<forall>k \<le> 3. Suc d < k \<longrightarrow> table_of k v s' = table_of k v s) \<and>
       free_pages (phys_mmap s) = free_pages (phys_mmap s') + (if table_of (Suc d) v s = None then 1 else 0) \<and>
       (bit flags 1 \<longrightarrow> writable_to d v s \<longrightarrow> writable_to (Suc d) v s')"
  proof (cases "bit (pt s ?e) 0")
    case True
    define g where "g = (pt s)(?e := pt s ?e OR flags)"
    let ?s = "s\<lparr>pt := g\<rparr>"
    have run: "map_level d v flags s = Inr ?s"
      unfolding g_def using True nl w by (intro level_present [OF vm(1, 2) d t]) (auto simp: Let_def)
    have ek: "entry_kept flags (pt s x) (g x)" for x using True by (auto simp: g_def entry_kept_def)
    note ak = all_kept [of flags "pt s" g, OF fl ek] and eb = entry_kept_bits [OF ek fl]
    have tp: "table_pages g ?P = table_pages (pt s) ?P" by (simp add: table_pages_def ak(1))
    have "vm_inner ?s" using vm(1) ak(3) [OF K] by (simp add: vm_inner_def tp)
    moreover have "paging_only s ?s" by (simp add: paging_only_def)
    moreover have "no_large u s \<Longrightarrow> no_large u ?s" for u by (auto simp: no_large_def ak(1) eb split: option.splits)
    ultimately have "grows s ?s" using ak(1, 2) unfolding grows_def by simp
    moreover have "bit flags 1 \<longrightarrow> writable_to d v s \<longrightarrow> writable_to (Suc d) v ?s"
    proof (intro impI)
      assume f: "bit flags 1" "writable_to d v s"
      have "bit (g ?e) 1" using f(1) by (simp add: g_def bit_or_iff)
      moreover have "table_w g ?P d v" by (rule ak(2) [OF f(2)])
      moreover have "table_at g ?P d v = Some t" using t by (simp add: ak(1))
      ultimately show "writable_to (Suc d) v ?s" by simp
    qed
    moreover have "table_of (Suc d) v s \<noteq> None" using nl True by (simp add: Let_def)
    ultimately show ?thesis using run ak(1, 4) unfolding translate_def
      by (intro exI [of _ ?s]) (simp del: table_at.simps table_w.simps)
  next
    case False
    then have none: "table_of (Suc d) v s = None" using nl by (simp add: Let_def)
    then have a0: "a \<noteq> 0" using room page(1) by simp
    note a = page(3) [OF a0]
    define g where "g = (cleared a (pt s))(?e := a OR PAGING_FLAG_PRESENT OR flags)"
    let ?s = "s\<lparr>phys_mmap := m, pt := g\<rparr>"
    have run: "map_level d v flags s = Inr ?s"
      unfolding g_def by (rule level_absent(2) [OF vm(1, 2) d t fl False get a0])
    have fr: "is_frame a" "a \<notin> table_pages (pt s) ?P" using a by simp_all
    note ne = linked_entry [OF fr(1) fl]
    note ls = link_step [OF K vm(2) _ d t False fr ne(1), folded g_def]
    have P: "pml4_of ?s = ?P" by (simp add: pml4_of_def)
    have "table_pages g ?P \<subseteq> insert a (table_pages (pt s) ?P)"
    proof
      fix x assume "x \<in> table_pages g ?P"
      then obtain u k where u: "ordinary u" "k \<le> 3" "table_at g ?P k u = Some x" unfolding table_pages_def by blast
      then have "x = a \<or> table_of k u s = Some x" using ls(1) [OF u(1, 2)] by (auto split: if_splits)
      then show "x \<in> insert a (table_pages (pt s) ?P)" using u(1, 2) unfolding table_pages_def by blast
    qed
    then have "spare m (table_pages g ?P)" using a unfolding spare_def by blast
    then have "vm_inner ?s" using vm(1) ls(3) [OF vm(2)] by (simp add: vm_inner_def P)
    moreover have "paging_only s ?s" by (simp add: paging_only_def)
    moreover have "no_large u ?s" if "ordinary u" "no_large u s" for u
      unfolding no_large_def P
    proof (intro allI impI)
      fix k :: nat assume k: "k < 3"
      show "case table_at (pt ?s) ?P k u of None \<Rightarrow> True
        | Some t \<Rightarrow> \<not> (bit (pt ?s (entry_of (3 - k) t u)) 0 \<and> bit (pt ?s (entry_of (3 - k) t u)) 7)"
      proof (cases "table_at g ?P k u")
        case (Some t')
        have "case table_of k u s of None \<Rightarrow> True
          | Some t \<Rightarrow> \<not> (bit (pt s (entry_of (3 - k) t u)) 0 \<and> bit (pt s (entry_of (3 - k) t u)) 7)"
          using that(2) k unfolding no_large_def by blast
        with ls(5) [OF that(1) _ Some] k Some show ?thesis by auto
      qed simp
    qed
    moreover have tk: "table_of k u ?s = Some t'" if "ordinary u" "k \<le> 3" "table_of k u s = Some t'" for u k t'
    proof -
      have "\<not> (k = Suc d \<and> same_path (Suc d) u v)" using that(3) none table_at_path [of "Suc d" u v "pt s" ?P] by auto
      then show ?thesis using ls(1) [OF that(1, 2)] that(3) by (auto simp: P)
    qed
    moreover have "writable_to k u ?s" if "ordinary u" "k \<le> 3" "table_of k u s = Some t'" "writable_to k u s" for u k t'
      using ls(2) [OF that(1-3)] that(4) by (simp add: P)
    ultimately have "grows s ?s" using a unfolding grows_def by (simp del: table_at.simps table_w.simps)
    moreover have "table_of (Suc d) v ?s = Some a" using ls(1) [OF vm(2), of "Suc d"] d by (simp only: P) simp
    moreover have "\<forall>k \<le> 3. Suc d < k \<longrightarrow> table_of k v ?s = table_of k v s" using ls(1) [OF vm(2)] by (auto simp: P)
    moreover have "bit flags 1 \<longrightarrow> writable_to d v s \<longrightarrow> writable_to (Suc d) v ?s"
      using ls(2) [OF vm(2) _ t] tk [OF vm(2) _ t] ne(2) d by (simp add: P) (simp add: g_def)
    moreover have "\<forall>u. ordinary u \<longrightarrow> kept flags (translate s u) (translate ?s u)"
      using ls(4) unfolding translate_def P by simp
    ultimately show ?thesis using run a none by (intro exI [of _ ?s]) (simp del: table_at.simps table_w.simps)
  qed
qed

text \<open>
  With write protection on, flags without the write flag are only added to an entry of a lower table that is there
  when the entries above allow writing: the code changes it through the recursive mapping.
\<close>

definition opens :: "u64 \<Rightarrow> addr \<Rightarrow> kmem \<Rightarrow> bool" where
  "opens flags v s \<longleftrightarrow> (cr0_wp s \<and> \<not> bit flags 1 \<longrightarrow>
     (table_of 2 v s \<noteq> None \<longrightarrow> writable_to 1 v s) \<and> (table_of 3 v s \<noteq> None \<longrightarrow> writable_to 2 v s))"

lemma grows_refl: "vm_inner s \<Longrightarrow> grows s s"
  by (simp add: grows_def paging_only_def)

lemma grows_writable:
  assumes "grows s t" "ordinary v" "k \<le> 2" "table_of (Suc k) v s \<noteq> None" "writable_to k v s"
  shows "writable_to k v t"
proof -
  obtain t' where "table_of (Suc k) v s = Some t'" using assms(4) by blast
  from table_at_SucD [OF this] growsD(6) [OF assms(1, 2)] assms(3, 5) show ?thesis by auto
qed

lemma make_tables:
  assumes vm: "vm_inner s" "ordinary v" "no_large v s" and fl: "plain_flags flags" and o: "opens flags v s"
  defines "r \<equiv> bindR (map_pml4e v flags s) (\<lambda>s. bindR (map_pdpte v flags s) (map_pde v flags))"
  shows "free_pages (phys_mmap s) < missing v s \<Longrightarrow> \<exists>msg. r = Inl (Panic msg)"
    "missing v s \<le> free_pages (phys_mmap s) \<Longrightarrow> \<exists>t. r = Inr t \<and> grows s t \<and> flushed t = flushed s \<and>
       (\<forall>u. ordinary u \<longrightarrow> kept flags (translate s u) (translate t u)) \<and> table_of 3 v t \<noteq> None \<and>
       free_pages (phys_mmap s) = free_pages (phys_mmap t) + missing v s \<and> (bit flags 1 \<longrightarrow> writable_to 3 v t)"
proof -
  let ?n = "\<lambda>s. free_pages (phys_mmap s)" and ?m = "\<lambda>d. if table_of d v s = None then 1 else 0 :: nat"
  have S: "Suc 0 = 1" "Suc 1 = 2" "Suc 2 = (3 :: nat)" by simp_all
  have mm: "missing v s = ?m 1 + ?m 2 + ?m 3" by (simp add: missing_def del: One_nat_def table_at.simps)
  have lv: "map_pml4e = map_level 0" "map_pdpte = map_level 1" "map_pde = map_level 2" by (simp_all add: map_level_def)
  have "(?n s < missing v s \<longrightarrow> (\<exists>msg. r = Inl (Panic msg))) \<and>
    (missing v s \<le> ?n s \<longrightarrow> (\<exists>t. r = Inr t \<and> grows s t \<and> flushed t = flushed s \<and>
       (\<forall>u. ordinary u \<longrightarrow> kept flags (translate s u) (translate t u)) \<and> table_of 3 v t \<noteq> None \<and>
       ?n s = ?n t + missing v s \<and> (bit flags 1 \<longrightarrow> writable_to 3 v t)))"
  proof (cases "?n s < ?m 1")
    case True
    then have "\<exists>msg. map_level 0 v flags s = Inl (Panic msg)"
      using level_step(1) [OF vm _ _ fl, of 0 "pml4_of s", unfolded S] by (auto simp del: table_at.simps(2) split: if_splits)
    then show ?thesis using True by (auto simp: r_def lv mm simp del: table_at.simps table_w.simps)
  next
    case False
    then obtain s1 where s1: "map_level 0 v flags s = Inr s1" "grows s s1" "flushed s1 = flushed s"
      "\<forall>u. ordinary u \<longrightarrow> kept flags (translate s u) (translate s1 u)" "table_of 1 v s1 \<noteq> None"
      "\<forall>k \<le> 3. 1 < k \<longrightarrow> table_of k v s1 = table_of k v s" "?n s = ?n s1 + ?m 1" "bit flags 1 \<longrightarrow> writable_to 1 v s1"
      using level_step(2) [OF vm _ _ fl, of 0 "pml4_of s", unfolded S] by (auto simp del: table_at.simps(2) table_w.simps(2) split: if_splits)
    then obtain t1 where t1: "table_of 1 v s1 = Some t1" by blast
    have e1: "table_of 2 v s1 = table_of 2 v s" "table_of 3 v s1 = table_of 3 v s" using s1(6) by simp_all
    have wp1: "cr0_wp s1 = cr0_wp s" using paging_only_simps(3) [OF growsD(1) [OF s1(2)]] .
    have w1: "cr0_wp s1 \<longrightarrow> table_of 2 v s1 \<noteq> None \<longrightarrow> writable_to 1 v s1"
      using o s1(8) grows_writable [OF s1(2) vm(2), of 1, unfolded S] unfolding opens_def wp1 e1 by auto
    note v1 = growsD(2) [OF s1(2)] vm(2) growsD(4) [OF s1(2) vm(2, 3)]
    note L1 = level_step [OF v1 _ t1 fl, unfolded S, OF _ w1]
    show ?thesis
    proof (cases "?n s1 < ?m 2")
      case True
      then have "\<exists>msg. map_level 1 v flags s1 = Inl (Panic msg)" using L1(1) e1 by (auto simp del: One_nat_def split: if_splits)
      then show ?thesis using True s1(1, 7) by (auto simp: r_def lv mm simp del: One_nat_def table_at.simps table_w.simps)
    next
      case False
      then have "table_of 2 v s1 \<noteq> None \<or> ?n s1 \<noteq> 0" using e1 by (auto split: if_splits)
      with L1(2) e1 obtain s2 where s2: "map_level 1 v flags s1 = Inr s2" "grows s1 s2" "flushed s2 = flushed s1"
        "\<forall>u. ordinary u \<longrightarrow> kept flags (translate s1 u) (translate s2 u)" "table_of 2 v s2 \<noteq> None"
        "\<forall>k \<le> 3. 2 < k \<longrightarrow> table_of k v s2 = table_of k v s1" "?n s1 = ?n s2 + ?m 2"
        "bit flags 1 \<longrightarrow> writable_to 1 v s1 \<longrightarrow> writable_to 2 v s2" by (auto simp del: One_nat_def)
      then obtain t2 where t2: "table_of 2 v s2 = Some t2" by blast
      have e2: "table_of 3 v s2 = table_of 3 v s" using s2(6) e1 by simp
      have wp2: "cr0_wp s2 = cr0_wp s" using paging_only_simps(3) [OF growsD(1) [OF s2(2)]] wp1 by simp
      note g2 = grows_trans [OF s1(2) s2(2)]
      have w2: "cr0_wp s2 \<longrightarrow> table_of 3 v s2 \<noteq> None \<longrightarrow> writable_to 2 v s2"
        using o s1(8) s2(8) grows_writable [OF g2 vm(2), of 2, unfolded S] unfolding opens_def wp2 e2 by auto
      note v2 = growsD(2) [OF g2] vm(2) growsD(4) [OF g2 vm(2, 3)]
      note L2 = level_step [OF v2 _ t2 fl, unfolded S, OF _ w2]
      show ?thesis
      proof (cases "?n s2 < ?m 3")
        case True
        then have "\<exists>msg. map_level 2 v flags s2 = Inl (Panic msg)" using L2(1) e2 by (auto split: if_splits)
        then show ?thesis using True s1(1, 7) s2(1, 7) by (auto simp: r_def lv mm simp del: One_nat_def table_at.simps table_w.simps)
      next
        case False
        then have "table_of 3 v s2 \<noteq> None \<or> ?n s2 \<noteq> 0" using e2 by (auto split: if_splits)
        with L2(2) e2 obtain s3 where s3: "map_level 2 v flags s2 = Inr s3" "grows s2 s3" "flushed s3 = flushed s2"
          "\<forall>u. ordinary u \<longrightarrow> kept flags (translate s2 u) (translate s3 u)" "table_of 3 v s3 \<noteq> None"
          "?n s2 = ?n s3 + ?m 3" "bit flags 1 \<longrightarrow> writable_to 2 v s2 \<longrightarrow> writable_to 3 v s3" by auto
        have run: "r = Inr s3" using s1(1) s2(1) s3(1) by (simp add: r_def lv)
        have n: "?n s = ?n s3 + missing v s" using s1(7) s2(7) s3(6) unfolding mm by linarith
        have k: "\<forall>u. ordinary u \<longrightarrow> kept flags (translate s u) (translate s3 u)"
          using s1(4) s2(4) s3(4) kept_trans by blast
        have "grows s s3" by (rule grows_trans [OF g2 s3(2)])
        moreover have "flushed s3 = flushed s" using s1(3) s2(3) s3(3) by simp
        moreover have "bit flags 1 \<longrightarrow> writable_to 3 v s3" using s1(8) s2(8) s3(7) by blast
        moreover have "\<not> ?n s < missing v s" using n by simp
        ultimately show ?thesis using run n k s3(5) by blast
      qed
    qed
  qed
  then show "?n s < missing v s \<Longrightarrow> \<exists>msg. r = Inl (Panic msg)"
    "missing v s \<le> ?n s \<Longrightarrow> \<exists>t. r = Inr t \<and> grows s t \<and> flushed t = flushed s \<and>
       (\<forall>u. ordinary u \<longrightarrow> kept flags (translate s u) (translate t u)) \<and> table_of 3 v t \<noteq> None \<and>
       ?n s = ?n t + missing v s \<and> (bit flags 1 \<longrightarrow> writable_to 3 v t)" by blast+
qed

lemma leaf_grows:
  fixes t :: kmem and T1 v :: addr and x :: u64
  assumes vm: "vm_inner t" "ordinary v" and t3: "table_of 3 v t = Some T1"
  defines "r \<equiv> t\<lparr>pt := (pt t)(entry_of 0 T1 v := x)\<rparr>"
  shows "grows t r" "\<And>u. ordinary u \<Longrightarrow> \<not> same_path 4 u v \<Longrightarrow> translate r u = translate t u"
    "table_of 3 v r = Some T1" "writable_to 3 v r = writable_to 3 v t"
proof -
  note K = vm_innerD(1) [OF vm(1)]
  note l = leaf_step [where x = x, OF K vm(2) _ t3]
  have P: "pml4_of r = pml4_of t" and f: "pt r = (pt t)(entry_of 0 T1 v := x)" by (simp_all add: r_def)
  have at: "table_of d u r = table_of d u t" if "d \<le> 3" "ordinary u" for d u using l(1) [OF that(2, 1)] by (simp only: P f)
  have wr: "writable_to d u r = writable_to d u t" if "d \<le> 3" "ordinary u" for d u using l(2) [OF that(2, 1)] by (simp only: P f)
  show "translate r u = translate t u" if "ordinary u" "\<not> same_path 4 u v" for u
    using l(4) [OF that] by (simp only: translate_def P f)
  show "table_of 3 v r = Some T1" "writable_to 3 v r = writable_to 3 v t" using at [of 3 v] wr [of 3 v] vm(2) t3 by simp_all
  have "table_pages (pt r) (pml4_of r) = table_pages (pt t) (pml4_of t)"
  proof -
    have "(ordinary u \<and> d \<le> 3 \<and> table_of d u r = Some y) = (ordinary u \<and> d \<le> 3 \<and> table_of d u t = Some y)" for u d y
      using at by auto
    then show ?thesis unfolding table_pages_def by simp
  qed
  then have "vm_inner r" using vm(1) l(3) [OF vm(2)] unfolding vm_inner_def P f by (simp add: r_def)
  moreover have "no_large u r" if o: "ordinary u" and n: "no_large u t" for u
    unfolding no_large_def
  proof (intro allI impI)
    fix k :: nat assume k: "k < 3"
    have "pt r (entry_of (3 - k) t' u) = pt t (entry_of (3 - k) t' u)" if "table_of k u t = Some t'" for t'
      using entry_shared [OF K o vm(2) _ _ that t3] k by (auto simp: f)
    moreover have "case table_of k u t of None \<Rightarrow> True
      | Some t' \<Rightarrow> \<not> (bit (pt t (entry_of (3 - k) t' u)) 0 \<and> bit (pt t (entry_of (3 - k) t' u)) 7)"
      using n k unfolding no_large_def by blast
    ultimately show "case table_of k u r of None \<Rightarrow> True
      | Some t' \<Rightarrow> \<not> (bit (pt r (entry_of (3 - k) t' u)) 0 \<and> bit (pt r (entry_of (3 - k) t' u)) 7)"
      using at [of k u] k o by (auto split: option.splits)
  qed
  moreover have "paging_only t r" by (simp add: paging_only_def r_def)
  moreover have "phys_mmap r = phys_mmap t" by (simp add: r_def)
  ultimately show "grows t r" using at wr unfolding grows_def by simp
qed

lemma vm_inner_same:
  assumes "pt s' = pt s" "cr3 s' = cr3 s" "phys_mmap s' = phys_mmap s"
  shows "pml4_of s' = pml4_of s" "translate s' u = translate s u" "no_large u s' = no_large u s" "missing u s' = missing u s"
    "cr0_wp s' = cr0_wp s \<Longrightarrow> opens flags u s' = opens flags u s"
    "(\<And>i. i \<noteq> Paging_Mutex \<Longrightarrow> held i s' = held i s) \<Longrightarrow> vm_inner s' = vm_inner s"
proof -
  show P: "pml4_of s' = pml4_of s" using assms by (simp add: pml4_of_def)
  show "translate s' u = translate s u" "no_large u s' = no_large u s" "missing u s' = missing u s"
    "cr0_wp s' = cr0_wp s \<Longrightarrow> opens flags u s' = opens flags u s"
    by (simp_all only: translate_def no_large_def missing_def opens_def P assms)
  show "(\<And>i. i \<noteq> Paging_Mutex \<Longrightarrow> held i s' = held i s) \<Longrightarrow> vm_inner s' = vm_inner s"
    by (simp add: vm_inner_def P assms)
qed

lemma grows_same:
  assumes g: "grows s t" and e: "pt s' = pt s" "cr3 s' = cr3 s" "phys_mmap s' = phys_mmap s"
    "pt t' = pt t" "cr3 t' = cr3 t" "phys_mmap t' = phys_mmap t"
    and h: "\<And>i. i \<noteq> Paging_Mutex \<Longrightarrow> held i t' = held i t" and po: "paging_only s' t'"
  shows "grows s' t'"
proof -
  note x = vm_inner_same [OF e(1-3)] and y = vm_inner_same [OF e(4-6)]
  have "vm_inner t'" using y(6) [OF h] growsD(2) [OF g] by simp
  then show ?thesis using g po unfolding grows_def x(1, 3) y(1, 3) e by blast
qed

lemma map_page_run:
  assumes vm: "vm_ok s" "ordinary v" "no_large v s" and fl: "plain_flags flags" and o: "opens flags v s"
  shows "free_pages (phys_mmap s) < missing v s \<Longrightarrow> \<exists>msg. map_page v p flags s = Inl (Panic msg)"
    "missing v s \<le> free_pages (phys_mmap s) \<Longrightarrow> \<exists>s' T1. map_page v p flags s = Inr s' \<and> grows s s' \<and>
       mutexes s' = mutexes s \<and> flushed s' = v # flushed s \<and>
       free_pages (phys_mmap s) = free_pages (phys_mmap s') + missing v s \<and> table_of 3 v s' = Some T1 \<and>
       pt s' (entry_of 0 T1 v) = p OR PAGING_FLAG_PRESENT OR flags \<and> (bit flags 1 \<longrightarrow> writable_to 3 v s') \<and>
       (\<forall>u. ordinary u \<longrightarrow> \<not> same_path 4 u v \<longrightarrow> kept flags (translate s u) (translate s' u))"
proof -
  define m where "m = (mutexes s)(Paging_Mutex := (mutexes s Paging_Mutex)\<lparr>locked := True\<rparr>)"
  define s1 where "s1 = s\<lparr>mutexes := m\<rparr>"
  let ?x = "p OR PAGING_FLAG_PRESENT OR flags"
  have nh: "\<not> held Paging_Mutex s" and vi: "vm_inner s" using vm(1) by (simp_all add: vm_ok_def)
  have lock: "klock Paging_Mutex s = Inr s1" using nh by (simp add: klock_eq s1_def m_def)
  have e: "pt s1 = pt s" "cr3 s1 = cr3 s" "phys_mmap s1 = phys_mmap s" "cr0_wp s1 = cr0_wp s" "flushed s1 = flushed s" by (simp_all add: s1_def)
  have h1: "held i s1 = held i s" if "i \<noteq> Paging_Mutex" for i using that by (simp add: s1_def m_def)
  note x = vm_inner_same [OF e(1-3)]
  have v1: "vm_inner s1" "no_large v s1" "opens flags v s1" using x(3, 5, 6) h1 vi vm o e(4) by simp_all
  note mt = make_tables [OF v1(1) vm(2) v1(2) fl v1(3), unfolded x(4) e]
  have split: "map_page v p flags s = bindR (bindR (map_pml4e v flags s1) (\<lambda>s. bindR (map_pdpte v flags s) (map_pde v flags)))
      (\<lambda>s. bindR (write_pte v ?x s) (\<lambda>s. bindR (invalidate_tlbs_for v s) (kunlock Paging_Mutex)))"
    by (simp add: map_page_def lock bindR_assoc)
  show "\<exists>msg. map_page v p flags s = Inl (Panic msg)" if few: "free_pages (phys_mmap s) < missing v s"
    using mt(1) [OF few] by (auto simp: split)
  show "\<exists>s' T1. map_page v p flags s = Inr s' \<and> grows s s' \<and>
       mutexes s' = mutexes s \<and> flushed s' = v # flushed s \<and>
       free_pages (phys_mmap s) = free_pages (phys_mmap s') + missing v s \<and> table_of 3 v s' = Some T1 \<and>
       pt s' (entry_of 0 T1 v) = p OR PAGING_FLAG_PRESENT OR flags \<and> (bit flags 1 \<longrightarrow> writable_to 3 v s') \<and>
       (\<forall>u. ordinary u \<longrightarrow> \<not> same_path 4 u v \<longrightarrow> kept flags (translate s u) (translate s' u))"
    if enough: "missing v s \<le> free_pages (phys_mmap s)"
  proof -
    from mt(2) [OF enough] obtain t T1 where
      t: "bindR (map_pml4e v flags s1) (\<lambda>s. bindR (map_pdpte v flags s) (map_pde v flags)) = Inr t" "grows s1 t"
        "flushed t = flushed s" "\<forall>u. ordinary u \<longrightarrow> kept flags (translate s1 u) (translate t u)"
        "table_of 3 v t = Some T1" "free_pages (phys_mmap s) = free_pages (phys_mmap t) + missing v s"
        "bit flags 1 \<longrightarrow> writable_to 3 v t" by blast
    note tv = growsD(2) [OF t(2)] and po = paging_only_simps [OF growsD(1) [OF t(2)]]
    define r where "r = t\<lparr>pt := (pt t)(entry_of 0 T1 v := ?x)\<rparr>"
    note lf = leaf_grows [where x = ?x, OF tv vm(2) t(5), folded r_def]
    from way(5) [OF vm_innerD(1) [OF tv] vm(2) t(5)] obtain T3 T2 where
      y: "separate (pml4_of t) T3 T2 T1 v" "tables (pml4_of t) T3 T2 T1 v (pt t)" by blast
    have wr: "write_pte v ?x t = Inr r" unfolding r_def by (rule write_pte_eq [OF y refl])
    have rr: "mutexes r = m" "flushed r = flushed s" "phys_mmap r = phys_mmap t" "cr3 r = cr3 t"
      "pt r (entry_of 0 T1 v) = ?x" by (simp_all add: r_def po(4) t(3)) (simp add: s1_def)
    have "\<not> held Ipcall_Mutex r" using vm_innerD(4) [OF tv] by (simp add: r_def)
    then have inv: "invalidate_tlbs_for v r = Inr (shot_down v r)" by (simp add: invalidate_tlbs_for_eq)
    define s' where "s' = (shot_down v r)\<lparr>mutexes := mutexes s\<rparr>"
    have "kunlock Paging_Mutex (shot_down v r) = Inr s'"
      using relock_state [OF nh] by (simp add: kunlock_eq rr s'_def m_def)
    then have run: "map_page v p flags s = Inr s'" by (simp add: split t(1) wr inv)
    have es: "pt s' = pt r" "cr3 s' = cr3 r" "phys_mmap s' = phys_mmap r" "mutexes s' = mutexes s" "flushed s' = v # flushed s"
      by (simp_all add: s'_def rr shot_down_def)
    note z = vm_inner_same [OF es(1-3)]
    have "paging_only s s'" using keeps_map_page [of s v p flags] run by (simp add: keeps_def)
    then have g: "grows s s'"
      by (intro grows_same [OF grows_trans [OF t(2) lf(1)]]) (simp_all add: es e [symmetric] rr(1) m_def)
    have "kept flags (translate s u) (translate s' u)" if "ordinary u" "\<not> same_path 4 u v" for u
      using t(4) [rule_format, OF that(1)] lf(2) [OF that] by (simp only: x(2) z(2))
    moreover have "table_of 3 v s' = Some T1" "bit flags 1 \<longrightarrow> writable_to 3 v s'"
      using lf(3, 4) t(7) by (simp_all only: es(1) z(1))
    ultimately show ?thesis using run g t(6) rr(3, 5) es
      by (intro exI [of _ s'] exI [of _ T1]) (simp del: table_at.simps table_w.simps)
  qed
qed

section \<open>What mapping a page promises\<close>

lemma mapped_page:
  assumes "table_of 3 v s = Some T1" "same_path 4 u v" "pt s (entry_of 0 T1 v) = p OR PAGING_FLAG_PRESENT OR flags"
    and "is_frame p" "plain_flags flags" "bit flags 1 \<longrightarrow> writable_to 3 v s"
  shows "translate s u = Some (bit flags 1, p OR (u AND mask 12))"
proof -
  have p: "same_path 3 u v" "pt_index 0 u = pt_index 0 v"
    using assms(2) same_path_mono [OF assms(2), of 3] by (simp_all add: same_path_4)
  have t: "table_of 3 u s = Some T1" "writable_to 3 u s = writable_to 3 v s"
    using table_at_path [OF p(1)] table_w_path [OF p(1)] assms(1) by simp_all
  have e: "entry_of 0 T1 u = entry_of 0 T1 v" by (rule entry_of_cong [OF p(2)])
  note ne = linked_entry [OF assms(4, 5)]
  have "walk (pt s) 0 T1 u = Some (bit flags 1, p OR (u AND mask 12))"
    using ne by (simp add: walk_levels(4) e assms(3) table_entry_def Let_def del: walk.simps)
  then show ?thesis using walk_via [of 3 "pt s" "pml4_of s" u T1, OF _ t(1)] t(2) assms(6)
    by (auto simp: translate_def simp del: table_at.simps table_w.simps walk.simps)
qed

text \<open>
  C6. \<open>map_page\<close> maps, whichever of the three tables above the page are missing. When the physical map has a
  page for each of them it returns: every address of the page translates to the frame given and is open to
  writing exactly when the flags say so, the entry of the page holds the frame with all the flags, the tables are
  well-formed as before, one physical page went into each table that was missing, the TLBs are told and every
  mutex is as before. When the physical map has too few pages the kernel panics. The address is not one of the
  recursive mapping, no large page lies on its way, and with write protection on flags without the write flag are
  given only where the upper entries that are present allow writing.\<close>

theorem map_page_translates:
  assumes "vm_ok s" "ordinary v" "no_large v s" "plain_flags flags" "is_frame p" "opens flags v s"
  shows "if missing v s \<le> free_pages (phys_mmap s)
    then \<exists>s'. map_page v p flags s = Inr s' \<and>
      (\<forall>u. same_path 4 u v \<longrightarrow> translate s' u = Some (bit flags 1, p OR (u AND mask 12))) \<and>
      vread (PTE_ADDR_OF v) s' = Inr (p OR PAGING_FLAG_PRESENT OR flags) \<and> vm_ok s' \<and>
      free_pages (phys_mmap s) = free_pages (phys_mmap s') + missing v s \<and>
      flushed s' = v # flushed s \<and> mutexes s' = mutexes s
    else \<exists>msg. map_page v p flags s = Inl (Panic msg)"
proof (cases "missing v s \<le> free_pages (phys_mmap s)")
  case True
  from map_page_run(2) [OF assms(1-4, 6) True, of p] obtain s' T1 where s': "map_page v p flags s = Inr s'" "grows s s'"
    "mutexes s' = mutexes s" "flushed s' = v # flushed s"
    "free_pages (phys_mmap s) = free_pages (phys_mmap s') + missing v s" "table_of 3 v s' = Some T1"
    "pt s' (entry_of 0 T1 v) = p OR PAGING_FLAG_PRESENT OR flags" "bit flags 1 \<longrightarrow> writable_to 3 v s'" by blast
  note vi = growsD(2) [OF s'(2)]
  from way(5) [OF vm_innerD(1) [OF vi] assms(2) s'(6)] obtain T3 T2 where
    "tables (pml4_of s') T3 T2 T1 v (pt s')" by blast
  note acc = entry_accesses(4) [OF this refl]
  have "vm_ok s'" using vi s'(3) assms(1) by (simp add: vm_ok_def)
  with True s'(1, 3, 4, 5) acc s'(7) mapped_page [OF s'(6) _ s'(7) assms(5, 4) s'(8)] show ?thesis by simp
next
  case False
  with map_page_run(1) [OF assms(1-4, 6), of p] show ?thesis by simp
qed

text \<open>
  C25. Mapping a page changes no other page, also when it makes tables: any other address outside the recursive
  mapping translates to the frame it had, or does not translate, as before; whatever the pages taken for the new
  tables held, nothing else gets mapped. The page was not writable before and is now only if the flags given
  allow writing, and if they do not its translation is the same.\<close>

theorem map_page_isolated:
  assumes "vm_ok s" "ordinary v" "no_large v s" "plain_flags flags" "opens flags v s"
    and "missing v s \<le> free_pages (phys_mmap s)" and "ordinary u" "\<not> same_path 4 u v"
  shows "\<exists>s'. map_page v p flags s = Inr s' \<and>
    (case translate s u of None \<Rightarrow> translate s' u = None
     | Some (w, q) \<Rightarrow> \<exists>w'. translate s' u = Some (w', q) \<and> (w \<longrightarrow> w') \<and> (w' \<longrightarrow> w \<or> bit flags 1)) \<and>
    (\<not> bit flags 1 \<longrightarrow> translate s' u = translate s u)"
proof -
  from map_page_run(2) [OF assms(1-6), of p] assms(7, 8) obtain s' where
    s': "map_page v p flags s = Inr s'" "kept flags (translate s u) (translate s' u)" by blast
  from s'(2) show ?thesis by (intro exI [of _ s'] conjI s'(1)) (auto simp: kept_def split: option.splits)
qed

section \<open>A run of pages\<close>

definition page_at :: "addr \<Rightarrow> nat \<Rightarrow> addr" where
  "page_at v k = v + of_nat (k * 0x1000)"

lemma page_at_0 [simp]: "page_at v 0 = v"
  by (simp add: page_at_def)

lemma page_at_Suc: "page_at (v + 0x1000) k = page_at v (Suc k)"
  by (simp add: page_at_def algebra_simps)

lemma page_at_1: "page_at v 1 = v + 0x1000"
  by (simp add: page_at_def)

text \<open>The tables that have to be made for \<open>n\<close> pages from \<open>v\<close>, each by the indices that lead to it.\<close>

definition way_to :: "nat \<Rightarrow> addr \<Rightarrow> addr list" where
  "way_to d v = map (\<lambda>j. pt_index (3 - j) v) [0..<d]"

definition ways_missing :: "addr \<Rightarrow> kmem \<Rightarrow> addr list list" where
  "ways_missing v s = map (\<lambda>d. way_to d v) (filter (\<lambda>d. table_of d v s = None) [1, 2, 3])"

definition tables_missing :: "addr \<Rightarrow> nat \<Rightarrow> kmem \<Rightarrow> addr list set" where
  "tables_missing v n s = (\<Union>k \<in> {..<n}. set (ways_missing (page_at v k) s))"

text \<open>Where pages are mapped without the write flag under write protection, the upper tables are there and open.\<close>

definition opens_run :: "u64 \<Rightarrow> addr \<Rightarrow> nat \<Rightarrow> kmem \<Rightarrow> bool" where
  "opens_run flags v n s \<longleftrightarrow> (cr0_wp s \<and> \<not> bit flags 1 \<longrightarrow>
     (\<forall>k < n. table_of 2 (page_at v k) s \<noteq> None \<and> writable_to 2 (page_at v k) s))"

definition mappable_run :: "addr \<Rightarrow> nat \<Rightarrow> kmem \<Rightarrow> bool" where
  "mappable_run v n s \<longleftrightarrow> n \<le> 2 ^ 36 \<and> v AND mask 12 = 0 \<and>
     (\<forall>k < n. ordinary (page_at v k) \<and> no_large (page_at v k) s)"

lemma same_way: "way_to d u = way_to d v \<longleftrightarrow> same_path d u v"
  by (auto simp: way_to_def same_path_def)

lemma missing_ways: "missing v s = card (set (ways_missing v s))"
proof -
  have "length (way_to d u) = d" for d u by (simp add: way_to_def)
  then have "inj_on (\<lambda>d. way_to d v) A" for A by (metis inj_onI)
  then have "distinct (ways_missing v s)" unfolding ways_missing_def by (simp add: distinct_map)
  then show ?thesis by (simp add: distinct_card missing_def) (simp add: ways_missing_def)
qed

lemma tables_missing_Suc: "tables_missing v (Suc n) s = set (ways_missing v s) \<union> tables_missing (v + 0x1000) n s"
proof -
  have "{..<Suc n} = insert 0 (Suc ` {..<n})" by (rule lessThan_Suc_eq_insert_0)
  then show ?thesis by (simp add: tables_missing_def page_at_Suc)
qed

lemma ways_missing_grows:
  assumes g: "grows s s'" and o: "ordinary u" and v: "table_of 3 v s' \<noteq> None"
  shows "set (ways_missing u s') \<subseteq> set (ways_missing u s) - set (ways_missing v s)"
proof
  have S: "Suc 1 = 2" "Suc 2 = (3 :: nat)" by simp_all
  have v3: "table_of d v s' \<noteq> None" if "d \<in> {1, 2, 3}" for d
    using that v table_at_SucD [of "pt s'" "pml4_of s'" 2 v] table_at_SucD [of "pt s'" "pml4_of s'" 1 v] unfolding S by auto
  fix w assume "w \<in> set (ways_missing u s')"
  then obtain d where d: "d \<in> {1, 2, 3}" "table_of d u s' = None" "w = way_to d u"
    unfolding ways_missing_def set_map set_filter by auto
  have "table_of d u s = None"
    using growsD(5) [OF g o, of d] d(1, 2) by (cases "table_of d u s") auto
  moreover have "w \<notin> set (ways_missing v s)"
  proof
    assume "w \<in> set (ways_missing v s)"
    then obtain d' where d': "w = way_to d' v" "d' \<in> {1, 2, 3}"
      unfolding ways_missing_def set_map set_filter by auto
    have "length (way_to d u) = d" "length (way_to d' v) = d'" by (simp_all add: way_to_def)
    then have "d' = d" using d'(1) d(3) by simp
    then have "same_path d u v" using d'(1) d(3) by (simp flip: same_way)
    then have "table_of d u s' = table_of d v s'" by (rule table_at_path)
    with v3 [OF d(1)] d(2) show False by simp
  qed
  ultimately show "w \<in> set (ways_missing u s) - set (ways_missing v s)" 
    using d(1, 3) unfolding ways_missing_def set_map set_filter by auto
qed

lemma opens_run_first:
  assumes "opens_run flags v (Suc n) s"
  shows "opens flags v s"
proof -
  have "writable_to 2 v s \<Longrightarrow> writable_to 1 v s" by (simp add: numeral_2_eq_2 del: table_at.simps)
  with assms show ?thesis unfolding opens_run_def opens_def by (metis page_at_0 zero_less_Suc)
qed

lemma opens_run_grows:
  assumes "opens_run flags v (Suc n) s" "grows s s'" "\<And>k. k < n \<Longrightarrow> ordinary (page_at (v + 0x1000) k)"
  shows "opens_run flags (v + 0x1000) n s'"
  unfolding opens_run_def
proof (intro impI allI)
  fix k assume c: "cr0_wp s' \<and> \<not> bit flags 1" and k: "k < n"
  let ?u = "page_at (v + 0x1000) k"
  have "cr0_wp s" using c paging_only_simps(3) [OF growsD(1) [OF assms(2)]] by simp
  then have u: "table_of 2 ?u s \<noteq> None" "writable_to 2 ?u s"
    using assms(1) c k unfolding opens_run_def page_at_Suc by auto
  then obtain t where "table_of 2 ?u s = Some t" by blast
  with growsD(5, 6) [OF assms(2) assms(3) [OF k], of 2 t] u(2) show "table_of 2 ?u s' \<noteq> None \<and> writable_to 2 ?u s'" by simp
qed

lemma kept_exact: "kept flags (Some (bit flags 1, q)) r \<Longrightarrow> r = Some (bit flags 1, q)"
  by (auto simp: kept_def split: option.splits)

lemma same_path_sym: "same_path d u v \<Longrightarrow> same_path d v u"
  by (simp add: same_path_def)

lemma same_path_trans: "same_path d u v \<Longrightarrow> same_path d v w \<Longrightarrow> same_path d u w"
  by (simp add: same_path_def)

lemma ordinary_path: "same_path 4 u v \<Longrightarrow> ordinary v \<Longrightarrow> ordinary u"
  by (simp add: same_path_4 ordinary_def)

lemma map_pages_run:
  assumes "vm_ok s" and fl: "plain_flags flags"
    and "\<And>k. k < n \<Longrightarrow> ordinary (page_at v k) \<and> no_large (page_at v k) s"
    and "\<And>j k. j < n \<Longrightarrow> k < n \<Longrightarrow> same_path 4 (page_at v j) (page_at v k) \<Longrightarrow> j = k"
    and "\<And>k. k < n \<Longrightarrow> is_frame (page_at p k)"
    and "card (tables_missing v n s) \<le> free_pages (phys_mmap s)" and "opens_run flags v n s"
  shows "\<exists>s'. map_pages v p flags n s = Inr s' \<and> grows s s' \<and> mutexes s' = mutexes s \<and>
    (\<forall>k < n. \<forall>u. same_path 4 u (page_at v k) \<longrightarrow> translate s' u = Some (bit flags 1, page_at p k OR (u AND mask 12))) \<and>
    (\<forall>u. ordinary u \<longrightarrow> (\<forall>k < n. \<not> same_path 4 u (page_at v k)) \<longrightarrow> kept flags (translate s u) (translate s' u))"
  using assms(1, 3-)
proof (induction n arbitrary: v p s)
  case 0
  then show ?case by (simp add: grows_refl vm_ok_def)
next
  case (Suc n)
  have v: "ordinary v" "no_large v s" "is_frame p" using Suc.prems(2) [of 0] Suc.prems(4) [of 0] by simp_all
  let ?M = "set (ways_missing v s)" and ?T = "tables_missing v (Suc n) s"
  have fin: "finite ?T" by (simp add: tables_missing_def)
  have sub: "?M \<subseteq> ?T" by (simp add: tables_missing_Suc)
  have m: "missing v s \<le> card ?T" unfolding missing_ways by (rule card_mono [OF fin sub])
  then have "missing v s \<le> free_pages (phys_mmap s)" using Suc.prems(5) by simp
  from map_page_run(2) [OF Suc.prems(1) v(1, 2) fl opens_run_first [OF Suc.prems(6)] this, of p] obtain s1 T1 where
    s1: "map_page v p flags s = Inr s1" "grows s s1" "mutexes s1 = mutexes s"
      "free_pages (phys_mmap s) = free_pages (phys_mmap s1) + missing v s" "table_of 3 v s1 = Some T1"
      "pt s1 (entry_of 0 T1 v) = p OR PAGING_FLAG_PRESENT OR flags" "bit flags 1 \<longrightarrow> writable_to 3 v s1"
      "\<And>u. ordinary u \<Longrightarrow> \<not> same_path 4 u v \<Longrightarrow> kept flags (translate s u) (translate s1 u)" by blast
  have ok: "vm_ok s1" using growsD(2) [OF s1(2)] s1(3) Suc.prems(1) by (simp add: vm_ok_def)
  have pages: "ordinary (page_at (v + 0x1000) k) \<and> no_large (page_at (v + 0x1000) k) s1" if "k < n" for k
    using Suc.prems(2) [of "Suc k"] that growsD(4) [OF s1(2)] by (simp add: page_at_Suc)
  have dist: "j = k" if "j < n" "k < n" "same_path 4 (page_at (v + 0x1000) j) (page_at (v + 0x1000) k)" for j k
    using Suc.prems(3) [of "Suc j" "Suc k"] that by (simp add: page_at_Suc)
  have frs: "is_frame (page_at (p + 0x1000) k)" if "k < n" for k using Suc.prems(4) [of "Suc k"] that by (simp add: page_at_Suc)
  have "tables_missing (v + 0x1000) n s1 \<subseteq> ?T - ?M"
    using ways_missing_grows [OF s1(2) _, of "page_at (v + 0x1000) _" v] s1(5) pages
    unfolding tables_missing_Suc by (fastforce simp: tables_missing_def)
  then have "card (tables_missing (v + 0x1000) n s1) \<le> card (?T - ?M)" using fin by (intro card_mono) auto
  also have "\<dots> = card ?T - missing v s" using fin sub unfolding missing_ways by (intro card_Diff_subset) (auto intro: finite_subset)
  finally have room: "card (tables_missing (v + 0x1000) n s1) \<le> free_pages (phys_mmap s1)" using Suc.prems(5) s1(4) m by linarith
  have "opens_run flags (v + 0x1000) n s1" using opens_run_grows [OF Suc.prems(6) s1(2)] pages by blast
  from Suc.IH [OF ok pages dist frs room this] obtain s' where
    s': "map_pages (v + 0x1000) (p + 0x1000) flags n s1 = Inr s'" "grows s1 s'" "mutexes s' = mutexes s1"
      "\<And>k u. k < n \<Longrightarrow> same_path 4 u (page_at (v + 0x1000) k) \<Longrightarrow> translate s' u = Some (bit flags 1, page_at (p + 0x1000) k OR (u AND mask 12))"
      "\<And>u. ordinary u \<Longrightarrow> (\<forall>k < n. \<not> same_path 4 u (page_at (v + 0x1000) k)) \<Longrightarrow> kept flags (translate s1 u) (translate s' u)"
    by blast
  have "translate s' u = Some (bit flags 1, page_at p k OR (u AND mask 12))"
    if "k < Suc n" "same_path 4 u (page_at v k)" for k u
  proof (cases k)
    case 0
    then have u: "same_path 4 u v" using that(2) by simp
    have "\<not> same_path 4 u (page_at (v + 0x1000) j)" if "j < n" for j
    proof
      assume "same_path 4 u (page_at (v + 0x1000) j)"
      then have "same_path 4 (page_at v 0) (page_at v (Suc j))"
        using same_path_trans [OF same_path_sym [OF u]] by (simp add: page_at_Suc)
      with Suc.prems(3) [of 0 "Suc j"] that show False by simp
    qed
    then have "kept flags (translate s1 u) (translate s' u)" using s'(5) ordinary_path [OF u v(1)] by blast
    moreover have "translate s1 u = Some (bit flags 1, p OR (u AND mask 12))"
      by (rule mapped_page [OF s1(5) u s1(6) v(3) fl s1(7)])
    ultimately show ?thesis using 0 kept_exact by simp
  next
    case (Suc j)
    then show ?thesis using s'(4) [of j u] that by (simp add: page_at_Suc)
  qed
  moreover have "kept flags (translate s u) (translate s' u)" if o: "ordinary u" and n: "\<forall>k < Suc n. \<not> same_path 4 u (page_at v k)" for u
  proof -
    have "\<not> same_path 4 u v" using n [rule_format, of 0] by simp
    moreover have "\<forall>k < n. \<not> same_path 4 u (page_at (v + 0x1000) k)" using n by (auto simp: page_at_Suc)
    ultimately show ?thesis using kept_trans [OF s1(8) [OF o] s'(5) [OF o]] by blast
  qed
  ultimately show ?case using s1(1, 3) s'(1, 3) grows_trans [OF s1(2) s'(2)] by (intro exI [of _ s']) simp
qed

text \<open>Different pages of a run take different ways, and the bytes of a page take the way of its start.\<close>

lemma page_bits:
  fixes v :: addr
  assumes "v AND mask 12 = 0" "off < 0x1000"
  shows "v + of_nat off = v OR of_nat off" "(v + of_nat off) AND mask 12 = of_nat off" "same_path 4 (v + of_nat off) v"
proof -
  have "unat (of_nat off :: addr) < 2 ^ 12" using assms(2) by (simp add: unat_of_nat_no_wrap)
  then have hi: "\<not> bit (of_nat off :: addr) j" if "12 \<le> j" for j using that by (rule not_bit_above)
  have lo: "12 \<le> j" if b: "bit v j" for j
  proof (rule ccontr)
    assume "\<not> 12 \<le> j"
    then have "bit (v AND mask 12) j" using b bit_imp_le_length [OF b] by (simp add: bit_simps)
    then show False using assms(1) by simp
  qed
  have z: "v AND of_nat off = 0" by (rule bit_word_eqI) (use hi lo in \<open>auto simp: bit_and_iff\<close>)
  then show e: "v + of_nat off = v OR of_nat off" by (simp add: disjunctive_add_eq_or)
  have "(v OR of_nat off) AND mask 12 = v AND mask 12 OR of_nat off AND mask 12" by (simp add: bit.conj_disj_distrib2)
  moreover have "of_nat off AND mask 12 = (of_nat off :: addr)"
    by (rule bit_word_eqI) (use hi not_le in \<open>auto simp: bit_and_iff bit_mask_iff\<close>)
  ultimately show "(v + of_nat off) AND mask 12 = of_nat off" using assms(1) by (simp add: e)
  have "pt_index l (v OR of_nat off) = pt_index l v" for l
    by (rule bit_word_eqI) (use hi in \<open>auto simp: pt_index_def bit_simps\<close>)
  then show "same_path 4 (v + of_nat off) v" by (simp add: e same_path_4)
qed

lemma unat_pt_index: "l \<le> 3 \<Longrightarrow> unat (pt_index l v) = unat v div 2 ^ (12 + 9 * l) mod 2 ^ 9"
  unfolding pt_index_def
  by (simp only: take_bit_eq_mask [symmetric] unsigned_take_bit_eq unat_drop_bit_eq) (simp add: take_bit_eq_mod drop_bit_eq_div)

lemma same_path_mod:
  assumes "same_path 4 u v"
  shows "unat u div 0x1000 mod 2 ^ 36 = unat v div 0x1000 mod 2 ^ 36"
proof -
  have i: "unat u div 2 ^ (12 + 9 * l) mod 2 ^ 9 = unat v div 2 ^ (12 + 9 * l) mod 2 ^ 9" if "l \<le> 3" for l
  proof -
    have "pt_index l u = pt_index l v" using assms that by (auto simp: same_path_4 le_Suc_eq numeral_3_eq_3 numeral_2_eq_2)
    then show ?thesis using unat_pt_index [OF that] by metis
  qed
  have d: "x div 2 ^ (12 + 9 * l) = x div 0x1000 div 2 ^ (9 * l)" for x l :: nat
    by (simp add: div_mult2_eq [symmetric] power_add)
  have m: "x mod 2 ^ 18 = 2 ^ 9 * (x div 2 ^ 9 mod 2 ^ 9) + x mod 2 ^ 9"
    "x mod 2 ^ 27 = 2 ^ 18 * (x div 2 ^ 18 mod 2 ^ 9) + x mod 2 ^ 18"
    "x mod 2 ^ 36 = 2 ^ 27 * (x div 2 ^ 27 mod 2 ^ 9) + x mod 2 ^ 27" for x :: nat
    using mod_mult2_eq [of x "2 ^ 9" "2 ^ 9"] mod_mult2_eq [of x "2 ^ 18" "2 ^ 9"] mod_mult2_eq [of x "2 ^ 27" "2 ^ 9"]
    by simp_all
  show ?thesis unfolding m using i [of 0] i [of 1] i [of 2] i [of 3] unfolding d by simp
qed

lemma page_at_aligned:
  assumes "v AND mask 12 = 0"
  shows "page_at v k AND mask 12 = 0" "unat (page_at v k) div 0x1000 mod 2 ^ 36 = (unat v div 0x1000 + k) mod 2 ^ 36"
proof -
  have m: "unat w mod 0x1000 = unat (w AND mask 12)" for w :: addr
    by (simp add: take_bit_eq_mod unat_mod flip: take_bit_eq_mask)
  define q where "q = unat v div 0x1000"
  have q: "unat v = q * 0x1000" using m [of v] assms div_mult_mod_eq [of "unat v" "0x1000"] unfolding q_def by simp
  have u: "unat (page_at v k) = (q + k) mod 2 ^ 52 * 0x1000"
  proof -
    have "unat (page_at v k) = (unat v + k * 0x1000) mod 2 ^ 64"
      unfolding page_at_def by (simp add: unsigned_of_nat unat_word_ariths take_bit_eq_mod mod_simps)
    also have "unat v + k * 0x1000 = (q + k) * 0x1000" by (simp add: q algebra_simps)
    also have "\<dots> mod 2 ^ 64 = (q + k) * 0x1000 mod (2 ^ 52 * 0x1000)" by simp
    also have "\<dots> = (q + k) mod 2 ^ 52 * 0x1000" by (rule mult_mod_left [symmetric])
    finally show ?thesis .
  qed
  show "page_at v k AND mask 12 = 0" using m [of "page_at v k"] unfolding u by (simp add: unat_eq_0 [symmetric])
  have "(q + k) mod 2 ^ 52 mod 2 ^ 36 = (q + k) mod 2 ^ 36" by (rule mod_mod_cancel) (simp add: le_imp_power_dvd)
  then show "unat (page_at v k) div 0x1000 mod 2 ^ 36 = (unat v div 0x1000 + k) mod 2 ^ 36"
    unfolding u q_def [symmetric] by simp
qed

lemma pages_differ:
  assumes "v AND mask 12 = 0" "n \<le> 2 ^ 36" "j < n" "k < n" "same_path 4 (page_at v j) (page_at v k)"
  shows "j = k"
proof -
  have c: "j = k" if "j \<le> k" "(w + k) mod 2 ^ 36 = (w + j) mod 2 ^ 36" "k < 2 ^ 36" for j k w :: nat
  proof -
    have "2 ^ 36 dvd (w + k) - (w + j)" using that by (subst mod_eq_dvd_iff_nat [symmetric]) simp_all
    then have "2 ^ 36 dvd k - j" by simp
    moreover have "k - j < 2 ^ 36" using that(3) by linarith
    ultimately have "k - j = 0" using dvd_imp_le [of "2 ^ 36" "k - j"] by (cases "k - j = 0") simp_all
    then show ?thesis using that(1) by simp
  qed
  define w where "w = unat v div 0x1000"
  have e: "(w + j) mod 2 ^ 36 = (w + k) mod 2 ^ 36"
    using same_path_mod [OF assms(5)] unfolding page_at_aligned(2) [OF assms(1)] w_def .
  have "j < 2 ^ 36" "k < 2 ^ 36" using assms(2-4) by linarith+
  then show ?thesis using c [OF _ e [symmetric]] c [OF _ e] by (cases "j \<le> k") auto
qed

lemma frame_run:
  assumes "is_frame p" "unat p + n * 0x1000 \<le> 2 ^ 52" "k < n"
  shows "is_frame (page_at p k)"
proof -
  have "unat (page_at p k) = unat p + k * 0x1000"
    unfolding page_at_def using assms by (subst unat_add_no_wrap) (simp_all add: unat_of_nat_no_wrap del: of_nat_mult)
  then show ?thesis using assms unfolding is_frame_iff by simp
qed

lemma frame_aligned: "is_frame p \<Longrightarrow> p AND mask 12 = 0"
  by (rule bit_word_eqI) (auto simp: bit_and_iff bit_mask_iff dest: frame_bit)

lemma map_pages_mapped:
  assumes "vm_ok s" "plain_flags flags" "mappable_run v n s" "is_frame p" "unat p + n * 0x1000 \<le> 2 ^ 52"
    and "card (tables_missing v n s) \<le> free_pages (phys_mmap s)" "opens_run flags v n s"
  shows "\<exists>s'. map_pages v p flags n s = Inr s' \<and> grows s s' \<and> mutexes s' = mutexes s \<and>
    (\<forall>k < n. \<forall>i < 0x1000. translate s' (page_at v k + of_nat i) = Some (bit flags 1, page_at p k + of_nat i)) \<and>
    (\<forall>u. ordinary u \<longrightarrow> (\<forall>k < n. \<not> same_path 4 u (page_at v k)) \<longrightarrow> kept flags (translate s u) (translate s' u))"
proof -
  have r: "v AND mask 12 = 0" "n \<le> 2 ^ 36" "\<And>k. k < n \<Longrightarrow> ordinary (page_at v k) \<and> no_large (page_at v k) s"
    using assms(3) by (auto simp: mappable_run_def)
  obtain s' where s': "map_pages v p flags n s = Inr s'" "grows s s'" "mutexes s' = mutexes s"
    "\<And>k u. k < n \<Longrightarrow> same_path 4 u (page_at v k) \<Longrightarrow> translate s' u = Some (bit flags 1, page_at p k OR (u AND mask 12))"
    "\<forall>u. ordinary u \<longrightarrow> (\<forall>k < n. \<not> same_path 4 u (page_at v k)) \<longrightarrow> kept flags (translate s u) (translate s' u)"
    using map_pages_run [OF assms(1, 2) r(3) _ frame_run [OF assms(4, 5)] assms(6, 7)] pages_differ [OF r(1, 2)] by blast
  have "translate s' (page_at v k + of_nat i) = Some (bit flags 1, page_at p k + of_nat i)" if "k < n" "i < 0x1000" for k i
  proof -
    note b = page_bits [OF page_at_aligned(1) [OF r(1)] that(2), of k]
      page_bits(1) [OF frame_aligned [OF frame_run [OF assms(4, 5) that(1)]] that(2)]
    show ?thesis using s'(4) [OF that(1) b(3)] b(2, 4) by simp
  qed
  with s' show ?thesis by blast
qed

text \<open>A kernel with nothing but its PML4, and pages for tables that hold what looks like entries.\<close>

definition demo_bare :: kmem where
  "demo_bare = demo_paging\<lparr>phys_mmap := \<lparr>memory_ranges = [\<lparr>base_addr = 0x10000, pages = 8\<rparr>], range_count = 1, max_range_count = 1\<rparr>,
     pt := (\<lambda>x. if x = 0x1FF8 then 0x1003 else if page_of x = 0x1000 then 0 else 0x7003)\<rparr>"

lemma demo_bare_pml4: "pml4_of demo_bare = 0x1000" "is_frame 0x1000" "ordinary v \<Longrightarrow> pt demo_bare (entry_of 3 0x1000 v) = 0"
proof -
  show "pml4_of demo_bare = 0x1000" by (simp add: demo_bare_def demo_paging_def pml4_of_def frame_mask_def)
  show fr: "is_frame 0x1000" by (simp add: is_frame_def frame_mask_def)
  assume o: "ordinary v"
  have x: "0x1FF8 = entry_of 3 0x1000 (PTE_ADDR_OF v)" by (simp add: entry_of_simps)
  have "entry_of 3 0x1000 v \<noteq> 0x1FF8"
    using o entry_of_inj(2) [OF fr fr, of 3 v 3 "PTE_ADDR_OF v"] unfolding x by (auto simp: ordinary_def pt_index_PTE)
  then show "pt demo_bare (entry_of 3 0x1000 v) = 0" using page_of_entry [OF fr, of 3 v] by (simp add: demo_bare_def)
qed

lemma demo_bare_tables:
  assumes "ordinary v"
  shows "table_of (Suc d) v demo_bare = None" "no_large v demo_bare" "opens flags v demo_bare" "translate demo_bare v = None"
    "table_of 1 v demo_bare = None" "table_of 2 v demo_bare = None" "table_of 3 v demo_bare = None"
proof -
  note P = demo_bare_pml4(1) and e = demo_bare_pml4(3) [OF assms]
  have at: "table_of (Suc d) v demo_bare = None" for d using e by (induction d) (simp_all add: P)
  then show "table_of (Suc d) v demo_bare = None" .
  show n: "table_of 1 v demo_bare = None" "table_of 2 v demo_bare = None" "table_of 3 v demo_bare = None"
    using at [of 0] at [of 1] at [of 2] by (simp_all only: One_nat_def numeral_2_eq_2 numeral_3_eq_3)
  then show "opens flags v demo_bare" by (simp add: opens_def del: One_nat_def table_at.simps)
  show "no_large v demo_bare"
    unfolding no_large_def
  proof (intro allI impI)
    fix k :: nat assume "k < 3"
    show "case table_of k v demo_bare of None \<Rightarrow> True
      | Some t \<Rightarrow> \<not> (bit (pt demo_bare (entry_of (3 - k) t v)) 0 \<and> bit (pt demo_bare (entry_of (3 - k) t v)) 7)"
      using e at by (cases k) (simp_all add: P del: table_at.simps(2))
  qed
  show "translate demo_bare v = None"
    using walk_ends [of 0 "pt demo_bare" "0x1000" v "0x1000"] e by (simp add: translate_def P del: walk.simps)
qed

lemma demo_bare_facts:
  "vm_ok demo_bare" "ordinary 0xFFFFFF1000000000" "ordinary 0xFFFFFF1000001000" "missing 0xFFFFFF1000000000 demo_bare = 3"
  "free_pages (phys_mmap demo_bare) = 8" "\<not> same_path 4 0xFFFFFF1000001000 0xFFFFFF1000000000"
proof -
  note P = demo_bare_pml4(1) and at = demo_bare_tables(1)
  show o: "ordinary 0xFFFFFF1000000000" "ordinary 0xFFFFFF1000001000" by (simp_all add: ordinary_def pt_index_def mask9)
  have d: "d = 0 \<and> t = 0x1000" if "table_of d v demo_bare = Some t" "ordinary v" for d v t
    using that at [OF that(2)] by (cases d) (auto simp: P)
  have w: "pt demo_bare (0x1000 + 8 * 511) = 0x1003" by (simp add: demo_bare_def)
  have "kernel_tables (pt demo_bare) 0x1000"
  proof -
    have "d = k \<and> same_path d u v" if "table_at (pt demo_bare) 0x1000 d u = Some t" "table_at (pt demo_bare) 0x1000 k v = Some t"
      "ordinary u" "ordinary v" for d k u v t
      using d [unfolded P, OF that(1, 3)] d [unfolded P, OF that(2, 4)] by (simp add: same_path_def)
    then show ?thesis unfolding kernel_tables_def w by (simp add: table_entry_def frame_mask_def) blast
  qed
  moreover have "table_pages (pt demo_bare) 0x1000 = {0x1000}"
    using d o unfolding table_pages_def P by (auto intro!: exI [of _ "0xFFFFFF1000000000"] exI [of _ "0 :: nat"])
  moreover have "spare (phys_mmap demo_bare) {0x1000}"
    by (simp add: spare_def demo_bare_def wf_mmap_def live_def wf_range_def range_end_def page_range_def is_frame_def
        frame_mask_def free_bytes_def block_def)
  ultimately show "vm_ok demo_bare"
    by (simp add: vm_ok_def vm_inner_def P) (simp add: demo_bare_def demo_paging_def)
  show "free_pages (phys_mmap demo_bare) = 8" by (simp add: free_pages_def demo_bare_def live_def)
  show "missing 0xFFFFFF1000000000 demo_bare = 3"
    using demo_bare_tables(5-7) [OF o(1)] by (simp add: missing_def del: One_nat_def table_at.simps)
  show "\<not> same_path 4 0xFFFFFF1000001000 0xFFFFFF1000000000"
    by (simp add: same_path_4 pt_index_def mask9)
qed

theorem map_page_translates_witness:
  "\<exists>s'. map_page 0xFFFFFF1000000000 0x9000 2 demo_bare = Inr s' \<and>
     translate s' 0xFFFFFF1000000123 = Some (True, 0x9123) \<and> free_pages (phys_mmap s') = 5"
proof -
  have "same_path 4 0xFFFFFF1000000123 0xFFFFFF1000000000"
    by (simp add: same_path_4 pt_index_def mask9)
  then show ?thesis
    using map_page_translates [OF demo_bare_facts(1, 2) demo_bare_tables(2) [OF demo_bare_facts(2)], of 2 "0x9000"]
      demo_bare_tables(3) [OF demo_bare_facts(2)] demo_bare_facts(4, 5) demo_paging_facts(4)
    by (auto simp: is_frame_def frame_mask_def mask_eq_exp_minus_1 bit_2_iff)
qed

theorem map_page_isolated_witness:
  "\<exists>s'. map_page 0xFFFFFF1000000000 0x9000 2 demo_bare = Inr s' \<and> translate s' 0xFFFFFF1000001000 = None"
  using map_page_isolated [OF demo_bare_facts(1, 2) demo_bare_tables(2) [OF demo_bare_facts(2)] demo_paging_facts(4)
      demo_bare_tables(3) [OF demo_bare_facts(2)] _ demo_bare_facts(3, 6), of "0x9000"]
    demo_bare_facts(4, 5) demo_bare_tables(4) [OF demo_bare_facts(3)] by auto

end
