(* ===== verification/Heap_Pages.thy ===== *)
theory Heap_Pages
  imports Heap_Blocks Map_Page
begin

text \<open>
  The heap and the pages under it: \<open>kmalloc\<close> growing the heap when no free block is large
  enough, and \<open>kfree\<close> giving the pages behind the last free block back. Both change the list
  of blocks at its end; that mapping and unmapping pages leaves the entries alone is the frame
  property of theory \<open>Paging\<close>.
\<close>

section \<open>Growing\<close>

lemma paging_only_heap:
  assumes "paging_only s s'"
  shows "heap_is s' bs = heap_is s bs" "headers s' = headers s" "kernel_heap_end s' = kernel_heap_end s"
    "kernel_heap_start s' = kernel_heap_start s" "first_heap_entry s' = first_heap_entry s"
    "last_heap_entry s' = last_heap_entry s" "mutexes s' = mutexes s"
  by (subst assms [unfolded paging_only_def], simp add: heap_is_def)+

definition grow_pages :: "u64 \<Rightarrow> u64" where
  "grow_pages n = (n + HDR) div 0x1000 + 1"

lemma heap_grow_blocks:
  assumes h: "heap_is s bs" and r: "heap_grow n s = Inr (entry, s')"
    and room: "unat (kernel_heap_end s) + 0x1000 * unat (grow_pages n) < 2 ^ 64" and pos: "grow_pages n \<noteq> 0"
  shows "entry = 0 \<and> heap_is s' bs \<and> mutexes s' = mutexes s \<or>
    entry = kernel_heap_end s \<and> mutexes s' = mutexes s \<and>
    kernel_heap_end s' = kernel_heap_end s + 0x1000 * grow_pages n \<and>
    heap_is s' (bs @ [(kernel_heap_end s, 0x1000 * grow_pages n - HDR, False)])"
proof -
  let ?e = "kernel_heap_end s" and ?pc = "grow_pages n"
  from r obtain paddr s1 where al: "alloc_phys_pages ?pc s = Inr (paddr, s1)"
    by (auto simp: heap_grow_def Let_def grow_pages_def)
  have s1: "paging_only s s1"
    using al by (auto simp: alloc_phys_pages_eq paging_only_def split: if_splits prod.splits)
  note f1 = paging_only_heap [OF s1]
  show ?thesis
  proof (cases "paddr = 0")
    case True
    then show ?thesis using r al h f1 by (auto simp: heap_grow_def Let_def simp flip: grow_pages_def)
  next
    case False
    then obtain s2 where mp: "map_pages (kernel_heap_end s1) paddr PAGING_FLAG_READ_WRITE (unat ?pc) s1 = Inr s2"
      using r al by (auto simp: heap_grow_def Let_def simp flip: grow_pages_def)
    have "paging_only s1 s2" using mp keeps_map_pages by (auto simp: keeps_def)
    note f2 = paging_only_heap [OF this]
    obtain xs a z u where bs: "bs = xs @ [(a, z, u)]"
      using heap_isD(1) [OF h] by (cases bs rule: rev_cases) auto
    note m = heap_is_mid [OF h [unfolded bs]] and d = heap_isD [OF h]
    have last: "last_heap_entry s = a" using d(4) by (simp add: bs)
    let ?new = "\<lparr>he_size = 0x1000 * ?pc - HDR, he_used = False, he_last = a, he_next = 0\<rparr>"
    have ae: "a \<noteq> ?e" using m(3) by auto
    have s': "entry = ?e" "headers s' = (headers s)(?e := ?new, a := (headers s a)\<lparr>he_next := ?e\<rparr>)"
      "last_heap_entry s' = ?e" "kernel_heap_end s' = ?e + 0x1000 * ?pc" "mutexes s' = mutexes s"
      "first_heap_entry s' = first_heap_entry s" "kernel_heap_start s' = kernel_heap_start s"
      using r al mp False f1 f2 last ae
      by (auto simp: heap_grow_def Let_def upd_header_def simp flip: grow_pages_def)
    have e0: "?e \<noteq> 0" using m(6) by auto
    have pc: "unat (0x1000 * ?pc) = 0x1000 * unat ?pc"
      using room by (subst unat_mult_no_wrap) simp_all
    have pcpos: "1 \<le> unat ?pc" using pos by (simp add: Suc_le_eq unat_gt_0)
    have end': "unat (?e + 0x1000 * ?pc) = unat ?e + 0x1000 * unat ?pc"
      using room pc by (subst unat_add_no_wrap) simp_all
    have sz: "unat (0x1000 * ?pc - HDR) = 0x1000 * unat ?pc - 32"
      using pc pcpos by (subst unat_sub_no_wrap) (simp_all add: HDR_def word_le_nat_alt)
    have "heap_is s' (bs @ [(?e, 0x1000 * ?pc - HDR, False)])"
    proof (rule heap_isI)
      show "first_heap_entry s' = hd_or (bs @ [(?e, 0x1000 * ?pc - HDR, False)]) 0"
        "kernel_heap_start s' = hd_or (bs @ [(?e, 0x1000 * ?pc - HDR, False)]) 0"
        using d(2, 3) s' by (simp_all add: bs)
      have "seg (headers s') 0 xs a (unat a)"
        using m(4) by (rule seg_cong_below) (use m(3) in \<open>auto simp: s'\<close>)
      then show "seg (headers s') 0 (bs @ [(?e, 0x1000 * ?pc - HDR, False)]) 0 (unat (kernel_heap_end s'))"
        using m(1, 2, 3) e0 ae end' sz pcpos by (simp add: bs seg_append s')
      show "0x1000 \<le> unat (kernel_heap_start s')" using d(5) s' by simp
    qed (simp_all add: s')
    then show ?thesis using s' by simp
  qed
qed

lemma alloc_blocks_append:
  assumes "find (fits n) bs = None"
  shows "alloc_blocks n (bs @ cs) =
    (case alloc_blocks n cs of None \<Rightarrow> None | Some (r, cs') \<Rightarrow> Some (r, bs @ cs'))"
  using assms by (induction bs) (auto split: if_splits option.splits)

lemma kmalloc_full:
  assumes h: "heap_is s bs" and nh: "\<not> held Heap_Mutex s" and full: "alloc_blocks (ALIGN_UP sz 16) bs = None"
  defines "n \<equiv> ALIGN_UP sz 16"
  shows "kmalloc sz s = bindR (heap_grow n (s\<lparr>mutexes := (mutexes s)(Heap_Mutex := (mutexes s Heap_Mutex)\<lparr>locked := True\<rparr>)\<rparr>))
    (\<lambda>(entry, s). if entry = 0 then bindR (kunlock Heap_Mutex s) (\<lambda>s. Inr (0, s))
      else let s = take_entry n entry s in bindR (kunlock Heap_Mutex s) (\<lambda>s. Inr (he_memory entry, s)))"
proof -
  have nof: "find (fits n) bs = None" using full by (simp add: alloc_blocks_None n_def)
  have "kmalloc_find (headers s) n (first_heap_entry s) = Some 0"
    using kmalloc_find_seg [OF heap_isD(6) [OF h], of n] heap_isD(2) [OF h] nof by simp
  then show ?thesis using nh by (simp add: kmalloc_def klock_eq Let_def flip: n_def)
qed

lemma kmalloc_grows_blocks:
  fixes s :: kmem and sz :: u64
  assumes h: "heap_is s bs" and nh: "\<not> held Heap_Mutex s"
    and full: "alloc_blocks (ALIGN_UP sz 16) bs = None" and r: "kmalloc sz s = Inr (r, s')"
    and room: "unat (kernel_heap_end s) + unat (ALIGN_UP sz 16) + 0x2000 < 2 ^ 64"
  defines "new \<equiv> (kernel_heap_end s, 0x1000 * grow_pages (ALIGN_UP sz 16) - HDR, False)"
  shows "(r = 0 \<and> heap_is s' bs \<or>
    (\<exists>t bs'. heap_is t (bs @ [new]) \<and> kernel_heap_end s' = kernel_heap_end t \<and>
       alloc_blocks (ALIGN_UP sz 16) (bs @ [new]) = Some (r, bs') \<and> heap_is s' bs')) \<and>
    mutexes s' = mutexes s"
proof -
  define n where "n = ALIGN_UP sz 16"
  define t where "t = s\<lparr>mutexes := (mutexes s)(Heap_Mutex := (mutexes s Heap_Mutex)\<lparr>locked := True\<rparr>)\<rparr>"
  have ht: "heap_is t bs" "kernel_heap_end t = kernel_heap_end s" using h by (simp_all add: t_def)
  have unlock: "\<exists>s'. kunlock Heap_Mutex t' = Inr s' \<and> mutexes s' = mutexes s \<and> (\<forall>bs. heap_is s' bs = heap_is t' bs)"
    if "mutexes t' = mutexes t" for t'
    using that relock_state [OF nh] by (simp add: kunlock_eq t_def)
  have nof: "find (fits n) bs = None" using full by (simp add: alloc_blocks_None n_def)
  note km = kmalloc_full [OF h nh full, folded n_def t_def]
  obtain entry t1 where g: "heap_grow n t = Inr (entry, t1)" using r unfolding km by auto
  have n32: "unat (n + HDR) = unat n + 32"
    using room by (subst unat_add_no_wrap) (simp_all add: HDR_def n_def)
  have pc: "unat (grow_pages n) = (unat n + 32) div 0x1000 + 1"
    unfolding grow_pages_def using n32 room by (subst unat_add_no_wrap) (simp_all add: unat_div n_def)
  have le: "0x1000 * ((unat n + 32) div 0x1000) \<le> unat n + 32" by simp
  have room2: "unat (kernel_heap_end t) + 0x1000 * unat (grow_pages n) < 2 ^ 64"
    using room le unfolding pc by (simp add: ht(2) n_def)
  have pos: "grow_pages n \<noteq> 0" using pc by auto
  from heap_grow_blocks [OF ht(1) g room2 pos] show ?thesis
  proof (elim disjE conjE)
    assume e: "entry = 0" "heap_is t1 bs" "mutexes t1 = mutexes t"
    from unlock [OF e(3)] e r km g show ?thesis by auto
  next
    assume e: "entry = kernel_heap_end t" "mutexes t1 = mutexes t"
      "heap_is t1 (bs @ [(kernel_heap_end t, 0x1000 * grow_pages n - HDR, False)])"
    then have h1: "heap_is t1 (bs @ (kernel_heap_end s, 0x1000 * grow_pages n - HDR, False) # [])"
      by (simp add: ht(2))
    have big: "unat (0x1000 * grow_pages n) = 0x1000 * unat (grow_pages n)"
      using room2 by (subst unat_mult_no_wrap) simp_all
    have "unat n + 32 < 0x1000 * ((unat n + 32) div 0x1000 + 1)"
      using div_mult_mod_eq [of "unat n + 32" "0x1000"] mod_less_divisor [of "0x1000" "unat n + 32"] by simp
    then have "unat n \<le> unat (0x1000 * grow_pages n - HDR)"
      using big pc by (subst unat_sub_no_wrap) (simp_all add: HDR_def word_le_nat_alt)
    then have fit: "n \<le> 0x1000 * grow_pages n - HDR" by (simp add: word_le_nat_alt)
    have ne: "kernel_heap_end s \<noteq> 0" using heap_is_mid(1) [OF h1] .
    define t2 where "t2 = take_entry n (kernel_heap_end s) t1"
    have h2: "heap_is t2 (bs @ carve n (kernel_heap_end s) (0x1000 * grow_pages n - HDR))"
      using take_entry_blocks [OF h1 fit] by (simp add: t2_def)
    have "mutexes t2 = mutexes t"
      using entries_only_fields(1) [OF entries_only_take] e(2) by (simp add: t2_def)
    from unlock [OF this] obtain s2 where s2: "kunlock Heap_Mutex t2 = Inr s2" "mutexes s2 = mutexes s"
      "\<And>bs. heap_is s2 bs = heap_is t2 bs" by blast
    have "kernel_heap_end t2 = kernel_heap_end t1" using entries_only_fields(3) [OF entries_only_take] by (simp add: t2_def)
    then have ends: "kernel_heap_end s2 = kernel_heap_end t1" using s2(1) by (auto simp: kunlock_eq)
    have res: "r = he_memory (kernel_heap_end s)" "s' = s2"
      using s2(1) r km g e(1) ne by (simp_all add: ht(2) Let_def t2_def)
    have "alloc_blocks n (bs @ [(kernel_heap_end s, 0x1000 * grow_pages n - HDR, False)]) =
        Some (r, bs @ carve n (kernel_heap_end s) (0x1000 * grow_pages n - HDR))"
      using alloc_blocks_append [OF nof] fit by (simp add: fits_def res(1))
    then show ?thesis using s2 h2 res(2) h1 ends unfolding new_def n_def by auto
  qed
qed

text \<open>The pages: taken from the physical map in one run and mapped one after the other.\<close>

lemma heap_grow_mapped:
  fixes s :: kmem and n :: u64
  defines "c \<equiv> grow_pages n" and "e \<equiv> kernel_heap_end s"
  assumes vm: "vm_ok s" and pos: "c \<noteq> 0" and run: "mappable_run e (unat c) s"
    and get: "mmap_get_pages (phys_mmap s) c = (p, m)"
    and room: "p \<noteq> 0 \<Longrightarrow> card (tables_missing e (unat c) s) \<le> free_pages m"
  shows "p = 0 \<Longrightarrow> heap_grow n s = Inr (0, s)"
    "p \<noteq> 0 \<Longrightarrow> \<exists>s1. heap_grow n s = Inr (e, s1) \<and> vm_ok s1 \<and>
       (\<forall>k < unat c. \<forall>i < 0x1000. translate s1 (page_at e k + of_nat i) = Some (True, page_at p k + of_nat i)) \<and>
       block p c \<subseteq> free_bytes (phys_mmap s) \<and> block p c \<inter> free_bytes (phys_mmap s1) = {}"
proof -
  have vi: "vm_inner s" using vm by (simp add: vm_ok_def)
  define u where "u = s\<lparr>phys_mmap := m\<rparr>"
  have al: "alloc_phys_pages c s = Inr (p, u)" using vm_innerD(3) [OF vi] get by (simp add: alloc_phys_pages_eq u_def)
  show "heap_grow n s = Inr (0, s)" if "p = 0"
  proof -
    have "wf_mmap (phys_mmap s)" using vm_innerD(2) [OF vi] by (simp add: spare_def)
    then have "m = phys_mmap s" using mmap_get_pages_miss(1) get that by simp
    then have "u = s" by (simp add: u_def)
    then show ?thesis using al that by (simp add: heap_grow_def Let_def c_def grow_pages_def)
  qed
  assume p: "p \<noteq> 0"
  note pg = get_some_pages [OF vm_innerD(2) [OF vi] get p pos]
  have same: "table_of d v u = table_of d v s" "no_large v u = no_large v s" for d v
    by (auto simp: u_def no_large_def split: option.splits)
  have "vm_ok u" using vm pg(2) unfolding vm_ok_def vm_inner_def by (simp add: u_def)
  moreover have "mappable_run e (unat c) u" using run by (simp add: mappable_run_def same(2))
  moreover have "card (tables_missing e (unat c) u) \<le> free_pages (phys_mmap u)"
    using room [OF p] by (simp add: tables_missing_def ways_missing_def same(1)) (simp add: u_def)
  moreover have rw: "bit PAGING_FLAG_READ_WRITE 1" by (simp add: flag_bits)
  then have "opens_run PAGING_FLAG_READ_WRITE e (unat c) u" by (simp add: opens_run_def)
  ultimately obtain t where t: "map_pages e p PAGING_FLAG_READ_WRITE (unat c) u = Inr t" "grows u t" "mutexes t = mutexes u"
    "\<forall>k < unat c. \<forall>i < 0x1000. translate t (page_at e k + of_nat i) = Some (True, page_at p k + of_nat i)"
    using map_pages_mapped [OF _ plain_RW _ pg(1, 5), of u e] rw by auto
  have po: "paging_only u t" by (rule growsD(1) [OF t(2)])
  have "kernel_heap_end u = e" by (simp add: u_def e_def)
  then obtain s1 where s1: "heap_grow n s = Inr (e, s1)" "pt s1 = pt t" "cr3 s1 = cr3 t" "phys_mmap s1 = phys_mmap t" "mutexes s1 = mutexes t"
    using al p t(1) paging_only_heap [OF po] by (simp add: heap_grow_def Let_def c_def grow_pages_def upd_header_def)
  note x = vm_inner_same [OF s1(2-4)]
  have "vm_inner s1" using growsD(2) [OF t(2)] x(6) s1(5) by simp
  then have "vm_ok s1" using vm by (simp add: vm_ok_def s1(5) t(3)) (simp add: u_def)
  moreover have "free_bytes (phys_mmap s1) \<subseteq> free_bytes (phys_mmap s) - block p c"
    using growsD(3) [OF t(2)] pg(4) by (simp add: s1(4) u_def)
  ultimately show "\<exists>s1. heap_grow n s = Inr (e, s1) \<and> vm_ok s1 \<and>
       (\<forall>k < unat c. \<forall>i < 0x1000. translate s1 (page_at e k + of_nat i) = Some (True, page_at p k + of_nat i)) \<and>
       block p c \<subseteq> free_bytes (phys_mmap s) \<and> block p c \<inter> free_bytes (phys_mmap s1) = {}"
    using s1(1) t(4) pg(3) x(2) by (intro exI [of _ s1]) auto
qed

text \<open>C23. Growth: when no free block holds the request, \<open>kmalloc\<close> takes a run of pages from the physical map.
  If the map has none it returns 0 and leaves the heap, the page tables and the map. Otherwise, with pages for the
  page tables that are missing, it maps the run behind the heap: every byte of the new pages translates, writable,
  to its place in the physical run, which was free and is not any more. The heap gains one free block over the
  pages, and the request is allocated in that. The mutexes are as before.\<close>

theorem kmalloc_grows:
  fixes s :: kmem and sz :: u64
  assumes h: "heap_is s bs" and nh: "\<not> held Heap_Mutex s" and vm: "vm_ok s"
    and full: "alloc_blocks (ALIGN_UP sz 16) bs = None"
    and room: "unat (kernel_heap_end s) + unat (ALIGN_UP sz 16) + 0x2000 < 2 ^ 64"
  defines "c \<equiv> grow_pages (ALIGN_UP sz 16)" and "e \<equiv> kernel_heap_end s"
  assumes run: "mappable_run e (unat c) s" and get: "mmap_get_pages (phys_mmap s) c = (p, m)"
    and tabs: "p \<noteq> 0 \<Longrightarrow> card (tables_missing e (unat c) s) \<le> free_pages m"
  shows "\<exists>r s'. kmalloc sz s = Inr (r, s') \<and> mutexes s' = mutexes s \<and> vm_ok s' \<and>
    (p = 0 \<longrightarrow> r = 0 \<and> heap_is s' bs \<and> pt s' = pt s \<and> phys_mmap s' = phys_mmap s) \<and>
    (p \<noteq> 0 \<longrightarrow> r \<noteq> 0 \<and>
      (\<exists>bs'. alloc_blocks (ALIGN_UP sz 16) (bs @ [(e, 0x1000 * c - HDR, False)]) = Some (r, bs') \<and> heap_is s' bs') \<and>
      (\<forall>k < unat c. \<forall>i < 0x1000. translate s' (page_at e k + of_nat i) = Some (True, page_at p k + of_nat i)) \<and>
      block p c \<subseteq> free_bytes (phys_mmap s) \<and> block p c \<inter> free_bytes (phys_mmap s') = {})"
proof -
  define n where "n = ALIGN_UP sz 16"
  define t where "t = s\<lparr>mutexes := (mutexes s)(Heap_Mutex := (mutexes s Heap_Mutex)\<lparr>locked := True\<rparr>)\<rparr>"
  have et: "pt t = pt s" "cr3 t = cr3 s" "phys_mmap t = phys_mmap s" "kernel_heap_end t = e" by (simp_all add: t_def e_def)
  note x = vm_inner_same [OF et(1-3)]
  have "vm_inner t" using vm unfolding vm_ok_def vm_inner_def x(1) et by (simp add: t_def)
  then have vt: "vm_ok t" using vm by (simp add: vm_ok_def t_def)
  have pos: "c \<noteq> 0"
  proof -
    have "unat (n + HDR) = unat n + 32" using room by (subst unat_add_no_wrap) (simp_all add: HDR_def n_def)
    then have "unat c = (unat n + 32) div 0x1000 + 1"
      unfolding c_def grow_pages_def n_def [symmetric] using room by (subst unat_add_no_wrap) (simp_all add: unat_div n_def)
    then show ?thesis by auto
  qed
  have rt: "mappable_run (kernel_heap_end t) (unat (grow_pages n)) t" using run by (simp add: mappable_run_def x(3) et n_def c_def)
  have gt: "mmap_get_pages (phys_mmap t) (grow_pages n) = (p, m)" using get by (simp add: et n_def c_def)
  have "tables_missing e (unat c) t = tables_missing e (unat c) s" by (simp only: tables_missing_def ways_missing_def x(1) et(1))
  then have tt: "card (tables_missing (kernel_heap_end t) (unat (grow_pages n)) t) \<le> free_pages m" if "p \<noteq> 0"
    using tabs [OF that] by (simp add: et n_def c_def)
  note hm = heap_grow_mapped [OF vt pos [unfolded c_def, folded n_def] rt gt tt, unfolded et(4), folded c_def]
  note km = kmalloc_full [OF h nh full, folded n_def t_def]
  show ?thesis
  proof (cases "p = 0")
    case True
    have u: "kunlock Heap_Mutex t = Inr s" using relock_state [OF nh] by (simp add: kunlock_eq t_def)
    have "kmalloc sz s = Inr (0, s)" using km hm(1) True u by simp
    then show ?thesis using True h vm by (intro exI [of _ 0] exI [of _ s]) simp
  next
    case False
    from hm(2) [OF _ False] obtain s1 where s1: "heap_grow n t = Inr (e, s1)" "vm_ok s1"
      "\<forall>k < unat c. \<forall>i < 0x1000. translate s1 (page_at e k + of_nat i) = Some (True, page_at p k + of_nat i)"
      "block p c \<subseteq> free_bytes (phys_mmap s)" "block p c \<inter> free_bytes (phys_mmap s1) = {}"
      by (auto simp: c_def n_def et)
    have e0: "e \<noteq> 0"
    proof -
      obtain xs a z v where "bs = xs @ [(a, z, v)]" using heap_isD(1) [OF h] by (cases bs rule: rev_cases) auto
      with heap_is_mid(6) [of s xs a z v "[]"] h have "unat e > 0" by (auto simp: e_def)
      then show ?thesis by (simp add: unat_gt_0)
    qed
    define s2 where "s2 = take_entry n e s1"
    have eo: "entries_only s1 s2" by (simp add: s2_def entries_only_take)
    have f2: "pt s2 = pt s1" "cr3 s2 = cr3 s1" "phys_mmap s2 = phys_mmap s1" by (subst eo [unfolded entries_only_def], simp)+
    obtain s' where s': "kunlock Heap_Mutex s2 = Inr s'" by (simp add: kunlock_eq)
    then have f3: "pt s' = pt s2" "cr3 s' = cr3 s2" "phys_mmap s' = phys_mmap s2" by (auto simp: kunlock_eq)
    have ret: "kmalloc sz s = Inr (he_memory e, s')" using km s1(1) e0 s' by (simp add: s2_def Let_def)
    note gb = kmalloc_grows_blocks [OF h nh full ret room, folded c_def e_def]
    note y = vm_inner_same [of s' s1, unfolded f3 f2, OF refl refl refl]
    have mu: "mutexes s' = mutexes s" using gb by blast
    have "vm_inner s'" using s1(2) vm unfolding vm_ok_def vm_inner_def mu y(1) by (simp add: f3 f2)
    then have "vm_ok s'" using vm by (simp add: vm_ok_def mu)
    moreover have "he_memory e \<noteq> 0"
    proof -
      have "unat (e + HDR) = unat e + 32" using room unfolding HDR_def e_def [symmetric] by (subst unat_add_no_wrap) simp_all
      then show ?thesis unfolding he_memory_def by (metis add_is_0 unat_0 zero_neq_numeral)
    qed
    ultimately show ?thesis using ret gb s1(3-5) False y(2)
      by (intro exI [of _ "he_memory e"] exI [of _ s']) (auto simp: f3 f2)
  qed
qed

text \<open>C12. Whatever way \<open>kmalloc\<close> takes, the memory it returns is the caller's alone: it is at least as long as
  the request, lies inside the heap as it is then, and every block that was in use still is, with its place and
  size, and is disjoint from the new one. It returns such a block whenever a free block is large enough; when the
  heap has to grow for it, it may also return 0. Requests are of at most \<open>2 ^ 64 - 16\<close> bytes, and the heap has room
  behind it in the address space.\<close>

theorem kmalloc_returns_fresh_block:
  assumes h: "heap_is s bs" and nh: "\<not> held Heap_Mutex s" and sz: "unat sz \<le> 2 ^ 64 - 16"
    and room: "unat (kernel_heap_end s) + unat (ALIGN_UP sz 16) + 0x2000 < 2 ^ 64"
  shows "((\<exists>b \<in> set bs. fits (ALIGN_UP sz 16) b) \<longrightarrow> (\<exists>r s'. kmalloc sz s = Inr (r, s') \<and> r \<noteq> 0)) \<and>
    (\<forall>r s'. kmalloc sz s = Inr (r, s') \<and> r \<noteq> 0 \<longrightarrow>
      (\<exists>a z bs'. r = he_memory a \<and> heap_is s' bs' \<and> (a, z, True) \<in> set bs' \<and>
        unat sz \<le> unat z \<and> unat a + 32 + unat z \<le> unat (kernel_heap_end s') \<and>
        (\<forall>b y. (b, y, True) \<in> set bs \<longrightarrow> (b, y, True) \<in> set bs' \<and>
          (unat b + 32 + unat y \<le> unat a \<or> unat a + 32 + unat z \<le> unat b))))"
proof (cases "alloc_blocks (ALIGN_UP sz 16) bs")
  case None
  then have "\<not> (\<exists>b \<in> set bs. fits (ALIGN_UP sz 16) b)" unfolding alloc_blocks_None find_None_iff by blast
  moreover have "\<exists>a z bs'. r = he_memory a \<and> heap_is s' bs' \<and> (a, z, True) \<in> set bs' \<and>
      unat sz \<le> unat z \<and> unat a + 32 + unat z \<le> unat (kernel_heap_end s') \<and>
      (\<forall>b y. (b, y, True) \<in> set bs \<longrightarrow> (b, y, True) \<in> set bs' \<and>
        (unat b + 32 + unat y \<le> unat a \<or> unat a + 32 + unat z \<le> unat b))"
    if r: "kmalloc sz s = Inr (r, s')" "r \<noteq> 0" for r s'
  proof -
    from kmalloc_grows_blocks [OF h nh None r(1) room] r(2) obtain t new bs' where
      "heap_is t (bs @ [new])" "kernel_heap_end s' = kernel_heap_end t"
      "alloc_blocks (ALIGN_UP sz 16) (bs @ [new]) = Some (r, bs')" "heap_is s' bs'" by blast
    with alloc_blocks_fresh [OF this(1) sz this(3)] show ?thesis by fastforce
  qed
  ultimately show ?thesis by blast
next
  case (Some q)
  then obtain r bs' where al: "alloc_blocks (ALIGN_UP sz 16) bs = Some (r, bs')" by (cases q) auto
  from kmalloc_refines [OF h nh al] obtain s' where
    s': "kmalloc sz s = Inr (r, s')" "heap_is s' bs'" "entries_only s s'" by blast
  note f = alloc_blocks_fresh [OF h sz al] and e = entries_only_fields(3) [OF s'(3)]
  have "r \<noteq> 0"
  proof -
    from f obtain a and z :: u64 where a: "r = he_memory a" "unat a + 32 + unat z \<le> unat (kernel_heap_end s)" by blast
    have "unat a + 32 < 2 ^ 64" using a(2) unat_u64_less [of "kernel_heap_end s"] by (simp del: unat_u64_less)
    then have "unat (a + HDR) = unat a + 32" unfolding HDR_def by (subst unat_add_no_wrap) simp_all
    then show ?thesis unfolding a(1) he_memory_def by (metis add_is_0 unat_0 zero_neq_numeral)
  qed
  then show ?thesis using s' f by (auto simp: e)
qed

section \<open>Trimming\<close>

lemma paging_only_phys_mmap: "paging_only s (s\<lparr>phys_mmap := m\<rparr>)"
  by (simp add: paging_only_def)

lemma unlocked_again:
  assumes "\<not> held i s"
  shows "kunlock i (s\<lparr>mutexes := (mutexes s)(i := (mutexes s i)\<lparr>locked := True\<rparr>), phys_mmap := m\<rparr>) = Inr (s\<lparr>phys_mmap := m\<rparr>)"
  using relock_state [OF assms] by (simp add: kunlock_eq)

lemma free_phys_pages_keeps:
  assumes "free_phys_pages base count s = Inr (b, s')"
  shows "paging_only s s'"
proof -
  have nh: "\<not> held Phys_Mmap_Mutex s" using assms by (auto simp: free_phys_pages_def klock_eq split: if_splits)
  obtain added m where am: "mmap_add_range_merge (phys_mmap s) base count = (added, m)" by fastforce
  let ?s = "s\<lparr>phys_mmap := m\<rparr>"
  show ?thesis
  proof (cases added)
    case True
    with assms nh am unlocked_again [OF nh] have "s' = ?s"
      by (simp add: free_phys_pages_def klock_eq)
    then show ?thesis by (simp add: paging_only_phys_mmap)
  next
    case False
    let ?m = "\<lambda>s. map_page (phys_ranges s + 16 * of_nat (max_range_count (phys_mmap s))) base PAGING_FLAG_READ_WRITE s"
    let ?u = "\<lambda>s. s\<lparr>phys_mmap := (phys_mmap s)\<lparr>memory_ranges := memory_ranges (phys_mmap s) @ replicate 256 empty_cell,
      max_range_count := max_range_count (phys_mmap s) + unat (count * 0x1000 div 16)\<rparr>\<rparr>"
    have "paging_only ?s s'"
    proof (cases "phys_mmap_max_size s \<le> of_nat (max_range_count m) * 16 + count * 0x1000")
      case True
      with assms nh am False unlocked_again [OF nh]
      have "bindR (klock Phys_Mmap_Ext_Mutex ?s) (\<lambda>s. bindR (Inr s) (kunlock Phys_Mmap_Ext_Mutex)) = Inr s'"
        by (auto simp: free_phys_pages_def klock_eq Let_def split: if_splits)
      then show ?thesis using keeps_locked [of Inr ?s Phys_Mmap_Ext_Mutex] keeps_Inr by (auto simp: keeps_def)
    next
      case big: False
      have "bindR (klock Phys_Mmap_Ext_Mutex ?s) (\<lambda>s. bindR (bindR (?m s) (\<lambda>s. Inr (?u s))) (kunlock Phys_Mmap_Ext_Mutex)) = Inr s'"
        using assms nh am False unlocked_again [OF nh] big
        by (auto simp: free_phys_pages_def klock_eq Let_def split: if_splits)
      moreover have "keeps s (bindR (?m s) (\<lambda>s. Inr (?u s)))" for s
        by (intro keeps_bind keeps_map_page) (simp add: keeps_def paging_only_phys_mmap)
      ultimately show ?thesis
        using keeps_locked [of "\<lambda>s. bindR (?m s) (\<lambda>s. Inr (?u s))" ?s Phys_Mmap_Ext_Mutex] by (auto simp: keeps_def)
    qed
    then show ?thesis using paging_only_trans [OF paging_only_phys_mmap] by blast
  qed
qed

lemma unmap_from_keeps: "unmap_from a e s = Inr s' \<Longrightarrow> paging_only s s'"
proof (induction a e s rule: unmap_from.induct)
  case (1 a e s)
  show ?case
  proof (cases "a < e")
    case True
    with "1.prems" obtain t where t: "unmap_page a s = Inr t" "unmap_from (a + 1) e t = Inr s'"
      by (subst (asm) unmap_from.simps) auto
    then have "paging_only s t" using keeps_unmap_page by (auto simp: keeps_def)
    with "1.IH" [OF True t(2)] show ?thesis using paging_only_trans by blast
  next
    case False
    with "1.prems" show ?thesis by (subst (asm) unmap_from.simps) (simp add: paging_only_def)
  qed
qed

lemma trim_entries_fields:
  "mutexes (trim_entries a e s) = mutexes s" "kernel_heap_end (trim_entries a e s) = kernel_heap_end s"
  "pt (trim_entries a e s) = pt s" "cr3 (trim_entries a e s) = cr3 s" "phys_mmap (trim_entries a e s) = phys_mmap s"
  by (simp_all add: trim_entries_def Let_def upd_header_def)

lemma kfree_shrink_result:
  assumes "kfree_shrink a s = Inr s'" and "he_next (headers s a) = 0" "he_last (headers s a) \<noteq> 0"
    "ALIGN_UP (he_memory a + MAX_ALIGN) 0x1000 \<noteq> kernel_heap_end s"
  obtains t where "paging_only (trim_entries a (ALIGN_UP a 0x1000) s) t" "s' = t\<lparr>kernel_heap_end := ALIGN_UP a 0x1000\<rparr>"
proof -
  from assms obtain p b t1 t2 where
    "free_phys_pages p ((kernel_heap_end s - ALIGN_UP a 0x1000) div 0x1000) (trim_entries a (ALIGN_UP a 0x1000) s) = Inr (b, t1)"
    "unmap_from (kernel_heap_end t1) (ALIGN_UP a 0x1000) t1 = Inr t2"
    "s' = t2\<lparr>kernel_heap_end := ALIGN_UP a 0x1000\<rparr>"
    by (auto simp: kfree_shrink_def trim_entries_fields Let_def split: if_splits)
  then show thesis
    using that paging_only_trans free_phys_pages_keeps unmap_from_keeps by blast
qed

lemma trim_entries_blocks:
  assumes h: "heap_is s (xs @ [(a, z, False)])" and xs: "xs \<noteq> []"
    and gap: "ALIGN_UP a 0x1000 = a \<or> unat a + 32 \<le> unat (ALIGN_UP a 0x1000)"
  shows "heap_is ((trim_entries a (ALIGN_UP a 0x1000) s)\<lparr>kernel_heap_end := ALIGN_UP a 0x1000\<rparr>)
    (if ALIGN_UP a 0x1000 = a then xs else xs @ [(a, ALIGN_UP a 0x1000 - a - HDR, False)])"
proof (cases "ALIGN_UP a 0x1000 = a")
  case True
  obtain ys b y v where ys: "xs = ys @ [(b, y, v)]" using xs by (cases xs rule: rev_cases) auto
  note d = heap_isD [OF h] and m = heap_is_mid [OF h]
  have "heap_is s (ys @ (b, y, v) # [(a, z, False)])" using h by (simp add: ys)
  note mb = heap_is_mid [OF this]
  have "seg ((headers s)(b := (headers s b)\<lparr>he_next := 0\<rparr>)) 0 ys b (unat b)"
    by (rule seg_cong_below [OF mb(4)]) auto
  then show ?thesis using True d m(2) mb(1, 2, 3)
    by (intro heap_isI) (auto simp: ys trim_entries_def Let_def upd_header_def seg_append)
next
  case False
  note d = heap_isD [OF h] and m = heap_is_mid [OF h]
  let ?e = "ALIGN_UP a 0x1000"
  have ge: "unat a + 32 \<le> unat ?e" using gap False by simp
  then have "unat (?e - a) = unat ?e - unat a" by (intro unat_sub_no_wrap) (simp add: word_le_nat_alt)
  moreover from this ge have "unat (?e - a - HDR) = unat (?e - a) - 32"
    by (subst unat_sub_no_wrap) (simp_all add: HDR_def word_le_nat_alt)
  ultimately have sz: "unat a + 32 + unat (?e - a - HDR) = unat ?e" using ge by simp
  have "seg ((headers s)(a := (headers s a)\<lparr>he_size := ?e - a - HDR\<rparr>)) 0 xs a (unat a)"
    by (rule seg_cong_below [OF m(4)]) auto
  then show ?thesis using False d m(1, 2) sz
    by (intro heap_isI) (auto simp: trim_entries_def Let_def upd_header_def seg_append)
qed

lemma join_next_rest:
  obtains y ws where "join_next a z ys = (a, y, False) # ws" "set ws \<subseteq> set ys"
  by (cases "(a, z, ys)" rule: join_next.cases) (auto intro: that)

text \<open>A returning \<open>kfree\<close> whose freed, joined block \<open>b\<close> is the last of the heap ends in the trimming branch.\<close>

lemma kfree_reaches_shrink:
  assumes h: "heap_is s (xs @ (a, z, True) # ys)" and nh: "\<not> held Heap_Mutex s"
    and fb: "free_blocks xs a z ys = us @ [(b, y, False)]" "b \<le> a"
  obtains t where "heap_is t (us @ [(b, y, False)])" "kernel_heap_end t = kernel_heap_end s"
    "kfree (he_memory a) s = bindR (kfree_shrink b t) (kunlock Heap_Mutex)"
    "mutexes t = (mutexes s)(Heap_Mutex := (mutexes s Heap_Mutex)\<lparr>locked := True\<rparr>)" "pt t = pt s" "cr3 t = cr3 s"
    "phys_mmap t = phys_mmap s"
proof -
  define t where "t = s\<lparr>mutexes := (mutexes s)(Heap_Mutex := (mutexes s Heap_Mutex)\<lparr>locked := True\<rparr>)\<rparr>"
  define t1 where "t1 = upd_header a (\<lambda>e. e\<lparr>he_used := False\<rparr>) t"
  obtain a' t2 where ml: "kfree_merge_last a t1 = (a', t2)" by (cases "kfree_merge_last a t1")
  define t3 where "t3 = kfree_merge_next a' t2"
  have "heap_is t1 (xs @ (a, z, False) # ys)"
    unfolding t1_def by (rule set_used_blocks [of _ _ _ _ True]) (simp add: t_def h)
  from kfree_merge_last_blocks [OF this ml] obtain xs' z'
    where 2: "heap_is t2 (xs' @ (a', z', False) # ys)" "free_blocks xs a z ys = xs' @ join_next a' z' ys"
    by blast
  have h3: "heap_is t3 (us @ [(b, y, False)])"
    using kfree_merge_next_blocks [OF 2(1)] by (simp add: t3_def fb(1) flip: 2(2))
  obtain y' ws where j: "join_next a' z' ys = (a', y', False) # ws" "set ws \<subseteq> set ys" by (rule join_next_rest)
  have "ws = []"
  proof (rule ccontr)
    assume "ws \<noteq> []"
    have "us @ [(b, y, False)] = xs' @ (a', y', False) # ws" using 2(2) j(1) fb(1) by simp
    then have "last (us @ [(b, y, False)]) = last (xs' @ (a', y', False) # ws)" by (rule arg_cong)
    then have "(b, y, False) = last ws" using \<open>ws \<noteq> []\<close> by simp
    then have "(b, y, False) \<in> set ws" using \<open>ws \<noteq> []\<close> by simp
    then have "unat a < unat b" using seg_ordered(2) [OF heap_isD(6) [OF h], of b y False] j(2) by auto
    with fb(2) show False by (simp add: word_le_nat_alt)
  qed
  then have ab: "a' = b" using 2(2) j(1) fb(1) by simp
  have eo: "entries_only t t3"
    using entries_only_upd [of t a] entries_only_merge_last [of t1 a] entries_only_merge_next [of t2 a']
    by (metis t1_def t3_def ml snd_conv entries_only_trans)
  have "kfree_merge_next b t2 = t3" by (simp add: t3_def ab)
  then have "kfree (he_memory a) s = bindR (kfree_shrink b t3) (kunlock Heap_Mutex)"
    using nh ml by (simp add: kfree_def klock_eq Let_def he_memory_def ab flip: t_def t1_def)
  moreover have "pt t3 = pt t" "cr3 t3 = cr3 t" "phys_mmap t3 = phys_mmap t"
    by (subst eo [unfolded entries_only_def], simp)+
  ultimately show thesis
    using that [OF h3] entries_only_fields [OF eo] by (simp add: t_def)
qed

lemma trim_due:
  assumes "heap_is t (us @ [(b, y, False)])" "us \<noteq> []"
  shows "he_next (headers t b) = 0" "he_last (headers t b) \<noteq> 0"
proof -
  note m = heap_is_mid [OF assms(1)]
  obtain vs c where "us = vs @ [c]" using assms(2) by (cases us rule: rev_cases) auto
  then have "last_or us 0 \<noteq> 0" using m(4) by (cases c) (simp add: seg_append)
  then show "he_next (headers t b) = 0" "he_last (headers t b) \<noteq> 0" using m(2) by simp_all
qed

lemma heap_is_moved_end:
  assumes "paging_only s t"
  shows "heap_is (t\<lparr>kernel_heap_end := e\<rparr>) bs = heap_is (s\<lparr>kernel_heap_end := e\<rparr>) bs"
  using paging_only_heap [OF assms] by (simp add: heap_is_def)

text \<open>Trimming: when the freed block, joined with its neighbours, is the last of the heap and does not
  end flush, a returning \<open>kfree\<close> moves the end of the heap down to the first page boundary at or
  behind the block's entry: the block is dropped when its entry is at the boundary, and cut to end
  there otherwise. This needs an entry's length between them, which \<open>kfree\<close> does not check.\<close>

theorem kfree_trims:
  assumes h: "heap_is s (xs @ (a, z, True) # ys)" and nh: "\<not> held Heap_Mutex s"
    and fb: "free_blocks xs a z ys = us @ [(b, y, False)]" "b \<le> a" "us \<noteq> []"
    and due: "ALIGN_UP (he_memory b + MAX_ALIGN) 0x1000 \<noteq> kernel_heap_end s"
    and gap: "ALIGN_UP b 0x1000 = b \<or> unat b + 32 \<le> unat (ALIGN_UP b 0x1000)"
    and r: "kfree (he_memory a) s = Inr s'"
  shows "heap_is s' (if ALIGN_UP b 0x1000 = b then us else us @ [(b, ALIGN_UP b 0x1000 - b - HDR, False)]) \<and>
    kernel_heap_end s' = ALIGN_UP b 0x1000 \<and> mutexes s' = mutexes s"
proof -
  obtain t where t: "heap_is t (us @ [(b, y, False)])" "kernel_heap_end t = kernel_heap_end s"
    "kfree (he_memory a) s = bindR (kfree_shrink b t) (kunlock Heap_Mutex)"
    "mutexes t = (mutexes s)(Heap_Mutex := (mutexes s Heap_Mutex)\<lparr>locked := True\<rparr>)"
    using kfree_reaches_shrink [OF h nh fb(1, 2)] by metis
  from r t(3) obtain t4 where t4: "kfree_shrink b t = Inr t4" "kunlock Heap_Mutex t4 = Inr s'" by auto
  obtain w where w: "paging_only (trim_entries b (ALIGN_UP b 0x1000) t) w" "t4 = w\<lparr>kernel_heap_end := ALIGN_UP b 0x1000\<rparr>"
    using kfree_shrink_result [OF t4(1) trim_due [OF t(1) fb(3)]] due t(2) by metis
  have "mutexes t4 = mutexes t" using paging_only_heap(7) [OF w(1)] by (simp add: w(2) trim_entries_fields)
  then have s': "s' = t4\<lparr>mutexes := mutexes s\<rparr>" using t4(2) relock_state [OF nh] t(4) by (simp add: kunlock_eq)
  from trim_entries_blocks [OF t(1) fb(3) gap] show ?thesis
    by (simp add: s' w(2) heap_is_moved_end [OF w(1)])
qed

text \<open>Without that room the size underflows: when the entry is 16 bytes before a page boundary, a
  returning \<open>kfree\<close> leaves a free last block whose recorded size is \<open>2 ^ 64 - 16\<close>, so that it
  passes for large enough for any request.\<close>

theorem kfree_trim_underflows:
  assumes h: "heap_is s (xs @ (a, z, True) # ys)" and nh: "\<not> held Heap_Mutex s"
    and fb: "free_blocks xs a z ys = us @ [(b, y, False)]" "b \<le> a" "us \<noteq> []"
    and due: "ALIGN_UP (he_memory b + MAX_ALIGN) 0x1000 \<noteq> kernel_heap_end s"
    and gap: "ALIGN_UP b 0x1000 = b + 16"
    and r: "kfree (he_memory a) s = Inr s'"
  shows "he_size (headers s' b) = 0xFFFFFFFFFFFFFFF0 \<and>
    (\<forall>n. 16 dvd unat n \<longrightarrow> fits n (b, he_size (headers s' b), he_used (headers s' b)))"
proof -
  obtain t where t: "heap_is t (us @ [(b, y, False)])" "kernel_heap_end t = kernel_heap_end s"
    "kfree (he_memory a) s = bindR (kfree_shrink b t) (kunlock Heap_Mutex)"
    using kfree_reaches_shrink [OF h nh fb(1, 2)] by metis
  from r t(3) obtain t4 where t4: "kfree_shrink b t = Inr t4" "kunlock Heap_Mutex t4 = Inr s'" by auto
  obtain w where w: "paging_only (trim_entries b (ALIGN_UP b 0x1000) t) w" "t4 = w\<lparr>kernel_heap_end := ALIGN_UP b 0x1000\<rparr>"
    using kfree_shrink_result [OF t4(1) trim_due [OF t(1) fb(3)]] due t(2) by metis
  have "headers s' = headers (trim_entries b (ALIGN_UP b 0x1000) t)"
    using t4(2) paging_only_heap(2) [OF w(1)] by (auto simp: kunlock_eq w(2))
  moreover have "headers (trim_entries b (ALIGN_UP b 0x1000) t) b = \<lparr>he_size = 0xFFFFFFFFFFFFFFF0, he_used = False, he_last = last_or us 0, he_next = 0\<rparr>"
    using heap_is_mid(2) [OF t(1)] by (simp add: trim_entries_def Let_def gap upd_header_def HDR_def)
  moreover have "n \<le> 0xFFFFFFFFFFFFFFF0" if d: "16 dvd unat n" for n :: u64
  proof -
    obtain k where "unat n = 16 * k" using d unfolding dvd_def by blast
    then have "unat n \<le> 0xFFFFFFFFFFFFFFF0" using unat_u64_less [of n] by (simp del: unat_u64_less)
    then show ?thesis by (simp add: word_le_nat_alt)
  qed
  ultimately show ?thesis by (simp add: fits_def)
qed

section \<open>A heap that grows\<close>

text \<open>The tables of \<open>demo_paging\<close>, a heap of one page whose only block is in use, and 16 free pages.\<close>

definition growing_heap :: kmem where
  "growing_heap = demo_paging\<lparr>phys_mmap := \<lparr>memory_ranges = [\<lparr>base_addr = 0x9000, pages = 16\<rparr>],
       range_count = 1, max_range_count = 1\<rparr>,
     kernel_heap_start := 0xFFFFFF1000000000, kernel_heap_end := 0xFFFFFF1000001000,
     first_heap_entry := 0xFFFFFF1000000000, last_heap_entry := 0xFFFFFF1000000000,
     headers := (headers demo_paging)(0xFFFFFF1000000000 := \<lparr>he_size = 0xFE0, he_used = True, he_last = 0, he_next = 0\<rparr>)\<rparr>"

lemma growing_heap_tables:
  "separate 0x1000 0x2000 0x3000 0x4000 0xFFFFFF1000001000"
  "tables 0x1000 0x2000 0x3000 0x4000 0xFFFFFF1000001000 (pt demo_paging)"
  by (simp_all add: separate_def tables_def table_entry_def entry_of_def pt_index_def mask9 demo_paging_def frame_mask_def)

text \<open>
  A heap on the bare kernel of theory \<open>Map_Page\<close>: its one page is mapped by \<open>map_page\<close>, which makes three tables,
  and its block is in use, so that the next request takes one of the five pages left.
\<close>

definition full_heap :: kmem where
  "full_heap = demo_bare\<lparr>kernel_heap_start := 0xFFFFFF1000000000, kernel_heap_end := 0xFFFFFF1000001000,
     first_heap_entry := 0xFFFFFF1000000000, last_heap_entry := 0xFFFFFF1000000000,
     headers := (headers demo_paging)(0xFFFFFF1000000000 := \<lparr>he_size = 0xFE0, he_used = True, he_last = 0, he_next = 0\<rparr>)\<rparr>"

lemma full_heap_mapped:
  "\<exists>s. map_page 0xFFFFFF1000000000 0x9000 2 full_heap = Inr s \<and> heap_is s [(0xFFFFFF1000000000, 0xFE0, True)] \<and>
     vm_ok s \<and> \<not> held Heap_Mutex s \<and> kernel_heap_end s = 0xFFFFFF1000001000 \<and> mappable_run 0xFFFFFF1000001000 1 s \<and>
     card (tables_missing 0xFFFFFF1000001000 1 s) \<le> 3 \<and> free_pages (phys_mmap s) = 5"
proof -
  have e: "pt full_heap = pt demo_bare" "cr3 full_heap = cr3 demo_bare" "phys_mmap full_heap = phys_mmap demo_bare"
    "mutexes full_heap = mutexes demo_bare" "kernel_heap_end full_heap = 0xFFFFFF1000001000" by (simp_all add: full_heap_def)
  note x = vm_inner_same [OF e(1-3)] and f = demo_bare_facts
  have vi: "vm_inner full_heap = vm_inner demo_bare" by (rule x(6)) (simp add: e(4))
  have ok: "vm_ok full_heap" using f(1) by (simp add: vm_ok_def vi e(4))
  have nl: "no_large u full_heap" if "ordinary u" for u using demo_bare_tables(2) [OF that] by (simp add: x(3))
  have op: "opens 2 0xFFFFFF1000000000 full_heap" by (simp add: opens_def bit_2_iff)
  have "missing 0xFFFFFF1000000000 full_heap = 3" "free_pages (phys_mmap full_heap) = 8" using f(4, 5) by (simp_all add: x(4) e(3))
  with map_page_run(2) [OF ok f(2) nl [OF f(2)] demo_paging_facts(4) op, of "0x9000"] obtain s where
    s: "map_page 0xFFFFFF1000000000 0x9000 2 full_heap = Inr s" "grows full_heap s" "mutexes s = mutexes full_heap"
      "free_pages (phys_mmap s) = 5" by auto
  have po: "paging_only full_heap s" by (rule growsD(1) [OF s(2)])
  have "heap_is full_heap [(0xFFFFFF1000000000, 0xFE0, True)]" by (simp add: heap_is_def full_heap_def)
  then have "heap_is s [(0xFFFFFF1000000000, 0xFE0, True)]" by (simp only: paging_only_heap(1) [OF po])
  moreover have "\<not> held Heap_Mutex s" by (simp add: s(3) e(4) demo_bare_def demo_paging_facts(5))
  moreover have "vm_ok s" using growsD(2) [OF s(2)] ok by (simp add: vm_ok_def s(3))
  moreover have "mappable_run 0xFFFFFF1000001000 1 s"
    using f(3) growsD(4) [OF s(2) f(3) nl [OF f(3)]] by (simp add: mappable_run_def mask_eq_exp_minus_1)
  moreover have "card (tables_missing 0xFFFFFF1000001000 1 s) \<le> 3"
  proof -
    have "tables_missing 0xFFFFFF1000001000 1 s = set (ways_missing 0xFFFFFF1000001000 s)" by (simp add: tables_missing_def lessThan_Suc)
    moreover have "length (ways_missing 0xFFFFFF1000001000 s) \<le> 3" by (simp add: ways_missing_def)
    ultimately show ?thesis using card_length [of "ways_missing 0xFFFFFF1000001000 s"] by simp
  qed
  moreover have "kernel_heap_end s = 0xFFFFFF1000001000" using paging_only_heap(3) [OF po] by (simp add: e(5))
  ultimately show ?thesis using s(1, 4) by blast
qed

theorem kmalloc_grows_witness:
  "\<exists>s p s'. map_page 0xFFFFFF1000000000 0x9000 2 full_heap = Inr s \<and> kmalloc 0x100 s = Inr (0xFFFFFF1000001020, s') \<and>
     heap_is s' [(0xFFFFFF1000000000, 0xFE0, True), (0xFFFFFF1000001000, 0x100, True), (0xFFFFFF1000001120, 0xEC0, False)] \<and>
     p \<noteq> 0 \<and> translate s' 0xFFFFFF1000001020 = Some (True, p + 0x20)"
proof -
  obtain s where s: "map_page 0xFFFFFF1000000000 0x9000 2 full_heap = Inr s" "heap_is s [(0xFFFFFF1000000000, 0xFE0, True)]"
    "vm_ok s" "\<not> held Heap_Mutex s" "kernel_heap_end s = 0xFFFFFF1000001000" "mappable_run 0xFFFFFF1000001000 1 s"
    "card (tables_missing 0xFFFFFF1000001000 1 s) \<le> 3" "free_pages (phys_mmap s) = 5" using full_heap_mapped by blast
  obtain p m where pm: "mmap_get_pages (phys_mmap s) 1 = (p, m)" by fastforce
  have "vm_inner s" using s(3) by (simp add: vm_ok_def)
  note g = get_one_page [OF vm_innerD(2) [OF this] pm]
  have p: "p \<noteq> 0" using g(1) s(8) by simp
  have fm: "free_pages m = 4" using g(3) [OF p] s(8) by simp
  have c: "grow_pages 0x100 = 1" "ALIGN_UP 0x100 16 = 0x100" by (simp_all add: grow_pages_def HDR_def ALIGN_UP_def ALIGN_DOWN_def)
  from kmalloc_grows [OF s(2, 4, 3), of "0x100", unfolded c s(5), OF _ _ _ pm] p fm s(6, 7) obtain r s' bs' where
    r: "kmalloc 0x100 s = Inr (r, s')" "alloc_blocks 0x100 ([(0xFFFFFF1000000000, 0xFE0, True)] @ [(0xFFFFFF1000001000, 0x1000 * 1 - HDR, False)]) = Some (r, bs')"
      "heap_is s' bs'" "\<forall>k < unat (1 :: u64). \<forall>i < 0x1000. translate s' (page_at 0xFFFFFF1000001000 k + of_nat i) = Some (True, page_at p k + of_nat i)"
    by (auto simp: fits_def)
  from r(4) [rule_format, of 0 "0x20"] have "translate s' 0xFFFFFF1000001020 = Some (True, p + 0x20)" by simp
  moreover have "r = 0xFFFFFF1000001020" "bs' = [(0xFFFFFF1000000000, 0xFE0, True), (0xFFFFFF1000001000, 0x100, True), (0xFFFFFF1000001120, 0xEC0, False)]"
    using r(2) by (auto simp: fits_def carve_def HDR_def he_memory_def)
  ultimately show ?thesis using s(1) r(1, 3) p by blast
qed

theorem kmalloc_returns_fresh_block_witness:
  "\<exists>a z s' bs'. kmalloc 100 small_heap = Inr (he_memory a, s') \<and> heap_is s' bs' \<and> (a, z, True) \<in> set bs' \<and>
     100 \<le> unat z \<and> unat a + 32 + unat z \<le> unat (kernel_heap_end s')"
proof -
  have k: "kernel_heap_end small_heap = 0x101000" by (simp add: small_heap_def)
  have c: "ALIGN_UP 100 16 = 0x70" by (simp add: ALIGN_UP_def ALIGN_DOWN_def)
  note f = kmalloc_returns_fresh_block [OF small_heap_blocks small_heap_free, of 100, unfolded c k]
  have "\<exists>r s'. kmalloc 100 small_heap = Inr (r, s') \<and> r \<noteq> 0" using f by (simp add: fits_def)
  then obtain r s' where r: "kmalloc 100 small_heap = Inr (r, s')" "r \<noteq> 0" by blast
  with f show ?thesis by fastforce
qed

text \<open>
  A heap of three pages with two blocks in use, the second at offset \<open>o\<close>: freeing it trims the
  heap, cleanly at \<open>o = 0x1000\<close>, with the underflow at \<open>o = 0xFF0\<close>.
\<close>

definition trimming_heap :: "u64 \<Rightarrow> kmem" where
  "trimming_heap off = growing_heap\<lparr>kernel_heap_end := 0xFFFFFF1000003000,
     last_heap_entry := 0xFFFFFF1000000000 + off,
     headers := (headers demo_paging)
       (0xFFFFFF1000000000 := \<lparr>he_size = off - 0x20, he_used = True, he_last = 0, he_next = 0xFFFFFF1000000000 + off\<rparr>,
        0xFFFFFF1000000000 + off := \<lparr>he_size = 0x2FE0 - off, he_used = True, he_last = 0xFFFFFF1000000000, he_next = 0\<rparr>)\<rparr>"

lemma trimming_heap_facts:
  assumes "off = 0x1000 \<or> off = 0xFF0"
  shows "heap_is (trimming_heap off) ([(0xFFFFFF1000000000, off - 0x20, True)] @ (0xFFFFFF1000000000 + off, 0x2FE0 - off, True) # [])"
    "\<not> held i (trimming_heap off)" "kernel_heap_end (trimming_heap off) = 0xFFFFFF1000003000"
    "ALIGN_UP (he_memory (0xFFFFFF1000000000 + off) + MAX_ALIGN) 0x1000 = 0xFFFFFF1000002000"
    "ALIGN_UP (0xFFFFFF1000000000 + off) 0x1000 = 0xFFFFFF1000001000"
    "free_blocks [(0xFFFFFF1000000000, off - 0x20, True)] (0xFFFFFF1000000000 + off) (0x2FE0 - off) [] =
      [(0xFFFFFF1000000000, off - 0x20, True)] @ [(0xFFFFFF1000000000 + off, 0x2FE0 - off, False)]"
  using assms
  by (auto simp: heap_is_def trimming_heap_def growing_heap_def demo_paging_def he_memory_def HDR_def MAX_ALIGN_def
      ALIGN_UP_def ALIGN_DOWN_def free_blocks_def)

lemma trimming_heap_returns:
  assumes off: "off = 0x1000 \<or> off = 0xFF0"
  shows "\<exists>s'. kfree (he_memory (0xFFFFFF1000000000 + off)) (trimming_heap off) = Inr s'"
proof -
  note f = trimming_heap_facts [OF off]
  let ?b = "0xFFFFFF1000000000 + off" and ?s = "trimming_heap off"
  obtain t where t: "heap_is t ([(0xFFFFFF1000000000, off - 0x20, True)] @ [(?b, 0x2FE0 - off, False)])"
    "kernel_heap_end t = kernel_heap_end ?s" "kfree (he_memory ?b) ?s = bindR (kfree_shrink ?b t) (kunlock Heap_Mutex)"
    "mutexes t = (mutexes ?s)(Heap_Mutex := (mutexes ?s Heap_Mutex)\<lparr>locked := True\<rparr>)" "pt t = pt ?s" "cr3 t = cr3 ?s"
    "phys_mmap t = phys_mmap ?s"
    using kfree_reaches_shrink [OF f(1) f(2) f(6) order.refl] by metis
  define u where "u = trim_entries ?b (ALIGN_UP ?b 0x1000) t"
  have nh: "held i u \<longleftrightarrow> i = Heap_Mutex" for i using t(4) f(2) by (simp add: u_def trim_entries_fields)
  have pu: "tables 0x1000 0x2000 0x3000 0x4000 0xFFFFFF1000001000 (pt u)" "pml4_of u = 0x1000"
    "phys_mmap u = \<lparr>memory_ranges = [\<lparr>base_addr = 0x9000, pages = 16\<rparr>], range_count = 1, max_range_count = 1\<rparr>"
    using growing_heap_tables(2) t(5, 6, 7)
    by (simp_all add: u_def trim_entries_fields pml4_of_def trimming_heap_def growing_heap_def)
      (simp add: demo_paging_def frame_mask_def)
  have "pt u (entry_of 0 0x4000 0xFFFFFF1000001000) = 0x7001"
    using t(5) by (simp add: u_def trim_entries_fields trimming_heap_def growing_heap_def demo_entries)
  then have pa: "PHYS_ADDR_OF 0xFFFFFF1000001000 u = Inr 0x7000"
    by (simp add: PHYS_ADDR_OF_def entry_accesses(4) [OF pu(1, 2)])
  obtain m where am: "mmap_add_range_merge (phys_mmap u) 0x7000 2 = (True, m)"
    by (simp add: pu(3) mmap_add_range_merge_def merge_from.simps)
  have "free_phys_pages 0x7000 2 u = Inr (True, u\<lparr>phys_mmap := m\<rparr>)"
    using unlocked_again [of u Phys_Mmap_Mutex] by (simp add: free_phys_pages_def klock_eq nh am)
  moreover have "kernel_heap_end u = 0xFFFFFF1000003000" by (simp add: u_def trim_entries_fields t(2) f(3))
  ultimately have "\<exists>w. kfree_shrink ?b t = Inr w"
    using trim_due [OF t(1)] t(2) f(3, 4, 5) pa
    by (simp add: kfree_shrink_def Let_def unmap_from.simps u_def)
  then show ?thesis using t(3) by (auto simp: kunlock_eq)
qed

theorem kfree_trims_witness:
  "\<exists>s'. kfree 0xFFFFFF1000001020 (trimming_heap 0x1000) = Inr s' \<and>
     heap_is s' [(0xFFFFFF1000000000, 0xFE0, True)] \<and> kernel_heap_end s' = 0xFFFFFF1000001000"
proof -
  obtain s' where r: "kfree (he_memory (0xFFFFFF1000000000 + 0x1000)) (trimming_heap 0x1000) = Inr s'"
    using trimming_heap_returns by blast
  note f = trimming_heap_facts [of "0x1000", simplified]
  from kfree_trims [OF trimming_heap_facts(1, 2, 6) order.refl _ _ _ r] f r show ?thesis
    by (auto simp: he_memory_def HDR_def)
qed

theorem kfree_trim_underflows_witness:
  "\<exists>s'. kfree 0xFFFFFF1000001010 (trimming_heap 0xFF0) = Inr s' \<and>
     he_size (headers s' 0xFFFFFF1000000FF0) = 0xFFFFFFFFFFFFFFF0"
proof -
  obtain s' where r: "kfree (he_memory (0xFFFFFF1000000000 + 0xFF0)) (trimming_heap 0xFF0) = Inr s'"
    using trimming_heap_returns by blast
  from kfree_trim_underflows [OF trimming_heap_facts(1, 2, 6) order.refl _ _ _ r]
    trimming_heap_facts [of "0xFF0"] r show ?thesis
    by (auto simp: he_memory_def HDR_def)
qed

end
