(* ===== verification/Krealloc.thy ===== *)
theory Krealloc
  imports Heap_Blocks
begin

text \<open>
  \<open>krealloc\<close> of \<^verbatim>\<open>src/kernel/memory.c\<close> against the list of blocks: the branches that keep
  it (cutting a block whose successor is in use, moving a block) and the two that do not
  (moving a free successor down, joining free successors). The C library's allocation functions
  are these of the heap.
\<close>

section \<open>The C library's names\<close>

text \<open>\<open>malloc\<close>, \<open>realloc\<close> and \<open>free\<close> of \<^verbatim>\<open>src/libc/stdlib.c\<close> in the kernel's own C library.\<close>

definition c_malloc :: "u64 \<Rightarrow> kmem \<Rightarrow> (addr \<times> kmem) res" where
  "c_malloc sz = kmalloc sz"

definition c_realloc :: "addr \<Rightarrow> u64 \<Rightarrow> kmem \<Rightarrow> (addr \<times> kmem) res" where
  "c_realloc ptr sz = krealloc ptr sz"

definition c_free :: "addr \<Rightarrow> kmem \<Rightarrow> kmem res" where
  "c_free ptr = kfree ptr"

section \<open>Cutting a block\<close>

definition cut_block :: "u64 \<Rightarrow> addr \<Rightarrow> u64 \<Rightarrow> block list" where
  "cut_block n a z =
     (if 64 \<le> z - n then [(a, n, True), (a + 32 + n, z - (n + 32), False)] else [(a, z, True)])"

lemma next_in_use:
  assumes "heap_is s (xs @ (a, z, u) # ys)" "ys \<noteq> []" "snd (snd (hd ys))"
  shows "he_used (headers s (hd_or ys 0))"
  using assms heap_is_mid(5) [OF assms(1)] by (cases ys) auto

lemma krealloc_shrink_blocks:
  assumes h: "heap_is s (xs @ (a, z, True) # ys)" and n: "n < z" and used: "ys \<noteq> [] \<longrightarrow> snd (snd (hd ys))"
  shows "heap_is (krealloc_shrink a n s) (xs @ cut_block n a z @ ys)"
proof -
  note m = heap_is_mid [OF h]
  have "hd_or ys 0 = 0 \<or> he_used (headers s (hd_or ys 0))"
    using used next_in_use [OF h] by (cases ys) auto
  then have eq: "krealloc_shrink a n s = (if 64 \<le> z - n then split_entry a n s else s)"
    using m(2) by (auto simp: krealloc_shrink_def Let_def HDR_def MAX_ALIGN_def)
  show ?thesis
  proof (cases "64 \<le> z - n")
    case True
    then have "unat n + 32 \<le> unat z" using unat_sub_no_wrap [OF less_imp_le [OF n]] by (simp add: word_le_nat_alt)
    from split_entry_blocks [OF h this] True show ?thesis by (simp add: eq cut_block_def)
  qed (simp add: eq cut_block_def h)
qed

lemma entries_only_shrink: "entries_only s (krealloc_shrink a n s)"
  unfolding krealloc_shrink_def pull_next_def Let_def
  by (simp, meson entries_only_refl entries_only_trans entries_only_upd entries_only_link entries_only_split)

text \<open>Making a block smaller in place: when no free block follows, \<open>krealloc\<close> returns the
  same address, the block shrinks to the rounded size and the rest becomes a free block when it
  has room for an entry and a unit; nothing but entries changes.\<close>

theorem krealloc_cuts_in_place:
  assumes h: "heap_is s (xs @ (a, z, True) # ys)" and nh: "\<not> held Heap_Mutex s"
    and n: "ALIGN_UP sz 16 < z" and used: "ys \<noteq> [] \<longrightarrow> snd (snd (hd ys))"
  shows "\<exists>s'. krealloc (he_memory a) sz s = Inr (he_memory a, s') \<and>
    heap_is s' (xs @ cut_block (ALIGN_UP sz 16) a z @ ys) \<and> entries_only s s'"
proof -
  define t where "t = s\<lparr>mutexes := (mutexes s)(Heap_Mutex := (mutexes s Heap_Mutex)\<lparr>locked := True\<rparr>)\<rparr>"
  have ht: "heap_is t (xs @ (a, z, True) # ys)" using h by (simp add: t_def)
  have "krealloc (he_memory a) sz s =
      bindR (kunlock Heap_Mutex (krealloc_shrink a (ALIGN_UP sz 16) t)) (\<lambda>s. Inr (he_memory a, s))"
    using nh n heap_is_mid(2) [OF ht] by (simp add: krealloc_def klock_eq Let_def he_memory_def flip: t_def)
  with entries_only_locked [OF nh, of "krealloc_shrink a (ALIGN_UP sz 16) t"]
    entries_only_shrink [of t] krealloc_shrink_blocks [OF ht n used]
  show ?thesis by (auto simp flip: t_def)
qed

section \<open>The branches that break the heap\<close>

lemma check_forward_prefix:
  "seg h p xs a (unat a) \<Longrightarrow> a \<noteq> 0 \<Longrightarrow> check_forward h (hd_or xs a) = check_forward h a"
proof (induction xs arbitrary: p)
  case (Cons b bs)
  obtain c z u where b: "b = (c, z, u)" by (cases b)
  from Cons.prems have s: "h c = \<lparr>he_size = z, he_used = u, he_last = p, he_next = hd_or bs a\<rparr>"
    "unat c + 32 + unat z = start_of bs (unat a)" "seg h c bs a (unat a)" by (simp_all add: b)
  have "start_of bs (unat a) = unat (hd_or bs a)" by (cases bs) simp_all
  then have "he_memory c + z = hd_or bs a" using s(2) by (intro next_address) simp
  moreover have "hd_or bs a \<noteq> 0" using s(3) Cons.prems(2) by (cases bs) auto
  ultimately have "check_forward h c = check_forward h (hd_or bs a)"
    by (subst check_forward.simps) (simp add: s(1))
  then show ?case using Cons.IH [OF s(3) Cons.prems(2)] by (simp add: b)
qed simp

lemma check_fails_at:
  assumes "seg (headers s) 0 xs a (unat a)" "a \<noteq> 0" "first_heap_entry s = hd_or xs a"
    and "he_next (headers s a) \<noteq> 0" "he_next (headers s a) \<noteq> he_memory a + he_size (headers s a)"
  shows "heap_consistency_check s = Inr False"
proof -
  have "check_forward (headers s) a = Some None" using assms(4, 5) by (subst check_forward.simps) simp
  with check_forward_prefix [OF assms(1, 2)] assms(3)
  have "check_forward (headers s) (first_heap_entry s) = Some None" by simp
  then show ?thesis by (simp add: heap_consistency_check_def Let_def)
qed

lemma check_fails_end:
  assumes "kernel_heap_end s \<noteq> he_memory (last_heap_entry s) + he_size (headers s (last_heap_entry s))"
  shows "heap_consistency_check s = Inr False"
  using assms by (simp add: heap_consistency_check_def Let_def)

lemma check_ignores_mutexes:
  "heap_consistency_check (s\<lparr>mutexes := m\<rparr>) = heap_consistency_check s"
  by (simp add: heap_consistency_check_def Let_def split: option.split)

text \<open>The part of the state both theorems start from: the entry and a free successor.\<close>

lemma free_next_facts:
  assumes h: "heap_is s (xs @ (a, z, True) # (b, y, False) # ys)"
  shows "headers s a = \<lparr>he_size = z, he_used = True, he_last = last_or xs 0, he_next = b\<rparr>"
    "headers s b = \<lparr>he_size = y, he_used = False, he_last = a, he_next = hd_or ys 0\<rparr>"
    "b = he_memory a + z" "a \<noteq> 0" "b \<noteq> 0" "a \<noteq> b" "hd_or ys 0 \<noteq> a"
    "first_heap_entry s = hd_or xs a" "seg (headers s) 0 xs a (unat a)"
    "seg (headers s) b ys 0 (unat (kernel_heap_end s))"
    "unat b = unat a + 32 + unat z"
    "unat b + 32 + unat y = start_of ys (unat (kernel_heap_end s))"
    "unat b + 32 + unat y < 2 ^ 64"
proof -
  note m = heap_is_mid [OF h] and d = heap_isD [OF h]
  have "heap_is s ((xs @ [(a, z, True)]) @ (b, y, False) # ys)" using h by simp
  note m2 = heap_is_mid [OF this]
  show "headers s a = \<lparr>he_size = z, he_used = True, he_last = last_or xs 0, he_next = b\<rparr>"
    "headers s b = \<lparr>he_size = y, he_used = False, he_last = a, he_next = hd_or ys 0\<rparr>"
    "a \<noteq> 0" "b \<noteq> 0" "first_heap_entry s = hd_or xs a" "seg (headers s) 0 xs a (unat a)"
    "seg (headers s) b ys 0 (unat (kernel_heap_end s))" "unat b = unat a + 32 + unat z"
    "unat b + 32 + unat y = start_of ys (unat (kernel_heap_end s))"
    using m m2 d by simp_all
  show "b = he_memory a + z" using m(3) by (intro next_address [symmetric]) simp
  show "a \<noteq> b" using m(3) by auto
  show "hd_or ys 0 \<noteq> a" using m(1, 3) m2(3) by (cases ys) auto
  show "unat b + 32 + unat y < 2 ^ 64"
    using m2(6) unat_u64_less [of "kernel_heap_end s"] by (simp del: unat_u64_less)
qed

text \<open>Making a block smaller in front of a free block breaks the heap: the free block's entry
  moves down to the end of the request, but the block keeps its old size, so it overlaps the
  entry behind it and \<open>heap_consistency_check\<close> answers \<open>false\<close>.\<close>

theorem krealloc_shrink_keeps_old_size:
  assumes h: "heap_is s (xs @ (a, z, True) # (b, y, False) # ys)" and nh: "\<not> held Heap_Mutex s"
    and n: "ALIGN_UP sz 16 < z"
  shows "\<exists>s'. krealloc (he_memory a) sz s = Inr (he_memory a, s') \<and>
    he_size (headers s' a) = z \<and> he_next (headers s' a) = he_memory a + ALIGN_UP sz 16 \<and>
    heap_consistency_check s' = Inr False"
proof -
  define n' where "n' = ALIGN_UP sz 16"
  define t where "t = s\<lparr>mutexes := (mutexes s)(Heap_Mutex := (mutexes s Heap_Mutex)\<lparr>locked := True\<rparr>)\<rparr>"
  have ht: "heap_is t (xs @ (a, z, True) # (b, y, False) # ys)" using h by (simp add: t_def)
  note f = free_next_facts [OF ht]
  define c where "c = he_memory a + n'"
  have less: "unat n' < unat z" using n by (simp add: n'_def word_less_nat_alt)
  have c: "unat c = unat a + 32 + unat n'"
    using f(11, 13) less unfolding c_def he_memory_def HDR_def by (simp add: unat_add_no_wrap)
  then have ne: "c \<noteq> a" "c \<noteq> 0" "c \<noteq> b" using less f(11) by auto
  have ys: "hd_or ys 0 \<noteq> c" using ne(2) less c f(11, 12) by (cases ys) auto
  define r where "r = pull_next a n' b t"
  have r_hdr: "headers r a = \<lparr>he_size = z, he_used = True, he_last = last_or xs 0, he_next = c\<rparr>"
    and r_low: "\<And>x. unat x < unat a \<Longrightarrow> headers r x = headers t x"
    and r_first: "first_heap_entry r = first_heap_entry t"
    using ne ys f(1, 2, 7, 11, 12) c less
    by (auto simp: r_def pull_next_def Let_def link_back_def upd_header_def c_def [symmetric] hd_or_def split: list.split)
  have "krealloc_shrink a n' t = r" using f(1, 2, 5) by (simp add: krealloc_shrink_def r_def)
  then have "krealloc (he_memory a) sz s = bindR (kunlock Heap_Mutex r) (\<lambda>s. Inr (he_memory a, s))"
    using nh n f(1) by (simp add: krealloc_def klock_eq Let_def he_memory_def n'_def flip: t_def)
  moreover have "heap_consistency_check r = Inr False"
  proof (rule check_fails_at)
    show "seg (headers r) 0 xs a (unat a)" using f(9) r_low by (rule seg_cong_below)
    show "he_next (headers r a) \<noteq> he_memory a + he_size (headers r a)"
      using ne(3) f(3) by (simp add: r_hdr)
  qed (use f(4, 8) ne r_hdr r_first in simp_all)
  ultimately show ?thesis
    by (simp add: kunlock_eq check_ignores_mutexes r_hdr c_def n'_def)
qed

text \<open>The joined entry as \<open>krealloc_extend\<close> leaves it, the rest cut off when it is large.\<close>

lemma krealloc_extend_breaks:
  assumes h: "heap_is t (xs @ (a, z, True) # (b, y, False) # ys)"
    and n: "n \<le> y + 32" and z: "z \<noteq> 0"
  shows "heap_consistency_check (krealloc_extend a n (y + 32) b t) = Inr False"
proof -
  note f = free_next_facts [OF h]
  define r where "r = krealloc_extend a n (y + 32) b t"
  define c where "c = he_memory a + n"
  have y: "unat (y + 32) = unat y + 32" using f(13) by (simp add: unat_add_no_wrap)
  have "unat n \<le> unat y + 32" using n y by (simp add: word_le_nat_alt)
  moreover have "unat z > 0" using z by (simp add: unat_gt_0)
  ultimately have c: "unat c = unat a + 32 + unat n" "unat c < unat b + 32 + unat y"
    using f(11, 13) unfolding c_def he_memory_def HDR_def by (simp_all add: unat_add_no_wrap)
  then have ne: "c \<noteq> a" "c \<noteq> 0" by auto
  have ys: "hd_or ys 0 \<noteq> c" using ne(2) c f(12) by (cases ys) auto
  have over: "kernel_heap_end t = b + 32 + y \<or> ys \<noteq> []" "ys \<noteq> [] \<Longrightarrow> hd_or ys 0 = b + 32 + y \<and> hd_or ys 0 \<noteq> 0"
    using f(10, 12) next_address [of b y "kernel_heap_end t"] next_address [of b y "hd_or ys 0"] hd_or_0 [OF f(10)]
    by (cases ys; auto simp: he_memory_def HDR_def)+
  then have nz: "ys \<noteq> [] \<Longrightarrow> b + 32 + y \<noteq> 0" by metis
  have ends: "b + 32 + y \<noteq> he_memory a + (y + 32)" "b + 32 + y \<noteq> he_memory c + (y + 32 - (n + 32))"
    using z by (simp_all add: f(3) c_def he_memory_def HDR_def algebra_simps)
  have hi: "hd_or ys 0 = 0 \<or> unat a < unat (hd_or ys 0)" using f(11, 12) by (cases ys) auto
  have r_low: "headers r x = headers t x" if "unat x < unat a" for x
    using that ne c hi f(1, 2) unfolding r_def krealloc_extend_def Let_def
    by (auto simp: link_back_def upd_header_def c_def [symmetric] hd_or_def split: list.split)
  have r_same: "first_heap_entry r = first_heap_entry t" "kernel_heap_end r = kernel_heap_end t"
    unfolding r_def krealloc_extend_def Let_def by (simp_all add: link_back_def upd_header_def)
  show ?thesis
  proof (cases "n + 64 < y + 32")
    case False
    then have ra: "headers r a = \<lparr>he_size = y + 32, he_used = True, he_last = last_or xs 0, he_next = hd_or ys 0\<rparr>"
      and rl: "ys = [] \<Longrightarrow> last_heap_entry r = a"
      using f(1, 2, 7) unfolding r_def krealloc_extend_def Let_def
      by (auto simp: link_back_def upd_header_def HDR_def MAX_ALIGN_def add.assoc)
    show ?thesis unfolding r_def [symmetric]
    proof (cases "ys = []")
      case True
      with over(1) ends(1) show "heap_consistency_check r = Inr False"
        by (intro check_fails_end) (simp add: rl ra r_same)
    next
      case False
      with over(2) nz ends(1) r_same f(4, 8) seg_cong_below [OF f(9) r_low]
      show "heap_consistency_check r = Inr False"
        by (intro check_fails_at [of r xs a]) (simp_all add: ra)
    qed
  next
    case True
    then have ra: "headers r a = \<lparr>he_size = n, he_used = True, he_last = last_or xs 0, he_next = c\<rparr>"
      and rc: "headers r c = \<lparr>he_size = y + 32 - (n + 32), he_used = False, he_last = a, he_next = hd_or ys 0\<rparr>"
      and rl: "ys = [] \<Longrightarrow> last_heap_entry r = c"
      using f(1, 2, 7) ne ys unfolding r_def krealloc_extend_def Let_def
      by (auto simp: link_back_def upd_header_def HDR_def MAX_ALIGN_def add.assoc c_def [symmetric])
    show ?thesis unfolding r_def [symmetric]
    proof (cases "ys = []")
      case True
      with over(1) ends(2) show "heap_consistency_check r = Inr False"
        by (intro check_fails_end) (simp add: rl rc r_same)
    next
      case False
      have "seg (headers r) 0 (xs @ [(a, n, True)]) c (unat c)"
        using seg_cong_below [OF f(9) r_low] f(4) c(1) by (simp add: seg_append ra)
      with False over(2) nz ends(2) r_same f(8) ne(2) show "heap_consistency_check r = Inr False"
        by (intro check_fails_at [of r "xs @ [(a, n, True)]" c]) (simp_all add: rc)
    qed
  qed
qed

text \<open>Making a block larger over a free successor breaks the heap too: the joined size counts the
  successor and its entry but not the block itself (\<open>tot_size\<close> is assigned where it should
  grow), the \<open>z\<close> bytes of the block are lost from the heap and \<open>heap_consistency_check\<close>
  answers \<open>false\<close>.\<close>

theorem krealloc_extend_loses_bytes:
  assumes h: "heap_is s (xs @ (a, z, True) # (b, y, False) # ys)" and nh: "\<not> held Heap_Mutex s"
    and n: "z < ALIGN_UP sz 16" "unat (ALIGN_UP sz 16) \<le> unat y + 32" and z: "z \<noteq> 0"
  shows "\<exists>s'. krealloc (he_memory a) sz s = Inr (he_memory a, s') \<and> heap_consistency_check s' = Inr False"
proof -
  define n' where "n' = ALIGN_UP sz 16"
  define t where "t = s\<lparr>mutexes := (mutexes s)(Heap_Mutex := (mutexes s Heap_Mutex)\<lparr>locked := True\<rparr>)\<rparr>"
  have ht: "heap_is t (xs @ (a, z, True) # (b, y, False) # ys)" using h by (simp add: t_def)
  note f = free_next_facts [OF ht]
  define tot where "tot = y + 32"
  have tot: "unat tot = unat y + 32" using f(13) unfolding tot_def by (simp add: unat_add_no_wrap)
  have n2: "z < n'" "n' \<le> tot" using n tot by (simp_all add: n'_def word_le_nat_alt)
  have scan: "krealloc_scan (headers t) n' z a = Some (tot, b)"
    using n2 f(1, 2, 5) leD [OF n2(2)]
    by (subst krealloc_scan.simps) (simp add: Let_def HDR_def, subst krealloc_scan.simps, simp add: tot_def)
  define r where "r = krealloc_extend a n' tot b t"
  have "krealloc (he_memory a) sz s = bindR (kunlock Heap_Mutex r) (\<lambda>s. Inr (he_memory a, s))"
    using nh n2 f(1) scan less_imp_neq [OF n2(1)] less_not_sym [OF n2(1)]
    by (simp add: krealloc_def klock_eq Let_def he_memory_def r_def flip: t_def n'_def)
  moreover have "heap_consistency_check r = Inr False"
    unfolding r_def tot_def by (rule krealloc_extend_breaks [OF ht]) (use n2 z tot_def in simp_all)
  ultimately show ?thesis by (simp add: kunlock_eq check_ignores_mutexes)
qed

section \<open>Moving a block\<close>

lemma he_memory_minus: "he_memory a - HDR = a"
  by (simp add: he_memory_def)

lemma ALIGN_UP_16_idem:
  assumes "unat sz \<le> 2 ^ 64 - 16"
  shows "ALIGN_UP (ALIGN_UP sz 16) 16 = ALIGN_UP sz 16"
proof -
  define n where "n = ALIGN_UP sz 16"
  obtain k where k: "unat n = 16 * k" using ALIGN_UP_16(3) [OF assms] by (auto simp: n_def)
  have "unat n \<le> 2 ^ 64 - 16" using k unat_u64_less [of n] by (simp del: unat_u64_less)
  note u = ALIGN_UP_16 [OF this]
  obtain l where "unat (ALIGN_UP n 16) = 16 * l" using u(3) by auto
  with u(1, 2) k have "unat (ALIGN_UP n 16) = unat n" by simp
  then show ?thesis by (simp add: u64_eq_iff_unat n_def)
qed

lemma krealloc_scan_blocked:
  assumes h: "heap_is s (xs @ (a, z, True) # ys)" and "z < n" and used: "ys \<noteq> [] \<longrightarrow> snd (snd (hd ys))"
  shows "krealloc_scan (headers s) n z a = Some (z, hd_or ys 0)"
proof -
  have "hd_or ys 0 = 0 \<or> he_used (headers s (hd_or ys 0))"
    using used next_in_use [OF h] by (cases ys) auto
  with assms(2) heap_is_mid(2) [OF h] show ?thesis
    by (subst krealloc_scan.simps) (auto simp: Let_def)
qed

lemma heap_is_bytes [simp]: "heap_is (s\<lparr>bytes := m\<rparr>) bs = heap_is s bs"
  by (simp add: heap_is_def)

text \<open>A block in use and the block just allocated are disjoint.\<close>

lemma alloc_blocks_disjoint:
  assumes h: "heap_is s bs" and al: "alloc_blocks n bs = Some (r, bs')" and "z \<le> n"
    and a: "(a, z, True) \<in> set bs"
  shows "disjoint_blocks r (he_memory a) (unat z)" "r \<noteq> 0" "(a, z, True) \<in> set bs'"
proof -
  from al obtain xs c y ys where d: "bs = xs @ (c, y, False) # ys" "n \<le> y" "r = he_memory c"
    "bs' = xs @ carve n c y @ ys" by (rule alloc_blocks_SomeE)
  note o = seg_ordered [OF heap_isD(6) [OF h, unfolded d(1)]] and m = heap_is_mid [OF h [unfolded d(1)]]
  from split_list [OF a] obtain us vs where "bs = us @ (a, z, True) # vs" by blast
  with h have ma: "heap_is s (us @ (a, z, True) # vs)" by simp
  note ma = heap_is_mid [OF this]
  have a2: "(a, z, True) \<in> set xs \<or> (a, z, True) \<in> set ys" using a by (auto simp: d(1))
  then show "(a, z, True) \<in> set bs'" by (auto simp: d(4))
  have zy: "unat z \<le> unat y" using assms(3) d(2) by (simp add: word_le_nat_alt)
  have e: "unat (kernel_heap_end s) < 2 ^ 64" using unat_u64_less [of "kernel_heap_end s"] by (simp del: unat_u64_less)
  have u: "unat r = unat c + 32" "unat (he_memory a) = unat a + 32"
    using m(6) ma(6) e unfolding d(3) he_memory_def HDR_def by (simp_all add: unat_add_no_wrap del: unat_u64_less)
  show "r \<noteq> 0" using u(1) by auto
  have "unat a + 32 + unat z \<le> unat c \<or> unat c + 32 + unat y \<le> unat a" using a2 o by blast
  then show "disjoint_blocks r (he_memory a) (unat z)"
    using u m(6) ma(6) e zy by (intro disjoint_blocksI) (auto simp del: unat_u64_less)
qed

text \<open>C29. Making a block larger where the block behind it is in use moves it: \<open>krealloc\<close> returns the
  first free block that holds the request, its first bytes are the old contents, and the old
  block has been freed, joined with free neighbours.\<close>

theorem krealloc_moves_contents:
  assumes h: "heap_is s (xs @ (a, z, True) # ys)" and nh: "\<not> held Heap_Mutex s"
    and sz: "unat sz \<le> 2 ^ 64 - 16" "z < ALIGN_UP sz 16" and used: "ys \<noteq> [] \<longrightarrow> snd (snd (hd ys))"
    and al: "alloc_blocks (ALIGN_UP sz 16) (xs @ (a, z, True) # ys) = Some (r, us @ (a, z, True) # vs)"
    and st: "stays s (free_blocks us a z vs)"
  shows "\<exists>s'. krealloc (he_memory a) sz s = Inr (r, s') \<and> heap_is s' (free_blocks us a z vs) \<and>
    bytes_at (bytes s') r (unat z) = bytes_at (bytes s) (he_memory a) (unat z)"
proof -
  define n where "n = ALIGN_UP sz 16"
  note dis = alloc_blocks_disjoint [OF h al less_imp_le [OF sz(2)], of a]
  define t where "t = s\<lparr>mutexes := (mutexes s)(Heap_Mutex := (mutexes s Heap_Mutex)\<lparr>locked := True\<rparr>)\<rparr>"
  have ht: "heap_is t (xs @ (a, z, True) # ys)" using h by (simp add: t_def)
  have "n \<noteq> z" "\<not> n < z" "\<not> n \<le> z" using sz(2) by (auto simp: n_def)
  then have "krealloc (he_memory a) sz s = bindR (kunlock Heap_Mutex t) (\<lambda>s.
      bindR (kmalloc n s) (\<lambda>(ret, s). if ret \<noteq> 0
        then bindR (kfree (he_memory a) (s\<lparr>bytes := snd (memcpy (bytes s) ret (he_memory a) (he_size (headers s a)))\<rparr>))
          (\<lambda>s. Inr (ret, s)) else Inr (0, s)))"
    using nh heap_is_mid(2) [OF ht] krealloc_scan_blocked [OF ht _ used, of n] sz(2)
    by (simp add: krealloc_def klock_eq Let_def he_memory_minus flip: t_def n_def)
  moreover have "kunlock Heap_Mutex t = Inr s"
    using relock_state [OF nh] by (simp add: t_def kunlock_eq)
  moreover obtain s1 where s1: "kmalloc n s = Inr (r, s1)" "heap_is s1 (us @ (a, z, True) # vs)" "entries_only s s1"
    using kmalloc_refines [OF h nh, of n] al ALIGN_UP_16_idem [OF sz(1)] by (auto simp: n_def)
  moreover have b1: "bytes s1 = bytes s" by (subst s1(3) [unfolded entries_only_def]) simp
  moreover define s2 where "s2 = s1\<lparr>bytes := snd (memcpy (bytes s) r (he_memory a) z)\<rparr>"
  ultimately have eq: "krealloc (he_memory a) sz s = bindR (kfree (he_memory a) s2) (\<lambda>s. Inr (r, s))"
    using heap_is_mid(2) [OF s1(2)] dis(2) by simp
  have "heap_is s2 (us @ (a, z, True) # vs)" "\<not> held Heap_Mutex s2" "stays s2 (free_blocks us a z vs)"
    using s1(2) nh st entries_only_fields [OF s1(3)] by (simp_all add: s2_def stays_def)
  from kfree_refines [OF this] obtain s3
    where s3: "kfree (he_memory a) s2 = Inr s3" "heap_is s3 (free_blocks us a z vs)" "entries_only s2 s3" by blast
  have "bytes s3 = bytes s2" by (subst s3(3) [unfolded entries_only_def]) simp
  also have "\<dots> = copied (bytes s) r (he_memory a) 0 (unat z)"
    using copy_down_correct [OF disjoint_down_safe [OF dis(1)]] by (simp add: s2_def memcpy_def Let_def)
  finally have "bytes_at (bytes s3) r (unat z) = bytes_at (bytes s) (he_memory a) (unat z)"
    using unat_u64_less [of z] by (simp add: bytes_at_copied del: unat_u64_less)
  with eq s3 show ?thesis by simp
qed

section \<open>Concrete heaps\<close>

text \<open>As \<open>small_heap\<close>, with a second block of 0x80 bytes in use before the free one.\<close>

definition two_block_heap :: kmem where
  "two_block_heap = small_heap\<lparr>last_heap_entry := 0x100100, headers := (headers small_heap)
     (0x100060 := \<lparr>he_size = 0x80, he_used = True, he_last = 0x100000, he_next = 0x100100\<rparr>,
      0x100100 := \<lparr>he_size = 0xEE0, he_used = False, he_last = 0x100060, he_next = 0\<rparr>)\<rparr>"

lemma two_block_heap_blocks:
  "heap_is two_block_heap [(0x100000, 0x40, True), (0x100060, 0x80, True), (0x100100, 0xEE0, False)]"
  by (simp add: heap_is_def two_block_heap_def small_heap_def)

lemma two_block_heap_free: "\<not> held Heap_Mutex two_block_heap"
  by (simp add: two_block_heap_def small_heap_def)

theorem krealloc_cuts_in_place_witness:
  "\<exists>s'. krealloc 0x100020 0 two_block_heap = Inr (0x100020, s') \<and>
     heap_is s' [(0x100000, 0, True), (0x100020, 0x20, False), (0x100060, 0x80, True), (0x100100, 0xEE0, False)]"
  using krealloc_cuts_in_place [of two_block_heap "[]" "0x100000" "0x40"
      "[(0x100060, 0x80, True), (0x100100, 0xEE0, False)]" 0]
    two_block_heap_blocks two_block_heap_free
  by (auto simp: he_memory_def HDR_def cut_block_def)

theorem krealloc_shrink_keeps_old_size_witness:
  "\<exists>s'. krealloc 0x100020 0x10 small_heap = Inr (0x100020, s') \<and> heap_consistency_check s' = Inr False"
  using krealloc_shrink_keeps_old_size [of small_heap "[]" "0x100000" "0x40" "0x100060" "0xF80" "[]" "0x10"]
    small_heap_blocks small_heap_free
  by (auto simp: he_memory_def HDR_def ALIGN_UP_def ALIGN_DOWN_def)

theorem krealloc_extend_loses_bytes_witness:
  "\<exists>s'. krealloc 0x100020 0x100 small_heap = Inr (0x100020, s') \<and> heap_consistency_check s' = Inr False"
  using krealloc_extend_loses_bytes [of small_heap "[]" "0x100000" "0x40" "0x100060" "0xF80" "[]" "0x100"]
    small_heap_blocks small_heap_free
  by (auto simp: he_memory_def HDR_def ALIGN_UP_def ALIGN_DOWN_def)

theorem krealloc_moves_contents_witness:
  "\<exists>s'. krealloc 0x100020 0x100 two_block_heap = Inr (0x100120, s') \<and>
     bytes_at (bytes s') 0x100120 0x40 = bytes_at (bytes two_block_heap) 0x100020 0x40"
  using krealloc_moves_contents [of two_block_heap "[]" "0x100000" "0x40"
      "[(0x100060, 0x80, True), (0x100100, 0xEE0, False)]" "0x100" "0x100120" "[]"
      "[(0x100060, 0x80, True), (0x100100, 0x100, True), (0x100220, 0xDC0, False)]"]
    two_block_heap_blocks two_block_heap_free
  by (auto simp: he_memory_def HDR_def MAX_ALIGN_def ALIGN_UP_def ALIGN_DOWN_def fits_def carve_def free_blocks_def
      stays_def two_block_heap_def small_heap_def)

end
