(* ===== verification/Virt_Memory.thy ===== *)
theory Virt_Memory
  imports Heap_Pages Krealloc
begin

text \<open>
  The rest of \<^verbatim>\<open>src/kernel/memory.c\<close>: the map of free virtual addresses, whose array lives in
  a heap block, the mappings the kernel's drivers ask for, and start-up. The map is the record
  of theory \<open>Mmap\<close> beside the address of its array (\<open>virt_ranges\<close>); what \<open>krealloc\<close> does
  to the array is \<open>resize_ranges\<close>: the ranges that fit stay, cells gained are empty.
\<close>

section \<open>Free virtual addresses\<close>

definition resize_ranges :: "nat \<Rightarrow> memory_map \<Rightarrow> memory_map" where
  "resize_ranges n m = m\<lparr>memory_ranges := take n (memory_ranges m @ replicate n empty_cell), max_range_count := n\<rparr>"

definition virt_mmap_reduce :: "kmem \<Rightarrow> kmem res" where
  "virt_mmap_reduce s =
     (let n = max_range_count (virt_mmap s) div 2
      in if range_count (virt_mmap s) * 2 < max_range_count (virt_mmap s)
         then bindR (krealloc (virt_ranges s) (of_nat n * 16) s) (\<lambda>(new_ranges, s).
              if new_ranges \<noteq> 0
              then Inr (s\<lparr>virt_ranges := new_ranges, virt_mmap := resize_ranges n (virt_mmap s)\<rparr>)
              else Inr s)
         else Inr s)"

definition alloc_virt_pages :: "u64 \<Rightarrow> kmem \<Rightarrow> (addr \<times> kmem) res" where
  "alloc_virt_pages npages s =
     bindR (klock Virt_Mmap_Mutex s) (\<lambda>s.
     case mmap_get_pages (virt_mmap s) npages of (base, mmap) \<Rightarrow>
     let s = s\<lparr>virt_mmap := mmap\<rparr>
     in if base \<noteq> 0
        then bindR (virt_mmap_reduce s) (\<lambda>s.
             bindR (kunlock Virt_Mmap_Mutex s) (\<lambda>s. Inr (base, s)))
        else bindR (kunlock Virt_Mmap_Mutex s) (\<lambda>s. Inr (0, s)))"

text \<open>
  One round of \<open>free_virt_pages\<close>: \<open>Some\<close> result, or \<open>None\<close> when the array has been enlarged and
  the function calls itself. The recursion has no bound, so the whole is an option too.
\<close>

definition free_virt_once :: "addr \<Rightarrow> u64 \<Rightarrow> kmem \<Rightarrow> (bool option \<times> kmem) res" where
  "free_virt_once base count s =
     bindR (klock Virt_Mmap_Mutex s) (\<lambda>s.
     case mmap_add_range_merge (virt_mmap s) base count of (added, mmap) \<Rightarrow>
     let s = s\<lparr>virt_mmap := mmap\<rparr>
     in if added
        then bindR (virt_mmap_reduce s) (\<lambda>s.
             bindR (kunlock Virt_Mmap_Mutex s) (\<lambda>s. Inr (Some True, s)))
        else
          let n = range_count (virt_mmap s) * 2
          in bindR (krealloc (virt_ranges s) (of_nat n * 16) s) (\<lambda>(new_ranges, s).
             if new_ranges = 0
             then bindR (kunlock Virt_Mmap_Mutex s) (\<lambda>s. Inr (Some False, s))
             else bindR (kunlock Virt_Mmap_Mutex
                    (s\<lparr>virt_ranges := new_ranges, virt_mmap := resize_ranges n (virt_mmap s)\<rparr>)) (\<lambda>s. Inr (None, s))))"

partial_function (option) free_virt_rounds :: "addr \<Rightarrow> u64 \<Rightarrow> kmem \<Rightarrow> (bool \<times> kmem) res option" where
  "free_virt_rounds base count s =
     (case free_virt_once base count s of
        Inl e \<Rightarrow> Some (Inl e)
      | Inr (Some b, s) \<Rightarrow> Some (Inr (b, s))
      | Inr (None, s) \<Rightarrow> free_virt_rounds base count s)"

text \<open>A loop that does not end is a call that hangs.\<close>

definition or_hang :: "'a res option \<Rightarrow> 'a res" where
  "or_hang r = (case r of None \<Rightarrow> Inl Hang | Some r \<Rightarrow> r)"

definition free_virt_pages :: "addr \<Rightarrow> u64 \<Rightarrow> kmem \<Rightarrow> (bool \<times> kmem) res" where
  "free_virt_pages base count s = or_hang (free_virt_rounds base count s)"

section \<open>Mappings\<close>

partial_function (option) map_offsets :: "addr \<Rightarrow> addr \<Rightarrow> u64 \<Rightarrow> u64 \<Rightarrow> u64 \<Rightarrow> kmem \<Rightarrow> kmem res option" where
  "map_offsets virt base flags bound offset s =
     (if offset \<le> bound
      then case map_page (virt + offset) (base + offset) flags s of
          Inl e \<Rightarrow> Some (Inl e)
        | Inr s \<Rightarrow> map_offsets virt base flags bound (offset + 0x1000) s
      else Some (Inr s))"

partial_function (option) unmap_offsets :: "addr \<Rightarrow> u64 \<Rightarrow> u64 \<Rightarrow> kmem \<Rightarrow> kmem res option" where
  "unmap_offsets base bound offset s =
     (if offset \<le> bound
      then case unmap_page (base + offset) s of
          Inl e \<Rightarrow> Some (Inl e)
        | Inr s \<Rightarrow> unmap_offsets base bound (offset + 0x1000) s
      else Some (Inr s))"

definition pages_of :: "addr \<Rightarrow> u64 \<Rightarrow> u64" where
  "pages_of a sz = (PAGE_BASE (a + sz - 1) - PAGE_BASE a) div 0x1000 + 1"

definition create_virt_mapping :: "addr \<Rightarrow> u64 \<Rightarrow> u64 \<Rightarrow> kmem \<Rightarrow> (addr \<times> kmem) res" where
  "create_virt_mapping paddr sz flags s =
     (let base = PAGE_BASE paddr; page_count = pages_of paddr sz
      in bindR (alloc_virt_pages page_count s) (\<lambda>(virt_base, s).
         if virt_base = 0 then Inr (0, s)
         else bindR (or_hang (map_offsets virt_base base flags (page_count * 0x1000) 0 s)) (\<lambda>s.
              Inr (virt_base + (paddr AND 0xFFF), s))))"

definition delete_virt_mapping :: "addr \<Rightarrow> u64 \<Rightarrow> kmem \<Rightarrow> kmem res" where
  "delete_virt_mapping vaddr sz s =
     (let base = PAGE_BASE vaddr; page_count = pages_of vaddr sz
      in bindR (or_hang (unmap_offsets base (page_count * 0x1000) 0 s)) (\<lambda>s.
         bindR (free_virt_pages base page_count s) (\<lambda>(_, s). Inr s)))"

section \<open>Start-up\<close>

definition KERNEL_HEAP_MAX_SIZE :: u64 where "KERNEL_HEAP_MAX_SIZE = 0x4000000000"

definition init_virt_mmap :: "kmem \<Rightarrow> kmem res" where
  "init_virt_mmap s =
     bindR (kmalloc 16 s) (\<lambda>(v_ranges, s).
     let end_addr = 0 - 0x8000000000;
         start = kernel_heap_start s + KERNEL_HEAP_MAX_SIZE
     in Inr (s\<lparr>virt_ranges := v_ranges,
          virt_mmap := \<lparr>memory_ranges = [\<lparr>base_addr = start, pages = (end_addr - start) div 0x1000\<rparr>],
            range_count = 1, max_range_count = 1\<rparr>\<rparr>))"

text \<open>
  The firmware's memory map, an array of descriptors in memory: \<open>efi_desc p\<close> is the descriptor
  at \<open>p\<close>. What start-up remembers of the page it keeps for the other processors' boot code is
  \<open>ap_boot\<close>; the size of that code is fixed by the build and a parameter.
\<close>

record efi_memory_descriptor =
  Type :: u32
  PhysicalStart :: u64
  NumberOfPages :: u64

record ap_boot =
  ap_boot_paddr_unset :: bool
  ap_boot_paddr :: addr

definition EFI_MEM_TYPE_KERNEL :: u32 where "EFI_MEM_TYPE_KERNEL = 0x80000000"

text \<open>\<open>EfiLoaderCode\<close> to \<open>EfiBootServicesData\<close>, \<open>EfiConventionalMemory\<close>, \<open>EfiPersistentMemory\<close>.\<close>

definition usable_types :: "u32 list" where
  "usable_types = [1, 2, 3, 4, 7, 14]"

text \<open>
  The cut a usable descriptor goes through: the first one that can hold it gives the boot code's
  pages away, and the page at address 0 is never used. \<open>None\<close> when nothing is left of it.
\<close>

definition cut_ap_boot :: "u64 \<Rightarrow> ap_boot \<Rightarrow> efi_memory_descriptor \<Rightarrow> ap_boot \<times> efi_memory_descriptor option" where
  "cut_ap_boot image_size b d =
     (if ap_boot_paddr_unset b \<and> PhysicalStart d \<le> 0xFF000 \<and> image_size \<le> 0x1000 * NumberOfPages d
      then let b = b\<lparr>ap_boot_paddr_unset := False, ap_boot_paddr := PhysicalStart d\<rparr>;
               pgcnt = if image_size mod 0x1000 \<noteq> 0 then image_size div 0x1000 + 1 else image_size div 0x1000
           in if NumberOfPages d = pgcnt then (b, None)
              else (b, Some (d\<lparr>NumberOfPages := NumberOfPages d - pgcnt, PhysicalStart := PhysicalStart d + 0x1000 * pgcnt\<rparr>))
      else (b, Some d))"

definition cut_page_0 :: "efi_memory_descriptor \<Rightarrow> efi_memory_descriptor option" where
  "cut_page_0 d =
     (if PhysicalStart d = 0
      then if NumberOfPages d < 2 then None
           else Some (d\<lparr>NumberOfPages := NumberOfPages d - 1, PhysicalStart := PhysicalStart d + 0x1000\<rparr>)
      else Some d)"

text \<open>The descriptor's pages are unmapped where they are identity-mapped, except the map's own.\<close>

fun unmap_descriptor :: "addr \<Rightarrow> addr \<Rightarrow> addr \<Rightarrow> nat \<Rightarrow> kmem \<Rightarrow> kmem res" where
  "unmap_descriptor efi_start efi_end a 0 s = Inr s"
| "unmap_descriptor efi_start efi_end a (Suc n) s =
     bindR (if a < PAGE_BASE efi_start \<or> PAGE_BASE efi_end < a then unmap_page_fix_size a s else Inr s)
       (unmap_descriptor efi_start efi_end (a + 0x1000) n)"

definition init_mmap_desc :: "addr \<Rightarrow> addr \<Rightarrow> u64 \<Rightarrow> efi_memory_descriptor \<Rightarrow> ap_boot \<times> kmem \<Rightarrow> (ap_boot \<times> kmem) res" where
  "init_mmap_desc efi_start efi_end image_size d = (\<lambda>(b, s).
     let unmap = (\<lambda>b d s. bindR (unmap_descriptor efi_start efi_end (PhysicalStart d) (unat (NumberOfPages d)) s)
           (\<lambda>s. Inr (b, s)))
     in if Type d = EFI_MEM_TYPE_KERNEL then Inr (b, s)
        else if Type d \<in> set usable_types
        then case cut_ap_boot image_size b d of
            (b, None) \<Rightarrow> Inr (b, s)
          | (b, Some d) \<Rightarrow>
              (case cut_page_0 d of
                 None \<Rightarrow> Inr (b, s)
               | Some d \<Rightarrow>
                   (case mmap_add_range (phys_mmap s) (PhysicalStart d) (NumberOfPages d) of (added, mmap) \<Rightarrow>
                    if added then unmap b d (s\<lparr>phys_mmap := mmap\<rparr>) else Inl (Panic ''phys_mmap too large'')))
        else unmap b d s)"

partial_function (option) init_mmap_descs ::
  "(addr \<Rightarrow> efi_memory_descriptor) \<Rightarrow> addr \<Rightarrow> addr \<Rightarrow> u64 \<Rightarrow> u64 \<Rightarrow> addr \<Rightarrow> ap_boot \<times> kmem \<Rightarrow> (ap_boot \<times> kmem) res option" where
  "init_mmap_descs efi_desc efi_start efi_end desc_size image_size cur bs =
     (if cur < efi_end
      then case init_mmap_desc efi_start efi_end image_size (efi_desc cur) bs of
          Inl e \<Rightarrow> Some (Inl e)
        | Inr bs \<Rightarrow> init_mmap_descs efi_desc efi_start efi_end desc_size image_size (cur + desc_size) bs
      else Some (Inr bs))"

partial_function (option) unmap_efi_mmap :: "addr \<Rightarrow> addr \<Rightarrow> kmem \<Rightarrow> kmem res option" where
  "unmap_efi_mmap page_base efi_end s =
     (if page_base \<le> efi_end
      then case unmap_page_fix_size page_base s of
          Inl e \<Rightarrow> Some (Inl e)
        | Inr s \<Rightarrow> unmap_efi_mmap (page_base + 0x1000) efi_end s
      else Some (Inr s))"

definition init_mmap ::
  "(addr \<Rightarrow> efi_memory_descriptor) \<Rightarrow> addr \<Rightarrow> u64 \<Rightarrow> u64 \<Rightarrow> u64 \<Rightarrow> ap_boot \<times> kmem \<Rightarrow> (ap_boot \<times> kmem) res" where
  "init_mmap efi_desc efi_start mmap_size desc_size image_size bs =
     (let efi_end = efi_start + mmap_size
      in bindR (or_hang (init_mmap_descs efi_desc efi_start efi_end desc_size image_size efi_start bs)) (\<lambda>(b, s).
         if ap_boot_paddr_unset b then Inl (Panic ''no space for AP bootstrap code'')
         else bindR (or_hang (unmap_efi_mmap (PAGE_BASE efi_start) efi_end s)) (\<lambda>s. Inr (b, s))))"

definition init_mutex :: "mutex_id \<Rightarrow> kmem \<Rightarrow> kmem res" where
  "init_mutex i s = (case mtx_init (mutexes s i) mtx_plain of (r, m) \<Rightarrow>
     if r \<noteq> thrd_success then Inl (Panic ''mutex failed'') else Inr (s\<lparr>mutexes := (mutexes s)(i := m)\<rparr>))"

definition init_memory_management ::
  "(addr \<Rightarrow> efi_memory_descriptor) \<Rightarrow> addr \<Rightarrow> u64 \<Rightarrow> u64 \<Rightarrow> u64 \<Rightarrow> ap_boot \<times> kmem \<Rightarrow> (ap_boot \<times> kmem) res" where
  "init_memory_management efi_desc efi_start mmap_size desc_size image_size = (\<lambda>(b, s).
     bindR (init_mutex Heap_Mutex s) (\<lambda>s.
     bindR (init_mutex Phys_Mmap_Mutex s) (\<lambda>s.
     bindR (init_mutex Phys_Mmap_Ext_Mutex s) (\<lambda>s.
     bindR (init_mutex Virt_Mmap_Mutex s) (\<lambda>s.
     bindR (init_mutex Paging_Mutex s) (\<lambda>s.
     bindR (init_mmap efi_desc efi_start mmap_size desc_size image_size (b, s)) (\<lambda>(b, s).
     bindR (init_virt_mmap (init_heap s)) (\<lambda>s. Inr (b, s)))))))))"

section \<open>The check after start-up\<close>

text \<open>\<open>kernel_post_init_check\<close> (\<^verbatim>\<open>src/kernel/runtime_error_check.c\<close>): the allocations it makes, with a
  consistency check after each; it answers \<open>false\<close> at the first check that does.\<close>

definition checked :: "kmem \<Rightarrow> (kmem \<Rightarrow> (bool \<times> kmem) res) \<Rightarrow> (bool \<times> kmem) res" where
  "checked s rest = bindR (heap_consistency_check s) (\<lambda>ok. if ok then rest s else Inr (False, s))"

definition test_kernel_heap :: "kmem \<Rightarrow> (bool \<times> kmem) res" where
  "test_kernel_heap s =
     bindR (kmalloc 100 s) (\<lambda>(a, s). checked s (\<lambda>s.
     bindR (kmalloc 0x2000 s) (\<lambda>(b, s). checked s (\<lambda>s.
     bindR (kmalloc 5 s) (\<lambda>(c, s). checked s (\<lambda>s.
     bindR (kfree b s) (\<lambda>s. checked s (\<lambda>s.
     bindR (kfree a s) (\<lambda>s. checked s (\<lambda>s.
     bindR (kfree c s) (\<lambda>s. checked s (\<lambda>s. Inr (True, s)))))))))))))"

definition kernel_post_init_check :: "kmem \<Rightarrow> (bool \<times> kmem) res" where
  "kernel_post_init_check s = test_kernel_heap s"

section \<open>How many pages a mapping takes\<close>

lemma map_offsets_pages:
  assumes "k \<le> Suc n" "(Suc n) * 0x1000 < 2 ^ 64"
  shows "map_offsets virt base flags (of_nat (n * 0x1000)) (of_nat (k * 0x1000)) s =
    Some (map_pages (virt + of_nat (k * 0x1000)) (base + of_nat (k * 0x1000)) flags (Suc n - k) s)"
  using assms(1)
proof (induction "Suc n - k" arbitrary: k s)
  case 0
  then have "k = Suc n" by simp
  moreover have "\<not> (of_nat (Suc n * 0x1000) :: u64) \<le> of_nat (n * 0x1000)"
    unfolding word_le_nat_alt using assms(2) by (subst (1 2) unat_of_nat_no_wrap) simp_all
  ultimately show ?case by (subst map_offsets.simps) (simp del: of_nat_mult of_nat_Suc)
next
  case (Suc d)
  then have k: "k \<le> n" by simp
  then have le: "(of_nat (k * 0x1000) :: u64) \<le> of_nat (n * 0x1000)"
    using assms(2) by (simp add: word_le_nat_alt unat_of_nat_no_wrap del: of_nat_mult)
  have nxt: "(of_nat (k * 0x1000) :: u64) + 0x1000 = of_nat (Suc k * 0x1000)" by simp
  have step: "Suc n - k = Suc (Suc n - Suc k)" using k by simp
  have IH: "map_offsets virt base flags (of_nat (n * 0x1000)) (of_nat (Suc k * 0x1000)) t =
      Some (map_pages (virt + of_nat (Suc k * 0x1000)) (base + of_nat (Suc k * 0x1000)) flags (Suc n - Suc k) t)" for t
    using Suc.hyps(1) [of "Suc k" t] Suc.hyps(2) k by simp
  show ?case
    unfolding map_offsets.simps [of virt base flags "of_nat (n * 0x1000)" "of_nat (k * 0x1000)" s] step map_pages.simps
      nxt IH
    using le by (simp add: IH add.assoc nxt del: of_nat_mult of_nat_Suc split: sum.split)
qed

lemma unat_PAGE_BASE: "unat (PAGE_BASE a) = unat a - unat a mod 0x1000"
  unfolding PAGE_BASE_def mask_consts(1) by (simp only: unat_and_not_mask) simp

lemma pages_of_nat:
  assumes "0 < unat sz" "unat a + unat sz \<le> 2 ^ 64"
  shows "unat (pages_of a sz) = (unat a + unat sz - 1) div 0x1000 - unat a div 0x1000 + 1"
proof -
  have "a + sz - 1 = a + (sz - 1)" by simp
  moreover have "unat (sz - 1) = unat sz - 1" using assms(1) by (intro unat_minus_one) auto
  ultimately have e: "unat (a + sz - 1) = unat a + unat sz - 1"
    unfolding \<open>a + sz - 1 = a + (sz - 1)\<close> using assms by (subst unat_add_no_wrap) simp_all
  have pb: "unat (PAGE_BASE x) = 0x1000 * (unat x div 0x1000)" for x
    by (simp add: unat_PAGE_BASE minus_mod_eq_mult_div)
  have mono: "unat a div 0x1000 \<le> (unat a + unat sz - 1) div 0x1000" using assms(1) by (intro div_le_mono) simp
  then have "unat (PAGE_BASE (a + sz - 1) - PAGE_BASE a) =
      0x1000 * ((unat a + unat sz - 1) div 0x1000) - 0x1000 * (unat a div 0x1000)"
    by (subst unat_sub_no_wrap) (simp_all add: pb e word_le_nat_alt)
  also have "\<dots> = 0x1000 * ((unat a + unat sz - 1) div 0x1000 - unat a div 0x1000)"
    by (simp add: diff_mult_distrib2)
  finally have "unat ((PAGE_BASE (a + sz - 1) - PAGE_BASE a) div 0x1000) =
      (unat a + unat sz - 1) div 0x1000 - unat a div 0x1000"
    by (simp add: unat_div)
  moreover have "(unat a + unat sz - 1) div 0x1000 < 2 ^ 60" using assms by (simp add: less_mult_imp_div_less)
  ultimately show ?thesis
    unfolding pages_of_def by (subst unat_add_no_wrap) (simp_all add: less_imp_diff_less)
qed

text \<open>A mapping covers one page more than it reserves: \<open>create_virt_mapping\<close> takes exactly the pages
  the physical range touches from the map of free addresses, but its loop runs to \<open>page_count\<close>
  inclusive and maps the page behind them as well, whoever it belongs to.\<close>

theorem create_virt_mapping_extra_page:
  assumes sz: "0 < unat sz" "unat paddr + unat sz \<le> 2 ^ 63"
  defines "n \<equiv> (unat paddr + unat sz - 1) div 0x1000 - unat paddr div 0x1000 + 1"
  shows "create_virt_mapping paddr sz flags s =
    bindR (alloc_virt_pages (of_nat n) s) (\<lambda>(virt_base, s).
      if virt_base = 0 then Inr (0, s)
      else bindR (map_pages virt_base (PAGE_BASE paddr) flags (n + 1) s) (\<lambda>s.
        Inr (virt_base + (paddr AND 0xFFF), s)))"
proof -
  have p: "unat (pages_of paddr sz) = n" using sz by (simp add: pages_of_nat n_def)
  have "of_nat (unat (pages_of paddr sz)) = pages_of paddr sz" by simp
  then have pn: "pages_of paddr sz = of_nat n" by (simp only: p)
  have "(unat paddr + unat sz - 1) div 0x1000 < 2 ^ 51" using sz by (simp add: less_mult_imp_div_less)
  then have "Suc n * 0x1000 < 2 ^ 64" by (simp add: n_def)
  from map_offsets_pages [of 0 n, OF _ this]
  have "map_offsets v b flags (of_nat n * 0x1000) 0 t = Some (map_pages v b flags (Suc n) t)" for v b t
    by simp
  then show ?thesis by (simp add: create_virt_mapping_def pn or_hang_def Let_def cong: if_cong del: map_pages.simps)
qed

theorem create_virt_mapping_extra_page_witness:
  "create_virt_mapping 0xFED00000 0x20 0 small_heap =
    bindR (alloc_virt_pages 1 small_heap) (\<lambda>(virt_base, s).
      if virt_base = 0 then Inr (0, s)
      else bindR (map_pages virt_base 0xFED00000 0 2 s) (\<lambda>s. Inr (virt_base, s)))"
  using create_virt_mapping_extra_page [of "0x20" "0xFED00000" 0 small_heap]
  by (simp add: PAGE_BASE_def cong: if_cong del: map_pages.simps)
    (simp add: numeral_2_eq_2 cong: if_cong del: map_pages.simps)

end
