(* ===== verification/Mappings.thy ===== *)
theory Mappings
  imports Virt_Memory
begin

text \<open>
  What \<open>create_virt_mapping\<close> (\<^verbatim>\<open>src/kernel/memory.c\<close>) promises its callers, the ACPI and PCI code, the
  graphics console and the start of the other processors: the page walk finds every byte of the
  physical range at the address returned. The theory joins the address allocator, the loop over the
  pages and \<open>map_page\<close> of theories \<open>Paging\<close> and \<open>Map_Page\<close>.
\<close>

section \<open>Pages of one page table\<close>

text \<open>\<open>m\<close> pages from \<open>v\<close> on that share the page table at \<open>T1\<close>.\<close>

definition window :: "addr \<Rightarrow> addr \<Rightarrow> addr \<Rightarrow> addr \<Rightarrow> addr \<Rightarrow> nat \<Rightarrow> bool" where
  "window P T3 T2 T1 v m \<longleftrightarrow> v AND mask 12 = 0 \<and> unat v mod 2 ^ 21 + m * 0x1000 \<le> 2 ^ 21 \<and>
     (\<forall>k < m. separate P T3 T2 T1 (page_at v k))"

lemma unat_v_plus:
  fixes v :: addr
  assumes "unat v mod 2 ^ 21 + i < 2 ^ 21"
  shows "unat (v + of_nat i) = unat v + i" "unat (v + of_nat i) div 2 ^ 21 = unat v div 2 ^ 21"
proof -
  have "unat v div 2 ^ 21 < 2 ^ 43" by (simp add: less_mult_imp_div_less)
  then have "2 ^ 21 * (unat v div 2 ^ 21) + 2 ^ 21 \<le> 2 ^ 64" by simp
  then have "unat v + i < 2 ^ 64" using assms mult_div_mod_eq [of "2 ^ 21" "unat v"] by linarith
  then show s: "unat (v + of_nat i) = unat v + i"
    by (subst unat_add_no_wrap) (simp_all add: unat_of_nat_no_wrap)
  have "unat v + i = 2 ^ 21 * (unat v div 2 ^ 21) + (unat v mod 2 ^ 21 + i)" by simp
  then have "(unat v + i) div 2 ^ 21 = unat v div 2 ^ 21 + (unat v mod 2 ^ 21 + i) div 2 ^ 21"
    by (metis div_mult_self4 power_not_zero zero_neq_numeral add.commute)
  with s assms show "unat (v + of_nat i) div 2 ^ 21 = unat v div 2 ^ 21" by simp
qed

lemma entry_of_upper:
  assumes "unat u div 2 ^ 21 = unat v div 2 ^ 21" "0 < l"
  shows "entry_of l t u = entry_of l t v"
proof -
  have "drop_bit 21 u = drop_bit 21 v"
    using assms(1) by (intro word_unat_eq_iff [THEN iffD2]) (simp add: drop_bit_eq_div unat_div)
  moreover have "12 + 9 * l = (9 * l - 9) + 21" using assms(2) by simp
  then have "drop_bit (12 + 9 * l) w = drop_bit (9 * l - 9) (drop_bit 21 w)" for w :: addr
    by (simp only: drop_bit_drop_bit)
  ultimately show ?thesis by (simp only: entry_of_def pt_index_def)
qed

lemma unat_pt_index_0: "unat (pt_index 0 v) = unat v mod 2 ^ 21 div 0x1000"
proof -
  have "pt_index 0 v = take_bit 9 (drop_bit 12 v)" by (simp add: pt_index_def take_bit_eq_mask)
  then have "unat (pt_index 0 v) = unat v div 2 ^ 12 mod 2 ^ 9"
    by (simp add: take_bit_eq_mod drop_bit_eq_div unat_div unat_mod)
  also have "\<dots> = unat v mod (2 ^ 12 * 2 ^ 9) div 2 ^ 12"
    by (simp only: mod_mult2_eq) (simp add: div_add1_eq)
  finally show ?thesis by simp
qed

text \<open>The page-table entry of a byte, and different entries for different pages.\<close>

lemma entry_of_page:
  fixes v :: addr
  assumes "v AND mask 12 = 0" "unat v mod 2 ^ 21 + m * 0x1000 \<le> 2 ^ 21" "k < m" "off < 0x1000"
  shows "unat (pt_index 0 (v + of_nat (k * 0x1000 + off))) = unat (pt_index 0 v) + k"
    "(v + of_nat (k * 0x1000 + off)) AND mask 12 = of_nat off"
proof -
  let ?u = "v + of_nat (k * 0x1000 + off)"
  have k: "k * 0x1000 + off < m * 0x1000" using assms(3, 4) by linarith
  then have "unat v mod 2 ^ 21 + (k * 0x1000 + off) < 2 ^ 21" using assms(2) by linarith
  note u = unat_v_plus [OF this]
  have "unat v mod 0x1000 = unat (v AND mask 12)"
    by (simp add: take_bit_eq_mod unat_mod flip: take_bit_eq_mask)
  with assms(1) have v0: "unat v mod 0x1000 = 0" by simp
  have split: "unat v mod 2 ^ 21 = unat v - 2 ^ 21 * (unat v div 2 ^ 21)" by (simp add: minus_mult_div_eq_mod)
  have "unat ?u mod 2 ^ 21 = unat v mod 2 ^ 21 + (k * 0x1000 + off)"
    using u by (simp add: minus_mult_div_eq_mod [symmetric] split)
  then have "unat ?u mod 2 ^ 21 div 0x1000 = (unat v mod 2 ^ 21 + off + k * 0x1000) div 0x1000" by simp
  also have "\<dots> = (unat v mod 2 ^ 21 + off) div 0x1000 + k" by (subst div_mult_self1) simp_all
  also have "(unat v mod 2 ^ 21 + off) div 0x1000 = unat v mod 2 ^ 21 div 0x1000"
  proof -
    have "unat v mod 2 ^ 21 mod 0x1000 = 0" using v0 by (simp add: mod_mod_cancel)
    then show ?thesis using assms(4) by (simp add: div_add1_eq)
  qed
  finally show "unat (pt_index 0 ?u) = unat (pt_index 0 v) + k" by (simp only: unat_pt_index_0)
  have "unat (?u AND mask 12) = unat ?u mod 0x1000"
    by (simp add: take_bit_eq_mod unat_mod flip: take_bit_eq_mask)
  also have "\<dots> = off"
  proof -
    have "unat ?u = unat v + off + k * 0x1000" using u(1) by simp
    then have "unat ?u mod 0x1000 = (unat v + off) mod 0x1000" by simp
    with v0 assms(4) show ?thesis by (simp add: mod_add_eq [symmetric])
  qed
  also have "\<dots> = unat (of_nat off :: addr)" using assms(4) by (simp add: unat_of_nat_no_wrap)
  finally show "?u AND mask 12 = of_nat off" by (rule word_unat_eq_iff [THEN iffD2])
qed

lemma entry_of_0_eq: "entry_of 0 t u = entry_of 0 t v \<longleftrightarrow> pt_index 0 u = pt_index 0 v"
proof -
  have b: "unat (pt_index 0 w) < 512" for w
    by (simp add: unat_pt_index_0 less_mult_imp_div_less)
  have u: "unat (8 * pt_index 0 w) = 8 * unat (pt_index 0 w)" for w
    using b [of w] by (subst unat_mult_no_wrap) simp_all
  have "8 * pt_index 0 u = 8 * pt_index 0 v \<longleftrightarrow> unat (8 * pt_index 0 u) = unat (8 * pt_index 0 v)"
    by (rule word_unat_eq_iff)
  then show ?thesis unfolding u by (simp add: entry_of_def word_unat_eq_iff [of "pt_index 0 u"])
qed

section \<open>Mapping a run of pages\<close>

lemma windowD:
  assumes "window P T3 T2 T1 v m"
  shows "v AND mask 12 = 0" "unat v mod 2 ^ 21 + m * 0x1000 \<le> 2 ^ 21" "k < m \<Longrightarrow> separate P T3 T2 T1 (page_at v k)"
  using assms by (simp_all add: window_def)

lemma page_at_offset: "page_at v k + of_nat off = v + of_nat (k * 0x1000 + off)"
  by (simp add: page_at_def)

lemma window_upper:
  assumes "window P T3 T2 T1 v m" "k < m" "off < 0x1000" "0 < l"
  shows "entry_of l t (page_at v k + of_nat off) = entry_of l t v"
proof -
  have "k * 0x1000 + off < m * 0x1000" using assms(2, 3) by linarith
  then have "unat v mod 2 ^ 21 + (k * 0x1000 + off) < 2 ^ 21" using windowD(2) [OF assms(1)] by linarith
  then show ?thesis unfolding page_at_offset using unat_v_plus(2) assms(4) by (intro entry_of_upper)
qed

lemma window_pte:
  assumes "window P T3 T2 T1 v m" "k < m" "off < 0x1000" "j < m"
  shows "entry_of 0 t (page_at v k + of_nat off) = entry_of 0 t (page_at v j) \<longleftrightarrow> k = j"
  using entry_of_page(1) [OF windowD(1, 2) [OF assms(1)] assms(2, 3)]
    entry_of_page(1) [OF windowD(1, 2) [OF assms(1)] assms(4), of 0]
  by (simp add: entry_of_0_eq word_unat_eq_iff [of "pt_index 0 _"] page_at_offset del: of_nat_add of_nat_mult)
    (simp add: page_at_def)

lemma window_page:
  assumes "window P T3 T2 T1 v m" "k < m"
  shows "0 < l \<Longrightarrow> entry_of l t (page_at v k) = entry_of l t v"
    "j < m \<Longrightarrow> entry_of 0 t (page_at v k) = entry_of 0 t (page_at v j) \<longleftrightarrow> k = j"
  using window_upper [OF assms, of 0] window_pte [OF assms, of 0] by simp_all

lemma tables_in_window:
  assumes "window P T3 T2 T1 v m" "k < m" "off < 0x1000"
  shows "tables P T3 T2 T1 (page_at v k + of_nat off) f = tables P T3 T2 T1 v f"
  using window_upper [OF assms] by (simp add: tables_def)

lemma window_tail:
  assumes "window P T3 T2 T1 v (Suc m)" "0 < m"
  shows "window P T3 T2 T1 (v + 0x1000) m"
proof -
  note w = windowD [OF assms(1)]
  have l: "unat v mod 2 ^ 21 + 0x1000 < 2 ^ 21" using w(2) assms(2) by simp
  note u = unat_v_plus [OF l]
  have "unat (v + 0x1000) mod 2 ^ 21 = unat v mod 2 ^ 21 + 0x1000"
    using u by (simp add: minus_mult_div_eq_mod [symmetric])
  then have "unat (v + 0x1000) mod 2 ^ 21 + m * 0x1000 \<le> 2 ^ 21" using w(2) by simp
  moreover have "(v + 0x1000) AND mask 12 = 0"
    using entry_of_page(2) [OF w(1, 2), of 1 0] assms(2) by simp
  moreover have "separate P T3 T2 T1 (page_at (v + 0x1000) k)" if "k < m" for k
    using w(3) [of "Suc k"] that by (simp add: page_at_Suc)
  ultimately show ?thesis by (simp add: window_def)
qed

text \<open>The state in which a run of pages can be mapped.\<close>

definition mappable :: "addr \<Rightarrow> addr \<Rightarrow> addr \<Rightarrow> addr \<Rightarrow> addr \<Rightarrow> u64 \<Rightarrow> kmem \<Rightarrow> bool" where
  "mappable P T3 T2 T1 v flags s \<longleftrightarrow> tables P T3 T2 T1 v (pt s) \<and> pml4_of s = P \<and> plain_flags flags \<and>
     \<not> held Paging_Mutex s \<and> \<not> held Ipcall_Mutex s \<and>
     (cr0_wp s \<longrightarrow> bit (pt s (entry_of 3 P v) OR flags) 1 \<and> bit (pt s (entry_of 2 T3 v) OR flags) 1)"

text \<open>The entries above the page table allow writing.\<close>

definition upper_writable :: "addr \<Rightarrow> addr \<Rightarrow> addr \<Rightarrow> addr \<Rightarrow> (addr \<Rightarrow> u64) \<Rightarrow> bool" where
  "upper_writable P T3 T2 v f \<longleftrightarrow> bit (f (entry_of 3 P v)) 1 \<and> bit (f (entry_of 2 T3 v)) 1 \<and> bit (f (entry_of 1 T2 v)) 1"

lemma map_page_mappable:
  assumes "separate P T3 T2 T1 v" "mappable P T3 T2 T1 v flags s"
  shows "\<exists>s'. map_page v p flags s = Inr s' \<and> mappable P T3 T2 T1 v flags s' \<and>
    pt s' (entry_of 0 T1 v) = p OR PAGING_FLAG_PRESENT OR flags \<and>
    (\<forall>x. x \<notin> {entry_of 3 P v, entry_of 2 T3 v, entry_of 1 T2 v, entry_of 0 T1 v} \<longrightarrow> pt s' x = pt s x) \<and>
    (flags = 0 \<longrightarrow> (\<forall>x. x \<noteq> entry_of 0 T1 v \<longrightarrow> pt s' x = pt s x)) \<and>
    (bit flags 1 \<longrightarrow> upper_writable P T3 T2 v (pt s'))"
proof -
  note m = assms(2) [unfolded mappable_def]
  let ?f = "(pt s)(entry_of 3 P v := pt s (entry_of 3 P v) OR flags, entry_of 2 T3 v := pt s (entry_of 2 T3 v) OR flags,
    entry_of 1 T2 v := pt s (entry_of 1 T2 v) OR flags, entry_of 0 T1 v := p OR PAGING_FLAG_PRESENT OR flags)"
  have te: "table_entry (pt s (entry_of 3 P v) OR flags) T3" "table_entry (pt s (entry_of 2 T3 v) OR flags) T2"
    "table_entry (pt s (entry_of 1 T2 v) OR flags) T1"
    using m by (auto intro!: table_entry_or dest: tablesD)
  have "tables P T3 T2 T1 v ?f"
    using m by (intro tables_upd [OF assms(1)] te) simp
  moreover have "map_page v p flags s = Inr (shot_down v (s\<lparr>pt := ?f\<rparr>))"
    using m by (intro map_page_eq assms(1)) auto
  ultimately show ?thesis using m assms(1)
    by (intro exI [of _ "shot_down v (s\<lparr>pt := ?f\<rparr>)"]) (auto simp: mappable_def upper_writable_def separate_def bit_simps)
qed

lemma mappable_upper:
  assumes "0 < m" "window P T3 T2 T1 v (Suc m)"
  shows "mappable P T3 T2 T1 (v + 0x1000) flags s = mappable P T3 T2 T1 v flags s"
  using tables_in_window [OF assms(2), of 1 0 "pt s"] window_page(1) [OF assms(2), of 1] assms(1)
  by (simp add: mappable_def page_at_1 del: One_nat_def)

text \<open>The page-table entries of the run, and the entries above them.\<close>

definition run_ptes :: "addr \<Rightarrow> addr \<Rightarrow> nat \<Rightarrow> addr set" where
  "run_ptes T1 v m = (\<lambda>k. entry_of 0 T1 (page_at v k)) ` {..<m}"

lemma run_ptes_Suc: "run_ptes T1 v (Suc m) = insert (entry_of 0 T1 v) (run_ptes T1 (v + 0x1000) m)"
  by (simp add: run_ptes_def page_at_Suc lessThan_Suc_eq_insert_0 image_image)

lemma map_pages_window:
  assumes "window P T3 T2 T1 v m" "mappable P T3 T2 T1 v flags s"
  shows "\<exists>s'. map_pages v p flags m s = Inr s' \<and> mappable P T3 T2 T1 v flags s' \<and>
    (\<forall>k < m. pt s' (entry_of 0 T1 (page_at v k)) = page_at p k OR PAGING_FLAG_PRESENT OR flags) \<and>
    (\<forall>x. x \<notin> {entry_of 3 P v, entry_of 2 T3 v, entry_of 1 T2 v} \<union> run_ptes T1 v m \<longrightarrow> pt s' x = pt s x) \<and>
    (flags = 0 \<longrightarrow> (\<forall>x. x \<notin> run_ptes T1 v m \<longrightarrow> pt s' x = pt s x)) \<and>
    (bit flags 1 \<and> 0 < m \<longrightarrow> upper_writable P T3 T2 v (pt s'))"
  using assms
proof (induction m arbitrary: v p s)
  case (Suc m)
  have sep: "separate P T3 T2 T1 v" using windowD(3) [OF Suc.prems(1), of 0] by simp
  from map_page_mappable [OF sep Suc.prems(2), of p] obtain t where
    t: "map_page v p flags s = Inr t" "mappable P T3 T2 T1 v flags t"
      "pt t (entry_of 0 T1 v) = p OR PAGING_FLAG_PRESENT OR flags"
      "\<forall>x. x \<notin> {entry_of 3 P v, entry_of 2 T3 v, entry_of 1 T2 v, entry_of 0 T1 v} \<longrightarrow> pt t x = pt s x"
      "flags = 0 \<longrightarrow> (\<forall>x. x \<noteq> entry_of 0 T1 v \<longrightarrow> pt t x = pt s x)"
      "bit flags 1 \<longrightarrow> upper_writable P T3 T2 v (pt t)" by blast
  show ?case
  proof (cases "m = 0")
    case True
    with t show ?thesis by (auto simp: run_ptes_def)
  next
    case False
    then have m: "0 < m" by simp
    have up: "entry_of l T (v + 0x1000) = entry_of l T v" if "0 < l" for l T
      using window_page(1) [OF Suc.prems(1), of 1 l T] m that by (simp add: page_at_1 del: One_nat_def)
    from Suc.IH [OF window_tail [OF Suc.prems(1) m], of t "p + 0x1000"] t(2) mappable_upper [OF m Suc.prems(1)]
    obtain s' where s': "map_pages (v + 0x1000) (p + 0x1000) flags m t = Inr s'" "mappable P T3 T2 T1 v flags s'"
      "\<forall>k < m. pt s' (entry_of 0 T1 (page_at v (Suc k))) = page_at p (Suc k) OR PAGING_FLAG_PRESENT OR flags"
      "\<forall>x. x \<notin> {entry_of 3 P v, entry_of 2 T3 v, entry_of 1 T2 v} \<union> run_ptes T1 (v + 0x1000) m \<longrightarrow> pt s' x = pt t x"
      "flags = 0 \<longrightarrow> (\<forall>x. x \<notin> run_ptes T1 (v + 0x1000) m \<longrightarrow> pt s' x = pt t x)"
      "bit flags 1 \<longrightarrow> upper_writable P T3 T2 v (pt s')"
      using m by (auto simp: page_at_Suc up upper_writable_def)
    have "entry_of 0 T1 v \<notin> run_ptes T1 (v + 0x1000) m"
      using window_page(2) [OF Suc.prems(1), of 0] by (auto simp: run_ptes_def page_at_Suc)
    then have "pt s' (entry_of 0 T1 v) = pt t (entry_of 0 T1 v)"
      using sep by (intro s'(4) [rule_format]) (auto simp: separate_def)
    then have "pt s' (entry_of 0 T1 v) = p OR PAGING_FLAG_PRESENT OR flags" by (simp add: t(3))
    with s'(3) have "pt s' (entry_of 0 T1 (page_at v k)) = page_at p k OR PAGING_FLAG_PRESENT OR flags" if "k < Suc m" for k
      using that by (cases k) auto
    with s' t show ?thesis by (simp add: run_ptes_Suc)
  qed
qed simp

section \<open>The mapping\<close>

lemma bit_frame_bits: "bit frame_mask n \<longleftrightarrow> 12 \<le> n \<and> n < 52"
  unfolding frame_mask_def mask_consts by (simp only: bit_push_bit_iff bit_mask_iff) auto

lemma frame_page:
  assumes "unat p + m * 0x1000 \<le> 2 ^ 52" "p AND mask 12 = 0" "k < m"
  shows "page_at p k AND frame_mask = page_at p k"
proof -
  have u: "unat (page_at p k) = unat p + k * 0x1000"
    unfolding page_at_def using assms
    by (subst unat_add_no_wrap) (simp_all add: unat_of_nat_no_wrap del: of_nat_mult)
  have "unat p mod 0x1000 = unat (p AND mask 12)" by (simp add: take_bit_eq_mod unat_mod flip: take_bit_eq_mask)
  with assms(2) u have "unat (page_at p k) mod 0x1000 = 0" by simp
  moreover have "unat (page_at p k AND mask 12) = unat (page_at p k) mod 0x1000"
    by (simp add: take_bit_eq_mod unat_mod flip: take_bit_eq_mask)
  ultimately have z: "page_at p k AND mask 12 = 0" by (simp add: word_unat_eq_iff)
  have lo: "12 \<le> n" if "bit (page_at p k) n" for n
  proof (rule ccontr)
    assume "\<not> 12 \<le> n"
    then have "bit (page_at p k AND mask 12) n" using that bit_imp_le_length [OF that] by (simp add: bit_simps)
    then show False using z by simp
  qed
  have "unat (page_at p k) < 2 ^ 52" using u assms by simp
  from not_bit_above [OF this] have hi: "n < 52" if "bit (page_at p k) n" for n using that not_le by blast
  from lo hi show ?thesis by (intro bit_word_eqI) (auto simp: bit_and_iff bit_frame_bits)
qed

text \<open>The bytes of the range on its pages: page \<open>k\<close> of the \<open>n\<close>, byte \<open>r\<close>.\<close>

lemma mapping_bytes:
  fixes v paddr sz :: addr
  assumes "0 < unat sz" "unat paddr + unat sz \<le> 2 ^ 51"
  defines "n \<equiv> (unat paddr + unat sz - 1) div 0x1000 - unat paddr div 0x1000 + 1" and "b \<equiv> PAGE_BASE paddr"
  shows "b AND mask 12 = 0" "unat b + (n + 1) * 0x1000 \<le> unat paddr + unat sz + 0x2000"
    "i < unat sz \<Longrightarrow> \<exists>k r. k < n \<and> r < 0x1000 \<and> v + (paddr AND 0xFFF) + of_nat i = page_at v k + of_nat r \<and>
       paddr + of_nat i = page_at b k + of_nat r"
proof -
  have ff: "(0xFFF :: addr) = mask 12" by (simp add: mask_eq_exp_minus_1)
  have off: "unat (paddr AND 0xFFF) = unat paddr mod 0x1000"
    unfolding ff by (simp add: take_bit_eq_mod unat_mod flip: take_bit_eq_mask)
  have ub: "unat b = unat paddr - unat paddr mod 0x1000" by (simp add: b_def unat_PAGE_BASE)
  show bo: "b AND mask 12 = 0"
    unfolding b_def PAGE_BASE_def mask_consts(1) by (simp add: and.assoc)
  have p_split: "b + (paddr AND 0xFFF) = paddr"
    by (rule word_unat_eq_iff [THEN iffD2]) (subst unat_add_no_wrap, simp_all add: ub off)
  show "unat b + (n + 1) * 0x1000 \<le> unat paddr + unat sz + 0x2000"
  proof -
    have "unat paddr div 0x1000 \<le> (unat paddr + unat sz - 1) div 0x1000" using assms(1) by (intro div_le_mono) simp
    then obtain d where d: "(unat paddr + unat sz - 1) div 0x1000 = unat paddr div 0x1000 + d" using le_Suc_ex by blast
    have "unat b = unat paddr div 0x1000 * 0x1000" by (simp add: ub minus_mod_eq_div_mult)
    moreover have "(unat paddr + unat sz - 1) div 0x1000 * 0x1000 \<le> unat paddr + unat sz - 1" by (rule div_times_less_eq_dividend)
    ultimately show ?thesis unfolding n_def d by simp
  qed
  have po: "paddr AND 0xFFF = of_nat (unat paddr mod 0x1000)" unfolding off [symmetric] by simp
  show "\<exists>k r. k < n \<and> r < 0x1000 \<and> v + (paddr AND 0xFFF) + of_nat i = page_at v k + of_nat r \<and>
       paddr + of_nat i = page_at b k + of_nat r" if i: "i < unat sz"
  proof -
    define k where "k = (unat paddr mod 0x1000 + i) div 0x1000"
    define r where "r = (unat paddr mod 0x1000 + i) mod 0x1000"
    have kr: "k * 0x1000 + r = unat paddr mod 0x1000 + i" "r < 0x1000" by (simp_all add: k_def r_def)
    have "k < n"
    proof -
      have "unat paddr + i = (unat paddr mod 0x1000 + i) + unat paddr div 0x1000 * 0x1000" by simp
      also have "\<dots> div 0x1000 = unat paddr div 0x1000 + k" unfolding k_def by (subst div_mult_self1) simp_all
      finally have "(unat paddr + i) div 0x1000 = unat paddr div 0x1000 + k" .
      moreover have "(unat paddr + i) div 0x1000 \<le> (unat paddr + unat sz - 1) div 0x1000" using i by (intro div_le_mono) simp
      ultimately show ?thesis by (simp add: n_def)
    qed
    moreover have "v + (paddr AND 0xFFF) + of_nat i = page_at v k + of_nat r"
      unfolding page_at_offset kr(1) po by (simp only: add.assoc of_nat_add)
    moreover have "paddr + of_nat i = page_at b k + of_nat r"
    proof -
      have "paddr + of_nat i = b + of_nat (unat paddr mod 0x1000) + of_nat i" by (simp only: p_split [unfolded po])
      then show ?thesis unfolding page_at_offset kr(1) by (simp only: add.assoc of_nat_add)
    qed
    ultimately show ?thesis using kr(2) by blast
  qed
qed

lemma create_virt_mapping_run:
  assumes "0 < unat sz" "unat paddr + unat sz \<le> 2 ^ 51"
  defines "n \<equiv> (unat paddr + unat sz - 1) div 0x1000 - unat paddr div 0x1000 + 1"
  assumes "alloc_virt_pages (of_nat n) s = Inr (v, t)" "v \<noteq> 0"
    and "window P T3 T2 T1 v (n + 1)" "mappable P T3 T2 T1 v flags t"
  shows "\<exists>s'. create_virt_mapping paddr sz flags s = Inr (v + (paddr AND 0xFFF), s') \<and>
    (\<forall>i < unat sz. map_option snd (translate s' (v + (paddr AND 0xFFF) + of_nat i)) = Some (paddr + of_nat i)) \<and>
    mappable P T3 T2 T1 v flags s' \<and> paging_only t s' \<and>
    (flags = 0 \<longrightarrow> (\<forall>x. x \<notin> run_ptes T1 v (n + 1) \<longrightarrow> pt s' x = pt t x)) \<and>
    (bit flags 1 \<longrightarrow> (\<forall>i < unat sz. \<exists>q. translate s' (v + (paddr AND 0xFFF) + of_nat i) = Some (True, q)))"
proof -
  define b where "b = PAGE_BASE paddr"
  note mb = mapping_bytes [OF assms(1, 2), folded n_def b_def]
  note bo = mb(1) and last_page = mb(2)
  from map_pages_window [OF assms(6, 7), of b] obtain s' where
    s': "map_pages v b flags (n + 1) t = Inr s'" "mappable P T3 T2 T1 v flags s'"
      "\<And>k. k < n + 1 \<Longrightarrow> pt s' (entry_of 0 T1 (page_at v k)) = page_at b k OR PAGING_FLAG_PRESENT OR flags"
      "flags = 0 \<longrightarrow> (\<forall>x. x \<notin> run_ptes T1 v (n + 1) \<longrightarrow> pt s' x = pt t x)"
      "bit flags 1 \<longrightarrow> upper_writable P T3 T2 v (pt s')" by auto
  have "paging_only t s'" using keeps_map_pages [of t v b flags "n + 1"] s'(1) by (simp add: keeps_def)
  have "create_virt_mapping paddr sz flags s = Inr (v + (paddr AND 0xFFF), s')"
    using create_virt_mapping_extra_page [of sz paddr flags s] assms(1-5) s'(1)
    by (simp add: n_def b_def)
  moreover have "map_option snd (translate s' (v + (paddr AND 0xFFF) + of_nat i)) = Some (paddr + of_nat i) \<and>
      (bit flags 1 \<longrightarrow> (\<exists>q. translate s' (v + (paddr AND 0xFFF) + of_nat i) = Some (True, q)))"
    if i: "i < unat sz" for i
  proof -
    obtain k r where "k < n" and r: "r < 0x1000" and eq: "v + (paddr AND 0xFFF) + of_nat i = page_at v k + of_nat r"
      "paddr + of_nat i = page_at b k + of_nat r" using mb(3) [OF i] by blast
    have "map_option snd (translate s' (page_at v k + of_nat r)) = Some (page_at b k + of_nat r) \<and>
      (bit flags 1 \<longrightarrow> (\<exists>q. translate s' (page_at v k + of_nat r) = Some (True, q)))"
    proof -
      have k: "k < n + 1" using \<open>k < n\<close> by simp
      have fr: "page_at b k AND frame_mask = page_at b k"
        using assms(2) last_page by (intro frame_page [OF _ bo k]) simp
      note m = s'(2) [unfolded mappable_def] and w = assms(6)
      have e: "pt s' (entry_of 0 T1 (page_at v k + of_nat r)) = page_at b k OR PAGING_FLAG_PRESENT OR flags"
        using s'(3) [OF k] window_pte [OF w k r k, of T1] by simp
      have tab: "tables P T3 T2 T1 (page_at v k + of_nat r) (pt s')" using m tables_in_window [OF w k r] by simp
      have "bit (page_at b k OR PAGING_FLAG_PRESENT OR flags) 0" by (simp add: PAGING_FLAG_PRESENT_def bit_simps)
      then have writable: "\<exists>q. translate s' (page_at v k + of_nat r) = Some (True, q)" if "bit flags 1"
        using s'(5) that m window_upper [OF w k r]
        by (simp add: translate_mapped [OF tab] Let_def e upper_writable_def bit_or_iff)
      from tab have "map_option snd (translate s' (page_at v k + of_nat r)) =
          Some (page_at b k OR ((page_at v k + of_nat r) AND mask 12))"
        using m frame_of_pte [OF _ fr, of flags] by (simp add: translate_mapped Let_def e)
      also have "(page_at v k + of_nat r) AND mask 12 = of_nat r"
        unfolding page_at_offset by (rule entry_of_page(2) [OF windowD(1, 2) [OF w] k r])
      also have "page_at b k OR of_nat r = page_at b k + of_nat r"
      proof -
        have "unat (of_nat r :: addr) < 2 ^ 12" using r by (simp add: unat_of_nat_no_wrap)
        then have "\<not> bit (of_nat r :: addr) j" if "12 \<le> j" for j using that by (rule not_bit_above)
        moreover have "12 \<le> j" if "bit (page_at b k) j" for j
          using that fr bit_frame_bits by (metis bit_and_iff)
        ultimately have "page_at b k AND of_nat r = 0" by (intro bit_word_eqI) (auto simp: bit_and_iff)
        then show ?thesis by (simp add: disjunctive_add_eq_or)
      qed
      finally show ?thesis using writable by blast
    qed
    then show ?thesis unfolding eq by simp
  qed
  ultimately show ?thesis using s'(2, 4) \<open>paging_only t s'\<close> by blast
qed

lemma create_virt_mapping_maps:
  assumes "0 < unat sz" "unat paddr + unat sz \<le> 2 ^ 51"
  defines "n \<equiv> (unat paddr + unat sz - 1) div 0x1000 - unat paddr div 0x1000 + 1"
  assumes "alloc_virt_pages (of_nat n) s = Inr (v, t)" "v \<noteq> 0"
    and "vm_ok t" "plain_flags flags" "mappable_run v (n + 1) t" "opens_run flags v (n + 1) t"
    and "card (tables_missing v (n + 1) t) \<le> free_pages (phys_mmap t)"
  shows "\<exists>s'. create_virt_mapping paddr sz flags s = Inr (v + (paddr AND 0xFFF), s') \<and> vm_ok s' \<and> paging_only t s' \<and>
    (\<forall>i < unat sz. translate s' (v + (paddr AND 0xFFF) + of_nat i) = Some (bit flags 1, paddr + of_nat i)) \<and>
    (\<forall>u. ordinary u \<longrightarrow> (\<forall>k \<le> n. \<not> same_path 4 u (page_at v k)) \<longrightarrow> kept flags (translate t u) (translate s' u))"
proof -
  define b where "b = PAGE_BASE paddr"
  note mb = mapping_bytes [OF assms(1, 2), folded n_def b_def]
  have lim: "unat b + (n + 1) * 0x1000 \<le> 2 ^ 52" using mb(2) assms(2) by simp
  have "unat b mod 0x1000 = unat (b AND mask 12)" by (simp add: take_bit_eq_mod unat_mod flip: take_bit_eq_mask)
  then have "is_frame b" using mb(1) lim unfolding is_frame_iff by simp
  from map_pages_mapped [OF assms(6-8) this lim assms(10, 9)] obtain s' where
    s': "map_pages v b flags (n + 1) t = Inr s'" "grows t s'" "mutexes s' = mutexes t"
      "\<And>k i. k < n + 1 \<Longrightarrow> i < 0x1000 \<Longrightarrow> translate s' (page_at v k + of_nat i) = Some (bit flags 1, page_at b k + of_nat i)"
      "\<forall>u. ordinary u \<longrightarrow> (\<forall>k < n + 1. \<not> same_path 4 u (page_at v k)) \<longrightarrow> kept flags (translate t u) (translate s' u)"
    by blast
  have run: "create_virt_mapping paddr sz flags s = Inr (v + (paddr AND 0xFFF), s')"
    using create_virt_mapping_extra_page [of sz paddr flags s] assms(1-5) s'(1) by (simp add: n_def b_def)
  have "translate s' (v + (paddr AND 0xFFF) + of_nat i) = Some (bit flags 1, paddr + of_nat i)" if "i < unat sz" for i
    using mb(3) [OF that, of v] s'(4) by auto
  moreover have "vm_ok s'" using growsD(2) [OF s'(2)] s'(3) assms(6) by (simp add: vm_ok_def)
  moreover have "k < n + 1 \<longleftrightarrow> k \<le> n" for k by auto
  ultimately show ?thesis using run s'(5) growsD(1) [OF s'(2)] by auto
qed


section \<open>Taking a run of pages out\<close>

lemma unmap_page_mappable:
  assumes "separate P T3 T2 T1 v" "mappable P T3 T2 T1 v flags s"
  shows "\<exists>s'. unmap_page v s = Inr s' \<and> mappable P T3 T2 T1 v flags s' \<and> paging_only s s' \<and>
    (\<forall>x. x \<noteq> entry_of 0 T1 v \<longrightarrow> pt s' x = pt s x)"
proof -
  note m = assms(2) [unfolded mappable_def]
  let ?s = "shot_down v (s\<lparr>pt := (pt s)(entry_of 0 T1 v := 0)\<rparr>)"
  have run: "unmap_page v s = Inr ?s" using m by (intro unmap_page_eq [OF assms(1)]) auto
  moreover have "tables P T3 T2 T1 v ((pt s)(entry_of 0 T1 v := 0))" using m by (intro tables_upd(4) [OF assms(1)]) simp
  then have "mappable P T3 T2 T1 v flags ?s" using m assms(1) by (auto simp: mappable_def separate_def)
  moreover have "paging_only s ?s" using keeps_unmap_page [of s v] run by (simp add: keeps_def)
  ultimately show ?thesis by (intro exI [of _ ?s]) simp
qed

lemma unmap_offsets_window:
  assumes "window P T3 T2 T1 v (Suc n)" "mappable P T3 T2 T1 v flags s" "k \<le> Suc n" "Suc n * 0x1000 < 2 ^ 64"
  shows "\<exists>s'. unmap_offsets v (of_nat (n * 0x1000)) (of_nat (k * 0x1000)) s = Some (Inr s') \<and> mappable P T3 T2 T1 v flags s' \<and>
    paging_only s s' \<and> (\<forall>x. x \<notin> run_ptes T1 v (Suc n) \<longrightarrow> pt s' x = pt s x)"
  using assms(2, 3)
proof (induction "Suc n - k" arbitrary: k s)
  case 0
  then have "k = Suc n" by simp
  moreover have "\<not> (of_nat (Suc n * 0x1000) :: u64) \<le> of_nat (n * 0x1000)"
    unfolding word_le_nat_alt using assms(4) by (subst (1 2) unat_of_nat_no_wrap) simp_all
  ultimately show ?case using 0 by (subst unmap_offsets.simps) (simp add: paging_only_def del: of_nat_mult of_nat_Suc)
next
  case (Suc d)
  then have k: "k < Suc n" by simp
  then have le: "(of_nat (k * 0x1000) :: u64) \<le> of_nat (n * 0x1000)"
    using assms(4) by (simp add: word_le_nat_alt unat_of_nat_no_wrap del: of_nat_mult)
  have nxt: "(of_nat (k * 0x1000) :: u64) + 0x1000 = of_nat (Suc k * 0x1000)" by simp
  have up: "entry_of l T (page_at v k) = entry_of l T v" if "0 < l" for l T
    using window_page(1) [OF assms(1) k that] .
  have same: "mappable P T3 T2 T1 (page_at v k) flags u = mappable P T3 T2 T1 v flags u" for u
    by (simp add: mappable_def tables_def up)
  from unmap_page_mappable [OF windowD(3) [OF assms(1) k], of flags s] Suc.prems(1) same obtain u where
    u: "unmap_page (page_at v k) s = Inr u" "mappable P T3 T2 T1 v flags u" "paging_only s u"
      "\<forall>x. x \<noteq> entry_of 0 T1 (page_at v k) \<longrightarrow> pt u x = pt s x" by blast
  have "d = Suc n - Suc k" "Suc k \<le> Suc n" using Suc.hyps(2) k by simp_all
  from Suc.hyps(1) [OF this(1) u(2) this(2)] obtain s' where
    s': "unmap_offsets v (of_nat (n * 0x1000)) (of_nat (Suc k * 0x1000)) u = Some (Inr s')" "mappable P T3 T2 T1 v flags s'"
      "paging_only u s'" "\<forall>x. x \<notin> run_ptes T1 v (Suc n) \<longrightarrow> pt s' x = pt u x" by blast
  have "entry_of 0 T1 (page_at v k) \<in> run_ptes T1 v (Suc n)" using k by (simp add: run_ptes_def)
  then have "\<forall>x. x \<notin> run_ptes T1 v (Suc n) \<longrightarrow> pt s' x = pt s x" using s'(4) u(4) by metis
  moreover have "unmap_offsets v (of_nat (n * 0x1000)) (of_nat (k * 0x1000)) s = Some (Inr s')"
    unfolding unmap_offsets.simps [of v "of_nat (n * 0x1000)" "of_nat (k * 0x1000)" s] nxt
    using le u(1) s'(1) by (simp add: page_at_def del: of_nat_mult of_nat_Suc)
  ultimately show ?case using s'(2) paging_only_trans [OF u(3) s'(3)] by blast
qed

text \<open>A kernel with sixteen free virtual pages whose page table is present.\<close>

definition demo_space :: kmem where
  "demo_space = demo_paging\<lparr>virt_mmap :=
     \<lparr>memory_ranges = [\<lparr>base_addr = 0xFFFFFF1000000000, pages = 16\<rparr>], range_count = 1, max_range_count = 1\<rparr>\<rparr>"

lemma demo_space_alloc:
  "\<exists>t. alloc_virt_pages 1 demo_space = Inr (0xFFFFFF1000000000, t) \<and> pt t = pt demo_paging \<and> cr3 t = cr3 demo_paging \<and>
     (\<forall>i. \<not> held i t)"
  by (simp add: alloc_virt_pages_def demo_space_def klock_eq kunlock_eq demo_paging_facts(5) mmap_get_pages_def
      get_pages_from.simps [of _ _ 0] virt_mmap_reduce_def Let_def)

lemma demo_window: "window 0x1000 0x2000 0x3000 0x4000 0xFFFFFF1000000000 2"
proof -
  have "separate 0x1000 0x2000 0x3000 0x4000 0xFFFFFF1000001000"
    by (simp add: separate_def entry_of_def pt_index_def mask9)
  then have "separate 0x1000 0x2000 0x3000 0x4000 (page_at 0xFFFFFF1000000000 k)" if "k < 2" for k
    using that demo_paging_facts(1) by (cases "k = 0") (simp_all add: page_at_def less_2_cases_iff)
  then show ?thesis by (simp add: window_def mask_eq_exp_minus_1)
qed

text \<open>
  The bare kernel of theory \<open>Map_Page\<close> with the last page of one page table and the first of the next free: no
  table is there, and four have to be made.
\<close>

definition demo_apart :: kmem where
  "demo_apart = demo_bare\<lparr>virt_mmap :=
     \<lparr>memory_ranges = [\<lparr>base_addr = 0xFFFFFF10001FF000, pages = 16\<rparr>], range_count = 1, max_range_count = 1\<rparr>\<rparr>"

lemma demo_apart_alloc:
  "\<exists>t. alloc_virt_pages 1 demo_apart = Inr (0xFFFFFF10001FF000, t) \<and> pt t = pt demo_bare \<and> cr3 t = cr3 demo_bare \<and>
     phys_mmap t = phys_mmap demo_bare \<and> (\<forall>i. \<not> held i t)"
  by (simp add: alloc_virt_pages_def demo_apart_def demo_bare_def klock_eq kunlock_eq demo_paging_facts(5) mmap_get_pages_def
      get_pages_from.simps [of _ _ 0] virt_mmap_reduce_def Let_def)

lemma demo_apart_run:
  "mappable_run 0xFFFFFF10001FF000 2 demo_bare" "card (tables_missing 0xFFFFFF10001FF000 2 demo_bare) \<le> 4"
proof -
  let ?v = "0xFFFFFF10001FF000 :: addr"
  have "page_at ?v 1 = 0xFFFFFF1000200000" by (simp add: page_at_def)
  then have pg: "page_at ?v k = (if k = 0 then ?v else 0xFFFFFF1000200000)" if "k < 2" for k
    using that by (auto simp: less_2_cases_iff)
  have o: "ordinary (page_at ?v k)" if "k < 2" for k by (simp add: pg [OF that] ordinary_def pt_index_def mask9)
  show "mappable_run ?v 2 demo_bare"
    using o demo_bare_tables(2) [OF o] by (simp add: mappable_run_def mask_eq_exp_minus_1)
  have w: "ways_missing u demo_bare = [way_to 1 u, way_to 2 u, way_to 3 u]" if "ordinary u" for u
    using demo_bare_tables(5-7) [OF that] by (simp add: ways_missing_def del: One_nat_def table_at.simps)
  let ?u = "0xFFFFFF1000200000 :: addr"
  have s: "way_to 1 ?u = way_to 1 ?v" "way_to 2 ?u = way_to 2 ?v"
    unfolding same_way by (auto simp: same_path_def pt_index_def mask9 less_2_cases_iff)
  have "tables_missing ?v 2 demo_bare = set (ways_missing ?v demo_bare) \<union> set (ways_missing ?u demo_bare)"
    using pg [of 0] pg [of 1] by (auto simp: tables_missing_def less_2_cases_iff)
  also have "\<dots> = {way_to 1 ?v, way_to 2 ?v, way_to 3 ?v, way_to 3 ?u}"
    using w [OF o [of 0]] w [OF o [of 1]] pg [of 1] s by auto
  also have "card \<dots> \<le> 4" by (simp add: card_insert_if)
  finally show "card (tables_missing ?v 2 demo_bare) \<le> 4" .
qed

lemma demo_apart_ready:
  "\<exists>t. alloc_virt_pages 1 demo_apart = Inr (0xFFFFFF10001FF000, t) \<and> cr3 t = cr3 demo_bare \<and> vm_ok t \<and> mappable_run 0xFFFFFF10001FF000 2 t \<and>
     card (tables_missing 0xFFFFFF10001FF000 2 t) \<le> free_pages (phys_mmap t)"
proof -
  obtain t where t: "alloc_virt_pages 1 demo_apart = Inr (0xFFFFFF10001FF000, t)" "pt t = pt demo_bare"
    "cr3 t = cr3 demo_bare" "phys_mmap t = phys_mmap demo_bare" "\<And>i. \<not> held i t" using demo_apart_alloc by blast
  note x = vm_inner_same [OF t(2-4)]
  have "\<not> held i demo_bare" for i by (simp add: demo_bare_def demo_paging_facts(5))
  then have "vm_ok t" using demo_bare_facts(1) x(6) t(5) by (simp add: vm_ok_def)
  moreover have "mappable_run 0xFFFFFF10001FF000 2 t" using demo_apart_run(1) by (simp add: mappable_run_def x(3))
  moreover have "tables_missing 0xFFFFFF10001FF000 2 t = tables_missing 0xFFFFFF10001FF000 2 demo_bare"
    by (simp only: tables_missing_def ways_missing_def x(1) t(2))
  then have "card (tables_missing 0xFFFFFF10001FF000 2 t) \<le> free_pages (phys_mmap t)"
    using demo_apart_run(2) demo_bare_facts(5) by (simp add: t(4))
  ultimately show ?thesis using t(1, 3) by blast
qed


text \<open>The second page of \<open>demo_space\<close> is mapped.\<close>

lemma demo_space_reads:
  assumes "i < 0x1000"
  shows "map_option snd (translate demo_space (0xFFFFFF1000001000 + of_nat i)) = Some (0x7000 + of_nat i)"
proof -
  let ?v = "0xFFFFFF1000000000 :: addr"
  have p: "page_at ?v 1 = 0xFFFFFF1000001000" by (simp add: page_at_def)
  have "tables 0x1000 0x2000 0x3000 0x4000 (page_at ?v 1 + of_nat i) (pt demo_space)"
    using tables_in_window [OF demo_window _ assms, of 1] demo_paging_facts(2) by (simp add: demo_space_def)
  then have t: "tables 0x1000 0x2000 0x3000 0x4000 (0xFFFFFF1000001000 + of_nat i) (pt demo_space)" by (simp only: p)
  have "entry_of 0 0x4000 (page_at ?v 1 + of_nat i) = entry_of 0 0x4000 (page_at ?v 1)"
    using window_pte [OF demo_window _ assms, of 1 1] by simp
  then have e: "entry_of 0 0x4000 (0xFFFFFF1000001000 + of_nat i) = 0x4008" unfolding p by (simp add: demo_entries)
  have "(page_at ?v 1 + of_nat i) AND mask 12 = of_nat i"
    unfolding page_at_offset using assms by (intro entry_of_page(2) [OF windowD(1, 2) [OF demo_window]]) simp_all
  then have m: "(0xFFFFFF1000001000 + of_nat i) AND mask 12 = (of_nat i :: addr)" unfolding p .
  have "(0x7000 :: addr) OR of_nat i = 0x7000 + of_nat i"
  proof -
    have "unat (of_nat i :: addr) < 2 ^ 12" using assms by (simp add: unat_of_nat_no_wrap)
    then have "\<not> bit (of_nat i :: addr) j" if "12 \<le> j" for j using that by (rule not_bit_above)
    moreover have "12 \<le> j" if "bit (0x7000 :: addr) j" for j
    proof -
      have "(0x7000 :: addr) = push_bit 12 7" by simp
      with that show ?thesis by (simp only: bit_push_bit_iff)
    qed
    ultimately have "0x7000 AND (of_nat i :: addr) = 0" by (intro bit_word_eqI) (auto simp: bit_and_iff)
    then show ?thesis by (simp add: disjunctive_add_eq_or)
  qed
  moreover have "pt demo_space 0x4008 = 0x7001" "pml4_of demo_space = 0x1000"
    using demo_entries(9) demo_paging_facts(3) by (simp_all add: demo_space_def pml4_of_def)
  ultimately show ?thesis
    using t by (simp add: translate_mapped [OF t] e m Let_def frame_mask_def)
qed

lemma demo_space_path:
  assumes "i < 0x1000"
  shows "walk_path (pt demo_space) 3 0x1000 (0xFFFFFF1000001000 + of_nat i) = [0x1FF0, 0x2200, 0x3000, 0x4008]"
proof -
  let ?v = "0xFFFFFF1000000000 :: addr"
  have p: "page_at ?v 1 = 0xFFFFFF1000001000" by (simp add: page_at_def)
  have up: "entry_of l T (0xFFFFFF1000001000 + of_nat i) = entry_of l T 0xFFFFFF1000001000" if "0 < l" for l T
    using window_upper [OF demo_window _ assms that, of 1] window_page(1) [OF demo_window _ that, of 1] unfolding p by simp
  have lo: "entry_of 0 T (0xFFFFFF1000001000 + of_nat i) = entry_of 0 T 0xFFFFFF1000001000" for T
    using window_pte [OF demo_window _ assms, of 1 1] unfolding p by simp
  show ?thesis
    by (simp add: walk_path_levels up lo demo_entries demo_space_def frame_mask_def Let_def mask_eq_exp_minus_1
        del: One_nat_def) simp
qed

end
