(* ===== verification/Acpi.thy ===== *)
theory Acpi
  imports Mappings
begin

text \<open>
  The kernel's access to the firmware's ACPI tables, \<^verbatim>\<open>src/kernel/acpi.c\<close>. The tables are bytes of
  physical memory, \<open>phys\<close>, which the firmware wrote and nobody changes; the kernel sees them through
  the mappings it makes, so a C read of a table is a read through the page walk, byte by byte, and an
  address without translation is a page fault.
\<close>

section \<open>Reading mapped memory\<close>

definition vload8 :: "mem \<Rightarrow> addr \<Rightarrow> kmem \<Rightarrow> u8 res" where
  "vload8 phys v s = (case translate s v of None \<Rightarrow> Inl page_fault | Some (w, p) \<Rightarrow> Inr (phys p))"

fun vload :: "mem \<Rightarrow> nat \<Rightarrow> addr \<Rightarrow> kmem \<Rightarrow> u64 res" where
  "vload phys 0 v s = Inr 0"
| "vload phys (Suc n) v s = bindR (vload8 phys v s) (\<lambda>b.
     bindR (vload phys n (v + 1) s) (\<lambda>r. Inr (ucast b OR push_bit 8 r)))"

definition vload32 :: "mem \<Rightarrow> addr \<Rightarrow> kmem \<Rightarrow> u32 res" where
  "vload32 phys v s = bindR (vload phys 4 v s) (\<lambda>x. Inr (ucast x))"

text \<open>What is in physical memory, least significant byte first.\<close>

fun stored :: "mem \<Rightarrow> nat \<Rightarrow> addr \<Rightarrow> u64" where
  "stored phys 0 p = 0"
| "stored phys (Suc n) p = ucast (phys p) OR push_bit 8 (stored phys n (p + 1))"

lemma stored_numeral:
  "stored phys (numeral k) p = ucast (phys p) OR push_bit 8 (stored phys (pred_numeral k) (p + 1))"
  by (simp add: numeral_eq_Suc)

definition stored32 :: "mem \<Rightarrow> addr \<Rightarrow> u32" where
  "stored32 phys p = ucast (stored phys 4 p)"

section \<open>The tables\<close>

definition SDT_HEADER_SIZE :: nat where "SDT_HEADER_SIZE = 36"
definition ACPI_SIGNATURE_RSDT :: u32 where "ACPI_SIGNATURE_RSDT = 0x54445352"
definition ACPI_SIGNATURE_XSDT :: u32 where "ACPI_SIGNATURE_XSDT = 0x54445358"
definition ACPI_SIGNATURE_MCFG :: u32 where "ACPI_SIGNATURE_MCFG = 0x4746434D"

datatype sdt_type = RSDT | XSDT

record acpi =
  sdt_kind :: sdt_type
  rsdt_entries :: addr
  xsdt_entries :: addr
  sdt_entry_count :: u32

record acpi_sdt =
  sdt_addr :: addr
  sdt_length :: u32

definition init_acpi :: "mem \<Rightarrow> addr \<Rightarrow> acpi \<times> kmem \<Rightarrow> (acpi \<times> kmem) res" where
  "init_acpi phys sdt_paddr = (\<lambda>(a, s).
     bindR (create_virt_mapping sdt_paddr (of_nat SDT_HEADER_SIZE) 0 s) (\<lambda>(x_r_sdt, s).
     if x_r_sdt = 0 then Inl (Panic ''failed to create virt mapping for SDT header'')
     else bindR (vload32 phys (x_r_sdt + 4) s) (\<lambda>sdt_len.
     bindR (delete_virt_mapping x_r_sdt (of_nat SDT_HEADER_SIZE) s) (\<lambda>s.
     bindR (create_virt_mapping sdt_paddr (ucast sdt_len) 0 s) (\<lambda>(x_r_sdt, s).
     if x_r_sdt = 0 then Inl (Panic ''failed to create virt mapping for SDT'')
     else bindR (vload32 phys x_r_sdt s) (\<lambda>signature.
     if signature = ACPI_SIGNATURE_XSDT
     then Inr (a\<lparr>sdt_kind := XSDT, xsdt_entries := x_r_sdt + of_nat SDT_HEADER_SIZE,
            sdt_entry_count := (sdt_len - of_nat SDT_HEADER_SIZE) div 8\<rparr>, s)
     else if signature = ACPI_SIGNATURE_RSDT
     then Inr (a\<lparr>sdt_kind := RSDT, rsdt_entries := x_r_sdt + of_nat SDT_HEADER_SIZE,
            sdt_entry_count := (sdt_len - of_nat SDT_HEADER_SIZE) div 4\<rparr>, s)
     else Inl (Panic ''neither XSDT nor RSDT present'')))))))"

text \<open>\<^verbatim>\<open>rsdt_entries[i]\<close> or \<^verbatim>\<open>xsdt_entries[i]\<close>\<close>

definition sdt_entry :: "mem \<Rightarrow> acpi \<Rightarrow> nat \<Rightarrow> kmem \<Rightarrow> addr res" where
  "sdt_entry phys a i s = (case sdt_kind a of
     RSDT \<Rightarrow> bindR (vload32 phys (rsdt_entries a + 4 * of_nat i) s) (\<lambda>p. Inr (ucast p))
   | XSDT \<Rightarrow> vload phys 8 (xsdt_entries a + 8 * of_nat i) s)"

text \<open>
  The loop over the entries: the table's physical address and size, or nothing when none has the
  signature (the loop leaves \<^verbatim>\<open>table_paddr\<close> 0).
\<close>

fun find_table :: "mem \<Rightarrow> u32 \<Rightarrow> acpi \<Rightarrow> nat list \<Rightarrow> kmem \<Rightarrow> ((addr \<times> u32) option \<times> kmem) res" where
  "find_table phys signature a [] s = Inr (None, s)"
| "find_table phys signature a (i # is) s =
     bindR (sdt_entry phys a i s) (\<lambda>table_paddr.
     bindR (create_virt_mapping table_paddr (of_nat SDT_HEADER_SIZE) 0 s) (\<lambda>(table_addr, s).
     if table_addr = 0 then Inl (Panic ''failed to create virt mapping for ACPI table header'')
     else bindR (vload32 phys table_addr s) (\<lambda>found.
       if found \<noteq> signature
       then bindR (delete_virt_mapping table_addr (of_nat SDT_HEADER_SIZE) s) (find_table phys signature a is)
       else bindR (vload32 phys (table_addr + 4) s) (\<lambda>table_size.
            bindR (delete_virt_mapping table_addr (of_nat SDT_HEADER_SIZE) s) (\<lambda>s.
            Inr (Some (table_paddr, table_size), s))))))"

definition get_acpi_table :: "mem \<Rightarrow> u32 \<Rightarrow> acpi \<Rightarrow> kmem \<Rightarrow> (acpi_sdt option \<times> kmem) res" where
  "get_acpi_table phys signature a s =
     bindR (find_table phys signature a [0..<unat (sdt_entry_count a)] s) (\<lambda>(found, s).
     case found of
       None \<Rightarrow> Inr (None, s)
     | Some (table_paddr, table_size) \<Rightarrow>
         if table_paddr = 0 then Inr (None, s)
         else bindR (create_virt_mapping table_paddr (ucast table_size) 0 s) (\<lambda>(table_addr, s).
           if table_addr = 0 then Inl (Panic ''failed to create virt mapping for ACPI table'')
           else Inr (Some \<lparr>sdt_addr = table_addr + of_nat SDT_HEADER_SIZE, sdt_length = table_size - of_nat SDT_HEADER_SIZE\<rparr>, s)))"

section \<open>Reads through a mapping\<close>

lemma vload_mapped:
  assumes "\<And>i. i < n \<Longrightarrow> map_option snd (translate s (v + of_nat i)) = Some (p + of_nat i)"
  shows "vload phys n v s = Inr (stored phys n p)"
  using assms
proof (induction n arbitrary: v p)
  case (Suc n)
  obtain w where "translate s v = Some (w, p)" using Suc.prems [of 0] by auto
  moreover have "map_option snd (translate s (v + 1 + of_nat i)) = Some (p + 1 + of_nat i)" if "i < n" for i
    using Suc.prems [of "Suc i"] that by (simp add: algebra_simps)
  from Suc.IH [OF this] have "vload phys n (v + 1) s = Inr (stored phys n (p + 1))" .
  ultimately show ?case by (simp add: vload8_def)
qed simp

lemma vload32_mapped:
  assumes "\<And>i. i < 4 \<Longrightarrow> map_option snd (translate s (v + of_nat i)) = Some (p + of_nat i)"
  shows "vload32 phys v s = Inr (stored32 phys p)"
  by (simp only: vload32_def vload_mapped [of 4, OF assms] bindR.simps stored32_def)

section \<open>Looking at a header\<close>

text \<open>
  A kernel that can look at a table: the free virtual addresses are one range that starts at
  \<open>base\<close>, with \<open>m\<close> pages in one page table, enough for a header that crosses a page and the page
  behind it, and the array of the address map is as small as it can be.
\<close>

definition probe_ready :: "addr \<Rightarrow> addr \<Rightarrow> addr \<Rightarrow> addr \<Rightarrow> addr \<Rightarrow> nat \<Rightarrow> kmem \<Rightarrow> bool" where
  "probe_ready P T3 T2 T1 base m s \<longleftrightarrow> range_count (virt_mmap s) = 1 \<and> memory_ranges (virt_mmap s) \<noteq> [] \<and>
     base_addr (memory_ranges (virt_mmap s) ! 0) = base \<and> m \<le> unat (pages (memory_ranges (virt_mmap s) ! 0)) \<and> 3 \<le> m \<and>
     max_range_count (virt_mmap s) \<le> 2 \<and> base \<noteq> 0 \<and> \<not> held Virt_Mmap_Mutex s \<and>
     window P T3 T2 T1 base m \<and> mappable P T3 T2 T1 base 0 s"

lemma window_less: "window P T3 T2 T1 v m \<Longrightarrow> k \<le> m \<Longrightarrow> window P T3 T2 T1 v k"
  by (auto simp: window_def)

lemma unlocked_same:
  assumes "\<not> held i s"
  shows "s\<lparr>virt_mmap := m, mutexes := (mutexes s)(i := (mutexes s i)\<lparr>locked := False\<rparr>)\<rparr> = s\<lparr>virt_mmap := m\<rparr>"
proof -
  have "(mutexes s)(i := (mutexes s i)\<lparr>locked := False\<rparr>) = mutexes s" using assms by (intro ext) (cases "mutexes s i", auto)
  then show ?thesis by (cases s) simp
qed

lemma probe_alloc:
  assumes "probe_ready P T3 T2 T1 base m s" "0 < n" "n < m"
  shows "\<exists>mm. alloc_virt_pages (of_nat n) s = Inr (base, s\<lparr>virt_mmap := mm\<rparr>) \<and>
    (\<forall>u. virt_mmap u = mm \<longrightarrow> \<not> held Virt_Mmap_Mutex u \<longrightarrow>
       free_virt_pages base (of_nat n) u = Inr (True, u\<lparr>virt_mmap := virt_mmap s\<rparr>))"
proof -
  let ?m = "virt_mmap s"
  obtain r rs where r: "memory_ranges ?m = r # rs" "base_addr r = base" "m \<le> unat (pages r)"
    using assms(1) by (cases "memory_ranges ?m") (auto simp: probe_ready_def)
  have m: "range_count ?m = 1" "max_range_count ?m \<le> 2" "base \<noteq> 0" "\<not> held Virt_Mmap_Mutex s"
    using assms(1) by (simp_all add: probe_ready_def)
  have "m * 0x1000 \<le> 2 ^ 21" using assms(1) by (auto simp: probe_ready_def window_def)
  then have n: "unat (of_nat n :: u64) = n" using assms(3) by (intro unat_of_nat_no_wrap) simp
  then have p: "pages r \<noteq> of_nat n" "of_nat n < pages r" "(of_nat n :: u64) \<noteq> 0"
    using r(3) assms(2, 3) by (auto simp: word_less_nat_alt word_unat_eq_iff)
  let ?m1 = "?m\<lparr>memory_ranges := r\<lparr>base_addr := base + 4096 * of_nat n, pages := pages r - of_nat n\<rparr> # rs\<rparr>"
  have "mmap_get_pages ?m (of_nat n) = (base, ?m1)"
    using m(1) p by (simp add: mmap_get_pages_def get_pages_from.simps [of _ _ 0] r Let_def)
  then have "alloc_virt_pages (of_nat n) s = Inr (base, s\<lparr>virt_mmap := ?m1\<rparr>)"
    using m unlocked_same [OF m(4)] by (simp add: alloc_virt_pages_def klock_eq kunlock_eq virt_mmap_reduce_def Let_def)
  moreover have "free_virt_pages base (of_nat n) u = Inr (True, u\<lparr>virt_mmap := ?m\<rparr>)"
    if "virt_mmap u = ?m1" "\<not> held Virt_Mmap_Mutex u" for u
  proof -
    have "mmap_add_range_merge ?m1 base (of_nat n) = (True, ?m)"
      using m(1) p(3) r(1, 2) by (cases ?m; cases r) (simp add: mmap_add_range_merge_def merge_from.simps [of _ _ _ _ 0] Let_def)
    then show ?thesis using that m unlocked_same [OF that(2)]
      by (simp add: free_virt_pages_def or_hang_def free_virt_rounds.simps free_virt_once_def klock_eq kunlock_eq
          virt_mmap_reduce_def Let_def)
  qed
  ultimately show ?thesis by blast
qed

lemma paging_only_fields:
  "paging_only s s' \<Longrightarrow> virt_mmap s' = virt_mmap s \<and> mutexes s' = mutexes s"
  unfolding paging_only_def by (cases s; cases s') simp

lemma run_ptes_mono: "m \<le> n \<Longrightarrow> run_ptes T v m \<subseteq> run_ptes T v n"
  by (auto simp: run_ptes_def)

text \<open>The pages a block of bytes touches depend on the offset in the first page only.\<close>

lemma pages_touched:
  fixes c :: nat
  assumes "0 < sz"
  shows "(c + sz - 1) div 0x1000 - c div 0x1000 = (c mod 0x1000 + (sz - 1)) div 0x1000"
proof -
  have "c + sz - 1 = c mod 0x1000 + (sz - 1) + c div 0x1000 * 0x1000"
    using assms by simp
  then have "(c + sz - 1) div 0x1000 = c div 0x1000 + (c mod 0x1000 + (sz - 1)) div 0x1000"
    by (simp only: div_mult_self1)
  then show ?thesis by simp
qed

lemma delete_virt_mapping_run:
  assumes n: "n = (off + (unat sz - 1)) div 0x1000 + 1" and off: "off < 0x1000" and sz: "0 < unat sz"
    and w: "window P T3 T2 T1 base (n + 1)" and m: "mappable P T3 T2 T1 base 0 s"
  shows "\<exists>u. delete_virt_mapping (base + of_nat off) sz s = bindR (free_virt_pages base (of_nat n) u) (\<lambda>(_, s). Inr s) \<and>
    mappable P T3 T2 T1 base 0 u \<and> paging_only s u \<and> (\<forall>x. x \<notin> run_ptes T1 base (n + 1) \<longrightarrow> pt u x = pt s x)"
proof -
  let ?v = "base + of_nat off"
  note b = windowD(1, 2) [OF w]
  have last: "off + unat sz \<le> n * 0x1000"
  proof -
    define q where "q = (off + (unat sz - 1)) div 0x1000"
    have "off + (unat sz - 1) < 0x1000 + q * 0x1000" unfolding q_def by (rule dividend_less_div_times) simp
    moreover have "n = q + 1" unfolding n q_def ..
    ultimately show ?thesis using sz by linarith
  qed
  have small: "Suc n * 0x1000 < 2 ^ 64" using b(2) by simp
  have "unat base mod 2 ^ 21 + off < 2 ^ 21" using b(2) off by simp
  note v = unat_v_plus(1) [OF this]
  have "unat base mod 2 ^ 21 + (off + unat sz) < 2 ^ 21" using b(2) last by simp
  from unat_v_plus(1) [OF this] have top: "unat ?v + unat sz \<le> 2 ^ 64"
    using unat_u64_less [of "base + of_nat (off + unat sz)"] by (simp add: v)
  have "unat base mod 0x1000 = unat (base AND mask 12)"
    by (simp add: take_bit_eq_mod unat_mod flip: take_bit_eq_mask)
  then have b0: "unat base mod 0x1000 = 0" using b(1) by simp
  then have vm: "unat ?v mod 0x1000 = off" using off by (simp add: v mod_add_eq [symmetric])
  have "PAGE_BASE ?v = base" by (simp add: word_unat_eq_iff unat_PAGE_BASE vm) (simp add: v)
  moreover have "unat (pages_of ?v sz) = n"
    using pages_of_nat [OF sz top] pages_touched [OF sz, of "unat ?v"] by (simp add: vm n)
  then have "of_nat (unat (pages_of ?v sz)) = (of_nat n :: u64)" by (simp only:)
  then have "pages_of ?v sz = of_nat n" by simp
  moreover
  from unmap_offsets_window [of P T3 T2 T1 base n 0 s 0, unfolded Suc_eq_plus1] w m small obtain u where
    "unmap_offsets base (of_nat (n * 0x1000)) 0 s = Some (Inr u)" "mappable P T3 T2 T1 base 0 u"
      "paging_only s u" "\<forall>x. x \<notin> run_ptes T1 base (n + 1) \<longrightarrow> pt u x = pt s x" by auto
  ultimately show ?thesis by (intro exI [of _ u]) (simp add: delete_virt_mapping_def or_hang_def Let_def)
qed

lemma create_virt_mapping_ready:
  assumes ready: "probe_ready P T3 T2 T1 base m s" and sz: "0 < unat sz" and p: "unat p + unat sz \<le> 2 ^ 51"
  defines "off \<equiv> unat p mod 0x1000"
  assumes n: "n = (off + (unat sz - 1)) div 0x1000 + 1" and fits: "n + 1 \<le> m"
  shows "\<exists>s1. create_virt_mapping p sz 0 s = Inr (base + of_nat off, s1) \<and> base + of_nat off \<noteq> 0 \<and>
    (\<forall>i < unat sz. map_option snd (translate s1 (base + of_nat off + of_nat i)) = Some (p + of_nat i)) \<and>
    mappable P T3 T2 T1 base 0 s1 \<and> (\<forall>x. x \<notin> run_ptes T1 base m \<longrightarrow> pt s1 x = pt s x) \<and> mutexes s1 = mutexes s \<and>
    (\<forall>u. virt_mmap u = virt_mmap s1 \<longrightarrow> \<not> held Virt_Mmap_Mutex u \<longrightarrow>
       free_virt_pages base (of_nat n) u = Inr (True, u\<lparr>virt_mmap := virt_mmap s\<rparr>))"
proof -
  note r = ready [unfolded probe_ready_def]
  have n': "(unat p + unat sz - 1) div 0x1000 - unat p div 0x1000 + 1 = n"
    using pages_touched [OF sz, of "unat p"] by (simp add: n off_def)
  have "0 < n" "n < m" using fits by (simp_all add: n)
  from probe_alloc [OF ready this] obtain mm where
    al: "alloc_virt_pages (of_nat n) s = Inr (base, s\<lparr>virt_mmap := mm\<rparr>)" and
    fr: "\<And>u. virt_mmap u = mm \<Longrightarrow> \<not> held Virt_Mmap_Mutex u \<Longrightarrow>
       free_virt_pages base (of_nat n) u = Inr (True, u\<lparr>virt_mmap := virt_mmap s\<rparr>)" by blast
  define t where "t = s\<lparr>virt_mmap := mm\<rparr>"
  have t: "pt t = pt s" "virt_mmap t = mm" "mutexes t = mutexes s" by (simp_all add: t_def)
  have mt: "mappable P T3 T2 T1 base 0 t" using r by (simp add: t_def mappable_def pml4_of_def)
  have wm: "window P T3 T2 T1 base m" and base: "base \<noteq> 0" using r by blast+
  have w: "window P T3 T2 T1 base (n + 1)" by (rule window_less [OF wm fits])
  have ff: "(0xFFF :: addr) = mask 12" by (simp add: mask_eq_exp_minus_1)
  have "unat (p AND 0xFFF) = off"
    unfolding ff off_def by (simp add: take_bit_eq_mod unat_mod flip: take_bit_eq_mask)
  then have "of_nat (unat (p AND 0xFFF)) = (of_nat off :: addr)" by (simp only:)
  then have po: "p AND 0xFFF = of_nat off" by simp
  have al': "alloc_virt_pages (of_nat n) s = Inr (base, t)" using al by (simp add: t_def)
  note run = create_virt_mapping_run [where sz = sz and paddr = p and flags = 0, unfolded n']
  from run [OF sz p al' base w mt] obtain s1 where
    s1: "create_virt_mapping p sz 0 s = Inr (base + (p AND 0xFFF), s1)"
      "\<forall>i < unat sz. map_option snd (translate s1 (base + (p AND 0xFFF) + of_nat i)) = Some (p + of_nat i)"
      "mappable P T3 T2 T1 base 0 s1" "paging_only t s1" "\<forall>x. x \<notin> run_ptes T1 base (n + 1) \<longrightarrow> pt s1 x = pt t x"
    by blast
  have same: "virt_mmap s1 = mm" "mutexes s1 = mutexes s"
    using paging_only_fields [OF s1(4)] t by simp_all
  have "base + of_nat off \<noteq> 0"
  proof -
    have "off < 0x1000" by (simp add: off_def)
    then have "unat base mod 2 ^ 21 + off < 2 ^ 21" using windowD(2) [OF w] by simp
    from unat_v_plus(1) [OF this] base show ?thesis by (auto simp: unat_eq_0)
  qed
  moreover have "\<forall>x. x \<notin> run_ptes T1 base m \<longrightarrow> pt s1 x = pt s x"
    using run_ptes_mono [OF fits] s1(5) t(1) by auto
  ultimately show ?thesis using s1(1-3) same fr unfolding po by blast
qed

lemma probe_header:
  assumes ready: "probe_ready P T3 T2 T1 base m s" and p: "unat p + 36 \<le> 2 ^ 51"
  shows "\<exists>v s1 s2. create_virt_mapping p 36 0 s = Inr (v, s1) \<and> v \<noteq> 0 \<and>
    (\<forall>i < 36. map_option snd (translate s1 (v + of_nat i)) = Some (p + of_nat i)) \<and>
    delete_virt_mapping v 36 s1 = Inr s2 \<and> probe_ready P T3 T2 T1 base m s2 \<and>
    (\<forall>x. x \<notin> run_ptes T1 base m \<longrightarrow> pt s1 x = pt s x \<and> pt s2 x = pt s x)"
proof -
  define off where "off = unat p mod 0x1000"
  define n where "n = (off + 35) div 0x1000 + 1"
  have off: "off < 0x1000" by (simp add: off_def)
  then have "(off + 35) div 0x1000 \<le> (0x1000 + 34) div 0x1000" by (intro div_le_mono) simp
  then have n2: "n + 1 \<le> 3" by (simp add: n_def)
  note r = ready [unfolded probe_ready_def]
  have nm: "n + 1 \<le> m" using r n2 by linarith
  have wm: "window P T3 T2 T1 base m" using r by blast
  have u36: "unat (36 :: u64) = 36" by simp
  have nn: "n = (unat p mod 0x1000 + (36 - 1)) div 0x1000 + 1" by (simp add: n_def off_def)
  note create = create_virt_mapping_ready [where sz = 36, unfolded u36]
  from create [OF ready zero_less_numeral p nn nm, folded off_def] obtain s1 where
    s1: "create_virt_mapping p 36 0 s = Inr (base + of_nat off, s1)" "base + of_nat off \<noteq> 0"
      "\<forall>i < 36. map_option snd (translate s1 (base + of_nat off + of_nat i)) = Some (p + of_nat i)"
      "mappable P T3 T2 T1 base 0 s1" "\<forall>x. x \<notin> run_ptes T1 base m \<longrightarrow> pt s1 x = pt s x" "mutexes s1 = mutexes s"
      "\<And>u. virt_mmap u = virt_mmap s1 \<Longrightarrow> \<not> held Virt_Mmap_Mutex u \<Longrightarrow>
         free_virt_pages base (of_nat n) u = Inr (True, u\<lparr>virt_mmap := virt_mmap s\<rparr>)" by blast
  from delete_virt_mapping_run [OF _ off, of n 36 P T3 T2 T1 base s1] window_less [OF wm nm] s1(4) obtain u where
    u: "delete_virt_mapping (base + of_nat off) 36 s1 = bindR (free_virt_pages base (of_nat n) u) (\<lambda>(_, s). Inr s)"
      "mappable P T3 T2 T1 base 0 u" "paging_only s1 u" "\<forall>x. x \<notin> run_ptes T1 base (n + 1) \<longrightarrow> pt u x = pt s1 x"
    unfolding u36 by (auto simp: n_def)
  have same: "virt_mmap u = virt_mmap s1" "mutexes u = mutexes s"
    using paging_only_fields [OF u(3)] s1(6) by simp_all
  let ?s2 = "u\<lparr>virt_mmap := virt_mmap s\<rparr>"
  have "delete_virt_mapping (base + of_nat off) 36 s1 = Inr ?s2"
    using s1(7) [OF same(1)] same(2) r by (simp add: u(1))
  moreover have "probe_ready P T3 T2 T1 base m ?s2"
    using r u(2) same(2) by (simp add: probe_ready_def mappable_def pml4_of_def)
  moreover have "pt s1 x = pt s x \<and> pt ?s2 x = pt s x" if "x \<notin> run_ptes T1 base m" for x
  proof -
    have "x \<notin> run_ptes T1 base (n + 1)" using that run_ptes_mono [OF nm, of T1 base] by blast
    then show ?thesis using that s1(5) u(4) by simp
  qed
  ultimately show ?thesis using s1(1-3) by blast
qed

section \<open>Finding a table\<close>

text \<open>Memory that stays mapped whatever is written to the page-table entries \<open>X\<close>.\<close>

definition stays_mapped :: "addr set \<Rightarrow> kmem \<Rightarrow> addr \<Rightarrow> addr \<Rightarrow> nat \<Rightarrow> bool" where
  "stays_mapped X s v p n \<longleftrightarrow> (\<forall>i < n. map_option snd (translate s (v + of_nat i)) = Some (p + of_nat i) \<and>
     set (walk_path (pt s) 3 (pml4_of s) (v + of_nat i)) \<inter> X = {})"

lemma walk_path_cong: "(\<And>x. x \<in> set (walk_path f l t v) \<Longrightarrow> f x = g x) \<Longrightarrow> walk_path f l t v = walk_path g l t v"
proof (induction l arbitrary: t)
  case (Suc l)
  let ?e = "f (entry_of (Suc l) t v)"
  have e: "g (entry_of (Suc l) t v) = ?e" using Suc.prems [of "entry_of (Suc l) t v"] by simp
  have "walk_path f l (?e AND frame_mask) v = walk_path g l (?e AND frame_mask) v" if "bit ?e 0 \<and> \<not> bit ?e 7"
    using that by (intro Suc.IH Suc.prems) (simp add: Let_def)
  then have "(if bit ?e 0 \<and> \<not> bit ?e 7 then walk_path f l (?e AND frame_mask) v else []) =
      (if bit ?e 0 \<and> \<not> bit ?e 7 then walk_path g l (?e AND frame_mask) v else [])"
    by (rule if_cong [OF refl _ refl])
  then show ?case by (simp only: walk_path.simps e Let_def)
qed simp

lemma stays_mapped_outside:
  assumes "stays_mapped X s v p n" "\<And>x. x \<notin> X \<Longrightarrow> pt s' x = pt s x" "pml4_of s' = pml4_of s"
  shows "stays_mapped X s' v p n"
proof -
  have "map_option snd (translate s' u) = map_option snd (translate s u) \<and>
      walk_path (pt s') 3 (pml4_of s') u = walk_path (pt s) 3 (pml4_of s) u"
    if "set (walk_path (pt s) 3 (pml4_of s) u) \<inter> X = {}" for u
  proof -
    have same: "pt s x = pt s' x" if "x \<in> set (walk_path (pt s) 3 (pml4_of s) u)" for x
    proof -
      have "x \<notin> X" using that \<open>_ \<inter> X = {}\<close> by blast
      then show ?thesis by (rule assms(2) [symmetric])
    qed
    then have "\<forall>x \<in> set (walk_path (pt s) 3 (pml4_of s) u). same_target (pt s x) (pt s' x)"
      by (simp add: same_target_def)
    from walk_same_targets [OF this] walk_path_cong [OF same] show ?thesis
      by (simp add: translate_def assms(3))
  qed
  with assms(1) show ?thesis by (simp add: stays_mapped_def)
qed

lemma stays_mapped_reads:
  assumes "stays_mapped X s v p n" "k + c \<le> n"
  shows "vload phys c (v + of_nat k) s = Inr (stored phys c (p + of_nat k))"
proof (rule vload_mapped)
  fix i assume "i < c"
  then have "k + i < n" using assms(2) by simp
  then have "map_option snd (translate s (v + of_nat (k + i))) = Some (p + of_nat (k + i))"
    using assms(1) by (simp only: stays_mapped_def)
  then show "map_option snd (translate s (v + of_nat k + of_nat i)) = Some (p + of_nat k + of_nat i)"
    by (simp add: add.assoc)
qed

text \<open>The array of entries, at \<open>ep\<close> in physical memory.\<close>

definition entries_addr :: "acpi \<Rightarrow> addr" where
  "entries_addr a = (case sdt_kind a of RSDT \<Rightarrow> rsdt_entries a | XSDT \<Rightarrow> xsdt_entries a)"

definition entry_bytes :: "acpi \<Rightarrow> nat" where
  "entry_bytes a = (case sdt_kind a of RSDT \<Rightarrow> 4 | XSDT \<Rightarrow> 8)"

definition listed :: "mem \<Rightarrow> acpi \<Rightarrow> addr \<Rightarrow> nat \<Rightarrow> addr" where
  "listed phys a ep i = (case sdt_kind a of RSDT \<Rightarrow> ucast (stored32 phys (ep + of_nat (4 * i)))
     | XSDT \<Rightarrow> stored phys 8 (ep + of_nat (8 * i)))"

lemma sdt_entry_listed:
  assumes "stays_mapped X s (entries_addr a) ep (entry_bytes a * c)" "i < c"
  shows "sdt_entry phys a i s = Inr (listed phys a ep i)"
proof (cases "sdt_kind a")
  case RSDT
  have "4 * i + 4 \<le> entry_bytes a * c" using assms(2) by (simp add: RSDT entry_bytes_def)
  from stays_mapped_reads [OF assms(1) this, of phys] show ?thesis
    by (simp add: sdt_entry_def listed_def vload32_def stored32_def RSDT entries_addr_def)
next
  case XSDT
  have "8 * i + 8 \<le> entry_bytes a * c" using assms(2) by (simp add: XSDT entry_bytes_def)
  from stays_mapped_reads [OF assms(1) this, of phys] show ?thesis
    by (simp add: sdt_entry_def listed_def XSDT entries_addr_def)
qed

text \<open>The kernel while it looks for a table.\<close>

definition searching_tables :: "addr \<Rightarrow> addr \<Rightarrow> addr \<Rightarrow> addr \<Rightarrow> addr \<Rightarrow> nat \<Rightarrow> acpi \<Rightarrow> addr \<Rightarrow> nat \<Rightarrow> kmem \<Rightarrow> bool" where
  "searching_tables P T3 T2 T1 base m a ep c s \<longleftrightarrow> probe_ready P T3 T2 T1 base m s \<and>
     stays_mapped (run_ptes T1 base m) s (entries_addr a) ep (entry_bytes a * c)"

lemma probe_searching:
  assumes "searching_tables P T3 T2 T1 base m a ep c s" "unat p + 36 \<le> 2 ^ 51"
  shows "\<exists>v s1 s2. create_virt_mapping p (of_nat SDT_HEADER_SIZE) 0 s = Inr (v, s1) \<and> v \<noteq> 0 \<and>
    vload32 phys v s1 = Inr (stored32 phys p) \<and> vload32 phys (v + 4) s1 = Inr (stored32 phys (p + 4)) \<and>
    delete_virt_mapping v (of_nat SDT_HEADER_SIZE) s1 = Inr s2 \<and> searching_tables P T3 T2 T1 base m a ep c s2"
proof -
  have r: "probe_ready P T3 T2 T1 base m s" using assms(1) by (simp add: searching_tables_def)
  from probe_header [OF r assms(2)] obtain v s1 s2 where
    v: "create_virt_mapping p 36 0 s = Inr (v, s1)" "v \<noteq> 0"
      "\<forall>i < 36. map_option snd (translate s1 (v + of_nat i)) = Some (p + of_nat i)"
      "delete_virt_mapping v 36 s1 = Inr s2" "probe_ready P T3 T2 T1 base m s2"
      "\<forall>x. x \<notin> run_ptes T1 base m \<longrightarrow> pt s1 x = pt s x \<and> pt s2 x = pt s x" by blast
  have "vload32 phys v s1 = Inr (stored32 phys p)" by (rule vload32_mapped) (use v(3) in simp)
  moreover have "vload32 phys (v + 4) s1 = Inr (stored32 phys (p + 4))"
  proof (rule vload32_mapped)
    fix i :: nat assume "i < 4"
    then show "map_option snd (translate s1 (v + 4 + of_nat i)) = Some (p + 4 + of_nat i)"
      using v(3) [rule_format, of "4 + i"] by (simp add: algebra_simps)
  qed
  moreover have "pml4_of s2 = pml4_of s" using r v(5) by (simp add: probe_ready_def mappable_def)
  then have "searching_tables P T3 T2 T1 base m a ep c s2"
    using assms(1) v(5, 6) by (auto simp: searching_tables_def intro: stays_mapped_outside)
  ultimately show ?thesis using v(1, 2, 4) by (simp add: SDT_HEADER_SIZE_def)
qed

lemma find_table_finds:
  assumes "searching_tables P T3 T2 T1 base m a ep c s" "\<forall>i \<in> set is. i < c \<and> unat (listed phys a ep i) + 36 \<le> 2 ^ 51"
  shows "\<exists>s'. find_table phys sig a is s =
      Inr (map_option (\<lambda>i. (listed phys a ep i, stored32 phys (listed phys a ep i + 4)))
             (List.find (\<lambda>i. stored32 phys (listed phys a ep i) = sig) is), s') \<and>
    searching_tables P T3 T2 T1 base m a ep c s'"
  using assms
proof (induction "is" arbitrary: s)
  case (Cons i "is")
  let ?p = "listed phys a ep i"
  have e: "sdt_entry phys a i s = Inr ?p"
    using Cons.prems by (intro sdt_entry_listed) (auto simp: searching_tables_def)
  from probe_searching [OF Cons.prems(1), of ?p phys] Cons.prems(2) obtain v s1 s2 where
    v: "create_virt_mapping ?p (of_nat SDT_HEADER_SIZE) 0 s = Inr (v, s1)" "v \<noteq> 0"
      "vload32 phys v s1 = Inr (stored32 phys ?p)" "vload32 phys (v + 4) s1 = Inr (stored32 phys (?p + 4))"
      "delete_virt_mapping v (of_nat SDT_HEADER_SIZE) s1 = Inr s2" "searching_tables P T3 T2 T1 base m a ep c s2"
    by auto
  from Cons.IH [OF v(6)] Cons.prems(2) show ?case by (auto simp: e v)
qed simp

text \<open>
  C20. \<open>get_acpi_table\<close> finds the first table with the signature, through however many entries: when no
  table has it the answer is no, otherwise the result's address is that of the table's body, behind
  the header, at which the page walk finds the table's bytes, and the length is the body's. The
  entries may be 32 bits (RSDT) or 64 bits (XSDT) long; the table may take as many pages as there
  are free ones in the page table.
\<close>

theorem get_acpi_table_finds:
  assumes "searching_tables P T3 T2 T1 base m a ep (unat (sdt_entry_count a)) s"
    and "\<forall>i < unat (sdt_entry_count a). listed phys a ep i \<noteq> 0 \<and> unat (listed phys a ep i) + 36 \<le> 2 ^ 51"
  shows "case List.find (\<lambda>i. stored32 phys (listed phys a ep i) = sig) [0..<unat (sdt_entry_count a)] of
      None \<Rightarrow> \<exists>s'. get_acpi_table phys sig a s = Inr (None, s')
    | Some i \<Rightarrow> let p = listed phys a ep i; len = unat (stored32 phys (p + 4))
        in 36 \<le> len \<and> unat p + len \<le> 2 ^ 51 \<and> (unat p mod 0x1000 + (len - 1)) div 0x1000 + 2 \<le> m \<longrightarrow>
           (\<exists>t s'. get_acpi_table phys sig a s = Inr (Some t, s') \<and> unat (sdt_length t) = len - 36 \<and>
             (\<forall>j < len - 36. map_option snd (translate s' (sdt_addr t + of_nat j)) = Some (p + 36 + of_nat j)))"
    (is "case ?hit of None \<Rightarrow> ?none | Some i \<Rightarrow> ?some i")
proof -
  let ?c = "unat (sdt_entry_count a)"
  from find_table_finds [OF assms(1), of "[0..<?c]" phys sig] assms(2) obtain s1 where
    f: "find_table phys sig a [0..<?c] s =
      Inr (map_option (\<lambda>i. (listed phys a ep i, stored32 phys (listed phys a ep i + 4))) ?hit, s1)"
    and r: "probe_ready P T3 T2 T1 base m s1" by (auto simp: searching_tables_def)
  have "?some i" if hit: "?hit = Some i" for i
  proof -
    define p where "p = listed phys a ep i"
    define sz where "sz = stored32 phys (p + 4)"
    have "i < ?c" using hit by (auto simp: find_Some_iff)
    then have p: "p \<noteq> 0" using assms(2) by (simp add: p_def)
    have "\<exists>t s'. get_acpi_table phys sig a s = Inr (Some t, s') \<and> unat (sdt_length t) = unat sz - 36 \<and>
        (\<forall>j < unat sz - 36. map_option snd (translate s' (sdt_addr t + of_nat j)) = Some (p + 36 + of_nat j))"
      if len: "36 \<le> unat sz" "unat p + unat sz \<le> 2 ^ 51" "(unat p mod 0x1000 + (unat sz - 1)) div 0x1000 + 2 \<le> m"
    proof -
      let ?v = "base + of_nat (unat p mod 0x1000)"
      have u: "unat (ucast sz :: u64) = unat sz" using unat_u32_less [of sz] by (simp add: unsigned_ucast_eq take_bit_eq_mod)
      from create_virt_mapping_ready [where sz = "ucast sz" and p = p, OF r, unfolded u, OF _ len(2) refl] len
      obtain s2 where s2: "create_virt_mapping p (ucast sz) 0 s1 = Inr (?v, s2)" "?v \<noteq> 0"
        "\<forall>j < unat sz. map_option snd (translate s2 (?v + of_nat j)) = Some (p + of_nat j)"
        by auto
      let ?t = "\<lparr>sdt_addr = ?v + of_nat SDT_HEADER_SIZE, sdt_length = sz - of_nat SDT_HEADER_SIZE\<rparr>"
      have "get_acpi_table phys sig a s = Inr (Some ?t, s2)"
        using p s2(1, 2) by (simp add: get_acpi_table_def f hit flip: p_def sz_def)
      moreover have "unat (sz - 36) = unat sz - 36"
        using len(1) by (subst unat_sub_no_wrap) (simp_all add: word_le_nat_alt)
      moreover have "map_option snd (translate s2 (?v + 36 + of_nat j)) = Some (p + 36 + of_nat j)" if "j < unat sz - 36" for j
        using s2(3) [rule_format, of "36 + j"] that by (simp add: algebra_simps)
      ultimately show ?thesis by (intro exI [of _ ?t] exI [of _ s2]) (simp add: SDT_HEADER_SIZE_def)
    qed
    then show ?thesis by (simp only: Let_def flip: p_def sz_def) blast
  qed
  moreover have ?none if "?hit = None" using f that by (simp add: get_acpi_table_def)
  ultimately show ?thesis by (cases ?hit) auto
qed

text \<open>
  Firmware tables: an XSDT at \<open>0x7000\<close> in the second page of \<open>demo_space\<close>, which lists a table
  at \<open>0x8000\<close> and an MCFG table of 60 bytes at \<open>0x9000\<close>.
\<close>

definition demo_tables :: mem where
  "demo_tables = (\<lambda>_. 0)(0x7025 := 0x80, 0x702D := 0x90, 0x9000 := 0x4D, 0x9001 := 0x43, 0x9002 := 0x46, 0x9003 := 0x47, 0x9004 := 60)"

definition demo_acpi :: acpi where
  "demo_acpi = \<lparr>sdt_kind = XSDT, rsdt_entries = 0, xsdt_entries = 0xFFFFFF1000001024, sdt_entry_count = 2\<rparr>"

definition demo_tables_space :: kmem where
  "demo_tables_space = demo_space\<lparr>virt_mmap :=
     \<lparr>memory_ranges = [\<lparr>base_addr = 0xFFFFFF1000002000, pages = 8\<rparr>], range_count = 1, max_range_count = 1\<rparr>\<rparr>"

lemma demo_tables_window: "window 0x1000 0x2000 0x3000 0x4000 0xFFFFFF1000002000 3"
proof -
  have s: "separate 0x1000 0x2000 0x3000 0x4000 0xFFFFFF1000002000" "separate 0x1000 0x2000 0x3000 0x4000 0xFFFFFF1000003000"
    "separate 0x1000 0x2000 0x3000 0x4000 0xFFFFFF1000004000"
    by (simp_all add: separate_def entry_of_def pt_index_def mask9)
  have "separate 0x1000 0x2000 0x3000 0x4000 (page_at 0xFFFFFF1000002000 k)" if "k < 3" for k
  proof -
    have "k = 0 \<or> k = 1 \<or> k = 2" using that by linarith
    then show ?thesis using s by (elim disjE) (simp_all add: page_at_def)
  qed
  then show ?thesis by (simp add: window_def mask_eq_exp_minus_1)
qed

lemma demo_tables_searching:
  "searching_tables 0x1000 0x2000 0x3000 0x4000 0xFFFFFF1000002000 3 demo_acpi 0x7024 2 demo_tables_space"
proof -
  have "tables 0x1000 0x2000 0x3000 0x4000 0xFFFFFF1000002000 (pt demo_paging)"
    by (simp add: tables_def table_entry_def entry_of_def pt_index_def mask9 demo_paging_def frame_mask_def)
  then have "probe_ready 0x1000 0x2000 0x3000 0x4000 0xFFFFFF1000002000 3 demo_tables_space"
    using demo_tables_window demo_paging_facts(3, 5)
    by (auto simp: probe_ready_def mappable_def demo_tables_space_def demo_space_def pml4_of_def plain_flags_def
        entry_of_def pt_index_def mask9 demo_paging_def bit_simps)
  moreover have "stays_mapped (run_ptes 0x4000 0xFFFFFF1000002000 3) demo_tables_space 0xFFFFFF1000001024 0x7024 16"
    unfolding stays_mapped_def
  proof (intro allI impI)
    fix i :: nat assume "i < 16"
    then have i: "36 + i < 0x1000" by simp
    have "run_ptes 0x4000 0xFFFFFF1000002000 3 = {0x4010, 0x4018, 0x4020}"
      by (simp add: run_ptes_def lessThan_nat_numeral lessThan_Suc page_at_def entry_of_def pt_index_def mask9) blast
    moreover have "pt demo_tables_space = pt demo_space" "pml4_of demo_tables_space = 0x1000"
      "translate demo_tables_space u = translate demo_space u" for u
      using demo_paging_facts(3) by (simp_all add: demo_tables_space_def demo_space_def pml4_of_def translate_def)
    ultimately show "map_option snd (translate demo_tables_space (0xFFFFFF1000001024 + of_nat i)) = Some (0x7024 + of_nat i) \<and>
      set (walk_path (pt demo_tables_space) 3 (pml4_of demo_tables_space) (0xFFFFFF1000001024 + of_nat i)) \<inter>
        run_ptes 0x4000 0xFFFFFF1000002000 3 = {}"
      using demo_space_reads [OF i] demo_space_path [OF i] by simp
  qed
  ultimately show ?thesis
    by (simp add: searching_tables_def demo_acpi_def entries_addr_def entry_bytes_def)
qed

theorem get_acpi_table_finds_witness:
  "\<exists>t s'. get_acpi_table demo_tables ACPI_SIGNATURE_MCFG demo_acpi demo_tables_space = Inr (Some t, s') \<and>
     unat (sdt_length t) = 24 \<and>
     (\<forall>j < 24. map_option snd (translate s' (sdt_addr t + of_nat j)) = Some (0x9024 + of_nat j))"
proof -
  have l: "listed demo_tables demo_acpi 0x7024 0 = 0x8000" "listed demo_tables demo_acpi 0x7024 1 = 0x9000"
    by (simp_all add: listed_def demo_acpi_def stored_numeral demo_tables_def)
  have st: "stored32 demo_tables 0x8000 = 0" "stored32 demo_tables 0x9000 = ACPI_SIGNATURE_MCFG" "stored32 demo_tables 0x9004 = 60"
    by (simp_all add: stored32_def stored_numeral demo_tables_def ACPI_SIGNATURE_MCFG_def)
  have hit: "List.find (\<lambda>i. stored32 demo_tables (listed demo_tables demo_acpi 0x7024 i) = ACPI_SIGNATURE_MCFG) [0..<2] = Some 1"
    using l st by (simp add: upt_rec [of _ "2 :: nat"] ACPI_SIGNATURE_MCFG_def)
  have c: "unat (sdt_entry_count demo_acpi) = 2" by (simp add: demo_acpi_def)
  have "\<forall>i < 2. listed demo_tables demo_acpi 0x7024 i \<noteq> 0 \<and> unat (listed demo_tables demo_acpi 0x7024 i) + 36 \<le> 2 ^ 51"
    using l by (auto simp: less_2_cases_iff)
  from get_acpi_table_finds [where a = demo_acpi, unfolded c, OF demo_tables_searching this, of ACPI_SIGNATURE_MCFG]
  show ?thesis by (simp only: hit) (simp add: Let_def l(2) [unfolded One_nat_def] st)
qed

end
