(* ===== verification/Pci.thy ===== *)
theory Pci
  imports Acpi
begin

text \<open>
  The PCI express code, \<^verbatim>\<open>src/kernel/pci.c\<close>: the addresses of a function's configuration space, the
  sizing of its base address registers, and the search for the functions present. A function's
  header is a record of the registers the code touches; what a device keeps of a value written to one
  of its base address registers is the device's, the parameter \<open>latch\<close>.
\<close>

section \<open>Data\<close>

definition PCI_HEADER_TYPE_MF_MASK :: u8 where "PCI_HEADER_TYPE_MF_MASK = 0x80"
definition PCI_HEADER_TYPE_MASK :: int where "PCI_HEADER_TYPE_MASK = 0xFF7F"
definition PCI_CONF_OFFS_BARS :: nat where "PCI_CONF_OFFS_BARS = 0x10"
definition PCI_CONF0_OFFS_BARS_END :: nat where "PCI_CONF0_OFFS_BARS_END = 0x28"
definition PCI_CONF1_OFFS_BARS_END :: nat where "PCI_CONF1_OFFS_BARS_END = 0x18"

text \<open>The 32-bit registers from the first base address register on, by number.\<close>

record pci_config0_header =
  vendor_id :: u16
  command :: u16
  header_type :: u8
  bar_regs :: "nat \<Rightarrow> u32"

record pci_bar_desc =
  bar_addr :: addr
  bar_sz :: u64
  is_prefetchable :: bool
  is_io_space :: bool

record pci_dev_desc =
  dev_conf :: addr
  dev_bars :: "pci_bar_desc list"

record pci_segment_group_desc =
  group_paddr :: addr
  group_vaddr :: addr
  start_bus_num :: u8
  end_bus_num :: u8

text \<open>\<open>pci_devices\<close> is the array's content, \<open>devices_addr\<close> where it is.\<close>

record pci_state =
  groups :: "pci_segment_group_desc list"
  group_count :: u32
  devices_addr :: addr
  pci_devices :: "pci_dev_desc list"
  device_capacity :: u64

type_synonym latch = "nat \<Rightarrow> u32 \<Rightarrow> u32"
type_synonym config_space = "addr \<Rightarrow> pci_config0_header"

section \<open>Base address registers\<close>

definition write_reg :: "latch \<Rightarrow> nat \<Rightarrow> u32 \<Rightarrow> pci_config0_header \<Rightarrow> pci_config0_header" where
  "write_reg latch i v h = h\<lparr>bar_regs := (bar_regs h)(i := latch i v)\<rparr>"

definition write_reg64 :: "latch \<Rightarrow> nat \<Rightarrow> u64 \<Rightarrow> pci_config0_header \<Rightarrow> pci_config0_header" where
  "write_reg64 latch i v h = write_reg latch (Suc i) (ucast (drop_bit 32 v)) (write_reg latch i (ucast v) h)"

definition read_reg64 :: "nat \<Rightarrow> pci_config0_header \<Rightarrow> u64" where
  "read_reg64 i h = ucast (bar_regs h i) OR push_bit 32 (ucast (bar_regs h (Suc i)))"

definition bar_size :: "latch \<Rightarrow> nat \<Rightarrow> bool \<Rightarrow> pci_config0_header \<Rightarrow> u64 \<times> pci_config0_header" where
  "bar_size latch i is_64bit h =
     (if is_64bit
      then let old_val = read_reg64 i h;
               h = write_reg64 latch i 0xFFFFFFFFFFFFFFFF h;
               ret = read_reg64 i h;
               ret = ret AND NOT 0xF;
               ret = NOT ret;
               ret = ret + 1
           in (ret, write_reg64 latch i old_val h)
      else let old_val = bar_regs h i;
               h = write_reg latch i 0xFFFFFFFF h;
               ret = bar_regs h i;
               ret = ret AND NOT 0xF;
               ret = NOT ret;
               ret = ret + 1
           in (ucast ret, write_reg latch i old_val h))"

definition no_bar :: pci_bar_desc where
  "no_bar = \<lparr>bar_addr = 0, bar_sz = 0, is_prefetchable = False, is_io_space = False\<rparr>"

function scan_bars :: "latch \<Rightarrow> nat \<Rightarrow> nat \<Rightarrow> pci_bar_desc list \<times> pci_config0_header \<Rightarrow> pci_bar_desc list \<times> pci_config0_header" where
  "scan_bars latch bars_sz offset (ds, h) =
     (if offset < bars_sz
      then let bar = bar_regs h offset
           in if bar = 0 \<or> bar AND 0x7 = 0x2 then scan_bars latch bars_sz (Suc offset) (ds, h)
              else let d = ds ! offset;
                       d = (if bar AND 1 \<noteq> 0 then d\<lparr>is_io_space := True\<rparr>
                            else if bar AND 0x8 \<noteq> 0 then d\<lparr>is_prefetchable := True\<rparr> else d)
                   in if bar AND 0x7 = 0x4
                      then case bar_size latch offset True h of (sz, h) \<Rightarrow>
                           scan_bars latch bars_sz (offset + 2)
                             (ds[offset := d\<lparr>bar_sz := sz, bar_addr := read_reg64 offset h\<rparr>], h)
                      else case bar_size latch offset False h of (sz, h) \<Rightarrow>
                           scan_bars latch bars_sz (Suc offset)
                             (ds[offset := d\<lparr>bar_sz := sz, bar_addr := ucast (bar_regs h offset)\<rparr>], h)
      else (ds, h))"
  by pat_completeness auto
termination
  by (relation "measure (\<lambda>(_, bars_sz, offset, _). bars_sz - offset)") auto

text \<open>How many registers a header of the given type has; other types have none that are known.\<close>

definition bar_count :: "u8 \<Rightarrow> nat option" where
  "bar_count t =
     (if uint t AND PCI_HEADER_TYPE_MASK = 0 then Some ((PCI_CONF0_OFFS_BARS_END - PCI_CONF_OFFS_BARS) div 4)
      else if uint t AND PCI_HEADER_TYPE_MASK = 1 then Some ((PCI_CONF1_OFFS_BARS_END - PCI_CONF_OFFS_BARS) div 4)
      else None)"

definition make_dev_desc :: "latch \<Rightarrow> addr \<Rightarrow> pci_config0_header \<Rightarrow> pci_dev_desc \<times> pci_config0_header" where
  "make_dev_desc latch conf h =
     (let ret = \<lparr>dev_conf = conf, dev_bars = replicate 6 no_bar\<rparr>
      in case bar_count (header_type h) of
           None \<Rightarrow> (ret, h)
         | Some bars_sz \<Rightarrow>
             let cmd = command h;
                 h = h\<lparr>command := 0\<rparr>
             in case scan_bars latch bars_sz 0 (dev_bars ret, h) of (ds, h) \<Rightarrow>
                (ret\<lparr>dev_bars := ds\<rparr>, h\<lparr>command := cmd\<rparr>))"

section \<open>Finding the functions\<close>

text \<open>\<^verbatim>\<open>PCIE_CONF_ADDR\<close>; the bus number is an \<^verbatim>\<open>int\<close> when the start of the group is subtracted.\<close>

definition PCIE_CONF_ADDR :: "pci_segment_group_desc \<Rightarrow> int \<Rightarrow> int \<Rightarrow> int \<Rightarrow> u64 \<Rightarrow> addr" where
  "PCIE_CONF_ADDR g bus dev fun off =
     group_vaddr g + of_int (push_bit 20 (bus - uint (start_bus_num g))) + of_int (push_bit 15 dev) +
     of_int (push_bit 12 fun) + off"

definition sizeof_dev_desc :: u64 where "sizeof_dev_desc = 152"

text \<open>
  \<open>add_device\<close> is the body of the search for a function that is present: room is made in the array,
  then its description is appended. A loop body's \<open>False\<close> is the early \<^verbatim>\<open>return false\<close>.
\<close>

type_synonym search = "config_space \<times> pci_state \<times> kmem"

definition add_device :: "(addr \<Rightarrow> latch) \<Rightarrow> addr \<Rightarrow> search \<Rightarrow> (bool \<times> search) res" where
  "add_device latch header = (\<lambda>(cfg, st, s).
     bindR (if of_nat (length (pci_devices st)) = device_capacity st
            then bindR (krealloc (devices_addr st) (2 * device_capacity st * sizeof_dev_desc) s) (\<lambda>(new_devs, s).
                 if new_devs = 0 then bindR (kfree (devices_addr st) s) (\<lambda>s. Inr (False, st, s))
                 else Inr (True, st\<lparr>devices_addr := new_devs, device_capacity := device_capacity st * 2\<rparr>, s))
            else Inr (True, st, s)) (\<lambda>(ok, st, s).
     if \<not> ok then Inr (False, cfg, st, s)
     else case make_dev_desc (latch header) header (cfg header) of (d, h) \<Rightarrow>
          Inr (True, cfg(header := h), st\<lparr>pci_devices := pci_devices st @ [d]\<rparr>, s)))"

fun while_ok :: "('a \<Rightarrow> 's \<Rightarrow> (bool \<times> 's) res) \<Rightarrow> 'a list \<Rightarrow> 's \<Rightarrow> (bool \<times> 's) res" where
  "while_ok f [] s = Inr (True, s)"
| "while_ok f (x # xs) s = bindR (f x s) (\<lambda>(ok, s). if ok then while_ok f xs s else Inr (False, s))"

definition visit_function :: "(addr \<Rightarrow> latch) \<Rightarrow> addr \<Rightarrow> search \<Rightarrow> (bool \<times> search) res" where
  "visit_function latch header = (\<lambda>(cfg, st, s).
     if vendor_id (cfg header) = 0xFFFF then Inr (True, cfg, st, s) else add_device latch header (cfg, st, s))"

definition visit_device :: "(addr \<Rightarrow> latch) \<Rightarrow> pci_segment_group_desc \<Rightarrow> int \<Rightarrow> int \<Rightarrow> search \<Rightarrow> (bool \<times> search) res" where
  "visit_device latch g bus dev = (\<lambda>(cfg, st, s).
     let header = PCIE_CONF_ADDR g bus dev 0 0
     in if vendor_id (cfg header) = 0xFFFF then Inr (True, cfg, st, s)
        else bindR (add_device latch header (cfg, st, s)) (\<lambda>(ok, cfg, st, s).
          if \<not> ok then Inr (False, cfg, st, s)
          else if header_type (cfg header) AND PCI_HEADER_TYPE_MF_MASK \<noteq> 0
          then while_ok (\<lambda>fun. visit_function latch (PCIE_CONF_ADDR g bus dev fun 0)) [1..7] (cfg, st, s)
          else Inr (True, cfg, st, s)))"

definition find_devices :: "(addr \<Rightarrow> latch) \<Rightarrow> search \<Rightarrow> (bool \<times> search) res" where
  "find_devices latch = (\<lambda>(cfg, st, s).
     bindR (kmalloc (2 * sizeof_dev_desc) s) (\<lambda>(devs, s).
     let st = st\<lparr>devices_addr := devs\<rparr>
     in if devs = 0 then Inr (False, cfg, st, s)
        else while_ok (\<lambda>g. while_ok (\<lambda>bus. while_ok (visit_device latch g bus) [0..31])
               [uint (start_bus_num g)..uint (end_bus_num g) - 1]) (take (unat (group_count st)) (groups st))
               (cfg, st\<lparr>device_capacity := 2, pci_devices := []\<rparr>, s)))"

section \<open>Start-up\<close>

definition sizeof_segment_group_desc :: u64 where "sizeof_segment_group_desc = 24"

text \<open>One group: its entry of the MCFG table at \<open>base\<close>, and a mapping for its buses.\<close>

definition init_group :: "mem \<Rightarrow> addr \<Rightarrow> pci_state \<times> kmem \<Rightarrow> (bool \<times> pci_state \<times> kmem) res" where
  "init_group phys base = (\<lambda>(st, s).
     bindR (vload phys 8 base s) (\<lambda>paddr.
     bindR (vload8 phys (base + 10) s) (\<lambda>start_bus.
     bindR (vload8 phys (base + 11) s) (\<lambda>end_bus.
     bindR (create_virt_mapping paddr (of_int ((uint end_bus - uint start_bus) * 0x100000))
         (PAGING_FLAG_PAGE_LEVEL_CACHE_DISABLE OR PAGING_FLAG_READ_WRITE) s) (\<lambda>(vaddr, s).
     Inr (vaddr \<noteq> 0, st\<lparr>groups := groups st @ [\<lparr>group_paddr = paddr, group_vaddr = vaddr,
       start_bus_num = start_bus, end_bus_num = end_bus\<rparr>]\<rparr>, s))))))"

text \<open>The loop's counter has 16 bits, the number of groups 32.\<close>

partial_function (option) init_groups :: "mem \<Rightarrow> addr \<Rightarrow> u16 \<Rightarrow> pci_state \<times> kmem \<Rightarrow> (bool \<times> pci_state \<times> kmem) res option" where
  "init_groups phys base_addrs i t =
     (if ucast i < group_count (fst t)
      then case init_group phys (base_addrs + 16 * ucast i) t of
          Inl e \<Rightarrow> Some (Inl e)
        | Inr (ok, t) \<Rightarrow> if ok then init_groups phys base_addrs (i + 1) t else Some (Inr (False, t))
      else Some (Inr (True, t)))"

definition init_pci :: "(addr \<Rightarrow> latch) \<Rightarrow> mem \<Rightarrow> acpi \<Rightarrow> search \<Rightarrow> (bool \<times> search) res" where
  "init_pci latch phys acpi = (\<lambda>(cfg, st, s).
     bindR (get_acpi_table phys ACPI_SIGNATURE_MCFG acpi s) (\<lambda>(mcfg, s).
     case mcfg of
       None \<Rightarrow> Inr (False, cfg, st, s)
     | Some mcfg \<Rightarrow>
         let base_addrs = sdt_addr mcfg + 8;
             st = st\<lparr>group_count := (sdt_length mcfg - 8) div 16\<rparr>
         in bindR (kmalloc (ucast (group_count st) * sizeof_segment_group_desc) s) (\<lambda>(gs, s).
            if gs = 0 then Inr (False, cfg, st, s)
            else bindR (or_hang (init_groups phys base_addrs 0 (st\<lparr>groups := []\<rparr>, s))) (\<lambda>(ok, st, s).
              if ok then find_devices latch (cfg, st, s) else Inr (False, cfg, st, s)))))"

section \<open>What a base address register says\<close>

text \<open>
  The registers of the PCI specification: what one holds when the range it decodes has \<open>2^k\<close> bytes
  and is at \<open>b\<close>, and what it keeps of a value written to it, which is how the size is found out.
\<close>

datatype bar = Unused | Mem32 u32 nat bool | Mem64 u64 nat bool | Io u32 nat

definition prefetch_flag :: "bool \<Rightarrow> 'a::len word" where
  "prefetch_flag pf = (if pf then 8 else 0)"

fun bar_content :: "bar \<Rightarrow> u32 list" where
  "bar_content Unused = [0]"
| "bar_content (Mem32 b k pf) = [b OR prefetch_flag pf]"
| "bar_content (Mem64 b k pf) = [ucast b OR (4 OR prefetch_flag pf), ucast (drop_bit 32 b)]"
| "bar_content (Io b k) = [b OR 1]"

fun bar_latch :: "bar \<Rightarrow> (u32 \<Rightarrow> u32) list" where
  "bar_latch Unused = [\<lambda>v. 0]"
| "bar_latch (Mem32 b k pf) = [\<lambda>v. (v AND NOT (mask k)) OR prefetch_flag pf]"
| "bar_latch (Mem64 b k pf) = [\<lambda>v. (v AND NOT (mask k)) OR (4 OR prefetch_flag pf), \<lambda>v. v AND NOT (mask (k - 32))]"
| "bar_latch (Io b k) = [\<lambda>v. (v AND NOT (mask k)) OR 1]"

fun bar_ok :: "bar \<Rightarrow> bool" where
  "bar_ok Unused = True"
| "bar_ok (Mem32 b k pf) = (4 \<le> k \<and> k < 32 \<and> b AND mask k = 0 \<and> b \<noteq> 0)"
| "bar_ok (Mem64 b k pf) = (4 \<le> k \<and> k < 64 \<and> b AND mask k = 0)"
| "bar_ok (Io b k) = (2 \<le> k \<and> k < 32 \<and> b AND mask k = 0)"

fun bar_descs :: "bar \<Rightarrow> pci_bar_desc list" where
  "bar_descs Unused = [no_bar]"
| "bar_descs (Mem32 b k pf) =
     [\<lparr>bar_addr = ucast (b OR prefetch_flag pf), bar_sz = 2 ^ k, is_prefetchable = pf, is_io_space = False\<rparr>]"
| "bar_descs (Mem64 b k pf) =
     [\<lparr>bar_addr = b OR (4 OR prefetch_flag pf), bar_sz = 2 ^ k, is_prefetchable = pf, is_io_space = False\<rparr>, no_bar]"
| "bar_descs (Io b k) =
     [\<lparr>bar_addr = ucast (b OR 1), bar_sz = 2 ^ max 4 k, is_prefetchable = False, is_io_space = True\<rparr>]"

declare scan_bars.simps [simp del]

lemma ones_mask: "(0xFFFFFFFF :: u32) = mask 32" "(0xFFFFFFFFFFFFFFFF :: u64) = mask 64" "(0xF :: 'a::len word) = mask 4"
  by (simp_all add: mask_eq_exp_minus_1)

lemma mask_plus_1: "mask k + 1 = (2 :: 'a::len word) ^ k"
  by (simp add: mask_eq_exp_minus_1)

lemma low_flags:
  assumes "\<And>n. bit (f :: 'a::len word) n \<Longrightarrow> n < 4"
  shows "NOT (((mask LENGTH('a) AND NOT (mask k)) OR f) AND NOT (mask 4)) = mask (max 4 k)"
  using assms by (intro bit_word_eqI) (auto simp: bit_simps)

lemma masked_bits:
  assumes "(b :: 'a::len word) AND mask k = 0" "bit b n"
  shows "k \<le> n"
proof (rule ccontr)
  assume "\<not> k \<le> n"
  then have "bit (b AND mask k) n" using assms(2) bit_imp_le_length [OF assms(2)] by (simp add: bit_simps)
  then show False by (simp add: assms(1))
qed

lemma bar_size_32:
  assumes "latch i = (\<lambda>v. (v AND NOT (mask k)) OR f)" "\<And>n. bit f n \<Longrightarrow> n < 4" "k < 32"
    "bar_regs h i = b OR f" "b AND mask k = 0"
  shows "bar_size latch i False h = (2 ^ max 4 k, h)"
proof -
  have same: "(b OR f) AND NOT (mask k) OR f = b OR f"
    by (intro bit_word_eqI) (auto simp: bit_simps dest: masked_bits [OF assms(5)])
  have "NOT ((((mask 32 :: u32) AND NOT (mask k)) OR f) AND NOT (mask 4)) + 1 = 2 ^ max 4 k"
    using low_flags [of f k] assms(2) by (simp add: mask_plus_1)
  moreover have "ucast (2 ^ max 4 k :: u32) = (2 :: u64) ^ max 4 k"
    using assms(3) by (intro bit_word_eqI) (auto simp: bit_simps)
  moreover have "h\<lparr>bar_regs := (bar_regs h)(i := b OR f)\<rparr> = h" using assms(4) by (cases h) auto
  ultimately show ?thesis
    by (simp add: bar_size_def write_reg_def Let_def assms(1, 4) same ones_mask)
qed

lemma halves:
  fixes x :: u64
  shows "ucast (ucast x :: u32) OR push_bit 32 (ucast (ucast (drop_bit 32 x) :: u32)) = x"
  by (intro bit_word_eqI) (auto simp: bit_simps)

lemma bar_size_64:
  assumes lo: "latch i = (\<lambda>v. (v AND NOT (mask k)) OR ucast f)" and hi: "latch (Suc i) = (\<lambda>v. v AND NOT (mask (k - 32)))"
    and f: "\<And>n. bit (f :: u64) n \<Longrightarrow> n < 4" and k: "4 \<le> k" "k < 64"
    and regs: "bar_regs h i = ucast (b OR f)" "bar_regs h (Suc i) = ucast (drop_bit 32 b)" and b: "b AND mask k = 0"
  shows "bar_size latch i True h = (2 ^ k, h)" "read_reg64 i h = b OR f"
proof -
  have hi_f: "drop_bit 32 (b OR f) = drop_bit 32 b"
    using f by (intro bit_word_eqI) (fastforce simp: bit_simps)
  then show old: "read_reg64 i h = b OR f"
    using halves [of "b OR f"] by (simp add: read_reg64_def regs)
  have z: "\<not> (bit b n \<and> n < k)" "\<not> (bit b (32 + n) \<and> n < k - 32)" for n
    using masked_bits [OF b, of n] masked_bits [OF b, of "32 + n"] by auto
  have lo_old: "(ucast (b OR f) AND NOT (mask k)) OR ucast f = (ucast (b OR f) :: u32)"
    using z by (intro bit_word_eqI) (auto simp: bit_simps)
  have hi_old: "ucast (drop_bit 32 b) AND NOT (mask (k - 32)) = (ucast (drop_bit 32 b) :: u32)"
    using z by (intro bit_word_eqI) (auto simp: bit_simps)
  have "ucast ((mask 32 AND NOT (mask k)) OR ucast f :: u32) OR push_bit 32 (ucast (mask 32 AND NOT (mask (k - 32)) :: u32))
      = (mask 64 AND NOT (mask k)) OR f"
    using f k by (intro bit_word_eqI) (fastforce simp: bit_simps)
  moreover have "NOT (((mask 64 AND NOT (mask k)) OR f) AND NOT (mask 4)) + 1 = 2 ^ k"
    using low_flags [of f k] f k(1) by (simp add: mask_plus_1 max_def)
  ultimately have sz: "NOT ((ucast ((mask 32 AND NOT (mask k)) OR ucast f :: u32) OR
      push_bit 32 (ucast (mask 32 AND NOT (mask (k - 32)) :: u32))) AND NOT (mask 4)) + 1 = (2 :: u64) ^ k" by simp
  have ones: "ucast (mask 64 :: u64) = (mask 32 :: u32)" "ucast (drop_bit 32 (mask 64 :: u64)) = (mask 32 :: u32)"
    by (simp_all add: mask_eq_exp_minus_1)
  have restored: "write_reg64 latch i (b OR f) (write_reg64 latch i v h) = h" for v
  proof -
    have "(bar_regs h)(i := ucast (b OR f), Suc i := ucast (drop_bit 32 b)) = bar_regs h" using regs by auto
    then show ?thesis
      by (simp add: write_reg64_def write_reg_def lo hi hi_f [unfolded drop_bit_or] lo_old hi_old fun_upd_twist del: fun_upd_apply)
  qed
  have probed: "read_reg64 i (write_reg64 latch i (mask 64) h) =
      ucast ((mask 32 AND NOT (mask k)) OR ucast f :: u32) OR push_bit 32 (ucast (mask 32 AND NOT (mask (k - 32)) :: u32))"
    by (simp add: read_reg64_def write_reg64_def write_reg_def lo hi ones)
  show "bar_size latch i True h = (2 ^ k, h)"
    unfolding bar_size_def ones_mask if_True Let_def old probed sz restored ..
qed

section \<open>Reading the registers of a function\<close>

definition bars_content :: "bar list \<Rightarrow> u32 list" where
  "bars_content ls = concat (map bar_content ls)"

definition bars_latch :: "bar list \<Rightarrow> (u32 \<Rightarrow> u32) list" where
  "bars_latch ls = concat (map bar_latch ls)"

text \<open>From register \<open>off\<close> on, the function has the registers \<open>ls\<close>.\<close>

definition has_bars :: "latch \<Rightarrow> pci_config0_header \<Rightarrow> nat \<Rightarrow> bar list \<Rightarrow> bool" where
  "has_bars latch h off ls \<longleftrightarrow> list_all bar_ok ls \<and>
     (\<forall>j < length (bars_content ls). bar_regs h (off + j) = bars_content ls ! j \<and> latch (off + j) = bars_latch ls ! j)"

lemma bar_lengths: "length (bar_latch l) = length (bar_content l)" "length (bar_descs l) = length (bar_content l)"
  by (cases l; simp)+

lemma has_bars_Cons:
  "has_bars latch h off (l # ls) \<longleftrightarrow> bar_ok l \<and>
     (\<forall>j < length (bar_content l). bar_regs h (off + j) = bar_content l ! j \<and> latch (off + j) = bar_latch l ! j) \<and>
     has_bars latch h (off + length (bar_content l)) ls"
proof -
  let ?n = "length (bar_content l)"
  have "(\<forall>j < length (bars_content (l # ls)). P j) \<longleftrightarrow> (\<forall>j < ?n. P j) \<and> (\<forall>j < length (bars_content ls). P (?n + j))" for P
    by (auto simp: bars_content_def) (metis add_diff_inverse_nat nat_add_left_cancel_less)
  then show ?thesis
    by (auto simp: has_bars_def bars_content_def bars_latch_def nth_append bar_lengths add.assoc)
qed

lemma prefetch_flag_bits:
  "bit (prefetch_flag pf :: u32) n \<longleftrightarrow> pf \<and> n = 3" "bit (prefetch_flag pf :: u64) n \<longleftrightarrow> pf \<and> n = 3"
proof -
  have "(8 :: u32) = push_bit 3 1" "(8 :: u64) = push_bit 3 1" by simp_all
  then show "bit (prefetch_flag pf :: u32) n \<longleftrightarrow> pf \<and> n = 3" "bit (prefetch_flag pf :: u64) n \<longleftrightarrow> pf \<and> n = 3"
    unfolding prefetch_flag_def by (simp_all only: bit_push_bit_iff bit_1_iff split: if_split) auto
qed

lemma mem64_flag_bits:
  "bit (4 OR prefetch_flag pf :: u64) n \<Longrightarrow> n < 4" "ucast (prefetch_flag pf :: u64) = (prefetch_flag pf :: u32)"
proof -
  have "(4 :: u64) = push_bit 2 1" by simp
  then have "bit (4 :: u64) n \<longleftrightarrow> n = 2" by (simp only: bit_push_bit_iff bit_1_iff) auto
  then show "bit (4 OR prefetch_flag pf :: u64) n \<Longrightarrow> n < 4" by (auto simp: bit_or_iff prefetch_flag_bits)
  show "ucast (prefetch_flag pf :: u64) = (prefetch_flag pf :: u32)" by (simp add: prefetch_flag_def)
qed

text \<open>The kind of a register is in its low bits.\<close>

lemma low_bits:
  fixes x :: u32
  assumes "b AND mask k = 0" "4 \<le> k" "f AND mask 4 = f"
  shows "(b OR f) AND 7 = f AND 7" "(b OR f) AND 1 = f AND 1" "(b OR f) AND 8 = f AND (8 :: u32)"
proof -
  have "b AND mask 4 = 0"
    using assms(2) by (intro bit_word_eqI) (auto simp: bit_simps dest: masked_bits [OF assms(1)])
  then have l: "(b OR f) AND mask 4 = f" using assms(3) by (simp add: bit.conj_disj_distrib2)
  have "(b OR f) AND m = f AND m" if "mask 4 AND m = m" for m
    using l that by (metis and.assoc)
  then show "(b OR f) AND 7 = f AND 7" "(b OR f) AND 1 = f AND 1" "(b OR f) AND 8 = f AND 8"
    by (simp_all add: mask_eq_exp_minus_1)
qed

lemma io_bits: "(b OR 1) AND 1 = (1 :: u32)" "(b OR 1) AND 7 \<noteq> (2 :: u32)" "(b OR 1) AND 7 \<noteq> (4 :: u32)" "b OR 1 \<noteq> (0 :: u32)"
proof -
  have "bit ((b OR 1) AND 7) 0" "bit (b OR 1) 0" by (simp_all add: bit_simps)
  then show "(b OR 1) AND 7 \<noteq> (2 :: u32)" "(b OR 1) AND 7 \<noteq> (4 :: u32)" "b OR 1 \<noteq> (0 :: u32)"
    by (metis bit_0 even_numeral, metis bit_0 even_numeral, metis bit_0_eq bot_apply bot_bool_def)
  show "(b OR 1) AND 1 = (1 :: u32)" by (intro bit_word_eqI) (auto simp: bit_simps)
qed

text \<open>One round of the loop.\<close>

lemma scan_bars_step:
  assumes "bar_ok l" "length ds = off"
    "\<forall>j < length (bar_content l). bar_regs h (off + j) = bar_content l ! j \<and> latch (off + j) = bar_latch l ! j"
    "off + length (bar_content l) \<le> n"
  shows "scan_bars latch n off (ds @ replicate (length (bar_content l)) no_bar @ rest, h) =
    scan_bars latch n (off + length (bar_content l)) (ds @ bar_descs l @ rest, h)"
proof (cases l)
  case Unused
  with assms show ?thesis by (subst scan_bars.simps) (simp add: Let_def)
next
  case (Mem32 b k pf)
  with assms have r: "bar_regs h off = b OR prefetch_flag pf" "latch off = (\<lambda>v. (v AND NOT (mask k)) OR prefetch_flag pf)"
    and k: "4 \<le> k" "k < 32" "b AND mask k = 0" "b \<noteq> 0" by simp_all
  have f: "n < 4" if "bit (prefetch_flag pf :: u32) n" for n using that by (simp add: prefetch_flag_bits)
  have "prefetch_flag pf AND mask 4 = (prefetch_flag pf :: u32)" by (simp add: prefetch_flag_def mask_eq_exp_minus_1)
  note lb = low_bits [OF k(3, 1) this]
  note sz = bar_size_32 [where latch = latch and i = off and h = h and b = b, OF r(2) f k(2) r(1) k(3)]
  define x where "x = b OR prefetch_flag pf"
  have x: "x AND 7 = 0" "x AND 1 = 0" "x AND 8 \<noteq> 0 \<longleftrightarrow> pf" "x \<noteq> 0"
    using k(4) lb by (auto simp: x_def prefetch_flag_def or_eq_0_iff)
  from assms(2, 4) show ?thesis unfolding Mem32
    by (subst scan_bars.simps) (simp add: Let_def r(1) x sz max_absorb2 [OF k(1)] nth_append list_update_append no_bar_def flip: x_def)
next
  case (Mem64 b k pf)
  let ?f = "4 OR prefetch_flag pf :: u64"
  from Mem64 assms have "bar_regs h off = ucast b OR (4 OR prefetch_flag pf)" "bar_regs h (Suc off) = ucast (drop_bit 32 b)"
    "latch off = (\<lambda>v. (v AND NOT (mask k)) OR (4 OR prefetch_flag pf))" "latch (Suc off) = (\<lambda>v. v AND NOT (mask (k - 32)))"
    and k: "4 \<le> k" "k < 64" "b AND mask k = 0" by (auto simp: less_Suc_eq all_conj_distrib)
  then have r: "bar_regs h off = ucast (b OR ?f)" "bar_regs h (Suc off) = ucast (drop_bit 32 b)"
    "latch off = (\<lambda>v. (v AND NOT (mask k)) OR ucast ?f)" "latch (Suc off) = (\<lambda>v. v AND NOT (mask (k - 32)))"
    by (simp_all add: unsigned_or_eq mem64_flag_bits(2))
  note sz = bar_size_64 [where latch = latch and i = off and h = h and b = b, OF r(3, 4) mem64_flag_bits(1) k(1, 2) r(1, 2) k(3)]
  define x where "x = (ucast (b OR ?f) :: u32)"
  have ub: "(ucast b :: u32) AND mask k = 0" by (intro bit_word_eqI) (auto simp: bit_simps dest: masked_bits [OF k(3)])
  have fl: "(4 OR prefetch_flag pf) AND mask 4 = (4 OR prefetch_flag pf :: u32)"
    by (simp add: prefetch_flag_def mask_eq_exp_minus_1)
  have xf: "x = ucast b OR (4 OR prefetch_flag pf)" by (simp add: x_def unsigned_or_eq mem64_flag_bits(2))
  have "x AND 7 = 4" "x AND 1 = 0" "x AND 8 \<noteq> 0 \<longleftrightarrow> pf"
    unfolding xf low_bits [OF ub k(1) fl] by (simp_all add: prefetch_flag_def)
  moreover from this(1) have "x \<noteq> 0" by auto
  ultimately have x: "x AND 7 = 4" "x AND 1 = 0" "x AND 8 \<noteq> 0 \<longleftrightarrow> pf" "x \<noteq> 0" by simp_all
  from assms(2, 4) show ?thesis unfolding Mem64
    by (subst scan_bars.simps) (simp add: Let_def r(1) x sz nth_append list_update_append no_bar_def flip: x_def)
next
  case (Io b k)
  with assms have r: "bar_regs h off = b OR 1" "latch off = (\<lambda>v. (v AND NOT (mask k)) OR 1)"
    and k: "k < 32" "b AND mask k = 0" by simp_all
  have f: "n < 4" if "bit (1 :: u32) n" for n using that by (simp add: bit_1_iff)
  note sz = bar_size_32 [where latch = latch and i = off and h = h and b = b, OF r(2) f k(1) r(1) k(2)]
  with assms Io show ?thesis
    by (subst scan_bars.simps) (simp add: Let_def r(1) io_bits sz nth_append list_update_append no_bar_def)
qed

lemma bars_content_Cons: "bars_content (l # ls) = bar_content l @ bars_content ls"
  by (simp add: bars_content_def)

lemma scan_bars_layout:
  assumes "has_bars latch h off ls" "length ds = off" "n = off + length (bars_content ls)"
  shows "scan_bars latch n off (ds @ replicate (length (bars_content ls)) no_bar @ rest, h) =
    (ds @ concat (map bar_descs ls) @ rest, h)"
  using assms
proof (induction ls arbitrary: off ds)
  case Nil
  then show ?case by (subst scan_bars.simps) (simp add: bars_content_def)
next
  case (Cons l ls)
  let ?m = "length (bar_content l)"
  from Cons.prems(1) have hb: "bar_ok l" "\<forall>j < ?m. bar_regs h (off + j) = bar_content l ! j \<and> latch (off + j) = bar_latch l ! j"
    "has_bars latch h (off + ?m) ls" by (simp_all add: has_bars_Cons)
  have "scan_bars latch n off (ds @ replicate ?m no_bar @ (replicate (length (bars_content ls)) no_bar @ rest), h) =
      scan_bars latch n (off + ?m) ((ds @ bar_descs l) @ replicate (length (bars_content ls)) no_bar @ rest, h)"
    using scan_bars_step [OF hb(1) Cons.prems(2) hb(2), of n] Cons.prems(3) by (simp add: bars_content_Cons)
  also have "\<dots> = ((ds @ bar_descs l) @ concat (map bar_descs ls) @ rest, h)"
    using Cons.prems by (intro Cons.IH [OF hb(3)]) (simp_all add: bar_lengths bars_content_Cons)
  finally show ?case by (simp add: bars_content_Cons replicate_add)
qed

lemma has_bars_command [simp]: "has_bars latch (h\<lparr>command := c\<rparr>) off ls = has_bars latch h off ls"
  by (simp add: has_bars_def)

lemma bar_count_le: "bar_count t = Some n \<Longrightarrow> n = 6 \<or> n = 2"
  by (auto simp: bar_count_def PCI_CONF_OFFS_BARS_def PCI_CONF0_OFFS_BARS_END_def PCI_CONF1_OFFS_BARS_END_def split: if_splits)

lemma make_dev_desc_eq:
  assumes "bar_count (header_type h) = Some n" "has_bars latch h 0 ls" "length (bars_content ls) = n"
  shows "make_dev_desc latch conf h =
    (\<lparr>dev_conf = conf, dev_bars = concat (map bar_descs ls) @ replicate (6 - n) no_bar\<rparr>, h)"
proof -
  have "replicate 6 no_bar = replicate n no_bar @ replicate (6 - n) no_bar"
    using bar_count_le [OF assms(1)] by (auto simp flip: replicate_add)
  with scan_bars_layout [of latch "h\<lparr>command := 0\<rparr>" 0 ls "[]" n "replicate (6 - n) no_bar"] assms
  show ?thesis by (simp add: make_dev_desc_def Let_def)
qed


text \<open>A network card: 32-bit registers, an I/O range of 8 bytes, and a 64-bit range of 1 GiB.\<close>

definition nic_bars :: "bar list" where
  "nic_bars = [Mem32 0xFEB80000 17 False, Io 0xC040 3, Mem64 0x4000000000 30 True, Unused, Mem32 0xFEBD0000 14 False]"

definition nic :: pci_config0_header where
  "nic = \<lparr>vendor_id = 0x8086, command = 7, header_type = 0, bar_regs = (\<lambda>i. bars_content nic_bars ! i)\<rparr>"

definition nic_latch :: latch where
  "nic_latch i = bars_latch nic_bars ! i"

lemma nic_has_bars:
  "bar_count (header_type nic) = Some 6" "has_bars nic_latch nic 0 nic_bars" "length (bars_content nic_bars) = 6"
proof -
  have "list_all bar_ok nic_bars" by (simp add: nic_bars_def mask_eq_exp_minus_1)
  then show "has_bars nic_latch nic 0 nic_bars" by (simp add: has_bars_def nic_latch_def nic_def)
  show "length (bars_content nic_bars) = 6" by (simp add: nic_bars_def bars_content_def)
  show "bar_count (header_type nic) = Some 6"
    by (simp add: nic_def bar_count_def PCI_CONF_OFFS_BARS_def PCI_CONF0_OFFS_BARS_END_def)
qed


section \<open>The search is complete\<close>

definition present :: "config_space \<Rightarrow> addr \<Rightarrow> bool" where
  "present cfg a \<longleftrightarrow> vendor_id (cfg a) \<noteq> 0xFFFF"

text \<open>
  The functions of a device, of a group of buses and of all groups, in the order of the search. The
  last bus of a group is not among the buses searched.
\<close>

definition device_functions :: "config_space \<Rightarrow> pci_segment_group_desc \<Rightarrow> int \<Rightarrow> int \<Rightarrow> addr list" where
  "device_functions cfg g bus dev =
     (let a = PCIE_CONF_ADDR g bus dev 0 0
      in if \<not> present cfg a then []
         else a # (if header_type (cfg a) AND PCI_HEADER_TYPE_MF_MASK \<noteq> 0
                   then filter (present cfg) (map (\<lambda>fun. PCIE_CONF_ADDR g bus dev fun 0) [1..7]) else []))"

definition group_functions :: "config_space \<Rightarrow> pci_segment_group_desc \<Rightarrow> addr list" where
  "group_functions cfg g = concat (map (\<lambda>bus. concat (map (device_functions cfg g bus) [0..31]))
     [uint (start_bus_num g)..uint (end_bus_num g) - 1])"

definition all_functions :: "config_space \<Rightarrow> pci_segment_group_desc list \<Rightarrow> addr list" where
  "all_functions cfg gs = concat (map (group_functions cfg) gs)"

definition describe :: "(addr \<Rightarrow> latch) \<Rightarrow> config_space \<Rightarrow> addr \<Rightarrow> pci_dev_desc" where
  "describe latch cfg a = fst (make_dev_desc (latch a) a (cfg a))"

text \<open>The functions present have base address registers as the specification has them.\<close>

definition config_ok :: "(addr \<Rightarrow> latch) \<Rightarrow> config_space \<Rightarrow> bool" where
  "config_ok latch cfg \<longleftrightarrow> (\<forall>a. present cfg a \<longrightarrow> (case bar_count (header_type (cfg a)) of
     None \<Rightarrow> True | Some n \<Rightarrow> \<exists>ls. has_bars (latch a) (cfg a) 0 ls \<and> length (bars_content ls) = n))"

lemma make_dev_desc_describe:
  assumes "config_ok latch cfg" "present cfg a"
  shows "make_dev_desc (latch a) a (cfg a) = (describe latch cfg a, cfg a)"
proof (cases "bar_count (header_type (cfg a))")
  case None
  then show ?thesis by (simp add: describe_def make_dev_desc_def Let_def)
next
  case (Some n)
  with assms obtain ls where "has_bars (latch a) (cfg a) 0 ls" "length (bars_content ls) = n"
    by (fastforce simp: config_ok_def)
  from make_dev_desc_eq [OF Some this] show ?thesis by (simp add: describe_def)
qed

text \<open>The capacity of an array that is doubled when it is full.\<close>

definition room_ok :: "nat \<Rightarrow> u64 \<Rightarrow> bool" where
  "room_ok n c \<longleftrightarrow> n \<le> unat c \<and> 2 \<le> unat c \<and> unat c \<le> max 2 (2 * n)"

lemma room_ok_Suc:
  assumes "room_ok n c" "Suc n < 2 ^ 62"
  shows "of_nat n = c \<Longrightarrow> room_ok (Suc n) (c * 2)" "of_nat n \<noteq> c \<Longrightarrow> room_ok (Suc n) c"
proof -
  have n: "unat (of_nat n :: u64) = n" using assms(2) by (intro unat_of_nat_no_wrap) simp
  show "room_ok (Suc n) (c * 2)" if "of_nat n = c"
  proof -
    have c: "unat c = n" using n that by simp
    then have "unat (c * 2) = n * 2" using assms(2) by (subst unat_mult_no_wrap) simp_all
    with c assms(1) show ?thesis by (auto simp: room_ok_def)
  qed
  show "room_ok (Suc n) c" if "of_nat n \<noteq> c"
  proof -
    have "n \<noteq> unat c" using that by auto
    with assms(1) show ?thesis by (auto simp: room_ok_def)
  qed
qed

text \<open>What the search keeps: the configuration space, and an array that is large enough.\<close>

definition searching :: "config_space \<Rightarrow> search \<Rightarrow> bool" where
  "searching cfg = (\<lambda>(c, st, s). c = cfg \<and> (length (pci_devices st) < 2 ^ 62 \<longrightarrow>
     room_ok (length (pci_devices st)) (device_capacity st)))"

definition found :: "search \<Rightarrow> pci_dev_desc list" where
  "found = (\<lambda>(c, st, s). pci_devices st)"

text \<open>A loop whose body adds \<open>g x\<close> to what was found adds the concatenation.\<close>

definition collects :: "config_space \<Rightarrow> ('a \<Rightarrow> search \<Rightarrow> (bool \<times> search) res) \<Rightarrow> ('a \<Rightarrow> pci_dev_desc list) \<Rightarrow> 'a set \<Rightarrow> bool" where
  "collects cfg f g X \<longleftrightarrow> (\<forall>x \<in> X. \<forall>t t'. searching cfg t \<longrightarrow> f x t = Inr (True, t') \<longrightarrow>
     searching cfg t' \<and> found t' = found t @ g x)"

lemma collectsD: "collects cfg f g X \<Longrightarrow> x \<in> X \<Longrightarrow> searching cfg t \<Longrightarrow> f x t = Inr (True, t') \<Longrightarrow>
    searching cfg t' \<and> found t' = found t @ g x"
  unfolding collects_def by blast

lemma while_ok_collects:
  assumes "collects cfg f g (set xs)" "searching cfg t" "while_ok f xs t = Inr (True, t')"
  shows "searching cfg t' \<and> found t' = found t @ concat (map g xs)"
  using assms
proof (induction xs arbitrary: t)
  case (Cons x xs)
  from Cons.prems(3) obtain u where u: "f x t = Inr (True, u)" "while_ok f xs u = Inr (True, t')"
    by (auto split: if_splits)
  from collectsD [OF Cons.prems(1) _ Cons.prems(2) u(1)] have s: "searching cfg u" "found u = found t @ g x" by simp_all
  have "collects cfg f g (set xs)" using Cons.prems(1) unfolding collects_def by (meson list.set_intros(2))
  from Cons.IH [OF this s(1) u(2)] s(2) show ?case by simp
qed simp

lemma while_ok_loop:
  assumes "\<And>y. y \<in> Y \<Longrightarrow> collects cfg (f y) (g y) (set (xs y))"
  shows "collects cfg (\<lambda>y. while_ok (f y) (xs y)) (\<lambda>y. concat (map (g y) (xs y))) Y"
  unfolding collects_def using while_ok_collects assms by blast

lemma add_device_adds:
  assumes "config_ok latch cfg" "present cfg a" "searching cfg t" "add_device latch a t = Inr (True, t')"
  shows "searching cfg t' \<and> found t' = found t @ [describe latch cfg a]"
proof -
  obtain c st s where t: "t = (c, st, s)" by (cases t) auto
  with assms(3) have c: "c = cfg" and room: "length (pci_devices st) < 2 ^ 62 \<longrightarrow> room_ok (length (pci_devices st)) (device_capacity st)"
    unfolding searching_def by blast+
  note desc = make_dev_desc_describe [OF assms(1, 2)]
  from assms(4) obtain addr cap s' where t': "t' = (cfg, st\<lparr>devices_addr := addr, device_capacity := cap,
      pci_devices := pci_devices st @ [describe latch cfg a]\<rparr>, s')"
    and cap: "cap = (if of_nat (length (pci_devices st)) = device_capacity st then device_capacity st * 2 else device_capacity st)"
    unfolding t c add_device_def prod.case by (cases st) (fastforce simp: desc split: if_splits)
  have "room_ok (Suc (length (pci_devices st))) cap" if "Suc (length (pci_devices st)) < 2 ^ 62"
    using room_ok_Suc [OF _ that] room that unfolding cap by (simp del: power_numeral)
  then show ?thesis unfolding t' t searching_def found_def by simp
qed

lemma visit_function_collects:
  assumes "config_ok latch cfg"
  shows "collects cfg (\<lambda>x. visit_function latch (a x)) (\<lambda>x. map (describe latch cfg) (filter (present cfg) [a x])) X"
  unfolding collects_def
proof (intro ballI allI impI)
  fix x t t'
  assume t: "searching cfg t" "visit_function latch (a x) t = Inr (True, t')"
  have c: "fst t = cfg" using t(1) by (auto simp: searching_def)
  show "searching cfg t' \<and> found t' = found t @ map (describe latch cfg) (filter (present cfg) [a x])"
  proof (cases "present cfg (a x)")
    case True
    with t(2) c have "add_device latch (a x) t = Inr (True, t')"
      by (cases t) (simp add: visit_function_def present_def)
    from add_device_adds [OF assms True t(1) this] True show ?thesis by simp
  next
    case False
    with t c show ?thesis by (cases t) (simp add: visit_function_def present_def)
  qed
qed

lemma visit_device_collects:
  assumes "config_ok latch cfg"
  shows "collects cfg (visit_device latch g bus) (\<lambda>dev. map (describe latch cfg) (device_functions cfg g bus dev)) X"
  unfolding collects_def
proof (intro ballI allI impI)
  fix dev t t'
  assume t: "searching cfg t" "visit_device latch g bus dev t = Inr (True, t')"
  define a where "a = PCIE_CONF_ADDR g bus dev 0 0"
  have c: "fst t = cfg" using t(1) by (auto simp: searching_def)
  show "searching cfg t' \<and> found t' = found t @ map (describe latch cfg) (device_functions cfg g bus dev)"
  proof (cases "present cfg a")
    case False
    with t c show ?thesis by (cases t) (simp add: visit_device_def present_def device_functions_def Let_def a_def)
  next
    case True
    with t(2) c obtain u where u: "add_device latch a t = Inr (True, u)"
      and rest: "(if header_type (fst u a) AND PCI_HEADER_TYPE_MF_MASK \<noteq> 0
          then while_ok (\<lambda>fun. visit_function latch (PCIE_CONF_ADDR g bus dev fun 0)) [1..7] u else Inr (True, u)) = Inr (True, t')"
      by (cases t) (auto simp: visit_device_def present_def Let_def a_def [symmetric] split: if_splits)
    from add_device_adds [OF assms True t(1) u] have s: "searching cfg u" "found u = found t @ [describe latch cfg a]" by simp_all
    have cu: "fst u = cfg" using s(1) by (auto simp: searching_def)
    show ?thesis
    proof (cases "header_type (cfg a) AND PCI_HEADER_TYPE_MF_MASK \<noteq> 0")
      case False
      with rest s True show ?thesis by (simp add: cu device_functions_def Let_def flip: a_def)
    next
      case mf: True
      have single: "concat (map (\<lambda>x. filter P [h x]) xs) = filter P (map h xs)" for P :: "addr \<Rightarrow> bool" and h and xs :: "int list"
        by (induction xs) auto
      from rest mf have "while_ok (\<lambda>fun. visit_function latch (PCIE_CONF_ADDR g bus dev fun 0)) [1..7] u = Inr (True, t')"
        by (simp add: cu)
      from while_ok_collects [OF visit_function_collects [OF assms] s(1) this]
      have "searching cfg t' \<and> found t' = found u @ map (describe latch cfg)
          (filter (present cfg) (map (\<lambda>fun. PCIE_CONF_ADDR g bus dev fun 0) [1..7]))"
        by (simp only: single [symmetric] map_concat map_map comp_def)
      with s mf True show ?thesis by (simp add: device_functions_def Let_def flip: a_def)
    qed
  qed
qed

text \<open>
  C13. What the search finds: when it succeeds, the array holds the descriptions of exactly the functions
  present on the buses \<open>b\<close> of each group with \<open>start_bus_num \<le> b < end_bus_num\<close>, in order and each once, the array is
  large enough for them, and the configuration space is as before. The group's last bus, \<open>end_bus_num\<close>, is
  searched by no one: the loop ends before it, as the mapping of the group does.
\<close>

theorem find_devices_complete:
  assumes "config_ok latch cfg" "find_devices latch (cfg, st, s) = Inr (True, cfg', st', s')"
  defines "fs \<equiv> all_functions cfg (take (unat (group_count st)) (groups st))"
  shows "cfg' = cfg \<and> pci_devices st' = map (describe latch cfg) fs \<and>
    (length fs < 2 ^ 62 \<longrightarrow> length fs \<le> unat (device_capacity st'))"
proof -
  let ?gs = "take (unat (group_count st)) (groups st)"
  let ?bus = "\<lambda>g bus. while_ok (visit_device latch g bus) [0..31]"
  let ?grp = "\<lambda>g. while_ok (?bus g) [uint (start_bus_num g)..uint (end_bus_num g) - 1]"
  from assms(2) obtain devs s1 where run: "while_ok ?grp ?gs
      (cfg, st\<lparr>devices_addr := devs, device_capacity := 2, pci_devices := []\<rparr>, s1) = Inr (True, cfg', st', s')"
    by (auto simp: find_devices_def Let_def split: if_splits)
  have "collects cfg (?bus g) (\<lambda>bus. concat (map (\<lambda>dev. map (describe latch cfg) (device_functions cfg g bus dev)) [0..31])) Y" for g Y
    by (rule while_ok_loop) (rule visit_device_collects [OF assms(1)])
  then have coll: "collects cfg ?grp (\<lambda>g. concat (map (\<lambda>bus. concat (map (\<lambda>dev. map (describe latch cfg) (device_functions cfg g bus dev)) [0..31]))
      [uint (start_bus_num g)..uint (end_bus_num g) - 1])) Y" for Y
    by (rule while_ok_loop)
  have "searching cfg (cfg, st\<lparr>devices_addr := devs, device_capacity := 2, pci_devices := []\<rparr>, s1)"
    by (simp add: searching_def room_ok_def)
  from while_ok_collects [OF coll this run] have s: "searching cfg (cfg', st', s')"
    and "found (cfg', st', s') = found (cfg, st\<lparr>devices_addr := devs, device_capacity := 2, pci_devices := []\<rparr>, s1) @ concat (map
      (\<lambda>g. concat (map (\<lambda>bus. concat (map (\<lambda>dev. map (describe latch cfg) (device_functions cfg g bus dev)) [0..31]))
        [uint (start_bus_num g)..uint (end_bus_num g) - 1])) ?gs)"
    by blast+
  then have d: "pci_devices st' = map (describe latch cfg) fs"
    by (simp add: found_def fs_def all_functions_def group_functions_def map_concat comp_def)
  with s show ?thesis by (simp add: searching_def room_ok_def)
qed

text \<open>The card alone on the first bus of a group.\<close>

definition card_only :: config_space where
  "card_only a = (if a = 0xB0000000 then nic else \<lparr>vendor_id = 0xFFFF, command = 0xFFFF, header_type = 0xFF, bar_regs = (\<lambda>_. 0xFFFFFFFF)\<rparr>)"

definition card_state :: pci_state where
  "card_state = \<lparr>groups = [\<lparr>group_paddr = 0xE0000000, group_vaddr = 0xB0000000, start_bus_num = 0, end_bus_num = 1\<rparr>],
     group_count = 1, devices_addr = 0, pci_devices = [], device_capacity = 0\<rparr>"

lemma while_ok_skip:
  assumes "\<And>x. x \<in> set xs \<Longrightarrow> f x t = Inr (True, t)"
  shows "while_ok f xs t = Inr (True, t)"
  using assms by (induction xs) auto

lemma upto_first: "[0..31] = 0 # [1..31 :: int]"
  using upto_rec1 [of 0 31] by simp

lemma nic_describes: "make_dev_desc nic_latch 0xB0000000 nic = (describe (\<lambda>_. nic_latch) card_only 0xB0000000, nic)"
  using make_dev_desc_eq [OF nic_has_bars, of "0xB0000000"] by (simp add: describe_def card_only_def)

lemma visit_absent_addr:
  assumes "d \<in> set [0..31 :: int]"
  shows "(of_int (push_bit 15 d) :: addr) = 0 \<longleftrightarrow> d = 0"
proof -
  have "d * 32768 < 2 ^ 64" "0 \<le> d * 32768" using assms by auto
  then have "uint (of_int (d * 32768) :: addr) = d * 32768" by (simp add: unsigned_of_int take_bit_int_eq_self del: of_int_mult)
  then have "(of_int (d * 32768) :: addr) = 0 \<longleftrightarrow> d * 32768 = 0" by (metis of_int_0 uint_0_eq)
  then show ?thesis by (simp add: push_bit_eq_mult)
qed

lemma visit_absent:
  assumes "d \<in> set [1..31 :: int]"
  shows "visit_device l \<lparr>group_paddr = p, group_vaddr = 0xB0000000, start_bus_num = 0, end_bus_num = 1\<rparr> 0 d (card_only, st, s) =
    Inr (True, card_only, st, s)"
proof -
  have "d \<in> set [0..31]" "d \<noteq> 0" using assms by auto
  then have "(of_int (push_bit 15 d) :: addr) \<noteq> 0" using visit_absent_addr by blast
  then show ?thesis by (simp add: visit_device_def PCIE_CONF_ADDR_def card_only_def Let_def)
qed

theorem find_devices_complete_witness:
  "\<exists>st s. find_devices (\<lambda>_. nic_latch) (card_only, card_state, small_heap) = Inr (True, card_only, st, s) \<and>
    pci_devices st = [describe (\<lambda>_. nic_latch) card_only 0xB0000000] \<and> 1 \<le> unat (device_capacity st)"
proof -
  have "alloc_blocks (ALIGN_UP (2 * sizeof_dev_desc) 16) [(0x100000, 0x40, True), (0x100060, 0xF80, False)] =
      Some (0x100080, [(0x100000, 0x40, True), (0x100060, 0x130, True), (0x1001B0, 0xE30, False)])"
    by (simp add: fits_def carve_def he_memory_def HDR_def ALIGN_UP_def ALIGN_DOWN_def sizeof_dev_desc_def)
  from kmalloc_refines [OF small_heap_blocks small_heap_free this] obtain s where
    k: "kmalloc (2 * sizeof_dev_desc) small_heap = Inr (0x100080, s)" by blast
  let ?st = "card_state\<lparr>devices_addr := 0x100080, device_capacity := 2, pci_devices := [describe (\<lambda>_. nic_latch) card_only 0xB0000000]\<rparr>"
  let ?g = "\<lparr>group_paddr = 0xE0000000, group_vaddr = 0xB0000000, start_bus_num = 0, end_bus_num = 1\<rparr> :: pci_segment_group_desc"
  have card: "present card_only a \<longleftrightarrow> a = 0xB0000000" "card_only 0xB0000000 = nic" for a
    by (simp_all add: present_def card_only_def nic_def)
  have off: "PCIE_CONF_ADDR ?g 0 d 0 0 = 0xB0000000 \<longleftrightarrow> d = 0" if "d \<in> set [0..31]" for d
    using visit_absent_addr [of d] that by (auto simp: PCIE_CONF_ADDR_def)
  have mf: "header_type nic AND PCI_HEADER_TYPE_MF_MASK = 0" "vendor_id nic \<noteq> 0xFFFF" by (simp_all add: nic_def)
  have skip: "while_ok (visit_device (\<lambda>_. nic_latch) ?g 0) [1..31] (card_only, ?st, s) = Inr (True, card_only, ?st, s)"
    by (rule while_ok_skip) (rule visit_absent)
  have "visit_device (\<lambda>_. nic_latch) ?g 0 0 (card_only, ?st\<lparr>pci_devices := []\<rparr>, s) = Inr (True, card_only, ?st, s)"
    using card(2) mf by (simp add: visit_device_def PCIE_CONF_ADDR_def add_device_def nic_describes Let_def card_state_def)
      (auto simp: card_only_def)
  with skip have "while_ok (visit_device (\<lambda>_. nic_latch) ?g 0) [0..31] (card_only, ?st\<lparr>pci_devices := []\<rparr>, s) = Inr (True, card_only, ?st, s)"
    by (simp add: upto_first)
  then have "find_devices (\<lambda>_. nic_latch) (card_only, card_state, small_heap) = Inr (True, card_only, ?st, s)"
    by (simp add: find_devices_def k card_state_def Let_def)
  moreover have "config_ok (\<lambda>_. nic_latch) card_only"
    using nic_has_bars by (auto simp: config_ok_def card)
  moreover have "all_functions card_only (take (unat (group_count card_state)) (groups card_state)) = [0xB0000000]"
  proof -
    have "device_functions card_only ?g 0 d = (if d = 0 then [0xB0000000] else [])" if "d \<in> set [0..31]" for d
    proof (cases "d = 0")
      case True
      then have "PCIE_CONF_ADDR ?g 0 d 0 0 = 0xB0000000" using off [OF that] by blast
      then show ?thesis by (simp add: device_functions_def card mf Let_def True)
    next
      case False
      then show ?thesis using off [OF that] by (simp add: device_functions_def card Let_def)
    qed
    then have "map (device_functions card_only ?g 0) [0..31] = map (\<lambda>d. if d = 0 then [0xB0000000] else []) [0..31]"
      by (intro map_cong) auto
    then have "concat (map (device_functions card_only ?g 0) [0..31]) = concat (map (\<lambda>d. if d = 0 then [0xB0000000] else []) [0..31])"
      by (simp only:)
    also have "\<dots> = [0xB0000000]" by (auto simp: upto_first)
    finally have "concat (map (device_functions card_only ?g 0) [0..31]) = [0xB0000000]" .
    then show ?thesis by (simp add: all_functions_def group_functions_def card_state_def)
  qed
  ultimately show ?thesis using find_devices_complete [of "\<lambda>_. nic_latch" card_only card_state small_heap]
    by fastforce
qed

section \<open>A group of a single bus\<close>

lemma pages_of_nothing:
  assumes "PAGE_BASE a = a"
  shows "pages_of a 0 = 0x10000000000000"
proof -
  have "unat a = unat a - unat a mod 0x1000" using unat_PAGE_BASE assms by metis
  moreover have "unat a mod 0x1000 \<le> unat a" by simp
  ultimately have "unat a mod 0x1000 = 0" by linarith
  then obtain q where q: "unat a = q * 0x1000" by (metis dvd_eq_mod_eq_0 dvdE mult.commute)
  have "PAGE_BASE (a - 1) = a - 0x1000"
  proof (cases "a = 0")
    case True
    then show ?thesis by (simp add: PAGE_BASE_def)
  next
    case False
    then have "unat a \<noteq> 0" by (simp add: unat_eq_0)
    then have "0 < q" by (metis mult_is_0 neq0_conv q)
    moreover have "unat (a - 1) = q * 0x1000 - 1" unfolding unat_minus_one [OF False] q ..
    ultimately have a: "0 < q" "unat (a - 1) = q * 0x1000 - 1" .
    then have "unat (a - 1) = (q - 1) * 0x1000 + 0xFFF" by (cases q) simp_all
    then have "unat (PAGE_BASE (a - 1)) = (q - 1) * 0x1000" by (simp add: unat_PAGE_BASE)
    moreover have "unat (a - 0x1000) = q * 0x1000 - 0x1000"
      using a(1) q by (subst unat_sub_no_wrap) (simp_all add: word_le_nat_alt)
    ultimately show ?thesis by (simp add: word_unat_eq_iff diff_mult_distrib)
  qed
  then show ?thesis by (simp add: pages_of_def assms)
qed

lemma alloc_too_many:
  assumes "wf_mmap (virt_mmap s)" "\<not> held Virt_Mmap_Mutex s"
  shows "\<exists>s'. alloc_virt_pages 0x10000000000000 s = Inr (0, s')"
proof -
  obtain b m where g: "mmap_get_pages (virt_mmap s) 0x10000000000000 = (b, m)" by force
  have "b = 0"
  proof (rule ccontr)
    assume "b \<noteq> 0"
    from mmap_get_pages_hit [OF assms(1) g this] have "unat b + 4096 * 0x10000000000000 \<le> 2 ^ 64" by simp
    with \<open>b \<noteq> 0\<close> show False by (simp add: unat_eq_0)
  qed
  with g assms(2) show ?thesis by (simp add: alloc_virt_pages_def klock_eq kunlock_eq Let_def)
qed

text \<open>
  A segment group with a single bus cannot be set up: its last bus is its first, so a mapping of
  0 bytes is asked for, which \<open>create_virt_mapping\<close> takes for \<open>2^52\<close> pages, and the start of the
  kernel ends with the failure of \<open>init_pci\<close>.
\<close>

theorem init_group_single_bus_fails:
  assumes "vload phys 8 base s = Inr paddr" "vload8 phys (base + 10) s = Inr b" "vload8 phys (base + 11) s = Inr b"
    "PAGE_BASE paddr = paddr" "wf_mmap (virt_mmap s)" "\<not> held Virt_Mmap_Mutex s"
  shows "\<exists>st' s'. init_group phys base (st, s) = Inr (False, st', s')"
  using alloc_too_many [OF assms(5, 6)]
  by (auto simp: init_group_def assms(1-3) create_virt_mapping_def pages_of_nothing [OF assms(4)] Let_def)

text \<open>An MCFG entry for a group at \<open>0xE0000000\<close> whose only bus is 0, in the second page of \<open>demo_space\<close>.\<close>

definition one_bus_mcfg :: mem where
  "one_bus_mcfg = (\<lambda>_. 0)(0x7003 := 0xE0)"

theorem init_group_single_bus_fails_witness:
  "\<exists>st' s'. init_group one_bus_mcfg 0xFFFFFF1000001000 (card_state, demo_space) = Inr (False, st', s')"
proof -
  have "vload one_bus_mcfg 8 0xFFFFFF1000001000 demo_space = Inr (stored one_bus_mcfg 8 0x7000)"
    by (rule vload_mapped) (rule demo_space_reads, simp)
  moreover have "stored one_bus_mcfg 8 0x7000 = 0xE0000000"
    by (simp add: stored_numeral one_bus_mcfg_def)
  moreover have "vload8 one_bus_mcfg (0xFFFFFF1000001000 + 10) demo_space = Inr 0" "vload8 one_bus_mcfg (0xFFFFFF1000001000 + 11) demo_space = Inr 0"
    using demo_space_reads [of 10] demo_space_reads [of 11] by (auto simp: vload8_def one_bus_mcfg_def)
  moreover have "wf_mmap (virt_mmap demo_space)" by (simp add: demo_space_def wf_mmap_def wf_ranges_def wf_range_def live_def range_end_def)
  ultimately show ?thesis
    by (intro init_group_single_bus_fails [of _ _ _ "0xE0000000" 0])
      (simp_all add: PAGE_BASE_def demo_space_def demo_paging_facts(5))
qed

end
