(* ===== verification/Pci_Config.thy ===== *)
theory Pci_Config
  imports Pci
begin

text \<open>
  Access to configuration space for the drivers, the second half of \<^verbatim>\<open>src/kernel/pci.c\<close>: reads and
  writes of 8 to 64 bits at an offset of a function's configuration space. What the device keeps of a byte
  written over another is the device's, the parameter \<open>L\<close>: registers are read-only, cleared by writing
  ones, or kept, in each of their bits.
\<close>

section \<open>Reading and writing configuration space\<close>

text \<open>
  \<open>cm\<close> is what the processor reads from the mapped configuration space. A segment group beyond the array is
  read from whatever is behind it.
\<close>

type_synonym byte_latch = "addr \<Rightarrow> u8 \<Rightarrow> u8 \<Rightarrow> u8"

record pci_function_addr =
  segment_group :: u16
  bus_num :: u8
  device_num :: u8
  function_num :: u8

fun put_bytes :: "byte_latch \<Rightarrow> nat \<Rightarrow> addr \<Rightarrow> u64 \<Rightarrow> mem \<Rightarrow> mem" where
  "put_bytes L 0 p v m = m"
| "put_bytes L (Suc n) p v m = (put_bytes L n (p + 1) (drop_bit 8 v) m)(p := L p (m p) (ucast v))"

definition conf_addr :: "pci_state \<Rightarrow> pci_function_addr \<Rightarrow> u16 \<Rightarrow> addr res" where
  "conf_addr st f offset =
     (if unat (segment_group f) < length (groups st)
      then Inr (PCIE_CONF_ADDR (groups st ! unat (segment_group f)) (uint (bus_num f)) (uint (device_num f)) (uint (function_num f)) (ucast offset))
      else Inl Overrun)"

definition pci_config_read8 :: "pci_state \<Rightarrow> mem \<Rightarrow> pci_function_addr \<Rightarrow> u16 \<Rightarrow> u8 res" where
  "pci_config_read8 st cm f offset = bindR (conf_addr st f offset) (\<lambda>a. Inr (cm a))"

definition pci_config_read16 :: "pci_state \<Rightarrow> mem \<Rightarrow> pci_function_addr \<Rightarrow> u16 \<Rightarrow> u16 res" where
  "pci_config_read16 st cm f offset = bindR (conf_addr st f offset) (\<lambda>a. Inr (ucast (stored cm 2 a)))"

definition pci_config_read32 :: "pci_state \<Rightarrow> mem \<Rightarrow> pci_function_addr \<Rightarrow> u16 \<Rightarrow> u32 res" where
  "pci_config_read32 st cm f offset = bindR (conf_addr st f offset) (\<lambda>a. Inr (ucast (stored cm 4 a)))"

definition pci_config_read64 :: "pci_state \<Rightarrow> mem \<Rightarrow> pci_function_addr \<Rightarrow> u16 \<Rightarrow> u64 res" where
  "pci_config_read64 st cm f offset = bindR (conf_addr st f offset) (\<lambda>a. Inr (stored cm 8 a))"

definition pci_config_write8 :: "byte_latch \<Rightarrow> pci_state \<Rightarrow> pci_function_addr \<Rightarrow> u16 \<Rightarrow> u8 \<Rightarrow> mem \<Rightarrow> mem res" where
  "pci_config_write8 L st f offset val cm = bindR (conf_addr st f offset) (\<lambda>a. Inr (put_bytes L 1 a (ucast val) cm))"

definition pci_config_write16 :: "byte_latch \<Rightarrow> pci_state \<Rightarrow> pci_function_addr \<Rightarrow> u16 \<Rightarrow> u16 \<Rightarrow> mem \<Rightarrow> mem res" where
  "pci_config_write16 L st f offset val cm = bindR (conf_addr st f offset) (\<lambda>a. Inr (put_bytes L 2 a (ucast val) cm))"

definition pci_config_write32 :: "byte_latch \<Rightarrow> pci_state \<Rightarrow> pci_function_addr \<Rightarrow> u16 \<Rightarrow> u32 \<Rightarrow> mem \<Rightarrow> mem res" where
  "pci_config_write32 L st f offset val cm = bindR (conf_addr st f offset) (\<lambda>a. Inr (put_bytes L 4 a (ucast val) cm))"

definition pci_config_write64 :: "byte_latch \<Rightarrow> pci_state \<Rightarrow> pci_function_addr \<Rightarrow> u16 \<Rightarrow> u64 \<Rightarrow> mem \<Rightarrow> mem res" where
  "pci_config_write64 L st f offset val cm = bindR (conf_addr st f offset) (\<lambda>a. Inr (put_bytes L 8 a val cm))"

section \<open>Functions do not overlap\<close>

text \<open>
  A function on one of the buses whose configuration space \<open>init_pci\<close> has mapped for a segment group, the size of
  the group's window, and the function's place in it. The windows of different groups are at different
  addresses, as \<open>create_virt_mapping\<close> gives them.
\<close>

definition function_in :: "pci_segment_group_desc \<Rightarrow> pci_function_addr \<Rightarrow> bool" where
  "function_in g f \<longleftrightarrow> start_bus_num g \<le> bus_num f \<and> bus_num f < end_bus_num g \<and>
     unat (device_num f) < 32 \<and> unat (function_num f) < 8"

definition window_size :: "pci_segment_group_desc \<Rightarrow> nat" where
  "window_size g = (unat (end_bus_num g) - unat (start_bus_num g)) * 0x100000"

definition windows_apart :: "pci_state \<Rightarrow> bool" where
  "windows_apart st \<longleftrightarrow> (\<forall>i < length (groups st). \<forall>j < length (groups st). i \<noteq> j \<longrightarrow>
     (\<forall>k < window_size (groups st ! i). \<forall>l < window_size (groups st ! j).
        group_vaddr (groups st ! i) + of_nat k \<noteq> group_vaddr (groups st ! j) + of_nat l))"

definition byte_of :: "nat \<Rightarrow> 'a::len word \<Rightarrow> u8" where
  "byte_of i v = ucast (drop_bit (8 * i) v)"

definition function_index :: "pci_segment_group_desc \<Rightarrow> pci_function_addr \<Rightarrow> nat" where
  "function_index g f = ((unat (bus_num f) - unat (start_bus_num g)) * 32 + unat (device_num f)) * 8 + unat (function_num f)"

lemma conf_addr_eq:
  assumes "function_in g f"
  shows "PCIE_CONF_ADDR g (uint (bus_num f)) (uint (device_num f)) (uint (function_num f)) (ucast off) =
    group_vaddr g + of_nat (function_index g f * 0x1000 + unat (off :: u16))"
proof -
  have le: "unat (start_bus_num g) \<le> unat (bus_num f)" using assms by (simp add: function_in_def word_le_nat_alt)
  have o: "ucast off = (of_nat (unat off) :: u64)" by simp
  have u: "uint x = int (unat x)" for x :: u8 by simp
  have i: "(of_int (push_bit k (uint x)) :: u64) = of_nat (unat x * 2 ^ k)" for k and x :: u8
    unfolding u push_bit_eq_mult by (metis of_int_of_nat_eq of_nat_mult of_nat_numeral of_nat_power)
  have "push_bit 20 (uint (bus_num f) - uint (start_bus_num g)) = int ((unat (bus_num f) - unat (start_bus_num g)) * 2 ^ 20)"
    using le unfolding u push_bit_eq_mult by (simp add: of_nat_diff)
  then have b: "of_int (push_bit 20 (uint (bus_num f) - uint (start_bus_num g))) =
      (of_nat ((unat (bus_num f) - unat (start_bus_num g)) * 2 ^ 20) :: u64)" by (metis of_int_of_nat_eq)
  have "function_index g f * 0x1000 + unat off = (unat (bus_num f) - unat (start_bus_num g)) * 2 ^ 20 +
      unat (device_num f) * 2 ^ 15 + unat (function_num f) * 2 ^ 12 + unat off"
    by (simp add: function_index_def)
  then show ?thesis unfolding PCIE_CONF_ADDR_def b i o by (simp only: of_nat_add add.assoc)
qed

lemma function_index_inject:
  assumes "function_in g f" "function_in g f'" "segment_group f = segment_group f'" "function_index g f = function_index g f'"
  shows "f = f'"
proof -
  have digit: "a = c \<and> n = k" if "a * b + n = c * b + k" "n < b" "k < b" for a b c n k :: nat
  proof -
    have "(a * b + n) div b = (c * b + k) div b" "(a * b + n) mod b = (c * b + k) mod b" by (simp_all only: that(1))
    with that(2, 3) show ?thesis by simp
  qed
  from assms(1, 2) have small: "unat (device_num f) < 32" "unat (function_num f) < 8" "unat (device_num f') < 32" "unat (function_num f') < 8"
    by (simp_all add: function_in_def)
  note e = digit [OF assms(4) [unfolded function_index_def] small(2, 4)]
  have "unat (bus_num f) - unat (start_bus_num g) = unat (bus_num f') - unat (start_bus_num g) \<and>
      unat (device_num f) = unat (device_num f') \<and> unat (function_num f) = unat (function_num f')"
    using digit [OF e [THEN conjunct1] small(1, 3)] e [THEN conjunct2] by blast
  moreover have "unat (start_bus_num g) \<le> unat (bus_num f)" "unat (start_bus_num g) \<le> unat (bus_num f')"
    using assms(1, 2) by (simp_all add: function_in_def word_le_nat_alt)
  ultimately have "unat (bus_num f) = unat (bus_num f')" "unat (device_num f) = unat (device_num f')"
    "unat (function_num f) = unat (function_num f')" by (meson eq_diff_iff)+
  with assms(3) show ?thesis by (simp add: word_unat_eq_iff)
qed

lemma function_index_less:
  assumes "function_in g f"
  shows "function_index g f < 65536"
proof -
  have "unat (bus_num f) < 2 ^ 8" using unsigned_less [of "bus_num f"] by simp
  then have b: "b \<le> 255" if "b = unat (bus_num f) - unat (start_bus_num g)" for b using that by simp
  have "unat (device_num f) \<le> 31" "unat (function_num f) \<le> 7" using assms by (simp_all add: function_in_def)
  with b [OF refl] have "(unat (bus_num f) - unat (start_bus_num g)) * 32 \<le> 255 * 32" by (intro mult_right_mono) simp_all
  then have "((unat (bus_num f) - unat (start_bus_num g)) * 32 + unat (device_num f)) * 8 \<le> (255 * 32 + 31) * 8"
    using \<open>unat (device_num f) \<le> 31\<close> by (intro mult_right_mono add_mono) simp_all
  then show ?thesis using \<open>unat (function_num f) \<le> 7\<close> unfolding function_index_def by simp
qed

lemma put_bytes_frame: "(\<And>i. i < n \<Longrightarrow> x \<noteq> p + of_nat i) \<Longrightarrow> put_bytes L n p v m x = m x"
proof (induction n arbitrary: p v)
  case (Suc n)
  have "x \<noteq> p" using Suc.prems [of 0] by simp
  moreover have "x \<noteq> p + 1 + of_nat i" if "i < n" for i
    using Suc.prems [of "Suc i"] that by (simp add: algebra_simps)
  then have "put_bytes L n (p + 1) (drop_bit 8 v) m x = m x" by (rule Suc.IH)
  ultimately show ?case by simp
qed simp

lemma stored_cong: "(\<And>i. i < n \<Longrightarrow> m (p + of_nat i) = m' (p + of_nat i)) \<Longrightarrow> stored m n p = stored m' n p"
proof (induction n arbitrary: p)
  case (Suc n)
  have "m (p + 1 + of_nat i) = m' (p + 1 + of_nat i)" if "i < n" for i
    using Suc.prems [of "Suc i"] that by (simp add: algebra_simps)
  then have "stored m n (p + 1) = stored m' n (p + 1)" by (rule Suc.IH)
  moreover have "m p = m' p" using Suc.prems [of 0] by simp
  ultimately show ?case by simp
qed simp

lemma put_bytes_at:
  assumes "i < n" "n \<le> 8"
  shows "put_bytes L n p v m (p + of_nat i) = L (p + of_nat i) (m (p + of_nat i)) (byte_of i v)"
  using assms
proof (induction n arbitrary: p v i)
  case (Suc n)
  show ?case
  proof (cases i)
    case 0
    then show ?thesis by (simp add: byte_of_def)
  next
    case (Suc k)
    have "p + of_nat i \<noteq> p"
    proof
      assume "p + of_nat i = p"
      then have "(of_nat i :: u64) = 0" by simp
      moreover have "unat (of_nat i :: u64) = i" using Suc.prems by (intro unat_of_nat_no_wrap) simp
      ultimately show False using Suc by simp
    qed
    moreover have "put_bytes L n (p + 1) (drop_bit 8 v) m (p + 1 + of_nat k) =
        L (p + 1 + of_nat k) (m (p + 1 + of_nat k)) (byte_of k (drop_bit 8 v))"
      using Suc.IH [of k "p + 1" "drop_bit 8 v"] Suc.prems Suc by simp
    moreover have "byte_of k (drop_bit 8 v) = byte_of i v" using Suc by (simp add: byte_of_def ac_simps)
    moreover have "p + 1 + of_nat k = p + of_nat i" using Suc by (simp add: algebra_simps)
    ultimately show ?thesis by simp
  qed
qed simp

lemma byte_of_stored: "i < n \<Longrightarrow> n \<le> 8 \<Longrightarrow> byte_of i (stored m n p) = m (p + of_nat i)"
proof (induction n arbitrary: p i)
  case (Suc n)
  show ?case
  proof (cases i)
    case 0
    have "ucast (push_bit 8 (stored m n (p + 1))) = (0 :: u8)" by (rule bit_word_eqI) (auto simp: bit_simps)
    moreover have "ucast (ucast (m p) :: u64) = m p" by (rule bit_word_eqI) (auto simp: bit_simps)
    ultimately show ?thesis using 0 by (simp add: byte_of_def unsigned_or_eq)
  next
    case (Suc k)
    have "drop_bit 8 (ucast (m p) :: u64) = 0" by (rule bit_word_eqI) (auto simp: bit_simps dest: bit_imp_le_length)
    then have d: "drop_bit 8 (stored m (Suc n) p) = take_bit 56 (stored m n (p + 1))"
      by (simp add: drop_bit_push_bit drop_bit_or) (simp add: bit_eq_iff bit_simps)
    have "8 * i = 8 * k + 8" using Suc by simp
    then have "drop_bit (8 * i) (stored m (Suc n) p) = drop_bit (8 * k) (drop_bit 8 (stored m (Suc n) p))" by simp
    then have "byte_of i (stored m (Suc n) p) = byte_of k (take_bit 56 (stored m n (p + 1)))" by (simp only: byte_of_def d)
    also have "\<dots> = byte_of k (stored m n (p + 1))"
      unfolding byte_of_def by (rule bit_word_eqI) (use Suc Suc.prems in \<open>auto simp: bit_simps\<close>)
    also have "\<dots> = m (p + 1 + of_nat k)" using Suc.IH [of k "p + 1"] Suc.prems Suc by simp
    finally show ?thesis using Suc by (simp add: algebra_simps)
  qed
qed simp

lemma u32_bytes:
  fixes v w :: u32
  assumes "\<And>i. i < 4 \<Longrightarrow> byte_of i v = byte_of i w"
  shows "v = w"
proof (rule bit_word_eqI)
  fix n assume "n < LENGTH(32)"
  then have "n div 8 < 4" by simp
  from assms [OF this] have "bit (byte_of (n div 8) v) (n mod 8) = bit (byte_of (n div 8) w) (n mod 8)" by simp
  moreover have "bit (byte_of (n div 8) x) (n mod 8) = bit x n" for x :: u32
    by (simp add: byte_of_def bit_ucast_iff bit_drop_bit_eq)
  ultimately show "bit v n = bit w n" by simp
qed

text \<open>Bytes of different registers, in whatever group, are different bytes of memory.\<close>

lemma register_bytes_differ:
  fixes st :: pci_state and f f' :: pci_function_addr and off off' :: u16
  defines "G \<equiv> \<lambda>f. groups st ! unat (segment_group f)"
  defines "a \<equiv> \<lambda>f off. group_vaddr (G f) + of_nat (function_index (G f) f * 0x1000 + unat (off :: u16))"
  assumes "windows_apart st" "unat (segment_group f) < length (groups st)" "unat (segment_group f') < length (groups st)"
    and f: "function_in (G f) f" "function_in (G f') f'" and o: "unat off + n \<le> 0x1000" "unat off' + n' \<le> 0x1000"
    and ne: "f' \<noteq> f \<or> unat off' + n' \<le> unat off \<or> unat off + n \<le> unat off'" and ij: "i < n'" "j < n"
  shows "a f' off' + of_nat i \<noteq> a f off + of_nat j"
proof -
  let ?x = "function_index (G f') f' * 0x1000 + unat off' + i" and ?y = "function_index (G f) f * 0x1000 + unat off + j"
  have w: "function_index (G h) h * 0x1000 + k < window_size (G h)" if "function_in (G h) h" "k < 0x1000" for h k
  proof -
    have le: "unat (bus_num h) < unat (end_bus_num (G h))" "unat (start_bus_num (G h)) \<le> unat (bus_num h)"
      "unat (device_num h) \<le> 31" "unat (function_num h) \<le> 7"
      using that(1) by (simp_all add: function_in_def word_less_nat_alt word_le_nat_alt)
    then obtain d where d: "unat (bus_num h) = unat (start_bus_num (G h)) + d" using le_Suc_ex by blast
    then have "Suc d \<le> unat (end_bus_num (G h)) - unat (start_bus_num (G h))" using le(1) by simp
    then have "Suc d * 0x100000 \<le> window_size (G h)" unfolding window_size_def by (rule mult_right_mono) simp
    then show ?thesis using d le(3, 4) that(2) by (simp add: function_index_def)
  qed
  have in_window: "?x < window_size (G f')" "?y < window_size (G f)"
    using w [OF f(2), of "unat off' + i"] w [OF f(1), of "unat off + j"] o ij by simp_all
  show ?thesis
  proof (cases "segment_group f' = segment_group f")
    case False
    then have "unat (segment_group f') \<noteq> unat (segment_group f)" by (simp add: word_unat_eq_iff)
    then have "group_vaddr (G f') + of_nat ?x \<noteq> group_vaddr (G f) + of_nat ?y"
      using assms(3-5) in_window unfolding windows_apart_def G_def by blast
    then show ?thesis by (simp add: a_def add.assoc)
  next
    case True
    then have g: "G f' = G f" by (simp add: G_def)
    have "?x \<noteq> ?y"
    proof (cases "f' = f")
      case True
      with ne ij show ?thesis by auto
    next
      case False
      then have "function_index (G f) f' \<noteq> function_index (G f) f"
        using function_index_inject [OF _ f(1) True] f(2) g by auto
      with ij o show ?thesis unfolding g by linarith
    qed
    moreover have "?x < 2 ^ 64" "?y < 2 ^ 64"
      using function_index_less [OF f(2)] function_index_less [OF f(1)] ij o by simp_all
    then have "unat (of_nat ?x :: u64) = ?x" "unat (of_nat ?y :: u64) = ?y" by (simp_all add: unat_of_nat_no_wrap del: of_nat_add of_nat_mult)
    ultimately have "(of_nat ?x :: u64) \<noteq> of_nat ?y" by metis
    then show ?thesis by (simp add: a_def g add.assoc)
  qed
qed

text \<open>
  C28. Configuration registers are independent: \<open>pci_config_write32\<close> reaches the four bytes of the register it
  is given, each of which becomes what its device keeps of the byte written over the old one, so that
  \<open>pci_config_read32\<close> reads the value back from a register that keeps all of it; and no register of any
  other function, of the same or of another segment group, and no other register of the function changes.
\<close>

theorem config_write_read:
  fixes f :: pci_function_addr and st :: pci_state and off :: u16
  assumes "windows_apart st" "unat (segment_group f) < length (groups st)"
    and "function_in (groups st ! unat (segment_group f)) f" "unat off + 4 \<le> 0x1000" "conf_addr st f off = Inr a"
  shows "\<exists>cm' w. pci_config_write32 L st f off v cm = Inr cm' \<and> pci_config_read32 st cm' f off = Inr w \<and>
    (\<forall>i < 4. byte_of i w = L (a + of_nat i) (cm (a + of_nat i)) (byte_of i v)) \<and>
    ((\<forall>i < 4. \<forall>x y. L (a + of_nat i) x y = y) \<longrightarrow> w = v) \<and>
    (\<forall>f' off'. unat (segment_group f') < length (groups st) \<and> function_in (groups st ! unat (segment_group f')) f' \<and>
       unat off' + 4 \<le> 0x1000 \<and> (f' \<noteq> f \<or> unat off' + 4 \<le> unat off \<or> unat off + 4 \<le> unat off') \<longrightarrow>
       pci_config_read32 st cm' f' off' = pci_config_read32 st cm f' off')"
proof -
  define A where "A f off = group_vaddr (groups st ! unat (segment_group f)) +
    of_nat (function_index (groups st ! unat (segment_group f)) f * 0x1000 + unat (off :: u16))" for f off
  have addr: "conf_addr st f' off' = Inr (A f' off')"
    if "unat (segment_group f') < length (groups st)" "function_in (groups st ! unat (segment_group f')) f'" for f' off'
    using that(1) conf_addr_eq [OF that(2)] by (simp add: conf_addr_def A_def)
  have a: "a = A f off" using addr [OF assms(2, 3), of off] assms(5) by simp
  let ?cm = "put_bytes L 4 a (ucast v) cm"
  let ?w = "ucast (stored ?cm 4 a) :: u32"
  have b4: "byte_of i (ucast x :: u32) = byte_of i x" if "i < 4" for i and x :: u64
    unfolding byte_of_def by (rule bit_word_eqI) (use that in \<open>auto simp: bit_simps\<close>)
  have b4': "byte_of i (ucast x :: u64) = byte_of i x" if "i < 4" for i and x :: u32
    unfolding byte_of_def by (rule bit_word_eqI) (use that in \<open>auto simp: bit_simps dest: bit_imp_le_length\<close>)
  have bytes: "byte_of i ?w = L (a + of_nat i) (cm (a + of_nat i)) (byte_of i v)" if "i < 4" for i
    using that byte_of_stored [of i 4 ?cm a] put_bytes_at [of i 4 L a "ucast v" cm] by (simp add: b4 b4')
  then have whole: "?w = v" if "\<forall>i < 4. \<forall>x y. L (a + of_nat i) x y = y" using that by (intro u32_bytes) simp
  have "pci_config_read32 st ?cm f' off' = pci_config_read32 st cm f' off'"
    if f': "unat (segment_group f') < length (groups st)" "function_in (groups st ! unat (segment_group f')) f'" "unat off' + 4 \<le> 0x1000"
      "f' \<noteq> f \<or> unat off' + 4 \<le> unat off \<or> unat off + 4 \<le> unat off'" for f' off'
  proof -
    have "stored ?cm 4 (A f' off') = stored cm 4 (A f' off')"
      using register_bytes_differ [OF assms(1, 2) f'(1) assms(3) f'(2) assms(4) f'(3, 4), folded A_def]
      by (intro stored_cong put_bytes_frame) (auto simp: a)
    then show ?thesis by (simp add: pci_config_read32_def addr [OF f'(1, 2)])
  qed
  then show ?thesis using bytes whole
    by (intro exI [of _ ?cm] exI [of _ ?w]) (auto simp: pci_config_write32_def pci_config_read32_def assms(5))
qed

text \<open>Two groups, and a register whose device keeps the upper half.\<close>

definition two_groups :: pci_state where
  "two_groups = card_state\<lparr>groups := [\<lparr>group_paddr = 0xE0000000, group_vaddr = 0xB0000000, start_bus_num = 0, end_bus_num = 1\<rparr>,
     \<lparr>group_paddr = 0xD0000000, group_vaddr = 0xC0000000, start_bus_num = 0, end_bus_num = 1\<rparr>]\<rparr>"

lemma two_groups_apart: "windows_apart two_groups"
proof -
  have ne: "0xB0000000 + of_nat k \<noteq> (0xC0000000 + of_nat l :: u64)" if "k < 0x100000" "l < 0x100000" for k l
  proof -
    have "unat (0xB0000000 + of_nat k :: u64) = 0xB0000000 + k" "unat (0xC0000000 + of_nat l :: u64) = 0xC0000000 + l"
      using that by (subst unat_add_no_wrap; simp add: unat_of_nat_no_wrap)+
    moreover have "0xB0000000 + k \<noteq> 0xC0000000 + l" using that by linarith
    ultimately show ?thesis by metis
  qed
  show ?thesis
    unfolding windows_apart_def
  proof (intro allI impI)
    fix i j k l
    assume a: "i < length (groups two_groups)" "j < length (groups two_groups)" "i \<noteq> j"
      "k < window_size (groups two_groups ! i)" "l < window_size (groups two_groups ! j)"
    then have "i = 0 \<and> j = 1 \<or> i = 1 \<and> j = 0" by (auto simp: two_groups_def)
    then show "group_vaddr (groups two_groups ! i) + of_nat k \<noteq> group_vaddr (groups two_groups ! j) + of_nat l"
    proof (elim disjE conjE)
      assume "i = 0" "j = 1"
      then show ?thesis using a(4, 5) ne [of k l] by (simp add: two_groups_def window_size_def)
    next
      assume "i = 1" "j = 0"
      then show ?thesis using a(4, 5) ne [of l k, symmetric] by (simp add: two_groups_def window_size_def)
    qed
  qed
qed

theorem config_write_read_witness:
  "\<exists>cm'. pci_config_write32 (\<lambda>p x y. if p AND 3 < 2 then x else y) two_groups
      \<lparr>segment_group = 0, bus_num = 0, device_num = 3, function_num = 0\<rparr> 4 0xFFFFFFFF (\<lambda>_. 0) = Inr cm' \<and>
    pci_config_read32 two_groups cm' \<lparr>segment_group = 1, bus_num = 0, device_num = 3, function_num = 0\<rparr> 4 = Inr 0"
proof -
  let ?f = "\<lparr>segment_group = 0, bus_num = 0, device_num = 3, function_num = 0\<rparr> :: pci_function_addr"
  let ?f' = "\<lparr>segment_group = 1, bus_num = 0, device_num = 3, function_num = 0\<rparr> :: pci_function_addr"
  have f: "function_in (groups two_groups ! unat (segment_group ?f)) ?f" "function_in (groups two_groups ! unat (segment_group ?f')) ?f'"
    "unat (segment_group ?f) < length (groups two_groups)" "unat (segment_group ?f') < length (groups two_groups)" "?f' \<noteq> ?f"
    by (simp_all add: function_in_def two_groups_def)
  have c: "\<exists>a. conf_addr two_groups ?f 4 = Inr a" "\<exists>a. conf_addr two_groups ?f' 4 = Inr a"
    using f(3, 4) by (simp_all add: conf_addr_def)
  then have "pci_config_read32 two_groups (\<lambda>_. 0) ?f' 4 = Inr 0" by (auto simp: pci_config_read32_def numeral_eq_Suc)
  with c(1) config_write_read [OF two_groups_apart f(3, 1), of 4 _ "\<lambda>p x y. if p AND 3 < 2 then x else y" "0xFFFFFFFF" "\<lambda>_. 0"] f
  show ?thesis by fastforce
qed

end
