(* ===== verification/Interrupt.thy ===== *)
theory Interrupt
  imports Prelude
begin

text \<open>
  The interrupt table of a processor, \<^verbatim>\<open>src/kernel/interrupt.c\<close>: gates, vectors and their owners. The
  addresses of the handlers are fixed when the kernel is linked and are a parameter, \<open>link\<close>; so is
  the code segment selector \<open>cs\<close> the processor reports. What the processor reads out of a gate
  is written down beside the macros that build it.
\<close>

section \<open>Interrupt gates\<close>

record idt_gate_descr =
  gate_low :: u64
  gate_high :: u64

definition IDT_GATE_PRESENT_FLAG :: u64 where "IDT_GATE_PRESENT_FLAG = 0x800000000000"
definition IDT_GATE_TYPE_INTERRUPT :: u64 where "IDT_GATE_TYPE_INTERRUPT = 0xE0000000000"

definition IDT_GATE_DPL :: "u64 \<Rightarrow> u64" where
  "IDT_GATE_DPL x = push_bit 45 x"

text \<open>The selector is shifted as an \<^verbatim>\<open>int\<close> and then converted, with its sign.\<close>

definition IDT_GATE_SEG_SEL :: "u16 \<Rightarrow> u64" where
  "IDT_GATE_SEG_SEL x = scast (push_bit 16 (ucast x :: u32))"

definition IDT_GATE_IST :: "u64 \<Rightarrow> u64" where
  "IDT_GATE_IST x = push_bit 32 (x AND 7)"

definition IDT_GATE_OFFSET_LO :: "u64 \<Rightarrow> u64" where
  "IDT_GATE_OFFSET_LO x = (x AND 0xFFFF) OR (push_bit 32 x AND 0xFFFF000000000000)"

definition IDT_GATE_OFFSET_HI :: "u64 \<Rightarrow> u64" where
  "IDT_GATE_OFFSET_HI x = drop_bit 32 x"

definition IDT_INT_GATE :: "addr \<Rightarrow> u16 \<Rightarrow> u64 \<Rightarrow> u64 \<Rightarrow> idt_gate_descr" where
  "IDT_INT_GATE offset cs dpl ist =
     \<lparr>gate_low = IDT_GATE_PRESENT_FLAG OR IDT_GATE_DPL dpl OR IDT_GATE_TYPE_INTERRUPT OR IDT_GATE_IST ist
        OR IDT_GATE_SEG_SEL cs OR IDT_GATE_OFFSET_LO offset,
      gate_high = IDT_GATE_OFFSET_HI offset\<rparr>"

definition no_gate :: idt_gate_descr where
  "no_gate = \<lparr>gate_low = 0, gate_high = 0\<rparr>"

text \<open>The fields of a 16-byte gate as the processor reads them.\<close>

definition gate_offset :: "idt_gate_descr \<Rightarrow> addr" where
  "gate_offset g = take_bit 16 (gate_low g) OR push_bit 16 (take_bit 16 (drop_bit 48 (gate_low g)))
     OR push_bit 32 (take_bit 32 (gate_high g))"

definition gate_selector :: "idt_gate_descr \<Rightarrow> u64" where
  "gate_selector g = take_bit 16 (drop_bit 16 (gate_low g))"

definition gate_ist :: "idt_gate_descr \<Rightarrow> u64" where
  "gate_ist g = take_bit 3 (drop_bit 32 (gate_low g))"

definition gate_type :: "idt_gate_descr \<Rightarrow> u64" where
  "gate_type g = take_bit 5 (drop_bit 40 (gate_low g))"

definition gate_dpl :: "idt_gate_descr \<Rightarrow> u64" where
  "gate_dpl g = take_bit 2 (drop_bit 45 (gate_low g))"

definition gate_present :: "idt_gate_descr \<Rightarrow> bool" where
  "gate_present g = bit (gate_low g) 47"

section \<open>The table and its vectors\<close>

definition IDT_ENTRY_COUNT :: nat where "IDT_ENTRY_COUNT = 256"
definition INT_VEC_INTER_PROCESSOR_CALL :: nat where "INT_VEC_INTER_PROCESSOR_CALL = 32"
definition INT_VEC_SPURIOUS :: nat where "INT_VEC_SPURIOUS = 255"

datatype isr = isr_divide_error | isr_debug | isr_nmi | isr_breakpoint | isr_overflow | isr_bound_range
  | isr_invalid_opcode | isr_no_coproc | isr_double_fault | isr_invalid_tss | isr_segment_not_present
  | isr_ss_fault | isr_general_protection | isr_page_fault | isr_math_fault | isr_align_check
  | isr_machine_check | isr_simd_exception | isr_virtualization_exception | isr_control_protection
  | isr_inter_processor_call | isr_spurious_int

text \<open>One processor's table: \<open>idt_limit\<close> is what the last \<open>load_idt\<close> loaded.\<close>

record idt_state =
  idt :: "idt_gate_descr list"
  int_used :: "bool list"
  idt_limit :: "u16 option"

text \<open>The first vector that is not used, from \<open>i\<close> on.\<close>

fun free_vector :: "nat \<Rightarrow> bool list \<Rightarrow> nat option" where
  "free_vector i [] = None"
| "free_vector i (u # us) = (if \<not> u then Some i else free_vector (i + 1) us)"

definition alloc_interrupt_vector :: "u16 \<Rightarrow> addr \<Rightarrow> idt_state \<Rightarrow> u8 \<times> idt_state" where
  "alloc_interrupt_vector cs isr s =
     (case free_vector 0 (take (IDT_ENTRY_COUNT - 32) (int_used s)) of
        Some i \<Rightarrow> (of_nat (i + 32), s\<lparr>idt := (idt s)[i + 32 := IDT_INT_GATE isr cs 0 0], int_used := (int_used s)[i := True]\<rparr>)
      | None \<Rightarrow> (0, s))"

text \<open>For a vector below 32 the second store is in front of the array.\<close>

definition free_interrupt_vector :: "u8 \<Rightarrow> idt_state \<Rightarrow> idt_state res" where
  "free_interrupt_vector vec s =
     (let s = s\<lparr>idt := (idt s)[unat vec := no_gate]\<rparr>
      in if unat vec < 32 then Inl Overrun else Inr (s\<lparr>int_used := (int_used s)[unat vec - 32 := False]\<rparr>))"

definition exception_gates :: "u16 \<Rightarrow> (isr \<Rightarrow> addr) \<Rightarrow> idt_gate_descr list" where
  "exception_gates cs link =
     [IDT_INT_GATE (link isr_divide_error) cs 0 0, IDT_INT_GATE (link isr_debug) cs 0 0,
      IDT_INT_GATE (link isr_nmi) cs 0 0, IDT_INT_GATE (link isr_breakpoint) cs 0 0,
      IDT_INT_GATE (link isr_overflow) cs 0 0, IDT_INT_GATE (link isr_bound_range) cs 0 0,
      IDT_INT_GATE (link isr_invalid_opcode) cs 0 0, IDT_INT_GATE (link isr_no_coproc) cs 0 0,
      IDT_INT_GATE (link isr_double_fault) cs 0 0, no_gate,
      IDT_INT_GATE (link isr_invalid_tss) cs 0 0, IDT_INT_GATE (link isr_segment_not_present) cs 0 0,
      IDT_INT_GATE (link isr_ss_fault) cs 0 0, IDT_INT_GATE (link isr_general_protection) cs 0 0,
      IDT_INT_GATE (link isr_page_fault) cs 0 0, no_gate,
      IDT_INT_GATE (link isr_math_fault) cs 0 0, IDT_INT_GATE (link isr_align_check) cs 0 0,
      IDT_INT_GATE (link isr_machine_check) cs 0 0, IDT_INT_GATE (link isr_simd_exception) cs 0 0,
      IDT_INT_GATE (link isr_virtualization_exception) cs 0 0, IDT_INT_GATE (link isr_control_protection) cs 0 0]"

fun set_gates :: "nat \<Rightarrow> idt_gate_descr list \<Rightarrow> idt_gate_descr list \<Rightarrow> idt_gate_descr list" where
  "set_gates i [] t = t"
| "set_gates i (g # gs) t = set_gates (i + 1) gs (t[i := g])"

definition init_idt :: "u16 \<Rightarrow> (isr \<Rightarrow> addr) \<Rightarrow> idt_state \<Rightarrow> idt_state" where
  "init_idt cs link s =
     (let t = set_gates 0 (exception_gates cs link) (idt s);
          t = set_gates 22 (replicate (IDT_ENTRY_COUNT - 22) no_gate) t;
          t = t[INT_VEC_INTER_PROCESSOR_CALL := IDT_INT_GATE (link isr_inter_processor_call) cs 0 0];
          u = (int_used s)[INT_VEC_INTER_PROCESSOR_CALL - 32 := True];
          t = t[INT_VEC_SPURIOUS := IDT_INT_GATE (link isr_spurious_int) cs 0 0];
          u = u[INT_VEC_SPURIOUS - 32 := True]
      in s\<lparr>idt := t, int_used := u, idt_limit := Some (of_nat (IDT_ENTRY_COUNT * 16 - 1))\<rparr>)"

section \<open>What the processor reads out of a gate\<close>

lemma gate_masks:
  "(0xFFFF :: u64) = mask 16" "(0xFFFF000000000000 :: u64) = push_bit 48 (mask 16)" "(7 :: u64) = mask 3"
  "(0x800000000000 :: u64) = push_bit 47 1" "(0xE0000000000 :: u64) = push_bit 41 (mask 3)"
  by (simp_all add: mask_eq_exp_minus_1 push_bit_eq_mult)

lemmas gate_macros = IDT_INT_GATE_def IDT_GATE_PRESENT_FLAG_def IDT_GATE_DPL_def IDT_GATE_TYPE_INTERRUPT_def
  IDT_GATE_IST_def IDT_GATE_SEG_SEL_def IDT_GATE_OFFSET_LO_def IDT_GATE_OFFSET_HI_def

text \<open>Bit by bit: which bits each macro can set.\<close>

lemma gate_bits:
  "bit IDT_GATE_PRESENT_FLAG n \<longleftrightarrow> n = 47"
  "bit IDT_GATE_TYPE_INTERRUPT n \<longleftrightarrow> 41 \<le> n \<and> n < 44"
  "bit (IDT_GATE_DPL dpl) n \<longleftrightarrow> n < 64 \<and> 45 \<le> n \<and> bit dpl (n - 45)"
  "bit (IDT_GATE_IST ist) n \<longleftrightarrow> 32 \<le> n \<and> n < 35 \<and> bit ist (n - 32)"
  "bit (IDT_GATE_OFFSET_LO offset) n \<longleftrightarrow> n < 16 \<and> bit offset n \<or> 48 \<le> n \<and> n < 64 \<and> bit offset (n - 32)"
proof -
  show "bit IDT_GATE_PRESENT_FLAG n \<longleftrightarrow> n = 47"
    unfolding IDT_GATE_PRESENT_FLAG_def gate_masks(4) by (simp only: bit_push_bit_iff bit_1_iff) auto
  show "bit IDT_GATE_TYPE_INTERRUPT n \<longleftrightarrow> 41 \<le> n \<and> n < 44"
    unfolding IDT_GATE_TYPE_INTERRUPT_def gate_masks(5) by (simp only: bit_push_bit_iff bit_mask_iff) auto
  show "bit (IDT_GATE_DPL dpl) n \<longleftrightarrow> n < 64 \<and> 45 \<le> n \<and> bit dpl (n - 45)"
    by (auto simp: IDT_GATE_DPL_def bit_push_bit_iff)
  show "bit (IDT_GATE_IST ist) n \<longleftrightarrow> 32 \<le> n \<and> n < 35 \<and> bit ist (n - 32)"
    unfolding IDT_GATE_IST_def gate_masks(3) by (simp only: bit_push_bit_iff bit_and_iff bit_mask_iff) auto
  show "bit (IDT_GATE_OFFSET_LO offset) n \<longleftrightarrow> n < 16 \<and> bit offset n \<or> 48 \<le> n \<and> n < 64 \<and> bit offset (n - 32)"
    unfolding IDT_GATE_OFFSET_LO_def gate_masks(1, 2)
    by (simp only: bit_push_bit_iff bit_and_iff bit_or_iff bit_mask_iff) auto
qed

lemma selector_bit:
  assumes "cs < 0x8000"
  shows "bit (IDT_GATE_SEG_SEL cs) n \<longleftrightarrow> 16 \<le> n \<and> n < 32 \<and> bit cs (n - 16)"
proof -
  have "\<not> bit cs 15" using assms by (intro not_bit_above [of _ 15]) (simp_all add: word_less_nat_alt)
  moreover have "\<not> bit cs k" if "16 \<le> k" for k using that bit_imp_le_length [of cs k] by auto
  ultimately show ?thesis
    by (cases "n < 31"; cases "n = 31") (auto simp: IDT_GATE_SEG_SEL_def bit_simps min_def)
qed

lemma gate_low_bit:
  "bit (gate_low (IDT_INT_GATE isr cs dpl ist)) n \<longleftrightarrow>
     n = 47 \<or> n < 64 \<and> 45 \<le> n \<and> bit dpl (n - 45) \<or> 41 \<le> n \<and> n < 44 \<or> 32 \<le> n \<and> n < 35 \<and> bit ist (n - 32) \<or>
     bit (IDT_GATE_SEG_SEL cs) n \<or> n < 16 \<and> bit isr n \<or> 48 \<le> n \<and> n < 64 \<and> bit isr (n - 32)"
  by (simp only: IDT_INT_GATE_def idt_gate_descr.simps bit_or_iff gate_bits disj_assoc)

lemma idt_gate_fields:
  fixes isr :: addr
  assumes "cs < 0x8000" "dpl < 4" "ist < 8"
  defines "g \<equiv> IDT_INT_GATE isr cs dpl ist"
  shows "gate_offset g = isr" "gate_present g" "gate_selector g = ucast cs" "gate_ist g = ist" "gate_dpl g = dpl"
    "gate_type g = 0xE"
proof -
  have dpl: "\<not> bit dpl k" if "2 \<le> k" for k
    using not_bit_above [of dpl 2 k] assms(2) that by (simp add: word_less_nat_alt)
  have ist: "\<not> bit ist k" if "3 \<le> k" for k
    using not_bit_above [of ist 3 k] assms(3) that by (simp add: word_less_nat_alt)
  have cs: "\<not> bit cs k" if "16 \<le> k" for k
    using bit_imp_le_length [of cs k] that by auto
  note low = gate_low_bit [of isr cs dpl ist, folded g_def] selector_bit [OF assms(1)]
  have high: "gate_high g = drop_bit 32 isr" by (simp add: g_def IDT_INT_GATE_def IDT_GATE_OFFSET_HI_def)
  have r: "n < 16 \<Longrightarrow> bit (gate_low g) n = bit isr n"
    "16 \<le> n \<Longrightarrow> n < 32 \<Longrightarrow> bit (gate_low g) n = bit cs (n - 16)"
    "32 \<le> n \<Longrightarrow> n < 35 \<Longrightarrow> bit (gate_low g) n = bit ist (n - 32)"
    "40 \<le> n \<Longrightarrow> n < 45 \<Longrightarrow> bit (gate_low g) n = (n \<noteq> 40 \<and> n \<noteq> 44)"
    "45 \<le> n \<Longrightarrow> n < 47 \<Longrightarrow> bit (gate_low g) n = bit dpl (n - 45)"
    "bit (gate_low g) 47"
    "48 \<le> n \<Longrightarrow> n < 64 \<Longrightarrow> bit (gate_low g) n = bit isr (n - 32)" for n
    unfolding low by (auto simp: dpl)
  show "gate_present g" by (simp add: gate_present_def r)
  show "gate_offset g = isr"
  proof (rule bit_word_eqI)
    fix n assume "n < LENGTH(64)"
    then consider "n < 16" | "16 \<le> n" "n < 32" | "32 \<le> n" "n < 64" by fastforce
    moreover have "n - 16 < 16 \<longleftrightarrow> n < 32" "n - 32 < 32 \<longleftrightarrow> n < 64" by auto
    ultimately show "bit (gate_offset g) n = bit isr n"
      by cases (simp_all add: gate_offset_def high bit_or_iff bit_push_bit_iff bit_take_bit_iff bit_drop_bit_eq r)
  qed
  show "gate_selector g = ucast cs"
  proof (rule bit_word_eqI)
    fix n assume "n < LENGTH(64)"
    then show "bit (gate_selector g) n = bit (ucast cs :: u64) n"
      by (cases "n < 16") (simp_all add: gate_selector_def bit_take_bit_iff bit_drop_bit_eq bit_ucast_iff r cs)
  qed
  show "gate_ist g = ist"
  proof (rule bit_word_eqI)
    fix n assume "n < LENGTH(64)"
    then show "bit (gate_ist g) n = bit ist n"
      by (cases "n < 3") (simp_all add: gate_ist_def bit_take_bit_iff bit_drop_bit_eq r ist)
  qed
  show "gate_dpl g = dpl"
  proof (rule bit_word_eqI)
    fix n assume "n < LENGTH(64)"
    then show "bit (gate_dpl g) n = bit dpl n"
      by (cases "n < 2") (simp_all add: gate_dpl_def bit_take_bit_iff bit_drop_bit_eq r dpl)
  qed
  have e: "(0xE :: u64) = push_bit 1 (mask 3)" by (simp add: mask_eq_exp_minus_1 push_bit_eq_mult)
  show "gate_type g = 0xE"
    unfolding e by (rule bit_word_eqI)
      (simp only: gate_type_def bit_take_bit_iff bit_drop_bit_eq comp_def bit_push_bit_iff bit_mask_iff, auto simp: r)
qed

text \<open>
  The gate \<open>IDT_INT_GATE\<close> builds is the one its arguments ask for: the processor reads the
  handler's address, the code segment, the privilege level and the stack back out of it, a present
  64-bit interrupt gate.
\<close>

theorem idt_gate_roundtrip:
  assumes "cs < 0x8000" "dpl < 4" "ist < 8"
  shows "gate_offset (IDT_INT_GATE isr cs dpl ist) = isr \<and> gate_present (IDT_INT_GATE isr cs dpl ist) \<and>
    gate_selector (IDT_INT_GATE isr cs dpl ist) = ucast cs \<and> gate_ist (IDT_INT_GATE isr cs dpl ist) = ist \<and>
    gate_dpl (IDT_INT_GATE isr cs dpl ist) = dpl \<and> gate_type (IDT_INT_GATE isr cs dpl ist) = 0xE"
  using idt_gate_fields [OF assms] by blast

theorem idt_gate_roundtrip_witness:
  "gate_offset (IDT_INT_GATE 0xFFFFFF1000001234 8 3 1) = 0xFFFFFF1000001234 \<and>
   gate_dpl (IDT_INT_GATE 0xFFFFFF1000001234 8 3 1) = 3"
  using idt_gate_roundtrip [of 8 3 1 "0xFFFFFF1000001234"] by simp

section \<open>Who owns a vector\<close>

text \<open>
  The contract of an allocator of named resources, each with the value its owner registered: \<open>grab\<close>
  returns a name nobody owns, or \<open>null\<close> and does nothing; \<open>give\<close> is for names in use. A client of
  such an allocator keeps a list of what it has been given and serves requests from it.
\<close>

datatype 'r request = Grab 'r | Give nat

fun serve :: "('r \<Rightarrow> 's \<Rightarrow> 'a \<times> 's) \<Rightarrow> ('a \<Rightarrow> 's \<Rightarrow> 's res) \<Rightarrow> 'a \<Rightarrow>
    'r request \<Rightarrow> ('a \<times> 'r) list \<times> 's \<Rightarrow> (('a \<times> 'r) list \<times> 's) res" where
  "serve grab give null (Grab r) (held, s) =
     (case grab r s of (a, s) \<Rightarrow> Inr (if a = null then held else (a, r) # held, s))"
| "serve grab give null (Give n) (held, s) =
     (if n < length held
      then bindR (give (fst (held ! n)) s) (\<lambda>s. Inr (take n held @ drop (Suc n) held, s))
      else Inr (held, s))"

locale registry =
  fixes grab :: "'r \<Rightarrow> 's \<Rightarrow> 'a \<times> 's" and give :: "'a \<Rightarrow> 's \<Rightarrow> 's res"
    and inv :: "'s \<Rightarrow> bool" and owner :: "'s \<Rightarrow> 'a \<Rightarrow> 'r option" and null :: 'a
  assumes grab_null: "inv s \<Longrightarrow> grab r s = (null, t) \<Longrightarrow> t = s"
    and grab_fresh: "inv s \<Longrightarrow> grab r s = (a, t) \<Longrightarrow> a \<noteq> null \<Longrightarrow>
      inv t \<and> owner s a = None \<and> owner t = (owner s)(a := Some r)"
    and give_back: "inv s \<Longrightarrow> owner s a = Some r \<Longrightarrow>
      \<exists>t. give a s = Inr t \<and> inv t \<and> owner t = (owner s)(a := None)"
begin

definition consistent :: "('a \<Rightarrow> 'r option) \<Rightarrow> 'a set \<Rightarrow> ('a \<times> 'r) list \<times> 's \<Rightarrow> bool" where
  "consistent others reserved = (\<lambda>(held, s). inv s \<and> distinct (map fst held) \<and>
     (\<forall>(a, r) \<in> set held. owner s a = Some r \<and> a \<notin> reserved) \<and> (\<forall>a \<in> reserved. owner s a = others a))"

lemma serve_consistent:
  assumes "consistent others reserved p" "\<forall>a \<in> reserved. others a \<noteq> None"
  shows "\<exists>p'. serve grab give null q p = Inr p' \<and> consistent others reserved p'"
proof (cases q)
  case (Grab r)
  obtain held s where p: "p = (held, s)" by fastforce
  obtain a t where g: "grab r s = (a, t)" by fastforce
  from assms(1) have inv: "inv s" by (simp add: consistent_def p)
  show ?thesis
  proof (cases "a = null")
    case True
    with grab_null [OF inv] g assms(1) show ?thesis by (auto simp: Grab p)
  next
    case False
    with grab_fresh [OF inv g] have t: "inv t" "owner s a = None" "owner t = (owner s)(a := Some r)" by auto
    have "consistent others reserved ((a, r) # held, t)"
      using assms t by (fastforce simp: consistent_def p)
    with g False show ?thesis by (simp add: Grab p)
  qed
next
  case (Give n)
  obtain held s where p: "p = (held, s)" by fastforce
  show ?thesis
  proof (cases "n < length held")
    case True
    obtain a r where a: "held ! n = (a, r)" by fastforce
    then have mem: "(a, r) \<in> set held" using True nth_mem by metis
    with assms(1) have inv: "inv s" "owner s a = Some r" "a \<notin> reserved" by (auto simp: consistent_def p)
    from give_back [OF this(1, 2)] obtain t where
      t: "give a s = Inr t" "inv t" "owner t = (owner s)(a := None)" by blast
    have held: "held = take n held @ (a, r) # drop (Suc n) held" using id_take_nth_drop [OF True] a by simp
    let ?rest = "take n held @ drop (Suc n) held"
    have "distinct (map fst (take n held @ (a, r) # drop (Suc n) held))"
      using assms(1) held by (simp add: consistent_def p)
    then have d: "distinct (map fst ?rest)" "a \<notin> fst ` set ?rest" by (auto simp: image_Un)
    have old: "owner s b = Some x \<and> b \<notin> reserved" "b \<noteq> a" if "(b, x) \<in> set ?rest" for b x
    proof -
      have "(b, x) \<in> set held" using that by (auto dest: in_set_takeD in_set_dropD)
      then show "owner s b = Some x \<and> b \<notin> reserved" using assms(1) by (auto simp: consistent_def p)
      show "b \<noteq> a" using that d(2) by force
    qed
    have "consistent others reserved (?rest, t)"
      unfolding consistent_def prod.case
    proof (intro conjI ballI)
      show "inv t" "distinct (map fst ?rest)" by (rule t(2), rule d(1))
      show "case q of (b, x) \<Rightarrow> owner t b = Some x \<and> b \<notin> reserved" if "q \<in> set ?rest" for q
        using old [of "fst q" "snd q"] that by (simp add: t(3) case_prod_beta)
      show "owner t b = others b" if "b \<in> reserved" for b
        using that assms(1) inv(3) by (auto simp: consistent_def p t(3))
    qed
    with t(1) True a show ?thesis by (simp add: Give p)
  next
    case False
    with assms(1) show ?thesis by (simp add: Give p)
  qed
qed

lemma serve_all:
  assumes "consistent others reserved p" "\<forall>a \<in> reserved. others a \<noteq> None"
  shows "\<exists>p'. each (serve grab give null) qs p = Inr p' \<and> consistent others reserved p'"
  using assms(1)
proof (induction qs arbitrary: p)
  case (Cons q qs)
  then show ?case using serve_consistent [OF Cons.prems assms(2)] by fastforce
qed simp

end

section \<open>The vectors of a processor\<close>

definition vectors_ok :: "idt_state \<Rightarrow> bool" where
  "vectors_ok s \<longleftrightarrow> length (idt s) = IDT_ENTRY_COUNT \<and> length (int_used s) = IDT_ENTRY_COUNT - 32"

text \<open>The handler the processor enters through a vector in use.\<close>

definition vector_owner :: "idt_state \<Rightarrow> u8 \<Rightarrow> addr option" where
  "vector_owner s v =
     (if 32 \<le> unat v \<and> int_used s ! (unat v - 32) \<and> gate_present (idt s ! unat v)
      then Some (gate_offset (idt s ! unat v)) else None)"

text \<open>Every vector marked as used has a gate.\<close>

definition gates_match :: "idt_state \<Rightarrow> bool" where
  "gates_match s \<longleftrightarrow> vectors_ok s \<and> (\<forall>v. 32 \<le> v \<and> v < 256 \<and> int_used s ! (v - 32) \<longrightarrow> gate_present (idt s ! v))"

lemma free_vector_Some:
  "free_vector i us = Some k \<Longrightarrow> i \<le> k \<and> k < i + length us \<and> \<not> us ! (k - i)"
proof (induction i us rule: free_vector.induct)
  case (2 i u us)
  then show ?case by (auto split: if_splits simp: nth_Cons' Suc_diff_le)
qed simp

lemma free_vector_None: "free_vector i us = None \<longleftrightarrow> (\<forall>u \<in> set us. u)"
  by (induction i us rule: free_vector.induct) auto

lemma unat_u8_less: "unat (v :: u8) < 256"
  using unsigned_less [of v] by simp

lemma unat_u8: "n < 256 \<Longrightarrow> unat (of_nat n :: u8) = n"
  by (intro unat_of_nat_no_wrap) simp

lemma alloc_interrupt_vector_ok:
  assumes "cs < 0x8000" "gates_match s" "alloc_interrupt_vector cs isr s = (v, t)"
  shows "v = 0 \<Longrightarrow> t = s"
    and "v \<noteq> 0 \<Longrightarrow> gates_match t \<and> 32 \<le> unat v \<and> vector_owner s v = None \<and>
      vector_owner t = (vector_owner s)(v := Some isr)"
proof -
  have all: "take (IDT_ENTRY_COUNT - 32) (int_used s) = int_used s" and len: "length (int_used s) = 224" "length (idt s) = 256"
    using assms(2) by (simp_all add: gates_match_def vectors_ok_def IDT_ENTRY_COUNT_def)
  show "t = s" if "v = 0"
  proof (cases "free_vector 0 (int_used s)")
    case (Some i)
    with free_vector_Some [OF Some] have "i < 224" using len by simp
    then have "unat (of_nat (i + 32) :: u8) = i + 32" by (intro unat_u8) simp
    with Some assms(3) that all show ?thesis by (auto simp: alloc_interrupt_vector_def simp del: of_nat_add)
  next
    case None
    then show "t = s" using assms(3) all by (simp add: alloc_interrupt_vector_def)
  qed
  show "gates_match t \<and> 32 \<le> unat v \<and> vector_owner s v = None \<and> vector_owner t = (vector_owner s)(v := Some isr)" if v0: "v \<noteq> 0"
  proof -
    obtain i where i: "free_vector 0 (int_used s) = Some i"
      using v0 assms(3) all by (auto simp: alloc_interrupt_vector_def split: option.splits)
    with free_vector_Some [OF i] have b: "i < 224" "\<not> int_used s ! i" using len by simp_all
    then have v: "unat v = i + 32"
      using i assms(3) all by (auto simp: alloc_interrupt_vector_def unat_u8 simp del: of_nat_add)
    have t: "t = s\<lparr>idt := (idt s)[i + 32 := IDT_INT_GATE isr cs 0 0], int_used := (int_used s)[i := True]\<rparr>"
      using i assms(3) all by (auto simp: alloc_interrupt_vector_def)
    note g = idt_gate_fields(1, 2) [OF assms(1), of 0 0 isr]
    have "vector_owner t w = ((vector_owner s)(v := Some isr)) w" for w
    proof (cases "w = v")
      case True
      then show ?thesis using b len g by (simp add: vector_owner_def t v)
    next
      case False
      then have "unat w \<noteq> i + 32" using v by (metis word_unat_eq_iff)
      then show ?thesis using False b len by (auto simp: vector_owner_def t nth_list_update)
    qed
    moreover have "gates_match t"
      using assms(2) b len g by (auto simp: gates_match_def vectors_ok_def t nth_list_update)
    ultimately show ?thesis using v b by (auto simp: vector_owner_def)
  qed
qed

lemma free_interrupt_vector_ok:
  assumes "gates_match s" "vector_owner s v = Some isr"
  shows "\<exists>t. free_interrupt_vector v s = Inr t \<and> gates_match t \<and> vector_owner t = (vector_owner s)(v := None)"
proof -
  from assms(2) have v: "32 \<le> unat v" by (simp add: vector_owner_def split: if_splits)
  have len: "length (int_used s) = 224" "length (idt s) = 256"
    using assms(1) by (simp_all add: gates_match_def vectors_ok_def IDT_ENTRY_COUNT_def)
  let ?t = "s\<lparr>idt := (idt s)[unat v := no_gate], int_used := (int_used s)[unat v - 32 := False]\<rparr>"
  have "vector_owner ?t w = ((vector_owner s)(v := None)) w" for w
  proof (cases "w = v")
    case True
    then show ?thesis using v len unat_u8_less [of v] by (simp add: vector_owner_def)
  next
    case False
    then have "unat w \<noteq> unat v" by (simp add: word_unat_eq_iff)
    then show ?thesis using False v by (auto simp: vector_owner_def nth_list_update)
  qed
  moreover have "gates_match ?t" unfolding gates_match_def
    using assms(1) v len unat_u8_less [of v] by (auto simp: gates_match_def vectors_ok_def nth_list_update)
  ultimately show ?thesis using v by (auto simp: free_interrupt_vector_def Let_def)
qed

interpretation vec: registry "alloc_interrupt_vector cs" free_interrupt_vector
    "\<lambda>s. gates_match s \<and> cs < 0x8000" vector_owner 0 for cs
proof unfold_locales
  fix s t :: idt_state and r a
  show "t = s" if "gates_match s \<and> cs < 0x8000" "alloc_interrupt_vector cs r s = (0, t)"
    using alloc_interrupt_vector_ok(1) [of cs s r 0 t] that by blast
  show "(gates_match t \<and> cs < 0x8000) \<and> vector_owner s a = None \<and> vector_owner t = (vector_owner s)(a \<mapsto> r)"
    if "gates_match s \<and> cs < 0x8000" "alloc_interrupt_vector cs r s = (a, t)" "a \<noteq> 0"
    using alloc_interrupt_vector_ok(2) [of cs s r a t] that by blast
  show "\<exists>t. free_interrupt_vector a s = Inr t \<and> (gates_match t \<and> cs < 0x8000) \<and> vector_owner t = (vector_owner s)(a := None)"
    if "gates_match s \<and> cs < 0x8000" "vector_owner s a = Some r"
    using free_interrupt_vector_ok [of s a r] that by blast
qed

lemma length_set_gates [simp]: "length (set_gates i gs t) = length t"
  by (induction i gs t rule: set_gates.induct) auto

lemma set_gates_nth:
  assumes "i + length gs \<le> length t" "j < length t"
  shows "set_gates i gs t ! j = (if i \<le> j \<and> j < i + length gs then gs ! (j - i) else t ! j)"
  using assms by (induction i gs t rule: set_gates.induct) (auto simp: nth_list_update nth_Cons' Suc_diff_le)

lemma init_idt_owners:
  assumes "cs < 0x8000" "vectors_ok s" "\<forall>u \<in> set (int_used s). \<not> u"
  shows "gates_match (init_idt cs link s)"
    "vector_owner (init_idt cs link s) 32 = Some (link isr_inter_processor_call)"
    "vector_owner (init_idt cs link s) 255 = Some (link isr_spurious_int)"
proof -
  let ?t = "init_idt cs link s"
  have len: "length (idt s) = 256" "length (int_used s) = 224"
    using assms(2) by (simp_all add: vectors_ok_def IDT_ENTRY_COUNT_def)
  note defs = init_idt_def Let_def INT_VEC_INTER_PROCESSOR_CALL_def INT_VEC_SPURIOUS_def
  have u: "int_used ?t = (int_used s)[0 := True, 223 := True]" by (simp add: defs)
  have clear: "\<not> int_used s ! k" if "k < 224" for k using assms(3) len(2) that by (metis nth_mem)
  have used: "int_used ?t ! k \<longleftrightarrow> k = 0 \<or> k = 223" if "k < 224" for k
    unfolding u using clear [OF that] that len by (cases "k = 223"; cases "k = 0") simp_all
  define t0 where "t0 = set_gates 22 (replicate (IDT_ENTRY_COUNT - 22) no_gate) (set_gates 0 (exception_gates cs link) (idt s))"
  have t0: "length t0 = 256" "idt ?t = t0[32 := IDT_INT_GATE (link isr_inter_processor_call) cs 0 0,
      255 := IDT_INT_GATE (link isr_spurious_int) cs 0 0]"
    using len by (simp_all add: defs t0_def)
  have gate: "idt ?t ! 32 = IDT_INT_GATE (link isr_inter_processor_call) cs 0 0"
    "idt ?t ! 255 = IDT_INT_GATE (link isr_spurious_int) cs 0 0"
    unfolding t0(2) using t0(1) by simp_all
  note g = idt_gate_fields(1, 2) [OF assms(1), of 0 0]
  have "gate_present (idt ?t ! v)" if "32 \<le> v" "v < 256" "int_used ?t ! (v - 32)" for v
  proof -
    have "v - 32 < 224" using that by simp
    with used [OF this] that have "v = 32 \<or> v = 255" by auto
    then show ?thesis using g gate by auto
  qed
  moreover have "vectors_ok ?t" using len t0 u by (simp add: vectors_ok_def IDT_ENTRY_COUNT_def)
  ultimately show "gates_match ?t" unfolding gates_match_def by blast
  show "vector_owner ?t 32 = Some (link isr_inter_processor_call)" "vector_owner ?t 255 = Some (link isr_spurious_int)"
    unfolding vector_owner_def using used [of 0] used [of 223] by (simp_all add: gate g)
qed

text \<open>
  C11. Whatever sequence of vectors drivers allocate and free after \<open>init_idt\<close>, no call fails, no vector
  is given to two drivers, each driver's vector enters the handler it registered, and the vectors of
  inter-processor calls and of spurious interrupts stay with their handlers.
\<close>

theorem interrupt_vectors_exclusive:
  assumes "cs < 0x8000" "vectors_ok s" "\<forall>u \<in> set (int_used s). \<not> u"
  shows "\<exists>held t. each (serve (alloc_interrupt_vector cs) free_interrupt_vector 0) reqs ([], init_idt cs link s) = Inr (held, t) \<and>
    distinct (map fst held) \<and> (\<forall>(v, isr) \<in> set held. vector_owner t v = Some isr \<and> v \<noteq> 32 \<and> v \<noteq> 255) \<and>
    vector_owner t 32 = Some (link isr_inter_processor_call) \<and> vector_owner t 255 = Some (link isr_spurious_int)"
proof -
  let ?t = "init_idt cs link s"
  note init = init_idt_owners [OF assms, of link]
  have "vec.consistent cs (vector_owner ?t) {32, 255} ([], ?t)"
    unfolding vec.consistent_def using init(1) assms(1) by simp
  from vec.serve_all [OF this, of reqs] init(2, 3) obtain held t where
    "each (serve (alloc_interrupt_vector cs) free_interrupt_vector 0) reqs ([], ?t) = Inr (held, t)"
    "vec.consistent cs (vector_owner ?t) {32, 255} (held, t)" by auto
  then show ?thesis unfolding vec.consistent_def using init(2, 3) by (intro exI [of _ held] exI [of _ t]) auto
qed

definition boot_idt :: idt_state where
  "boot_idt = \<lparr>idt = replicate 256 no_gate, int_used = replicate 224 False, idt_limit = None\<rparr>"

theorem interrupt_vectors_exclusive_witness:
  "\<exists>held t. each (serve (alloc_interrupt_vector 8) free_interrupt_vector 0) [Grab 0x1000, Grab 0x2000, Give 1, Grab 0x3000]
      ([], init_idt 8 (\<lambda>_. 0x7000) boot_idt) = Inr (held, t) \<and> distinct (map fst held)"
proof -
  have "vectors_ok boot_idt" "\<forall>u \<in> set (int_used boot_idt). \<not> u" "(8 :: u16) < 0x8000"
    by (simp_all add: vectors_ok_def boot_idt_def IDT_ENTRY_COUNT_def)
  from interrupt_vectors_exclusive [OF this(3, 1, 2), of "[Grab 0x1000, Grab 0x2000, Give 1, Grab 0x3000]" "\<lambda>_. 0x7000"]
  show ?thesis by blast
qed

end
