(* ===== verification/Apic.thy ===== *)
theory Apic
  imports Interrupt Threads Complex_Main
begin

text \<open>
  The local interrupt controller, \<^verbatim>\<open>src/kernel/apic.c\<close>: its timer, start-up of the other processors,
  end of interrupt. The registers are a value for every offset, and \<open>writes\<close> is the order in which
  they were written. Time stamps are a sequence \<open>tsc\<close> the processor reads one by one. A \<^verbatim>\<open>double\<close>
  is a rational number here: the only operations are products that are themselves parameters, and
  divisions by powers of two, which are exact. The inter-processor call protocol of the file is
  theory \<open>Processors\<close>.
\<close>

section \<open>Registers\<close>

definition APIC_OFFS_EOI :: u64 where "APIC_OFFS_EOI = 0x0B0"
definition APIC_OFFS_SPUR_INT_VEC :: u64 where "APIC_OFFS_SPUR_INT_VEC = 0x0F0"
definition APIC_OFFS_ERROR_STATUS :: u64 where "APIC_OFFS_ERROR_STATUS = 0x280"
definition APIC_OFFS_ICR_LO :: u64 where "APIC_OFFS_ICR_LO = 0x300"
definition APIC_OFFS_LVT_TIMER :: u64 where "APIC_OFFS_LVT_TIMER = 0x320"
definition APIC_OFFS_INIT_CNT :: u64 where "APIC_OFFS_INIT_CNT = 0x380"
definition APIC_OFFS_DIV_CONF :: u64 where "APIC_OFFS_DIV_CONF = 0x3E0"

definition APIC_IPI_DELIV_INIT :: u32 where "APIC_IPI_DELIV_INIT = 0x500"
definition APIC_IPI_DELIV_SIPI :: u32 where "APIC_IPI_DELIV_SIPI = 0x600"
definition APIC_IPI_LEV_ASS :: u32 where "APIC_IPI_LEV_ASS = 0x4000"
definition APIC_IPI_DEST_NOTSELF :: u32 where "APIC_IPI_DEST_NOTSELF = 0xC0000"
definition APIC_LVT_MASKED :: u32 where "APIC_LVT_MASKED = 0x10000"
definition APIC_LVT_TMR_PERIODIC :: u32 where "APIC_LVT_TMR_PERIODIC = 0x20000"
definition APIC_SPUR_INT_FLAG_SOFTWARE_ENABLE :: u32 where "APIC_SPUR_INT_FLAG_SOFTWARE_ENABLE = 0x100"

text \<open>
  One processor's controller, with the thread-local variables of the file. \<open>ipcall_mtx\<close> is the one variable
  here that all processors share, the file's static \<open>ipcall_mutex\<close>.
\<close>

record apic =
  regs :: "u64 \<Rightarrow> u32"
  writes :: "(u64 \<times> u32) list"
  apic_base :: addr
  timer_callback :: addr
  apic_tsc_end :: u64
  timer_int :: u8
  tsc_freq :: u64
  timer_freq :: rat
  ipcall_mtx :: mtx
  tsc_index :: nat

definition APIC_REG_write :: "u64 \<Rightarrow> u32 \<Rightarrow> apic \<Rightarrow> apic" where
  "APIC_REG_write offs v s = s\<lparr>regs := (regs s)(offs := v), writes := writes s @ [(offs, v)]\<rparr>"

section \<open>The timer\<close>

text \<open>\<^verbatim>\<open>div_pow&4 << 1\<close> shifts first.\<close>

definition div_conf :: "u8 \<Rightarrow> u32" where
  "div_conf div_pow = (let d = div_pow - 1 in (ucast d AND push_bit 1 4) OR (ucast d AND 3))"

definition start_apic_timer :: "u32 \<Rightarrow> u8 \<Rightarrow> bool \<Rightarrow> addr \<Rightarrow> apic \<Rightarrow> apic" where
  "start_apic_timer cnt div_pow periodic callback s =
     (let s = s\<lparr>timer_callback := callback\<rparr>;
          s = APIC_REG_write APIC_OFFS_LVT_TIMER
                (if periodic then ucast (timer_int s) OR APIC_LVT_TMR_PERIODIC else ucast (timer_int s)) s;
          s = APIC_REG_write APIC_OFFS_DIV_CONF (div_conf div_pow) s
      in APIC_REG_write APIC_OFFS_INIT_CNT cnt s)"

text \<open>The conversion of a non-negative \<^verbatim>\<open>double\<close> to \<^verbatim>\<open>uint32_t\<close>.\<close>

definition to_u32 :: "rat \<Rightarrow> u32" where
  "to_u32 x = of_int \<lfloor>x\<rfloor>"

text \<open>\<open>ticks\<close> is \<^verbatim>\<open>seconds*timer_freq\<close>.\<close>

definition start_apic_timer_rt :: "rat \<Rightarrow> bool \<Rightarrow> addr \<Rightarrow> apic \<Rightarrow> apic" where
  "start_apic_timer_rt ticks periodic callback s =
     (if ticks < 0xFFFFFFFF then start_apic_timer (to_u32 ticks) 0 periodic callback s
      else if ticks / 2 < 0xFFFFFFFF then start_apic_timer (to_u32 (ticks / 2)) 1 periodic callback s
      else if ticks / 4 < 0xFFFFFFFF then start_apic_timer (to_u32 (ticks / 4)) 2 periodic callback s
      else if ticks / 8 < 0xFFFFFFFF then start_apic_timer (to_u32 (ticks / 8)) 3 periodic callback s
      else if ticks / 16 < 0xFFFFFFFF then start_apic_timer (to_u32 (ticks / 16)) 4 periodic callback s
      else if ticks / 32 < 0xFFFFFFFF then start_apic_timer (to_u32 (ticks / 32)) 5 periodic callback s
      else if ticks / 64 < 0xFFFFFFFF then start_apic_timer (to_u32 (ticks / 64)) 6 periodic callback s
      else start_apic_timer (to_u32 (ticks / 128)) 7 periodic callback s)"

definition stop_apic_timer :: "apic \<Rightarrow> apic" where
  "stop_apic_timer s = APIC_REG_write APIC_OFFS_INIT_CNT 0 s"

definition apic_write_eoi :: "apic \<Rightarrow> apic" where
  "apic_write_eoi s = APIC_REG_write APIC_OFFS_EOI 0 s"

text \<open>The handlers of \<^verbatim>\<open>src/kernel/isr/apic_timer.c\<close>; \<open>f\<close> is what the callback does.\<close>

definition isr_timer :: "(apic \<Rightarrow> apic) \<Rightarrow> apic \<Rightarrow> apic" where
  "isr_timer f s = apic_write_eoi (f s)"

definition read_tsc :: "(nat \<Rightarrow> u64) \<Rightarrow> apic \<Rightarrow> u64 \<times> apic" where
  "read_tsc tsc s = (tsc (tsc_index s), s\<lparr>tsc_index := tsc_index s + 1\<rparr>)"

definition isr_timer_rdtsc :: "(nat \<Rightarrow> u64) \<Rightarrow> apic \<Rightarrow> apic" where
  "isr_timer_rdtsc tsc s = (case read_tsc tsc s of (t, s) \<Rightarrow> apic_write_eoi (s\<lparr>apic_tsc_end := t\<rparr>))"

section \<open>Start-up\<close>

text \<open>
  \<open>set_timer_freq\<close> measures the timer against the time stamp counter: it waits until the handler has
  stored a time stamp, which is what \<open>isr_timer_rdtsc\<close> does when the timer expires (\<open>fires\<close>); a time
  stamp of 0 is taken for none and the loop goes on for ever.
\<close>

definition set_timer_freq :: "(nat \<Rightarrow> u64) \<Rightarrow> bool \<Rightarrow> u16 \<Rightarrow> addr \<Rightarrow> u64 \<Rightarrow> apic \<times> idt_state \<Rightarrow> (apic \<times> idt_state) res" where
  "set_timer_freq tsc fires cs isr_addr tsc_freq_hz = (\<lambda>(s, i).
     let wait_cnt = 100000000;
         (vec, i) = alloc_interrupt_vector cs isr_addr i;
         s = APIC_REG_write APIC_OFFS_LVT_TIMER (ucast vec) s;
         s = APIC_REG_write APIC_OFFS_DIV_CONF 11 s;
         s = APIC_REG_write APIC_OFFS_INIT_CNT wait_cnt s;
         (tsc_start, s) = read_tsc tsc s;
         s = (if apic_tsc_end s = 0 \<and> fires then isr_timer_rdtsc tsc s else s)
     in if apic_tsc_end s = 0 then Inl Hang
        else let s = APIC_REG_write APIC_OFFS_LVT_TIMER APIC_LVT_MASKED s
             in bindR (free_interrupt_vector vec i) (\<lambda>i.
                let t_diff = of_nat (unat (apic_tsc_end s - tsc_start))
                in Inr (s\<lparr>timer_freq := of_nat (unat tsc_freq_hz) * of_nat (unat wait_cnt) / t_diff\<rparr>, i)))"

definition init_apic ::
  "(nat \<Rightarrow> u64) \<Rightarrow> bool \<Rightarrow> u16 \<Rightarrow> addr \<Rightarrow> addr \<Rightarrow> addr \<Rightarrow> u64 \<Rightarrow> apic \<times> idt_state \<Rightarrow> (apic \<times> idt_state) res" where
  "init_apic tsc fires cs base isr_addr isr_rdtsc_addr tsc_freq_hz = (\<lambda>(s, i).
     let s = s\<lparr>apic_base := base\<rparr>;
         s = APIC_REG_write APIC_OFFS_SPUR_INT_VEC (of_nat INT_VEC_SPURIOUS OR APIC_SPUR_INT_FLAG_SOFTWARE_ENABLE) s;
         s = APIC_REG_write APIC_OFFS_ERROR_STATUS 0 s;
         (vec, i) = alloc_interrupt_vector cs isr_addr i;
         s = s\<lparr>timer_int := vec, tsc_freq := tsc_freq_hz\<rparr>
     in set_timer_freq tsc fires cs isr_rdtsc_addr tsc_freq_hz (s, i))"

text \<open>\<^verbatim>\<open>while(__apic_read_tsc() < tsc_target) {}\<close>\<close>

partial_function (option) wait_tsc :: "(nat \<Rightarrow> u64) \<Rightarrow> u64 \<Rightarrow> apic \<Rightarrow> apic option" where
  "wait_tsc tsc target s = (case read_tsc tsc s of (t, s) \<Rightarrow> if t < target then wait_tsc tsc target s else Some s)"

definition delay :: "(nat \<Rightarrow> u64) \<Rightarrow> u64 \<Rightarrow> apic \<Rightarrow> apic res" where
  "delay tsc cycles s =
     (case read_tsc tsc s of (t, s) \<Rightarrow> case wait_tsc tsc (t + cycles) s of None \<Rightarrow> Inl Hang | Some s \<Rightarrow> Inr s)"

definition send_init_sipi_sipi :: "(nat \<Rightarrow> u64) \<Rightarrow> u8 \<Rightarrow> apic \<Rightarrow> apic res" where
  "send_init_sipi_sipi tsc vec s =
     (case mtx_init (ipcall_mtx s) mtx_plain of (r, m) \<Rightarrow>
      if r \<noteq> thrd_success then Inl (Panic ''mutex failed'')
      else
        let s = s\<lparr>ipcall_mtx := m\<rparr>;
            s = APIC_REG_write APIC_OFFS_ICR_LO (APIC_IPI_DEST_NOTSELF OR APIC_IPI_LEV_ASS OR APIC_IPI_DELIV_INIT) s
        in bindR (delay tsc (tsc_freq s div 100) s) (\<lambda>s.
           let s = APIC_REG_write APIC_OFFS_ICR_LO (APIC_IPI_DEST_NOTSELF OR APIC_IPI_LEV_ASS OR APIC_IPI_DELIV_SIPI OR ucast vec) s
           in bindR (delay tsc (tsc_freq s div 5000) s) (\<lambda>s.
              let s = APIC_REG_write APIC_OFFS_ICR_LO (APIC_IPI_DEST_NOTSELF OR APIC_IPI_LEV_ASS OR APIC_IPI_DELIV_SIPI OR ucast vec) s
              in delay tsc (tsc_freq s div 10) s)))"

section \<open>How fast the timer runs\<close>

text \<open>What the processor divides the timer's clock by: bits 3, 1 and 0 of the register.\<close>

definition timer_divisor :: "u32 \<Rightarrow> nat" where
  "timer_divisor r =
     (let v = (if bit r 3 then 4 else 0) + unat (r AND 3) in if v = 7 then 1 else 2 ^ (v + 1))"

lemma div_conf_values:
  "div_conf 0 = 11" "div_conf 1 = 0" "div_conf 2 = 1" "div_conf 3 = 2" "div_conf 4 = 3" "div_conf 5 = 0"
  "div_conf 6 = 1" "div_conf 7 = 2"
  by code_simp+

lemma div_conf_divisor:
  "timer_divisor (div_conf 0) = 1" "timer_divisor (div_conf 1) = 2" "timer_divisor (div_conf 2) = 4"
  "timer_divisor (div_conf 3) = 8" "timer_divisor (div_conf 4) = 16" "timer_divisor (div_conf 5) = 2"
  "timer_divisor (div_conf 6) = 4" "timer_divisor (div_conf 7) = 8"
  unfolding div_conf_values by (simp_all add: timer_divisor_def Let_def)

text \<open>The ticks of the timer's clock until the timer that is running expires.\<close>

definition timer_ticks :: "apic \<Rightarrow> nat" where
  "timer_ticks s = unat (regs s APIC_OFFS_INIT_CNT) * timer_divisor (regs s APIC_OFFS_DIV_CONF)"

lemma timer_ticks_start:
  "timer_ticks (start_apic_timer cnt div_pow periodic callback s) = unat cnt * timer_divisor (div_conf div_pow)"
  by (simp add: timer_ticks_def start_apic_timer_def APIC_REG_write_def Let_def APIC_OFFS_INIT_CNT_def
      APIC_OFFS_DIV_CONF_def APIC_OFFS_LVT_TIMER_def)

lemma unat_to_u32:
  assumes "0 \<le> x" "x < 0xFFFFFFFF"
  shows "of_nat (unat (to_u32 x)) \<le> x" "x < of_nat (unat (to_u32 x)) + 1"
proof -
  have b: "0 \<le> \<lfloor>x\<rfloor>" "\<lfloor>x\<rfloor> < 2 ^ 32" using assms by (simp_all add: floor_less_iff)
  then have "uint (to_u32 x) = \<lfloor>x\<rfloor>" unfolding to_u32_def by (simp add: unsigned_of_int take_bit_int_eq_self)
  then have "of_nat (unat (to_u32 x)) = (of_int \<lfloor>x\<rfloor> :: rat)" using b by (metis of_int_of_nat_eq uint_nat)
  then show "of_nat (unat (to_u32 x)) \<le> x" "x < of_nat (unat (to_u32 x)) + 1"
    using floor_correct [of x] by simp_all
qed

lemma scaled_ticks:
  assumes "0 \<le> ticks" "ticks / of_nat k < 0xFFFFFFFF" "0 < k"
  shows "of_nat (unat (to_u32 (ticks / of_nat k)) * k) \<le> ticks" "ticks < of_nat (unat (to_u32 (ticks / of_nat k)) * k) + of_nat k"
proof -
  have "0 \<le> ticks / of_nat k" using assms by simp
  note u = unat_to_u32 [OF this assms(2)]
  have k: "(0 :: rat) < of_nat k" using assms(3) by simp
  show "of_nat (unat (to_u32 (ticks / of_nat k)) * k) \<le> ticks"
    using u(1) k by (simp add: pos_le_divide_eq)
  show "ticks < of_nat (unat (to_u32 (ticks / of_nat k)) * k) + of_nat k"
    using u(2) k by (simp add: pos_divide_less_eq algebra_simps)
qed

text \<open>
  C39. A timer asked to run for \<open>ticks\<close> clock ticks expires within 16 of them, too early by less than 16,
  as long as \<open>ticks\<close> is below \<open>16 * 0xFFFFFFFF\<close>. Above that it runs 16 times too fast: the
  expression for the divider's register shifts 4 instead of the masked bit, so the dividers by 32, 64
  and 128 are programmed as 2, 4 and 8.
\<close>

theorem start_apic_timer_rt_ticks:
  assumes "0 \<le> ticks" "ticks < 128 * 0xFFFFFFFF"
  shows "if ticks < 16 * 0xFFFFFFFF
    then of_nat (timer_ticks (start_apic_timer_rt ticks periodic callback s)) \<le> ticks \<and>
         ticks < of_nat (timer_ticks (start_apic_timer_rt ticks periodic callback s)) + 16
    else 16 * of_nat (timer_ticks (start_apic_timer_rt ticks periodic callback s)) \<le> ticks \<and>
         ticks < 16 * of_nat (timer_ticks (start_apic_timer_rt ticks periodic callback s)) + 128"
proof -
  let ?n = "timer_ticks (start_apic_timer_rt ticks periodic callback s)"
  let ?c = "\<lambda>k. unat (to_u32 (ticks / of_nat k))"
  note sc = scaled_ticks [OF assms(1)]
  consider "ticks < 0xFFFFFFFF" | "\<not> ticks < 0xFFFFFFFF" "ticks / 2 < 0xFFFFFFFF"
    | "\<not> ticks / 2 < 0xFFFFFFFF" "ticks / 4 < 0xFFFFFFFF" | "\<not> ticks / 4 < 0xFFFFFFFF" "ticks / 8 < 0xFFFFFFFF"
    | "\<not> ticks / 8 < 0xFFFFFFFF" "ticks / 16 < 0xFFFFFFFF" | "\<not> ticks / 16 < 0xFFFFFFFF" "ticks / 32 < 0xFFFFFFFF"
    | "\<not> ticks / 32 < 0xFFFFFFFF" "ticks / 64 < 0xFFFFFFFF" | "\<not> ticks / 64 < 0xFFFFFFFF" "ticks / 128 < 0xFFFFFFFF"
    using assms by linarith
  then show ?thesis
  proof cases
    case 1
    then have "?n = ?c 1 * 1" by (simp add: start_apic_timer_rt_def timer_ticks_start div_conf_divisor)
    with sc [of 1] 1 show ?thesis by simp
  next
    case 2
    then have "?n = ?c 2 * 2" by (simp add: start_apic_timer_rt_def timer_ticks_start div_conf_divisor)
    with sc [of 2] 2 show ?thesis by simp
  next
    case 3
    then have "?n = ?c 4 * 4" by (simp add: start_apic_timer_rt_def timer_ticks_start div_conf_divisor)
    with sc [of 4] 3 show ?thesis by simp
  next
    case 4
    then have "?n = ?c 8 * 8" by (simp add: start_apic_timer_rt_def timer_ticks_start div_conf_divisor)
    with sc [of 8] 4 show ?thesis by simp
  next
    case 5
    then have "?n = ?c 16 * 16" by (simp add: start_apic_timer_rt_def timer_ticks_start div_conf_divisor)
    with sc [of 16] 5 show ?thesis by simp
  next
    case 6
    then have "?n = ?c 32 * 2" by (simp add: start_apic_timer_rt_def timer_ticks_start div_conf_divisor)
    with sc [of 32] 6 show ?thesis by simp
  next
    case 7
    then have "?n = ?c 64 * 4" by (simp add: start_apic_timer_rt_def timer_ticks_start div_conf_divisor)
    with sc [of 64] 7 show ?thesis by simp
  next
    case 8
    then have "?n = ?c 128 * 8" by (simp add: start_apic_timer_rt_def timer_ticks_start div_conf_divisor)
    with sc [of 128] 8 show ?thesis by simp
  qed
qed

definition reset_apic :: apic where
  "reset_apic = \<lparr>regs = (\<lambda>_. 0), writes = [], apic_base = 0xFEE00000, timer_callback = 0, apic_tsc_end = 0, timer_int = 0,
     tsc_freq = 0, timer_freq = 0, ipcall_mtx = \<lparr>locked = False\<rparr>, tsc_index = 0\<rparr>"

theorem start_apic_timer_rt_ticks_witness:
  "(of_nat (timer_ticks (start_apic_timer_rt 1000 False 0 reset_apic)) :: rat) \<le> 1000 \<and>
   16 * (of_nat (timer_ticks (start_apic_timer_rt (64 * 0xFFFFFFFF) False 0 reset_apic)) :: rat) \<le> 64 * 0xFFFFFFFF"
  using start_apic_timer_rt_ticks [of 1000 False 0 reset_apic] start_apic_timer_rt_ticks [of "64 * 0xFFFFFFFF" False 0 reset_apic]
  by simp

end
