(* ===== verification/Tls.thy ===== *)
theory Tls
  imports Virt_Memory
begin

text \<open>
  Thread-local storage, \<^verbatim>\<open>src/kernel/tls.c\<close>. A processor's block is a copy of the image the linker
  made, followed by the control block, whose only field points to itself; the processor's \<^verbatim>\<open>fs\<close>
  base is the control block. The image, its size and the boot processor's block are the linker's and
  are parameters; memory is the \<open>bytes\<close> of the kernel's state.
\<close>

section \<open>State and operations\<close>

definition sizeof_tcb :: u64 where "sizeof_tcb = 8"

record tls =
  ap_tls :: addr
  ap_tls_used :: u64
  ap_mut :: mtx

text \<open>The loop that copies the image byte by byte.\<close>

fun copy_image :: "addr \<Rightarrow> addr \<Rightarrow> nat \<Rightarrow> nat \<Rightarrow> mem \<Rightarrow> mem" where
  "copy_image p img i 0 m = m"
| "copy_image p img i (Suc k) m = copy_image p img (Suc i) k (m(p + of_nat i := m (img + of_nat i)))"

definition tls_create_bsp :: "addr \<Rightarrow> addr \<Rightarrow> u64 \<Rightarrow> mem \<Rightarrow> addr \<times> mem" where
  "tls_create_bsp buf img sz m =
     (let tcb = buf + sz; m = store64 m tcb tcb in (tcb, copy_image buf img 0 (unat sz) m))"

definition tls_publish :: "addr \<Rightarrow> tls \<Rightarrow> tls" where
  "tls_publish p t = t\<lparr>ap_mut := snd (mtx_init (ap_mut t) mtx_plain), ap_tls := p\<rparr>"

definition tls_reserve_ap_space :: "u64 \<Rightarrow> u16 \<Rightarrow> tls \<times> kmem \<Rightarrow> (bool \<times> tls \<times> kmem) res" where
  "tls_reserve_ap_space sz ap_count = (\<lambda>(t, s).
     bindR (kmalloc (ucast ap_count * (sz + sizeof_tcb)) s) (\<lambda>(p, s).
     if p = 0 then Inr (False, t, s) else Inr (True, tls_publish p t, s)))"

text \<open>\<open>tls_take\<close> is the statement between lock and unlock, \<open>tls_fill\<close> what follows.\<close>

definition tls_take :: "u64 \<Rightarrow> tls \<Rightarrow> addr \<times> tls" where
  "tls_take sz t = (ap_tls t + ap_tls_used t * (sz + sizeof_tcb), t\<lparr>ap_tls_used := ap_tls_used t + 1\<rparr>)"

definition tls_tcb :: "u64 \<Rightarrow> addr \<Rightarrow> mem \<Rightarrow> mem" where
  "tls_tcb sz p m = store64 m (p + sz) (p + sz)"

definition tls_fill :: "addr \<Rightarrow> u64 \<Rightarrow> addr \<Rightarrow> mem \<Rightarrow> mem" where
  "tls_fill img sz p m = snd (memcpy m p img sz)"

definition tls_create :: "addr \<Rightarrow> u64 \<Rightarrow> tls \<times> mem \<Rightarrow> (bool \<times> addr option \<times> tls \<times> mem) res" where
  "tls_create img sz = (\<lambda>(t, m).
     if ap_tls t = 0 then Inl Hang
     else case mtx_lock (ap_mut t) of
       None \<Rightarrow> Inl Hang
     | Some (r, w) \<Rightarrow>
         if r \<noteq> thrd_success then Inr (False, None, t\<lparr>ap_mut := w\<rparr>, m)
         else case tls_take sz (t\<lparr>ap_mut := w\<rparr>) of (p, t) \<Rightarrow>
           case mtx_unlock (ap_mut t) of (r, w) \<Rightarrow>
             if r \<noteq> thrd_success then Inr (False, None, t\<lparr>ap_mut := w\<rparr>, m)
             else Inr (True, Some (p + sz), t\<lparr>ap_mut := w\<rparr>, tls_fill img sz p (tls_tcb sz p m)))"

text \<open>\<open>tls_done\<close> gives the heap the control block, not the block \<open>kmalloc\<close> returned.\<close>

definition tls_done :: "addr \<times> kmem \<Rightarrow> (addr \<times> kmem) res" where
  "tls_done = (\<lambda>(fsbase, s). bindR (kfree fsbase s) (\<lambda>s. Inr (0, s)))"

section \<open>A processor's block\<close>

text \<open>A block is set up when it holds the image and its control block points to itself.\<close>

definition tls_ready :: "addr \<Rightarrow> u64 \<Rightarrow> addr \<Rightarrow> mem \<Rightarrow> bool" where
  "tls_ready img sz p m \<longleftrightarrow> bytes_at m p (unat sz) = bytes_at m img (unat sz) \<and> load64 m (p + sz) = p + sz"

text \<open>The bytes of a block: the image's and the control block's.\<close>

definition block_bytes :: "u64 \<Rightarrow> addr \<Rightarrow> addr set" where
  "block_bytes sz p = {a. unat (a - p) < unat sz + 8}"

definition image_bytes :: "addr \<Rightarrow> u64 \<Rightarrow> addr set" where
  "image_bytes img sz = {a. unat (a - img) < unat sz}"

lemma image_byte: "k < unat sz \<Longrightarrow> img + of_nat k \<in> image_bytes img sz"
  using unat_u64_less [of sz] by (simp add: image_bytes_def unat_of_nat_no_wrap del: unat_u64_less)

lemma block_byte: "k < unat sz + 8 \<Longrightarrow> unat sz + 8 \<le> 2 ^ 64 \<Longrightarrow> p + of_nat k \<in> block_bytes sz p"
  by (simp add: block_bytes_def unat_of_nat_no_wrap)

lemma tls_ready_cong:
  assumes "\<And>a. a \<in> block_bytes sz p \<union> image_bytes img sz \<Longrightarrow> m' a = m a" "unat sz + 8 \<le> 2 ^ 64"
  shows "tls_ready img sz p m' = tls_ready img sz p m"
proof -
  have blk: "m' (p + of_nat k) = m (p + of_nat k)" if "k < unat sz + 8" for k
    using block_byte [OF that assms(2)] by (intro assms(1)) simp
  have "m' (img + of_nat k) = m (img + of_nat k)" if "k < unat sz" for k
    using image_byte [OF that] by (intro assms(1)) simp
  with blk have "bytes_at m' p (unat sz) = bytes_at m p (unat sz)" "bytes_at m' img (unat sz) = bytes_at m img (unat sz)"
    by (simp_all add: bytes_at_def)
  moreover have "load64 m' (p + sz) = load64 m (p + sz)"
  proof (rule load64_eqI)
    fix k :: nat assume "k < 8"
    then show "m' (p + sz + of_nat k) = m (p + sz + of_nat k)"
      using blk [of "unat sz + k"] by (simp add: add.assoc)
  qed
  ultimately show ?thesis by (simp only: tls_ready_def)
qed

lemma store64_frame: "m' = store64 m q v \<Longrightarrow> 8 \<le> unat (a - q) \<Longrightarrow> m' a = m a"
  by (simp add: store64_at)

lemma load64_store64: "load64 (store64 m p v) p = v"
proof (rule bit_word_eqI)
  fix n assume "n < LENGTH(64)"
  then have n: "n < 64" by simp
  define k where "k = n div 8"
  have k: "k < 8" "n = 8 * k + n mod 8" using n by (simp_all add: k_def)
  have "unat (of_nat k :: addr) = k" using k(1) by (simp add: unat_of_nat_no_wrap)
  then have "ucast (drop_bit (8 * k) (load64 (store64 m p v) p)) = (ucast (drop_bit (8 * k) v) :: u8)"
    using k(1) by (simp add: load64_byte store64_at)
  then have "bit (ucast (drop_bit (8 * k) (load64 (store64 m p v) p)) :: u8) (n mod 8) =
      bit (ucast (drop_bit (8 * k) v) :: u8) (n mod 8)" by (simp only:)
  then show "bit (load64 (store64 m p v) p) n = bit v n"
    using k(2) by (simp add: bit_simps)
qed

lemma copy_image_copied:
  assumes "up_safe p img n" "n < 2 ^ 64" "i + k = n"
  shows "copy_image p img i k (copied m p img 0 i) = copied m p img 0 n"
  using assms(3)
proof (induction k arbitrary: i)
  case (Suc k)
  let ?m = "copied m p img 0 i"
  have i: "i < n" "n \<le> 2 ^ 64" "Suc i + k = n" using Suc.prems assms(2) by simp_all
  have "copy_image p img i (Suc k) ?m = copy_image p img (Suc i) k (?m(p + of_nat i := ?m (img + of_nat i)))"
    by (simp only: copy_image.simps)
  also have "?m(p + of_nat i := ?m (img + of_nat i)) = copied m p img 0 (Suc i)"
    using copy_byte_up [OF assms(1) i(1, 2)] .
  also have "copy_image p img (Suc i) k \<dots> = copied m p img 0 n" by (rule Suc.IH [OF i(3)])
  finally show ?case .
qed simp

text \<open>Both ways of filling a block, as long as it does not meet the image.\<close>

definition clear_of_image :: "addr \<Rightarrow> u64 \<Rightarrow> addr \<Rightarrow> bool" where
  "clear_of_image img sz p \<longleftrightarrow> unat sz + 8 \<le> 2 ^ 64 \<and> block_bytes sz p \<inter> image_bytes img sz = {}"

lemma image_clear:
  assumes "clear_of_image img sz p" "k < unat sz"
  shows "unat sz \<le> unat (img + of_nat k - p)"
proof -
  have "img + of_nat k \<notin> block_bytes sz p" using image_byte [OF assms(2), of img] assms(1) by (auto simp: clear_of_image_def)
  then show ?thesis by (simp add: block_bytes_def)
qed

lemma clear_disjoint: "clear_of_image img sz p \<Longrightarrow> disjoint_blocks p img (unat sz)"
  by (simp add: disjoint_blocks_def image_clear)

lemma tls_fill_copied:
  "clear_of_image img sz p \<Longrightarrow> tls_fill img sz p m = copied m p img 0 (unat sz)"
  using copy_down_correct [OF disjoint_down_safe [OF clear_disjoint]] unat_u64_less [of sz]
  by (simp add: tls_fill_def memcpy_def Let_def del: unat_u64_less)

lemma tls_tcb_frame:
  assumes "unat sz + 8 \<le> 2 ^ 64" "a \<notin> block_bytes sz p"
  shows "tls_tcb sz p m a = m a"
proof -
  have "unat (a - p) \<ge> unat sz + 8" using assms(2) by (simp add: block_bytes_def)
  then have "unat (a - p - sz) = unat (a - p) - unat sz" by (simp add: unat_sub_no_wrap word_le_nat_alt)
  then have "8 \<le> unat (a - (p + sz))" using \<open>unat sz + 8 \<le> unat (a - p)\<close> by (simp add: algebra_simps)
  then show ?thesis by (simp add: tls_tcb_def store64_at)
qed

lemma tls_fill_frame: "clear_of_image img sz p \<Longrightarrow> a \<notin> block_bytes sz p \<Longrightarrow> tls_fill img sz p m a = m a"
  by (simp add: tls_fill_copied block_bytes_def copied_def)

lemma load64_tls_tcb: "load64 (tls_tcb sz p m) (p + sz) = p + sz"
  by (simp add: tls_tcb_def load64_store64)

lemma tls_fill_ready:
  assumes "clear_of_image img sz p" "load64 m (p + sz) = p + sz"
  shows "tls_ready img sz p (tls_fill img sz p m)"
proof -
  have sz: "unat sz + 8 \<le> 2 ^ 64" "unat sz < 2 ^ 64" using assms unat_u64_less [of sz] by (simp_all add: clear_of_image_def)
  have img: "copied m p img 0 (unat sz) (img + of_nat k) = m (img + of_nat k)" if "k < unat sz" for k
    using image_clear [OF assms(1) that] by (rule copied_outside)
  have "bytes_at (copied m p img 0 (unat sz)) p (unat sz) = bytes_at (copied m p img 0 (unat sz)) img (unat sz)"
    using sz(2) img by (simp add: bytes_at_copied) (simp add: bytes_at_def)
  moreover have "load64 (copied m p img 0 (unat sz)) (p + sz) = load64 m (p + sz)"
  proof (rule load64_eqI)
    fix k :: nat assume k: "k < 8"
    then have "unat (p + sz + of_nat k - p) = unat sz + k"
      using sz(1) by (simp add: algebra_simps) (subst unat_add_no_wrap, simp_all add: unat_of_nat_no_wrap)
    then show "copied m p img 0 (unat sz) (p + sz + of_nat k) = m (p + sz + of_nat k)"
      by (intro copied_outside) simp
  qed
  ultimately show ?thesis using assms by (simp add: tls_ready_def tls_fill_copied)
qed

text \<open>
  Thread-local storage is set up right: on a processor that runs \<open>tls_create\<close> alone, once space is
  reserved, the call succeeds, the block it took is the next one, holds the image, and its control
  block, where the \<^verbatim>\<open>fs\<close> base points, points to itself; no other byte of memory changes.
\<close>

lemma tls_create_eq:
  assumes "ap_tls t \<noteq> 0" "\<not> locked (ap_mut t)" "clear_of_image img sz p"
    "p = ap_tls t + ap_tls_used t * (sz + sizeof_tcb)"
  shows "tls_create img sz (t, m) = Inr (True, Some (p + sz),
      t\<lparr>ap_tls_used := ap_tls_used t + 1, ap_mut := \<lparr>locked = False\<rparr>\<rparr>, tls_fill img sz p (tls_tcb sz p m))"
  using assms by (cases "ap_mut t")
    (simp add: tls_create_def mtx_lock_free tls_take_def mtx_unlock_def)

lemma tls_create_bsp_eq:
  assumes "clear_of_image img sz buf"
  shows "tls_create_bsp buf img sz m = (buf + sz, tls_fill img sz buf (tls_tcb sz buf m))"
proof -
  have "up_safe buf img (unat sz)" by (rule disjoint_up_safe [OF clear_disjoint [OF assms]])
  moreover have "unat sz < 2 ^ 64" using unat_u64_less [of sz] by (simp del: unat_u64_less)
  ultimately have "copy_image buf img 0 (unat sz) (copied (tls_tcb sz buf m) buf img 0 0) = copied (tls_tcb sz buf m) buf img 0 (unat sz)"
    by (rule copy_image_copied) simp
  then show ?thesis using tls_fill_copied [OF assms] by (simp add: tls_create_bsp_def Let_def tls_tcb_def)
qed

end
