(* ===== verification/Startup.thy ===== *)
theory Startup
  imports Tls
begin

text \<open>
  The start of the kernel on all processors: \<open>boot_aps\<close> of \<^verbatim>\<open>src/kernel/ap_boot.c\<close>, \<open>__kernel_init\<close> and
  \<open>reserve_ap_init_stack\<close> of \<^verbatim>\<open>src/kernel/kernel_start.c\<close>, the entry of the application processors in
  \<^verbatim>\<open>src/kernel/kernel_start.s\<close> and \<open>tls_create\<close> (theory \<open>Tls\<close>), as interleaved steps of the boot
  processor and \<open>n\<close> application processors. Each atomic access to shared memory is a step; a
  processor that spins is one whose next step is not enabled yet. What \<open>kmalloc\<close> returns for the
  two areas the boot processor reserves is a parameter, by the number of processors.
\<close>

section \<open>Statements and state\<close>

definition AP_INIT_STACK_SIZE :: u64 where "AP_INIT_STACK_SIZE = 128"
definition KERNEL_STACK_SIZE :: u64 where "KERNEL_STACK_SIZE = 0x4000"

text \<open>
  The boot processor polls the trampoline's two counters, which it reads in no fixed order; then it
  takes the count, and reserves and publishes the two areas. \<open>No_tls\<close> and \<open>No_stacks\<close> are its panics.
\<close>

datatype bsp_pc = Polling | Counting | Reserve_tls | No_tls | Reserve_stacks | No_stacks |
  Set_limit | Set_size | Set_ptr | Bsp_arrive | Bsp_wait | Bsp_main

datatype ap_pc = Off | Counted | Lock_stack | Wait_stack | No_stack | Unlock_stack | Wait_tls | Lock_tls |
  Take_tls | Unlock_tls | Write_tcb | Copy_tls | Set_fs | Ap_arrive | Ap_wait | Ap_main

record startup =
  bsp :: bsp_pc
  ap :: "nat \<Rightarrow> ap_pc"
  tramp_count :: u16
  tramp_done :: u16
  seen_done :: "u16 option"
  seen_count :: "u16 option"
  ap_count :: u16
  tls_vars :: tls
  ap_block :: "nat \<Rightarrow> addr"
  fs_base :: "nat \<Rightarrow> addr"
  stack_mutex :: bool
  init_ptr :: addr
  init_limit :: addr
  init_size :: addr
  rsp :: "nat \<Rightarrow> addr"
  working_processor_count :: u16
  memory :: mem

section \<open>Steps\<close>

text \<open>The boot processor.\<close>

inductive bsp_step :: "(u16 \<Rightarrow> addr) \<Rightarrow> (u16 \<Rightarrow> addr) \<Rightarrow> startup \<Rightarrow> startup \<Rightarrow> bool" for tls_at stack_at where
  read_done: "bsp s = Polling \<Longrightarrow> bsp_step tls_at stack_at s (s\<lparr>seen_done := Some (tramp_done s)\<rparr>)"
| read_count: "bsp s = Polling \<Longrightarrow> bsp_step tls_at stack_at s (s\<lparr>seen_count := Some (tramp_count s)\<rparr>)"
| compare: "bsp s = Polling \<Longrightarrow> seen_done s = Some d \<Longrightarrow> seen_count s = Some c \<Longrightarrow>
    bsp_step tls_at stack_at s (s\<lparr>bsp := if d < c then Polling else Counting, seen_done := None, seen_count := None\<rparr>)"
| take_count: "bsp s = Counting \<Longrightarrow>
    bsp_step tls_at stack_at s (s\<lparr>bsp := Reserve_tls, ap_count := tramp_count s\<rparr>)"
| reserve_tls: "bsp s = Reserve_tls \<Longrightarrow>
    bsp_step tls_at stack_at s
      (if tls_at (ap_count s) = 0 then s\<lparr>bsp := No_tls\<rparr>
       else s\<lparr>bsp := Reserve_stacks, tls_vars := tls_publish (tls_at (ap_count s)) (tls_vars s)\<rparr>)"
| reserve_stacks: "bsp s = Reserve_stacks \<Longrightarrow>
    bsp_step tls_at stack_at s (s\<lparr>bsp := if stack_at (ap_count s) = 0 then No_stacks else Set_limit\<rparr>)"
| set_limit: "bsp s = Set_limit \<Longrightarrow>
    bsp_step tls_at stack_at s
      (s\<lparr>bsp := Set_size, init_limit := stack_at (ap_count s) + ucast (ap_count s) * AP_INIT_STACK_SIZE\<rparr>)"
| set_size: "bsp s = Set_size \<Longrightarrow>
    bsp_step tls_at stack_at s (s\<lparr>bsp := Set_ptr, init_size := AP_INIT_STACK_SIZE\<rparr>)"
| set_ptr: "bsp s = Set_ptr \<Longrightarrow>
    bsp_step tls_at stack_at s (s\<lparr>bsp := Bsp_arrive, init_ptr := stack_at (ap_count s)\<rparr>)"
| bsp_arrive: "bsp s = Bsp_arrive \<Longrightarrow>
    bsp_step tls_at stack_at s (s\<lparr>bsp := Bsp_wait, working_processor_count := working_processor_count s + 1\<rparr>)"
| bsp_leave: "bsp s = Bsp_wait \<Longrightarrow> \<not> unat (working_processor_count s) < unat (ap_count s) + 1 \<Longrightarrow>
    bsp_step tls_at stack_at s (s\<lparr>bsp := Bsp_main\<rparr>)"

text \<open>
  Application processor \<open>i\<close>: the trampoline's two increments, the stack it takes under the lock of
  \<^verbatim>\<open>kernel_start.s\<close> (the comparison with the limit is signed), its thread-local block, and the barrier.
\<close>

inductive ap_step :: "nat \<Rightarrow> addr \<Rightarrow> u64 \<Rightarrow> nat \<Rightarrow> startup \<Rightarrow> startup \<Rightarrow> bool" for n img sz i where
  count: "i < n \<Longrightarrow> ap s i = Off \<Longrightarrow>
    ap_step n img sz i s (s\<lparr>ap := (ap s)(i := Counted), tramp_count := tramp_count s + 1\<rparr>)"
| count_done: "ap s i = Counted \<Longrightarrow>
    ap_step n img sz i s (s\<lparr>ap := (ap s)(i := Lock_stack), tramp_done := tramp_done s + 1\<rparr>)"
| lock_stack: "ap s i = Lock_stack \<Longrightarrow> \<not> stack_mutex s \<Longrightarrow>
    ap_step n img sz i s (s\<lparr>ap := (ap s)(i := Wait_stack), stack_mutex := True\<rparr>)"
| no_stack: "ap s i = Wait_stack \<Longrightarrow> init_ptr s \<noteq> 0 \<Longrightarrow> sint (init_limit s) \<le> sint (init_ptr s) \<Longrightarrow>
    ap_step n img sz i s (s\<lparr>ap := (ap s)(i := No_stack)\<rparr>)"
| take_stack: "ap s i = Wait_stack \<Longrightarrow> init_ptr s \<noteq> 0 \<Longrightarrow> \<not> sint (init_limit s) \<le> sint (init_ptr s) \<Longrightarrow>
    ap_step n img sz i s (s\<lparr>ap := (ap s)(i := Unlock_stack), rsp := (rsp s)(i := init_ptr s + init_size s),
      init_ptr := init_ptr s + init_size s\<rparr>)"
| unlock_stack: "ap s i = Unlock_stack \<Longrightarrow>
    ap_step n img sz i s (s\<lparr>ap := (ap s)(i := Wait_tls), stack_mutex := False\<rparr>)"
| see_tls: "ap s i = Wait_tls \<Longrightarrow> ap_tls (tls_vars s) \<noteq> 0 \<Longrightarrow>
    ap_step n img sz i s (s\<lparr>ap := (ap s)(i := Lock_tls)\<rparr>)"
| lock_tls: "ap s i = Lock_tls \<Longrightarrow> mtx_lock (ap_mut (tls_vars s)) = Some (thrd_success, w) \<Longrightarrow>
    ap_step n img sz i s (s\<lparr>ap := (ap s)(i := Take_tls), tls_vars := (tls_vars s)\<lparr>ap_mut := w\<rparr>\<rparr>)"
| take_tls: "ap s i = Take_tls \<Longrightarrow> tls_take sz (tls_vars s) = (p, t) \<Longrightarrow>
    ap_step n img sz i s (s\<lparr>ap := (ap s)(i := Unlock_tls), ap_block := (ap_block s)(i := p), tls_vars := t\<rparr>)"
| unlock_tls: "ap s i = Unlock_tls \<Longrightarrow> mtx_unlock (ap_mut (tls_vars s)) = (thrd_success, w) \<Longrightarrow>
    ap_step n img sz i s (s\<lparr>ap := (ap s)(i := Write_tcb), tls_vars := (tls_vars s)\<lparr>ap_mut := w\<rparr>\<rparr>)"
| write_tcb: "ap s i = Write_tcb \<Longrightarrow>
    ap_step n img sz i s (s\<lparr>ap := (ap s)(i := Copy_tls), memory := tls_tcb sz (ap_block s i) (memory s)\<rparr>)"
| copy_tls: "ap s i = Copy_tls \<Longrightarrow>
    ap_step n img sz i s (s\<lparr>ap := (ap s)(i := Set_fs), memory := tls_fill img sz (ap_block s i) (memory s)\<rparr>)"
| set_fs: "ap s i = Set_fs \<Longrightarrow>
    ap_step n img sz i s (s\<lparr>ap := (ap s)(i := Ap_arrive), fs_base := (fs_base s)(i := ap_block s i + sz)\<rparr>)"
| arrive: "ap s i = Ap_arrive \<Longrightarrow>
    ap_step n img sz i s (s\<lparr>ap := (ap s)(i := Ap_wait), working_processor_count := working_processor_count s + 1\<rparr>)"
| leave: "ap s i = Ap_wait \<Longrightarrow> \<not> unat (working_processor_count s) < unat (ap_count s) + 1 \<Longrightarrow>
    ap_step n img sz i s (s\<lparr>ap := (ap s)(i := Ap_main)\<rparr>)"

text \<open>The static data before any of this runs; memory is what the loader left.\<close>

definition at_reset :: "mem \<Rightarrow> startup" where
  "at_reset m = \<lparr>bsp = Polling, ap = (\<lambda>_. Off), tramp_count = 0, tramp_done = 0, seen_done = None, seen_count = None,
     ap_count = 0, tls_vars = \<lparr>ap_tls = 0, ap_tls_used = 0, ap_mut = \<lparr>locked = False\<rparr>\<rparr>, ap_block = (\<lambda>_. 0),
     fs_base = (\<lambda>_. 0), stack_mutex = False, init_ptr = 0, init_limit = 0, init_size = 0, rsp = (\<lambda>_. 0),
     working_processor_count = 0, memory = m\<rparr>"

inductive startup_reach :: "nat \<Rightarrow> addr \<Rightarrow> u64 \<Rightarrow> (u16 \<Rightarrow> addr) \<Rightarrow> (u16 \<Rightarrow> addr) \<Rightarrow> startup \<Rightarrow> bool"
  for n img sz tls_at stack_at where
  reset: "startup_reach n img sz tls_at stack_at (at_reset m)"
| bsp: "startup_reach n img sz tls_at stack_at s \<Longrightarrow> bsp_step tls_at stack_at s t \<Longrightarrow> startup_reach n img sz tls_at stack_at t"
| ap: "startup_reach n img sz tls_at stack_at s \<Longrightarrow> ap_step n img sz i s t \<Longrightarrow> startup_reach n img sz tls_at stack_at t"

section \<open>Dealing out slots\<close>

text \<open>
  Both areas are dealt out the same way, one slot after the other under a lock: those in \<open>X\<close> have
  taken the first slots of width \<open>w\<close> from \<open>b\<close> on, each its own.
\<close>

definition dealt :: "nat set \<Rightarrow> (nat \<Rightarrow> addr) \<Rightarrow> addr \<Rightarrow> addr \<Rightarrow> bool" where
  "dealt X f b w \<longleftrightarrow> finite X \<and> (\<exists>g. bij_betw g X {..<card X} \<and> (\<forall>i \<in> X. f i = b + of_nat (g i) * w))"

lemma dealt_empty [simp]: "dealt {} f b w"
  by (simp add: dealt_def bij_betw_def)

lemma dealt_insert:
  assumes "dealt X f b w" "i \<notin> X"
  shows "dealt (insert i X) (f(i := b + of_nat (card X) * w)) b w"
proof -
  from assms(1) obtain g where g: "finite X" "bij_betw g X {..<card X}" "\<forall>i \<in> X. f i = b + of_nat (g i) * w"
    by (auto simp: dealt_def)
  let ?g = "g(i := card X)"
  have img: "?g ` X = {..<card X}" and inj: "inj_on ?g X" and out: "card X \<notin> {..<card X}"
    using g(2) assms(2) by (auto simp: bij_betw_def inj_on_def)
  then have "inj_on ?g (insert i X)" using assms(2) by (auto simp: inj_on_insert)
  moreover have "?g ` insert i X = {..<card (insert i X)}"
    using img g(1) assms(2) by (simp add: lessThan_Suc)
  ultimately show ?thesis using g(1, 3) assms(2)
    unfolding dealt_def bij_betw_def by (intro conjI exI [of _ ?g]) auto
qed

lemma dealt_cong: "(\<And>i. i \<in> X \<Longrightarrow> f i = g i) \<Longrightarrow> dealt X f b w = dealt X g b w"
  by (auto simp: dealt_def)

lemma dealt_slots:
  assumes "dealt X f b w" "i \<in> X" "j \<in> X" "i \<noteq> j"
  shows "\<exists>p q. p < card X \<and> q < card X \<and> p \<noteq> q \<and> f i = b + of_nat p * w \<and> f j = b + of_nat q * w"
proof -
  from assms(1) obtain g where g: "bij_betw g X {..<card X}" "\<forall>i \<in> X. f i = b + of_nat (g i) * w"
    by (auto simp: dealt_def)
  have "g i \<noteq> g j" using g(1) assms(2-4) by (auto simp: bij_betw_def dest: inj_onD)
  moreover have "g i < card X" "g j < card X" using g(1) assms(2, 3) by (auto simp: bij_betw_def)
  ultimately show ?thesis using g(2) assms(2, 3) by blast
qed

lemma dealt_slot: "dealt X f b w \<Longrightarrow> i \<in> X \<Longrightarrow> \<exists>p < card X. f i = b + of_nat p * w"
  unfolding dealt_def by (metis bij_betwE lessThan_iff)

section \<open>How far the processors are\<close>

fun stage :: "ap_pc \<Rightarrow> nat" where
  "stage Off = 0" | "stage Counted = 1" | "stage Lock_stack = 2" | "stage Wait_stack = 3" | "stage No_stack = 3"
| "stage Unlock_stack = 4" | "stage Wait_tls = 5" | "stage Lock_tls = 6" | "stage Take_tls = 7" | "stage Unlock_tls = 8"
| "stage Write_tcb = 9" | "stage Copy_tls = 10" | "stage Set_fs = 11" | "stage Ap_arrive = 12" | "stage Ap_wait = 13"
| "stage Ap_main = 14"

fun bsp_stage :: "bsp_pc \<Rightarrow> nat" where
  "bsp_stage Polling = 0" | "bsp_stage Counting = 1" | "bsp_stage Reserve_tls = 2" | "bsp_stage No_tls = 2"
| "bsp_stage Reserve_stacks = 3" | "bsp_stage No_stacks = 3" | "bsp_stage Set_limit = 4" | "bsp_stage Set_size = 5"
| "bsp_stage Set_ptr = 6" | "bsp_stage Bsp_arrive = 7" | "bsp_stage Bsp_wait = 8" | "bsp_stage Bsp_main = 9"

definition reached :: "nat \<Rightarrow> (nat \<Rightarrow> ap_pc) \<Rightarrow> nat set" where
  "reached k f = {i. k \<le> stage (f i)}"

lemma in_reached: "i \<in> reached k f \<longleftrightarrow> k \<le> stage (f i)"
  by (simp add: reached_def)

lemma reached_same [simp]: "(k \<le> stage pc) = (k \<le> stage (f i)) \<Longrightarrow> reached k (f(i := pc)) = reached k f"
  by (auto simp: reached_def)

lemma reached_new: "k \<le> stage pc \<Longrightarrow> stage (f i) < k \<Longrightarrow> reached k (f(i := pc)) = insert i (reached k f) \<and> i \<notin> reached k f"
  by (auto simp: reached_def)

lemma reached_mono: "j \<le> k \<Longrightarrow> reached k f \<subseteq> reached j f"
  by (auto simp: reached_def)

lemma reached_empty: "reached j f = {} \<Longrightarrow> j \<le> k \<Longrightarrow> reached k f = {}"
  using reached_mono by blast

definition counts_ok :: "nat \<Rightarrow> startup \<Rightarrow> bool" where
  "counts_ok n s \<longleftrightarrow> reached 1 (ap s) \<subseteq> {..<n} \<and> tramp_count s = of_nat (card (reached 1 (ap s))) \<and>
     unat (ap_count s) \<le> card (reached 1 (ap s))"

definition in_stack :: "ap_pc \<Rightarrow> bool" where
  "in_stack p \<longleftrightarrow> p \<in> {Wait_stack, No_stack, Unlock_stack}"

definition in_tls :: "ap_pc \<Rightarrow> bool" where
  "in_tls p \<longleftrightarrow> p \<in> {Take_tls, Unlock_tls}"

text \<open>A lock is taken exactly while a processor is in its section, and at most one is.\<close>

definition excl :: "(ap_pc \<Rightarrow> bool) \<Rightarrow> (nat \<Rightarrow> ap_pc) \<Rightarrow> bool \<Rightarrow> bool" where
  "excl p f l \<longleftrightarrow> (\<forall>i j. p (f i) \<longrightarrow> p (f j) \<longrightarrow> i = j) \<and> (l \<longleftrightarrow> (\<exists>i. p (f i)))"

lemma excl_same: "p pc = p (f i) \<Longrightarrow> excl p (f(i := pc)) l = excl p f l"
proof -
  assume "p pc = p (f i)"
  then have "p ((f(i := pc)) j) = p (f j)" for j by simp
  then show ?thesis by (simp only: excl_def)
qed

lemma excl_enter: "excl p f False \<Longrightarrow> p pc \<Longrightarrow> excl p (f(i := pc)) True"
  by (auto simp: excl_def)

lemma excl_leave: "excl p f l \<Longrightarrow> p (f i) \<Longrightarrow> \<not> p pc \<Longrightarrow> excl p (f(i := pc)) False"
  by (auto simp: excl_def)

definition locks_ok :: "startup \<Rightarrow> bool" where
  "locks_ok s \<longleftrightarrow> excl in_stack (ap s) (stack_mutex s) \<and> excl in_tls (ap s) (locked (ap_mut (tls_vars s)))"

definition published :: "(u16 \<Rightarrow> addr) \<Rightarrow> (u16 \<Rightarrow> addr) \<Rightarrow> startup \<Rightarrow> bool" where
  "published tls_at stack_at s \<longleftrightarrow>
     (if bsp_stage (bsp s) < 3 then ap_tls (tls_vars s) = 0
      else ap_tls (tls_vars s) = tls_at (ap_count s) \<and> tls_at (ap_count s) \<noteq> 0) \<and>
     (bsp s = No_tls \<longrightarrow> tls_at (ap_count s) = 0) \<and> (bsp s = No_stacks \<longrightarrow> stack_at (ap_count s) = 0) \<and>
     (3 < bsp_stage (bsp s) \<longrightarrow> stack_at (ap_count s) \<noteq> 0) \<and>
     (4 < bsp_stage (bsp s) \<longrightarrow> init_limit s = stack_at (ap_count s) + ucast (ap_count s) * AP_INIT_STACK_SIZE) \<and>
     (5 < bsp_stage (bsp s) \<longrightarrow> init_size s = AP_INIT_STACK_SIZE) \<and>
     (bsp_stage (bsp s) < 7 \<longrightarrow> init_ptr s = 0 \<and> reached 4 (ap s) = {})"

definition stacks_ok :: "(u16 \<Rightarrow> addr) \<Rightarrow> startup \<Rightarrow> bool" where
  "stacks_ok stack_at s \<longleftrightarrow>
     (6 < bsp_stage (bsp s) \<longrightarrow>
        init_ptr s = stack_at (ap_count s) + of_nat (card (reached 4 (ap s))) * AP_INIT_STACK_SIZE) \<and>
     card (reached 4 (ap s)) \<le> unat (ap_count s) \<and>
     (\<forall>i. ap s i = No_stack \<longrightarrow> 6 < bsp_stage (bsp s) \<and> unat (ap_count s) \<le> card (reached 4 (ap s))) \<and>
     dealt (reached 4 (ap s)) (rsp s) (stack_at (ap_count s) + AP_INIT_STACK_SIZE) AP_INIT_STACK_SIZE"

definition blocks_ok :: "u64 \<Rightarrow> startup \<Rightarrow> bool" where
  "blocks_ok sz s \<longleftrightarrow> ap_tls_used (tls_vars s) = of_nat (card (reached 8 (ap s))) \<and>
     dealt (reached 8 (ap s)) (ap_block s) (ap_tls (tls_vars s)) (sz + sizeof_tcb)"

definition memory_ok :: "addr \<Rightarrow> u64 \<Rightarrow> startup \<Rightarrow> bool" where
  "memory_ok img sz s \<longleftrightarrow>
     (\<forall>i \<in> reached 10 (ap s). load64 (memory s) (ap_block s i + sz) = ap_block s i + sz) \<and>
     (\<forall>i \<in> reached 11 (ap s). tls_ready img sz (ap_block s i) (memory s)) \<and>
     (\<forall>i \<in> reached 12 (ap s). fs_base s i = ap_block s i + sz)"

definition barrier_ok :: "startup \<Rightarrow> bool" where
  "barrier_ok s \<longleftrightarrow>
     working_processor_count s = of_nat (card (reached 13 (ap s)) + (if 7 < bsp_stage (bsp s) then 1 else 0)) \<and>
     (bsp s = Bsp_main \<or> reached 14 (ap s) \<noteq> {} \<longrightarrow> 7 < bsp_stage (bsp s) \<and> unat (ap_count s) \<le> card (reached 13 (ap s)))"

text \<open>
  What the two areas \<open>kmalloc\<close> returned must be for every number of processors: the block area does
  not wrap and does not meet the image, the stack area does not wrap as signed numbers either.
\<close>

definition areas_ok :: "nat \<Rightarrow> addr \<Rightarrow> u64 \<Rightarrow> (u16 \<Rightarrow> addr) \<Rightarrow> (u16 \<Rightarrow> addr) \<Rightarrow> bool" where
  "areas_ok n img sz tls_at stack_at \<longleftrightarrow> n + 1 < 2 ^ 16 \<and> unat sz + 8 < 2 ^ 64 \<and>
     (\<forall>c. unat c \<le> n \<longrightarrow> tls_at c \<noteq> 0 \<longrightarrow> unat (tls_at c) + unat c * (unat sz + 8) \<le> 2 ^ 64 \<and>
        (\<forall>j < unat c * (unat sz + 8). tls_at c + of_nat j \<notin> image_bytes img sz)) \<and>
     (\<forall>c. unat c \<le> n \<longrightarrow> stack_at c \<noteq> 0 \<longrightarrow> unat (stack_at c) + unat c * 128 < 2 ^ 64 \<and>
        (unat (stack_at c) + unat c * 128 < 2 ^ 63 \<or> 2 ^ 63 \<le> unat (stack_at c)))"

section \<open>The invariants\<close>

lemma unat_of_nat_le: "unat (of_nat k :: u16) \<le> k"
  by (simp add: unsigned_of_nat)

lemma counts_finite:
  assumes "counts_ok n s" "0 < k"
  shows "finite (reached k (ap s))" "card (reached k (ap s)) \<le> n"
proof -
  have "reached k (ap s) \<subseteq> {..<n}" using assms reached_mono [of 1 k "ap s"] by (auto simp: counts_ok_def)
  then show "finite (reached k (ap s))" "card (reached k (ap s)) \<le> n"
    using finite_subset card_mono [of "{..<n}"] by auto
qed

lemma card_new:
  "k \<le> stage pc \<Longrightarrow> stage (f i) < k \<Longrightarrow> finite (reached k f) \<Longrightarrow> card (reached k (f(i := pc))) = Suc (card (reached k f))"
  using reached_new [of k pc f i] by simp

lemma counts_bsp: "bsp_step ta sa s t \<Longrightarrow> counts_ok n s \<Longrightarrow> counts_ok n t"
  by (erule bsp_step.cases) (auto simp: counts_ok_def unat_of_nat_le split: if_splits)

lemma counts_ap:
  assumes "ap_step n img sz i s t" "counts_ok n s"
  shows "counts_ok n t"
  using assms(1)
proof cases
  case count
  have "finite (reached 1 (ap s))" using counts_finite [OF assms(2), of 1] by simp
  then show ?thesis
    using assms(2) count card_new [of 1 Counted "ap s" i] reached_new [of 1 Counted "ap s" i] by (simp add: counts_ok_def)
qed (use assms(2) in \<open>simp_all add: counts_ok_def\<close>)

lemma locks_bsp:
  assumes "bsp_step ta sa s t" "locks_ok s" "published ta sa s"
  shows "locks_ok t"
  using assms(1)
proof cases
  case reserve_tls
  have "\<not> in_tls (ap s i)" for i
  proof -
    have "reached 4 (ap s) = {}" using assms(3) reserve_tls by (simp add: published_def)
    then have "i \<notin> reached 4 (ap s)" by simp
    then show ?thesis by (auto simp: in_reached in_tls_def)
  qed
  then have "excl in_tls (ap s) False" by (simp add: excl_def)
  then show ?thesis using assms(2) reserve_tls
    by (simp add: locks_ok_def tls_publish_def mtx_init_def mtx_plain_def mtx_recursive_def mtx_timed_def)
qed (use assms(2) in \<open>simp_all add: locks_ok_def\<close>)

lemma locks_ap:
  assumes "ap_step n img sz i s t" "locks_ok s"
  shows "locks_ok t"
proof -
  have st: "excl in_stack (ap s) (stack_mutex s)" and tl: "excl in_tls (ap s) (locked (ap_mut (tls_vars s)))"
    using assms(2) by (simp_all add: locks_ok_def)
  note sections = in_stack_def in_tls_def
  show ?thesis
    using assms(1)
  proof cases
    case lock_stack
    then show ?thesis using st tl by (simp add: locks_ok_def excl_same excl_enter sections)
  next
    case unlock_stack
    then show ?thesis using excl_leave [OF st, of i Wait_tls] tl by (simp add: locks_ok_def excl_same sections)
  next
    case (lock_tls w)
    then have free: "\<not> locked (ap_mut (tls_vars s))" using mtx_lock_held by force
    then have "locked w" using lock_tls(3) mtx_lock_free by force
    with free show ?thesis using lock_tls st tl by (simp add: locks_ok_def excl_same excl_enter sections)
  next
    case (unlock_tls w)
    then show ?thesis using excl_leave [OF tl, of i Write_tcb] st
      by (auto simp: locks_ok_def excl_same sections mtx_unlock_def)
  qed (use st tl in \<open>simp_all add: locks_ok_def excl_same sections tls_take_def; fail\<close>)+
qed

text \<open>Nobody has taken a stack before the pointer is published, and then the number is fixed.\<close>

lemma published_bsp:
  assumes "bsp_step ta sa s t" "published ta sa s"
  shows "published ta sa t"
  using assms(1) by cases (use assms(2) in \<open>simp_all add: published_def tls_publish_def split: if_splits\<close>)

lemma published_ap:
  assumes "ap_step n img sz i s t" "published ta sa s"
  shows "published ta sa t"
  using assms(1)
proof cases
  case take_stack
  have "6 < bsp_stage (bsp s)" using assms(2) take_stack(3) by (auto simp: published_def not_less split: if_splits)
  then show ?thesis using assms(2) take_stack(1) by (simp add: published_def)
qed (use assms(2) in \<open>simp_all add: published_def tls_take_def split: if_splits\<close>)

lemma stacks_bsp:
  assumes "bsp_step ta sa s t" "stacks_ok sa s" "published ta sa s"
  shows "stacks_ok sa t"
  using assms(1) by cases (use assms(2, 3) in \<open>simp_all add: stacks_ok_def published_def\<close>)

lemma sint_shift: "sint (a :: addr) = (int (unat a) + 2 ^ 63) mod 2 ^ 64 - 2 ^ 63"
  by (simp add: sint_uint signed_take_bit_eq_take_bit_shift take_bit_eq_mod)

lemma sint_offset:
  fixes b :: addr
  assumes "unat b + k < 2 ^ 64" "unat b + k < 2 ^ 63 \<or> 2 ^ 63 \<le> unat b" "j \<le> k"
  shows "sint (b + of_nat j) = sint b + int j"
proof -
  have u: "unat (b + of_nat j) = unat b + j"
    using assms(1, 3) by (subst unat_add_no_wrap) (simp_all add: unat_of_nat_no_wrap)
  show ?thesis
  proof (cases "unat b + k < 2 ^ 63")
    case True
    have "(int x + 2 ^ 63) mod 2 ^ 64 = int x + 2 ^ 63" if "x < 2 ^ 63" for x
      using that by (intro mod_pos_pos_trivial) simp_all
    from this [of "unat b"] this [of "unat b + j"] show ?thesis
      unfolding sint_shift u using True assms(3) by simp
  next
    case False
    then have "2 ^ 63 \<le> unat b" using assms(2) by blast
    then have "int (2 ^ 63) \<le> int (unat b)" by (simp only: of_nat_le_iff)
    then have b: "2 ^ 63 \<le> int (unat b)" by simp
    have "(int x + 2 ^ 63) mod 2 ^ 64 = int x - 2 ^ 63" if "2 ^ 63 \<le> int x" "x < 2 ^ 64" for x
      using that by (subst mod_pos_geq) simp_all
    from this [of "unat b"] this [of "unat b + j"] show ?thesis
      unfolding sint_shift u using b assms(1, 3) by simp
  qed
qed

lemma stack_pointer:
  assumes "init_ptr s \<noteq> 0" "stacks_ok sa s" "published ta sa s" "counts_ok n s" "areas_ok n img sz ta sa"
  shows "6 < bsp_stage (bsp s)" "init_size s = 128"
    "init_ptr s = sa (ap_count s) + of_nat (card (reached 4 (ap s))) * 128"
    "sint (init_limit s) \<le> sint (init_ptr s) \<longleftrightarrow> unat (ap_count s) \<le> card (reached 4 (ap s))"
proof -
  let ?X = "reached 4 (ap s)" and ?b = "sa (ap_count s)" and ?c = "unat (ap_count s)"
  show b: "6 < bsp_stage (bsp s)" using assms(1, 3) by (auto simp: published_def not_less split: if_splits)
  have pub: "init_limit s = ?b + ucast (ap_count s) * 128" "init_size s = 128" "?b \<noteq> 0"
    using assms(3) b by (auto simp: published_def AP_INIT_STACK_SIZE_def)
  show "init_size s = 128" by (rule pub(2))
  show ptr: "init_ptr s = ?b + of_nat (card ?X) * 128" using assms(2) b by (auto simp: stacks_ok_def AP_INIT_STACK_SIZE_def)
  have card: "card ?X \<le> ?c" using assms(2) by (simp add: stacks_ok_def)
  have "?c \<le> n" using assms(4) counts_finite(2) [OF assms(4), of 1] by (simp add: counts_ok_def)
  then have area: "unat ?b + ?c * 128 < 2 ^ 64" "unat ?b + ?c * 128 < 2 ^ 63 \<or> 2 ^ 63 \<le> unat ?b"
    using assms(5) pub(3) by (auto simp: areas_ok_def)
  have "init_limit s = ?b + of_nat (?c * 128)" "init_ptr s = ?b + of_nat (card ?X * 128)"
    by (simp_all add: pub(1) ptr)
  then have "sint (init_limit s) = sint ?b + int (?c * 128)" "sint (init_ptr s) = sint ?b + int (card ?X * 128)"
    using sint_offset [OF area, of "?c * 128"] sint_offset [OF area, of "card ?X * 128"] card
    by (simp_all only: mult_le_mono1 order_refl)
  then have "sint (init_limit s) \<le> sint (init_ptr s) \<longleftrightarrow> ?c * 128 \<le> card ?X * 128" by linarith
  then show "sint (init_limit s) \<le> sint (init_ptr s) \<longleftrightarrow> ?c \<le> card ?X" by simp
qed

lemma stacks_ap:
  assumes "ap_step n img sz i s t" "stacks_ok sa s" "published ta sa s" "counts_ok n s" "areas_ok n img sz ta sa"
  shows "stacks_ok sa t"
proof -
  note ptr = stack_pointer [OF _ assms(2-5)]
  let ?X = "reached 4 (ap s)" and ?b = "sa (ap_count s)" and ?c = "unat (ap_count s)"
  show ?thesis
    using assms(1)
  proof cases
    case no_stack
    then show ?thesis using ptr assms(2) by (simp add: stacks_ok_def AP_INIT_STACK_SIZE_def)
  next
    case take_stack
    have less: "card ?X < ?c" using ptr(4) take_stack by simp
    then have "\<forall>j. ap s j \<noteq> No_stack" using assms(2) by (auto simp: stacks_ok_def)
    moreover have new: "reached 4 (ap t) = insert i ?X" "i \<notin> ?X"
      using take_stack(1, 2) reached_new [of 4 Unlock_stack "ap s" i] by simp_all
    moreover have "card (insert i ?X) = Suc (card ?X)" using counts_finite(1) [OF assms(4), of 4] new(2) by simp
    moreover have "dealt (insert i ?X) ((rsp s)(i := ?b + 128 + of_nat (card ?X) * 128)) (?b + 128) 128"
      using dealt_insert [OF _ new(2)] assms(2) by (simp add: stacks_ok_def AP_INIT_STACK_SIZE_def)
    ultimately show ?thesis using take_stack(1, 3) ptr(1-3) less
      by (simp add: stacks_ok_def AP_INIT_STACK_SIZE_def algebra_simps)
  qed (use assms(2) in \<open>auto simp: stacks_ok_def; fail\<close>)+
qed

lemma blocks_bsp:
  assumes "bsp_step ta sa s t" "blocks_ok sz s" "published ta sa s"
  shows "blocks_ok sz t"
  using assms(1)
proof cases
  case reserve_tls
  then have "reached 4 (ap s) = {}" using assms(3) by (simp add: published_def)
  then have "reached 8 (ap s) = {}" by (rule reached_empty) simp
  then show ?thesis using assms(2) reserve_tls by (simp add: blocks_ok_def tls_publish_def)
qed (use assms(2) in \<open>simp_all add: blocks_ok_def\<close>)

lemma blocks_ap:
  assumes "ap_step n img sz i s t" "blocks_ok sz s" "counts_ok n s"
  shows "blocks_ok sz t"
  using assms(1)
proof cases
  case (take_tls p u)
  let ?X = "reached 8 (ap s)"
  have "reached 8 (ap t) = insert i ?X" "i \<notin> ?X"
    using take_tls(1, 2) reached_new [of 8 Unlock_tls "ap s" i] by simp_all
  moreover have "card (insert i ?X) = Suc (card ?X)"
    using counts_finite(1) [OF assms(3), of 8] \<open>i \<notin> ?X\<close> by simp
  moreover note dealt_insert [of ?X "ap_block s" "ap_tls (tls_vars s)" "sz + sizeof_tcb" i]
  ultimately show ?thesis using take_tls assms(2) by (auto simp: blocks_ok_def tls_take_def algebra_simps)
qed (use assms(2) in \<open>simp_all add: blocks_ok_def\<close>)

definition startup_inv :: "nat \<Rightarrow> addr \<Rightarrow> u64 \<Rightarrow> (u16 \<Rightarrow> addr) \<Rightarrow> (u16 \<Rightarrow> addr) \<Rightarrow> startup \<Rightarrow> bool" where
  "startup_inv n img sz ta sa s \<longleftrightarrow> counts_ok n s \<and> locks_ok s \<and> published ta sa s \<and> stacks_ok sa s \<and>
     blocks_ok sz s \<and> memory_ok img sz s \<and> barrier_ok s"

text \<open>The blocks taken lie behind each other in the area, so they meet neither each other nor the image.\<close>

lemma slots_disjoint:
  fixes T :: addr
  assumes "p \<noteq> q" "p * w + w \<le> 2 ^ 64" "q * w + w \<le> 2 ^ 64"
    "unat (a - (T + of_nat (p * w))) < w" "unat (a - (T + of_nat (q * w))) < w"
  shows False
proof -
  define r where "r = unat (a - (T + of_nat (p * w)))"
  define r' where "r' = unat (a - (T + of_nat (q * w)))"
  have "a = T + of_nat (p * w) + of_nat r" "a = T + of_nat (q * w) + of_nat r'"
    unfolding r_def r'_def by (rule offset_decomp)+
  then have "T + of_nat (p * w + r) = T + of_nat (q * w + r')" by (simp only: of_nat_add add.assoc)
  then have "(of_nat (p * w + r) :: addr) = of_nat (q * w + r')" by (simp only: add_left_cancel)
  then have "unat (of_nat (p * w + r) :: addr) = unat (of_nat (q * w + r') :: addr)" by (simp only:)
  moreover have lt: "r < w" "r' < w" using assms(4, 5) by (simp_all add: r_def r'_def)
  then have "p * w + r < 2 ^ 64" "q * w + r' < 2 ^ 64" using assms(2, 3) by linarith+
  ultimately have "p * w + r = q * w + r'" by (subst (asm) (1 2) unat_of_nat_no_wrap) simp_all
  then have "(r + p * w) div w = (r' + q * w) div w" by (simp only: add.commute)
  then have "p = q" using lt by (simp add: div_mult_self1)
  with assms(1) show False by simp
qed

lemma slot_byte:
  fixes T :: addr
  assumes "a \<in> block_bytes sz (T + of_nat p * (sz + sizeof_tcb))"
  shows "\<exists>r < unat sz + 8. a = T + of_nat (p * (unat sz + 8) + r)"
proof -
  let ?q = "T + of_nat p * (sz + sizeof_tcb)"
  have "a = ?q + of_nat (unat (a - ?q))" by (rule offset_decomp)
  moreover have "?q = T + of_nat (p * (unat sz + 8))" by (simp add: sizeof_tcb_def)
  ultimately have "a = T + of_nat (p * (unat sz + 8) + unat (a - ?q))" by (simp only: of_nat_add add.assoc)
  then show ?thesis using assms by (auto simp: block_bytes_def)
qed

lemma taken_blocks:
  assumes "counts_ok n s" "published ta sa s" "stacks_ok sa s" "blocks_ok sz s" "areas_ok n img sz ta sa"
    and i: "i \<in> reached 8 (ap s)"
  shows "clear_of_image img sz (ap_block s i)"
    "j \<in> reached 8 (ap s) \<Longrightarrow> i \<noteq> j \<Longrightarrow> block_bytes sz (ap_block s i) \<inter> block_bytes sz (ap_block s j) = {}"
proof -
  let ?c = "unat (ap_count s)" and ?w = "unat sz + 8" and ?T = "ta (ap_count s)"
  have "i \<in> reached 4 (ap s)" using i reached_mono [of 4 8] by auto
  then have "6 < bsp_stage (bsp s)" using assms(2) by (auto simp: published_def not_less)
  then have T: "ap_tls (tls_vars s) = ?T" "?T \<noteq> 0" using assms(2) by (auto simp: published_def)
  have "card (reached 8 (ap s)) \<le> card (reached 4 (ap s))"
    using counts_finite(1) [OF assms(1), of 4] reached_mono [of 4 8] by (intro card_mono) auto
  then have card: "card (reached 8 (ap s)) \<le> ?c" using assms(3) by (simp add: stacks_ok_def)
  have "?c \<le> n" using assms(1) counts_finite(2) [OF assms(1), of 1] by (simp add: counts_ok_def)
  then have area: "unat ?T + ?c * ?w \<le> 2 ^ 64" "\<And>j. j < ?c * ?w \<Longrightarrow> ?T + of_nat j \<notin> image_bytes img sz" "?w \<le> 2 ^ 64"
    using assms(5) T(2) by (auto simp: areas_ok_def)
  have dealt: "dealt (reached 8 (ap s)) (ap_block s) ?T (sz + sizeof_tcb)" using assms(4) T(1) by (simp add: blocks_ok_def)
  have fit: "p * ?w + r < ?c * ?w" if "p < card (reached 8 (ap s))" "r < ?w" for p r
  proof -
    have "Suc p * ?w \<le> ?c * ?w" using that(1) card by (intro mult_le_mono1) simp
    then show ?thesis using that(2) by simp
  qed
  from dealt_slot [OF dealt i] obtain p where p: "p < card (reached 8 (ap s))" "ap_block s i = ?T + of_nat p * (sz + sizeof_tcb)" by blast
  have "a \<notin> image_bytes img sz" if "a \<in> block_bytes sz (ap_block s i)" for a
    using slot_byte [OF that [unfolded p(2)]] area(2) fit [OF p(1)] by blast
  then show "clear_of_image img sz (ap_block s i)" using area(3) by (auto simp: clear_of_image_def)
  show "block_bytes sz (ap_block s i) \<inter> block_bytes sz (ap_block s j) = {}" if j: "j \<in> reached 8 (ap s)" "i \<noteq> j"
  proof -
    from dealt_slots [OF dealt i j] obtain p q where pq: "p < card (reached 8 (ap s))" "q < card (reached 8 (ap s))" "p \<noteq> q"
      "ap_block s i = ?T + of_nat p * (sz + sizeof_tcb)" "ap_block s j = ?T + of_nat q * (sz + sizeof_tcb)" by blast
    have eq: "?T + of_nat k * (sz + sizeof_tcb) = ?T + of_nat (k * ?w)" for k by (simp add: sizeof_tcb_def)
    have "k * ?w + ?w \<le> 2 ^ 64" if "k < card (reached 8 (ap s))" for k
    proof -
      have "Suc k * ?w \<le> ?c * ?w" using that card by (intro mult_le_mono1) simp
      then show ?thesis using area(1) by simp
    qed
    from slots_disjoint [OF pq(3) this [OF pq(1)] this [OF pq(2)], of _ ?T]
    have "False" if "a \<in> block_bytes sz (ap_block s i)" "a \<in> block_bytes sz (ap_block s j)" for a
      using that unfolding pq(4, 5) eq block_bytes_def by blast
    then show ?thesis by blast
  qed
qed

lemma memory_bsp:
  assumes "bsp_step ta sa s t" "memory_ok img sz s"
  shows "memory_ok img sz t"
  using assms(1) by cases (use assms(2) in \<open>simp_all add: memory_ok_def\<close>)

text \<open>What one processor writes to its block no other processor's block notices.\<close>

lemma others_write:
  assumes inv: "counts_ok n s" "published ta sa s" "stacks_ok sa s" "blocks_ok sz s" "areas_ok n img sz ta sa"
    and i: "i \<in> reached 8 (ap s)" and m: "\<And>a. a \<notin> block_bytes sz (ap_block s i) \<Longrightarrow> m' a = memory s a"
    and j: "j \<in> reached 8 (ap s)" "j \<noteq> i"
  shows "load64 m' (ap_block s j + sz) = load64 (memory s) (ap_block s j + sz)"
    "tls_ready img sz (ap_block s j) m' = tls_ready img sz (ap_block s j) (memory s)"
proof -
  have sz: "unat sz + 8 \<le> 2 ^ 64" using inv(5) by (simp add: areas_ok_def)
  have out: "m' a = memory s a" if "a \<in> block_bytes sz (ap_block s j)" for a
    using taken_blocks(2) [OF inv j(1) i j(2)] that by (intro m) blast
  show "load64 m' (ap_block s j + sz) = load64 (memory s) (ap_block s j + sz)"
  proof (rule load64_eqI)
    fix k :: nat assume "k < 8"
    then have "ap_block s j + of_nat (unat sz + k) \<in> block_bytes sz (ap_block s j)" by (intro block_byte sz) simp
    from out [OF this] show "m' (ap_block s j + sz + of_nat k) = memory s (ap_block s j + sz + of_nat k)"
      by (simp add: add.assoc)
  qed
  have "m' a = memory s a" if "a \<in> image_bytes img sz" for a
    using taken_blocks(1) [OF inv i] that by (intro m) (auto simp: clear_of_image_def)
  with out show "tls_ready img sz (ap_block s j) m' = tls_ready img sz (ap_block s j) (memory s)"
    by (intro tls_ready_cong sz) auto
qed

lemma memory_ap:
  assumes "ap_step n img sz i s t" "memory_ok img sz s"
    and inv: "counts_ok n s" "published ta sa s" "stacks_ok sa s" "blocks_ok sz s" "areas_ok n img sz ta sa"
  shows "memory_ok img sz t"
  using assms(1)
proof cases
  case (take_tls p u)
  then have "i \<notin> reached k (ap s)" if "8 \<le> k" for k using that by (simp add: in_reached)
  then have "j \<noteq> i" if "j \<in> reached k (ap s)" "8 \<le> k" for j k using that by blast
  then show ?thesis using take_tls assms(2) by (simp add: memory_ok_def)
next
  case write_tcb
  have i: "i \<in> reached 8 (ap s)" using write_tcb by (simp add: in_reached)
  have sz: "unat sz + 8 \<le> 2 ^ 64" using inv(5) by (simp add: areas_ok_def)
  let ?m = "tls_tcb sz (ap_block s i) (memory s)"
  note w = others_write [OF inv i tls_tcb_frame [OF sz, of _ _ "memory s"]]
  have far: "j \<in> reached 8 (ap s) \<and> j \<noteq> i" if "j \<in> reached k (ap s)" "10 \<le> k" for j k
    using that write_tcb by (auto simp: in_reached)
  have "reached 10 (ap t) = insert i (reached 10 (ap s))" using write_tcb reached_new [of 10 Copy_tls "ap s" i] by simp
  then show ?thesis using assms(2) write_tcb far w by (simp add: memory_ok_def load64_tls_tcb)
next
  case copy_tls
  have i: "i \<in> reached 8 (ap s)" "i \<in> reached 10 (ap s)" using copy_tls by (simp_all add: in_reached)
  have c: "clear_of_image img sz (ap_block s i)" by (rule taken_blocks(1) [OF inv i(1)])
  note w = others_write [OF inv i(1) tls_fill_frame [OF c, of _ "memory s"]]
  have r: "tls_ready img sz (ap_block s i) (tls_fill img sz (ap_block s i) (memory s))"
    using assms(2) i(2) by (intro tls_fill_ready c) (simp add: memory_ok_def)
  have far: "j \<in> reached 8 (ap s) \<and> (10 < k \<longrightarrow> j \<noteq> i)" if "j \<in> reached k (ap s)" "10 \<le> k" for j k
    using that copy_tls by (auto simp: in_reached)
  have "load64 (memory t) (ap_block s j + sz) = ap_block s j + sz" if "j \<in> reached 10 (ap s)" for j
    using r w(1) [of j] far [OF that] assms(2) that copy_tls by (cases "j = i") (simp_all add: memory_ok_def tls_ready_def)
  moreover have "tls_ready img sz (ap_block s j) (memory t)" if "j \<in> reached 11 (ap t)" for j
    using r w(2) [of j] far [of j 11] assms(2) that copy_tls reached_new [of 11 Set_fs "ap s" i]
    by (cases "j = i") (simp_all add: memory_ok_def)
  ultimately show ?thesis using assms(2) copy_tls by (simp add: memory_ok_def)
next
  case set_fs
  then show ?thesis using assms(2) reached_new [of 12 Ap_arrive "ap s" i] by (simp add: memory_ok_def)
qed (use assms(2) in \<open>simp_all add: memory_ok_def\<close>)

lemma working_count:
  assumes "barrier_ok s" "counts_ok n s" "areas_ok n img sz ta sa"
  shows "unat (working_processor_count s) = card (reached 13 (ap s)) + (if 7 < bsp_stage (bsp s) then 1 else 0)"
proof -
  let ?k = "card (reached 13 (ap s)) + (if 7 < bsp_stage (bsp s) then 1 else 0)"
  have "?k < 2 ^ 16" using counts_finite(2) [OF assms(2), of 13] assms(3) by (simp add: areas_ok_def)
  then have "unat (of_nat ?k :: u16) = ?k" by (intro unat_of_nat_no_wrap) simp
  then show ?thesis using assms(1) by (simp only: barrier_ok_def)
qed

lemma barrier_bsp:
  assumes "bsp_step ta sa s t" "barrier_ok s" "counts_ok n s" "published ta sa s" "areas_ok n img sz ta sa"
  shows "barrier_ok t"
  using assms(1)
proof cases
  case take_count
  then have "reached 4 (ap s) = {}" using assms(4) by (simp add: published_def)
  then have "reached 14 (ap s) = {}" by (rule reached_empty) simp
  then show ?thesis using assms(2) take_count by (simp add: barrier_ok_def)
next
  case bsp_leave
  then show ?thesis using assms(2) working_count [OF assms(2, 3, 5)] by (simp add: barrier_ok_def)
qed (use assms(2) in \<open>simp_all add: barrier_ok_def\<close>)

lemma arrived_le:
  assumes "counts_ok n s" "stacks_ok sa s"
  shows "card (reached 13 (ap s)) \<le> unat (ap_count s)"
proof -
  have "card (reached 13 (ap s)) \<le> card (reached 4 (ap s))"
    using counts_finite(1) [OF assms(1), of 4] reached_mono [of 4 13] by (intro card_mono) auto
  then show ?thesis using assms(2) by (simp add: stacks_ok_def)
qed

lemma barrier_ap:
  assumes "ap_step n img sz i s t" "barrier_ok s" "counts_ok n s" "stacks_ok sa s" "areas_ok n img sz ta sa"
  shows "barrier_ok t"
  using assms(1)
proof cases
  case arrive
  then have "card (reached 13 (ap t)) = Suc (card (reached 13 (ap s)))"
    using card_new [of 13 Ap_wait "ap s" i] counts_finite(1) [OF assms(3), of 13] by simp
  then show ?thesis using assms(2) arrive by (auto simp: barrier_ok_def)
next
  case leave
  have "unat (ap_count s) + 1 \<le> unat (working_processor_count s)" using leave by simp
  then have "7 < bsp_stage (bsp s) \<and> unat (ap_count s) \<le> card (reached 13 (ap s))"
    using working_count [OF assms(2, 3, 5)] arrived_le [OF assms(3, 4)] by (simp split: if_splits)
  then show ?thesis using assms(2) leave by (simp add: barrier_ok_def)
qed (use assms(2) in \<open>simp_all add: barrier_ok_def\<close>)

lemma startup_reach_inv:
  assumes "startup_reach n img sz ta sa s" "areas_ok n img sz ta sa"
  shows "startup_inv n img sz ta sa s"
  using assms(1)
proof (induction rule: startup_reach.induct)
  case (reset m)
  have "reached k (\<lambda>_. Off) = {}" if "0 < k" for k using that by (simp add: reached_def)
  then show ?case
    by (simp add: startup_inv_def at_reset_def counts_ok_def locks_ok_def excl_def in_stack_def in_tls_def published_def
        stacks_ok_def blocks_ok_def memory_ok_def barrier_ok_def)
next
  case (bsp s t)
  have i: "counts_ok n s" "locks_ok s" "published ta sa s" "stacks_ok sa s" "blocks_ok sz s" "memory_ok img sz s" "barrier_ok s"
    using bsp.IH by (simp_all add: startup_inv_def)
  note b = bsp.hyps(2)
  show ?case unfolding startup_inv_def
    by (intro conjI counts_bsp [OF b i(1)] locks_bsp [OF b i(2, 3)] published_bsp [OF b i(3)] stacks_bsp [OF b i(4, 3)]
        blocks_bsp [OF b i(5, 3)] memory_bsp [OF b i(6)] barrier_bsp [OF b i(7, 1, 3) assms(2)])
next
  case (ap s k t)
  have i: "counts_ok n s" "locks_ok s" "published ta sa s" "stacks_ok sa s" "blocks_ok sz s" "memory_ok img sz s" "barrier_ok s"
    using ap.IH by (simp_all add: startup_inv_def)
  note b = ap.hyps(2)
  show ?case unfolding startup_inv_def
    by (intro conjI counts_ap [OF b i(1)] locks_ap [OF b i(2)] published_ap [OF b i(3)] stacks_ap [OF b i(4, 3, 1) assms(2)]
        blocks_ap [OF b i(5, 1)] memory_ap [OF b i(6, 1, 3, 4, 5) assms(2)] barrier_ap [OF b i(7, 1, 4) assms(2)])
qed

section \<open>What the start guarantees\<close>

lemma waiting_stages: "13 \<le> stage p \<longleftrightarrow> p \<in> {Ap_wait, Ap_main}" "7 < bsp_stage b \<longleftrightarrow> b \<in> {Bsp_wait, Bsp_main}"
  by (cases p; simp) (cases b; simp)

text \<open>
  C8. The barrier at the end of \<open>__kernel_init\<close>: when any processor is past it, in \<open>kmain\<close>, the boot
  processor and exactly as many application processors as \<^verbatim>\<open>ap_count\<close> says have arrived at it, in
  every interleaving.
\<close>

theorem startup_barrier:
  assumes "startup_reach n img sz tls_at stack_at s" "areas_ok n img sz tls_at stack_at"
    and "bsp s = Bsp_main \<or> (\<exists>i. ap s i = Ap_main)"
  shows "bsp s \<in> {Bsp_wait, Bsp_main} \<and> card {i. ap s i \<in> {Ap_wait, Ap_main}} = unat (ap_count s)"
proof -
  have inv: "counts_ok n s" "stacks_ok stack_at s" "barrier_ok s"
    using startup_reach_inv [OF assms(1, 2)] by (simp_all add: startup_inv_def)
  have "i \<in> reached 14 (ap s)" if "ap s i = Ap_main" for i using that by (simp add: in_reached)
  then have main: "bsp s = Bsp_main \<or> reached 14 (ap s) \<noteq> {}" using assms(3) by blast
  have "reached 13 (ap s) = {i. ap s i \<in> {Ap_wait, Ap_main}}" by (simp add: reached_def waiting_stages)
  then show ?thesis using main inv(3) arrived_le [OF inv(1, 2)] by (auto simp: barrier_ok_def waiting_stages)
qed

text \<open>The stack of a processor: the bytes below its stack pointer.\<close>

definition stack_bytes :: "addr \<Rightarrow> addr set" where
  "stack_bytes sp = {a. unat (a - (sp - AP_INIT_STACK_SIZE)) < 128}"

lemma stacks_apart:
  assumes "startup_inv n img sz ta sa s" "areas_ok n img sz ta sa" "i \<in> reached 4 (ap s)" "j \<in> reached 4 (ap s)" "i \<noteq> j"
  shows "stack_bytes (rsp s i) \<inter> stack_bytes (rsp s j) = {}"
proof -
  let ?S = "sa (ap_count s)"
  have inv: "counts_ok n s" "stacks_ok sa s" using assms(1) by (simp_all add: startup_inv_def)
  have card: "card (reached 4 (ap s)) \<le> n" using counts_finite(2) [OF inv(1), of 4] by simp
  have "dealt (reached 4 (ap s)) (rsp s) (?S + AP_INIT_STACK_SIZE) AP_INIT_STACK_SIZE" using inv(2) by (simp add: stacks_ok_def)
  from dealt_slots [OF this assms(3-5)] obtain p q where
    pq: "p < card (reached 4 (ap s))" "q < card (reached 4 (ap s))" "p \<noteq> q"
      "rsp s i = ?S + AP_INIT_STACK_SIZE + of_nat p * AP_INIT_STACK_SIZE"
      "rsp s j = ?S + AP_INIT_STACK_SIZE + of_nat q * AP_INIT_STACK_SIZE" by blast
  have eq: "?S + AP_INIT_STACK_SIZE + of_nat k * AP_INIT_STACK_SIZE - AP_INIT_STACK_SIZE = ?S + of_nat (k * 128)" for k
    by (simp add: AP_INIT_STACK_SIZE_def)
  have "n + 1 < 2 ^ 16" using assms(2) by (simp add: areas_ok_def)
  then have "k * 128 + 128 \<le> 2 ^ 64" if "k < card (reached 4 (ap s))" for k using that card by simp
  from slots_disjoint [OF pq(3) this [OF pq(1)] this [OF pq(2)], of _ ?S]
  show ?thesis unfolding pq(4, 5) stack_bytes_def eq by blast
qed

text \<open>
  C9. Private storage: every application processor that has set its \<^verbatim>\<open>fs\<close> base has a block with the
  image and a control block that points to itself, whatever the others write meanwhile, and no two
  processors share a byte of their blocks or of their stacks.
\<close>

theorem startup_private:
  assumes "startup_reach n img sz tls_at stack_at s" "areas_ok n img sz tls_at stack_at"
    and "ap s i \<in> {Ap_arrive, Ap_wait, Ap_main}"
  shows "fs_base s i = ap_block s i + sz \<and> tls_ready img sz (ap_block s i) (memory s) \<and>
    (\<forall>j. j \<noteq> i \<and> ap s j \<in> {Ap_arrive, Ap_wait, Ap_main} \<longrightarrow>
       block_bytes sz (ap_block s i) \<inter> block_bytes sz (ap_block s j) = {} \<and> stack_bytes (rsp s i) \<inter> stack_bytes (rsp s j) = {})"
proof -
  note inv = startup_reach_inv [OF assms(1, 2)]
  have i: "i \<in> reached k (ap s)" if "k \<le> 12" for k using assms(3) that by (auto simp: in_reached)
  have j: "j \<in> reached k (ap s)" if "ap s j \<in> {Ap_arrive, Ap_wait, Ap_main}" "k \<le> 12" for j k
    using that by (auto simp: in_reached)
  have "memory_ok img sz s" using inv by (simp add: startup_inv_def)
  then have "fs_base s i = ap_block s i + sz \<and> tls_ready img sz (ap_block s i) (memory s)"
    using i [of 12] i [of 11] by (simp add: memory_ok_def)
  moreover have "block_bytes sz (ap_block s i) \<inter> block_bytes sz (ap_block s j) = {} \<and> stack_bytes (rsp s i) \<inter> stack_bytes (rsp s j) = {}"
    if "j \<noteq> i" "ap s j \<in> {Ap_arrive, Ap_wait, Ap_main}" for j
    using that i [of 4] i [of 8] j [OF that(2), of 4] j [OF that(2), of 8] stacks_apart [OF inv assms(2), of i j]
      taken_blocks(2) [OF _ _ _ _ assms(2), of s i j] inv by (auto simp: startup_inv_def)
  ultimately show ?thesis by blast
qed

section \<open>The start ends\<close>

definition work_left :: "nat \<Rightarrow> startup \<Rightarrow> nat" where
  "work_left n s = (9 - bsp_stage (bsp s)) + (\<Sum>i < n. 14 - stage (ap s i))"

lemma stage_le: "stage p \<le> 14"
  by (cases p) simp_all

lemma stages_left:
  fixes n :: nat
  assumes "i < n" "stage (f i) < stage pc"
  shows "(\<Sum>j < n. 14 - stage ((f(i := pc)) j)) < (\<Sum>j < n. 14 - stage (f j))"
proof (rule sum_strict_mono_ex1)
  show "\<forall>j \<in> {..<n}. 14 - stage ((f(i := pc)) j) \<le> 14 - stage (f j)" using assms(2) by auto
  show "\<exists>j \<in> {..<n}. 14 - stage ((f(i := pc)) j) < 14 - stage (f j)"
    using assms stage_le [of pc] by (intro bexI [of _ i]) auto
qed simp

lemma counted_index:
  assumes "counts_ok n s" "0 < stage (ap s i)"
  shows "i < n"
proof -
  have "i \<in> reached 1 (ap s)" using assms(2) by (simp add: in_reached)
  then show ?thesis using assms(1) by (auto simp: counts_ok_def)
qed

lemma ap_step_left:
  assumes "ap_step n img sz i s t" "counts_ok n s" "ap t i \<noteq> No_stack"
  shows "work_left n t < work_left n s"
proof -
  have "i < n \<and> stage (ap s i) < stage (ap t i) \<and> ap t = (ap s)(i := ap t i) \<and> bsp t = bsp s"
  proof -
    note index = counted_index [OF assms(2), of i]
    show ?thesis using assms(1) by cases (use assms(3) index in auto)
  qed
  then show ?thesis using stages_left [of i n "ap s" "ap t i"] by (metis work_left_def add_less_cancel_left)
qed

text \<open>When every processor was counted nobody is refused a stack.\<close>

lemma enough_stacks:
  assumes "startup_inv n img sz ta sa s" "unat (ap_count s) = n"
  shows "ap s i \<noteq> No_stack"
proof
  assume no: "ap s i = No_stack"
  have inv: "counts_ok n s" "stacks_ok sa s" using assms(1) by (simp_all add: startup_inv_def)
  have "insert i (reached 4 (ap s)) \<subseteq> {..<n}"
    using counted_index [OF inv(1)] no by (auto simp: in_reached)
  moreover have "i \<notin> reached 4 (ap s)" using no by (simp add: in_reached)
  moreover have "finite (reached 4 (ap s))" using counts_finite(1) [OF inv(1)] by simp
  ultimately have "Suc (card (reached 4 (ap s))) \<le> n" using card_mono [of "{..<n}" "insert i (reached 4 (ap s))"] by simp
  moreover have "n \<le> card (reached 4 (ap s))" using inv(2) no assms(2) by (auto simp: stacks_ok_def)
  ultimately show False by simp
qed

lemma excl_holder: "excl p f True \<Longrightarrow> \<exists>i. p (f i)"
  by (simp add: excl_def)

text \<open>Once the areas are published, some processor can go on unless all are in \<open>kmain\<close>.\<close>

lemma ap_can_step:
  assumes inv: "startup_inv n img sz ta sa s" and c: "unat (ap_count s) = n" and pub: "6 < bsp_stage (bsp s)"
    and areas: "areas_ok n img sz ta sa" and i: "i < n" "stage (ap s i) < 13"
  shows "\<exists>j t. ap_step n img sz j s t"
proof -
  have locks: "excl in_stack (ap s) (stack_mutex s)" "excl in_tls (ap s) (locked (ap_mut (tls_vars s)))"
    using inv by (simp_all add: startup_inv_def locks_ok_def)
  have "published ta sa s" "stacks_ok sa s" using inv by (simp_all add: startup_inv_def)
  have tls: "ap_tls (tls_vars s) \<noteq> 0" using \<open>published ta sa s\<close> pub by (auto simp: published_def)
  have ptr: "init_ptr s \<noteq> 0"
  proof -
    let ?b = "sa (ap_count s)" and ?k = "card (reached 4 (ap s))"
    have b: "?b \<noteq> 0" "init_ptr s = ?b + of_nat (?k * 128)" "?k \<le> n"
      using \<open>published ta sa s\<close> \<open>stacks_ok sa s\<close> pub c by (auto simp: published_def stacks_ok_def AP_INIT_STACK_SIZE_def)
    then have "unat ?b + n * 128 < 2 ^ 64" using areas c by (auto simp: areas_ok_def)
    then have "unat (?b + of_nat (?k * 128)) = unat ?b + ?k * 128"
      using b(3) by (subst unat_add_no_wrap) (simp_all add: unat_of_nat_no_wrap del: of_nat_mult)
    then show ?thesis using b(1, 2) by (auto simp: unat_eq_0)
  qed
  have stack: "\<exists>j t. ap_step n img sz j s t" if "in_stack (ap s j)" for j
  proof -
    have "ap s j = Wait_stack \<or> ap s j = Unlock_stack" using that enough_stacks [OF inv c] by (auto simp: in_stack_def)
    then show ?thesis using no_stack [of s j n img sz] take_stack [of s j n img sz] unlock_stack [of s j n img sz] ptr by blast
  qed
  have tlsec: "\<exists>j t. ap_step n img sz j s t" if "in_tls (ap s j)" for j
  proof -
    obtain p u where p: "tls_take sz (tls_vars s) = (p, u)" by (cases "tls_take sz (tls_vars s)")
    obtain w where w: "mtx_unlock (ap_mut (tls_vars s)) = (thrd_success, w)" by (simp add: mtx_unlock_def)
    show ?thesis using that take_tls [of s j sz p u n img] unlock_tls [of s j w n img sz] p w by (auto simp: in_tls_def)
  qed
  show ?thesis
  proof (cases "ap s i")
    case Off then show ?thesis using count [OF i(1)] by blast
  next
    case Counted then show ?thesis using count_done by blast
  next
    case Lock_stack
    show ?thesis
    proof (cases "stack_mutex s")
      case True
      then show ?thesis using excl_holder [of in_stack "ap s"] locks(1) stack by auto
    next
      case False
      then show ?thesis using lock_stack [OF Lock_stack] by blast
    qed
  next
    case Lock_tls
    show ?thesis
    proof (cases "locked (ap_mut (tls_vars s))")
      case True
      then show ?thesis using excl_holder [of in_tls "ap s"] locks(2) tlsec by auto
    next
      case False
      then show ?thesis using lock_tls [OF Lock_tls mtx_lock_free] by blast
    qed
  next
    case Wait_stack then show ?thesis by (intro stack [of i]) (simp add: in_stack_def)
  next
    case Unlock_stack then show ?thesis by (intro stack [of i]) (simp add: in_stack_def)
  next
    case No_stack then show ?thesis using enough_stacks [OF inv c] by blast
  next
    case Wait_tls then show ?thesis using see_tls tls by blast
  next
    case Take_tls then show ?thesis by (intro tlsec [of i]) (simp add: in_tls_def)
  next
    case Unlock_tls then show ?thesis by (intro tlsec [of i]) (simp add: in_tls_def)
  next
    case Write_tcb then show ?thesis using write_tcb by blast
  next
    case Copy_tls then show ?thesis using copy_tls by blast
  next
    case Set_fs then show ?thesis using set_fs by blast
  next
    case Ap_arrive then show ?thesis using arrive by blast
  qed (use i in simp_all)
qed

lemma bsp_step_left:
  assumes "bsp_step ta sa s t" "bsp s \<notin> {Polling, Counting}" "ta (ap_count s) \<noteq> 0" "sa (ap_count s) \<noteq> 0"
  shows "work_left n t < work_left n s"
  using assms(1) by cases (use assms(2-4) in \<open>simp_all add: work_left_def\<close>)

lemma bsp_can_step:
  assumes "published ta sa s" "bsp s \<notin> {Polling, Counting, Bsp_wait, Bsp_main}" "ta (ap_count s) \<noteq> 0" "sa (ap_count s) \<noteq> 0"
  shows "\<exists>t. bsp_step ta sa s t"
proof (cases "bsp s")
  case Reserve_tls then show ?thesis using reserve_tls by blast
next
  case Reserve_stacks then show ?thesis using reserve_stacks by blast
next
  case Set_limit then show ?thesis using set_limit by blast
next
  case Set_size then show ?thesis using set_size by blast
next
  case Set_ptr then show ?thesis using set_ptr by blast
next
  case Bsp_arrive then show ?thesis using bsp_arrive by blast
qed (use assms in \<open>auto simp: published_def\<close>)

lemma startup_goes_on:
  assumes "startup_reach n img sz tls_at stack_at s" "areas_ok n img sz tls_at stack_at"
    and "bsp s \<notin> {Polling, Counting}" "unat (ap_count s) = n" "tls_at (ap_count s) \<noteq> 0" "stack_at (ap_count s) \<noteq> 0"
  shows "(\<forall>t. bsp_step tls_at stack_at s t \<or> (\<exists>i. ap_step n img sz i s t) \<longrightarrow> work_left n t < work_left n s) \<and>
    (bsp s = Bsp_main \<and> (\<forall>i < n. ap s i = Ap_main) \<or>
     (\<exists>t. bsp_step tls_at stack_at s t \<or> (\<exists>i. ap_step n img sz i s t)))"
proof
  note inv = startup_reach_inv [OF assms(1, 2)]
  have inv': "counts_ok n s" "published tls_at stack_at s" "barrier_ok s" using inv by (simp_all add: startup_inv_def)
  have "work_left n t < work_left n s" if t: "ap_step n img sz i s t" for i t
  proof -
    have "startup_reach n img sz tls_at stack_at t" using assms(1) t by (rule startup_reach.ap)
    from startup_reach_inv [OF this assms(2)] have "startup_inv n img sz tls_at stack_at t" .
    moreover have "ap_count t = ap_count s" using t by cases auto
    ultimately have "ap t i \<noteq> No_stack" using enough_stacks assms(4) by metis
    then show ?thesis by (rule ap_step_left [OF t inv'(1)])
  qed
  moreover have "work_left n t < work_left n s" if "bsp_step tls_at stack_at s t" for t
    using that assms(3, 5, 6) by (rule bsp_step_left)
  ultimately show "\<forall>t. bsp_step tls_at stack_at s t \<or> (\<exists>i. ap_step n img sz i s t) \<longrightarrow> work_left n t < work_left n s" by blast
  show "bsp s = Bsp_main \<and> (\<forall>i < n. ap s i = Ap_main) \<or> (\<exists>t. bsp_step tls_at stack_at s t \<or> (\<exists>i. ap_step n img sz i s t))"
  proof (cases "bsp s \<in> {Bsp_wait, Bsp_main}")
    case False
    then show ?thesis using bsp_can_step [OF inv'(2) _ assms(5, 6)] assms(3) by blast
  next
    case True
    then have b: "6 < bsp_stage (bsp s)" "7 < bsp_stage (bsp s)" by auto
    show ?thesis
    proof (cases "\<exists>i < n. stage (ap s i) < 13")
      case True
      then show ?thesis using ap_can_step [OF inv assms(4) b(1) assms(2)] by blast
    next
      case False
      then have far: "13 \<le> stage (ap s i)" if "i < n" for i using that not_less by blast
      have "{..<n} \<subseteq> reached 13 (ap s)" using far by (auto simp: in_reached)
      then have "n \<le> card (reached 13 (ap s))"
        using card_mono [of "reached 13 (ap s)" "{..<n}"] counts_finite(1) [OF inv'(1), of 13] by simp
      then have go: "\<not> unat (working_processor_count s) < unat (ap_count s) + 1"
        using working_count [OF inv'(3, 1) assms(2)] b(2) assms(4) by simp
      show ?thesis
      proof (cases "bsp s = Bsp_wait \<or> (\<exists>i < n. ap s i = Ap_wait)")
        case True
        then show ?thesis using bsp_leave [OF _ go] leave [OF _ go] by blast
      next
        case stay: False
        have "ap s i = Ap_main" if "i < n" for i
          using far [OF that] stay that waiting_stages(1) [of "ap s i"] by blast
        then show ?thesis using stay \<open>bsp s \<in> {Bsp_wait, Bsp_main}\<close> by blast
      qed
    qed
  qed
qed

text \<open>
  C19. The start ends: once the boot processor has taken the count, when every application processor was
  counted and both areas were to be had, each step of any processor lessens the work left, and as
  long as some processor is not in \<open>kmain\<close> one can make a step: no deadlock, and no way to go on for ever.
\<close>

theorem startup_progress:
  assumes "startup_reach n img sz tls_at stack_at s" "areas_ok n img sz tls_at stack_at"
    and "bsp s \<notin> {Polling, Counting}" "unat (ap_count s) = n" "tls_at (ap_count s) \<noteq> 0" "stack_at (ap_count s) \<noteq> 0"
  shows "(\<forall>t. bsp_step tls_at stack_at s t \<or> (\<exists>i. ap_step n img sz i s t) \<longrightarrow> work_left n t < work_left n s) \<and>
    (bsp s = Bsp_main \<and> (\<forall>i < n. ap s i = Ap_main) \<or>
     (\<exists>t. bsp_step tls_at stack_at s t \<or> (\<exists>i. ap_step n img sz i s t)))"
  by (rule startup_goes_on [OF assms])

lemma startup_completes:
  assumes "areas_ok n img sz ta sa" "startup_reach n img sz ta sa s"
    and "bsp s \<notin> {Polling, Counting}" "unat (ap_count s) = n" "ta (ap_count s) \<noteq> 0" "sa (ap_count s) \<noteq> 0"
  shows "\<exists>t. startup_reach n img sz ta sa t \<and> bsp t = Bsp_main \<and> (\<forall>i < n. ap t i = Ap_main) \<and> ap_count t = ap_count s"
  using assms(2-)
proof (induction "work_left n s" arbitrary: s rule: less_induct)
  case less
  note go = startup_goes_on [OF less.prems(1) assms(1) less.prems(2-)]
  show ?case
  proof (cases "bsp s = Bsp_main \<and> (\<forall>i < n. ap s i = Ap_main)")
    case True
    then show ?thesis using less.prems(1) by blast
  next
    case False
    then obtain t where t: "bsp_step ta sa s t \<or> (\<exists>i. ap_step n img sz i s t)" using go by blast
    then have r: "startup_reach n img sz ta sa t" using less.prems(1) startup_reach.bsp startup_reach.ap by blast
    have keep: "bsp t \<notin> {Polling, Counting} \<and> ap_count t = ap_count s"
      using t less.prems(2) by (auto elim!: bsp_step.cases ap_step.cases split: if_splits)
    have "work_left n t < work_left n s" using go t by blast
    from less.hyps [OF this r] keep less.prems(3-) show ?thesis by simp
  qed
qed

section \<open>One application processor\<close>

text \<open>Two processors: the boot processor and one more, with an image of 16 bytes at \<open>0x5000\<close>.\<close>

definition demo_tls_at :: "u16 \<Rightarrow> addr" where "demo_tls_at = (\<lambda>_. 0x8000)"
definition demo_stack_at :: "u16 \<Rightarrow> addr" where "demo_stack_at = (\<lambda>_. 0x9000)"

lemma demo_areas: "areas_ok 1 0x5000 16 demo_tls_at demo_stack_at"
proof -
  have "0x8000 + of_nat j \<notin> image_bytes 0x5000 16" if "j < 24" for j
  proof -
    have "unat (0x3000 + of_nat j :: addr) = 0x3000 + j" using that by (subst unat_add_no_wrap) (simp_all add: unat_of_nat_no_wrap)
    then show ?thesis by (simp add: image_bytes_def)
  qed
  moreover have "unat c * 24 \<le> 24" "unat c * 128 \<le> 128" if "unat c \<le> 1" for c :: u16 using that by simp_all
  ultimately show ?thesis by (fastforce simp: areas_ok_def demo_tls_at_def demo_stack_at_def)
qed

lemma demo_counted:
  "\<exists>s. startup_reach 1 0x5000 16 demo_tls_at demo_stack_at s \<and> bsp s = Reserve_tls \<and> ap_count s = 1"
proof -
  let ?R = "startup_reach 1 0x5000 16 demo_tls_at demo_stack_at" and ?A = "ap_step 1 0x5000 16 0"
    and ?B = "bsp_step demo_tls_at demo_stack_at"
  have r0: "?R (at_reset (\<lambda>_. 0))" by (rule reset)
  obtain s1 where s1: "?A (at_reset (\<lambda>_. 0)) s1" "s1 = (at_reset (\<lambda>_. 0))\<lparr>ap := (\<lambda>_. Off)(0 := Counted), tramp_count := 1\<rparr>"
    using count [of 0 1 "at_reset (\<lambda>_. 0)" "0x5000" 16] by (simp add: at_reset_def)
  obtain s2 where s2: "?A s1 s2" "s2 = s1\<lparr>ap := (\<lambda>_. Off)(0 := Lock_stack), tramp_done := 1\<rparr>"
    using count_done [of s1 0 1 "0x5000" 16] by (simp add: s1(2) at_reset_def)
  obtain s3 where s3: "?B s2 s3" "s3 = s2\<lparr>seen_done := Some 1\<rparr>"
    using read_done [of s2] by (simp add: s2(2) s1(2) at_reset_def)
  obtain s4 where s4: "?B s3 s4" "s4 = s3\<lparr>seen_count := Some 1\<rparr>"
    using read_count [of s3] by (simp add: s3(2) s2(2) s1(2) at_reset_def)
  define s5 where "s5 = s4\<lparr>bsp := Counting, seen_done := None, seen_count := None\<rparr>"
  have s5: "?B s4 s5" "bsp s5 = Counting" "tramp_count s5 = 1"
    using compare [of s4 1 1] by (simp_all add: s5_def s4(2) s3(2) s2(2) s1(2) at_reset_def)
  obtain s6 where s6: "?B s5 s6" "bsp s6 = Reserve_tls" "ap_count s6 = 1"
    using take_count [OF s5(2)] s5(3) by force
  show ?thesis
    using startup_reach.bsp [OF startup_reach.bsp [OF startup_reach.bsp [OF startup_reach.bsp
      [OF startup_reach.ap [OF startup_reach.ap [OF r0 s1(1)] s2(1)] s3(1)] s4(1)] s5(1)] s6(1)] s6(2, 3) by blast
qed

lemma demo_started:
  "\<exists>s. startup_reach 1 0x5000 16 demo_tls_at demo_stack_at s \<and> bsp s = Bsp_main \<and> ap s 0 = Ap_main \<and> ap_count s = 1"
proof -
  obtain s where "startup_reach 1 0x5000 16 demo_tls_at demo_stack_at s" "bsp s = Reserve_tls" "ap_count s = 1"
    using demo_counted by blast
  from startup_completes [OF demo_areas this(1)] this(2, 3) show ?thesis by (auto simp: demo_tls_at_def demo_stack_at_def)
qed

theorem startup_barrier_witness:
  "\<exists>s. startup_reach 1 0x5000 16 demo_tls_at demo_stack_at s \<and> bsp s \<in> {Bsp_wait, Bsp_main} \<and>
     card {i. ap s i \<in> {Ap_wait, Ap_main}} = 1"
proof -
  obtain s where s: "startup_reach 1 0x5000 16 demo_tls_at demo_stack_at s" "bsp s = Bsp_main" "ap_count s = 1"
    using demo_started by blast
  from startup_barrier [OF s(1) demo_areas] s show ?thesis by auto
qed

theorem startup_private_witness:
  "\<exists>s. startup_reach 1 0x5000 16 demo_tls_at demo_stack_at s \<and> fs_base s 0 = ap_block s 0 + 16 \<and>
     tls_ready 0x5000 16 (ap_block s 0) (memory s)"
proof -
  obtain s where s: "startup_reach 1 0x5000 16 demo_tls_at demo_stack_at s" "ap s 0 = Ap_main" using demo_started by blast
  from startup_private [OF s(1) demo_areas, of 0] s show ?thesis by auto
qed

theorem startup_progress_witness:
  "\<exists>s t. startup_reach 1 0x5000 16 demo_tls_at demo_stack_at s \<and> bsp s = Reserve_tls \<and>
     (bsp_step demo_tls_at demo_stack_at s t \<or> (\<exists>i. ap_step 1 0x5000 16 i s t))"
proof -
  obtain s where s: "startup_reach 1 0x5000 16 demo_tls_at demo_stack_at s" "bsp s = Reserve_tls" "ap_count s = 1"
    using demo_counted by blast
  from startup_progress [OF s(1) demo_areas] s show ?thesis by (auto simp: demo_tls_at_def demo_stack_at_def)
qed

lemma areas_ok_less:
  assumes "areas_ok n img sz ta sa" "m \<le> n"
  shows "areas_ok m img sz ta sa"
proof -
  have "unat c \<le> n" if "unat c \<le> m" for c :: u16 using that assms(2) by (rule le_trans)
  moreover have "m + 1 < 2 ^ 16" using assms by (simp add: areas_ok_def)
  ultimately show ?thesis using assms(1) unfolding areas_ok_def by blast
qed

lemma ap_step_more: "ap_step m img sz i s t \<Longrightarrow> m \<le> n \<Longrightarrow> ap_step n img sz i s t"
  by (induction rule: ap_step.induct) (auto intro: ap_step.intros)

lemma startup_reach_more: "startup_reach m img sz ta sa s \<Longrightarrow> m \<le> n \<Longrightarrow> startup_reach n img sz ta sa s"
  by (induction rule: startup_reach.induct) (auto intro: startup_reach.intros ap_step_more)

lemma stage_0: "stage p = 0 \<longleftrightarrow> p = Off"
  by (cases p) simp_all

lemma counted_nobody: "\<exists>s. startup_reach n img sz ta sa s \<and> bsp s = Reserve_tls \<and> ap_count s = 0"
proof -
  let ?R = "startup_reach n img sz ta sa" and ?B = "bsp_step ta sa"
  have r0: "?R (at_reset (\<lambda>_. 0))" by (rule reset)
  define s1 where "s1 = (at_reset (\<lambda>_. 0))\<lparr>seen_done := Some 0\<rparr>"
  define s2 where "s2 = s1\<lparr>seen_count := Some 0\<rparr>"
  define s3 where "s3 = s2\<lparr>bsp := Counting, seen_done := None, seen_count := None\<rparr>"
  have s1: "?B (at_reset (\<lambda>_. 0)) s1" using read_done [of "at_reset (\<lambda>_. 0)" ta sa] by (simp add: s1_def at_reset_def)
  have s2: "?B s1 s2" using read_count [of s1 ta sa] by (simp add: s2_def s1_def at_reset_def)
  have s3: "?B s2 s3" using compare [of s2 0 0 ta sa] by (simp add: s3_def s2_def s1_def at_reset_def)
  have "bsp s3 = Counting" "tramp_count s3 = 0" by (simp_all add: s3_def s2_def s1_def at_reset_def)
  from take_count [OF this(1), of ta sa] this(2)
  have s4: "?B s3 (s3\<lparr>bsp := Reserve_tls, ap_count := 0\<rparr>)" by simp
  show ?thesis
    using startup_reach.bsp [OF startup_reach.bsp [OF startup_reach.bsp [OF startup_reach.bsp [OF r0 s1] s2] s3] s4]
    by (intro exI [of _ "s3\<lparr>bsp := Reserve_tls, ap_count := 0\<rparr>"]) simp
qed

text \<open>
  C36. Nothing makes the boot processor wait for a processor that has not counted itself yet: \<open>boot_aps\<close>
  compares two counters that both start at 0, so it can see 0 of 0 processors, and the kernel then
  starts without the late one, for which there is no stack any more.
\<close>

theorem boot_aps_can_miss_processors:
  assumes "areas_ok n img sz tls_at stack_at" "tls_at 0 \<noteq> 0" "stack_at 0 \<noteq> 0"
  shows "\<exists>s. startup_reach n img sz tls_at stack_at s \<and> bsp s = Bsp_main \<and> ap_count s = 0 \<and> (\<forall>i. ap s i = Off)"
proof -
  have a0: "areas_ok 0 img sz tls_at stack_at" by (rule areas_ok_less [OF assms(1)]) simp
  obtain s where s: "startup_reach 0 img sz tls_at stack_at s" "bsp s = Reserve_tls" "ap_count s = 0"
    using counted_nobody by blast
  from startup_completes [OF a0 s(1)] s(2, 3) assms(2, 3) obtain t where
    t: "startup_reach 0 img sz tls_at stack_at t" "bsp t = Bsp_main" "ap_count t = 0" by auto
  have "counts_ok 0 t" using startup_reach_inv [OF t(1) a0] by (simp add: startup_inv_def)
  then have "stage (ap t i) = 0" for i using counted_index by blast
  then have "ap t i = Off" for i by (simp add: stage_0)
  then show ?thesis using startup_reach_more [OF t(1)] t(2, 3) by blast
qed

theorem boot_aps_can_miss_processors_witness:
  "\<exists>s. startup_reach 1 0x5000 16 demo_tls_at demo_stack_at s \<and> bsp s = Bsp_main \<and> ap_count s = 0 \<and> (\<forall>i. ap s i = Off)"
  by (rule boot_aps_can_miss_processors [OF demo_areas]) (simp_all add: demo_tls_at_def demo_stack_at_def)

end
