(* ===== verification/Ap_Boot.thy ===== *)
theory Ap_Boot
  imports Pci_Config Apic Startup
begin

text \<open>
  \<open>boot_aps\<close> of \<^verbatim>\<open>src/kernel/ap_boot.c\<close> and \<open>reserve_ap_init_stack\<close> of \<^verbatim>\<open>src/kernel/kernel_start.c\<close>: the
  boot processor copies the trampoline to the page kept free for it, writes the page tables' address
  and the kernel's entry into it, wakes the other processors and waits for them. Theory \<open>Startup\<close>
  has what happens concurrently; here the writes to the trampoline go through the page walk to
  physical memory. The trampoline's code is an assembled file and a parameter, as are the readings
  of its two counters.
\<close>

section \<open>Writing mapped memory\<close>

definition vstore8 :: "kmem \<Rightarrow> addr \<Rightarrow> u8 \<Rightarrow> mem \<Rightarrow> mem res" where
  "vstore8 s v b phys = (case translate s v of None \<Rightarrow> Inl page_fault
     | Some (w, p) \<Rightarrow> if w \<or> \<not> cr0_wp s then Inr (phys(p := b)) else Inl page_fault)"

fun vstores :: "kmem \<Rightarrow> addr \<Rightarrow> u8 list \<Rightarrow> mem \<Rightarrow> mem res" where
  "vstores s v [] phys = Inr phys"
| "vstores s v (b # bs) phys = bindR (vstore8 s v b phys) (vstores s (v + 1) bs)"

definition bytes64 :: "u64 \<Rightarrow> u8 list" where
  "bytes64 x = map (\<lambda>k. ucast (drop_bit (8 * k) x)) [0..<8]"

section \<open>Starting the other processors\<close>

definition ap_boot_prepare :: "u8 list \<Rightarrow> addr \<Rightarrow> addr \<Rightarrow> mem \<times> kmem \<Rightarrow> (addr \<times> mem \<times> kmem) res" where
  "ap_boot_prepare ap_boot_image kernel_start paddr = (\<lambda>(phys, s).
     let ap_boot_image_size = of_nat (length ap_boot_image)
     in bindR (create_virt_mapping paddr ap_boot_image_size PAGING_FLAG_READ_WRITE s) (\<lambda>(ap_boot_vaddr, s).
        bindR (vstores s ap_boot_vaddr ap_boot_image phys) (\<lambda>phys.
        bindR (vstores s (ap_boot_vaddr + ap_boot_image_size - 12) (bytes64 (cr3 s)) phys) (\<lambda>phys.
        bindR (vstores s (ap_boot_vaddr + ap_boot_image_size - 20) (bytes64 kernel_start) phys) (\<lambda>phys.
        Inr (ap_boot_vaddr, phys, s))))))"

text \<open>The loop that waits; \<open>done\<close> and \<open>count\<close> are the readings of the two counters.\<close>

partial_function (option) poll_aps :: "(nat \<Rightarrow> u16) \<Rightarrow> (nat \<Rightarrow> u16) \<Rightarrow> nat \<Rightarrow> nat option" where
  "poll_aps dones counts i = (if dones i < counts i then poll_aps dones counts (Suc i) else Some (Suc i))"

definition boot_aps ::
  "(nat \<Rightarrow> u64) \<Rightarrow> (nat \<Rightarrow> u16) \<Rightarrow> (nat \<Rightarrow> u16) \<Rightarrow> u8 list \<Rightarrow> addr \<Rightarrow> addr \<Rightarrow> mem \<times> kmem \<times> apic \<Rightarrow> (u16 \<times> mem \<times> kmem \<times> apic) res" where
  "boot_aps tsc dones counts ap_boot_image kernel_start paddr = (\<lambda>(phys, s, a).
     bindR (ap_boot_prepare ap_boot_image kernel_start paddr (phys, s)) (\<lambda>(ap_boot_vaddr, phys, s).
     bindR (send_init_sipi_sipi tsc (ucast (drop_bit 12 paddr)) a) (\<lambda>a.
     case poll_aps dones counts 0 of
       None \<Rightarrow> Inl Hang
     | Some i \<Rightarrow> Inr (counts i, phys, s, a))))"

text \<open>The area for the first stacks; its three addresses are those \<open>set_ap_init_stack\<close> stores.\<close>

definition reserve_ap_init_stack :: "u16 \<Rightarrow> kmem \<Rightarrow> ((addr \<times> addr \<times> u64) option \<times> kmem) res" where
  "reserve_ap_init_stack c s =
     bindR (kmalloc (AP_INIT_STACK_SIZE * ucast c) s) (\<lambda>(p, s).
     if p = 0 then Inr (None, s)
     else Inr (Some (p, p + ucast c * AP_INIT_STACK_SIZE, AP_INIT_STACK_SIZE), s))"

section \<open>The trampoline in memory\<close>

definition written :: "addr \<Rightarrow> u8 list \<Rightarrow> mem \<Rightarrow> mem" where
  "written p bs phys = (\<lambda>a. if unat (a - p) < length bs then bs ! unat (a - p) else phys a)"

lemma written_at:
  "k < length bs \<Longrightarrow> length bs < 2 ^ 64 \<Longrightarrow> written p bs phys (p + of_nat k) = bs ! k"
  by (simp add: written_def unat_of_nat_no_wrap)

lemma written_outside: "length bs \<le> unat (a - p) \<Longrightarrow> written p bs phys a = phys a"
  by (simp add: written_def)

lemma vstores_mapped:
  assumes "\<And>i. i < length bs \<Longrightarrow> translate s (v + of_nat i) = Some (True, p + of_nat i)" "length bs < 2 ^ 64"
  shows "vstores s v bs phys = Inr (written p bs phys)"
  using assms
proof (induction bs arbitrary: v p phys)
  case Nil
  then show ?case by (simp add: written_def)
next
  case (Cons b bs)
  have "translate s v = Some (True, p)" using Cons.prems(1) [of 0] by simp
  moreover have "translate s (v + 1 + of_nat i) = Some (True, p + 1 + of_nat i)" if "i < length bs" for i
    using Cons.prems(1) [of "Suc i"] that by (simp add: algebra_simps)
  from Cons.IH [OF this] Cons.prems(2) have "vstores s (v + 1) bs (phys(p := b)) = Inr (written (p + 1) bs (phys(p := b)))" by simp
  moreover have "written (p + 1) bs (phys(p := b)) = written p (b # bs) phys"
  proof
    fix a
    show "written (p + 1) bs (phys(p := b)) a = written p (b # bs) phys a"
    proof (cases "a = p")
      case True
      have "p - (p + 1) = (mask 64 :: addr)" by (simp add: mask_eq_exp_minus_1)
      moreover have "unat (mask 64 :: addr) = 2 ^ 64 - 1" by (simp add: mask_eq_exp_minus_1)
      ultimately have "unat (p - (p + 1)) = 2 ^ 64 - 1" by (simp only:)
      moreover have "length bs < 2 ^ 64 - 1" using Cons.prems(2) by simp
      ultimately have "written (p + 1) bs (phys(p := b)) p = b"
        by (subst written_outside) (simp_all only: fun_upd_same less_imp_le)
      moreover have "written p (b # bs) phys p = b" by (simp add: written_def)
      ultimately show ?thesis by (simp only: True)
    next
      case False
      define d where "d = a - p"
      have d: "a - (p + 1) = d - 1" "a - p = d" "d \<noteq> 0" using False by (simp_all add: d_def)
      have "unat (d - 1) = unat d - 1" by (rule unat_minus_one) (rule d(3))
      moreover have "unat d \<noteq> 0" using d(3) by (simp add: unat_eq_0)
      ultimately have "unat d = Suc (unat (d - 1))" by linarith
      then show ?thesis using False by (simp add: written_def d)
    qed
  qed
  ultimately show ?case by (simp add: vstore8_def)
qed

lemma stored_bytes:
  assumes "\<And>k. k < n \<Longrightarrow> m (p + of_nat k) = ucast (drop_bit (8 * k) x)" "n \<le> 8"
  shows "stored m n p = take_bit (8 * n) x"
  using assms
proof (induction n arbitrary: p x)
  case (Suc n)
  have "m (p + 1 + of_nat k) = ucast (drop_bit (8 * k) (drop_bit 8 x))" if "k < n" for k
    using Suc.prems(1) [of "Suc k"] that by (simp add: algebra_simps)
  then have "stored m n (p + 1) = take_bit (8 * n) (drop_bit 8 x)" using Suc.prems(2) by (intro Suc.IH) simp_all
  moreover have "m p = ucast x" using Suc.prems(1) [of 0] by simp
  ultimately have "stored m (Suc n) p = ucast (ucast x :: u8) OR push_bit 8 (take_bit (8 * n) (drop_bit 8 x))" by simp
  also have "\<dots> = take_bit (8 * Suc n) x" by (rule bit_word_eqI) (auto simp: bit_simps)
  finally show ?case .
qed simp

lemma stored_bytes64:
  assumes "\<And>k. k < 8 \<Longrightarrow> m (p + of_nat k) = bytes64 x ! k"
  shows "stored m 8 p = x"
proof -
  have "m (p + of_nat k) = ucast (drop_bit (8 * k) x)" if "k < 8" for k
    using assms [OF that] that by (simp add: bytes64_def)
  then have "stored m 8 p = take_bit (8 * 8) x" by (rule stored_bytes) simp_all
  also have "\<dots> = x" by (rule bit_word_eqI) (simp add: bit_simps)
  finally show ?thesis .
qed

lemma written_rel:
  assumes "i < 2 ^ 64" "k + length bs \<le> 2 ^ 64"
  shows "written (p + of_nat k) bs m (p + of_nat i) =
    (if k \<le> i \<and> i < k + length bs then bs ! (i - k) else m (p + of_nat i))"
proof (cases "k \<le> i")
  case True
  have "p + of_nat i - (p + of_nat k) = (of_nat (i - k) :: addr)" using True by (simp add: of_nat_diff)
  moreover have "unat (of_nat (i - k) :: addr) = i - k" using assms(1) by (intro unat_of_nat_no_wrap) simp
  ultimately have "unat (p + of_nat i - (p + of_nat k)) = i - k" by (simp only:)
  then show ?thesis using True by (auto simp: written_def)
next
  case False
  have "length bs \<le> unat (p + of_nat i - (p + of_nat k))" if "bs \<noteq> []"
  proof -
    have k: "k < 2 ^ 64" using assms(2) that by (cases bs) simp_all
    have "p + of_nat i - (p + of_nat k) = (of_nat (2 ^ 64 + i - k) :: addr)" using False k by (simp add: of_nat_diff)
    moreover have "unat (of_nat (2 ^ 64 + i - k) :: addr) = 2 ^ 64 + i - k" using False k by (intro unat_of_nat_no_wrap) simp
    ultimately have "unat (p + of_nat i - (p + of_nat k)) = 2 ^ 64 + i - k" by (simp only:)
    then show ?thesis using assms(2) by linarith
  qed
  then show ?thesis using False by (cases bs) (simp_all add: written_def)
qed

text \<open>The trampoline as it must be when the processors start: the image with two addresses in it.\<close>

definition trampoline :: "u8 list \<Rightarrow> addr \<Rightarrow> addr \<Rightarrow> addr \<Rightarrow> mem \<Rightarrow> bool" where
  "trampoline code pml4_at start p phys \<longleftrightarrow>
     (\<forall>i < length code. i < length code - 20 \<or> length code - 4 \<le> i \<longrightarrow> phys (p + of_nat i) = code ! i) \<and>
     stored phys 8 (p + of_nat (length code - 20)) = start \<and> stored phys 8 (p + of_nat (length code - 12)) = pml4_at"

lemma trampoline_written:
  assumes "20 \<le> length code" "length code < 2 ^ 64"
  shows "trampoline code pml4_at start p
    (written (p + of_nat (length code - 20)) (bytes64 start)
      (written (p + of_nat (length code - 12)) (bytes64 pml4_at) (written p code phys)))" (is "trampoline _ _ _ _ ?g")
proof -
  let ?n = "length code"
  have len: "length (bytes64 x) = 8" for x by (simp add: bytes64_def)
  have g: "?g (p + of_nat i) = (if ?n - 20 \<le> i \<and> i < ?n - 12 then bytes64 start ! (i - (?n - 20))
      else if ?n - 12 \<le> i \<and> i < ?n - 4 then bytes64 pml4_at ! (i - (?n - 12)) else code ! i)" if "i < ?n" for i
  proof -
    have "i < 2 ^ 64" using that assms(2) by simp
    moreover have "?n - 20 + length (bytes64 start) = ?n - 12" "?n - 12 + length (bytes64 pml4_at) = ?n - 4"
      using assms(1) by (simp_all add: len)
    ultimately show ?thesis using assms(2) that by (simp add: written_rel written_at)
  qed
  have "stored ?g 8 (p + of_nat (?n - 20)) = start"
  proof (rule stored_bytes64)
    fix k :: nat assume k: "k < 8"
    then have "?g (p + of_nat (?n - 20 + k)) = bytes64 start ! k" using assms(1) by (subst g) auto
    then show "?g (p + of_nat (?n - 20) + of_nat k) = bytes64 start ! k" by (simp only: of_nat_add add.assoc)
  qed
  moreover have "stored ?g 8 (p + of_nat (?n - 12)) = pml4_at"
  proof (rule stored_bytes64)
    fix k :: nat assume k: "k < 8"
    then have "?g (p + of_nat (?n - 12 + k)) = bytes64 pml4_at ! k" using assms(1) by (subst g) auto
    then show "?g (p + of_nat (?n - 12) + of_nat k) = bytes64 pml4_at ! k" by (simp only: of_nat_add add.assoc)
  qed
  ultimately show ?thesis using g assms(1) by (auto simp: trampoline_def)
qed

text \<open>
  C32. \<open>boot_aps\<close> leaves the trampoline ready: when virtual addresses for its page and physical pages for the
  tables they need are free (as in C7), physical memory
  at the page holds the assembled code with the address of the kernel's entry in the 8 bytes from 20 before its
  end and that of the page tables in the 8 bytes from 12 before its end, where the code reads them; the last
  4 bytes, its two counters, are as assembled, and no other byte of physical memory has changed.
\<close>

theorem ap_boot_prepare_trampoline:
  assumes "20 \<le> length code" "unat paddr + length code \<le> 2 ^ 51"
  defines "n \<equiv> (unat paddr + length code - 1) div 0x1000 - unat paddr div 0x1000 + 1"
  assumes "alloc_virt_pages (of_nat n) s = Inr (v, t)" "v \<noteq> 0"
    and "vm_ok t" "mappable_run v (n + 1) t" "card (tables_missing v (n + 1) t) \<le> free_pages (phys_mmap t)"
  shows "\<exists>w phys' s'. ap_boot_prepare code start paddr (phys, s) = Inr (w, phys', s') \<and>
    cr3 s' = cr3 t \<and> trampoline code (cr3 t) start paddr phys' \<and> (\<forall>a. length code \<le> unat (a - paddr) \<longrightarrow> phys' a = phys a)"
proof -
  let ?n = "length code" and ?sz = "of_nat (length code) :: u64"
  have sz: "unat ?sz = ?n" using assms(2) by (intro unat_of_nat_no_wrap) simp
  have rw: "bit PAGING_FLAG_READ_WRITE 1" by (simp add: PAGING_FLAG_READ_WRITE_def bit_simps)
  note run = create_virt_mapping_maps [where sz = ?sz and paddr = paddr and flags = PAGING_FLAG_READ_WRITE, unfolded sz, folded n_def]
  have plain: "plain_flags PAGING_FLAG_READ_WRITE" "opens_run PAGING_FLAG_READ_WRITE v (n + 1) t"
    using rw demo_paging_facts(4) by (simp_all add: opens_run_def PAGING_FLAG_READ_WRITE_def)
  have "0 < ?n" using assms(1) by linarith
  note run = run [OF this assms(2, 4, 5, 6) plain(1) assms(7) plain(2) assms(8)]
  from run [unfolded eqTrueI [OF rw]] obtain s' where
    s': "create_virt_mapping paddr ?sz PAGING_FLAG_READ_WRITE s = Inr (v + (paddr AND 0xFFF), s')"
      "paging_only t s'" "\<forall>i < ?n. translate s' (v + (paddr AND 0xFFF) + of_nat i) = Some (True, paddr + of_nat i)" by blast
  have c: "cr3 s' = cr3 t" using paging_only_simps(2) [OF s'(2)] .
  define w where "w = v + (paddr AND 0xFFF)"
  have tr: "translate s' (w + of_nat i) = Some (True, paddr + of_nat i)" if "i < ?n" for i
    using s'(3) that unfolding w_def by blast
  have len: "length (bytes64 x) = 8" for x by (simp add: bytes64_def)
  have part: "vstores s' (w + ?sz - of_nat k) (bytes64 x) m = Inr (written (paddr + of_nat (?n - k)) (bytes64 x) m)"
    if "k \<in> {12, 20}" for k x m
  proof -
    have "w + ?sz - of_nat k = w + of_nat (?n - k)" using that assms(1) by (auto simp: of_nat_diff)
    moreover have "vstores s' (w + of_nat (?n - k)) (bytes64 x) m = Inr (written (paddr + of_nat (?n - k)) (bytes64 x) m)"
    proof (rule vstores_mapped)
      fix i assume "i < length (bytes64 x)"
      then have "?n - k + i < ?n" using that assms(1) by (auto simp: len)
      from tr [OF this] show "translate s' (w + of_nat (?n - k) + of_nat i) = Some (True, paddr + of_nat (?n - k) + of_nat i)"
        by (simp only: of_nat_add add.assoc)
    qed (simp add: len)
    ultimately show ?thesis by (simp only:)
  qed
  let ?g = "written (paddr + of_nat (?n - 20)) (bytes64 start)
    (written (paddr + of_nat (?n - 12)) (bytes64 (cr3 s')) (written paddr code phys))"
  have n64: "?n < 2 ^ 64" using assms(2) by simp
  have "ap_boot_prepare code start paddr (phys, s) = Inr (w, ?g, s')"
    using part [of 12] part [of 20] vstores_mapped [OF tr n64] s'(1) by (simp add: ap_boot_prepare_def Let_def w_def)
  moreover have "?g a = phys a" if a: "?n \<le> unat (a - paddr)" for a
  proof -
    define i where "i = unat (a - paddr)"
    have i: "a = paddr + of_nat i" "?n \<le> i" "i < 2 ^ 64" using a offset_decomp [of a paddr] by (simp_all add: i_def)
    have "?n - 20 + length (bytes64 start) \<le> i" "?n - 12 + length (bytes64 (cr3 s')) \<le> i"
      using i(2) assms(1) by (simp_all add: len)
    moreover have "?n - 20 + length (bytes64 start) \<le> 2 ^ 64" "?n - 12 + length (bytes64 (cr3 s')) \<le> 2 ^ 64"
      using n64 assms(1) by (simp_all add: len)
    moreover have "written paddr code phys a = phys a" using a by (rule written_outside)
    ultimately show ?thesis
      unfolding i(1) by (simp only: written_rel [OF i(3)] not_less [symmetric] if_False simp_thms)
  qed
  moreover have "trampoline code (cr3 t) start paddr ?g"
    unfolding c by (rule trampoline_written [OF assms(1) n64])
  ultimately show ?thesis using c by blast
qed

theorem ap_boot_prepare_trampoline_witness:
  "\<exists>w phys' s'. ap_boot_prepare (replicate 24 0x90) 0xFFFFFF1000000000 0x8000 (\<lambda>_. 0, demo_apart) = Inr (w, phys', s') \<and>
     trampoline (replicate 24 0x90) 0x1000 0xFFFFFF1000000000 0x8000 phys'"
proof -
  obtain t where t: "alloc_virt_pages 1 demo_apart = Inr (0xFFFFFF10001FF000, t)" "cr3 t = cr3 demo_bare" "vm_ok t"
    "mappable_run 0xFFFFFF10001FF000 2 t" "card (tables_missing 0xFFFFFF10001FF000 2 t) \<le> free_pages (phys_mmap t)"
    using demo_apart_ready by blast
  have "cr3 t = 0x1000" by (simp add: t(2) demo_bare_def demo_paging_def)
  with ap_boot_prepare_trampoline [where code = "replicate 24 0x90" and paddr = "0x8000" and s = demo_apart and t = t] t(1, 3-)
  show ?thesis by (simp add: numeral_2_eq_2 [symmetric]) blast
qed

end
