(* ===== verification/Boot_Info.thy ===== *)
theory Boot_Info
  imports Prelude
begin

text \<open>
  What the boot loader hands to the kernel, \<^verbatim>\<open>src/include/common/\<close>: the framebuffer, the place of the
  firmware's memory map, the table of ACPI tables and the frequency of the time stamp counter.
\<close>

record gop_framebuffer_info =
  hres :: u32
  vres :: u32
  width :: u32
  fb_addr :: addr

record efi_mmap_data =
  descriptors :: addr
  mmap_size :: u64
  descriptor_size :: u64

record boot_info =
  mmap_data :: efi_mmap_data
  gop_fb_info :: gop_framebuffer_info
  acpi_x_r_sdt :: addr
  tsc_freq_hz :: u64

end
