(* ===== verification/Graphics.thy ===== *)
theory Graphics
  imports Threads Stdlib Boot_Info
begin

text \<open>
  Text output, \<^verbatim>\<open>src/kernel/graphics.c\<close>: the cursor, the framebuffer, and the cache of rendered
  glyphs. FreeType is not part of the repository: \<open>ft\<close> is what loading and rendering a code point
  yields, \<open>None\<close> for an error. The framebuffer is a pixel for every offset from \<^verbatim>\<open>fb\<close>; a bitmap of
  the cache is a list of pixels, and a write past its end is \<open>Overrun\<close>. The table \<open>bg_fg_lerp\<close> of
  blended colours, computed in floating point once, is a field of the state.
\<close>

section \<open>State\<close>

record pixel =
  blue :: u8
  green :: u8
  red :: u8
  reserved :: u8

record glyph_cache_entry =
  gc_ch :: u32
  gc_priority :: int
  gc_bitmap :: "pixel list"

record ft_glyph =
  bm_rows :: u32
  bm_width :: u32
  bm_pitch :: u32
  bm_buffer :: "u32 \<Rightarrow> u8"
  bm_left :: u32
  bm_top :: u32

record graphics =
  graphics_mutex :: mtx
  fb_info :: gop_framebuffer_info
  fb :: "u64 \<Rightarrow> pixel"
  bg_fg_lerp :: "u8 \<Rightarrow> pixel"
  adv_x :: u32
  adv_y :: u32
  next_x :: u32
  next_y :: u32
  font_height :: u32
  glyph_cache :: "glyph_cache_entry list"
  cur_priority :: u64

definition GLYPH_CACHE_SIZE :: nat where "GLYPH_CACHE_SIZE = 100"
definition tab_size :: u32 where "tab_size = 4"
definition ff_size :: u32 where "ff_size = 1"
definition bg_col :: pixel where "bg_col = \<lparr>blue = 0, green = 0, red = 0, reserved = 0\<rparr>"

text \<open>\<^verbatim>\<open>for(uint32_t x = 0; x < n; x++)\<close>, and the conversion of a 64-bit number to \<^verbatim>\<open>int\<close>.\<close>

definition upto32 :: "u32 \<Rightarrow> u32 list" where
  "upto32 n = map of_nat [0..<unat n]"

definition to_int :: "u64 \<Rightarrow> int" where
  "to_int x = sint (ucast x :: u32)"

section \<open>Filling the screen\<close>

definition lock_graphics :: "graphics \<Rightarrow> graphics res" where
  "lock_graphics s = bindR (acquire (graphics_mutex s)) (\<lambda>m. Inr (s\<lparr>graphics_mutex := m\<rparr>))"

definition unlock_graphics :: "graphics \<Rightarrow> graphics res" where
  "unlock_graphics s = bindR (release (graphics_mutex s)) (\<lambda>m. Inr (s\<lparr>graphics_mutex := m\<rparr>))"

definition fill_pixels :: "gop_framebuffer_info \<Rightarrow> pixel \<Rightarrow> (u64 \<Rightarrow> pixel) \<Rightarrow> (u64 \<Rightarrow> pixel)" where
  "fill_pixels info col f =
     fold (\<lambda>y. fold (\<lambda>x f. f(ucast y * ucast (width info) + ucast x := col)) (upto32 (width info)))
       (upto32 (vres info)) f"

definition fill_screen :: "pixel \<Rightarrow> graphics \<Rightarrow> graphics res" where
  "fill_screen col s =
     bindR (lock_graphics s) (\<lambda>s.
     unlock_graphics (s\<lparr>fb := fill_pixels (fb_info s) col (fb s)\<rparr>))"

section \<open>The glyph cache\<close>

text \<open>
  The scan for \<open>c\<close> from entry \<open>i\<close> on: found at an index, or not found, with the index of the entry
  of least priority below \<open>pr\<close>.
\<close>

fun glyph_scan :: "u32 \<Rightarrow> nat \<Rightarrow> nat \<Rightarrow> int \<Rightarrow> glyph_cache_entry list \<Rightarrow> bool \<times> nat" where
  "glyph_scan c i gi pr [] = (False, gi)"
| "glyph_scan c i gi pr (e # es) =
     (if gc_ch e = c then (True, i)
      else if gc_priority e < pr then glyph_scan c (i + 1) i (gc_priority e) es
      else glyph_scan c (i + 1) gi pr es)"

definition put :: "u32 \<Rightarrow> pixel \<Rightarrow> pixel list \<Rightarrow> pixel list res" where
  "put k col bm = (if unat k < length bm then Inr (bm[unat k := col]) else Inl Overrun)"

definition clear_bitmap :: "graphics \<Rightarrow> pixel list \<Rightarrow> pixel list res" where
  "clear_bitmap s = each (\<lambda>y. each (\<lambda>x. put (y * adv_x s + x) bg_col) (upto32 (adv_x s))) (upto32 (adv_y s))"

definition render_bitmap :: "graphics \<Rightarrow> ft_glyph \<Rightarrow> pixel list \<Rightarrow> pixel list res" where
  "render_bitmap s g = each (\<lambda>y. each (\<lambda>x.
     let col = bg_fg_lerp s (bm_buffer g (y * bm_pitch g + x));
         y_val = font_height s + y - bm_top g;
         x_val = x + bm_left g
     in put (y_val * adv_x s + x_val) col) (upto32 (bm_width g))) (upto32 (bm_rows g))"

definition next_priority :: "graphics \<Rightarrow> graphics" where
  "next_priority s =
     (let s = s\<lparr>cur_priority := cur_priority s + 1\<rparr>
      in if cur_priority s = 0
         then s\<lparr>cur_priority := 1, glyph_cache := map (\<lambda>e. e\<lparr>gc_priority := 0\<rparr>) (glyph_cache s)\<rparr>
         else s)"

definition get_glyph :: "(u32 \<Rightarrow> ft_glyph option) \<Rightarrow> u32 \<Rightarrow> graphics \<Rightarrow> (pixel list \<times> graphics) res" where
  "get_glyph ft c s =
     (let s = next_priority s;
          prio = to_int (cur_priority s)
      in case glyph_scan c 0 0 prio (glyph_cache s) of
           (True, i) \<Rightarrow>
             (let e = (glyph_cache s ! i)\<lparr>gc_priority := prio\<rparr>
              in Inr (gc_bitmap e, s\<lparr>glyph_cache := (glyph_cache s)[i := e]\<rparr>))
         | (False, i) \<Rightarrow>
             (let e = (glyph_cache s ! i)\<lparr>gc_priority := prio, gc_ch := c\<rparr>
              in bindR (clear_bitmap s (gc_bitmap e)) (\<lambda>bm.
                 case ft c of
                   None \<Rightarrow> Inl (Panic ''FreeType error'')
                 | Some g \<Rightarrow> bindR (render_bitmap s g bm) (\<lambda>bm.
                     Inr (bm, s\<lparr>glyph_cache := (glyph_cache s)[i := e\<lparr>gc_bitmap := bm\<rparr>]\<rparr>)))))"

section \<open>Printing\<close>

definition check_charpos :: "graphics \<Rightarrow> graphics res" where
  "check_charpos s =
     (if next_x s + adv_x s > hres (fb_info s)
      then let s = s\<lparr>next_y := next_y s + adv_y s, next_x := 0\<rparr>
           in if next_y s + adv_y s > vres (fb_info s)
              then fill_screen bg_col (s\<lparr>next_y := 0\<rparr>)
              else Inr s
      else Inr s)"

definition move_cursor :: "u32 \<Rightarrow> graphics \<Rightarrow> graphics" where
  "move_cursor c s =
     (if c = 10 then s\<lparr>next_y := next_y s + adv_y s, next_x := 0\<rparr>
      else if c = 13 then s\<lparr>next_x := 0\<rparr>
      else if c = 12 then s\<lparr>next_y := next_y s + adv_y s * ff_size\<rparr>
      else if c = 9 then s\<lparr>next_x := next_x s + adv_x s * tab_size\<rparr>
      else if c = 11 then s\<lparr>next_y := next_y s + adv_y s\<rparr>
      else s\<lparr>next_x := next_x s + adv_x s\<rparr>)"

text \<open>\<^verbatim>\<open>memcpy\<close> of \<open>n\<close> pixels of a bitmap from \<open>src\<close> on to the framebuffer from \<open>dst\<close> on.\<close>

definition copy_pixels :: "pixel list \<Rightarrow> nat \<Rightarrow> u64 \<Rightarrow> nat \<Rightarrow> (u64 \<Rightarrow> pixel) \<Rightarrow> (u64 \<Rightarrow> pixel) res" where
  "copy_pixels bm src dst n f =
     (if src + n \<le> length bm
      then Inr (\<lambda>i. if unat (i - dst) < n then bm ! (src + unat (i - dst)) else f i)
      else Inl Overrun)"

definition draw_bitmap :: "pixel list \<Rightarrow> graphics \<Rightarrow> graphics res" where
  "draw_bitmap bm s =
     bindR (each (\<lambda>y. copy_pixels bm (unat (y * adv_x s))
                (ucast ((next_y s + y) * width (fb_info s)) + ucast (next_x s)) (unat (adv_x s)))
             (upto32 (adv_y s)) (fb s)) (\<lambda>f. Inr (s\<lparr>fb := f\<rparr>))"

definition print_char_unlocked :: "(u32 \<Rightarrow> ft_glyph option) \<Rightarrow> u32 \<Rightarrow> graphics \<Rightarrow> graphics res" where
  "print_char_unlocked ft c s =
     (if isspace (sint c) then check_charpos (move_cursor c s)
      else bindR (get_glyph ft c s) (\<lambda>(bm, s).
           bindR (draw_bitmap bm s) (\<lambda>s.
           check_charpos (s\<lparr>next_x := next_x s + adv_x s\<rparr>))))"

definition print_char :: "(u32 \<Rightarrow> ft_glyph option) \<Rightarrow> u32 \<Rightarrow> graphics \<Rightarrow> graphics res" where
  "print_char ft c s =
     bindR (lock_graphics s) (\<lambda>s. bindR (print_char_unlocked ft c s) unlock_graphics)"

text \<open>A string is its code points up to the terminating 0.\<close>

fun print_chars :: "(u32 \<Rightarrow> ft_glyph option) \<Rightarrow> u32 list \<Rightarrow> graphics \<Rightarrow> graphics res" where
  "print_chars ft [] s = Inr s"
| "print_chars ft (c # cs) s =
     (if c = 0 then Inr s else bindR (print_char_unlocked ft c s) (print_chars ft cs))"

definition print_str :: "(u32 \<Rightarrow> ft_glyph option) \<Rightarrow> u32 list \<Rightarrow> graphics \<Rightarrow> graphics res" where
  "print_str ft str s =
     bindR (lock_graphics s) (\<lambda>s. bindR (print_chars ft str s) unlock_graphics)"

section \<open>Initialisation\<close>

definition empty_cache :: "u32 \<Rightarrow> u32 \<Rightarrow> glyph_cache_entry list" where
  "empty_cache ax ay = replicate GLYPH_CACHE_SIZE
     \<lparr>gc_ch = 0, gc_priority = 0, gc_bitmap = replicate (unat (ax * ay)) \<lparr>blue = 0, green = 0, red = 0, reserved = 0\<rparr>\<rparr>"

text \<open>
  \<open>init_graphics\<close> with what FreeType reports of the font, \<open>None\<close> an error of any of its calls and
  otherwise the advances \<open>ax\<close> and \<open>ay\<close>, and the outcomes of the two allocations: the framebuffer's
  mapping and the cache's block.
\<close>

definition init_freetype :: "(u32 \<times> u32) option \<Rightarrow> u32 \<Rightarrow> graphics \<Rightarrow> graphics res" where
  "init_freetype font font_size s =
     (case font of
        None \<Rightarrow> Inl (Panic ''FreeType error'')
      | Some (ax, ay) \<Rightarrow>
          Inr (s\<lparr>adv_x := ax, adv_y := ay, font_height := font_size, glyph_cache := empty_cache ax ay\<rparr>))"

definition init_graphics ::
  "(u32 \<times> u32) option \<Rightarrow> addr \<Rightarrow> (u8 \<Rightarrow> pixel) \<Rightarrow> gop_framebuffer_info \<Rightarrow> u32 \<Rightarrow> graphics \<Rightarrow> graphics res" where
  "init_graphics font mapping lerp info font_size s =
     (case mtx_init (graphics_mutex s) mtx_plain of (r, m) \<Rightarrow>
      if r \<noteq> thrd_success then Inl (Panic ''mutex failed'')
      else if mapping = 0 then Inl (Panic ''failed to create virtual mapping for graphics'')
      else init_freetype font font_size (s\<lparr>graphics_mutex := m, fb_info := info, bg_fg_lerp := lerp\<rparr>))"

section \<open>What a rendered glyph looks like\<close>

text \<open>
  Pixel \<open>(r, c)\<close> of the cell a glyph is drawn in: the glyph's bitmap, blended, at the place its
  bearings give, and background elsewhere. A glyph fits when that place is inside the cell.
\<close>

definition cell_pixel :: "graphics \<Rightarrow> ft_glyph \<Rightarrow> nat \<Rightarrow> nat \<Rightarrow> pixel" where
  "cell_pixel s g r c =
     (let y0 = unat (font_height s - bm_top g); x0 = unat (bm_left g)
      in if y0 \<le> r \<and> r < y0 + unat (bm_rows g) \<and> x0 \<le> c \<and> c < x0 + unat (bm_width g)
         then bg_fg_lerp s (bm_buffer g (of_nat (r - y0) * bm_pitch g + of_nat (c - x0)))
         else bg_col)"

definition cell :: "graphics \<Rightarrow> ft_glyph \<Rightarrow> pixel list" where
  "cell s g = map (\<lambda>k. cell_pixel s g (k div unat (adv_x s)) (k mod unat (adv_x s)))
     [0..<unat (adv_x s) * unat (adv_y s)]"

definition glyph_fits :: "graphics \<Rightarrow> ft_glyph \<Rightarrow> bool" where
  "glyph_fits s g \<longleftrightarrow>
     unat (font_height s - bm_top g) + unat (bm_rows g) \<le> unat (adv_y s) \<and>
     unat (bm_left g) + unat (bm_width g) \<le> unat (adv_x s)"

lemma set_upto32: "set (upto32 n) = {x. x < n}"
proof -
  have "x \<in> set (upto32 n)" if "x < n" for x
    using that by (auto simp: upto32_def word_less_nat_alt intro!: image_eqI [of _ _ "unat x"])
  moreover have "x < n" if "x \<in> set (upto32 n)" for x
  proof -
    from that obtain k where k: "k < unat n" "x = of_nat k" by (auto simp: upto32_def)
    moreover have "unat n < 2 ^ LENGTH(32)" by (rule unsigned_less)
    ultimately show ?thesis by (simp add: word_less_nat_alt unat_of_nat_no_wrap)
  qed
  ultimately show ?thesis by blast
qed

lemma each_put:
  assumes "\<forall>x \<in> set xs. unat (f x) < length bm"
    and "\<And>x y. x \<in> set xs \<Longrightarrow> y \<in> set xs \<Longrightarrow> f x = f y \<Longrightarrow> v x = v y"
  obtains bm' where "each (\<lambda>x. put (f x) (v x)) xs bm = Inr bm'" "length bm' = length bm"
    "\<And>x. x \<in> set xs \<Longrightarrow> bm' ! unat (f x) = v x"
    "\<And>k. k < length bm \<Longrightarrow> (\<And>x. x \<in> set xs \<Longrightarrow> unat (f x) \<noteq> k) \<Longrightarrow> bm' ! k = bm ! k"
proof -
  have "\<exists>bm'. each (\<lambda>x. put (f x) (v x)) xs bm = Inr bm' \<and> length bm' = length bm \<and>
      (\<forall>k < length bm. bm' ! k = (case find (\<lambda>x. unat (f x) = k) (rev xs) of Some x \<Rightarrow> v x | None \<Rightarrow> bm ! k))"
    using assms(1)
  proof (induction xs arbitrary: bm)
    case (Cons x xs)
    let ?bm = "bm[unat (f x) := v x]"
    from Cons.prems have p: "put (f x) (v x) bm = Inr ?bm" by (simp add: put_def)
    from Cons.IH [of ?bm] Cons.prems obtain bm' where bm': "each (\<lambda>x. put (f x) (v x)) xs ?bm = Inr bm'"
      "length bm' = length bm"
      "\<forall>k < length bm. bm' ! k = (case find (\<lambda>x. unat (f x) = k) (rev xs) of Some x \<Rightarrow> v x | None \<Rightarrow> ?bm ! k)"
      by auto
    with Cons.prems show ?case
      by (simp add: p find_append nth_list_update split: option.split)
  qed simp
  then obtain bm' where r: "each (\<lambda>x. put (f x) (v x)) xs bm = Inr bm'" "length bm' = length bm"
    "\<And>k. k < length bm \<Longrightarrow> bm' ! k = (case find (\<lambda>x. unat (f x) = k) (rev xs) of Some x \<Rightarrow> v x | None \<Rightarrow> bm ! k)"
    by blast
  have "bm' ! unat (f x) = v x" if x: "x \<in> set xs" for x
  proof -
    obtain y where y: "find (\<lambda>y. unat (f y) = unat (f x)) (rev xs) = Some y"
      using x by (cases "find (\<lambda>y. unat (f y) = unat (f x)) (rev xs)") (auto simp: find_None_iff)
    then obtain i where "i < length (rev xs)" "unat (f (rev xs ! i)) = unat (f x)" "y = rev xs ! i"
      unfolding find_Some_iff by blast
    then have "y \<in> set xs" "f y = f x" using nth_mem [of i "rev xs"] by (simp_all add: word_unat_eq_iff)
    then have "v y = v x" using assms(2) [of y x] x by simp
    then show ?thesis using r(3) [of "unat (f x)"] y x assms(1) by simp
  qed
  moreover have "bm' ! k = bm ! k" if "k < length bm" "\<And>x. x \<in> set xs \<Longrightarrow> unat (f x) \<noteq> k" for k
  proof -
    have "find (\<lambda>x. unat (f x) = k) (rev xs) = None" using that(2) by (auto simp: find_None_iff)
    then show ?thesis using r(3) [OF that(1)] by simp
  qed
  ultimately show ?thesis using that [OF r(1, 2)] by blast
qed

lemma cell_index_bound:
  fixes a b r c :: nat
  assumes "r < b" "c < a"
  shows "r * a + c < a * b"
proof -
  have "r * a + c < Suc r * a" using assms by simp
  also have "\<dots> \<le> b * a" using assms by (intro mult_le_mono1) simp
  finally show ?thesis by (simp add: mult.commute)
qed

lemma cell_index:
  fixes y x a b :: u32
  assumes "y < b" "x < a" "unat a * unat b < 2 ^ 32"
  shows "unat (y * a + x) = unat y * unat a + unat x"
proof -
  have "unat y * unat a + unat x < 2 ^ LENGTH(32)"
    using cell_index_bound [of "unat y" "unat b" "unat x" "unat a"] assms by (simp add: word_less_nat_alt)
  then show ?thesis by (simp add: unat_add_no_wrap unat_mult_no_wrap)
qed

lemma clear_bitmap_blank:
  assumes "length bm = unat (adv_x s) * unat (adv_y s)" "unat (adv_x s) * unat (adv_y s) < 2 ^ 32"
  shows "clear_bitmap s bm = Inr (replicate (unat (adv_x s) * unat (adv_y s)) bg_col)"
proof -
  let ?a = "adv_x s" and ?b = "adv_y s"
  let ?xs = "List.product (upto32 ?b) (upto32 ?a)"
  have "\<forall>p \<in> set ?xs. unat (case p of (y, x) \<Rightarrow> y * ?a + x) < length bm"
    using cell_index [OF _ _ assms(2)] cell_index_bound assms(1)
    by (auto simp: set_upto32 word_less_nat_alt)
  then obtain bm' where bm': "each (\<lambda>p. put (case p of (y, x) \<Rightarrow> y * ?a + x) bg_col) ?xs bm = Inr bm'"
    "length bm' = length bm" "\<And>p. p \<in> set ?xs \<Longrightarrow> bm' ! unat (case p of (y, x) \<Rightarrow> y * ?a + x) = bg_col"
    by (rule each_put [where v = "\<lambda>_. bg_col"]) auto
  have "bm' ! k = bg_col" if k: "k < length bm" for k
  proof -
    have a: "0 < unat ?a" using k assms(1) by (cases "unat ?a") auto
    define y :: u32 where "y = of_nat (k div unat ?a)"
    define x :: u32 where "x = of_nat (k mod unat ?a)"
    have "k div unat ?a < unat ?b" using k a assms(1) by (simp add: less_mult_imp_div_less mult.commute)
    then have y: "unat y = k div unat ?a" unfolding y_def
      using unat_u32_less [of ?b] by (intro unat_of_nat_no_wrap) simp
    have "k mod unat ?a < unat ?a" using a by simp
    then have x: "unat x = k mod unat ?a" unfolding x_def
      using unat_u32_less [of ?a] by (intro unat_of_nat_no_wrap) simp
    have lt: "y < ?b" "x < ?a" using y x \<open>k div unat ?a < unat ?b\<close> a by (simp_all add: word_less_nat_alt)
    then show ?thesis using bm'(3) [of "(y, x)"] cell_index [OF lt assms(2)] by (simp add: set_upto32 x y)
  qed
  then have "bm' = replicate (unat ?a * unat ?b) bg_col"
    using bm'(2) assms(1) by (intro nth_equalityI) auto
  then show ?thesis using bm'(1) by (simp add: clear_bitmap_def each_nested case_prod_beta')
qed

lemma glyph_place:
  assumes "glyph_fits s g" "y < bm_rows g" "x < bm_width g"
  shows "font_height s + y - bm_top g < adv_y s" "x + bm_left g < adv_x s"
    "unat (font_height s + y - bm_top g) = unat (font_height s - bm_top g) + unat y"
    "unat (x + bm_left g) = unat (bm_left g) + unat x"
proof -
  have e: "font_height s + y - bm_top g = (font_height s - bm_top g) + y" by simp
  have lt: "unat (font_height s - bm_top g) + unat y < unat (adv_y s)" "unat x + unat (bm_left g) < unat (adv_x s)"
    using assms by (auto simp: glyph_fits_def word_less_nat_alt)
  have "unat (font_height s - bm_top g + y) = unat (font_height s - bm_top g) + unat y"
    using lt(1) unat_u32_less [of "adv_y s"] by (intro unat_add_no_wrap) simp
  then show u: "unat (font_height s + y - bm_top g) = unat (font_height s - bm_top g) + unat y"
    by (simp only: e)
  show v: "unat (x + bm_left g) = unat (bm_left g) + unat x"
    using lt(2) unat_u32_less [of "adv_x s"] by (simp add: unat_add_no_wrap)
  show "font_height s + y - bm_top g < adv_y s" "x + bm_left g < adv_x s"
    unfolding word_less_nat_alt u v using lt by simp_all
qed

lemma render_bitmap_cell:
  assumes "glyph_fits s g" and small: "unat (adv_x s) * unat (adv_y s) < 2 ^ 32"
  shows "render_bitmap s g (replicate (unat (adv_x s) * unat (adv_y s)) bg_col) = Inr (cell s g)"
proof -
  let ?a = "adv_x s" and ?b = "adv_y s" and ?bm = "replicate (unat (adv_x s) * unat (adv_y s)) bg_col"
  let ?y0 = "unat (font_height s - bm_top g)" and ?x0 = "unat (bm_left g)"
  let ?xs = "List.product (upto32 (bm_rows g)) (upto32 (bm_width g))"
  let ?f = "\<lambda>p. (font_height s + fst p - bm_top g) * ?a + (snd p + bm_left g)"
  let ?v = "\<lambda>p. bg_fg_lerp s (bm_buffer g (fst p * bm_pitch g + snd p))"
  note place = glyph_place [OF assms(1)]
  have pos: "unat (?f p) = (?y0 + unat (fst p)) * unat ?a + (?x0 + unat (snd p))"
    "?y0 + unat (fst p) < unat ?b" "?x0 + unat (snd p) < unat ?a" if "p \<in> set ?xs" for p
  proof -
    from that have p: "fst p < bm_rows g" "snd p < bm_width g" by (auto simp: set_upto32)
    show "unat (?f p) = (?y0 + unat (fst p)) * unat ?a + (?x0 + unat (snd p))"
      "?y0 + unat (fst p) < unat ?b" "?x0 + unat (snd p) < unat ?a"
      using place [OF p] cell_index [OF place(1, 2) [OF p] small] by (simp_all add: word_less_nat_alt)
  qed
  have split: "(r * unat ?a + c) div unat ?a = r" "(r * unat ?a + c) mod unat ?a = c" if "c < unat ?a" for r c
    using that by simp_all
  have same: "p = q" if "p \<in> set ?xs" "q \<in> set ?xs" "?f p = ?f q" for p q
  proof -
    have eq: "(?y0 + unat (fst p)) * unat ?a + (?x0 + unat (snd p)) =
        (?y0 + unat (fst q)) * unat ?a + (?x0 + unat (snd q))"
      using pos(1) [OF that(1)] pos(1) [OF that(2)] that(3) by argo
    note c = pos(3) [OF that(1)] pos(3) [OF that(2)]
    from arg_cong [OF eq, of "\<lambda>n. n div unat ?a"] arg_cong [OF eq, of "\<lambda>n. n mod unat ?a"]
    have "?y0 + unat (fst p) = ?y0 + unat (fst q)" "?x0 + unat (snd p) = ?x0 + unat (snd q)"
      by (simp_all only: split [OF c(1)] split [OF c(2)])
    then show ?thesis by (simp add: prod_eq_iff word_unat_eq_iff)
  qed
  obtain bm' where bm': "each (\<lambda>p. put (?f p) (?v p)) ?xs ?bm = Inr bm'" "length bm' = length ?bm"
    "\<And>p. p \<in> set ?xs \<Longrightarrow> bm' ! unat (?f p) = ?v p"
    "\<And>k. k < length ?bm \<Longrightarrow> (\<And>p. p \<in> set ?xs \<Longrightarrow> unat (?f p) \<noteq> k) \<Longrightarrow> bm' ! k = ?bm ! k"
  proof (rule each_put [where f = ?f and v = ?v and xs = ?xs and bm = ?bm])
    show "\<forall>p \<in> set ?xs. unat (?f p) < length ?bm"
      using pos(1) cell_index_bound [OF pos(2, 3)] by (simp del: set_product)
  qed (use same in blast)+
  have "bm' ! k = cell_pixel s g (k div unat ?a) (k mod unat ?a)" if k: "k < unat ?a * unat ?b" for k
  proof (cases "\<exists>p \<in> set ?xs. unat (?f p) = k")
    case True
    then obtain p where p: "p \<in> set ?xs" "unat (?f p) = k" by blast
    have kk: "k div unat ?a = ?y0 + unat (fst p)" "k mod unat ?a = ?x0 + unat (snd p)"
      using p(2) split [OF pos(3) [OF p(1)], of "?y0 + unat (fst p)"] pos(1) [OF p(1)] by simp_all
    moreover have "unat (fst p) < unat (bm_rows g)" "unat (snd p) < unat (bm_width g)"
      using p(1) by (auto simp: set_upto32 word_less_nat_alt)
    ultimately show ?thesis using bm'(3) [OF p(1)] p(2) by (simp add: cell_pixel_def)
  next
    case False
    have "cell_pixel s g (k div unat ?a) (k mod unat ?a) = bg_col"
    proof (rule ccontr)
      assume "cell_pixel s g (k div unat ?a) (k mod unat ?a) \<noteq> bg_col"
      then have in_bm: "?y0 \<le> k div unat ?a" "k div unat ?a < ?y0 + unat (bm_rows g)"
        "?x0 \<le> k mod unat ?a" "k mod unat ?a < ?x0 + unat (bm_width g)"
        by (auto simp: cell_pixel_def Let_def split: if_splits)
      let ?p = "(of_nat (k div unat ?a - ?y0), of_nat (k mod unat ?a - ?x0)) :: u32 \<times> u32"
      have "k div unat ?a - ?y0 < unat (bm_rows g)" "k mod unat ?a - ?x0 < unat (bm_width g)"
        using in_bm by linarith+
      then have u: "unat (fst ?p) = k div unat ?a - ?y0" "unat (snd ?p) = k mod unat ?a - ?x0" "?p \<in> set ?xs"
        using unat_u32_less [of "bm_rows g"] unat_u32_less [of "bm_width g"]
        by (simp_all add: unat_of_nat_no_wrap set_upto32 word_less_nat_alt)
      then have "unat (?f ?p) = k" using pos(1) [OF u(3)] in_bm by simp
      with False u(3) show False by blast
    qed
    moreover have "bm' ! k = ?bm ! k" using bm'(4) [of k] False k by auto
    ultimately show ?thesis using k by simp
  qed
  then have "bm' = cell s g" using bm'(2) by (intro nth_equalityI) (simp_all add: cell_def)
  then show ?thesis using bm'(1) by (simp add: render_bitmap_def each_nested Let_def case_prod_beta')
qed

section \<open>The cache is transparent\<close>

text \<open>
  What a client of a cache relies on: a lookup of a good key returns the key's value and keeps
  the invariant. Then every sequence of lookups returns the values, whatever is evicted between.
\<close>

locale memo =
  fixes get :: "'k \<Rightarrow> 's \<Rightarrow> ('v \<times> 's) res"
    and inv :: "'s \<Rightarrow> bool" and good :: "'k \<Rightarrow> bool" and val :: "'k \<Rightarrow> 'v"
  assumes get_value: "inv s \<Longrightarrow> good k \<Longrightarrow> \<exists>s'. get k s = Inr (val k, s') \<and> inv s'"
begin

lemma lookups:
  assumes "inv s" "\<forall>k \<in> set ks. good k"
  shows "\<exists>s'. each (\<lambda>k (vs, s). bindR (get k s) (\<lambda>(v, s). Inr (vs @ [v], s))) ks (vs, s)
    = Inr (vs @ map val ks, s') \<and> inv s'"
  using assms
proof (induction ks arbitrary: vs s)
  case (Cons k ks)
  then obtain s' where s': "get k s = Inr (val k, s')" "inv s'" using get_value by fastforce
  with Cons.IH [of s' "vs @ [val k]"] Cons.prems show ?case by simp
qed simp

end

definition same_font :: "graphics \<Rightarrow> graphics \<Rightarrow> bool" where
  "same_font s t \<longleftrightarrow> adv_x t = adv_x s \<and> adv_y t = adv_y s \<and> font_height t = font_height s \<and>
     bg_fg_lerp t = bg_fg_lerp s"

definition entry_ok :: "(u32 \<Rightarrow> ft_glyph option) \<Rightarrow> graphics \<Rightarrow> glyph_cache_entry \<Rightarrow> bool" where
  "entry_ok ft s e \<longleftrightarrow> length (gc_bitmap e) = unat (adv_x s) * unat (adv_y s) \<and>
     (gc_ch e = 0 \<or> (case ft (gc_ch e) of None \<Rightarrow> False | Some g \<Rightarrow> gc_bitmap e = cell s g))"

definition cache_ok :: "(u32 \<Rightarrow> ft_glyph option) \<Rightarrow> graphics \<Rightarrow> bool" where
  "cache_ok ft s \<longleftrightarrow> length (glyph_cache s) = GLYPH_CACHE_SIZE \<and>
     unat (adv_x s) * unat (adv_y s) < 2 ^ 32 \<and> list_all (entry_ok ft s) (glyph_cache s)"

definition glyph_of :: "(u32 \<Rightarrow> ft_glyph option) \<Rightarrow> graphics \<Rightarrow> u32 \<Rightarrow> bool" where
  "glyph_of ft s c \<longleftrightarrow> c \<noteq> 0 \<and> (case ft c of None \<Rightarrow> False | Some g \<Rightarrow> glyph_fits s g)"

lemma same_font_cell:
  assumes "same_font s t"
  shows "cell t g = cell s g" "glyph_fits t g = glyph_fits s g" "entry_ok ft t = entry_ok ft s" "glyph_of ft t = glyph_of ft s"
proof -
  show c: "cell t g = cell s g" "glyph_fits t g = glyph_fits s g" for g
    using assms by (simp_all add: same_font_def cell_def cell_pixel_def glyph_fits_def Let_def)
  show "entry_ok ft t = entry_ok ft s" "glyph_of ft t = glyph_of ft s"
    using assms by (auto simp: same_font_def entry_ok_def glyph_of_def fun_eq_iff c split: option.splits)
qed

lemma same_font_cell_pixel: "same_font s t \<Longrightarrow> cell_pixel t g = cell_pixel s g"
  by (simp add: same_font_def cell_pixel_def fun_eq_iff Let_def)

lemma same_font_trans: "same_font r s \<Longrightarrow> same_font s t \<Longrightarrow> same_font r t"
  by (simp add: same_font_def)

lemma glyph_scan_result:
  "case glyph_scan c i gi pr es of
     (True, j) \<Rightarrow> i \<le> j \<and> j < i + length es \<and> gc_ch (es ! (j - i)) = c
   | (False, j) \<Rightarrow> c \<notin> gc_ch ` set es \<and>
       (j = gi \<and> (\<forall>e \<in> set es. pr \<le> gc_priority e) \<or>
        i \<le> j \<and> j < i + length es \<and> gc_priority (es ! (j - i)) < pr \<and>
          (\<forall>e \<in> set es. gc_priority (es ! (j - i)) \<le> gc_priority e))"
proof (induction c i gi pr es rule: glyph_scan.induct)
  case (2 c i gi pr e es)
  consider (hit) "gc_ch e = c" | (less) "gc_ch e \<noteq> c" "gc_priority e < pr" | (ge) "gc_ch e \<noteq> c" "\<not> gc_priority e < pr"
    by blast
  then show ?case
  proof cases
    case less
    with 2(1) show ?thesis by (auto split: prod.splits bool.splits simp: nth_Cons' Suc_diff_le)
  next
    case ge
    with 2(2) show ?thesis by (auto split: prod.splits bool.splits simp: nth_Cons' Suc_diff_le)
  qed simp
qed simp

text \<open>A lookup writes the cache and the counter only.\<close>

definition cache_only :: "graphics \<Rightarrow> graphics \<Rightarrow> bool" where
  "cache_only s t \<longleftrightarrow> t = s\<lparr>glyph_cache := glyph_cache t, cur_priority := cur_priority t\<rparr>"

lemma cache_only_fields:
  assumes "cache_only s t"
  shows "same_font s t" "graphics_mutex t = graphics_mutex s" "fb_info t = fb_info s" "fb t = fb s"
    "next_x t = next_x s" "next_y t = next_y s" "adv_x t = adv_x s" "adv_y t = adv_y s"
proof -
  from assms have t: "t = s\<lparr>glyph_cache := glyph_cache t, cur_priority := cur_priority t\<rparr>"
    by (simp only: cache_only_def)
  show "same_font s t" "graphics_mutex t = graphics_mutex s" "fb_info t = fb_info s" "fb t = fb s"
    "next_x t = next_x s" "next_y t = next_y s" "adv_x t = adv_x s" "adv_y t = adv_y s"
    unfolding same_font_def by (subst t, simp)+
qed

lemma next_priority_ok:
  "cache_only s (next_priority s)" "cache_ok ft s \<Longrightarrow> cache_ok ft (next_priority s)"
proof -
  show only: "cache_only s (next_priority s)" by (simp add: next_priority_def cache_only_def Let_def)
  have "entry_ok ft (next_priority s) = entry_ok ft s"
    by (rule same_font_cell) (rule cache_only_fields(1) [OF only])
  moreover have "entry_ok ft s (e\<lparr>gc_priority := p\<rparr>) = entry_ok ft s e" for e p by (simp add: entry_ok_def split: option.split)
  ultimately show "cache_ok ft (next_priority s)" if "cache_ok ft s"
    using that cache_only_fields(7, 8) [OF only]
    by (simp add: cache_ok_def next_priority_def Let_def list.pred_map comp_def)
qed

lemma cache_ok_update:
  assumes "cache_ok ft s" "entry_ok ft s e"
  shows "cache_ok ft (s\<lparr>glyph_cache := (glyph_cache s)[i := e]\<rparr>)"
proof -
  let ?t = "s\<lparr>glyph_cache := (glyph_cache s)[i := e]\<rparr>"
  have "entry_ok ft ?t = entry_ok ft s" by (rule same_font_cell) (simp add: same_font_def)
  with assms show ?thesis
    using set_update_subset_insert [of "glyph_cache s" i e] by (auto simp: cache_ok_def list_all_iff)
qed

lemma new_entry:
  "e\<lparr>gc_priority := p, gc_ch := c, gc_bitmap := b\<rparr> = \<lparr>gc_ch = c, gc_priority = p, gc_bitmap = b\<rparr>"
  by (cases e) simp

lemma get_glyph_miss:
  assumes "cache_ok ft s" "c \<noteq> 0" "ft c = Some g" "glyph_fits s g"
    and t: "t = next_priority s" and scan: "glyph_scan c 0 0 (to_int (cur_priority t)) (glyph_cache t) = (False, i)"
  shows "get_glyph ft c s = Inr (cell s g, t\<lparr>glyph_cache := (glyph_cache t)[i :=
      \<lparr>gc_ch = c, gc_priority = to_int (cur_priority t), gc_bitmap = cell s g\<rparr>]\<rparr>)" (is ?eq)
    and "i < GLYPH_CACHE_SIZE"
proof -
  note only = cache_only_fields [OF next_priority_ok(1) [of s], folded t]
  note cell = same_font_cell [OF only(1)]
  from next_priority_ok(2) [OF assms(1)] have ok: "cache_ok ft t" by (simp only: t)
  show i: "i < GLYPH_CACHE_SIZE"
    using glyph_scan_result [where c = c and i = 0 and gi = 0 and pr = "to_int (cur_priority t)" and es = "glyph_cache t"] scan ok
    by (auto simp: cache_ok_def GLYPH_CACHE_SIZE_def)
  then have "length (gc_bitmap (glyph_cache t ! i)) = unat (adv_x t) * unat (adv_y t)"
    using ok by (simp add: cache_ok_def list_all_length entry_ok_def)
  moreover note clear_bitmap_blank [OF this] render_bitmap_cell [of t g] ok assms(4)
  ultimately show ?eq
    using scan assms(3) by (simp add: get_glyph_def Let_def flip: t) (simp add: cache_ok_def cell new_entry)
qed

lemma get_glyph_returns_cell:
  assumes "cache_ok ft s" "c \<noteq> 0" "ft c = Some g" "glyph_fits s g"
  obtains s' where "get_glyph ft c s = Inr (cell s g, s')" "cache_ok ft s'" "cache_only s s'"
proof -
  define t where "t = next_priority s"
  from next_priority_ok(2) [OF assms(1)] have ok: "cache_ok ft t" by (simp only: t_def)
  note only = next_priority_ok(1) [of s, folded t_def]
  note cell = same_font_cell [OF cache_only_fields(1) [OF only]]
  obtain found i where scan: "glyph_scan c 0 0 (to_int (cur_priority t)) (glyph_cache t) = (found, i)"
    by fastforce
  note r = glyph_scan_result [where c = c and i = 0 and gi = 0 and pr = "to_int (cur_priority t)" and es = "glyph_cache t", unfolded scan]
  have done_ok: "cache_ok ft (t\<lparr>glyph_cache := (glyph_cache t)[i := e]\<rparr>)" "cache_only s (t\<lparr>glyph_cache := (glyph_cache t)[i := e]\<rparr>)"
    if "entry_ok ft t e" for e
  proof -
    show "cache_ok ft (t\<lparr>glyph_cache := (glyph_cache t)[i := e]\<rparr>)" by (rule cache_ok_update [OF ok that])
    show "cache_only s (t\<lparr>glyph_cache := (glyph_cache t)[i := e]\<rparr>)"
    proof -
      from only obtain a b where "t = s\<lparr>glyph_cache := a, cur_priority := b\<rparr>" unfolding cache_only_def by blast
      then show ?thesis by (simp add: cache_only_def)
    qed
  qed
  show ?thesis
  proof (cases found)
    case True
    with r have i: "i < length (glyph_cache t)" "gc_ch (glyph_cache t ! i) = c" by simp_all
    then have e: "entry_ok ft t (glyph_cache t ! i)" using ok by (simp add: cache_ok_def list_all_length)
    then have "gc_bitmap (glyph_cache t ! i) = cell s g" using i(2) assms(2, 3) by (simp add: entry_ok_def cell)
    moreover have "entry_ok ft t ((glyph_cache t ! i)\<lparr>gc_priority := p\<rparr>)" for p
      using e by (simp add: entry_ok_def split: option.splits)
    ultimately show ?thesis
      using that [OF _ done_ok] scan True by (simp add: get_glyph_def Let_def flip: t_def)
  next
    case False
    have "entry_ok ft t \<lparr>gc_ch = c, gc_priority = p, gc_bitmap = cell s g\<rparr>" for p
      using assms(3) cache_only_fields(7, 8) [OF only] by (simp add: entry_ok_def cell) (simp add: cell_def)
    then show ?thesis
      using that [OF get_glyph_miss(1) [OF assms t_def] done_ok] scan False by simp
  qed
qed

interpretation glyphs: memo "get_glyph ft" "\<lambda>t. cache_ok ft t \<and> same_font s t" "glyph_of ft s"
    "\<lambda>c. cell s (the (ft c))" for ft s
proof
  fix t c
  assume inv: "cache_ok ft t \<and> same_font s t" and good: "glyph_of ft s c"
  then obtain g where g: "ft c = Some g" "glyph_fits s g" "c \<noteq> 0" by (auto simp: glyph_of_def split: option.splits)
  note cell = same_font_cell [OF conjunct2 [OF inv]]
  have "glyph_fits t g" using g(2) by (simp add: cell)
  from get_glyph_returns_cell [OF conjunct1 [OF inv] g(3, 1) this]
  obtain t' where "get_glyph ft c t = Inr (cell t g, t')" "cache_ok ft t'" "cache_only t t'" .
  then show "\<exists>t'. get_glyph ft c t = Inr (cell s (the (ft c)), t') \<and> cache_ok ft t' \<and> same_font s t'"
    using same_font_trans [OF conjunct2 [OF inv] cache_only_fields(1)] g(1) by (auto simp: cell)
qed

lemma init_graphics_cache:
  assumes "init_graphics (Some (ax, ay)) mapping lerp info sz s = Inr t" "unat ax * unat ay < 2 ^ 32"
  shows "cache_ok ft t" "\<not> locked (graphics_mutex t)"
proof -
  have "unat (ax * ay) = unat ax * unat ay" using assms(2) by (intro unat_mult_no_wrap) simp
  then show "cache_ok ft t" "\<not> locked (graphics_mutex t)" using assms
    by (auto simp: init_graphics_def init_freetype_def mtx_init_def mtx_plain_def mtx_recursive_def mtx_timed_def
        cache_ok_def entry_ok_def empty_cache_def list_all_iff thrd_success_def thrd_error_def split: if_splits)
qed

text \<open>
  C15. The glyph cache is transparent: from a consistent cache on, such as the empty one of
  \<open>init_freetype\<close>, looking up characters in any order and number returns for each of them its
  glyph rendered into a character cell, whichever entries are evicted on the way, and leaves the
  cache consistent. The characters are those of \<open>glyph_of\<close>: not code point 0, which marks an empty entry, and
  with a glyph that the font library renders and that fits into a cell, to which the code
  copies it without a check.
\<close>

theorem glyph_cache_transparent:
  assumes "cache_ok ft s" "\<forall>c \<in> set cs. glyph_of ft s c"
  shows "\<exists>s'. each (\<lambda>c (bms, s). bindR (get_glyph ft c s) (\<lambda>(bm, s). Inr (bms @ [bm], s))) cs ([], s)
    = Inr (map (\<lambda>c. cell s (the (ft c))) cs, s') \<and> cache_ok ft s'"
  using glyphs.lookups [of ft s s cs "[]"] assms by (auto simp: same_font_def)

text \<open>A font of cells of 2 by 2 pixels whose every glyph is one pixel at the upper right.\<close>

definition dot_glyph :: ft_glyph where
  "dot_glyph = \<lparr>bm_rows = 1, bm_width = 1, bm_pitch = 1, bm_buffer = (\<lambda>_. 255), bm_left = 1, bm_top = 2\<rparr>"

definition grey :: "u8 \<Rightarrow> pixel" where
  "grey v = \<lparr>blue = v, green = v, red = v, reserved = 0\<rparr>"

definition small_screen :: graphics where
  "small_screen = \<lparr>graphics_mutex = \<lparr>locked = False\<rparr>,
     fb_info = \<lparr>hres = 6, vres = 4, width = 8, fb_addr = 0\<rparr>, fb = (\<lambda>_. bg_col), bg_fg_lerp = grey,
     adv_x = 2, adv_y = 2, next_x = 0, next_y = 0, font_height = 2, glyph_cache = empty_cache 2 2,
     cur_priority = 0\<rparr>"

lemma small_screen_ok: "cache_ok ft small_screen" "glyph_fits small_screen dot_glyph"
  by (simp_all add: cache_ok_def small_screen_def empty_cache_def list_all_iff entry_ok_def glyph_fits_def dot_glyph_def)

theorem glyph_cache_transparent_witness:
  "\<exists>s'. each (\<lambda>c (bms, s). bindR (get_glyph (\<lambda>_. Some dot_glyph) c s) (\<lambda>(bm, s). Inr (bms @ [bm], s))) [65, 66, 65] ([], small_screen)
    = Inr (replicate 3 [bg_col, grey 255, bg_col, bg_col], s')"
proof -
  have "cell small_screen dot_glyph = [bg_col, grey 255, bg_col, bg_col]"
    by (simp add: cell_def cell_pixel_def small_screen_def dot_glyph_def upt_rec)
  then show ?thesis
    using glyph_cache_transparent [of "\<lambda>_. Some dot_glyph" small_screen "[65, 66, 65]"] small_screen_ok
    by (auto simp: glyph_of_def numeral_3_eq_3)
qed

section \<open>Which entry is evicted\<close>

lemma uint_low: "unat x < 2 ^ 32 \<Longrightarrow> uint (ucast (x :: u64) :: u32) = int (unat x)"
proof -
  assume "unat x < 2 ^ 32"
  then have "unat (ucast x :: u32) = unat x" by (simp add: unsigned_ucast_eq take_bit_nat_eq_self)
  then show ?thesis by (metis uint_nat)
qed

lemma bit_31:
  assumes "2 ^ 31 \<le> n" "n < 2 ^ 32"
  shows "bit (int n) 31"
proof -
  obtain k where k: "n = 2 ^ 31 + k" using assms(1) le_iff_add by blast
  with assms(2) have "k < 2 ^ 31" by simp
  then have "n div 2 ^ 31 = 1" unfolding k by (subst div_add_self1) simp_all
  then have "bit n 31" by (simp only: bit_iff_odd odd_one not_False_eq_True)
  then show ?thesis by (simp only: bit_of_nat_iff_bit)
qed

lemma to_int_small:
  assumes "unat x < 2 ^ 31"
  shows "to_int x = int (unat x)"
proof -
  have "to_int x = signed_take_bit 31 (uint (ucast x :: u32))" by (simp add: to_int_def sint_uint)
  also have "\<dots> = signed_take_bit 31 (int (unat x))" using assms by (subst uint_low) simp_all
  also have "\<dots> = int (unat x)" 
  proof -
    have "- (2 ^ 31) \<le> int n" "int n < 2 ^ 31" if "n < 2 ^ 31" for n using that by simp_all
    from this [OF assms] show ?thesis by (intro signed_take_bit_int_eq_self)
  qed
  finally show ?thesis .
qed

lemma to_int_negative:
  assumes "2 ^ 31 \<le> unat x" "unat x < 2 ^ 32"
  shows "to_int x < 0"
proof -
  have "to_int x = signed_take_bit 31 (uint (ucast x :: u32))" by (simp add: to_int_def sint_uint)
  also have "\<dots> = signed_take_bit 31 (int (unat x))" using assms by (subst uint_low) simp_all
  also have "\<dots> < 0"
    using bit_31 [OF assms] by (simp only: signed_take_bit_negative_iff)
  finally show ?thesis .
qed

lemma glyph_scan_keeps:
  assumes "c \<notin> gc_ch ` set es" "\<forall>e \<in> set es. pr \<le> gc_priority e"
  shows "glyph_scan c i gi pr es = (False, gi)"
  using assms by (induction es arbitrary: i) auto

lemma next_priority_small:
  assumes "unat (cur_priority s) + 1 < 2 ^ 63"
  shows "next_priority s = s\<lparr>cur_priority := cur_priority s + 1\<rparr>"
    "unat (cur_priority s + 1) = unat (cur_priority s) + 1"
proof -
  show u: "unat (cur_priority s + 1) = unat (cur_priority s) + 1"
    using assms by (subst unat_add_no_wrap) simp_all
  then have "cur_priority s + 1 \<noteq> 0" by (metis add_is_0 one_neq_zero unsigned_0)
  then show "next_priority s = s\<lparr>cur_priority := cur_priority s + 1\<rparr>" by (simp add: next_priority_def)
qed

text \<open>
  As long as fewer than \<open>2^31\<close> glyphs have been looked up, a character that is not in the cache
  replaces an entry that was used longest ago: no entry has a smaller priority, and the new one
  has the greatest.
\<close>

theorem get_glyph_evicts_oldest:
  assumes "cache_ok ft s" "c \<noteq> 0" "ft c = Some g" "glyph_fits s g" "c \<notin> gc_ch ` set (glyph_cache s)"
    "unat (cur_priority s) + 1 < 2 ^ 31" "\<forall>e \<in> set (glyph_cache s). gc_priority e \<le> int (unat (cur_priority s))"
  shows "\<exists>i < GLYPH_CACHE_SIZE. (\<forall>e \<in> set (glyph_cache s). gc_priority (glyph_cache s ! i) \<le> gc_priority e) \<and>
    get_glyph ft c s = Inr (cell s g, s\<lparr>cur_priority := cur_priority s + 1, glyph_cache := (glyph_cache s)[i :=
      \<lparr>gc_ch = c, gc_priority = int (unat (cur_priority s)) + 1, gc_bitmap = cell s g\<rparr>]\<rparr>)"
proof -
  note np = next_priority_small [of s]
  have t: "next_priority s = s\<lparr>cur_priority := cur_priority s + 1\<rparr>"
    and p: "to_int (cur_priority s + 1) = int (unat (cur_priority s)) + 1"
    using np assms(6) by (simp_all add: to_int_small)
  let ?pr = "int (unat (cur_priority s)) + 1"
  obtain found i where scan: "glyph_scan c 0 0 ?pr (glyph_cache s) = (found, i)" by fastforce
  note r = glyph_scan_result [where c = c and i = 0 and gi = 0 and pr = ?pr and es = "glyph_cache s", unfolded scan]
  have nf: "\<not> found" using r assms(5) by (cases found) auto
  have "glyph_cache s \<noteq> []" using assms(1) by (auto simp: cache_ok_def GLYPH_CACHE_SIZE_def)
  then have low: "\<exists>e \<in> set (glyph_cache s). \<not> ?pr \<le> gc_priority e"
    using assms(7) by (cases "glyph_cache s") auto
  then have "\<forall>e \<in> set (glyph_cache s). gc_priority (glyph_cache s ! i) \<le> gc_priority e"
    using r nf by auto
  then show ?thesis
    using get_glyph_miss [OF assms(1-4) refl, of i] scan nf t p by auto
qed

theorem get_glyph_evicts_oldest_witness:
  "\<exists>i < GLYPH_CACHE_SIZE. get_glyph (\<lambda>_. Some dot_glyph) 65 small_screen = Inr (cell small_screen dot_glyph,
     small_screen\<lparr>cur_priority := 1, glyph_cache := (empty_cache 2 2)[i :=
       \<lparr>gc_ch = 65, gc_priority = 1, gc_bitmap = cell small_screen dot_glyph\<rparr>]\<rparr>)"
proof -
  have "gc_ch ` set (glyph_cache small_screen) = {0}" "\<forall>e \<in> set (glyph_cache small_screen). gc_priority e = 0"
    "cur_priority small_screen = 0" "glyph_cache small_screen = empty_cache 2 2"
    by (auto simp: small_screen_def empty_cache_def GLYPH_CACHE_SIZE_def)
  then show ?thesis
    using get_glyph_evicts_oldest [of "\<lambda>_. Some dot_glyph" small_screen 65 dot_glyph] small_screen_ok by auto
qed

text \<open>
  After \<open>2^31\<close> lookups the priority kept as an \<^verbatim>\<open>int\<close> is negative: while the other entries carry
  older, non-negative priorities, every character that is not in the cache replaces the first
  entry, however recently that one was used.
\<close>

theorem get_glyph_stuck_on_first:
  assumes "cache_ok ft s" "c \<noteq> 0" "ft c = Some g" "glyph_fits s g" "c \<notin> gc_ch ` set (glyph_cache s)"
    "2 ^ 31 \<le> unat (cur_priority s) + 1" "unat (cur_priority s) + 1 < 2 ^ 32"
    "\<forall>e \<in> set (tl (glyph_cache s)). 0 \<le> gc_priority e"
  shows "\<exists>s'. get_glyph ft c s = Inr (cell s g, s') \<and> gc_ch (glyph_cache s' ! 0) = c \<and>
    (\<forall>i. 0 < i \<longrightarrow> glyph_cache s' ! i = glyph_cache s ! i)"
proof -
  note np = next_priority_small [of s]
  have t: "next_priority s = s\<lparr>cur_priority := cur_priority s + 1\<rparr>"
    and p: "to_int (cur_priority s + 1) < 0"
    using np assms(6, 7) by (simp_all add: to_int_negative)
  obtain e es where c: "glyph_cache s = e # es"
    using assms(1) by (cases "glyph_cache s") (auto simp: cache_ok_def GLYPH_CACHE_SIZE_def)
  have "glyph_scan c 0 0 (to_int (cur_priority s + 1)) (e # es) = (False, 0)"
  proof -
    have "\<forall>e \<in> set es. x \<le> gc_priority e" if "x < 0" for x using assms(8) that by (auto simp: c)
    moreover have "gc_ch e \<noteq> c" "c \<notin> gc_ch ` set es" using assms(5) by (auto simp: c)
    ultimately show ?thesis using p by (simp add: glyph_scan_keeps)
  qed
  then have "get_glyph ft c s = Inr (cell s g, s\<lparr>cur_priority := cur_priority s + 1, glyph_cache := (glyph_cache s)[0 :=
      \<lparr>gc_ch = c, gc_priority = to_int (cur_priority s + 1), gc_bitmap = cell s g\<rparr>]\<rparr>)"
    using get_glyph_miss(1) [OF assms(1-4) refl, of 0] t c by simp
  then show ?thesis using c by (auto simp: nth_Cons')
qed

theorem get_glyph_stuck_on_first_witness:
  "\<exists>s'. get_glyph (\<lambda>_. Some dot_glyph) 65 (small_screen\<lparr>cur_priority := 2 ^ 31\<rparr>) =
     Inr (cell (small_screen\<lparr>cur_priority := 2 ^ 31\<rparr>) dot_glyph, s') \<and> gc_ch (glyph_cache s' ! 0) = 65"
proof -
  let ?s = "small_screen\<lparr>cur_priority := 2 ^ 31\<rparr>"
  have "cache_ok (\<lambda>_. Some dot_glyph) ?s" "glyph_fits ?s dot_glyph"
    by (simp_all add: cache_ok_def small_screen_def empty_cache_def list_all_iff entry_ok_def glyph_fits_def dot_glyph_def)
  moreover have "65 \<notin> gc_ch ` set (glyph_cache ?s)" "\<forall>e \<in> set (tl (glyph_cache ?s)). 0 \<le> gc_priority e"
    by (auto simp: small_screen_def empty_cache_def GLYPH_CACHE_SIZE_def dest!: list.set_sel(2) [rotated])
  ultimately show ?thesis
    using get_glyph_stuck_on_first [of "\<lambda>_. Some dot_glyph" ?s 65 dot_glyph] by auto
qed

section \<open>Where a character is drawn\<close>

text \<open>
  The framebuffer with one character cell drawn at \<open>(nx, ny)\<close>: pixel \<open>i\<close> is column \<open>i mod w\<close> of row
  \<open>i div w\<close>, and the first \<open>n\<close> rows of the cell are drawn.
\<close>

definition drawn :: "nat \<Rightarrow> nat \<Rightarrow> nat \<Rightarrow> nat \<Rightarrow> nat \<Rightarrow> (nat \<Rightarrow> nat \<Rightarrow> pixel) \<Rightarrow> (u64 \<Rightarrow> pixel) \<Rightarrow> (u64 \<Rightarrow> pixel)" where
  "drawn w nx ny a n p f = (\<lambda>i. let r = unat i div w; c = unat i mod w
     in if ny \<le> r \<and> r < ny + n \<and> nx \<le> c \<and> c < nx + a then p (r - ny) (c - nx) else f i)"

lemma drawn_cong:
  "(\<And>r c. r < n \<Longrightarrow> c < a \<Longrightarrow> p r c = q r c) \<Longrightarrow> drawn w nx ny a n p f = drawn w nx ny a n q f"
  by (auto simp: drawn_def Let_def fun_eq_iff)

lemma in_window:
  fixes d :: u64
  assumes "unat d + n \<le> 2 ^ 64"
  shows "unat (i - d) < n \<longleftrightarrow> unat d \<le> unat i \<and> unat i < unat d + n"
    and "unat d \<le> unat i \<Longrightarrow> unat (i - d) = unat i - unat d"
proof -
  show le: "unat (i - d) = unat i - unat d" if "unat d \<le> unat i"
    using that by (simp add: unat_sub word_le_nat_alt)
  have "n \<le> unat (i - d)" if "unat i < unat d"
  proof -
    have d: "unat (d - i) = unat d - unat i" using that by (simp add: unat_sub word_le_nat_alt)
    have "2 ^ LENGTH(64) \<le> unat (i - d) + unat (d - i)"
    proof (rule ccontr)
      assume "\<not> ?thesis"
      then have "unat ((i - d) + (d - i)) = unat (i - d) + unat (d - i)" by (intro unat_add_no_wrap) (simp only: not_le)
      with d that show False by simp
    qed
    with d have "2 ^ 64 \<le> unat (i - d) + (unat d - unat i)" by simp
    then show ?thesis using assms that by simp
  qed
  with le show "unat (i - d) < n \<longleftrightarrow> unat d \<le> unat i \<and> unat i < unat d + n"
    by (cases "unat d \<le> unat i") (auto simp: not_le)
qed

lemma row_position:
  fixes w nx a :: nat
  assumes "nx + a \<le> w"
  shows "r * w + nx \<le> i \<and> i < r * w + nx + a \<longleftrightarrow> i div w = r \<and> nx \<le> i mod w \<and> i mod w < nx + a"
proof (cases "a = 0")
  case False
  then have w: "0 < w" using assms by simp
  have i: "i = (i div w) * w + i mod w" "i mod w < w" using w by simp_all
  show ?thesis
  proof
    assume l: "r * w + nx \<le> i \<and> i < r * w + nx + a"
    then have "r * w \<le> i" "i < Suc r * w" using assms by simp_all
    then have "i div w = r" using w by (intro div_nat_eqI) (simp_all add: mult.commute)
    with l i show "i div w = r \<and> nx \<le> i mod w \<and> i mod w < nx + a" by auto
  next
    assume "i div w = r \<and> nx \<le> i mod w \<and> i mod w < nx + a"
    with i show "r * w + nx \<le> i \<and> i < r * w + nx + a" by auto
  qed
qed auto

lemma draw_rows:
  assumes "nx + a \<le> w" "(ny + n) * w < 2 ^ 63" "n * a \<le> length bm"
    and dst: "\<And>j. j < n \<Longrightarrow> unat (d j) = (ny + j) * w + nx"
  shows "each (\<lambda>j. copy_pixels bm (j * a) (d j) a) [0..<n] f =
    Inr (drawn w nx ny a n (\<lambda>r c. bm ! (r * a + c)) f)"
  using assms(2, 3) dst
proof (induction n)
  case 0
  then show ?case by (auto simp: drawn_def fun_eq_iff Let_def)
next
  case (Suc n)
  let ?p = "\<lambda>r c. bm ! (r * a + c)"
  have "(ny + n) * w < 2 ^ 63" "n * a \<le> length bm" using Suc.prems(1, 2) by simp_all
  with Suc.IH Suc.prems(3) have IH: "each (\<lambda>j. copy_pixels bm (j * a) (d j) a) [0..<n] f =
    Inr (drawn w nx ny a n ?p f)" by simp
  have d: "unat (d n) = (ny + n) * w + nx" by (rule Suc.prems(3)) simp
  have "unat (d n) + a \<le> (ny + Suc n) * w" using assms(1) unfolding d by simp
  then have no: "unat (d n) + a \<le> 2 ^ 64" using Suc.prems(1) by simp
  have "(if unat (i - d n) < a then bm ! (n * a + unat (i - d n)) else drawn w nx ny a n ?p f i)
      = drawn w nx ny a (Suc n) ?p f i" for i
  proof -
    have "unat (i - d n) < a \<longleftrightarrow> unat i div w = ny + n \<and> nx \<le> unat i mod w \<and> unat i mod w < nx + a"
      using in_window(1) [OF no] row_position [OF assms(1), of "ny + n" "unat i"] d by simp
    moreover have "unat (i - d n) = unat i mod w - nx"
      if "unat i div w = ny + n" "nx \<le> unat i mod w" "unat i mod w < nx + a"
    proof -
      have "unat (d n) \<le> unat i" using row_position [OF assms(1), of "ny + n" "unat i"] that d by simp
      then have "unat (i - d n) = unat i - ((ny + n) * w + nx)" using in_window(2) [OF no] d by simp
      also have "\<dots> = unat i mod w - nx" using that(1) div_mult_mod_eq [of "unat i" w] by (metis diff_diff_left add_diff_cancel_left')
      finally show ?thesis .
    qed
    ultimately show ?thesis by (auto simp: drawn_def Let_def less_Suc_eq)
  qed
  moreover have "n * a + a \<le> length bm" using Suc.prems(2) by simp
  ultimately show ?case by (simp add: each_append IH) (simp add: copy_pixels_def)
qed

abbreviation screen_width :: "graphics \<Rightarrow> nat" where
  "screen_width s \<equiv> unat (width (fb_info s))"

definition draw_cell :: "graphics \<Rightarrow> ft_glyph \<Rightarrow> (u64 \<Rightarrow> pixel)" where
  "draw_cell s g = drawn (screen_width s) (unat (next_x s)) (unat (next_y s)) (unat (adv_x s)) (unat (adv_y s))
     (cell_pixel s g) (fb s)"

lemma unat_ucast_32_64: "unat (ucast (x :: u32) :: u64) = unat x"
  using unat_u32_less [of x] by (simp add: unsigned_ucast_eq take_bit_nat_eq_self)

lemma pixel_offset:
  fixes nx ny w :: u32
  assumes "j < n" "(unat ny + n) * unat w < 2 ^ 32" "unat nx \<le> unat w"
  shows "unat (ucast ((ny + of_nat j) * w) + ucast nx :: u64) = (unat ny + j) * unat w + unat nx"
proof (cases "unat w = 0")
  case False
  have "(unat ny + j) * unat w \<le> (unat ny + n) * unat w" using assms(1) by (intro mult_le_mono1) simp
  then have lt2: "(unat ny + j) * unat w < 2 ^ 32" using assms(2) by (rule le_less_trans)
  have "unat ny + j \<le> (unat ny + j) * unat w" using False by (cases "unat w") simp_all
  then have lt: "unat ny + j < 2 ^ 32" "(unat ny + j) * unat w < 2 ^ 32"
    using lt2 le_less_trans by blast+
  then have j: "unat (of_nat j :: u32) = j" by (intro unat_of_nat_no_wrap) simp
  have "unat (ny + of_nat j) = unat ny + unat (of_nat j :: u32)"
    by (rule unat_add_no_wrap) (simp only: j, use lt(1) in simp)
  then have "unat (ny + of_nat j) = unat ny + j" by (simp only: j)
  with lt have "unat ((ny + of_nat j) * w) = (unat ny + j) * unat w" by (simp add: unat_mult_no_wrap)
  then show ?thesis
    using lt(2) unat_u32_less [of nx] by (subst unat_add_no_wrap) (simp_all only: unat_ucast_32_64, simp)
next
  case True
  with assms(3) have "w = 0" "nx = 0" by (simp_all add: unsigned_eq_0_iff)
  then show ?thesis by simp
qed

lemma draw_bitmap_cell:
  assumes "unat (next_x s) + unat (adv_x s) \<le> screen_width s" "(unat (next_y s) + unat (adv_y s)) * screen_width s < 2 ^ 32"
    and small: "unat (adv_x s) * unat (adv_y s) < 2 ^ 32"
  shows "draw_bitmap (cell s g) s = Inr (s\<lparr>fb := draw_cell s g\<rparr>)"
proof -
  let ?a = "unat (adv_x s)" and ?n = "unat (adv_y s)" and ?w = "screen_width s"
  let ?d = "\<lambda>j. ucast ((next_y s + of_nat j) * width (fb_info s)) + ucast (next_x s) :: u64"
  have len: "length (cell s g) = ?a * ?n" by (simp add: cell_def)
  have src: "unat (of_nat j * adv_x s) = j * ?a" if "j < ?n" for j
  proof -
    have j: "unat (of_nat j :: u32) = j" using that unat_u32_less [of "adv_y s"] by (intro unat_of_nat_no_wrap) simp
    have "j * ?a \<le> ?n * ?a" using that by (intro mult_le_mono1) simp
    also have "\<dots> < 2 ^ 32" using small by (simp add: mult.commute)
    finally have "j * ?a < 2 ^ 32" .
    with j show ?thesis by (simp add: unat_mult_no_wrap)
  qed
  have "each (\<lambda>y. copy_pixels (cell s g) (unat (y * adv_x s))
      (ucast ((next_y s + y) * width (fb_info s)) + ucast (next_x s)) ?a) (upto32 (adv_y s)) (fb s)
    = each (\<lambda>j. copy_pixels (cell s g) (j * ?a) (?d j) ?a) [0..<?n] (fb s)"
    unfolding upto32_def each_map by (rule each_cong) (simp_all add: src)
  also have "\<dots> = Inr (drawn ?w (unat (next_x s)) (unat (next_y s)) ?a ?n (\<lambda>r c. cell s g ! (r * ?a + c)) (fb s))"
    using assms(1, 2) len by (intro draw_rows pixel_offset) (simp_all add: mult.commute)
  also have "drawn ?w (unat (next_x s)) (unat (next_y s)) ?a ?n (\<lambda>r c. cell s g ! (r * ?a + c)) (fb s) = draw_cell s g"
    unfolding draw_cell_def
  proof (rule drawn_cong)
    fix r c assume "r < ?n" "c < ?a"
    then show "cell s g ! (r * ?a + c) = cell_pixel s g r c" using cell_index_bound [of r ?n c ?a] by (simp add: cell_def)
  qed
  finally show ?thesis by (simp add: draw_bitmap_def)
qed

section \<open>Printing a character\<close>

abbreviation screen_height :: "graphics \<Rightarrow> nat" where
  "screen_height s \<equiv> unat (vres (fb_info s))"

definition screen_ok :: "graphics \<Rightarrow> bool" where
  "screen_ok s \<longleftrightarrow> unat (hres (fb_info s)) \<le> screen_width s \<and> unat (hres (fb_info s)) + unat (adv_x s) < 2 ^ 32 \<and>
     (screen_height s + unat (adv_y s)) * screen_width s < 2 ^ 32 \<and> screen_height s + unat (adv_y s) < 2 ^ 32"

definition on_screen :: "graphics \<Rightarrow> bool" where
  "on_screen s \<longleftrightarrow> unat (next_x s) + unat (adv_x s) \<le> unat (hres (fb_info s)) \<and>
     unat (next_y s) + unat (adv_y s) \<le> screen_height s"

definition line_has_room :: "graphics \<Rightarrow> bool" where
  "line_has_room s \<longleftrightarrow> unat (next_x s) + 2 * unat (adv_x s) \<le> unat (hres (fb_info s))"

definition page_has_room :: "graphics \<Rightarrow> bool" where
  "page_has_room s \<longleftrightarrow> unat (next_y s) + 2 * unat (adv_y s) \<le> screen_height s"

lemma cache_ok_frame: "same_font s t \<Longrightarrow> glyph_cache t = glyph_cache s \<Longrightarrow> cache_ok ft t = cache_ok ft s"
  using same_font_cell(3) [of s t, where ft = ft] by (auto simp: cache_ok_def same_font_def)

lemma lock_graphics_eq: "lock_graphics s = (if locked (graphics_mutex s) then Inl Hang
    else Inr (s\<lparr>graphics_mutex := (graphics_mutex s)\<lparr>locked := True\<rparr>\<rparr>))"
  by (simp add: lock_graphics_def acquire_eq)

lemma unlock_graphics_eq: "unlock_graphics s = Inr (s\<lparr>graphics_mutex := (graphics_mutex s)\<lparr>locked := False\<rparr>\<rparr>)"
  by (simp add: unlock_graphics_def release_eq)

interpretation gm: mutex_ops lock_graphics unlock_graphics "\<lambda>s. locked (graphics_mutex s)"
  by unfold_locales (auto simp: lock_graphics_eq unlock_graphics_eq)

lemma fill_screen_hangs: "locked (graphics_mutex s) \<Longrightarrow> fill_screen col s = Inl Hang"
  by (simp add: fill_screen_def lock_graphics_eq)

lemma print_glyph:
  assumes "cache_ok ft s" "c \<noteq> 0" "ft c = Some g" "glyph_fits s g" "\<not> isspace (sint c)"
    "unat (next_x s) + unat (adv_x s) \<le> screen_width s" "(unat (next_y s) + unat (adv_y s)) * screen_width s < 2 ^ 32"
  obtains t where "cache_ok ft t" "cache_only s t"
    "print_char_unlocked ft c s = check_charpos (t\<lparr>fb := draw_cell s g, next_x := next_x s + adv_x s\<rparr>)"
proof -
  from get_glyph_returns_cell [OF assms(1-4)] obtain t where
    t: "get_glyph ft c s = Inr (cell s g, t)" "cache_ok ft t" "cache_only s t" .
  note f = cache_only_fields [OF t(3)]
  have "unat (adv_x t) * unat (adv_y t) < 2 ^ 32" using t(2) by (simp add: cache_ok_def)
  then have "draw_bitmap (cell t g) t = Inr (t\<lparr>fb := draw_cell t g\<rparr>)"
    using assms(6, 7) by (intro draw_bitmap_cell) (simp_all add: f)
  moreover have "cell t g = cell s g" "cell_pixel t g = cell_pixel s g"
    using same_font_cell(1) [OF f(1)] same_font_cell_pixel [OF f(1)] by blast+
  moreover from this have "draw_cell t g = draw_cell s g" by (simp add: draw_cell_def f)
  ultimately show ?thesis using that [OF t(2, 3)] assms(5) t(1) by (simp add: print_char_unlocked_def f)
qed

lemma check_charpos_eq:
  fixes s
  defines "x \<equiv> unat (next_x s) + unat (adv_x s)" and "y \<equiv> unat (next_y s) + 2 * unat (adv_y s)"
  assumes "x < 2 ^ 32" "y < 2 ^ 32"
  shows "check_charpos s =
    (if x \<le> unat (hres (fb_info s)) then Inr s
     else if y \<le> screen_height s then Inr (s\<lparr>next_y := next_y s + adv_y s, next_x := 0\<rparr>)
     else fill_screen bg_col (s\<lparr>next_x := 0, next_y := 0\<rparr>))"
proof -
  have "unat (next_x s + adv_x s) = x" unfolding x_def using assms(3) by (intro unat_add_no_wrap) (simp add: x_def)
  moreover have y1: "unat (next_y s + adv_y s) = unat (next_y s) + unat (adv_y s)"
    using assms(4) by (intro unat_add_no_wrap) (simp add: y_def)
  have "unat (next_y s + adv_y s + adv_y s) = unat (next_y s + adv_y s) + unat (adv_y s)"
    using assms(4) y1 by (intro unat_add_no_wrap) (simp add: y_def)
  then have "unat (next_y s + adv_y s + adv_y s) = y" by (simp add: y1 y_def)
  ultimately show ?thesis by (simp add: check_charpos_def word_less_nat_alt Let_def not_less)
qed

text \<open>The state a glyph's printing is left in when no new page has to be started.\<close>

lemma print_char_glyph:
  assumes "\<not> locked (graphics_mutex s)" "cache_ok ft s" "c \<noteq> 0" "\<not> isspace (sint c)" "ft c = Some g" "glyph_fits s g"
    "unat (next_x s) + unat (adv_x s) \<le> unat (hres (fb_info s))" "unat (hres (fb_info s)) \<le> screen_width s"
    "unat (hres (fb_info s)) + unat (adv_x s) < 2 ^ 32" "(unat (next_y s) + unat (adv_y s)) * screen_width s < 2 ^ 32"
    "unat (next_y s) + 2 * unat (adv_y s) < 2 ^ 32"
  shows "\<not> line_has_room s \<Longrightarrow> \<not> page_has_room s \<Longrightarrow> print_char ft c s = Inl Hang"
    "line_has_room s \<or> page_has_room s \<Longrightarrow> \<exists>t. print_char ft c s = Inr t \<and> cache_ok ft t \<and>
       \<not> locked (graphics_mutex t) \<and> same_font s t \<and> fb_info t = fb_info s \<and> fb t = draw_cell s g \<and>
       next_x t = (if line_has_room s then next_x s + adv_x s else 0) \<and>
       next_y t = (if line_has_room s then next_y s else next_y s + adv_y s)"
proof -
  let ?s = "s\<lparr>graphics_mutex := (graphics_mutex s)\<lparr>locked := True\<rparr>\<rparr>"
  have sf: "same_font s ?s" by (simp add: same_font_def)
  have ok: "cache_ok ft ?s" using assms(2) by (simp add: cache_ok_frame [OF sf])
  have dc: "draw_cell ?s g = draw_cell s g" by (simp add: draw_cell_def same_font_cell_pixel [OF sf])
  have "glyph_fits ?s g" using assms(6) by (simp add: same_font_cell [OF sf])
  from print_glyph [OF ok assms(3, 5) this assms(4)] assms(7, 8, 10) dc
  obtain u where u: "cache_ok ft u" "cache_only ?s u"
    "print_char_unlocked ft c ?s = check_charpos (u\<lparr>fb := draw_cell s g, next_x := next_x s + adv_x s\<rparr>)"
    by auto
  note f = cache_only_fields [OF u(2)]
  let ?u = "u\<lparr>fb := draw_cell s g, next_x := next_x s + adv_x s\<rparr>"
  have x: "unat (next_x s + adv_x s) = unat (next_x s) + unat (adv_x s)"
    using assms(7, 9) by (intro unat_add_no_wrap) simp
  have chk: "check_charpos ?u = (if line_has_room s then Inr ?u
     else if page_has_room s then Inr (?u\<lparr>next_y := next_y s + adv_y s, next_x := 0\<rparr>)
     else fill_screen bg_col (?u\<lparr>next_x := 0, next_y := 0\<rparr>))"
    using assms(7, 9, 11) by (subst check_charpos_eq) (simp_all add: f x line_has_room_def page_has_room_def)
  have lk: "locked (graphics_mutex u)" by (simp add: f)
  show "print_char ft c s = Inl Hang" if "\<not> line_has_room s" "\<not> page_has_room s"
    using that assms(1) lk by (simp add: print_char_def lock_graphics_eq u(3) chk fill_screen_hangs)
  have cok: "cache_ok ft (v\<lparr>graphics_mutex := m\<rparr>)" if "same_font u v" "glyph_cache v = glyph_cache u" for v m
    using cache_ok_frame [of u "v\<lparr>graphics_mutex := m\<rparr>" ft] that u(1) by (simp add: same_font_def)
  have "same_font s u" using same_font_trans [OF sf f(1)] .
  then show "\<exists>t. print_char ft c s = Inr t \<and> cache_ok ft t \<and>
       \<not> locked (graphics_mutex t) \<and> same_font s t \<and> fb_info t = fb_info s \<and> fb t = draw_cell s g \<and>
       next_x t = (if line_has_room s then next_x s + adv_x s else 0) \<and>
       next_y t = (if line_has_room s then next_y s else next_y s + adv_y s)" if "line_has_room s \<or> page_has_room s"
    using that assms(1) by (auto simp: print_char_def lock_graphics_eq u(3) chk unlock_graphics_eq f same_font_def intro!: cok)
qed

text \<open>
  C33. Printing a character draws its glyph, and nothing else, in the character cell at the cursor,
  moves the cursor to the next cell of the line or of the next line, keeps the cursor on the screen
  and the cache consistent, and releases the mutex; provided that the mutex is free, that the
  character is no white space and not code point 0, that the font library renders a glyph that fits into a
  cell, that the cursor is on the screen and that its cell is not the last of the screen (printing there never
  returns, theorem \<open>print_char_full_screen_hangs\<close>).
\<close>

theorem print_char_draws:
  assumes "\<not> locked (graphics_mutex s)" "cache_ok ft s" "c \<noteq> 0" "\<not> isspace (sint c)" "ft c = Some g" "glyph_fits s g"
    "screen_ok s" "on_screen s" "line_has_room s \<or> page_has_room s" "unat (adv_x s) \<le> unat (hres (fb_info s))"
  shows "\<exists>t. print_char ft c s = Inr t \<and> fb t = draw_cell s g \<and> on_screen t \<and> screen_ok t \<and> cache_ok ft t \<and>
    \<not> locked (graphics_mutex t) \<and>
    next_x t = (if line_has_room s then next_x s + adv_x s else 0) \<and>
    next_y t = (if line_has_room s then next_y s else next_y s + adv_y s)"
proof -
  from assms(7, 8) have b: "unat (next_x s) + unat (adv_x s) \<le> unat (hres (fb_info s))"
    "unat (hres (fb_info s)) \<le> screen_width s" "unat (hres (fb_info s)) + unat (adv_x s) < 2 ^ 32"
    "unat (next_y s) + 2 * unat (adv_y s) < 2 ^ 32"
    by (auto simp: screen_ok_def on_screen_def)
  have "(unat (next_y s) + unat (adv_y s)) * screen_width s \<le> (screen_height s + unat (adv_y s)) * screen_width s"
    using assms(8) by (intro mult_le_mono1) (auto simp: on_screen_def)
  also have "\<dots> < 2 ^ 32" using assms(7) by (simp add: screen_ok_def)
  finally have rows: "(unat (next_y s) + unat (adv_y s)) * screen_width s < 2 ^ 32" .
  from print_char_glyph(2) [OF assms(1-6) b(1-3) rows b(4) assms(9)] obtain t where
    t: "print_char ft c s = Inr t" "cache_ok ft t" "\<not> locked (graphics_mutex t)" "same_font s t" "fb_info t = fb_info s"
      "fb t = draw_cell s g" "next_x t = (if line_has_room s then next_x s + adv_x s else 0)"
      "next_y t = (if line_has_room s then next_y s else next_y s + adv_y s)"
    by blast
  have "unat (next_x s + adv_x s) = unat (next_x s) + unat (adv_x s)" "unat (next_y s + adv_y s) = unat (next_y s) + unat (adv_y s)"
    using b by (auto intro!: unat_add_no_wrap)
  then have "on_screen t" using assms(8-10) t(4, 5, 7, 8)
    by (auto simp: on_screen_def line_has_room_def page_has_room_def same_font_def)
  moreover have "screen_ok t" using assms(7) t(4, 5) by (simp add: screen_ok_def same_font_def)
  ultimately show ?thesis using t by blast
qed

lemma small_screen_room:
  "screen_ok small_screen" "on_screen small_screen" "line_has_room small_screen" "page_has_room small_screen"
  "\<not> isspace (sint (65 :: u32))"
  by (simp_all add: screen_ok_def on_screen_def line_has_room_def page_has_room_def small_screen_def isspace_def)

theorem print_char_draws_witness:
  "\<exists>t. print_char (\<lambda>_. Some dot_glyph) 65 small_screen = Inr t \<and> fb t 1 = grey 255 \<and> fb t 8 = bg_col \<and>
    next_x t = 2 \<and> next_y t = 0"
proof -
  have "draw_cell small_screen dot_glyph 1 = grey 255" "draw_cell small_screen dot_glyph 8 = bg_col"
    "next_x small_screen + adv_x small_screen = 2" "next_y small_screen = 0"
    "\<not> locked (graphics_mutex small_screen)" "unat (adv_x small_screen) \<le> unat (hres (fb_info small_screen))"
    by (simp_all add: draw_cell_def drawn_def cell_pixel_def small_screen_def dot_glyph_def)
  then show ?thesis
    using print_char_draws [of small_screen "\<lambda>_. Some dot_glyph" 65 dot_glyph] small_screen_ok small_screen_room by auto
qed

text \<open>
  C38. Printing into the last cell of the screen never returns: \<open>check_charpos\<close> starts a new page by
  calling \<open>fill_screen\<close>, which takes the mutex that \<open>print_char\<close> already holds.
\<close>

theorem print_char_full_screen_hangs:
  assumes "\<not> locked (graphics_mutex s)" "cache_ok ft s" "c \<noteq> 0" "\<not> isspace (sint c)" "ft c = Some g" "glyph_fits s g"
    "screen_ok s" "on_screen s" "\<not> line_has_room s" "\<not> page_has_room s"
  shows "print_char ft c s = Inl Hang"
proof (rule print_char_glyph(1) [OF assms(1-6) _ _ _ _ _ assms(9, 10)])
  have "(unat (next_y s) + unat (adv_y s)) * screen_width s \<le> (screen_height s + unat (adv_y s)) * screen_width s"
    using assms(8) by (intro mult_le_mono1) (auto simp: on_screen_def)
  also have "\<dots> < 2 ^ 32" using assms(7) by (simp add: screen_ok_def)
  finally show "(unat (next_y s) + unat (adv_y s)) * screen_width s < 2 ^ 32" .
qed (use assms(7, 8) in \<open>auto simp: screen_ok_def on_screen_def\<close>)

theorem print_char_full_screen_hangs_witness:
  "print_char (\<lambda>_. Some dot_glyph) 65 (small_screen\<lparr>next_x := 4, next_y := 2\<rparr>) = Inl Hang"
  by (rule print_char_full_screen_hangs [where g = dot_glyph])
    (simp_all add: small_screen_ok small_screen_room cache_ok_def entry_ok_def empty_cache_def list_all_iff glyph_fits_def
      dot_glyph_def small_screen_def screen_ok_def on_screen_def line_has_room_def page_has_room_def isspace_def)

text \<open>
  A newline is never checked against the height of the screen: on the last line it moves the
  cursor below the screen, and the next character is drawn there, in rows past the end of the
  framebuffer.
\<close>

theorem newline_leaves_screen:
  assumes "\<not> locked (graphics_mutex s)" "cache_ok ft s" "c \<noteq> 0" "\<not> isspace (sint c)" "ft c = Some g" "glyph_fits s g"
    "screen_ok s" "on_screen s" "\<not> page_has_room s" "2 * unat (adv_x s) \<le> unat (hres (fb_info s))"
    "screen_height s + 2 * unat (adv_y s) < 2 ^ 32"
  shows "\<exists>t u. print_char ft 10 s = Inr t \<and> \<not> on_screen t \<and> unat (next_y t) + unat (adv_y t) > screen_height t \<and>
    print_char ft c t = Inr u \<and> fb u = draw_cell t g"
proof -
  let ?t = "s\<lparr>next_y := next_y s + adv_y s, next_x := 0\<rparr>"
  have y: "unat (next_y s + adv_y s) = unat (next_y s) + unat (adv_y s)"
    using assms(7, 8) by (intro unat_add_no_wrap) (auto simp: screen_ok_def on_screen_def)
  let ?l = "s\<lparr>graphics_mutex := (graphics_mutex s)\<lparr>locked := True\<rparr>\<rparr>"
  have unl: "(graphics_mutex s)\<lparr>locked := False\<rparr> = graphics_mutex s" using assms(1) by (cases "graphics_mutex s") simp
  have x: "unat (adv_x s) \<le> unat (hres (fb_info s))" using assms(10) by simp
  have "check_charpos (move_cursor 10 ?l) = Inr (move_cursor 10 ?l)"
    using x by (simp add: check_charpos_def move_cursor_def word_less_nat_alt not_less)
  then have p: "print_char ft 10 s = Inr ?t"
    using assms(1) by (simp add: print_char_def print_char_unlocked_def isspace_def lock_graphics_eq unlock_graphics_eq)
      (simp add: move_cursor_def unl)
  have sf: "same_font s ?t" by (simp add: same_font_def)
  have below: "unat (next_y ?t) + unat (adv_y ?t) > screen_height ?t" using assms(9) y by (simp add: page_has_room_def)
  have "\<exists>u. print_char ft c ?t = Inr u \<and> cache_ok ft u \<and> \<not> locked (graphics_mutex u) \<and> same_font ?t u \<and>
      fb_info u = fb_info ?t \<and> fb u = draw_cell ?t g \<and>
      next_x u = (if line_has_room ?t then next_x ?t + adv_x ?t else 0) \<and>
      next_y u = (if line_has_room ?t then next_y ?t else next_y ?t + adv_y ?t)"
  proof (rule print_char_glyph(2))
    have le: "unat (next_y s) + unat (adv_y s) \<le> screen_height s" using assms(8) by (simp add: on_screen_def)
    have "(unat (next_y ?t) + unat (adv_y ?t)) * screen_width ?t \<le> (screen_height s + unat (adv_y s)) * screen_width s"
      using le y by (intro mult_le_mono) simp_all
    moreover have "(screen_height s + unat (adv_y s)) * screen_width s < 2 ^ 32" using assms(7) by (simp add: screen_ok_def)
    ultimately show "(unat (next_y ?t) + unat (adv_y ?t)) * screen_width ?t < 2 ^ 32" by (rule le_less_trans)
    show "unat (next_y ?t) + 2 * unat (adv_y ?t) < 2 ^ 32" using le y assms(11) by simp
  qed (use assms x in \<open>simp_all add: cache_ok_frame [OF sf] same_font_cell [OF sf] line_has_room_def screen_ok_def\<close>)
  with p below show ?thesis by (auto simp: on_screen_def)
qed

theorem newline_leaves_screen_witness:
  "\<exists>t u. print_char (\<lambda>_. Some dot_glyph) 10 (small_screen\<lparr>next_y := 2\<rparr>) = Inr t \<and>
     unat (next_y t) + unat (adv_y t) > screen_height t \<and> print_char (\<lambda>_. Some dot_glyph) 65 t = Inr u"
  using newline_leaves_screen [of "small_screen\<lparr>next_y := 2\<rparr>" "\<lambda>_. Some dot_glyph" 65 dot_glyph]
  by (auto simp: cache_ok_def entry_ok_def empty_cache_def list_all_iff glyph_fits_def
      dot_glyph_def small_screen_def screen_ok_def on_screen_def line_has_room_def page_has_room_def isspace_def)

end
