(* ===== verification/Gdt.thy ===== *)
theory Gdt
  imports Prelude
begin

text \<open>
  Segment descriptors, \<^verbatim>\<open>src/kernel/gdt.c\<close>: the global descriptor table of a processor with one code
  segment and one task state segment. The addresses of the processor's task state segment and of
  its interrupt stack are fixed by the thread-local storage and are parameters.
\<close>

section \<open>Descriptors\<close>

definition GDT_FLAG_CS_CONFORMING :: u64 where "GDT_FLAG_CS_CONFORMING = 0x40000000000"
definition GDT_FLAG_CODE :: u64 where "GDT_FLAG_CODE = 0x80000000000"
definition GDT_FLAG_TSS :: u64 where "GDT_FLAG_TSS = 0x90000000000"
definition GDT_FLAG_NOTSYS :: u64 where "GDT_FLAG_NOTSYS = 0x100000000000"
definition GDT_FLAG_PRESENT :: u64 where "GDT_FLAG_PRESENT = 0x800000000000"
definition GDT_FLAG_64BIT :: u64 where "GDT_FLAG_64BIT = 0x20000000000000"

definition GDT_DPL :: "u64 \<Rightarrow> u64" where
  "GDT_DPL dpl = push_bit 45 dpl"

definition GDT_CS :: "bool \<Rightarrow> u64 \<Rightarrow> u64" where
  "GDT_CS conf dpl = GDT_FLAG_CODE OR GDT_FLAG_NOTSYS OR GDT_FLAG_PRESENT OR GDT_FLAG_64BIT OR GDT_DPL dpl
     OR (if conf then GDT_FLAG_CS_CONFORMING else 0)"

definition GDT_TSS_LO :: "addr \<Rightarrow> u64 \<Rightarrow> u64" where
  "GDT_TSS_LO base dpl = GDT_FLAG_TSS OR GDT_FLAG_PRESENT OR GDT_DPL dpl
     OR push_bit 16 (base AND 0xFFFFFF) OR push_bit 56 (base AND 0xFF000000)"

definition GDT_TSS_HI :: "addr \<Rightarrow> u64" where
  "GDT_TSS_HI base = drop_bit 32 (base AND 0xFFFFFFFF00000000)"

text \<open>The fields of a descriptor as the processor reads them; a system descriptor has two words.\<close>

definition descr_base :: "u64 \<Rightarrow> u64 \<Rightarrow> addr" where
  "descr_base lo hi = take_bit 24 (drop_bit 16 lo) OR push_bit 24 (take_bit 8 (drop_bit 56 lo)) OR push_bit 32 (take_bit 32 hi)"

definition descr_limit :: "u64 \<Rightarrow> u64" where
  "descr_limit lo = take_bit 16 lo OR push_bit 16 (take_bit 4 (drop_bit 48 lo))"

definition descr_type :: "u64 \<Rightarrow> u64" where
  "descr_type lo = take_bit 4 (drop_bit 40 lo)"

definition descr_dpl :: "u64 \<Rightarrow> u64" where
  "descr_dpl lo = take_bit 2 (drop_bit 45 lo)"

definition descr_present :: "u64 \<Rightarrow> bool" where
  "descr_present lo = bit lo 47"

section \<open>The table\<close>

record tss_t =
  rsp_0 :: u64
  rsp_1 :: u64
  rsp_2 :: u64
  ist :: "u64 list"
  iomap_base :: u16
  iomap :: u8

text \<open>What \<open>__load_gdt\<close> and \<open>__load_task_register\<close> load is part of the state.\<close>

record gdt_state =
  tss :: tss_t
  gdt :: "u64 list"
  gdt_limit :: u16
  cs_selector :: u16
  task_register :: u16

definition init_gdt :: "addr \<Rightarrow> addr \<Rightarrow> gdt_state \<Rightarrow> gdt_state" where
  "init_gdt stack tss_addr s =
     s\<lparr>tss := \<lparr>rsp_0 = stack, rsp_1 = 0, rsp_2 = 0, ist = replicate 7 0, iomap_base = 104, iomap = 0\<rparr>,
       gdt := [0, GDT_CS False 0, GDT_TSS_LO tss_addr 0, GDT_TSS_HI tss_addr],
       gdt_limit := 4 * 8 - 1, cs_selector := 1 * 8, task_register := 2 * 8\<rparr>"

section \<open>What the processor reads\<close>

lemma gdt_masks:
  "(0xFFFFFF :: u64) = mask 24" "(0xFF000000 :: u64) = push_bit 24 (mask 8)"
  "(0xFFFFFFFF00000000 :: u64) = push_bit 32 (mask 32)" "(0x90000000000 :: u64) = push_bit 40 9"
  "(0x800000000000 :: u64) = push_bit 47 1"
  by (simp_all add: mask_eq_exp_minus_1 push_bit_eq_mult)

lemma bit_9: "bit (9 :: u64) n \<longleftrightarrow> n = 0 \<or> n = 3"
proof -
  have "(9 :: u64) = push_bit 0 1 OR push_bit 3 1" by simp
  then show ?thesis by (simp only: bit_or_iff bit_push_bit_iff bit_1_iff) auto
qed

lemma tss_low_bit:
  assumes "dpl < 4"
  shows "bit (GDT_TSS_LO base dpl) n \<longleftrightarrow>
    n = 40 \<or> n = 43 \<or> n = 47 \<or> 45 \<le> n \<and> n < 47 \<and> bit dpl (n - 45) \<or> 16 \<le> n \<and> n < 40 \<and> bit base (n - 16)"
proof -
  have dpl: "\<not> bit dpl k" if "2 \<le> k" for k
    using not_bit_above [of dpl 2 k] assms that by (simp add: word_less_nat_alt)
  have hi: "bit (push_bit 56 (base AND push_bit 24 (mask 8))) n = False"
    by (simp only: bit_push_bit_iff bit_and_iff bit_mask_iff) auto
  have flags: "bit GDT_FLAG_TSS n \<longleftrightarrow> n = 40 \<or> n = 43" "bit GDT_FLAG_PRESENT n \<longleftrightarrow> n = 47"
    unfolding GDT_FLAG_TSS_def GDT_FLAG_PRESENT_def gdt_masks(4, 5)
    by (simp_all only: bit_push_bit_iff bit_9 bit_1_iff) auto
  have d: "bit (GDT_DPL dpl) n \<longleftrightarrow> 45 \<le> n \<and> n < 47 \<and> bit dpl (n - 45)"
    using dpl [of "n - 45"] by (cases "n < 47") (auto simp: GDT_DPL_def bit_push_bit_iff)
  have b: "bit (push_bit 16 (base AND mask 24)) n \<longleftrightarrow> 16 \<le> n \<and> n < 40 \<and> bit base (n - 16)"
    by (auto simp: bit_push_bit_iff bit_and_iff bit_mask_iff)
  show ?thesis
    unfolding GDT_TSS_LO_def gdt_masks(1, 2) by (simp only: bit_or_iff hi flags d b) auto
qed

text \<open>
  The descriptor of the task state segment is a present 64-bit TSS of the privilege level asked
  for, but bits 24 to 31 of the segment's address are lost (they are shifted out of the word) and
  its limit is 0: the processor finds a segment of one byte, at the right address only when these
  bits are zero.
\<close>

theorem gdt_tss_descriptor:
  assumes "dpl < 4"
  shows "descr_base (GDT_TSS_LO base dpl) (GDT_TSS_HI base) = base AND NOT 0xFF000000 \<and>
    descr_limit (GDT_TSS_LO base dpl) = 0 \<and> descr_type (GDT_TSS_LO base dpl) = 9 \<and>
    descr_dpl (GDT_TSS_LO base dpl) = dpl \<and> descr_present (GDT_TSS_LO base dpl)"
proof (intro conjI)
  note lo = tss_low_bit [OF assms, of base]
  have dpl: "\<not> bit dpl k" if "2 \<le> k" for k
    using not_bit_above [of dpl 2 k] assms that by (simp add: word_less_nat_alt)
  have hi: "bit (GDT_TSS_HI base) n \<longleftrightarrow> n < 32 \<and> bit base (n + 32)" for n
    unfolding GDT_TSS_HI_def gdt_masks(3)
    by (auto simp: bit_drop_bit_eq bit_and_iff bit_push_bit_iff bit_mask_iff add.commute)
  show "descr_base (GDT_TSS_LO base dpl) (GDT_TSS_HI base) = base AND NOT 0xFF000000"
  proof (rule bit_word_eqI)
    fix n assume "n < LENGTH(64)"
    then consider "n < 24" | "24 \<le> n" "n < 32" | "32 \<le> n" "n < 64" by fastforce
    then show "bit (descr_base (GDT_TSS_LO base dpl) (GDT_TSS_HI base)) n = bit (base AND NOT 0xFF000000) n"
      unfolding descr_base_def gdt_masks(2)
      by cases (auto simp: bit_or_iff bit_and_iff bit_not_iff bit_push_bit_iff bit_take_bit_iff bit_drop_bit_eq bit_mask_iff lo hi)
  qed
  show "descr_limit (GDT_TSS_LO base dpl) = 0"
    by (rule bit_word_eqI)
      (auto simp: descr_limit_def bit_or_iff bit_push_bit_iff bit_take_bit_iff bit_drop_bit_eq lo)
  show "descr_type (GDT_TSS_LO base dpl) = 9"
    by (rule bit_word_eqI) (simp only: bit_9 descr_type_def bit_take_bit_iff bit_drop_bit_eq comp_def lo, auto)
  show "descr_dpl (GDT_TSS_LO base dpl) = dpl"
  proof (rule bit_word_eqI)
    fix n assume "n < LENGTH(64)"
    then show "bit (descr_dpl (GDT_TSS_LO base dpl)) n = bit dpl n"
      by (cases "n < 2") (auto simp: descr_dpl_def bit_take_bit_iff bit_drop_bit_eq lo dpl)
  qed
  show "descr_present (GDT_TSS_LO base dpl)" by (simp add: descr_present_def lo)
qed

theorem gdt_tss_descriptor_witness:
  "descr_base (GDT_TSS_LO 0xFFFFFF1012345678 0) (GDT_TSS_HI 0xFFFFFF1012345678) = 0xFFFFFF1000345678 \<and>
   descr_limit (GDT_TSS_LO 0xFFFFFF1012345678 0) = 0"
  using gdt_tss_descriptor [of 0 "0xFFFFFF1012345678"] by simp

end
