(* ===== verification/Kernel_Start.thy ===== *)
theory Kernel_Start
  imports Ap_Boot Graphics Gdt Pci Boot_Info
begin

text \<open>
  \<open>__kernel_init\<close> and \<open>__kernel_bsp_init\<close> of \<^verbatim>\<open>src/kernel/kernel_start.c\<close>: the initialisations of the
  other theories in the order a processor runs them. A processor's own tables and controller are
  thread-local; the rest of the state is shared. Theory \<open>Startup\<close> has the interleaving of the
  processors; here one processor runs, and what it reads of the others (the trampoline's counters,
  the number of working processors) and of the hardware is the record \<open>machine\<close>.
\<close>

section \<open>State\<close>

record system =
  segments :: gdt_state
  vectors :: idt_state
  lapic :: apic
  boot_inf :: boot_info
  kernel_mem :: kmem
  phys_bytes :: mem
  ap_boot_page :: ap_boot
  screen :: graphics
  acpi_tables :: acpi
  pci_config :: config_space
  pci :: pci_state
  ap_total :: u16
  tls_state :: tls
  init_stack :: "addr \<times> addr \<times> u64"

text \<open>
  What the code is linked with, runs on and reads: the places of thread-local data, the addresses of
  the assembled handlers, the controller's base, time stamps, the firmware's memory map, FreeType (the
  advances it reports or \<open>None\<close> for an error, the glyphs, and what its own allocations do to the
  kernel's memory, when it opens the font and when a string is printed), blended colours, the
  devices' registers, the trampoline and its counters, the size of the thread-local image.
\<close>

record machine =
  rsp0_at :: addr
  tss_at :: addr
  handler_of :: "isr \<Rightarrow> addr"
  timer_isr :: addr
  rdtsc_isr :: addr
  apic_enable :: addr
  time_stamps :: "nat \<Rightarrow> u64"
  timer_fires :: bool
  descriptor_at :: "addr \<Rightarrow> efi_memory_descriptor"
  font_face :: "(u32 \<times> u32) option"
  glyph_of :: "u32 \<Rightarrow> ft_glyph option"
  face_heap :: "kmem \<Rightarrow> kmem res"
  print_heap :: "kmem \<Rightarrow> kmem res"
  lerp_table :: "u8 \<Rightarrow> pixel"
  bar_latch :: "addr \<Rightarrow> latch"
  done_read :: "nat \<Rightarrow> u16"
  count_read :: "nat \<Rightarrow> u16"
  ap_boot_image :: "u8 list"
  kernel_start :: addr
  tls_image_size :: u64
  working_read :: "nat \<Rightarrow> u16"

section \<open>The boot processor\<close>

text \<open>
  \<open>init_graphics\<close> with the two allocations it makes: the framebuffer's mapping, whose size is computed
  with 32 bits, and the cache's block. The block is not tested for 0 before it is cleared.
\<close>

definition init_screen :: "machine \<Rightarrow> gop_framebuffer_info \<Rightarrow> u32 \<Rightarrow> graphics \<times> kmem \<Rightarrow> (graphics \<times> kmem) res" where
  "init_screen M info font_size = (\<lambda>(g, k).
     bindR (create_virt_mapping (fb_addr info) (ucast (hres info * vres info * 4 - 1))
              (PAGING_FLAG_READ_WRITE OR PAGING_FLAG_PAGE_LEVEL_CACHE_DISABLE) k) (\<lambda>(mapping, k).
     bindR (init_graphics (font_face M) mapping (lerp_table M) info font_size g) (\<lambda>g.
     bindR (face_heap M k) (\<lambda>k.
     let glyph_cache_entry_size = 8 + ucast (adv_x g * adv_y g) * 4
     in bindR (kmalloc (of_nat GLYPH_CACHE_SIZE * glyph_cache_entry_size) k) (\<lambda>(cache, k).
        if cache = 0 then Inl Overrun else Inr (g, k))))))"

text \<open>\<^verbatim>\<open>U"AP booted\n"\<close>\<close>

definition ap_booted :: "u32 list" where
  "ap_booted = [65, 80, 32, 98, 111, 111, 116, 101, 100, 10, 0]"

definition print_booted :: "machine \<Rightarrow> nat \<Rightarrow> graphics \<times> kmem \<Rightarrow> (graphics \<times> kmem) res" where
  "print_booted M i = (\<lambda>(g, k).
     bindR (print_str (glyph_of M) ap_booted g) (\<lambda>g. bindR (print_heap M k) (\<lambda>k. Inr (g, k))))"

definition kernel_bsp_init :: "machine \<Rightarrow> boot_info \<Rightarrow> system \<Rightarrow> system res" where
  "kernel_bsp_init M bi s =
     (let s = s\<lparr>boot_inf := bi\<rparr>; map_data = mmap_data (boot_inf s)
      in bindR (init_apic (time_stamps M) (timer_fires M) (cs_selector (segments s)) (apic_enable M) (timer_isr M) (rdtsc_isr M)
                 (tsc_freq_hz (boot_inf s)) (lapic s, vectors s)) (\<lambda>(a, i).
         bindR (init_memory_management (descriptor_at M) (descriptors map_data) (mmap_size map_data) (descriptor_size map_data)
                 (of_nat (length (ap_boot_image M))) (ap_boot_page s, kernel_mem s)) (\<lambda>(b, k).
         bindR (kernel_post_init_check k) (\<lambda>(ok, k).
         if \<not> ok then Inl (Panic ''post init check failed'')
         else bindR (init_screen M (gop_fb_info (boot_inf s)) 20 (screen s, k)) (\<lambda>(g, k).
         bindR (fill_screen \<lparr>blue = 0, green = 0, red = 0, reserved = 0\<rparr> g) (\<lambda>g.
         bindR (init_acpi (phys_bytes s) (acpi_x_r_sdt (boot_inf s)) (acpi_tables s, k)) (\<lambda>(tables, k).
         bindR (init_pci (bar_latch M) (phys_bytes s) tables (pci_config s, pci s, k)) (\<lambda>(ok, cfg, devs, k).
         if \<not> ok then Inl (Panic ''failed to initialize PCI'')
         else bindR (boot_aps (time_stamps M) (done_read M) (count_read M) (ap_boot_image M) (kernel_start M) (ap_boot_paddr b)
                 (phys_bytes s, k, a)) (\<lambda>(c, phys, k, a).
         bindR (tls_reserve_ap_space (tls_image_size M) c (tls_state s, k)) (\<lambda>(ok, tl, k).
         if \<not> ok then Inl (Panic ''failed to reserve space for AP TLS'')
         else bindR (reserve_ap_init_stack c k) (\<lambda>(stack, k).
         case stack of
           None \<Rightarrow> Inl (Panic ''failed to reserve space for initial AP stack'')
         | Some area \<Rightarrow>
             bindR (each (print_booted M) [0..<unat c] (g, k)) (\<lambda>(g, k).
             Inr (s\<lparr>vectors := i, lapic := a, kernel_mem := k, phys_bytes := phys, ap_boot_page := b, screen := g,
                   acpi_tables := tables, pci_config := cfg, pci := devs, ap_total := c, tls_state := tl,
                   init_stack := area\<rparr>)))))))))))))"

section \<open>Every processor\<close>

text \<open>The stack \<open>__kernel_init\<close> runs on grows down from the end of the thread-local array at \<open>kernel_stack\<close>.\<close>

definition get_kernel_sp :: "addr \<Rightarrow> addr" where
  "get_kernel_sp kernel_stack = kernel_stack + KERNEL_STACK_SIZE"

text \<open>\<^verbatim>\<open>while(atomic_load(&working_processor_count) < ap_count+1) {}\<close>, on the values it reads.\<close>

partial_function (option) await_processors :: "(nat \<Rightarrow> u16) \<Rightarrow> u16 \<Rightarrow> nat \<Rightarrow> nat option" where
  "await_processors reads c i = (if unat (reads i) < unat c + 1 then await_processors reads c (Suc i) else Some (Suc i))"

definition get_working_processor_count :: "system \<Rightarrow> u16" where
  "get_working_processor_count s = working_processors (kernel_mem s)"

definition count_processor :: "system \<Rightarrow> system" where
  "count_processor s = s\<lparr>kernel_mem := (kernel_mem s)\<lparr>working_processors := get_working_processor_count s + 1\<rparr>\<rparr>"

text \<open>\<open>bi_ptr\<close> is \<open>None\<close>, the null pointer, on an application processor.\<close>

definition kernel_init :: "machine \<Rightarrow> boot_info option \<Rightarrow> system \<Rightarrow> system res" where
  "kernel_init M bi_ptr s =
     (let s = s\<lparr>segments := init_gdt (rsp0_at M) (tss_at M) (segments s)\<rparr>;
          s = s\<lparr>vectors := init_idt (cs_selector (segments s)) (handler_of M) (vectors s)\<rparr>
      in bindR (case bi_ptr of
             Some bi \<Rightarrow> kernel_bsp_init M bi s
           | None \<Rightarrow>
               bindR (init_apic (time_stamps M) (timer_fires M) (cs_selector (segments s)) (apic_enable M) (timer_isr M) (rdtsc_isr M)
                        (tsc_freq_hz (boot_inf s)) (lapic s, vectors s)) (\<lambda>(a, i).
               Inr (s\<lparr>lapic := a, vectors := i\<rparr>))) (\<lambda>s.
         let s = count_processor s
         in case await_processors (working_read M) (ap_total s) 0 of
              None \<Rightarrow> Inl Hang
            | Some i \<Rightarrow> Inr s))"

section \<open>The interrupt table of a processor\<close>

lemma set_timer_freq_run:
  fixes s i tsc fires cs isr_addr freq
  assumes "alloc_interrupt_vector cs isr_addr i = (vec, t2)"
  defines "r \<equiv> set_timer_freq tsc fires cs isr_addr freq (s, i)"
  shows "apic_tsc_end s = 0 \<Longrightarrow> \<not> (fires \<and> tsc (Suc (tsc_index s)) \<noteq> 0) \<Longrightarrow> r = Inl Hang"
    and "apic_tsc_end s \<noteq> 0 \<or> fires \<and> tsc (Suc (tsc_index s)) \<noteq> 0 \<Longrightarrow> free_interrupt_vector vec t2 = Inr t \<Longrightarrow>
      \<exists>a. r = Inr (a, t) \<and> timer_int a = timer_int s \<and> ipcall_mtx a = ipcall_mtx s \<and>
        regs a APIC_OFFS_LVT_TIMER = APIC_LVT_MASKED"
proof -
  note defs = r_def set_timer_freq_def assms(1) Let_def APIC_REG_write_def read_tsc_def isr_timer_rdtsc_def apic_write_eoi_def
  show "apic_tsc_end s = 0 \<Longrightarrow> \<not> (fires \<and> tsc (Suc (tsc_index s)) \<noteq> 0) \<Longrightarrow> r = Inl Hang"
    by (auto simp: defs)
  assume stamp: "apic_tsc_end s \<noteq> 0 \<or> fires \<and> tsc (Suc (tsc_index s)) \<noteq> 0" and free: "free_interrupt_vector vec t2 = Inr t"
  show "\<exists>a. r = Inr (a, t) \<and> timer_int a = timer_int s \<and> ipcall_mtx a = ipcall_mtx s \<and>
      regs a APIC_OFFS_LVT_TIMER = APIC_LVT_MASKED"
  proof (cases "apic_tsc_end s = 0")
    case True
    then have "fires" "tsc (Suc (tsc_index s)) \<noteq> 0" using stamp by simp_all
    with True show ?thesis by (simp add: defs free)
  next
    case False
    then show ?thesis by (simp add: defs free)
  qed
qed

text \<open>The contents of a table filled by \<open>IDT_INT_GATE\<close> for one code segment: the gates and the empty entries.\<close>

definition built_gates :: "u16 \<Rightarrow> idt_gate_descr set" where
  "built_gates cs = insert no_gate (range (\<lambda>isr. IDT_INT_GATE isr cs 0 0))"

lemma built_gates_intros [simp]: "no_gate \<in> built_gates cs" "IDT_INT_GATE isr cs 0 0 \<in> built_gates cs"
  by (simp_all add: built_gates_def)

lemma built_gates_update: "set t \<subseteq> built_gates cs \<Longrightarrow> g \<in> built_gates cs \<Longrightarrow> set (t[k := g]) \<subseteq> built_gates cs"
  using set_update_subset_insert [of t k g] by blast

lemma built_gates_fields:
  assumes "cs < 0x8000" "g \<in> built_gates cs" "gate_present g"
  shows "gate_selector g = ucast cs \<and> gate_type g = 0xE \<and> gate_dpl g = 0 \<and> gate_ist g = 0"
  using assms(2, 3) idt_gate_fields [OF assms(1), of 0 0] by (auto simp: built_gates_def gate_present_def no_gate_def)

text \<open>
  With vector 32 the only one in use of the first three, the timer gets 33; the vector of the
  measurement, 34, is free again at the end. The call returns when a time stamp has been stored.
\<close>

lemma init_apic_run:
  fixes s i tsc fires cs base isr_addr rdtsc_addr freq
  assumes "gates_match i" "cs < 0x8000" "int_used i = True # False # False # us"
  defines "r \<equiv> init_apic tsc fires cs base isr_addr rdtsc_addr freq (s, i)"
  shows "apic_tsc_end s = 0 \<Longrightarrow> \<not> (fires \<and> tsc (Suc (tsc_index s)) \<noteq> 0) \<Longrightarrow> r = Inl Hang"
    and "apic_tsc_end s \<noteq> 0 \<or> fires \<and> tsc (Suc (tsc_index s)) \<noteq> 0 \<Longrightarrow> \<exists>a t. r = Inr (a, t) \<and>
      timer_int a = 33 \<and> ipcall_mtx a = ipcall_mtx s \<and> regs a APIC_OFFS_LVT_TIMER = APIC_LVT_MASKED \<and> gates_match t \<and>
      vector_owner t = (vector_owner i)(33 := Some isr_addr) \<and> (\<forall>k < 32. idt t ! k = idt i ! k) \<and>
      idt_limit t = idt_limit i \<and> (set (idt i) \<subseteq> built_gates cs \<longrightarrow> set (idt t) \<subseteq> built_gates cs)"
proof -
  have len: "length (idt i) = 256" using assms(1) by (simp add: gates_match_def vectors_ok_def IDT_ENTRY_COUNT_def)
  define t1 where "t1 = i\<lparr>idt := (idt i)[33 := IDT_INT_GATE isr_addr cs 0 0], int_used := True # True # False # us\<rparr>"
  define t2 where "t2 = t1\<lparr>idt := (idt t1)[34 := IDT_INT_GATE rdtsc_addr cs 0 0], int_used := True # True # True # us\<rparr>"
  have a1: "alloc_interrupt_vector cs isr_addr i = (33, t1)"
    by (simp add: alloc_interrupt_vector_def assms(3) IDT_ENTRY_COUNT_def t1_def)
  have a2: "alloc_interrupt_vector cs rdtsc_addr t1 = (34, t2)"
    by (simp add: alloc_interrupt_vector_def IDT_ENTRY_COUNT_def t2_def t1_def)
  note ok1 = alloc_interrupt_vector_ok(2) [OF assms(2, 1) a1]
  then have g1: "gates_match t1" by simp
  note ok2 = alloc_interrupt_vector_ok(2) [OF assms(2) g1 a2]
  then have "vector_owner t2 34 = Some rdtsc_addr" "gates_match t2" by simp_all
  from free_interrupt_vector_ok [OF this(2, 1)] obtain t where
    t: "free_interrupt_vector 34 t2 = Inr t" "gates_match t" "vector_owner t = (vector_owner t2)(34 := None)" by blast
  have owner: "vector_owner t = (vector_owner i)(33 := Some isr_addr)"
    using ok1 ok2 by (auto simp: t(3) fun_eq_iff)
  have idt: "idt t ! k = idt i ! k" "idt_limit t = idt_limit i" if "k < 32" for k
    using t(1) that by (auto simp: free_interrupt_vector_def Let_def t2_def t1_def)
  have built: "set (idt t) \<subseteq> built_gates cs" if "set (idt i) \<subseteq> built_gates cs"
  proof -
    have "idt t = (idt i)[33 := IDT_INT_GATE isr_addr cs 0 0, 34 := no_gate]"
      using t(1) by (auto simp: free_interrupt_vector_def Let_def t2_def t1_def)
    then show ?thesis using that by (simp add: built_gates_update)
  qed
  note run = set_timer_freq_run [OF a2, where fires = fires and tsc = tsc and freq = freq]
  show "r = Inl Hang" if "apic_tsc_end s = 0" "\<not> (fires \<and> tsc (Suc (tsc_index s)) \<noteq> 0)"
    unfolding r_def init_apic_def prod.case Let_def a1
    by (rule run(1)) (use that in \<open>simp_all add: APIC_REG_write_def\<close>)
  show "\<exists>a t. r = Inr (a, t) \<and> timer_int a = 33 \<and> ipcall_mtx a = ipcall_mtx s \<and> regs a APIC_OFFS_LVT_TIMER = APIC_LVT_MASKED \<and> gates_match t \<and>
      vector_owner t = (vector_owner i)(33 := Some isr_addr) \<and> (\<forall>k < 32. idt t ! k = idt i ! k) \<and>
      idt_limit t = idt_limit i \<and> (set (idt i) \<subseteq> built_gates cs \<longrightarrow> set (idt t) \<subseteq> built_gates cs)"
    if stamp: "apic_tsc_end s \<noteq> 0 \<or> fires \<and> tsc (Suc (tsc_index s)) \<noteq> 0"
  proof -
    have "\<exists>a. set_timer_freq tsc fires cs rdtsc_addr freq (x, t1) = Inr (a, t) \<and> timer_int a = 33 \<and>
        ipcall_mtx a = ipcall_mtx s \<and> regs a APIC_OFFS_LVT_TIMER = APIC_LVT_MASKED"
      if "ipcall_mtx x = ipcall_mtx s" "timer_int x = 33" "apic_tsc_end x = apic_tsc_end s" "tsc_index x = tsc_index s" for x
      using run(2) [where s = x, OF _ t(1)] that stamp by simp
    then have "\<exists>a. r = Inr (a, t) \<and> timer_int a = 33 \<and> ipcall_mtx a = ipcall_mtx s \<and>
        regs a APIC_OFFS_LVT_TIMER = APIC_LVT_MASKED"
      unfolding r_def init_apic_def prod.case Let_def a1 by (simp add: APIC_REG_write_def)
    then show ?thesis using t(2) owner idt(1) idt(2) [of 0] built by auto
  qed
qed

lemma init_idt_fresh:
  assumes "cs < 0x8000" "vectors_ok s" "\<forall>u \<in> set (int_used s). \<not> u"
  shows "\<exists>us. int_used (init_idt cs link s) = True # False # False # us"
    and "vector_owner (init_idt cs link s) = [32 \<mapsto> link isr_inter_processor_call, 255 \<mapsto> link isr_spurious_int]"
    and "k < 22 \<Longrightarrow> idt (init_idt cs link s) ! k = exception_gates cs link ! k"
    and "22 \<le> k \<Longrightarrow> k < 32 \<Longrightarrow> idt (init_idt cs link s) ! k = no_gate"
    and "idt_limit (init_idt cs link s) = Some 4095"
    and "set (idt (init_idt cs link s)) \<subseteq> built_gates cs"
proof -
  have len: "length (idt s) = 256" "length (int_used s) = 224"
    using assms(2) by (simp_all add: vectors_ok_def IDT_ENTRY_COUNT_def)
  from assms(3) have "int_used s = replicate (length (int_used s)) False"
    by (intro replicate_length_same [symmetric]) blast
  then have clear: "int_used s = replicate 224 False" by (simp only: len)
  have u: "int_used (init_idt cs link s) = (replicate 224 False)[0 := True, 223 := True]"
    by (simp add: init_idt_def Let_def INT_VEC_INTER_PROCESSOR_CALL_def INT_VEC_SPURIOUS_def clear)
  have "replicate 224 False = False # False # False # replicate 221 False"
    using replicate_add [of 3 221 False] by (simp add: numeral_3_eq_3)
  then show "\<exists>us. int_used (init_idt cs link s) = True # False # False # us" unfolding u by simp
  note own = init_idt_owners [OF assms, of link]
  have "vector_owner (init_idt cs link s) v = None" if "v \<noteq> 32" "v \<noteq> 255" for v
  proof -
    have "unat v \<noteq> 32" "unat v \<noteq> 255" using that by (simp_all add: word_unat_eq_iff)
    then show ?thesis using unat_u8_less [of v] by (auto simp: vector_owner_def u nth_list_update)
  qed
  with own(2, 3) show "vector_owner (init_idt cs link s) = [32 \<mapsto> link isr_inter_processor_call, 255 \<mapsto> link isr_spurious_int]"
    by (auto simp: fun_eq_iff)
  have e: "length (exception_gates cs link) = 22" by (simp add: exception_gates_def)
  show "idt (init_idt cs link s) ! k = exception_gates cs link ! k" if "k < 22"
    using that len e by (simp add: init_idt_def Let_def INT_VEC_INTER_PROCESSOR_CALL_def INT_VEC_SPURIOUS_def set_gates_nth IDT_ENTRY_COUNT_def)
  show "idt (init_idt cs link s) ! k = no_gate" if "22 \<le> k" "k < 32"
    using that len e by (simp add: init_idt_def Let_def INT_VEC_INTER_PROCESSOR_CALL_def INT_VEC_SPURIOUS_def set_gates_nth IDT_ENTRY_COUNT_def)
  show "idt_limit (init_idt cs link s) = Some 4095"
    by (simp add: init_idt_def Let_def IDT_ENTRY_COUNT_def)
  have gates: "set (exception_gates cs link) \<subseteq> built_gates cs" by (auto simp: exception_gates_def)
  define t0 where "t0 = set_gates 22 (replicate (IDT_ENTRY_COUNT - 22) no_gate) (set_gates 0 (exception_gates cs link) (idt s))"
  have t0: "length t0 = 256" by (simp add: t0_def len)
  have "t0 ! k = (if k < 22 then exception_gates cs link ! k else no_gate)" if "k < 256" for k
    using that len e by (simp add: t0_def set_gates_nth IDT_ENTRY_COUNT_def)
  then have "t0 ! k \<in> built_gates cs" if "k < 256" for k
    using that gates e nth_mem [of k "exception_gates cs link"] by (cases "k < 22") auto
  then have "set t0 \<subseteq> built_gates cs" using t0 by (auto simp: in_set_conv_nth)
  then show "set (idt (init_idt cs link s)) \<subseteq> built_gates cs"
    by (simp add: init_idt_def Let_def t0_def [symmetric] built_gates_update)
qed

text \<open>The exceptions of the processor by vector, and the gates that a table must have for them.\<close>

definition exceptions :: "isr option list" where
  "exceptions = [Some isr_divide_error, Some isr_debug, Some isr_nmi, Some isr_breakpoint, Some isr_overflow,
     Some isr_bound_range, Some isr_invalid_opcode, Some isr_no_coproc, Some isr_double_fault, None, Some isr_invalid_tss,
     Some isr_segment_not_present, Some isr_ss_fault, Some isr_general_protection, Some isr_page_fault, None,
     Some isr_math_fault, Some isr_align_check, Some isr_machine_check, Some isr_simd_exception,
     Some isr_virtualization_exception, Some isr_control_protection]"

definition serves_exceptions :: "u64 \<Rightarrow> (isr \<Rightarrow> addr) \<Rightarrow> idt_state \<Rightarrow> bool" where
  "serves_exceptions sel link t \<longleftrightarrow> (\<forall>k < 32. case (exceptions @ replicate 10 None) ! k of
       None \<Rightarrow> \<not> gate_present (idt t ! k)
     | Some h \<Rightarrow> gate_present (idt t ! k) \<and> gate_offset (idt t ! k) = link h \<and> gate_selector (idt t ! k) = sel)"

lemma exception_gates_map:
  "exception_gates cs link = map (\<lambda>e. case e of None \<Rightarrow> no_gate | Some h \<Rightarrow> IDT_INT_GATE (link h) cs 0 0) exceptions"
  by (simp add: exception_gates_def exceptions_def)

lemma serves_exceptions_init:
  assumes "cs < 0x8000" "\<And>k. k < 22 \<Longrightarrow> idt t ! k = exception_gates cs link ! k"
    "\<And>k. 22 \<le> k \<Longrightarrow> k < 32 \<Longrightarrow> idt t ! k = no_gate"
  shows "serves_exceptions (ucast cs) link t"
  unfolding serves_exceptions_def
proof (intro allI impI)
  fix k :: nat assume k: "k < 32"
  have no: "\<not> gate_present no_gate" by (simp add: gate_present_def no_gate_def)
  have len: "length exceptions = 22" by (simp add: exceptions_def)
  show "case (exceptions @ replicate 10 None) ! k of None \<Rightarrow> \<not> gate_present (idt t ! k)
      | Some h \<Rightarrow> gate_present (idt t ! k) \<and> gate_offset (idt t ! k) = link h \<and> gate_selector (idt t ! k) = ucast cs"
  proof (cases "k < 22")
    case True
    then have "idt t ! k = (case exceptions ! k of None \<Rightarrow> no_gate | Some h \<Rightarrow> IDT_INT_GATE (link h) cs 0 0)"
      using assms(2) len by (simp add: exception_gates_map)
    then show ?thesis using True len no idt_gate_fields [OF assms(1), of 0 0]
      by (simp add: nth_append split: option.split)
  next
    case False
    then show ?thesis using assms(3) [of k] k no by (simp add: nth_append len)
  qed
qed

lemma wait_tsc_frame: "wait_tsc tsc target s = Some t \<Longrightarrow> timer_int t = timer_int s \<and> regs t = regs s"
  by (rule wait_tsc.raw_induct [where P = "\<lambda>tsc target s t. timer_int t = timer_int s \<and> regs t = regs s"])
    (fastforce simp: read_tsc_def split: if_splits)+

lemma delay_frame: "delay tsc n s = Inr t \<Longrightarrow> timer_int t = timer_int s \<and> regs t = regs s"
  by (auto simp: delay_def read_tsc_def dest!: wait_tsc_frame split: option.splits)

lemma send_init_sipi_sipi_frame:
  assumes "send_init_sipi_sipi tsc vec s = Inr t"
  shows "timer_int t = timer_int s \<and> regs t APIC_OFFS_LVT_TIMER = regs s APIC_OFFS_LVT_TIMER"
proof -
  have "APIC_OFFS_LVT_TIMER \<noteq> APIC_OFFS_ICR_LO" by (simp add: APIC_OFFS_LVT_TIMER_def APIC_OFFS_ICR_LO_def)
  then show ?thesis using assms
    by (auto simp: send_init_sipi_sipi_def Let_def APIC_REG_write_def dest!: delay_frame split: prod.splits if_splits)
qed

lemma boot_aps_frame:
  "boot_aps tsc dones counts code start paddr (phys, k, a) = Inr (c, phys', k', a') \<Longrightarrow>
     timer_int a' = timer_int a \<and> regs a' APIC_OFFS_LVT_TIMER = regs a APIC_OFFS_LVT_TIMER"
  by (auto simp: boot_aps_def dest!: send_init_sipi_sipi_frame split: prod.splits option.splits)

section \<open>What the boot processor has done when it comes back\<close>

lemma kernel_bsp_init_frame:
  assumes "kernel_bsp_init M bi s = Inr t"
  shows "segments t = segments s" "boot_inf t = bi"
    and "\<exists>a. init_apic (time_stamps M) (timer_fires M) (cs_selector (segments s)) (apic_enable M) (timer_isr M) (rdtsc_isr M)
        (tsc_freq_hz bi) (lapic s, vectors s) = Inr (a, vectors t) \<and>
      timer_int (lapic t) = timer_int a \<and> regs (lapic t) APIC_OFFS_LVT_TIMER = regs a APIC_OFFS_LVT_TIMER"
  using assms
  by (auto simp: kernel_bsp_init_def Let_def dest!: boot_aps_frame split: if_splits option.splits)

lemma poll_aps_settled: "poll_aps dones counts i = Some j \<Longrightarrow> \<exists>n. j = Suc n \<and> \<not> dones n < counts n"
  by (rule poll_aps.raw_induct [where P = "\<lambda>dones counts i j. \<exists>n. j = Suc n \<and> \<not> dones n < counts n"])
    (fastforce split: if_splits)+

text \<open>
  The boot processor only comes back with storage reserved for as many processors as it counted, the
  count being what the trampoline's counter said right after the two counters had settled.
\<close>

lemma kernel_bsp_init_provides:
  assumes "kernel_bsp_init M bi s = Inr t"
  shows "ap_tls (tls_state t) \<noteq> 0" "locked (ap_mut (tls_state t)) = False"
    and "\<exists>p. p \<noteq> 0 \<and> init_stack t = (p, p + ucast (ap_total t) * AP_INIT_STACK_SIZE, AP_INIT_STACK_SIZE)"
    and "\<exists>n. \<not> done_read M n < count_read M n \<and> ap_total t = count_read M (Suc n)"
  using assms
  by (auto simp: kernel_bsp_init_def Let_def tls_reserve_ap_space_def tls_publish_def reserve_ap_init_stack_def boot_aps_def
      mtx_init_def mtx_plain_def mtx_recursive_def mtx_timed_def thrd_success_def thrd_error_def
      dest!: poll_aps_settled split: if_splits option.splits)

section \<open>What a processor has when it comes back\<close>

lemma count_processor_frame [simp]:
  "ap_total (count_processor s) = ap_total s" "vectors (count_processor s) = vectors s" "lapic (count_processor s) = lapic s"
  "segments (count_processor s) = segments s"
  by (simp_all add: count_processor_def)

lemma await_processors_returns:
  "(\<exists>i. await_processors reads c k = Some i) \<longleftrightarrow> (\<exists>n \<ge> k. unat c < unat (reads n))"
proof
  show "\<exists>n \<ge> k. unat c < unat (reads n)" if returns: "\<exists>i. await_processors reads c k = Some i"
  proof -
    obtain i where "await_processors reads c k = Some i" using returns by blast
    then show ?thesis
    proof (rule await_processors.raw_induct [where P = "\<lambda>reads c k i. \<exists>n \<ge> k. unat c < unat (reads n)", rotated])
      fix await and reads :: "nat \<Rightarrow> u16" and c k i
      assume IH: "\<And>reads c k i. await reads c k = Some i \<Longrightarrow> \<exists>n \<ge> k. unat (c :: u16) < unat (reads n :: u16)"
        and i: "(if unat (reads k) < unat (c :: u16) + 1 then await reads c (Suc k) else Some (Suc k)) = Some i"
      show "\<exists>n \<ge> k. unat c < unat (reads n)"
      proof (cases "unat (reads k) < unat c + 1")
        case True
        with i IH [of reads c "Suc k" i] show ?thesis by (auto dest: Suc_leD)
      next
        case False
        then show ?thesis by (intro exI [of _ k]) simp
      qed
    qed
  qed
  show "\<exists>i. await_processors reads c k = Some i" if reaches: "\<exists>n \<ge> k. unat c < unat (reads n)"
  proof -
    obtain n where n: "k \<le> n" "unat c < unat (reads n)" using reaches by blast
    from n(1) show ?thesis
    proof (induction rule: inc_induct)
      case base
      show ?case by (subst await_processors.simps) (use n(2) in simp)
    next
      case (step m)
      then show ?case by (subst await_processors.simps) simp
    qed
  qed
qed

text \<open>What a processor's start-up does to the shared state when it is not the boot processor: it is counted.\<close>

lemma ap_init_run:
  assumes "vectors_ok (vectors s)" "\<forall>u \<in> set (int_used (vectors s)). \<not> u" "apic_tsc_end (lapic s) = 0"
  shows "if timer_fires M \<and> time_stamps M (Suc (tsc_index (lapic s))) \<noteq> 0 \<and> (\<exists>n. unat (ap_total s) < unat (working_read M n))
    then \<exists>a i. ipcall_mtx a = ipcall_mtx (lapic s) \<and> kernel_init M None s = Inr (count_processor
      (s\<lparr>segments := init_gdt (rsp0_at M) (tss_at M) (segments s), lapic := a, vectors := i\<rparr>))
    else kernel_init M None s = Inl Hang"
proof -
  define i where "i = init_idt 8 (handler_of M) (vectors s)"
  have cs: "cs_selector (init_gdt r p g) = 8" for r p g by (simp add: init_gdt_def)
  have cs8: "(8 :: u16) < 0x8000" by simp
  obtain us where us: "int_used i = True # False # False # us" using init_idt_fresh(1) [OF cs8 assms(1, 2)] i_def by blast
  have "gates_match i" using init_idt_owners(1) [OF cs8 assms(1, 2)] by (simp add: i_def)
  note run = init_apic_run [OF this cs8 us, where s = "lapic s" and fires = "timer_fires M" and tsc = "time_stamps M"
      and base = "apic_enable M" and isr_addr = "timer_isr M" and rdtsc_addr = "rdtsc_isr M" and freq = "tsc_freq_hz (boot_inf s)"]
  note init = kernel_init_def Let_def cs i_def [symmetric]
  show ?thesis
  proof (cases "timer_fires M \<and> time_stamps M (Suc (tsc_index (lapic s))) \<noteq> 0")
    case False
    from run(1) [OF assms(3) this] False show ?thesis by (auto simp: init)
  next
    case True
    then obtain a t where a: "init_apic (time_stamps M) (timer_fires M) 8 (apic_enable M) (timer_isr M) (rdtsc_isr M)
        (tsc_freq_hz (boot_inf s)) (lapic s, i) = Inr (a, t)" "ipcall_mtx a = ipcall_mtx (lapic s)" using run(2) by blast
    let ?t = "count_processor (s\<lparr>segments := init_gdt (rsp0_at M) (tss_at M) (segments s), lapic := a, vectors := t\<rparr>)"
    have k: "kernel_init M None s = (case await_processors (working_read M) (ap_total s) 0 of None \<Rightarrow> Inl Hang | Some i \<Rightarrow> Inr ?t)"
      by (simp add: init a(1))
    show ?thesis
    proof (cases "await_processors (working_read M) (ap_total s) 0")
      case None
      then have "\<not> (\<exists>n. unat (ap_total s) < unat (working_read M n))"
        using await_processors_returns [of "working_read M" "ap_total s" 0] by simp
      then show ?thesis using k None by simp
    next
      case (Some n)
      then have "\<exists>n. unat (ap_total s) < unat (working_read M n)"
        using await_processors_returns [of "working_read M" "ap_total s" 0] by simp
      then show ?thesis using True k Some a(2) by auto
    qed
  qed
qed

text \<open>
  C35. A processor that comes back from \<open>__kernel_init\<close> can take its interrupts. This holds of the boot
  processor and of the others, whatever the rest of the start-up did. The processor has loaded the whole
  table, and every gate in it that is present is an interrupt gate of privilege 0 through the code segment
  that has just been loaded, on the stack in use. The exceptions have their handlers, the vectors
  Intel reserves have no gate, vector 32 is the call between processors, 33 the timer, 255 the spurious
  interrupt, and no other vector is taken; the vector used to measure the timer is free again and the
  timer is masked.
\<close>

theorem kernel_init_vectors:
  assumes "vectors_ok (vectors s)" "\<forall>u \<in> set (int_used (vectors s)). \<not> u" "kernel_init M bi_ptr s = Inr t"
  shows "serves_exceptions (ucast (cs_selector (segments t))) (handler_of M) (vectors t) \<and>
    vector_owner (vectors t) =
      [32 \<mapsto> handler_of M isr_inter_processor_call, 33 \<mapsto> timer_isr M, 255 \<mapsto> handler_of M isr_spurious_int] \<and>
    timer_int (lapic t) = 33 \<and> regs (lapic t) APIC_OFFS_LVT_TIMER = APIC_LVT_MASKED \<and>
    idt_limit (vectors t) = Some 4095 \<and>
    (\<forall>g \<in> set (idt (vectors t)). gate_present g \<longrightarrow>
      gate_selector g = ucast (cs_selector (segments t)) \<and> gate_type g = 0xE \<and> gate_dpl g = 0 \<and> gate_ist g = 0)"
proof -
  define g where "g = init_gdt (rsp0_at M) (tss_at M) (segments s)"
  define i where "i = init_idt (cs_selector g) (handler_of M) (vectors s)"
  define s0 where "s0 = s\<lparr>segments := g, vectors := i\<rparr>"
  have cs: "cs_selector g = 8" by (simp add: g_def init_gdt_def)
  obtain u where u: "(case bi_ptr of Some bi \<Rightarrow> kernel_bsp_init M bi s0
      | None \<Rightarrow> bindR (init_apic (time_stamps M) (timer_fires M) (cs_selector (segments s0)) (apic_enable M) (timer_isr M)
          (rdtsc_isr M) (tsc_freq_hz (boot_inf s0)) (lapic s0, vectors s0)) (\<lambda>(a, i).
          Inr (s0\<lparr>lapic := a, vectors := i\<rparr>))) = Inr u" "t = count_processor u"
    using assms(3) unfolding kernel_init_def Let_def g_def i_def s0_def
    by (auto split: option.splits)
  have "segments u = g \<and> (\<exists>a freq.
      init_apic (time_stamps M) (timer_fires M) 8 (apic_enable M) (timer_isr M) (rdtsc_isr M) freq (lapic s0, i) = Inr (a, vectors u) \<and>
      timer_int (lapic u) = timer_int a \<and> regs (lapic u) APIC_OFFS_LVT_TIMER = regs a APIC_OFFS_LVT_TIMER)"
  proof (cases bi_ptr)
    case None
    then show ?thesis using u(1) cs by (fastforce simp: s0_def)
  next
    case (Some bi)
    then have "kernel_bsp_init M bi s0 = Inr u" using u(1) by simp
    from kernel_bsp_init_frame [OF this] show ?thesis by (auto simp: s0_def cs)
  qed
  then obtain a freq where a: "segments u = g"
    "init_apic (time_stamps M) (timer_fires M) 8 (apic_enable M) (timer_isr M) (rdtsc_isr M) freq (lapic s0, i) = Inr (a, vectors u)"
    "timer_int (lapic u) = timer_int a" "regs (lapic u) APIC_OFFS_LVT_TIMER = regs a APIC_OFFS_LVT_TIMER"
    by blast
  have cs8: "(8 :: u16) < 0x8000" by simp
  note fresh = init_idt_fresh [where link = "handler_of M", OF cs8 assms(1, 2), folded cs, folded i_def]
  obtain us where us: "int_used i = True # False # False # us" using fresh(1) by blast
  have "gates_match i" using init_idt_owners(1) [OF cs8 assms(1, 2), of "handler_of M"] by (simp add: i_def cs)
  note run = init_apic_run [OF this cs8 us, where s = "lapic s0" and fires = "timer_fires M" and tsc = "time_stamps M"
      and base = "apic_enable M" and isr_addr = "timer_isr M" and rdtsc_addr = "rdtsc_isr M" and freq = freq]
  have "timer_int a = 33 \<and> regs a APIC_OFFS_LVT_TIMER = APIC_LVT_MASKED \<and>
      vector_owner (vectors u) = (vector_owner i)(33 := Some (timer_isr M)) \<and> (\<forall>k < 32. idt (vectors u) ! k = idt i ! k) \<and>
      idt_limit (vectors u) = Some 4095 \<and> set (idt (vectors u)) \<subseteq> built_gates 8"
    using run a(2) fresh(5, 6) cs by fastforce
  moreover have "vectors t = vectors u" "segments t = g" "lapic t = lapic u" by (simp_all add: u(2) a(1))
  ultimately show ?thesis
    using a(3, 4) fresh(1-4) serves_exceptions_init [of "cs_selector g" "vectors t" "handler_of M"] cs8
      built_gates_fields [OF cs8] subsetD [of "set (idt (vectors u))" "built_gates 8"]
    by (simp add: cs fun_upd_twist)
qed

definition demo_machine :: machine where
  "demo_machine = \<lparr>rsp0_at = 0xFFFFFF1000010000, tss_at = 0xFFFFFF1000020000, handler_of = (\<lambda>_. 0xFFFFFF1000001000),
     timer_isr = 0xFFFFFF1000002000, rdtsc_isr = 0xFFFFFF1000003000, apic_enable = 0xFEE00000, time_stamps = of_nat,
     timer_fires = True, descriptor_at = (\<lambda>_. \<lparr>Type = 0, PhysicalStart = 0, NumberOfPages = 0\<rparr>), font_face = None,
     glyph_of = (\<lambda>_. None), face_heap = Inr, print_heap = Inr,
     lerp_table = (\<lambda>_. \<lparr>blue = 0, green = 0, red = 0, reserved = 0\<rparr>), bar_latch = (\<lambda>_ _ v. v),
     done_read = (\<lambda>_. 0), count_read = (\<lambda>_. 0), ap_boot_image = [], kernel_start = 0xFFFFFF1000000000,
     tls_image_size = 0x40, working_read = of_nat\<rparr>"

definition demo_system :: system where
  "demo_system = \<lparr>
     segments = \<lparr>tss = \<lparr>rsp_0 = 0, rsp_1 = 0, rsp_2 = 0, ist = [], iomap_base = 0, iomap = 0\<rparr>, gdt = [0, 0, 0, 0],
       gdt_limit = 0, cs_selector = 0, task_register = 0\<rparr>,
     vectors = boot_idt, lapic = reset_apic,
     boot_inf = \<lparr>mmap_data = \<lparr>descriptors = 0, mmap_size = 0, descriptor_size = 0x30\<rparr>, gop_fb_info = fb_info small_screen,
       acpi_x_r_sdt = 0, tsc_freq_hz = 2000000000\<rparr>,
     kernel_mem = demo_space, phys_bytes = (\<lambda>_. 0), ap_boot_page = \<lparr>ap_boot_paddr_unset = False, ap_boot_paddr = 0x8000\<rparr>,
     screen = small_screen, acpi_tables = demo_acpi,
     pci_config = (\<lambda>_. \<lparr>vendor_id = 0xFFFF, command = 0, header_type = 0, bar_regs = (\<lambda>_. 0)\<rparr>),
     pci = \<lparr>groups = [], group_count = 0, devices_addr = 0, pci_devices = [], device_capacity = 0\<rparr>, ap_total = 2,
     tls_state = \<lparr>ap_tls = 0, ap_tls_used = 0, ap_mut = \<lparr>locked = False\<rparr>\<rparr>, init_stack = (0, 0, 0)\<rparr>"

lemma demo_system_fresh:
  "vectors_ok (vectors demo_system)" "\<forall>u \<in> set (int_used (vectors demo_system)). \<not> u" "apic_tsc_end (lapic demo_system) = 0"
  "timer_fires demo_machine \<and> time_stamps demo_machine (Suc (tsc_index (lapic demo_system))) \<noteq> 0 \<and>
    (\<exists>n. unat (ap_total demo_system) < unat (working_read demo_machine n))"
proof -
  have "unat (ap_total demo_system) < unat (working_read demo_machine 3)" by (simp add: demo_system_def demo_machine_def)
  then show "timer_fires demo_machine \<and> time_stamps demo_machine (Suc (tsc_index (lapic demo_system))) \<noteq> 0 \<and>
      (\<exists>n. unat (ap_total demo_system) < unat (working_read demo_machine n))"
    by (intro conjI exI [of _ 3]) (simp_all add: demo_system_def demo_machine_def reset_apic_def)
qed (simp_all add: demo_system_def reset_apic_def boot_idt_def vectors_ok_def IDT_ENTRY_COUNT_def)

theorem kernel_init_vectors_witness:
  "\<exists>t. kernel_init demo_machine None demo_system = Inr t \<and> timer_int (lapic t) = 33 \<and>
    vector_owner (vectors t) 33 = Some 0xFFFFFF1000002000"
proof -
  obtain t where t: "kernel_init demo_machine None demo_system = Inr t"
    using ap_init_run [OF demo_system_fresh(1-3), of demo_machine, unfolded if_P [OF demo_system_fresh(4)]] by blast
  from kernel_init_vectors [OF demo_system_fresh(1, 2) t] t show ?thesis by (simp add: demo_machine_def)
qed

text \<open>
  C37. When an application processor comes back from \<open>__kernel_init\<close>. It does when its timer interrupt stores a time
  stamp other than 0 and the number of working processors passes \<open>ap_count\<close> at one of the moments it
  looks; otherwise it stays in one of the two loops. Of what it shares with the others it changes the
  number of working processors only, by one; the mutex of the calls between processors is as it was.
\<close>

theorem kernel_init_ap_returns:
  assumes "vectors_ok (vectors s)" "\<forall>u \<in> set (int_used (vectors s)). \<not> u" "apic_tsc_end (lapic s) = 0"
  shows "if timer_fires M \<and> time_stamps M (Suc (tsc_index (lapic s))) \<noteq> 0 \<and> (\<exists>n. unat (ap_total s) < unat (working_read M n))
    then \<exists>t. kernel_init M None s = Inr t \<and> get_working_processor_count t = get_working_processor_count s + 1 \<and>
      t = s\<lparr>segments := segments t, vectors := vectors t, lapic := lapic t,
        kernel_mem := (kernel_mem s)\<lparr>working_processors := get_working_processor_count t\<rparr>\<rparr> \<and>
      ipcall_mtx (lapic t) = ipcall_mtx (lapic s)
    else kernel_init M None s = Inl Hang" (is "if ?c then _ else _")
proof -
  have frame: "t = s\<lparr>segments := segments t, vectors := vectors t, lapic := lapic t,
        kernel_mem := (kernel_mem s)\<lparr>working_processors := get_working_processor_count t\<rparr>\<rparr> \<and>
      get_working_processor_count t = get_working_processor_count s + 1 \<and> lapic t = a"
    if "t = count_processor (s\<lparr>segments := g, lapic := a, vectors := i\<rparr>)" for t g a i
    using that by (simp add: count_processor_def get_working_processor_count_def)
  show ?thesis
  proof (cases ?c)
    case True
    from ap_init_run [OF assms, of M, unfolded if_P [OF True]] obtain a i where
      "ipcall_mtx a = ipcall_mtx (lapic s)" "kernel_init M None s = Inr (count_processor (s\<lparr>segments := init_gdt (rsp0_at M) (tss_at M) (segments s), lapic := a, vectors := i\<rparr>))"
      by blast
    with frame [OF refl] show ?thesis unfolding if_P [OF True] by metis
  next
    case False
    from ap_init_run [OF assms, of M, unfolded if_not_P [OF False]] show ?thesis unfolding if_not_P [OF False] .
  qed
qed

theorem kernel_init_ap_returns_witness:
  "\<exists>t. kernel_init demo_machine None demo_system = Inr t \<and> get_working_processor_count t = get_working_processor_count demo_system + 1"
  using kernel_init_ap_returns [OF demo_system_fresh(1-3), of demo_machine, unfolded if_P [OF demo_system_fresh(4)]] by blast

end
