(* ===== verification/Boot_Paging.thy ===== *)
theory Boot_Paging
  imports Page_Tables
begin

text \<open>
  The boot loader's page tables, \<^verbatim>\<open>src/boot/paging.c\<close>. The loader runs with memory mapped to itself,
  so the tables are words by physical address and no page walk is involved in reaching them. The
  firmware's \<^verbatim>\<open>AllocatePages\<close> is a parameter: \<open>answers i\<close> is what its \<open>i\<close>-th call yields, an error
  status or a page. What the tables mean to the processor is \<open>walk\<close> of theory \<open>Paging\<close>.
\<close>

section \<open>Adding a mapping\<close>

datatype page_size = page_size_4K | page_size_2M | page_size_1G

type_synonym table_mem = "addr \<Rightarrow> u64"
type_synonym boot_state = "table_mem \<times> nat"

definition EFI_SUCCESS :: u64 where "EFI_SUCCESS = 0"

definition PML4_INDEX_OF :: "addr \<Rightarrow> u64" where "PML4_INDEX_OF v = drop_bit 39 v AND 511"
definition PDPT_INDEX_OF :: "addr \<Rightarrow> u64" where "PDPT_INDEX_OF v = drop_bit 30 v AND 511"
definition PD_INDEX_OF :: "addr \<Rightarrow> u64" where "PD_INDEX_OF v = drop_bit 21 v AND 511"
definition PT_INDEX_OF :: "addr \<Rightarrow> u64" where "PT_INDEX_OF v = drop_bit 12 v AND 511"

definition NEXT_STRUCT :: "u64 \<Rightarrow> addr" where "NEXT_STRUCT x = x AND 0xFFFFFFFFFFFFF000"

definition zero_table :: "addr \<Rightarrow> table_mem \<Rightarrow> table_mem" where
  "zero_table a m = fold (\<lambda>i m. m(a + 8 * of_nat i := 0)) [0..<512] m"

text \<open>The block that makes the entry at \<open>e\<close> point to a table, with the status it returns.\<close>

definition next_table :: "(nat \<Rightarrow> u64 + addr) \<Rightarrow> addr \<Rightarrow> boot_state \<Rightarrow> u64 \<times> boot_state" where
  "next_table answers e = (\<lambda>(m, i).
     if m e AND PAGING_FLAG_PRESENT = 0
     then case answers i of
         Inl status \<Rightarrow> (status, m, i + 1)
       | Inr a \<Rightarrow>
           let m = zero_table a m;
               m = m(e := a OR PAGING_FLAG_PRESENT OR PAGING_FLAG_READ_WRITE)
           in (EFI_SUCCESS, m(e := m e OR PAGING_FLAG_READ_WRITE), i + 1)
     else (EFI_SUCCESS, m(e := m e OR PAGING_FLAG_READ_WRITE), i))"

definition add_page_mapping ::
  "(nat \<Rightarrow> u64 + addr) \<Rightarrow> addr \<Rightarrow> addr \<Rightarrow> addr \<Rightarrow> page_size \<Rightarrow> boot_state \<Rightarrow> u64 \<times> boot_state" where
  "add_page_mapping answers pml4 vaddr paddr sz s =
     (let e3 = pml4 + 8 * PML4_INDEX_OF vaddr
      in case next_table answers e3 s of (status, m, i) \<Rightarrow>
      if status \<noteq> EFI_SUCCESS then (status, m, i)
      else let e2 = NEXT_STRUCT (m e3) + 8 * PDPT_INDEX_OF vaddr
      in if sz = page_size_1G
      then (EFI_SUCCESS, m(e2 := paddr OR PAGING_FLAG_PAGE_SIZE OR PAGING_FLAG_READ_WRITE OR PAGING_FLAG_PRESENT), i)
      else case next_table answers e2 (m, i) of (status, m, i) \<Rightarrow>
      if status \<noteq> EFI_SUCCESS then (status, m, i)
      else let e1 = NEXT_STRUCT (m e2) + 8 * PD_INDEX_OF vaddr
      in if sz = page_size_2M
      then (EFI_SUCCESS, m(e1 := paddr OR PAGING_FLAG_PAGE_SIZE OR PAGING_FLAG_READ_WRITE OR PAGING_FLAG_PRESENT), i)
      else case next_table answers e1 (m, i) of (status, m, i) \<Rightarrow>
      if status \<noteq> EFI_SUCCESS then (status, m, i)
      else let e0 = NEXT_STRUCT (m e1) + 8 * PT_INDEX_OF vaddr
      in (EFI_SUCCESS, m(e0 := paddr OR PAGING_FLAG_PRESENT OR PAGING_FLAG_READ_WRITE), i))"

section \<open>The tables on the way to a page\<close>

lemma index_entries:
  "t + 8 * PML4_INDEX_OF v = entry_of 3 t v" "t + 8 * PDPT_INDEX_OF v = entry_of 2 t v"
  "t + 8 * PD_INDEX_OF v = entry_of 1 t v" "t + 8 * PT_INDEX_OF v = entry_of 0 t v"
proof -
  have "(511 :: u64) = mask 9" by (simp add: mask_eq_exp_minus_1)
  then show "t + 8 * PML4_INDEX_OF v = entry_of 3 t v" "t + 8 * PDPT_INDEX_OF v = entry_of 2 t v"
    "t + 8 * PD_INDEX_OF v = entry_of 1 t v" "t + 8 * PT_INDEX_OF v = entry_of 0 t v"
    by (simp_all add: PML4_INDEX_OF_def PDPT_INDEX_OF_def PD_INDEX_OF_def PT_INDEX_OF_def entry_of_def pt_index_def)
qed

text \<open>An entry whose bits outside the frame and the low flags are clear, so that both readings agree.\<close>

definition plain_entry :: "u64 \<Rightarrow> bool" where
  "plain_entry e \<longleftrightarrow> bit e 0 \<and> \<not> bit e 7 \<and> NEXT_STRUCT e = e AND frame_mask"

text \<open>
  The tables for \<open>v\<close> from level \<open>l\<close> on, \<open>k\<close> levels down, as far as they are present; and that the
  entries between them are plain.
\<close>

fun table_path :: "table_mem \<Rightarrow> nat \<Rightarrow> nat \<Rightarrow> addr \<Rightarrow> addr \<Rightarrow> addr list" where
  "table_path m 0 l t v = [t]"
| "table_path m (Suc k) l t v =
     (let e = m (entry_of l t v) in t # (if bit e 0 then table_path m k (l - 1) (e AND frame_mask) v else []))"

fun plain_path :: "table_mem \<Rightarrow> nat \<Rightarrow> nat \<Rightarrow> addr \<Rightarrow> addr \<Rightarrow> bool" where
  "plain_path m 0 l t v = True"
| "plain_path m (Suc k) l t v =
     (let e = m (entry_of l t v) in bit e 0 \<longrightarrow> plain_entry e \<and> plain_path m k (l - 1) (e AND frame_mask) v)"

text \<open>
  What the loader relies on of \<^verbatim>\<open>AllocatePages\<close>: from its \<open>i\<close>-th call on, pages it yields are page
  frames that are not in use and not yielded twice, and an error has a status other than success.
\<close>

definition firmware_pages :: "(nat \<Rightarrow> u64 + addr) \<Rightarrow> nat \<Rightarrow> addr set \<Rightarrow> bool" where
  "firmware_pages answers i used \<longleftrightarrow> (\<forall>j \<ge> i. case answers j of
     Inl status \<Rightarrow> status \<noteq> EFI_SUCCESS
   | Inr a \<Rightarrow> is_frame a \<and> a \<notin> used \<and> (\<forall>k \<ge> i. k \<noteq> j \<longrightarrow> answers k \<noteq> Inr a))"

lemma zero_table_at:
  "zero_table a m x = (if \<exists>i < 512. x = a + 8 * of_nat i then 0 else m x)"
proof -
  have "fold (\<lambda>i m. m(a + 8 * of_nat i := 0)) [0..<n] m x = (if \<exists>i < n. x = a + 8 * of_nat i then 0 else m x)" for n
    by (induction n) (auto simp: less_Suc_eq)
  then show ?thesis by (simp add: zero_table_def)
qed

lemma zero_table_page:
  assumes "is_frame a"
  shows "zero_table a m (entry_of l a v) = 0" "page_of x \<noteq> a \<Longrightarrow> zero_table a m x = m x"
proof -
  show "zero_table a m (entry_of l a v) = 0" using entry_of_cell [of l a v] by (simp add: zero_table_at)
  show "zero_table a m x = m x" if "page_of x \<noteq> a"
    using that page_of_cell [OF assms] by (auto simp: zero_table_at)
qed

lemma new_entry_plain:
  assumes "is_frame a"
  shows "plain_entry (a OR PAGING_FLAG_PRESENT OR PAGING_FLAG_READ_WRITE)"
    "(a OR PAGING_FLAG_PRESENT OR PAGING_FLAG_READ_WRITE) AND frame_mask = a"
    "bit (a OR PAGING_FLAG_PRESENT OR PAGING_FLAG_READ_WRITE) 1"
proof -
  let ?e = "a OR PAGING_FLAG_PRESENT OR PAGING_FLAG_READ_WRITE"
  have b: "bit ?e n \<longleftrightarrow> n = 0 \<or> n = 1 \<or> bit a n" for n
    unfolding bit_or_iff flag_bits by auto
  show f: "?e AND frame_mask = a"
    by (rule bit_word_eqI) (auto simp: b bit_and_iff bit_frame_mask dest: frame_bit [OF assms])
  have "NEXT_STRUCT ?e = a" unfolding NEXT_STRUCT_def mask_consts
    by (rule bit_word_eqI) (auto simp: b bit_and_iff bit_not_iff bit_mask_iff dest: frame_bit [OF assms])
  with f show "plain_entry ?e" using frame_bit [OF assms, of 7] by (auto simp: plain_entry_def b)
  show "bit ?e 1" by (simp add: b)
qed

lemma plain_entry_RW:
  assumes "plain_entry e"
  shows "plain_entry (e OR PAGING_FLAG_READ_WRITE)" "(e OR PAGING_FLAG_READ_WRITE) AND frame_mask = e AND frame_mask"
proof -
  have b: "bit (e OR PAGING_FLAG_READ_WRITE) n \<longleftrightarrow> n = 1 \<or> bit e n" for n
    unfolding bit_or_iff flag_bits by auto
  show f: "(e OR PAGING_FLAG_READ_WRITE) AND frame_mask = e AND frame_mask"
    by (rule bit_word_eqI) (auto simp: b bit_and_iff bit_frame_mask)
  moreover have "NEXT_STRUCT (e OR PAGING_FLAG_READ_WRITE) = NEXT_STRUCT e" unfolding NEXT_STRUCT_def mask_consts
    by (rule bit_word_eqI) (auto simp: b bit_and_iff bit_not_iff bit_mask_iff)
  ultimately show "plain_entry (e OR PAGING_FLAG_READ_WRITE)" using assms by (auto simp: plain_entry_def b)
qed

lemma table_path_head: "\<exists>ts. table_path m k l t v = t # ts"
  by (cases k) (simp_all add: Let_def)

lemma table_path_cong_both:
  assumes "\<And>a. page_of a \<in> set (table_path m k l t v) \<Longrightarrow> m' a = m a" "is_frame t"
  shows "table_path m' k l t v = table_path m k l t v \<and> plain_path m' k l t v = plain_path m k l t v"
  using assms
proof (induction k arbitrary: l t)
  case (Suc k)
  let ?e = "m (entry_of l t v)" and ?t = "m (entry_of l t v) AND frame_mask"
  have e: "m' (entry_of l t v) = ?e" using Suc.prems by (simp add: Let_def)
  have fr: "is_frame ?t" by (simp add: is_frame_def and.assoc)
  have "table_path m' k (l - 1) ?t v = table_path m k (l - 1) ?t v \<and>
      plain_path m' k (l - 1) ?t v = plain_path m k (l - 1) ?t v" if "bit ?e 0"
    using Suc.IH [OF _ fr, of "l - 1"] Suc.prems(1) that by (simp add: Let_def)
  then show ?case by (auto simp: e Let_def)
qed simp

lemmas table_path_cong = table_path_cong_both [THEN conjunct1] table_path_cong_both [THEN conjunct2]

text \<open>
  The state between two levels: \<open>W\<close> are the tables already passed, \<open>t\<close> the next one, \<open>k\<close> levels to go.
\<close>

definition on_path :: "(nat \<Rightarrow> u64 + addr) \<Rightarrow> nat \<Rightarrow> nat \<Rightarrow> addr \<Rightarrow> addr \<Rightarrow> addr list \<Rightarrow> boot_state \<Rightarrow> bool" where
  "on_path answers k l t v W = (\<lambda>(m, i). is_frame t \<and> distinct (W @ table_path m k l t v) \<and> plain_path m k l t v \<and>
     firmware_pages answers i (set (W @ table_path m k l t v)))"

lemma firmware_pages_weaken:
  "firmware_pages answers i U \<Longrightarrow> V \<subseteq> U \<Longrightarrow> firmware_pages answers i V"
  unfolding firmware_pages_def by (fastforce split: sum.splits)

lemma firmware_pages_next:
  assumes "firmware_pages answers i U" "answers i = Inr a" "V \<subseteq> insert a U"
  shows "firmware_pages answers (i + 1) V" "is_frame a" "a \<notin> U"
proof -
  have i: "is_frame a \<and> a \<notin> U \<and> (\<forall>k \<ge> i. k \<noteq> i \<longrightarrow> answers k \<noteq> Inr a)"
    using assms(1) [unfolded firmware_pages_def, rule_format, of i] assms(2) by simp
  then show "is_frame a" "a \<notin> U" by auto
  show "firmware_pages answers (i + 1) V" unfolding firmware_pages_def
  proof (intro allI impI)
    fix j assume j: "i + 1 \<le> j"
    with assms(1) have "case answers j of Inl status \<Rightarrow> status \<noteq> EFI_SUCCESS
      | Inr b \<Rightarrow> is_frame b \<and> b \<notin> U \<and> (\<forall>k \<ge> i. k \<noteq> j \<longrightarrow> answers k \<noteq> Inr b)" by (simp add: firmware_pages_def)
    moreover have "answers j \<noteq> Inr a" using i j by simp
    ultimately show "case answers j of Inl status \<Rightarrow> status \<noteq> EFI_SUCCESS
      | Inr b \<Rightarrow> is_frame b \<and> b \<notin> V \<and> (\<forall>k \<ge> i + 1. k \<noteq> j \<longrightarrow> answers k \<noteq> Inr b)"
      using assms(3) by (auto split: sum.splits)
  qed
qed

lemma next_table_ok:
  assumes ok: "on_path answers (Suc k) l t v W (m, i)"
    and run: "next_table answers (entry_of l t v) (m, i) = (EFI_SUCCESS, m', i')"
  shows "plain_entry (m' (entry_of l t v))" "bit (m' (entry_of l t v)) 1"
    "on_path answers k (l - 1) (NEXT_STRUCT (m' (entry_of l t v))) v (W @ [t]) (m', i')"
    "\<And>a. page_of a \<in> set W \<Longrightarrow> m' a = m a"
proof -
  let ?e = "entry_of l t v"
  have t: "is_frame t" using ok by (simp add: on_path_def)
  have "plain_entry (m' ?e) \<and> bit (m' ?e) 1 \<and> on_path answers k (l - 1) (NEXT_STRUCT (m' ?e)) v (W @ [t]) (m', i') \<and>
    (\<forall>a. page_of a \<in> set W \<longrightarrow> m' a = m a)"
  proof (cases "bit (m ?e) 0")
    case True
    then have m': "m' = m(?e := m ?e OR PAGING_FLAG_READ_WRITE)" "i' = i"
      using run present_iff [of "m ?e"] by (auto simp: next_table_def)
    have p: "plain_entry (m ?e)" using ok True by (simp add: on_path_def Let_def)
    let ?t = "m ?e AND frame_mask"
    have nx: "NEXT_STRUCT (m' ?e) = ?t" using plain_entry_RW [OF p] by (simp add: m' plain_entry_def)
    have fr: "is_frame ?t" by (simp add: is_frame_def and.assoc)
    have path: "table_path m (Suc k) l t v = t # table_path m k (l - 1) ?t v" using True by (simp add: Let_def)
    then have d: "t \<notin> set (table_path m k (l - 1) ?t v)" "t \<notin> set W" using ok by (auto simp: on_path_def)
    have same: "m' a = m a" if "page_of a \<noteq> t" for a using that t by (auto simp: m')
    have "table_path m' k (l - 1) ?t v = table_path m k (l - 1) ?t v" "plain_path m' k (l - 1) ?t v = plain_path m k (l - 1) ?t v"
      using d(1) same by (intro table_path_cong fr; metis)+
    then have "on_path answers k (l - 1) ?t v (W @ [t]) (m', i')"
      using ok fr True path by (simp add: on_path_def m'(2) Let_def)
    moreover have "m' a = m a" if "page_of a \<in> set W" for a using that d(2) same by metis
    ultimately show ?thesis using plain_entry_RW(1) [OF p] nx by (simp add: m'(1))
  next
    case False
    then obtain a where a: "answers i = Inr a"
      and m': "m' = (zero_table a m)(?e := a OR PAGING_FLAG_PRESENT OR PAGING_FLAG_READ_WRITE)" "i' = i + 1"
      using run present_iff [of "m ?e"] ok
      by (auto simp: next_table_def on_path_def firmware_pages_def Let_def or.assoc split: sum.splits)
    have path: "table_path m (Suc k) l t v = [t]" using False by (simp add: Let_def)
    let ?U = "set (W @ [t])"
    have fw: "firmware_pages answers i ?U" and dW: "distinct (W @ [t])" using ok path by (simp_all add: on_path_def)
    note fa = firmware_pages_next [OF fw a subset_refl]
    note pl = new_entry_plain [OF fa(2)]
    have nx: "NEXT_STRUCT (m' ?e) = a" using pl(1, 2) by (simp add: m' plain_entry_def)
    have "a \<noteq> t" "a \<notin> set W" using fa(3) by auto
    have "m' (entry_of (l - 1) a v) = 0"
    proof -
      have "entry_of (l - 1) a v \<noteq> ?e" using page_of_entry [OF t, of l v] page_of_entry [OF fa(2), of "l - 1" v] \<open>a \<noteq> t\<close> by auto
      then show ?thesis using zero_table_page(1) [OF fa(2)] by (simp add: m')
    qed
    then have "table_path m' k (l - 1) a v = [a]" "plain_path m' k (l - 1) a v" by (cases k; simp add: Let_def)+
    then have "on_path answers k (l - 1) a v (W @ [t]) (m', i')"
      using dW fa \<open>a \<noteq> t\<close> \<open>a \<notin> set W\<close> by (auto simp: on_path_def m'(2) insert_commute)
    moreover have "m' x = m x" if "page_of x \<in> set W" for x
    proof -
      have "x \<noteq> ?e" using that dW page_of_entry [OF t] by auto
      moreover have "page_of x \<noteq> a" using that \<open>a \<notin> set W\<close> by auto
      ultimately show ?thesis using zero_table_page(2) [OF fa(2)] by (simp add: m')
    qed
    ultimately show ?thesis using pl nx by (simp add: m'(1))
  qed
  then show "plain_entry (m' ?e)" "bit (m' ?e) 1" "on_path answers k (l - 1) (NEXT_STRUCT (m' ?e)) v (W @ [t]) (m', i')"
    "\<And>a. page_of a \<in> set W \<Longrightarrow> m' a = m a" by auto
qed

section \<open>What the processor makes of the tables\<close>

fun table_levels :: "page_size \<Rightarrow> nat" where
  "table_levels page_size_4K = 3" | "table_levels page_size_2M = 2" | "table_levels page_size_1G = 1"

fun page_bits :: "page_size \<Rightarrow> nat" where
  "page_bits page_size_4K = 12" | "page_bits page_size_2M = 21" | "page_bits page_size_1G = 30"

lemma next_table_status:
  "fst (next_table answers e (m, i)) = EFI_SUCCESS \<or> answers i = Inl (fst (next_table answers e (m, i))) \<and>
     snd (snd (next_table answers e (m, i))) = i + 1"
  by (auto simp: next_table_def Let_def split: sum.splits)

lemma next_table_index: "snd (snd (next_table answers e (m, i))) \<le> i + 1"
  by (auto simp: next_table_def Let_def split: sum.splits)

lemma leaf_entry:
  assumes "paddr AND frame_mask AND NOT (mask b) = paddr" "12 \<le> b"
  shows "(paddr OR PAGING_FLAG_PRESENT OR PAGING_FLAG_READ_WRITE) AND frame_mask = paddr"
    "(paddr OR PAGING_FLAG_PAGE_SIZE OR PAGING_FLAG_READ_WRITE OR PAGING_FLAG_PRESENT) AND frame_mask AND NOT (mask b) = paddr"
    "bit (paddr OR PAGING_FLAG_PRESENT OR PAGING_FLAG_READ_WRITE) 0" "bit (paddr OR PAGING_FLAG_PRESENT OR PAGING_FLAG_READ_WRITE) 1"
    "bit (paddr OR PAGING_FLAG_PAGE_SIZE OR PAGING_FLAG_READ_WRITE OR PAGING_FLAG_PRESENT) 0"
    "bit (paddr OR PAGING_FLAG_PAGE_SIZE OR PAGING_FLAG_READ_WRITE OR PAGING_FLAG_PRESENT) 1"
    "bit (paddr OR PAGING_FLAG_PAGE_SIZE OR PAGING_FLAG_READ_WRITE OR PAGING_FLAG_PRESENT) 7"
proof -
  have p: "12 \<le> n \<and> n < 52 \<and> b \<le> n" if "bit paddr n" for n
    using that assms(1) by (metis bit_and_iff bit_frame_mask bit_mask_iff bit_not_iff not_le bit_imp_le_length)
  show "(paddr OR PAGING_FLAG_PRESENT OR PAGING_FLAG_READ_WRITE) AND frame_mask = paddr"
    by (rule bit_word_eqI) (auto simp: bit_and_iff bit_or_iff bit_frame_mask flag_bits dest: p)
  show "(paddr OR PAGING_FLAG_PAGE_SIZE OR PAGING_FLAG_READ_WRITE OR PAGING_FLAG_PRESENT) AND frame_mask AND NOT (mask b) = paddr"
    by (rule bit_word_eqI)
      (auto simp: bit_and_iff bit_or_iff bit_not_iff bit_mask_iff bit_frame_mask flag_bits not_less dest: p)
  show "bit (paddr OR PAGING_FLAG_PRESENT OR PAGING_FLAG_READ_WRITE) 0" "bit (paddr OR PAGING_FLAG_PRESENT OR PAGING_FLAG_READ_WRITE) 1"
    "bit (paddr OR PAGING_FLAG_PAGE_SIZE OR PAGING_FLAG_READ_WRITE OR PAGING_FLAG_PRESENT) 0"
    "bit (paddr OR PAGING_FLAG_PAGE_SIZE OR PAGING_FLAG_READ_WRITE OR PAGING_FLAG_PRESENT) 1"
    "bit (paddr OR PAGING_FLAG_PAGE_SIZE OR PAGING_FLAG_READ_WRITE OR PAGING_FLAG_PRESENT) 7"
    unfolding bit_or_iff flag_bits by simp_all
qed

text \<open>Writing the last entry leaves the entries of the tables above it.\<close>

lemma on_path_last:
  assumes "on_path answers k l t v W (m, i)" "page_of a \<in> set W"
  shows "(m(entry_of l t v := x)) a = m a"
proof -
  obtain ts where "table_path m k l t v = t # ts" using table_path_head by blast
  with assms have "page_of a \<noteq> t" "is_frame t" by (auto simp: on_path_def)
  then show ?thesis by auto
qed

lemma next_table_step:
  assumes "on_path answers k' l t v W (m, i)" "next_table answers (entry_of l t v) (m, i) = (EFI_SUCCESS, m', i')"
    "k' = Suc k" "l = Suc l'"
  shows "plain_entry (m' (entry_of l t v))" "bit (m' (entry_of l t v)) 1"
    "on_path answers k l' (NEXT_STRUCT (m' (entry_of l t v))) v (W @ [t]) (m', i')"
    "\<And>a. page_of a \<in> set W \<Longrightarrow> m' a = m a"
  using next_table_ok [of answers k l t v W m i m' i'] assms by simp_all

lemma walk_table:
  assumes "plain_entry x" "bit x 1"
  shows "m (entry_of 3 t v) = x \<Longrightarrow> walk m 3 t v = walk m 2 (NEXT_STRUCT x) v"
    "m (entry_of 2 t v) = x \<Longrightarrow> walk m 2 t v = walk m 1 (NEXT_STRUCT x) v"
    "m (entry_of 1 t v) = x \<Longrightarrow> walk m 1 t v = walk m 0 (NEXT_STRUCT x) v"
proof -
  have id: "map_option (\<lambda>(w, p). (w, p)) r = r" for r :: "(bool \<times> addr) option" by (cases r) auto
  show "m (entry_of 3 t v) = x \<Longrightarrow> walk m 3 t v = walk m 2 (NEXT_STRUCT x) v"
    "m (entry_of 2 t v) = x \<Longrightarrow> walk m 2 t v = walk m 1 (NEXT_STRUCT x) v"
    "m (entry_of 1 t v) = x \<Longrightarrow> walk m 1 t v = walk m 0 (NEXT_STRUCT x) v"
    using assms by (auto simp: walk_levels Let_def plain_entry_def id simp del: One_nat_def)
qed

lemma add_page_mapping_1G:
  assumes "on_path answers 1 3 pml4 v [] (m, i)" "p AND frame_mask AND NOT (mask 30) = p"
    "next_table answers (entry_of 3 pml4 v) (m, i) = (EFI_SUCCESS, m1, i1)"
  shows "walk (m1(entry_of 2 (NEXT_STRUCT (m1 (entry_of 3 pml4 v))) v := p OR PAGING_FLAG_PAGE_SIZE OR PAGING_FLAG_READ_WRITE OR PAGING_FLAG_PRESENT))
    3 pml4 v = Some (True, p OR (v AND mask 30))"
proof -
  let ?x = "p OR PAGING_FLAG_PAGE_SIZE OR PAGING_FLAG_READ_WRITE OR PAGING_FLAG_PRESENT"
  let ?t2 = "NEXT_STRUCT (m1 (entry_of 3 pml4 v))"
  let ?m = "m1(entry_of 2 ?t2 v := ?x)"
  note n1 = next_table_step [OF assms(1, 3), of 0 2, OF One_nat_def eval_nat_numeral(3)]
  have fr: "is_frame pml4" using assms(1) by (simp only: on_path_def prod.case)
  have "?m (entry_of 3 pml4 v) = m1 (entry_of 3 pml4 v)"
    by (rule on_path_last [OF n1(3)]) (simp add: fr)
  from walk_table(1) [where m = ?m and t = pml4, OF n1(1, 2) this] show ?thesis
    using leaf_entry [OF assms(2)] by (simp add: walk_levels(2) Let_def)
qed

lemma add_page_mapping_2M:
  assumes "on_path answers 2 3 pml4 v [] (m, i)" "p AND frame_mask AND NOT (mask 21) = p"
    and s1: "next_table answers (entry_of 3 pml4 v) (m, i) = (EFI_SUCCESS, m1, i1)"
    and t2: "t2 = NEXT_STRUCT (m1 (entry_of 3 pml4 v))"
    and s2: "next_table answers (entry_of 2 t2 v) (m1, i1) = (EFI_SUCCESS, m2, i2)"
    and t1: "t1 = NEXT_STRUCT (m2 (entry_of 2 t2 v))"
  shows "walk (m2(entry_of 1 t1 v := p OR PAGING_FLAG_PAGE_SIZE OR PAGING_FLAG_READ_WRITE OR PAGING_FLAG_PRESENT)) 3 pml4 v
    = Some (True, p OR (v AND mask 21))"
proof -
  let ?x = "p OR PAGING_FLAG_PAGE_SIZE OR PAGING_FLAG_READ_WRITE OR PAGING_FLAG_PRESENT"
  let ?m = "m2(entry_of 1 t1 v := ?x)"
  have k: "(2 :: nat) = Suc 1" "(3 :: nat) = Suc 2" by simp_all
  note n1 = next_table_step [OF assms(1) s1 k, folded t2]
  note n2 = next_table_step [OF n1(3) s2 One_nat_def k(1), folded t1]
  have fr: "is_frame pml4" "is_frame t2" using assms(1) n1(3) by (simp_all only: on_path_def prod.case)
  have e2: "?m (entry_of 2 t2 v) = m2 (entry_of 2 t2 v)" by (rule on_path_last [OF n2(3)]) (simp add: fr)
  have "?m (entry_of 3 pml4 v) = m2 (entry_of 3 pml4 v)" by (rule on_path_last [OF n2(3)]) (simp add: fr)
  also have "\<dots> = m1 (entry_of 3 pml4 v)" by (rule n2(4)) (simp add: fr)
  finally have e3: "?m (entry_of 3 pml4 v) = m1 (entry_of 3 pml4 v)" .
  have "walk ?m 3 pml4 v = walk ?m 1 t1 v"
    unfolding walk_table(1) [where m = ?m and t = pml4, OF n1(1, 2) e3, folded t2] by (rule walk_table(2) [where m = ?m and t = t2, OF n2(1, 2) e2, folded t1])
  also have "\<dots> = Some (True, p OR (v AND mask 21))"
    using leaf_entry [OF assms(2)] by (simp add: walk_levels(3) Let_def del: One_nat_def)
  finally show ?thesis .
qed

lemma add_page_mapping_4K:
  assumes "on_path answers 3 3 pml4 v [] (m, i)" "p AND frame_mask AND NOT (mask 12) = p"
    and s1: "next_table answers (entry_of 3 pml4 v) (m, i) = (EFI_SUCCESS, m1, i1)"
    and t2: "t2 = NEXT_STRUCT (m1 (entry_of 3 pml4 v))"
    and s2: "next_table answers (entry_of 2 t2 v) (m1, i1) = (EFI_SUCCESS, m2, i2)"
    and t1: "t1 = NEXT_STRUCT (m2 (entry_of 2 t2 v))"
    and s3: "next_table answers (entry_of 1 t1 v) (m2, i2) = (EFI_SUCCESS, m3, i3)"
    and t0: "t0 = NEXT_STRUCT (m3 (entry_of 1 t1 v))"
  shows "walk (m3(entry_of 0 t0 v := p OR PAGING_FLAG_PRESENT OR PAGING_FLAG_READ_WRITE)) 3 pml4 v
    = Some (True, p OR (v AND mask 12))"
proof -
  let ?x = "p OR PAGING_FLAG_PRESENT OR PAGING_FLAG_READ_WRITE"
  let ?m = "m3(entry_of 0 t0 v := ?x)"
  have k: "(2 :: nat) = Suc 1" "(3 :: nat) = Suc 2" by simp_all
  note n1 = next_table_step [OF assms(1) s1 k(2, 2), folded t2]
  note n2 = next_table_step [OF n1(3) s2 k(1, 1), folded t1]
  note n3 = next_table_step [OF n2(3) s3 One_nat_def One_nat_def, folded t0]
  have fr: "is_frame pml4" "is_frame t2" "is_frame t1" using assms(1) n1(3) n2(3) by (simp_all only: on_path_def prod.case)
  have last: "?m (entry_of 3 pml4 v) = m3 (entry_of 3 pml4 v)" "?m (entry_of 2 t2 v) = m3 (entry_of 2 t2 v)"
    "?m (entry_of 1 t1 v) = m3 (entry_of 1 t1 v)"
    by (rule on_path_last [OF n3(3)]; simp add: fr)+
  moreover have "m3 (entry_of 3 pml4 v) = m2 (entry_of 3 pml4 v)" "m3 (entry_of 2 t2 v) = m2 (entry_of 2 t2 v)"
    by (rule n3(4); simp add: fr)+
  moreover have "m2 (entry_of 3 pml4 v) = m1 (entry_of 3 pml4 v)" by (rule n2(4)) (simp add: fr)
  ultimately have e: "?m (entry_of 3 pml4 v) = m1 (entry_of 3 pml4 v)" "?m (entry_of 2 t2 v) = m2 (entry_of 2 t2 v)"
    "?m (entry_of 1 t1 v) = m3 (entry_of 1 t1 v)" by (simp_all only:)
  have "walk ?m 3 pml4 v = walk ?m 0 t0 v"
    unfolding walk_table(1) [where m = ?m and t = pml4, OF n1(1, 2) e(1), folded t2] walk_table(2) [where m = ?m and t = t2, OF n2(1, 2) e(2), folded t1]
    by (rule walk_table(3) [where m = ?m and t = t1, OF n3(1, 2) e(3), folded t0])
  also have "\<dots> = Some (True, p OR (v AND mask 12))"
    using leaf_entry [OF assms(2)] by (simp add: walk_levels(4) Let_def del: walk.simps)
  finally show ?thesis .
qed

text \<open>
  \<open>add_page_mapping\<close> for a page of any of the three sizes: it fails only with an error the firmware
  reported, and otherwise the processor finds \<open>vaddr\<close>, and the rest of the page it is in, writable at
  \<open>paddr\<close>, whichever of the tables on the way existed before.
\<close>

theorem add_page_mapping_translates:
  assumes "on_path answers (table_levels sz) 3 pml4 vaddr [] (m, i)"
    "paddr AND frame_mask AND NOT (mask (page_bits sz)) = paddr"
  shows "case add_page_mapping answers pml4 vaddr paddr sz (m, i) of (status, m', i') \<Rightarrow>
    if status = EFI_SUCCESS then walk m' 3 pml4 vaddr = Some (True, paddr OR (vaddr AND mask (page_bits sz)))
    else \<exists>j. i \<le> j \<and> j < i + 3 \<and> answers j = Inl status"
proof -
  obtain st1 m1 i1 where r1: "next_table answers (entry_of 3 pml4 vaddr) (m, i) = (st1, m1, i1)" by (metis surj_pair)
  note x1 = next_table_status [of answers "entry_of 3 pml4 vaddr" m i, unfolded r1, simplified]
  define t2 where "t2 = NEXT_STRUCT (m1 (entry_of 3 pml4 vaddr))"
  obtain st2 m2 i2 where r2: "next_table answers (entry_of 2 t2 vaddr) (m1, i1) = (st2, m2, i2)" by (metis surj_pair)
  note x2 = next_table_status [of answers "entry_of 2 t2 vaddr" m1 i1, unfolded r2, simplified]
  define t1 where "t1 = NEXT_STRUCT (m2 (entry_of 2 t2 vaddr))"
  obtain st3 m3 i3 where r3: "next_table answers (entry_of 1 t1 vaddr) (m2, i2) = (st3, m3, i3)" by (metis surj_pair)
  note x3 = next_table_status [of answers "entry_of 1 t1 vaddr" m2 i2, unfolded r3, simplified]
  have le: "i \<le> i1" "i1 \<le> i + 1" "i1 \<le> i2" "i2 \<le> i1 + 1"
    using r1 r2 by (auto simp: next_table_def Let_def split: sum.splits if_splits)
  note call = add_page_mapping_def index_entries Let_def r1 prod.case
  show ?thesis
  proof (cases "st1 = EFI_SUCCESS")
    case False
    with x1 show ?thesis unfolding call by auto
  next
    case s1: True
    note one = r1 [unfolded s1]
    show ?thesis
    proof (cases "sz = page_size_1G")
      case True
      with add_page_mapping_1G [OF _ _ one, of paddr] assms s1 show ?thesis
        unfolding call by simp
    next
      case big: False
      show ?thesis
      proof (cases "st2 = EFI_SUCCESS")
        case False
        with x2 le s1 big show ?thesis unfolding call t2_def [symmetric] r2 by (auto intro!: exI [of _ i1])
      next
        case s2: True
        note two = r2 [unfolded s2]
        show ?thesis
        proof (cases "sz = page_size_2M")
          case True
          with add_page_mapping_2M [OF _ _ one t2_def two t1_def, of paddr] assms s1 s2 show ?thesis
            unfolding call t2_def [symmetric] r2 t1_def [symmetric] by simp
        next
          case small: False
          with big have sz: "sz = page_size_4K" by (cases sz) simp_all
          show ?thesis
          proof (cases "st3 = EFI_SUCCESS")
            case False
            with x3 le s1 s2 sz show ?thesis
              unfolding call t2_def [symmetric] r2 t1_def [symmetric] r3 by (auto intro!: exI [of _ i2])
          next
            case True
            with add_page_mapping_4K [OF _ _ one t2_def two t1_def r3 [unfolded True] refl, of paddr] assms s1 s2 sz
            show ?thesis unfolding call t2_def [symmetric] r2 t1_def [symmetric] r3 by simp
          qed
        qed
      qed
    qed
  qed
qed

text \<open>An empty PML4, and firmware that has three more pages.\<close>

definition three_pages :: "nat \<Rightarrow> u64 + addr" where
  "three_pages i = (if i = 0 then Inr 0x2000 else if i = 1 then Inr 0x3000 else if i = 2 then Inr 0x4000 else Inl 9)"

lemma empty_tables_on_path: "on_path three_pages (table_levels page_size_4K) 3 0x1000 0xFFFFFF1000002000 [] (\<lambda>_. 0, 0)"
proof -
  have "table_path (\<lambda>_. 0) 3 3 0x1000 v = [0x1000]" "plain_path (\<lambda>_. 0) 3 3 0x1000 v" for v
    by (simp_all add: numeral_3_eq_3)
  moreover have "is_frame 0x1000" "is_frame 0x2000" "is_frame 0x3000" "is_frame 0x4000"
    by (simp_all add: is_frame_def frame_mask_def)
  ultimately show ?thesis by (auto simp: on_path_def firmware_pages_def three_pages_def EFI_SUCCESS_def)
qed

theorem add_page_mapping_translates_witness:
  "case add_page_mapping three_pages 0x1000 0xFFFFFF1000002000 0x9000 page_size_4K (\<lambda>_. 0, 0) of (status, m', i') \<Rightarrow>
    status = EFI_SUCCESS \<and> walk m' 3 0x1000 0xFFFFFF1000002000 = Some (True, 0x9000)"
proof -
  obtain st m' i' where r: "add_page_mapping three_pages 0x1000 0xFFFFFF1000002000 0x9000 page_size_4K (\<lambda>_. 0, 0) = (st, m', i')"
    by (metis surj_pair)
  have p: "(0x9000 :: addr) AND frame_mask AND NOT (mask (page_bits page_size_4K)) = 0x9000"
    "(0x9000 :: addr) OR (0xFFFFFF1000002000 AND mask (page_bits page_size_4K)) = 0x9000"
    by (simp_all add: frame_mask_def mask_eq_exp_minus_1)
  have "st = EFI_SUCCESS" if "\<exists>j < 3. three_pages j = Inl st"
    using that by (auto simp: three_pages_def split: if_splits)
  with add_page_mapping_translates [OF empty_tables_on_path p(1), unfolded r p(2) prod.case] show ?thesis
    unfolding r prod.case by (cases "st = EFI_SUCCESS") auto
qed

end
