(* ===== verification/Boot_Tables.thy ===== *)
theory Boot_Tables
  imports Boot_Paging
begin

text \<open>
  The page tables of the boot loader as a trie. The loader fills one PML4 entry with tables of its
  own; they form a tree, each table reached at one depth and from one stretch of addresses
  (\<open>loader_tables\<close>). The abstract view of such tables is the map \<open>leaf\<close> from a depth and an address to
  the entry that ends the walk there, and \<open>add_page_mapping\<close> of \<^verbatim>\<open>src/boot/paging.c\<close> updates this map
  at the page given and nowhere else, for each of the three page sizes.
\<close>

section \<open>Tables by depth\<close>

text \<open>The addresses of the loader's PML4 entry, 510: the direct map and the kernel.\<close>

definition kernel_half :: "addr \<Rightarrow> bool" where
  "kernel_half v \<longleftrightarrow> drop_bit 39 v = 0x1FFFFFE"

text \<open>Addresses that share the first \<open>d\<close> table indices.\<close>

definition same_upto :: "nat \<Rightarrow> addr \<Rightarrow> addr \<Rightarrow> bool" where
  "same_upto d u v \<longleftrightarrow> drop_bit (48 - 9 * d) u = drop_bit (48 - 9 * d) v"

definition leaf :: "table_mem \<Rightarrow> addr \<Rightarrow> nat \<Rightarrow> addr \<Rightarrow> u64 option" where
  "leaf m p d v = (case table_at m p d v of None \<Rightarrow> None | Some t \<Rightarrow>
     let e = m (entry_of (3 - d) t v) in if bit e 0 \<and> (d = 3 \<or> bit e 7) then Some e else None)"

lemma same_upto_refl [simp]: "same_upto d v v"
  by (simp add: same_upto_def)

lemma same_upto_sym: "same_upto d u v \<Longrightarrow> same_upto d v u"
  by (simp add: same_upto_def)

lemma same_upto_trans: "same_upto d u v \<Longrightarrow> same_upto d v w \<Longrightarrow> same_upto d u w"
  by (simp add: same_upto_def)

lemma same_upto_bits: "same_upto d u v \<longleftrightarrow> (\<forall>n \<ge> 48 - 9 * d. bit u n = bit v n)"
proof
  assume eq: "same_upto d u v"
  show "\<forall>n \<ge> 48 - 9 * d. bit u n = bit v n"
  proof (intro allI impI)
    fix n assume "48 - 9 * d \<le> n"
    then have "bit (drop_bit (48 - 9 * d) u) (n - (48 - 9 * d)) = bit u n"
      "bit (drop_bit (48 - 9 * d) v) (n - (48 - 9 * d)) = bit v n" by (simp_all add: bit_drop_bit_eq)
    with eq show "bit u n = bit v n" by (simp add: same_upto_def)
  qed
next
  assume "\<forall>n \<ge> 48 - 9 * d. bit u n = bit v n"
  then show "same_upto d u v" unfolding same_upto_def by (intro bit_word_eqI) (simp add: bit_drop_bit_eq)
qed

lemma same_upto_mono: "same_upto d u v \<Longrightarrow> k \<le> d \<Longrightarrow> same_upto k u v"
  by (auto simp: same_upto_bits)

lemma pt_index_bits: "pt_index l u = pt_index l v \<longleftrightarrow> (\<forall>n. 12 + 9 * l \<le> n \<and> n < 21 + 9 * l \<longrightarrow> bit u n = bit v n)"
proof -
  have b: "bit (pt_index l w) k \<longleftrightarrow> k < 9 \<and> bit w (12 + 9 * l + k)" for w :: addr and k
    by (auto simp: pt_index_def bit_and_iff bit_mask_iff bit_drop_bit_eq add.commute dest: bit_imp_le_length)
  show ?thesis
  proof
    assume eq: "pt_index l u = pt_index l v"
    show "\<forall>n. 12 + 9 * l \<le> n \<and> n < 21 + 9 * l \<longrightarrow> bit u n = bit v n"
    proof (intro allI impI)
      fix n assume n: "12 + 9 * l \<le> n \<and> n < 21 + 9 * l"
      then show "bit u n = bit v n" using b [of u "n - (12 + 9 * l)"] b [of v "n - (12 + 9 * l)"] eq by auto
    qed
  next
    assume "\<forall>n. 12 + 9 * l \<le> n \<and> n < 21 + 9 * l \<longrightarrow> bit u n = bit v n"
    then show "pt_index l u = pt_index l v" by (intro bit_word_eqI) (auto simp: b)
  qed
qed

lemma same_upto_Suc:
  assumes "d \<le> 3"
  shows "same_upto (Suc d) u v \<longleftrightarrow> same_upto d u v \<and> pt_index (3 - d) u = pt_index (3 - d) v"
proof -
  have *: "48 - 9 * Suc d = 12 + 9 * (3 - d)" "48 - 9 * d = 21 + 9 * (3 - d)" using assms by simp_all
  have "12 + 9 * l \<le> n \<longleftrightarrow> 21 + 9 * l \<le> n \<or> 12 + 9 * l \<le> n \<and> n < 21 + 9 * l" for l n :: nat by auto
  then show ?thesis unfolding same_upto_bits pt_index_bits * by blast
qed

lemma table_at_cong:
  assumes "same_upto d u v" "d \<le> 4"
  shows "table_at m p d u = table_at m p d v"
  using assms
proof (induction d)
  case (Suc d)
  then have d: "d \<le> 3" "same_upto d u v" "pt_index (3 - d) u = pt_index (3 - d) v" using same_upto_Suc by auto
  then have "table_at m p d u = table_at m p d v" using Suc.IH by simp
  then show ?case by (simp add: entry_of_cong [OF d(3)] split: option.split)
qed simp

section \<open>The invariant\<close>

text \<open>The tables the loader's addresses go through.\<close>

definition loader_pages :: "table_mem \<Rightarrow> addr \<Rightarrow> addr set" where
  "loader_pages m p = {t. \<exists>u d. kernel_half u \<and> d \<le> 3 \<and> table_at m p d u = Some t}"

text \<open>An entry of the loader: writable where it is present, and its address read alike by both sides.\<close>

definition loader_entry :: "u64 \<Rightarrow> nat \<Rightarrow> bool" where
  "loader_entry e d \<longleftrightarrow> (bit e 0 \<longrightarrow> bit e 1 \<and> (d < 3 \<and> \<not> bit e 7 \<longrightarrow> NEXT_STRUCT e = e AND frame_mask))"

definition table_tree :: "table_mem \<Rightarrow> addr \<Rightarrow> bool" where
  "table_tree m p \<longleftrightarrow> is_frame p \<and>
     (\<forall>u v d k t. kernel_half u \<and> kernel_half v \<and> d \<le> 3 \<and> k \<le> 3 \<and>
        table_at m p d u = Some t \<and> table_at m p k v = Some t \<longrightarrow> d = k \<and> same_upto d u v) \<and>
     (\<forall>u d t. kernel_half u \<and> d \<le> 3 \<and> table_at m p d u = Some t \<longrightarrow> loader_entry (m (entry_of (3 - d) t u)) d)"

definition loader_tables :: "(nat \<Rightarrow> u64 + addr) \<Rightarrow> addr \<Rightarrow> boot_state \<Rightarrow> bool" where
  "loader_tables answers p = (\<lambda>(m, i). table_tree m p \<and> firmware_pages answers i (loader_pages m p))"

lemma table_treeD:
  assumes "table_tree m p"
  shows "is_frame p"
    "kernel_half u \<Longrightarrow> kernel_half v \<Longrightarrow> d \<le> 3 \<Longrightarrow> k \<le> 3 \<Longrightarrow> table_at m p d u = Some t \<Longrightarrow> table_at m p k v = Some t \<Longrightarrow>
       d = k \<and> same_upto d u v"
    "kernel_half u \<Longrightarrow> d \<le> 3 \<Longrightarrow> table_at m p d u = Some t \<Longrightarrow> loader_entry (m (entry_of (3 - d) t u)) d"
  using assms unfolding table_tree_def by blast+

text \<open>Two addresses use the same entry exactly if they agree up to it.\<close>

lemma same_entry_iff:
  assumes "table_tree m p" "kernel_half u" "kernel_half v" "k \<le> 3" "d \<le> 3"
    and "table_at m p k u = Some s" "table_at m p d v = Some t"
  shows "entry_of (3 - k) s u = entry_of (3 - d) t v \<longleftrightarrow> k = d \<and> same_upto (Suc d) u v"
proof
  assume eq: "entry_of (3 - k) s u = entry_of (3 - d) t v"
  have fr: "is_frame s" "is_frame t" using assms(6, 7) table_at_frame [OF table_treeD(1) [OF assms(1)]] by auto
  from entry_of_inj [OF fr eq] have st: "s = t" "pt_index (3 - k) u = pt_index (3 - d) v" .
  have both: "k = d \<and> same_upto k u v"
    by (rule table_treeD(2) [OF assms(1-5) assms(6) assms(7) [folded st(1)]])
  then have "same_upto d u v" by (elim conjE) (simp only:)
  moreover have "pt_index (3 - d) u = pt_index (3 - d) v" using both st(2) by (elim conjE) (simp only:)
  ultimately have "same_upto (Suc d) u v" unfolding same_upto_Suc [OF assms(5)] ..
  with both show "k = d \<and> same_upto (Suc d) u v" by blast
next
  assume "k = d \<and> same_upto (Suc d) u v"
  then have k: "k = d" "same_upto d u v" "pt_index (3 - d) u = pt_index (3 - d) v" using assms(5) by (simp_all add: same_upto_Suc)
  have "table_at m p d u = table_at m p d v" by (rule table_at_cong [OF k(2)]) (use assms(5) in simp)
  then have "s = t" using assms(6, 7) unfolding k(1) by simp
  then show "entry_of (3 - k) s u = entry_of (3 - d) t v" unfolding k(1) using entry_of_cong [OF k(3)] by simp
qed

lemma in_loader_pages: "kernel_half u \<Longrightarrow> d \<le> 3 \<Longrightarrow> table_at m p d u = Some t \<Longrightarrow> t \<in> loader_pages m p"
  by (auto simp: loader_pages_def)

section \<open>Making an entry point to a new table\<close>

text \<open>A cleared page \<open>a\<close> is hung under the entry of depth \<open>d\<close> of \<open>v\<close>.\<close>

lemma link_table:
  assumes tree: "table_tree m p" and v: "kernel_half v" "d < 3" "table_at m p d v = Some t" "\<not> bit (m (entry_of (3 - d) t v)) 0"
    and a: "is_frame a" "a \<notin> loader_pages m p"
    and x: "plain_entry x" "x AND frame_mask = a" "bit x 1"
    and m': "m' = (zero_table a m)(entry_of (3 - d) t v := x)"
    and u: "kernel_half u" "k \<le> 3"
  shows "table_at m' p k u = (if k = Suc d \<and> same_upto (Suc d) u v then Some a else table_at m p k u)"
    "\<And>s. table_at m p k u = Some s \<Longrightarrow> m' (entry_of (3 - k) s u) =
       (if k = d \<and> same_upto (Suc d) u v then x else m (entry_of (3 - k) s u))"
proof -
  have fr: "is_frame s" if "table_at m p j w = Some s" for j w s
    using table_at_frame [OF table_treeD(1) [OF tree] that] .
  have e: "m' (entry_of (3 - j) s w) = (if j = d \<and> same_upto (Suc d) w v then x else m (entry_of (3 - j) s w))"
    if w: "kernel_half w" "j \<le> 3" "table_at m p j w = Some s" for j w s
  proof -
    have "s \<noteq> a" using in_loader_pages [OF w] a(2) by blast
    then have "zero_table a m (entry_of (3 - j) s w) = m (entry_of (3 - j) s w)"
      using zero_table_page(2) [OF a(1)] fr [OF w(3)] by simp
    moreover have "entry_of (3 - j) s w = entry_of (3 - d) t v \<longleftrightarrow> j = d \<and> same_upto (Suc d) w v"
      by (rule same_entry_iff [OF tree w(1) v(1) w(2) _ w(3) v(3)]) (use v(2) in simp)
    ultimately show ?thesis by (auto simp: m')
  qed
  show "\<And>s. table_at m p k u = Some s \<Longrightarrow> m' (entry_of (3 - k) s u) =
       (if k = d \<and> same_upto (Suc d) u v then x else m (entry_of (3 - k) s u))" using e [OF u] .
  have free: "m' (entry_of l a w) = 0" for l w
  proof -
    have "t \<noteq> a" using in_loader_pages [of v d m p t] v a(2) by auto
    then have "entry_of l a w \<noteq> entry_of (3 - d) t v" using page_of_entry [OF a(1), of l w] page_of_entry [OF fr [OF v(3)], of "3 - d" v] by auto
    then show ?thesis using zero_table_page(1) [OF a(1)] by (simp add: m')
  qed
  have none: "table_at m p (Suc d) w = None" if "same_upto (Suc d) w v" for w
    using table_at_cong [OF that] v by simp
  show "table_at m' p k u = (if k = Suc d \<and> same_upto (Suc d) u v then Some a else table_at m p k u)"
    using u(2)
  proof (induction k)
    case (Suc k)
    then have k: "k \<le> 3" "table_at m' p k u = (if k = Suc d \<and> same_upto (Suc d) u v then Some a else table_at m p k u)" by simp_all
    show ?case
    proof (cases "same_upto (Suc d) u v")
      case True
      consider "k < d" | "k = d" | "k = Suc d" | "k > Suc d" by linarith
      then show ?thesis
      proof cases
        case 1
        then show ?thesis using k e [OF u(1) k(1)] by (simp split: option.split)
      next
        case 2
        have "table_at m p d u = Some t" using table_at_cong [OF same_upto_mono [OF True], of d m p] v by simp
        then show ?thesis using 2 k e [OF u(1) k(1)] x True by (simp add: plain_entry_def Let_def)
      next
        case 3
        then show ?thesis using k True none [OF True] free by simp
      next
        case 4
        then have "table_at m p k u = None" using none [OF True]
        proof (induction k)
          case (Suc k)
          then show ?case by (cases "k = Suc d") simp_all
        qed simp
        with 4 k show ?thesis by simp
      qed
    next
      case False
      then show ?thesis using k e [OF u(1) k(1)] by (simp split: option.split)
    qed
  qed simp
qed

lemma kernel_half_entry: "kernel_half v \<Longrightarrow> entry_of 3 p v = p + 8 * 510"
  by (simp add: kernel_half_def entry_of_def pt_index_def mask_eq_exp_minus_1)

text \<open>The entries of the PML4 other than the loader's own stay, the recursive one among them.\<close>

definition keeps_pml4 :: "addr \<Rightarrow> table_mem \<Rightarrow> table_mem \<Rightarrow> bool" where
  "keeps_pml4 p m m' \<longleftrightarrow> (\<forall>x. page_of x = p \<and> x \<noteq> p + 8 * 510 \<longrightarrow> m' x = m x)"

lemma keeps_pml4_refl [simp]: "keeps_pml4 p m m"
  by (simp add: keeps_pml4_def)

lemma keeps_pml4_trans: "keeps_pml4 p m m1 \<Longrightarrow> keeps_pml4 p m1 m2 \<Longrightarrow> keeps_pml4 p m m2"
  by (simp add: keeps_pml4_def)

lemma loader_entry_place:
  assumes "table_tree m p" "kernel_half v" "d \<le> 3" "table_at m p d v = Some t" "page_of x = p" "x \<noteq> p + 8 * 510"
  shows "entry_of (3 - d) t v \<noteq> x"
proof (cases "d = 0")
  case True
  then show ?thesis using kernel_half_entry [OF assms(2)] assms(4, 6) by simp
next
  case False
  have "t \<noteq> p" using table_treeD(2) [OF assms(1, 2, 2, 3) _ assms(4), of 0] False by auto
  moreover have "page_of (entry_of (3 - d) t v) = t"
    by (rule page_of_entry [OF table_at_frame [OF table_treeD(1) [OF assms(1)] assms(4)]])
  ultimately show ?thesis using assms(5) by auto
qed

text \<open>What making or passing a table changes: nothing but that there is a table below the entry.\<close>

definition table_added :: "addr \<Rightarrow> nat \<Rightarrow> addr \<Rightarrow> table_mem \<Rightarrow> table_mem \<Rightarrow> bool" where
  "table_added p d v m m' \<longleftrightarrow> keeps_pml4 p m m' \<and> (\<forall>u k. kernel_half u \<and> k \<le> 3 \<longrightarrow> leaf m' p k u = leaf m p k u \<and>
     (table_at m' p k u = table_at m p k u \<or> k = Suc d \<and> same_upto (Suc d) u v))"

lemma table_added_trivial [simp]: "table_added p d v m m"
  by (simp add: table_added_def)

lemma link_table_tree:
  assumes tree: "table_tree m p" and v: "kernel_half v" "d < 3" "table_at m p d v = Some t" "\<not> bit (m (entry_of (3 - d) t v)) 0"
    and a: "is_frame a" "a \<notin> loader_pages m p"
    and x: "plain_entry x" "x AND frame_mask = a" "bit x 1"
    and m': "m' = (zero_table a m)(entry_of (3 - d) t v := x)"
  shows "table_tree m' p" "table_added p d v m m'" "loader_pages m' p \<subseteq> insert a (loader_pages m p)"
    "table_at m' p (Suc d) v = Some a"
proof -
  note link = link_table [OF assms]
  have le: "loader_entry x d" using x by (simp add: loader_entry_def plain_entry_def)
  have free: "m' (entry_of l a w) = 0" if "kernel_half w" for l w
  proof -
    have fr: "is_frame t" using table_at_frame [OF table_treeD(1) [OF tree] v(3)] .
    have "t \<noteq> a" using in_loader_pages [of v d m p t] v a(2) by auto
    then have "entry_of l a w \<noteq> entry_of (3 - d) t v" using page_of_entry [OF a(1), of l w] page_of_entry [OF fr, of "3 - d" v] by auto
    then show ?thesis using zero_table_page(1) [OF a(1)] by (simp add: m')
  qed
  have new: "table_at m p k w \<noteq> Some a" if "kernel_half w" "k \<le> 3" for k w
    using in_loader_pages [OF that, of m p a] a(2) by blast
  have "d' = k \<and> same_upto d' u w"
    if u: "kernel_half u" "d' \<le> 3" "table_at m' p d' u = Some s" and w: "kernel_half w" "k \<le> 3" "table_at m' p k w = Some s" for u w d' k s
  proof (cases "s = a")
    case True
    then have "d' = Suc d \<and> same_upto (Suc d) u v" "k = Suc d \<and> same_upto (Suc d) w v"
      using u w link(1) [OF u(1, 2)] link(1) [OF w(1, 2)] new [OF u(1, 2)] new [OF w(1, 2)] by (auto split: if_splits)
    then show ?thesis using same_upto_trans same_upto_sym by blast
  next
    case False
    then have "table_at m p d' u = Some s" "table_at m p k w = Some s"
      using u w link(1) [OF u(1, 2)] link(1) [OF w(1, 2)] by (auto split: if_splits)
    then show ?thesis using table_treeD(2) [OF tree u(1) w(1) u(2) w(2)] by blast
  qed
  moreover have "loader_entry (m' (entry_of (3 - k) s u)) k" if u: "kernel_half u" "k \<le> 3" "table_at m' p k u = Some s" for u k s
  proof (cases "k = Suc d \<and> same_upto (Suc d) u v")
    case True
    then have "s = a" using u link(1) [OF u(1, 2)] by simp
    then show ?thesis using free [OF u(1)] by (simp add: loader_entry_def)
  next
    case False
    then have "table_at m p k u = Some s" using u link(1) [OF u(1, 2)] by auto
    then show ?thesis using link(2) [OF u(1, 2)] table_treeD(3) [OF tree u(1, 2)] le by auto
  qed
  ultimately show "table_tree m' p" using table_treeD(1) [OF tree] unfolding table_tree_def by blast
  show "loader_pages m' p \<subseteq> insert a (loader_pages m p)"
  proof
    fix s assume "s \<in> loader_pages m' p"
    then obtain u k where u: "kernel_half u" "k \<le> 3" "table_at m' p k u = Some s" by (auto simp: loader_pages_def)
    then show "s \<in> insert a (loader_pages m p)" using link(1) [OF u(1, 2)] in_loader_pages [OF u(1, 2)] by (auto split: if_splits)
  qed
  show "table_at m' p (Suc d) v = Some a" using link(1) [OF v(1), of "Suc d"] v(2) by simp
  have "leaf m' p k u = leaf m p k u" if u: "kernel_half u" "k \<le> 3" for u k
  proof (cases "k = Suc d \<and> same_upto (Suc d) u v")
    case True
    have "table_at m p (Suc d) u = table_at m p (Suc d) v" by (rule table_at_cong) (use True v(2) in simp_all)
    then have "leaf m p k u = None" using True v(3, 4) by (simp add: leaf_def)
    moreover have "leaf m' p k u = None" using True link(1) [OF u] free [OF u(1)] by (simp add: leaf_def)
    ultimately show ?thesis by simp
  next
    case False
    then have tb: "table_at m' p k u = table_at m p k u" using link(1) [OF u] by auto
    show ?thesis
    proof (cases "k = d \<and> same_upto (Suc d) u v")
      case True
      have "table_at m p d u = table_at m p d v" by (rule table_at_cong) (use True v(2) same_upto_mono in auto)
      moreover have "entry_of (3 - d) t u = entry_of (3 - d) t v" by (rule entry_of_cong) (use True v(2) same_upto_Suc in auto)
      ultimately show ?thesis using True tb v link(2) [OF u, of t] x by (simp add: leaf_def plain_entry_def Let_def)
    next
      case False
      then show ?thesis using tb link(2) [OF u] by (auto simp: leaf_def split: option.split)
    qed
  qed
  moreover have "keeps_pml4 p m m'" unfolding keeps_pml4_def
  proof (intro allI impI)
    fix y assume y: "page_of y = p \<and> y \<noteq> p + 8 * 510"
    have "p \<in> loader_pages m p" by (rule in_loader_pages [OF v(1), of 0]) simp_all
    then have "page_of y \<noteq> a" using a(2) y by auto
    then have "zero_table a m y = m y" by (rule zero_table_page(2) [OF a(1)])
    moreover have "entry_of (3 - d) t v \<noteq> y" by (rule loader_entry_place [OF tree v(1) _ v(3)]) (use v(2) y in auto)
    ultimately show "m' y = m y" by (simp add: m')
  qed
  ultimately show "table_added p d v m m'" using link(1) by (auto simp: table_added_def)
qed

text \<open>\<open>next_table\<close> on the way to \<open>v\<close>.\<close>

lemma next_table_tree:
  assumes inv: "loader_tables answers p (m, i)" and v: "kernel_half v" "d < 3" "table_at m p d v = Some t" "leaf m p d v = None"
    and run: "next_table answers (entry_of (3 - d) t v) (m, i) = (EFI_SUCCESS, m', i')"
  shows "loader_tables answers p (m', i')" "table_added p d v m m'"
    "table_at m' p (Suc d) v = Some (NEXT_STRUCT (m' (entry_of (3 - d) t v)))" "i \<le> i'"
proof -
  let ?e = "entry_of (3 - d) t v"
  have tree: "table_tree m p" and fw: "firmware_pages answers i (loader_pages m p)" using inv by (simp_all add: loader_tables_def)
  have le: "loader_entry (m ?e) d" using table_treeD(3) [OF tree v(1) _ v(3)] v(2) by simp
  have "loader_tables answers p (m', i') \<and> table_added p d v m m' \<and>
    table_at m' p (Suc d) v = Some (NEXT_STRUCT (m' ?e)) \<and> i \<le> i'"
  proof (cases "bit (m ?e) 0")
    case True
    then have m': "m' = m(?e := m ?e OR PAGING_FLAG_READ_WRITE)" "i' = i"
      using run present_iff [of "m ?e"] by (auto simp: next_table_def)
    have "\<not> bit (m ?e) 7" using v True by (simp add: leaf_def Let_def split: if_splits)
    with True le v(2) have b: "bit (m ?e) 1" "NEXT_STRUCT (m ?e) = m ?e AND frame_mask" by (simp_all add: loader_entry_def)
    have "m ?e OR PAGING_FLAG_READ_WRITE = m ?e"
      by (rule bit_word_eqI) (use b(1) in \<open>auto simp: bit_or_iff flag_bits\<close>)
    then have same: "m' = m" using m' by simp
    then show ?thesis using inv m'(2) v True \<open>\<not> bit (m ?e) 7\<close> b(2) by (simp add: Let_def)
  next
    case False
    have st: "status \<noteq> EFI_SUCCESS" if "answers i = Inl status" for status
      using fw [unfolded firmware_pages_def, rule_format, of i] that by simp
    obtain a where a: "answers i = Inr a"
      and m': "m' = (zero_table a m)(?e := a OR PAGING_FLAG_PRESENT OR PAGING_FLAG_READ_WRITE)" "i' = i + 1"
    proof (cases "answers i")
      case (Inl status)
      then have "next_table answers ?e (m, i) = (status, m, i + 1)" using False present_iff [of "m ?e"] by (simp add: next_table_def)
      then show ?thesis using run st [OF Inl] by simp
    next
      case (Inr a)
      then have "next_table answers ?e (m, i) = (EFI_SUCCESS, (zero_table a m)(?e := (a OR PAGING_FLAG_PRESENT OR PAGING_FLAG_READ_WRITE) OR PAGING_FLAG_READ_WRITE), i + 1)"
        using False present_iff [of "m ?e"] by (simp add: next_table_def Let_def)
      then show ?thesis using run that [OF Inr] by (simp add: or.assoc)
    qed
    note fa = firmware_pages_next [OF fw a subset_refl]
    note pl = new_entry_plain [OF fa(2)]
    note link = link_table_tree [OF tree v(1-3) False fa(2, 3) pl m'(1)]
    have "firmware_pages answers (i + 1) (loader_pages m' p)" by (rule firmware_pages_next(1) [OF fw a link(3)])
    moreover have "NEXT_STRUCT (m' ?e) = a" using pl by (simp add: m'(1) plain_entry_def)
    ultimately show ?thesis using link by (simp add: loader_tables_def m'(2))
  qed
  then show "loader_tables answers p (m', i')" "table_added p d v m m'"
    "table_at m' p (Suc d) v = Some (NEXT_STRUCT (m' ?e))" "i \<le> i'" by auto
qed

section \<open>Writing a last entry\<close>

lemma write_leaf:
  assumes inv: "loader_tables answers p (m, i)" and v: "kernel_half v" "d \<le> 3" "table_at m p d v = Some t"
    and last: "d = 3 \<or> table_at m p (Suc d) v = None"
    and x: "bit x 0" "bit x 1" "d = 3 \<or> bit x 7"
    and m': "m' = m(entry_of (3 - d) t v := x)"
  shows "loader_tables answers p (m', i)"
    "\<And>u k. kernel_half u \<Longrightarrow> k \<le> 3 \<Longrightarrow> table_at m' p k u = table_at m p k u"
    "\<And>u k. kernel_half u \<Longrightarrow> k \<le> 3 \<Longrightarrow> leaf m' p k u = (if k = d \<and> same_upto (Suc d) u v then Some x else leaf m p k u)"
proof -
  have tree: "table_tree m p" and fw: "firmware_pages answers i (loader_pages m p)" using inv by (simp_all add: loader_tables_def)
  have e: "m' (entry_of (3 - j) s w) = (if j = d \<and> same_upto (Suc d) w v then x else m (entry_of (3 - j) s w))"
    if w: "kernel_half w" "j \<le> 3" "table_at m p j w = Some s" for j w s
    using same_entry_iff [OF tree w(1) v(1) w(2) v(2) w(3) v(3)] by (auto simp: m')
  have tb: "table_at m' p k u = table_at m p k u" if u: "kernel_half u" "k \<le> 3" for u k
    using u(2)
  proof (induction k)
    case (Suc k)
    then have IH: "table_at m' p k u = table_at m p k u" and k: "k \<le> 3" "k \<noteq> 3" by simp_all
    show ?case
    proof (cases "k = d \<and> same_upto (Suc d) u v")
      case True
      have "table_at m p (Suc d) u = table_at m p (Suc d) v" by (rule table_at_cong) (use True k in auto)
      then have "table_at m p (Suc k) u = None" using last True k by simp
      moreover have "table_at m p k u = table_at m p d v" using True same_upto_mono [of "Suc d" u v d] table_at_cong [of d u v m p] k by auto
      ultimately show ?thesis using IH True v(3) e [OF u(1) k(1)] x k by (simp add: Let_def)
    next
      case False
      then have "m' (entry_of (3 - k) s u) = m (entry_of (3 - k) s u)" if "table_at m p k u = Some s" for s
        unfolding e [OF u(1) k(1) that] by (rule if_not_P)
      then show ?thesis using IH by (cases "table_at m p k u") simp_all
    qed
  qed simp
  then show "\<And>u k. kernel_half u \<Longrightarrow> k \<le> 3 \<Longrightarrow> table_at m' p k u = table_at m p k u" .
  have "loader_pages m' p = loader_pages m p" unfolding loader_pages_def using tb by (metis (no_types, lifting))
  moreover have "table_tree m' p" unfolding table_tree_def
  proof (intro conjI allI impI)
    show "is_frame p" by (rule table_treeD(1) [OF tree])
  next
    fix u w j k s assume "kernel_half u \<and> kernel_half w \<and> j \<le> 3 \<and> k \<le> 3 \<and> table_at m' p j u = Some s \<and> table_at m' p k w = Some s"
    then have "kernel_half u" "kernel_half w" "j \<le> 3" "k \<le> 3" "table_at m p j u = Some s" "table_at m p k w = Some s"
      using tb [of u j] tb [of w k] by (simp_all only:)
    from table_treeD(2) [OF tree this] show "j = k" "same_upto j u w" by blast+
  next
    fix u k s assume u: "kernel_half u \<and> k \<le> 3 \<and> table_at m' p k u = Some s"
    then have "table_at m p k u = Some s" using tb [of u k] by simp
    moreover have "loader_entry x d" using x by (auto simp: loader_entry_def)
    ultimately show "loader_entry (m' (entry_of (3 - k) s u)) k" using u e [of u k s] table_treeD(3) [OF tree, of u k s] by auto
  qed
  ultimately show "loader_tables answers p (m', i)" using fw by (simp add: loader_tables_def)
  fix u and k :: nat assume u: "kernel_half u" "k \<le> 3"
  show "leaf m' p k u = (if k = d \<and> same_upto (Suc d) u v then Some x else leaf m p k u)"
  proof (cases "k = d \<and> same_upto (Suc d) u v")
    case True
    then have "table_at m p k u = Some t" using same_upto_mono [of "Suc d" u v d] table_at_cong [of d u v m p] v by auto
    then show ?thesis using True tb [OF u] e [OF u] x by (auto simp: leaf_def Let_def)
  next
    case False
    then show ?thesis using tb [OF u] e [OF u] by (auto simp: leaf_def split: option.split)
  qed
qed

section \<open>Refinement\<close>

text \<open>The entry \<open>add_page_mapping\<close> writes for a page.\<close>

definition leaf_word :: "page_size \<Rightarrow> addr \<Rightarrow> u64" where
  "leaf_word sz paddr = (case sz of page_size_4K \<Rightarrow> paddr OR PAGING_FLAG_PRESENT OR PAGING_FLAG_READ_WRITE
     | _ \<Rightarrow> paddr OR PAGING_FLAG_PAGE_SIZE OR PAGING_FLAG_READ_WRITE OR PAGING_FLAG_PRESENT)"

text \<open>What adding a page does to the tables: the leaves of its own addresses change, no others; tables
  are only added on its way.\<close>

definition page_added :: "addr \<Rightarrow> nat \<Rightarrow> u64 \<Rightarrow> addr \<Rightarrow> table_mem \<Rightarrow> table_mem \<Rightarrow> bool" where
  "page_added p d x v m m' \<longleftrightarrow> keeps_pml4 p m m' \<and> (\<forall>u k. kernel_half u \<and> k \<le> 3 \<longrightarrow>
     leaf m' p k u = (if k = d \<and> same_upto (Suc d) u v then Some x else leaf m p k u) \<and>
     (table_at m' p k u = table_at m p k u \<or> k \<le> d \<and> same_upto k u v))"

text \<open>There is room for a page of depth \<open>d\<close> at \<open>v\<close>: no larger page and no table of smaller pages.\<close>

definition room_for :: "addr \<Rightarrow> nat \<Rightarrow> addr \<Rightarrow> table_mem \<Rightarrow> bool" where
  "room_for p d v m \<longleftrightarrow> (\<forall>k < d. leaf m p k v = None) \<and> (d = 3 \<or> table_at m p (Suc d) v = None)"

lemma table_added_room:
  assumes "table_added p k v m m'" "kernel_half v" "k < d" "d \<le> 3" "room_for p d v m"
  shows "room_for p d v m'"
proof -
  have "leaf m' p j v = None" if "j < d" for j using assms that by (auto simp: table_added_def room_for_def)
  moreover have "table_at m' p (Suc d) v = table_at m p (Suc d) v" if "d \<noteq> 3"
  proof -
    have "kernel_half v \<and> Suc d \<le> 3" using assms(2, 4) that by simp
    then have "table_at m' p (Suc d) v = table_at m p (Suc d) v \<or> Suc d = Suc k \<and> same_upto (Suc k) v v"
      using assms(1) unfolding table_added_def by blast
    then show ?thesis using assms(3) by blast
  qed
  ultimately have "d = 3 \<or> table_at m' p (Suc d) v = None" using assms(5) unfolding room_for_def by (cases "d = 3") simp_all
  with \<open>\<And>j. j < d \<Longrightarrow> leaf m' p j v = None\<close> show ?thesis unfolding room_for_def by blast
qed

lemma leaf_word_bits:
  "bit (leaf_word sz a) 0" "bit (leaf_word sz a) 1" "table_levels sz = 3 \<or> bit (leaf_word sz a) 7" "table_levels sz \<le> 3"
  by (cases sz; simp only: leaf_word_def page_size.case table_levels.simps bit_or_iff flag_bits; simp)+

lemma page_added_leaf:
  assumes "page_added p d x v m m'" "kernel_half u" "k \<le> 3"
  shows "leaf m' p k u = (if k = d \<and> same_upto (Suc d) u v then Some x else leaf m p k u)"
    "table_at m' p k u = table_at m p k u \<or> k \<le> d \<and> same_upto k u v"
  using assms by (auto simp: page_added_def)

lemma page_added_keeps: "page_added p d x v m m' \<Longrightarrow> keeps_pml4 p m m'"
  by (simp add: page_added_def)

lemma table_added_then_page:
  assumes "table_added p k v m m'" "page_added p d x v m' m''" "k < d"
  shows "page_added p d x v m m''"
  unfolding page_added_def
proof (intro allI impI conjI)
  show "keeps_pml4 p m m''" using assms(1, 2) unfolding table_added_def page_added_def by (blast intro: keeps_pml4_trans)
next
  fix u and j :: nat assume u: "kernel_half u \<and> j \<le> 3"
  then have added: "leaf m' p j u = leaf m p j u \<and> (table_at m' p j u = table_at m p j u \<or> j = Suc k \<and> same_upto (Suc k) u v)"
    using assms(1) unfolding table_added_def by blast
  show "leaf m'' p j u = (if j = d \<and> same_upto (Suc d) u v then Some x else leaf m p j u)"
    using page_added_leaf(1) [OF assms(2)] u added by simp
  show "table_at m'' p j u = table_at m p j u \<or> j \<le> d \<and> same_upto j u v"
    using page_added_leaf(2) [OF assms(2), of u j] u added assms(3) by auto
qed

lemma write_leaf_added:
  assumes "loader_tables answers p (m, i)" "kernel_half v" "d \<le> 3" "table_at m p d v = Some t" "room_for p d v m"
    and "bit x 0" "bit x 1" "d = 3 \<or> bit x 7"
  shows "loader_tables answers p (m(entry_of (3 - d) t v := x), i)" "page_added p d x v m (m(entry_of (3 - d) t v := x))"
proof -
  have "d = 3 \<or> table_at m p (Suc d) v = None" using assms(5) by (simp only: room_for_def)
  note w = write_leaf [OF assms(1-4) this assms(6-8) refl]
  show "loader_tables answers p (m(entry_of (3 - d) t v := x), i)" by (rule w(1))
  have "keeps_pml4 p m (m(entry_of (3 - d) t v := x))"
    using loader_entry_place [OF _ assms(2-4)] assms(1) by (auto simp: keeps_pml4_def loader_tables_def)
  then show "page_added p d x v m (m(entry_of (3 - d) t v := x))" using w(2, 3) by (auto simp: page_added_def)
qed

text \<open>
  One level of \<open>add_page_mapping\<close>: the table for \<open>v\<close> at the next depth is there, with what was there
  before and room for the page.
\<close>

lemma next_level:
  assumes inv: "loader_tables answers p (m, i)" and v: "kernel_half v" "table_at m p d v = Some t" and d: "d < D" "D \<le> 3"
    and room: "room_for p D v m"
    and run: "next_table answers (entry_of (3 - d) t v) (m, i) = (EFI_SUCCESS, m', i')"
  shows "loader_tables answers p (m', i')" "table_added p d v m m'"
    "table_at m' p (Suc d) v = Some (NEXT_STRUCT (m' (entry_of (3 - d) t v)))" "room_for p D v m'" "i \<le> i'"
proof -
  have "d < 3" "leaf m p d v = None" using d room by (auto simp: room_for_def)
  note n = next_table_tree [OF inv v(1) this(1) v(2) this(2) run]
  show "loader_tables answers p (m', i')" "table_added p d v m m'"
    "table_at m' p (Suc d) v = Some (NEXT_STRUCT (m' (entry_of (3 - d) t v)))" "i \<le> i'" by (rule n)+
  show "room_for p D v m'" by (rule table_added_room [OF n(2) v(1) d room])
qed

lemma add_page_mapping_adds:
  assumes inv: "loader_tables answers p (m, i)" and v: "kernel_half v" and room: "room_for p (table_levels sz) v m"
    and run: "add_page_mapping answers p v paddr sz (m, i) = (EFI_SUCCESS, m', i')"
  shows "loader_tables answers p (m', i') \<and> page_added p (table_levels sz) (leaf_word sz paddr) v m m' \<and> i \<le> i'"
proof -
  let ?x = "leaf_word sz paddr" and ?D = "table_levels sz"
  have lv: "3 - 0 = (3 :: nat)" "3 - 1 = (2 :: nat)" "3 - 2 = (1 :: nat)" "3 - 3 = (0 :: nat)" by simp_all
  have S: "Suc 0 = 1" "Suc 1 = 2" "Suc 2 = 3" by simp_all
  have D: "0 < ?D" "?D \<le> 3" by (cases sz; simp)+
  note bits = leaf_word_bits(1-3) [of sz paddr]
  obtain st1 m1 i1 where r1: "next_table answers (entry_of 3 p v) (m, i) = (st1, m1, i1)" by (metis surj_pair)
  define t2 where "t2 = NEXT_STRUCT (m1 (entry_of 3 p v))"
  obtain st2 m2 i2 where r2: "next_table answers (entry_of 2 t2 v) (m1, i1) = (st2, m2, i2)" by (metis surj_pair)
  define t1 where "t1 = NEXT_STRUCT (m2 (entry_of 2 t2 v))"
  obtain st3 m3 i3 where r3: "next_table answers (entry_of 1 t1 v) (m2, i2) = (st3, m3, i3)" by (metis surj_pair)
  define t0 where "t0 = NEXT_STRUCT (m3 (entry_of 1 t1 v))"
  note call = run [unfolded add_page_mapping_def index_entries Let_def r1 prod.case, folded t2_def, unfolded r2 prod.case, folded t1_def,
    unfolded r3 prod.case, folded t0_def]
  have s1: "st1 = EFI_SUCCESS" using call by (auto split: if_splits)
  have run1: "next_table answers (entry_of (3 - 0) p v) (m, i) = (EFI_SUCCESS, m1, i1)" using r1 s1 by simp
  note a = next_level [OF inv v table_at.simps(1) D room run1, unfolded lv, folded t2_def, unfolded S]
  show ?thesis
  proof (cases "sz = page_size_1G")
    case True
    then have "m' = m1(entry_of (3 - 1) t2 v := ?x)" "i' = i1" using call s1 by (simp_all add: leaf_word_def)
    moreover have "?D = 1" using True by simp
    ultimately show ?thesis
      using write_leaf_added [OF a(1) v D(2) _ a(4) bits(1-3)] a(3, 5) table_added_then_page [OF a(2) _ D(1)] by simp
  next
    case big: False
    then have D1: "1 < ?D" by (cases sz) simp_all
    have s2: "st2 = EFI_SUCCESS" using call s1 big by (auto split: if_splits)
    have run2: "next_table answers (entry_of (3 - 1) t2 v) (m1, i1) = (EFI_SUCCESS, m2, i2)" using r2 s2 by simp
    note b = next_level [OF a(1) v a(3) D1 D(2) a(4) run2, unfolded lv, folded t1_def, unfolded S]
    show ?thesis
    proof (cases "sz = page_size_2M")
      case True
      then have "m' = m2(entry_of (3 - 2) t1 v := ?x)" "i' = i2" using call s1 s2 by (simp_all add: leaf_word_def)
      moreover have "?D = 2" using True by simp
      ultimately show ?thesis
        using write_leaf_added [OF b(1) v D(2) _ b(4) bits(1-3)] a(5) b(3, 5)
          table_added_then_page [OF a(2) table_added_then_page [OF b(2) _ D1] D(1)] by simp
    next
      case False
      with big have sz: "sz = page_size_4K" by (cases sz) simp_all
      then have D2: "2 < ?D" by simp
      have s3: "st3 = EFI_SUCCESS" using call s1 s2 sz by (auto split: if_splits)
      have run3: "next_table answers (entry_of (3 - 2) t1 v) (m2, i2) = (EFI_SUCCESS, m3, i3)" using r3 s3 by simp
      note c = next_level [OF b(1) v b(3) D2 D(2) b(4) run3, unfolded lv, folded t0_def, unfolded S]
      have "m' = m3(entry_of (3 - 3) t0 v := ?x)" "i' = i3" using call s1 s2 s3 sz by (simp_all add: leaf_word_def)
      moreover have "?D = 3" using sz by simp
      ultimately show ?thesis
        using write_leaf_added [OF c(1) v D(2) _ c(4) bits(1-3)] a(5) b(5) c(3, 5)
          table_added_then_page [OF a(2) table_added_then_page [OF b(2) table_added_then_page [OF c(2) _ D2] D1] D(1)] by simp
    qed
  qed
qed

section \<open>The walk over the loader's tables\<close>

lemma walk_at:
  assumes tree: "table_tree m p" and v: "kernel_half v" "d \<le> 3" "table_at m p d v = Some t"
  shows "walk m 3 p v = walk m (3 - d) t v"
  using v(2, 3)
proof (induction d arbitrary: t)
  case (Suc d)
  from Suc.prems(2) obtain s where s: "table_at m p d v = Some s" and e: "bit (m (entry_of (3 - d) s v)) 0" "\<not> bit (m (entry_of (3 - d) s v)) 7"
    "t = m (entry_of (3 - d) s v) AND frame_mask" by (auto simp: Let_def split: option.splits if_splits)
  have "loader_entry (m (entry_of (3 - d) s v)) d" by (rule table_treeD(3) [OF tree v(1) _ s]) (use Suc.prems in simp)
  then have rw: "bit (m (entry_of (3 - d) s v)) 1" using e by (simp add: loader_entry_def)
  have l: "3 - d = Suc (3 - Suc d)" using Suc.prems by simp
  have id: "map_option (\<lambda>(w, q). (w, q)) r = r" for r :: "(bool \<times> addr) option" by (cases r) auto
  have "walk m (3 - d) s v = walk m (3 - Suc d) t v"
    using e rw id unfolding l by (simp add: Let_def flip: entry_of_def)
  moreover have "walk m 3 p v = walk m (3 - d) s v" using Suc.IH [OF _ s] Suc.prems(1) by simp
  ultimately show ?case by simp
qed simp

lemma leaf_walk:
  assumes tree: "table_tree m p" and v: "kernel_half v" "0 < d" "d \<le> 3" "leaf m p d v = Some x"
  shows "walk m 3 p v = Some (True, (x AND frame_mask AND NOT (mask (39 - 9 * d))) OR (v AND mask (39 - 9 * d)))"
proof -
  have dd: "39 - 9 * d = 12 + 9 * (3 - d)" using v(3) by arith
  obtain t where t: "table_at m p d v = Some t" and x: "m (entry_of (3 - d) t v) = x" "bit x 0" "d = 3 \<or> bit x 7"
    using v(4) by (auto simp: leaf_def Let_def split: option.splits if_splits)
  have rw: "bit x 1" using table_treeD(3) [OF tree v(1, 3) t] x by (simp add: loader_entry_def)
  have "walk m (3 - d) t v = Some (True, (x AND frame_mask AND NOT (mask (12 + 9 * (3 - d)))) OR (v AND mask (12 + 9 * (3 - d))))"
  proof (cases "d = 3")
    case True
    have "x AND frame_mask AND NOT (mask 12) = x AND frame_mask"
      by (rule bit_word_eqI) (auto simp: bit_and_iff bit_not_iff bit_mask_iff bit_frame_mask)
    then show ?thesis using True x rw by (simp flip: entry_of_def)
  next
    case False
    then obtain l where l: "3 - d = Suc l" "\<not> 2 \<le> l" using v(2, 3) by (cases "3 - d") auto
    show ?thesis using x rw False l unfolding l(1) by (simp add: Let_def flip: entry_of_def)
  qed
  then show ?thesis unfolding dd walk_at [OF tree v(1, 3) t] .
qed

text \<open>Seen as pages: what an address is mapped to after a page was added.\<close>

lemma leaf_word_frame:
  assumes "paddr AND frame_mask AND NOT (mask (page_bits sz)) = paddr"
  shows "leaf_word sz paddr AND frame_mask AND NOT (mask (page_bits sz)) = paddr"
proof -
  have "12 \<le> page_bits sz" by (cases sz) simp_all
  note l = leaf_entry [OF assms this]
  show ?thesis
  proof (cases sz)
    case page_size_4K
    then have "leaf_word sz paddr AND frame_mask = paddr" using l(1) by (simp add: leaf_word_def)
    moreover have "paddr AND NOT (mask (page_bits sz)) = paddr"
      by (rule bit_word_eqI) (use arg_cong [OF assms, of "\<lambda>w. bit w n" for n] in \<open>auto simp: bit_simps\<close>)
    ultimately show ?thesis by (metis and.assoc)
  qed (use l(2) in \<open>simp_all add: leaf_word_def\<close>)
qed

lemma no_leaf_walk:
  assumes "table_at m p d v = Some t" "d \<le> 3" "\<forall>k. 0 < k \<and> k \<le> 3 \<longrightarrow> leaf m p k v = None"
  shows "walk m (3 - d) t v = None"
  using assms(1, 2)
proof (induction "3 - d" arbitrary: d t)
  case 0
  then have "d = 3" by simp
  then have "leaf m p d v = None" using assms(3) by simp
  then show ?case using 0 \<open>d = 3\<close> by (simp add: leaf_def Let_def flip: entry_of_def split: if_splits)
next
  case (Suc l)
  let ?e = "m (entry_of (Suc l) t v)"
  have l: "3 - d = Suc l" "l = 3 - Suc d" "d \<noteq> 3" using Suc.hyps(2) by simp_all
  have lf: "bit ?e 0 \<and> bit ?e 7 \<Longrightarrow> d = 0" using assms(3) Suc.prems l by (cases d) (auto simp: leaf_def Let_def)
  show ?case
  proof (cases "bit ?e 0 \<and> \<not> bit ?e 7")
    case True
    then have "table_at m p (Suc d) v = Some (?e AND frame_mask)" using Suc.prems(1) l by (simp add: Let_def)
    from Suc.hyps(1) [OF l(2) this] Suc.prems(2) l(3) have "walk m l (?e AND frame_mask) v = None" unfolding l(2) by simp
    with True show ?thesis unfolding l(1) by (simp add: Let_def flip: entry_of_def)
  next
    case False
    show ?thesis
    proof (cases "bit ?e 0")
      case True
      then have "2 \<le> l" using False lf l(1) by simp
      then show ?thesis using True False unfolding l(1) by (simp add: Let_def flip: entry_of_def)
    qed (simp add: l(1) Let_def flip: entry_of_def)
  qed
qed

lemma same_leaves_walk:
  assumes "table_tree m p" "table_tree m' p" "kernel_half v" "\<forall>k. 0 < k \<and> k \<le> 3 \<longrightarrow> leaf m' p k v = leaf m p k v"
  shows "walk m' 3 p v = walk m 3 p v"
proof (cases "\<exists>k x. 0 < k \<and> k \<le> 3 \<and> leaf m p k v = Some x")
  case True
  then obtain k x where k: "0 < k" "k \<le> 3" "leaf m p k v = Some x" by blast
  then have "leaf m' p k v = Some x" using assms(4) by simp
  from leaf_walk [OF assms(2, 3) k(1, 2) this] leaf_walk [OF assms(1, 3) k] show ?thesis by simp
next
  case False
  then have "walk m (3 - 0) p v = None" by (intro no_leaf_walk) auto
  moreover have "walk m' (3 - 0) p v = None" by (rule no_leaf_walk) (use False assms(4) in auto)
  ultimately show ?thesis by simp
qed

lemma page_bits_levels: "39 - 9 * table_levels sz = page_bits sz" "48 - 9 * Suc (table_levels sz) = page_bits sz"
  by (cases sz; simp)+

lemma add_page_mapping_updates:
  assumes "loader_tables answers p (m, i)" "kernel_half v" "room_for p (table_levels sz) v m"
    and "paddr AND frame_mask AND NOT (mask (page_bits sz)) = paddr"
    and "add_page_mapping answers p v paddr sz (m, i) = (EFI_SUCCESS, m', i')"
  shows "loader_tables answers p (m', i') \<and>
    (\<forall>u. kernel_half u \<longrightarrow> walk m' 3 p u =
       (if drop_bit (page_bits sz) u = drop_bit (page_bits sz) v then Some (True, paddr OR (u AND mask (page_bits sz)))
        else walk m 3 p u))"
proof -
  let ?D = "table_levels sz"
  have D: "0 < ?D" "?D \<le> 3" by (cases sz; simp)+
  from add_page_mapping_adds [OF assms(1-3, 5)] have
    inv: "loader_tables answers p (m', i')" and added: "page_added p ?D (leaf_word sz paddr) v m m'" by auto
  have trees: "table_tree m p" "table_tree m' p" using assms(1) inv by (simp_all add: loader_tables_def)
  have same: "same_upto (Suc ?D) u v \<longleftrightarrow> drop_bit (page_bits sz) u = drop_bit (page_bits sz) v" for u
    by (simp only: same_upto_def page_bits_levels)
  have "walk m' 3 p u = Some (True, paddr OR (u AND mask (page_bits sz)))"
    if u: "kernel_half u" "drop_bit (page_bits sz) u = drop_bit (page_bits sz) v" for u
  proof -
    have "leaf m' p ?D u = Some (leaf_word sz paddr)" using page_added_leaf(1) [OF added u(1) D(2)] u(2) same by simp
    from leaf_walk [OF trees(2) u(1) D this] leaf_word_frame [OF assms(4)] show ?thesis by (simp only: page_bits_levels)
  qed
  moreover have "walk m' 3 p u = walk m 3 p u" if u: "kernel_half u" "drop_bit (page_bits sz) u \<noteq> drop_bit (page_bits sz) v" for u
    by (rule same_leaves_walk [OF trees u(1)]) (use page_added_leaf(1) [OF added u(1)] u(2) same in auto)
  ultimately show ?thesis using inv by auto
qed

text \<open>
  C10. \<open>add_page_mapping\<close> refines the update of a map from addresses to physical addresses: on the
  loader's tables, and where there is room, a successful call makes every address of the page
  translate into the page given and leaves the translation of every other address as it was, for
  each page size and whichever tables had to be made on the way.
\<close>

theorem add_page_mapping_refines:
  assumes "loader_tables answers p (m, i)" "kernel_half v" "room_for p (table_levels sz) v m"
    and "paddr AND frame_mask AND NOT (mask (page_bits sz)) = paddr"
    and "add_page_mapping answers p v paddr sz (m, i) = (EFI_SUCCESS, m', i')"
  shows "loader_tables answers p (m', i') \<and>
    (\<forall>u. kernel_half u \<longrightarrow> walk m' 3 p u =
       (if drop_bit (page_bits sz) u = drop_bit (page_bits sz) v then Some (True, paddr OR (u AND mask (page_bits sz)))
        else walk m 3 p u))"
  by (rule add_page_mapping_updates [OF assms])

text \<open>A PML4 whose entry 510 is not present, as the loader finds it.\<close>

definition no_kernel_tables :: "addr \<Rightarrow> table_mem \<Rightarrow> bool" where
  "no_kernel_tables p m \<longleftrightarrow> is_frame p \<and> \<not> bit (m (p + 8 * 510)) 0"

lemma kernel_half_same: "kernel_half u \<Longrightarrow> kernel_half v \<Longrightarrow> d \<le> 1 \<Longrightarrow> same_upto d u v"
proof -
  assume "kernel_half u" "kernel_half v" "d \<le> 1"
  then have "same_upto 1 u v" by (simp add: same_upto_def kernel_half_def)
  then show "same_upto d u v" using \<open>d \<le> 1\<close> by (rule same_upto_mono)
qed

lemma no_kernel_tables_fresh:
  assumes "no_kernel_tables p m" "kernel_half v"
  shows "table_at m p d v = (if d = 0 then Some p else None)" "leaf m p d v = None"
proof -
  have none: "table_at m p (Suc 0) v = None" using assms by (simp add: no_kernel_tables_def kernel_half_entry)
  have "table_at m p (Suc k) v = None" for k by (induction k) (use none in simp_all)
  then show tb: "table_at m p d v = (if d = 0 then Some p else None)" by (cases d) simp_all
  show "leaf m p d v = None"
    using tb assms by (simp add: leaf_def no_kernel_tables_def kernel_half_entry)
qed

lemma no_kernel_tables_loader:
  assumes "no_kernel_tables p m" "firmware_pages answers i {p}"
  shows "loader_tables answers p (m, i)"
proof -
  note fresh = no_kernel_tables_fresh(1) [OF assms(1)]
  have "loader_pages m p \<subseteq> {p}" by (auto simp: loader_pages_def fresh split: if_splits)
  then have "firmware_pages answers i (loader_pages m p)" by (rule firmware_pages_weaken [OF assms(2)])
  moreover have "table_tree m p"
    unfolding table_tree_def using assms(1)
    by (auto simp: fresh no_kernel_tables_def loader_entry_def kernel_half_entry kernel_half_same split: if_splits)
  ultimately show ?thesis by (simp add: loader_tables_def)
qed

lemma no_kernel_tables_room:
  assumes "no_kernel_tables p m" "kernel_half v"
  shows "room_for p d v m"
  using no_kernel_tables_fresh [OF assms] by (simp add: room_for_def del: table_at.simps)

lemma next_table_outcome:
  assumes "next_table answers e (m, i) = (st, m', i')"
  shows "st = EFI_SUCCESS \<or> answers i = Inl st" "i \<le> i'" "i' \<le> i + 1"
  using assms next_table_status [of answers e m i] next_table_index [of answers e m i]
  by (auto simp: next_table_def Let_def split: sum.splits if_splits)

lemma add_page_mapping_outcome:
  assumes run: "add_page_mapping answers p v a sz (m, i) = (st, m', i')"
  shows "(st = EFI_SUCCESS \<or> (\<exists>j. i \<le> j \<and> j < i + 3 \<and> answers j = Inl st)) \<and> i \<le> i'"
proof -
  obtain st1 m1 i1 where r1: "next_table answers (p + 8 * PML4_INDEX_OF v) (m, i) = (st1, m1, i1)" by (metis surj_pair)
  define e2 where "e2 = NEXT_STRUCT (m1 (p + 8 * PML4_INDEX_OF v)) + 8 * PDPT_INDEX_OF v"
  obtain st2 m2 i2 where r2: "next_table answers e2 (m1, i1) = (st2, m2, i2)" by (metis surj_pair)
  define e1 where "e1 = NEXT_STRUCT (m2 e2) + 8 * PD_INDEX_OF v"
  obtain st3 m3 i3 where r3: "next_table answers e1 (m2, i2) = (st3, m3, i3)" by (metis surj_pair)
  note o1 = next_table_outcome [OF r1] and o2 = next_table_outcome [OF r2] and o3 = next_table_outcome [OF r3]
  note call = run [unfolded add_page_mapping_def Let_def r1 prod.case, folded e2_def, unfolded r2 prod.case, folded e1_def, unfolded r3 prod.case]
  have "i \<le> i'" using call o1 o2 o3 by (auto split: if_splits)
  moreover consider "st = EFI_SUCCESS" | "st = st1" "st1 \<noteq> EFI_SUCCESS" | "st = st2" "st2 \<noteq> EFI_SUCCESS" | "st = st3" "st3 \<noteq> EFI_SUCCESS"
    using call by (auto split: if_splits)
  then have "st = EFI_SUCCESS \<or> (\<exists>j. i \<le> j \<and> j < i + 3 \<and> answers j = Inl st)"
  proof cases
    case 2
    then show ?thesis using o1 by (intro disjI2 exI [of _ i]) simp
  next
    case 3
    then show ?thesis using o1 o2 by (intro disjI2 exI [of _ i1]) simp
  next
    case 4
    then show ?thesis using o1 o2 o3 by (intro disjI2 exI [of _ i2]) simp
  qed simp
  ultimately show ?thesis by simp
qed

lemma add_page_mapping_calls:
  "add_page_mapping answers p v a sz (m, i) = (st, m', i') \<Longrightarrow> i' \<le> i + 3"
  by (auto simp: add_page_mapping_def Let_def split: prod.splits if_splits dest!: next_table_outcome(3))

theorem add_page_mapping_refines_witness:
  "\<exists>m' i'. add_page_mapping three_pages 0x1000 0xFFFFFF1000002000 0x9000 page_size_4K (\<lambda>_. 0, 0) = (EFI_SUCCESS, m', i') \<and>
     walk m' 3 0x1000 0xFFFFFF1000002345 = Some (True, 0x9345) \<and> walk m' 3 0x1000 0xFFFFFF1000003000 = None"
proof -
  obtain m' i' where r: "add_page_mapping three_pages 0x1000 0xFFFFFF1000002000 0x9000 page_size_4K (\<lambda>_. 0, 0) = (EFI_SUCCESS, m', i')"
  proof (cases "add_page_mapping three_pages 0x1000 0xFFFFFF1000002000 0x9000 page_size_4K (\<lambda>_. 0, 0)")
    case (fields st m' i')
    from add_page_mapping_outcome [OF this] have "st = EFI_SUCCESS" by (auto simp: three_pages_def split: if_splits)
    with fields that show ?thesis by simp
  qed
  have e: "no_kernel_tables 0x1000 (\<lambda>_. 0)" by (simp add: no_kernel_tables_def is_frame_def frame_mask_def)
  have k: "kernel_half 0xFFFFFF1000002000" "kernel_half 0xFFFFFF1000002345" "kernel_half 0xFFFFFF1000003000" by (simp_all add: kernel_half_def)
  have "firmware_pages three_pages 0 {0x1000}"
    by (auto simp: firmware_pages_def three_pages_def EFI_SUCCESS_def is_frame_def frame_mask_def)
  note inv = no_kernel_tables_loader [OF e this]
  have "(0x9000 :: addr) AND frame_mask AND NOT (mask (page_bits page_size_4K)) = 0x9000"
    by (simp add: frame_mask_def mask_eq_exp_minus_1)
  from add_page_mapping_refines [OF inv k(1) no_kernel_tables_room [OF e k(1)] this r] k
  have "walk m' 3 0x1000 0xFFFFFF1000002345 = Some (True, 0x9345)"
    "walk m' 3 0x1000 0xFFFFFF1000003000 = walk (\<lambda>_. 0) 3 0x1000 0xFFFFFF1000003000"
    by (simp_all add: mask_eq_exp_minus_1 del: walk.simps)
  moreover have "walk (\<lambda>_. 0) 3 0x1000 0xFFFFFF1000003000 = None" by (simp add: walk_levels Let_def)
  ultimately show ?thesis using r by (intro exI conjI) (assumption | simp only:)+
qed

end
