(* ===== verification/Boot_Main.thy ===== *)
theory Boot_Main
  imports Boot_Tables Acpi Boot_Info
begin

text \<open>
  The boot loader, \<^verbatim>\<open>src/boot/boot.c\<close>: it reads the kernel's ELF file, builds the page tables, loads
  the segments, maps the first 64 GB of physical memory, chooses a graphics mode, looks for the ACPI
  tables and starts the kernel. The firmware is a parameter, a record of what its calls answer. The
  loader runs on memory mapped to itself; the bytes it reads and writes are \<open>mem\<close>, and the page tables
  are kept apart as words by physical address, as in theory \<open>Boot_Paging\<close>: they lie in pages that
  \<^verbatim>\<open>AllocatePages\<close> gave for nothing else.
\<close>

section \<open>Data in memory\<close>

text \<open>\<^verbatim>\<open>src/include/common/elf.h\<close>\<close>

record elf64_elf_header =
  e_ident :: "u8 list"
  e_type :: u16
  e_machine :: u16
  e_version :: u32
  e_entry :: u64
  e_phoff :: u64
  e_shoff :: u64
  e_flags :: u32
  e_ehsize :: u16
  e_phentsize :: u16
  e_phnum :: u16
  e_shentsize :: u16
  e_shnum :: u16
  e_shstrndx :: u16

record elf64_program_header =
  p_type :: u32
  p_flags :: u32
  p_offset :: u64
  p_vaddr :: u64
  p_paddr :: u64
  p_filesz :: u64
  p_memsz :: u64
  p_align :: u64

definition PT_LOAD :: u32 where "PT_LOAD = 1"

definition elf_header_at :: "mem \<Rightarrow> addr \<Rightarrow> elf64_elf_header" where
  "elf_header_at m p = \<lparr>e_ident = map (\<lambda>k. m (p + of_nat k)) [0..<16],
     e_type = ucast (stored m 2 (p + 16)), e_machine = ucast (stored m 2 (p + 18)), e_version = stored32 m (p + 20),
     e_entry = stored m 8 (p + 24), e_phoff = stored m 8 (p + 32), e_shoff = stored m 8 (p + 40), e_flags = stored32 m (p + 48),
     e_ehsize = ucast (stored m 2 (p + 52)), e_phentsize = ucast (stored m 2 (p + 54)), e_phnum = ucast (stored m 2 (p + 56)),
     e_shentsize = ucast (stored m 2 (p + 58)), e_shnum = ucast (stored m 2 (p + 60)), e_shstrndx = ucast (stored m 2 (p + 62))\<rparr>"

definition program_header_at :: "mem \<Rightarrow> addr \<Rightarrow> elf64_program_header" where
  "program_header_at m p = \<lparr>p_type = stored32 m p, p_flags = stored32 m (p + 4), p_offset = stored m 8 (p + 8),
     p_vaddr = stored m 8 (p + 16), p_paddr = stored m 8 (p + 24), p_filesz = stored m 8 (p + 32),
     p_memsz = stored m 8 (p + 40), p_align = stored m 8 (p + 48)\<rparr>"

record acpi_rsdp =
  rsdp_signature :: u64
  rsdp_checksum :: u8
  rsdp_oemid_lo :: u32
  rsdp_oemid_hi :: u16
  rsdp_revision :: u8
  rsdp_rsdt_addr :: u32
  rsdp_length :: u32
  rsdp_xsdt_addr :: u64
  rsdp_ext_checksum :: u8
  rsdp_reserved_lo :: u16
  rsdp_reserved_hi :: u8

definition rsdp_at :: "mem \<Rightarrow> addr \<Rightarrow> acpi_rsdp" where
  "rsdp_at m p = \<lparr>rsdp_signature = stored m 8 p, rsdp_checksum = m (p + 8), rsdp_oemid_lo = stored32 m (p + 9),
     rsdp_oemid_hi = ucast (stored m 2 (p + 13)), rsdp_revision = m (p + 15), rsdp_rsdt_addr = stored32 m (p + 16),
     rsdp_length = stored32 m (p + 20), rsdp_xsdt_addr = stored m 8 (p + 24), rsdp_ext_checksum = m (p + 32),
     rsdp_reserved_lo = ucast (stored m 2 (p + 33)), rsdp_reserved_hi = m (p + 35)\<rparr>"

section \<open>Loading the kernel\<close>

text \<open>\<open>alloc i n\<close> is the answer to the \<open>i\<close>-th call of \<^verbatim>\<open>AllocatePages\<close>, for \<open>n\<close> pages.\<close>

type_synonym page_alloc = "nat \<Rightarrow> u64 \<Rightarrow> u64 + addr"

definition one_page :: "page_alloc \<Rightarrow> nat \<Rightarrow> u64 + addr" where
  "one_page alloc i = alloc i 1"

definition copy_pml4 :: "addr \<Rightarrow> addr \<Rightarrow> table_mem \<Rightarrow> table_mem" where
  "copy_pml4 pml4 old_pml4 m =
     (let m = fold (\<lambda>i m. m(pml4 + 8 * of_nat i := m (old_pml4 + 8 * of_nat i))) [0..<512] m
      in m(pml4 + 8 * 511 := pml4 OR PAGING_FLAG_PRESENT OR PAGING_FLAG_READ_WRITE))"

text \<open>The loop over the pages of a segment; \<open>ks\<close> are the page numbers still to come.\<close>

fun map_segment :: "page_alloc \<Rightarrow> addr \<Rightarrow> addr \<Rightarrow> addr \<Rightarrow> nat list \<Rightarrow> addr \<Rightarrow> boot_state \<Rightarrow> u64 \<times> addr \<times> boot_state" where
  "map_segment alloc pml4 start_page a [] last_allocated_page s = (EFI_SUCCESS, last_allocated_page, s)"
| "map_segment alloc pml4 start_page a (k # ks) last_allocated_page s =
     (let offset = 0x1000 * of_nat k
      in if start_page + offset \<le> last_allocated_page then map_segment alloc pml4 start_page a ks last_allocated_page s
         else case add_page_mapping (one_page alloc) pml4 (start_page + offset) (a + offset) page_size_4K s of (status, s) \<Rightarrow>
           if status \<noteq> EFI_SUCCESS then (status, last_allocated_page, s)
           else map_segment alloc pml4 start_page a ks (start_page + offset) s)"

definition copy_file :: "addr \<Rightarrow> addr \<Rightarrow> nat \<Rightarrow> mem \<Rightarrow> mem" where
  "copy_file dest src n m = fold (\<lambda>offset m. m(dest + of_nat offset := m (src + of_nat offset))) [0..<n] m"

definition clear_rest :: "addr \<Rightarrow> nat \<Rightarrow> nat \<Rightarrow> mem \<Rightarrow> mem" where
  "clear_rest dest n k m = fold (\<lambda>offset m. m(dest + of_nat offset := 0)) [n..<k] m"

definition load_segment ::
  "page_alloc \<Rightarrow> addr \<Rightarrow> addr \<Rightarrow> elf64_program_header \<Rightarrow> addr \<times> boot_state \<times> mem \<Rightarrow> u64 \<times> addr \<times> boot_state \<times> mem" where
  "load_segment alloc pml4 kernel_elf_addr ph = (\<lambda>(last_allocated_page, (m, i), phys).
     (let pages = p_memsz ph div 4096 + 2
      in case alloc i pages of
        Inl status \<Rightarrow> (status, last_allocated_page, (m, i + 1), phys)
      | Inr a \<Rightarrow>
          let start_page = p_vaddr ph AND 0xFFFFFFFFFFFFF000
          in case map_segment alloc pml4 start_page a [0..<unat (pages * 0x1000) div 0x1000] last_allocated_page (m, i + 1) of
            (status, last_allocated_page, s) \<Rightarrow>
              if status \<noteq> EFI_SUCCESS then (status, last_allocated_page, s, phys)
              else let vaddr_offset = p_vaddr ph - start_page;
                       phys = copy_file (a + vaddr_offset) (kernel_elf_addr + p_offset ph) (unat (p_filesz ph)) phys;
                       phys = clear_rest (a + vaddr_offset) (unat (p_filesz ph)) (unat (p_memsz ph)) phys
                   in (EFI_SUCCESS, last_allocated_page, s, phys)))"

fun load_segments ::
  "page_alloc \<Rightarrow> addr \<Rightarrow> addr \<Rightarrow> addr \<Rightarrow> u64 \<Rightarrow> nat list \<Rightarrow> addr \<times> boot_state \<times> mem \<Rightarrow> u64 \<times> addr \<times> boot_state \<times> mem" where
  "load_segments alloc pml4 kernel_elf_addr pheaders_start pheader_size [] s = (EFI_SUCCESS, s)"
| "load_segments alloc pml4 kernel_elf_addr pheaders_start pheader_size (i # is) s =
     (case s of (_, _, phys) \<Rightarrow>
      let ph = program_header_at phys (pheaders_start + pheader_size * of_nat i)
      in if p_type ph = PT_LOAD
         then case load_segment alloc pml4 kernel_elf_addr ph s of (status, s) \<Rightarrow>
           if status \<noteq> EFI_SUCCESS then (status, s)
           else load_segments alloc pml4 kernel_elf_addr pheaders_start pheader_size is s
         else load_segments alloc pml4 kernel_elf_addr pheaders_start pheader_size is s)"

definition PHYS_TO_VIRT :: "addr \<Rightarrow> addr" where
  "PHYS_TO_VIRT paddr = paddr + 0xFFFFFF0000000000"

fun map_phys :: "page_alloc \<Rightarrow> addr \<Rightarrow> nat list \<Rightarrow> boot_state \<Rightarrow> u64 \<times> boot_state" where
  "map_phys alloc pml4 [] s = (EFI_SUCCESS, s)"
| "map_phys alloc pml4 (k # ks) s =
     (let paddr = 0x40000000 * of_nat k
      in case add_page_mapping (one_page alloc) pml4 (PHYS_TO_VIRT paddr) paddr page_size_1G s of (status, s) \<Rightarrow>
         if status \<noteq> EFI_SUCCESS then (status, s) else map_phys alloc pml4 ks s)"

section \<open>Graphics mode and ACPI tables\<close>

datatype pixel_format = PixelRedGreenBlueReserved8BitPerColor | PixelBlueGreenRedReserved8BitPerColor |
  PixelBitMask | PixelBltOnly

record gop_mode =
  PixelFormat :: pixel_format
  HorizontalResolution :: u32
  VerticalResolution :: u32
  PixelsPerScanLine :: u32

text \<open>
  The body of the loop over the modes. \<^verbatim>\<open>MAX_HRES\<close> and \<^verbatim>\<open>MAX_VRES\<close> are build options, \<open>None\<close> where they are
  not defined. \<open>best_mode_num\<close> is what the C code compares the number of pixels with; before the first
  mode is taken the variable is uninitialised, and its value is a parameter.
\<close>

definition too_large :: "u32 option \<Rightarrow> u32 \<Rightarrow> bool" where
  "too_large limit res \<longleftrightarrow> (case limit of None \<Rightarrow> False | Some l \<Rightarrow> l < res)"

definition consider_mode ::
  "u32 option \<Rightarrow> u32 option \<Rightarrow> (u32 \<Rightarrow> gop_mode option) \<Rightarrow> u32 \<Rightarrow> u64 \<times> u32 \<Rightarrow> u64 \<times> u32" where
  "consider_mode max_hres max_vres query_mode mode_num = (\<lambda>(max_pixel_count, best_mode_num).
     (case query_mode mode_num of
        None \<Rightarrow> (max_pixel_count, best_mode_num)
      | Some mode_info \<Rightarrow>
          if PixelFormat mode_info = PixelBlueGreenRedReserved8BitPerColor
          then if too_large max_hres (HorizontalResolution mode_info) then (max_pixel_count, best_mode_num)
               else if too_large max_vres (VerticalResolution mode_info) then (max_pixel_count, best_mode_num)
               else let pixel_count = ucast (HorizontalResolution mode_info) * ucast (VerticalResolution mode_info) :: u64
                    in if ucast best_mode_num < pixel_count then (pixel_count, mode_num) else (max_pixel_count, best_mode_num)
          else (max_pixel_count, best_mode_num)))"

definition select_mode ::
  "u32 option \<Rightarrow> u32 option \<Rightarrow> (u32 \<Rightarrow> gop_mode option) \<Rightarrow> u32 \<Rightarrow> u32 \<Rightarrow> u32 option" where
  "select_mode max_hres max_vres query_mode max_mode uninitialised =
     (case fold (\<lambda>n. consider_mode max_hres max_vres query_mode (of_nat n)) [0..<unat max_mode] (0, uninitialised) of
        (max_pixel_count, best_mode_num) \<Rightarrow> if max_pixel_count = 0 then None else Some best_mode_num)"

text \<open>The entries of the firmware's configuration table: a GUID as two words, and an address.\<close>

type_synonym guid = "u64 \<times> u64"

fun find_rsdp :: "guid \<Rightarrow> guid \<Rightarrow> (guid \<times> addr) list \<Rightarrow> addr \<Rightarrow> addr \<times> addr" where
  "find_rsdp acpi20 acpi10 [] rsdp_10 = (rsdp_10, 0)"
| "find_rsdp acpi20 acpi10 ((vendor_guid, table) # es) rsdp_10 =
     (if acpi20 = vendor_guid then (rsdp_10, table)
      else find_rsdp acpi20 acpi10 es (if acpi10 = vendor_guid then table else rsdp_10))"

text \<open>\<open>acpi_x_r_sdt\<close>, too, starts uninitialised.\<close>

definition choose_sdt :: "mem \<Rightarrow> addr \<Rightarrow> addr \<Rightarrow> addr \<Rightarrow> addr" where
  "choose_sdt phys rsdp_10 rsdp_20 uninitialised =
     (let sdt = uninitialised;
          sdt = (if rsdp_20 \<noteq> 0 then if 2 \<le> rsdp_revision (rsdp_at phys rsdp_20) then rsdp_xsdt_addr (rsdp_at phys rsdp_20) else sdt else sdt);
          sdt = (if sdt = 0 \<and> rsdp_20 \<noteq> 0 then ucast (rsdp_rsdt_addr (rsdp_at phys rsdp_20)) else sdt);
          sdt = (if sdt = 0 \<and> rsdp_10 \<noteq> 0 then ucast (rsdp_rsdt_addr (rsdp_at phys rsdp_10)) else sdt)
      in sdt)"

section \<open>The main program\<close>

text \<open>
  What the firmware answers, call by call: a status where nothing else is used, otherwise the error
  or the result. The build options, the uninitialised variables and the place of the buffer for the
  memory map on the stack are here too.
\<close>

record firmware =
  locate_text :: u64
  clear_screen :: u64
  stall :: u64
  tsc_readings :: "u64 \<times> u64"
  locate_file_system :: u64
  open_volume :: u64
  open_kernel :: u64
  kernel_file_size :: "u64 + u64"
  read_kernel :: "u64 + u8 list"
  allocate_pages :: page_alloc
  current_pml4 :: addr
  locate_gop :: u64
  max_mode :: u32
  query_mode :: "u32 \<Rightarrow> gop_mode option"
  set_mode :: "u32 \<Rightarrow> u64 + gop_mode \<times> addr"
  acpi_guids :: "guid \<times> guid"
  configuration_table :: "(guid \<times> addr) list"
  memory_map :: "u64 + u64 \<times> u64 \<times> u64"
  exit_boot_services :: "u64 \<Rightarrow> u64"
  max_resolution :: "u32 option \<times> u32 option"
  junk :: "u32 \<times> addr"
  mmap_buffer :: addr

text \<open>\<open>boot_end\<close>: the page tables loaded, the address jumped to and what is passed to the kernel.\<close>

record hand_over =
  new_cr3 :: addr
  kernel_entry :: addr
  kernel_arg :: boot_info
  boot_tables :: table_mem
  boot_mem :: mem

fun bindE :: "u64 + 'a \<Rightarrow> ('a \<Rightarrow> u64 + 'b) \<Rightarrow> u64 + 'b" where
  "bindE (Inl status) f = Inl status"
| "bindE (Inr x) f = f x"

definition check :: "u64 \<Rightarrow> u64 + unit" where
  "check status = (if status \<noteq> EFI_SUCCESS then Inl status else Inr ())"

definition EFI_UNSUPPORTED :: u64 where "EFI_UNSUPPORTED = 0x8000000000000003"

definition store_bytes :: "addr \<Rightarrow> u8 list \<Rightarrow> mem \<Rightarrow> mem" where
  "store_bytes p bs m = fold (\<lambda>k m. m(p + of_nat k := bs ! k)) [0..<length bs] m"

text \<open>
  The parts of \<^verbatim>\<open>efi_main\<close> in their order: up to the kernel's file in memory; the page tables and the
  kernel's segments; and the rest.
\<close>

definition read_kernel_file :: "firmware \<Rightarrow> mem \<Rightarrow> u64 + u64 \<times> addr \<times> mem" where
  "read_kernel_file fw phys =
     bindE (check (locate_text fw)) (\<lambda>_.
     bindE (check (clear_screen fw)) (\<lambda>_.
     let timer_us = 10000; a = fst (tsc_readings fw)
     in bindE (check (stall fw)) (\<lambda>_.
     let b = snd (tsc_readings fw); freq = (b - a) * 1000000 div timer_us
     in bindE (check (locate_file_system fw)) (\<lambda>_.
     bindE (check (open_volume fw)) (\<lambda>_.
     bindE (check (open_kernel fw)) (\<lambda>_.
     bindE (kernel_file_size fw) (\<lambda>file_size.
     let kernel_elf_pages = file_size div 4096 + 1
     in bindE (allocate_pages fw 0 kernel_elf_pages) (\<lambda>kernel_elf_addr.
     bindE (read_kernel fw) (\<lambda>bs.
     Inr (freq, kernel_elf_addr, store_bytes kernel_elf_addr bs phys))))))))))"

definition load_kernel :: "page_alloc \<Rightarrow> addr \<Rightarrow> addr \<Rightarrow> table_mem \<Rightarrow> mem \<Rightarrow> u64 + addr \<times> table_mem \<times> mem" where
  "load_kernel alloc old_pml4 kernel_elf_addr m phys =
     bindE (alloc 1 1) (\<lambda>pml4.
     let m = copy_pml4 pml4 old_pml4 m;
         header = elf_header_at phys kernel_elf_addr
     in case load_segments alloc pml4 kernel_elf_addr (kernel_elf_addr + e_phoff header) (ucast (e_phentsize header))
            [0..<unat (e_phnum header)] (0, (m, 2), phys) of (status, last_allocated_page, s, phys) \<Rightarrow>
        bindE (check status) (\<lambda>_.
        case map_phys alloc pml4 [0..<64] s of (status, (m, i)) \<Rightarrow>
        bindE (check status) (\<lambda>_. Inr (pml4, m, phys))))"

definition efi_main :: "firmware \<Rightarrow> table_mem \<Rightarrow> mem \<Rightarrow> u64 + hand_over" where
  "efi_main fw m phys =
     bindE (read_kernel_file fw phys) (\<lambda>(freq, kernel_elf_addr, phys).
     bindE (load_kernel (allocate_pages fw) (current_pml4 fw) kernel_elf_addr m phys) (\<lambda>(pml4, m, phys).
     bindE (check (locate_gop fw)) (\<lambda>_.
     case select_mode (fst (max_resolution fw)) (snd (max_resolution fw)) (query_mode fw) (max_mode fw) (fst (junk fw)) of
       None \<Rightarrow> Inl EFI_UNSUPPORTED
     | Some best_mode_num \<Rightarrow>
     bindE (set_mode fw best_mode_num) (\<lambda>(info, base).
     let fb_info = \<lparr>hres = HorizontalResolution info, vres = VerticalResolution info, width = PixelsPerScanLine info, fb_addr = base\<rparr>
     in case find_rsdp (fst (acpi_guids fw)) (snd (acpi_guids fw)) (configuration_table fw) 0 of (rsdp_10, rsdp_20) \<Rightarrow>
     let sdt = choose_sdt phys rsdp_10 rsdp_20 (snd (junk fw))
     in if sdt = 0 then Inl EFI_UNSUPPORTED
     else bindE (memory_map fw) (\<lambda>(mmap_buf_size, mmap_key, descr_size).
     bindE (check (exit_boot_services fw mmap_key)) (\<lambda>_.
     Inr \<lparr>new_cr3 = pml4, kernel_entry = e_entry (elf_header_at phys kernel_elf_addr),
       kernel_arg = \<lparr>mmap_data = \<lparr>descriptors = mmap_buffer fw, mmap_size = mmap_buf_size, descriptor_size = descr_size\<rparr>,
         gop_fb_info = fb_info, acpi_x_r_sdt = sdt, tsc_freq_hz = freq\<rparr>,
       boot_tables = m, boot_mem = phys\<rparr>))))))"

end
