(* ===== verification/Boot_Load.thy ===== *)
theory Boot_Load
  imports Boot_Main
begin

text \<open>
  What the boot loader of theory \<open>Boot_Main\<close> establishes: every byte of the kernel's segments at its
  address, the direct map of the first 64 GB, and both together when \<^verbatim>\<open>efi_main\<close> starts the kernel.
\<close>

section \<open>Pages of the kernel's half\<close>

lemma kernel_half_iff: "kernel_half v \<longleftrightarrow> 0xFFFFFF0000000000 \<le> unat v \<and> unat v < 0xFFFFFF8000000000"
proof -
  have "kernel_half v \<longleftrightarrow> unat (drop_bit 39 v) = unat (0x1FFFFFE :: u64)" unfolding kernel_half_def word_unat_eq_iff ..
  also have "\<dots> \<longleftrightarrow> unat v div 2 ^ 39 = 0x1FFFFFE" by (simp only: unat_drop_bit_eq) (simp add: drop_bit_eq_div)
  finally show ?thesis by auto
qed

lemma drop_bit_unat: "drop_bit n (u :: addr) = drop_bit n v \<longleftrightarrow> unat u div 2 ^ n = unat v div 2 ^ n"
  by (simp only: word_unat_eq_iff unat_drop_bit_eq) (simp only: drop_bit_eq_div)

lemma page_start_le: "0x1000 * c \<le> x \<Longrightarrow> 0x1000 * c \<le> x - x mod 0x1000" for c x :: nat
  by (simp add: minus_mod_eq_mult_div less_eq_div_iff_mult_less_eq mult.commute)

text \<open>A segment's pages.\<close>

definition start_page :: "elf64_program_header \<Rightarrow> addr" where
  "start_page ph = p_vaddr ph AND 0xFFFFFFFFFFFFF000"

definition page_count :: "elf64_program_header \<Rightarrow> nat" where
  "page_count ph = unat (p_memsz ph) div 0x1000 + 2"

definition end_page :: "elf64_program_header \<Rightarrow> nat" where
  "end_page ph = unat (start_page ph) + 0x1000 * page_count ph"

definition loadable :: "elf64_program_header \<Rightarrow> bool" where
  "loadable ph \<longleftrightarrow> 0xFFFFFF1000000000 \<le> unat (p_vaddr ph) \<and> end_page ph \<le> 0xFFFFFF8000000000 \<and> p_filesz ph \<le> p_memsz ph"

lemma start_page_base: "start_page ph = PAGE_BASE (p_vaddr ph)"
  by (simp add: start_page_def PAGE_BASE_def)

lemma unat_start_page: "unat (start_page ph) = unat (p_vaddr ph) - unat (p_vaddr ph) mod 0x1000"
  by (simp add: start_page_base unat_PAGE_BASE)

lemma unat_page:
  assumes "loadable ph" "k < page_count ph"
  shows "unat (start_page ph + 0x1000 * of_nat k) = unat (start_page ph) + 0x1000 * k"
proof -
  have "0x1000 * k < 2 ^ 64" "unat (start_page ph) + 0x1000 * k < 2 ^ 64" using assms by (simp_all add: loadable_def end_page_def)
  then have "unat (0x1000 * of_nat k :: u64) = 0x1000 * k" by (simp add: unat_mult_no_wrap unat_of_nat_no_wrap)
  then show ?thesis using \<open>unat (start_page ph) + 0x1000 * k < 2 ^ 64\<close> by (simp add: unat_add_no_wrap)
qed

lemma start_page_kernel: "loadable ph \<Longrightarrow> 0xFFFFFF1000000000 \<le> unat (start_page ph)"
  using page_start_le [of "0xFFFFFF1000000" "unat (p_vaddr ph)"] by (simp add: unat_start_page loadable_def)

lemma page_kernel_half: "loadable ph \<Longrightarrow> k < page_count ph \<Longrightarrow> kernel_half (start_page ph + 0x1000 * of_nat k)"
  using start_page_kernel [of ph] unat_page [of ph k] by (simp add: kernel_half_iff loadable_def end_page_def)

lemma pages_word:
  assumes "loadable ph"
  shows "unat ((p_memsz ph div 4096 + 2) * 0x1000) div 0x1000 = page_count ph"
    "unat (p_memsz ph div 4096 + 2) = page_count ph"
proof -
  have n: "page_count ph \<le> 2 ^ 27" using assms start_page_kernel [OF assms] by (simp add: loadable_def end_page_def)
  have "unat (p_memsz ph div 4096) = unat (p_memsz ph) div 0x1000" by (simp add: unat_div)
  moreover from this have "unat (p_memsz ph div 4096) + unat (2 :: u64) < 2 ^ 64" using n by (simp add: page_count_def)
  ultimately show u: "unat (p_memsz ph div 4096 + 2) = page_count ph"
    by (subst unat_add_no_wrap) (simp_all add: page_count_def)
  have "unat ((p_memsz ph div 4096 + 2) * 0x1000) = page_count ph * 0x1000"
    by (subst unat_mult_no_wrap) (use n in \<open>simp_all add: u\<close>)
  then show "unat ((p_memsz ph div 4096 + 2) * 0x1000) div 0x1000 = page_count ph" by simp
qed

text \<open>Where byte \<open>j\<close> of a segment is: in page \<open>seg_page ph j\<close>.\<close>

definition seg_page :: "elf64_program_header \<Rightarrow> nat \<Rightarrow> nat" where
  "seg_page ph j = (unat (p_vaddr ph) mod 0x1000 + j) div 0x1000"

lemma seg_page:
  assumes "loadable ph" "j < unat (p_memsz ph)"
  shows "seg_page ph j < page_count ph" "unat (p_vaddr ph + of_nat j) = unat (p_vaddr ph) + j"
    "kernel_half (p_vaddr ph + of_nat j)" "unat (p_vaddr ph + of_nat j) < end_page ph"
    "drop_bit 12 (p_vaddr ph + of_nat j) = drop_bit 12 (start_page ph + 0x1000 * of_nat (seg_page ph j))"
proof -
  define V m r where "V = unat (p_vaddr ph)" and "m = unat (p_memsz ph)" and "r = V mod 0x1000"
  have r: "r < 0x1000" "r \<le> V" by (simp_all add: r_def)
  have j: "j < m" using assms(2) by (simp add: m_def)
  have "(r + j) div 0x1000 \<le> (0x1000 + m) div 0x1000" using r j by (intro div_le_mono) simp
  then show lt: "seg_page ph j < page_count ph" by (simp add: seg_page_def page_count_def V_def m_def r_def)
  have "m < 0x1000 * (m div 0x1000) + 0x1000" by (metis mod_less_divisor mult_div_mod_eq nat_add_left_cancel_less zero_less_numeral)
  then have e: "unat (p_vaddr ph) + j < end_page ph"
    using r j by (simp add: end_page_def page_count_def unat_start_page flip: V_def m_def r_def)
  then have "j < 2 ^ 64" "unat (p_vaddr ph) + j < 2 ^ 64" using assms(1) by (simp_all add: loadable_def)
  then show u: "unat (p_vaddr ph + of_nat j) = unat (p_vaddr ph) + j" by (simp add: unat_add_no_wrap unat_of_nat_no_wrap)
  with e show "unat (p_vaddr ph + of_nat j) < end_page ph" by simp
  with u assms(1) show "kernel_half (p_vaddr ph + of_nat j)" by (simp add: kernel_half_iff loadable_def)
  show "drop_bit 12 (p_vaddr ph + of_nat j) = drop_bit 12 (start_page ph + 0x1000 * of_nat (seg_page ph j))"
  proof -
    define q where "q = V div 0x1000"
    have V: "V = 0x1000 * q + r" by (simp add: q_def r_def)
    have "(V + j) div 0x1000 = q + (r + j) div 0x1000" unfolding V by (simp add: add.assoc)
    moreover have "(V - r + 0x1000 * ((r + j) div 0x1000)) div 0x1000 = q + (r + j) div 0x1000" unfolding V by simp
    ultimately have "(V + j) div 0x1000 = (V - r + 0x1000 * ((r + j) div 0x1000)) div 0x1000" by simp
    then show ?thesis
      by (simp only: drop_bit_unat u unat_page [OF assms(1) lt]) (simp add: unat_start_page seg_page_def V_def r_def)
  qed
qed

section \<open>Mapping a segment\<close>

text \<open>What the loader has mapped so far: only small pages, below \<open>b\<close>, and no tables for the direct map.\<close>

definition mapped_below :: "nat \<Rightarrow> addr \<Rightarrow> table_mem \<Rightarrow> bool" where
  "mapped_below b p m \<longleftrightarrow> (\<forall>u. kernel_half u \<longrightarrow> (\<forall>k \<le> 3. leaf m p k u \<noteq> None \<longrightarrow> k = 3 \<and> unat u < b) \<and>
     (unat u < 0xFFFFFF1000000000 \<longrightarrow> table_at m p 2 u = None))"

lemma mapped_below_room: "mapped_below b p m \<Longrightarrow> kernel_half v \<Longrightarrow> room_for p 3 v m"
  unfolding mapped_below_def room_for_def by (metis nat_less_le)

text \<open>
  The loop of \<open>map_segment\<close>: pages above the last one allocated are mapped, the others skipped. \<open>v k\<close> is
  the address of page \<open>k\<close>.
\<close>

definition segment_mapped :: "addr \<Rightarrow> (nat \<Rightarrow> addr) \<Rightarrow> (nat \<Rightarrow> addr) \<Rightarrow> addr \<Rightarrow> nat set \<Rightarrow> table_mem \<Rightarrow> table_mem \<Rightarrow> bool" where
  "segment_mapped p v q l0 K m m' \<longleftrightarrow> keeps_pml4 p m m' \<and> (\<forall>u. kernel_half u \<longrightarrow>
     (\<forall>d < 3. leaf m' p d u = leaf m p d u) \<and>
     ((\<forall>k \<in> K. drop_bit 12 u \<noteq> drop_bit 12 (v k)) \<longrightarrow> leaf m' p 3 u = leaf m p 3 u) \<and>
     (\<forall>k \<in> K. drop_bit 12 u = drop_bit 12 (v k) \<longrightarrow>
        leaf m' p 3 u = (if l0 < v k then Some (leaf_word page_size_4K (q k)) else leaf m p 3 u)) \<and>
     (\<forall>d \<le> 3. table_at m' p d u = table_at m p d u \<or> (\<exists>k \<in> K. same_upto d u (v k))))"

lemma segment_mappedD:
  assumes "segment_mapped p v q l0 K m m'" "kernel_half u"
  shows "d < 3 \<Longrightarrow> leaf m' p d u = leaf m p d u"
    "(\<And>k. k \<in> K \<Longrightarrow> drop_bit 12 u \<noteq> drop_bit 12 (v k)) \<Longrightarrow> leaf m' p 3 u = leaf m p 3 u"
    "k \<in> K \<Longrightarrow> drop_bit 12 u = drop_bit 12 (v k) \<Longrightarrow>
       leaf m' p 3 u = (if l0 < v k then Some (leaf_word page_size_4K (q k)) else leaf m p 3 u)"
    "d \<le> 3 \<Longrightarrow> table_at m' p d u = table_at m p d u \<or> (\<exists>k \<in> K. same_upto d u (v k))"
  using assms unfolding segment_mapped_def by blast+

lemma drop_bit_less: "drop_bit n (u :: addr) < drop_bit n v \<Longrightarrow> u < v"
  by (simp only: word_less_nat_alt unat_drop_bit_eq) (metis drop_bit_eq_div div_le_mono not_le)

lemma segment_mapped_skip:
  assumes "segment_mapped p v q l0 K m m'" "\<not> l0 < v k" "\<And>j. j \<in> K \<Longrightarrow> drop_bit 12 (v k) \<noteq> drop_bit 12 (v j)"
  shows "segment_mapped p v q l0 (insert k K) m m'"
  unfolding segment_mapped_def
proof (intro allI impI conjI)
  show "keeps_pml4 p m m'" using assms(1) by (simp add: segment_mapped_def)
next
  fix u assume u: "kernel_half u"
  note D = segment_mappedD [OF assms(1) u]
  show "leaf m' p d u = leaf m p d u" if "d < 3" for d by (rule D(1) [OF that])
  show "leaf m' p 3 u = leaf m p 3 u" if "\<forall>k \<in> insert k K. drop_bit 12 u \<noteq> drop_bit 12 (v k)" by (rule D(2)) (use that in simp)
  show "\<forall>j \<in> insert k K. drop_bit 12 u = drop_bit 12 (v j) \<longrightarrow>
      leaf m' p 3 u = (if l0 < v j then Some (leaf_word page_size_4K (q j)) else leaf m p 3 u)"
  proof (intro ballI impI)
    fix j assume j: "j \<in> insert k K" "drop_bit 12 u = drop_bit 12 (v j)"
    show "leaf m' p 3 u = (if l0 < v j then Some (leaf_word page_size_4K (q j)) else leaf m p 3 u)"
    proof (cases "j \<in> K")
      case True
      then show ?thesis by (rule D(3)) (rule j(2))
    next
      case False
      then have "j = k" using j(1) by simp
      moreover have "leaf m' p 3 u = leaf m p 3 u" by (rule D(2)) (use assms(3) j(2) \<open>j = k\<close> in simp)
      ultimately show ?thesis using assms(2) by simp
    qed
  qed
  show "table_at m' p d u = table_at m p d u \<or> (\<exists>k \<in> insert k K. same_upto d u (v k))" if "d \<le> 3" for d
    using D(4) [OF that] by blast
qed

lemma page_added_4K:
  assumes "page_added p 3 x w m m'" "kernel_half u"
  shows "d < 3 \<Longrightarrow> leaf m' p d u = leaf m p d u"
    "leaf m' p 3 u = (if drop_bit 12 u = drop_bit 12 w then Some x else leaf m p 3 u)"
    "d \<le> 3 \<Longrightarrow> table_at m' p d u = table_at m p d u \<or> same_upto d u w"
  using page_added_leaf [OF assms] by (simp_all add: same_upto_def)

lemma segment_mapped_step:
  assumes "page_added p 3 (leaf_word page_size_4K (q k)) (v k) m m1" "segment_mapped p v q (v k) K m1 m'"
    and "l0 < v k" "\<And>j. j \<in> K \<Longrightarrow> drop_bit 12 (v k) < drop_bit 12 (v j)"
  shows "segment_mapped p v q l0 (insert k K) m m'"
  unfolding segment_mapped_def
proof (intro allI impI conjI)
  show "keeps_pml4 p m m'" using page_added_keeps [OF assms(1)] assms(2) by (auto simp: segment_mapped_def intro: keeps_pml4_trans)
next
  fix u assume u: "kernel_half u"
  note D = segment_mappedD [OF assms(2) u] and P = page_added_4K [OF assms(1) u]
  have less: "v k < v j" "l0 < v j" "drop_bit 12 (v k) \<noteq> drop_bit 12 (v j)" if "j \<in> K" for j
    using drop_bit_less [OF assms(4) [OF that]] assms(3) assms(4) [OF that] by auto
  show "leaf m' p d u = leaf m p d u" if "d < 3" for d using D(1) [OF that] P(1) [OF that] by simp
  show "leaf m' p 3 u = leaf m p 3 u" if *: "\<forall>k \<in> insert k K. drop_bit 12 u \<noteq> drop_bit 12 (v k)"
  proof -
    have "leaf m' p 3 u = leaf m1 p 3 u" by (rule D(2)) (use * in simp)
    then show ?thesis using P(2) * by simp
  qed
  show "\<forall>j \<in> insert k K. drop_bit 12 u = drop_bit 12 (v j) \<longrightarrow>
      leaf m' p 3 u = (if l0 < v j then Some (leaf_word page_size_4K (q j)) else leaf m p 3 u)"
  proof (intro ballI impI)
    fix j assume j: "j \<in> insert k K" "drop_bit 12 u = drop_bit 12 (v j)"
    show "leaf m' p 3 u = (if l0 < v j then Some (leaf_word page_size_4K (q j)) else leaf m p 3 u)"
    proof (cases "j \<in> K")
      case True
      from D(3) [OF this j(2)] less [OF True] show ?thesis by simp
    next
      case False
      then have jk: "j = k" using j(1) by simp
      have "leaf m' p 3 u = leaf m1 p 3 u" by (rule D(2)) (use less(3) j(2) jk in simp)
      then show ?thesis using P(2) j(2) jk assms(3) by simp
    qed
  qed
  show "table_at m' p d u = table_at m p d u \<or> (\<exists>k \<in> insert k K. same_upto d u (v k))" if "d \<le> 3" for d
    using D(4) [OF that] P(3) [OF that] by auto
qed

lemma map_segment_adds:
  assumes "loader_tables (one_page alloc) p (m, i)"
    and "\<forall>k \<in> set ks. kernel_half (start + 0x1000 * of_nat k) \<and> room_for p 3 (start + 0x1000 * of_nat k) m"
    and "sorted_wrt (\<lambda>j k. drop_bit 12 (start + 0x1000 * of_nat j) < drop_bit 12 (start + 0x1000 * of_nat k)) ks"
    and "map_segment alloc p start a ks l0 (m, i) = (EFI_SUCCESS, l1, m', i')"
  shows "loader_tables (one_page alloc) p (m', i') \<and> i \<le> i' \<and>
    segment_mapped p (\<lambda>k. start + 0x1000 * of_nat k) (\<lambda>k. a + 0x1000 * of_nat k) l0 (set ks) m m' \<and>
    l1 \<in> insert l0 ((\<lambda>k. start + 0x1000 * of_nat k) ` set ks)"
  using assms
proof (induction ks arbitrary: m i l0)
  case Nil
  then show ?case by (simp add: segment_mapped_def)
next
  case (Cons k ks)
  let ?v = "\<lambda>k. start + 0x1000 * of_nat k" and ?q = "\<lambda>k. a + 0x1000 * of_nat k"
  note tail = Cons.prems(2) Cons.prems(3)
  have sorted: "drop_bit 12 (?v k) < drop_bit 12 (?v j)" if "j \<in> set ks" for j using Cons.prems(3) that by simp
  show ?case
  proof (cases "?v k \<le> l0")
    case True
    then have "map_segment alloc p start a ks l0 (m, i) = (EFI_SUCCESS, l1, m', i')" using Cons.prems(4) by (simp add: Let_def)
    then have IH: "loader_tables (one_page alloc) p (m', i')" "i \<le> i'" "segment_mapped p ?v ?q l0 (set ks) m m'" "l1 \<in> insert l0 (?v ` set ks)"
      using Cons.IH [OF Cons.prems(1)] tail by auto
    have "segment_mapped p ?v ?q l0 (insert k (set ks)) m m'"
      by (rule segment_mapped_skip [OF IH(3)]) (use True sorted in fastforce)+
    then show ?thesis using IH by auto
  next
    case False
    obtain st m1 i1 where r: "add_page_mapping (one_page alloc) p (?v k) (?q k) page_size_4K (m, i) = (st, m1, i1)" by (metis surj_pair)
    have st: "st = EFI_SUCCESS" and rest: "map_segment alloc p start a ks (?v k) (m1, i1) = (EFI_SUCCESS, l1, m', i')"
      using Cons.prems(4) False by (auto simp: Let_def r split: if_splits)
    have room: "room_for p (table_levels page_size_4K) (?v k) m" "kernel_half (?v k)" using tail(1) by simp_all
    from add_page_mapping_adds [OF Cons.prems(1) room(2, 1) r [unfolded st]] have
      inv: "loader_tables (one_page alloc) p (m1, i1)" and added: "page_added p 3 (leaf_word page_size_4K (?q k)) (?v k) m m1" and le: "i \<le> i1"
      by simp_all
    have "room_for p 3 (?v j) m1" if "j \<in> set ks" for j
      using tail(1) that page_added_4K(1) [OF added, of "?v j"] by (simp add: room_for_def)
    then have IH: "loader_tables (one_page alloc) p (m', i')" "i1 \<le> i'" "segment_mapped p ?v ?q (?v k) (set ks) m1 m'"
        "l1 \<in> insert (?v k) (?v ` set ks)"
      using Cons.IH [OF inv _ _ rest] tail by auto
    have "segment_mapped p ?v ?q l0 (insert k (set ks)) m m'"
      by (rule segment_mapped_step [OF added IH(3)]) (use False sorted in auto)
    then show ?thesis using IH le by auto
  qed
qed

section \<open>The firmware's memory\<close>

definition pages_at :: "addr \<Rightarrow> nat \<Rightarrow> addr set" where
  "pages_at a n = {x. unat (x - a) < 0x1000 * n}"

text \<open>
  What the loader relies on of \<^verbatim>\<open>AllocatePages\<close>: from the \<open>i\<close>-th call on, an error has a status other than
  success, and pages given are page frames, not in use, and not given twice.
\<close>

definition firmware_blocks :: "page_alloc \<Rightarrow> nat \<Rightarrow> addr set \<Rightarrow> bool" where
  "firmware_blocks alloc i used \<longleftrightarrow> (\<forall>j \<ge> i. \<forall>n. case alloc j n of
     Inl status \<Rightarrow> status \<noteq> EFI_SUCCESS
   | Inr a \<Rightarrow> is_frame a \<and> unat a + 0x1000 * unat n \<le> 2 ^ 52 \<and> pages_at a (unat n) \<inter> used = {} \<and>
       (\<forall>k \<ge> i. \<forall>n' b. k \<noteq> j \<and> alloc k n' = Inr b \<longrightarrow> pages_at a (unat n) \<inter> pages_at b (unat n') = {}))"

lemma firmware_blocksD:
  assumes "firmware_blocks alloc i used" "i \<le> j" "alloc j n = Inr a"
  shows "is_frame a" "unat a + 0x1000 * unat n \<le> 2 ^ 52" "pages_at a (unat n) \<inter> used = {}"
    "i \<le> k \<Longrightarrow> k \<noteq> j \<Longrightarrow> alloc k n' = Inr b \<Longrightarrow> pages_at a (unat n) \<inter> pages_at b (unat n') = {}"
  using assms(1) [unfolded firmware_blocks_def, rule_format, OF assms(2), of n] assms(3) by (auto)

lemma firmware_blocks_error: "firmware_blocks alloc i used \<Longrightarrow> i \<le> j \<Longrightarrow> alloc j n = Inl status \<Longrightarrow> status \<noteq> EFI_SUCCESS"
  unfolding firmware_blocks_def by (drule spec, drule (1) mp, drule spec [of _ n]) simp

lemma firmware_blocks_later:
  assumes "firmware_blocks alloc i used" "i \<le> j"
    and "\<And>k n a. j \<le> k \<Longrightarrow> alloc k n = Inr a \<Longrightarrow> pages_at a (unat n) \<inter> used' = {}"
  shows "firmware_blocks alloc j used'"
  unfolding firmware_blocks_def
proof (intro allI impI)
  fix k n assume k: "j \<le> k"
  then have ik: "i \<le> k" using assms(2) by simp
  show "case alloc k n of Inl status \<Rightarrow> status \<noteq> EFI_SUCCESS
    | Inr a \<Rightarrow> is_frame a \<and> unat a + 0x1000 * unat n \<le> 2 ^ 52 \<and> pages_at a (unat n) \<inter> used' = {} \<and>
       (\<forall>l \<ge> j. \<forall>n' b. l \<noteq> k \<and> alloc l n' = Inr b \<longrightarrow> pages_at a (unat n) \<inter> pages_at b (unat n') = {})"
  proof (cases "alloc k n")
    case (Inl st)
    then show ?thesis using firmware_blocks_error [OF assms(1) ik] by simp
  next
    case (Inr a)
    note D = firmware_blocksD [OF assms(1) ik Inr]
    have "pages_at a (unat n) \<inter> pages_at b (unat n') = {}" if "j \<le> l" "l \<noteq> k" "alloc l n' = Inr b" for l n' b
      by (rule D(4) [OF le_trans [OF assms(2) that(1)] that(2, 3)])
    then show ?thesis using D(1, 2) assms(3) [OF k Inr] Inr by simp
  qed
qed

lemma firmware_blocks_use:
  assumes "firmware_blocks alloc i used" "alloc i n = Inr a"
  shows "firmware_blocks alloc (i + 1) (used \<union> pages_at a (unat n))"
proof (rule firmware_blocks_later [OF assms(1)])
  fix k m b assume k: "i + 1 \<le> k" "alloc k m = Inr b"
  then have ik: "i \<le> k" "i \<noteq> k" by simp_all
  from firmware_blocksD(3) [OF assms(1) ik(1) k(2)] firmware_blocksD(4) [OF assms(1) ik(1) k(2) order_refl ik(2) assms(2)]
  show "pages_at b (unat m) \<inter> (used \<union> pages_at a (unat n)) = {}" by blast
qed simp

lemma firmware_blocks_pages:
  assumes "firmware_blocks alloc i used" "T \<subseteq> used"
  shows "firmware_pages (one_page alloc) i T"
  unfolding firmware_pages_def
proof (intro allI impI)
  fix j assume j: "i \<le> j"
  have self: "b \<in> pages_at b 1" for b by (simp add: pages_at_def)
  show "case one_page alloc j of Inl status \<Rightarrow> status \<noteq> EFI_SUCCESS
    | Inr a \<Rightarrow> is_frame a \<and> a \<notin> T \<and> (\<forall>k \<ge> i. k \<noteq> j \<longrightarrow> one_page alloc k \<noteq> Inr a)"
  proof (cases "one_page alloc j")
    case (Inl st)
    then show ?thesis using firmware_blocks_error [OF assms(1) j] by (simp add: one_page_def)
  next
    case (Inr a)
    note D = firmware_blocksD [OF assms(1) j Inr [unfolded one_page_def]]
    have "a \<notin> T" using D(3) self [of a] assms(2) by auto
    moreover have "one_page alloc k \<noteq> Inr a" if "i \<le> k" "k \<noteq> j" for k
      using D(4) [OF that, of 1 a] self [of a] by (auto simp: one_page_def)
    ultimately show ?thesis using D(1) Inr by simp
  qed
qed

section \<open>Loading a segment\<close>

lemma is_frame_dvd: "is_frame t \<longleftrightarrow> 4096 dvd unat t \<and> unat t < 2 ^ 52"
  by (simp add: is_frame_iff mod_eq_0_iff_dvd)

lemma frame_plus_offset:
  assumes "is_frame f"
  shows "f OR (u AND mask 12) = f + of_nat (unat u mod 0x1000)"
proof -
  have "f AND (u AND mask 12) = 0"
    by (rule bit_word_eqI) (auto simp: bit_and_iff bit_mask_iff dest: frame_bit [OF assms])
  then have "f OR (u AND mask 12) = f + (u AND mask 12)" using disjunctive_add_eq_or [of f "u AND mask 12"] by simp
  moreover have "unat (u AND mask 12) = unat u mod 0x1000"
    by (simp only: take_bit_eq_mask [symmetric] unsigned_take_bit_eq) (simp add: take_bit_eq_mod)
  then have "u AND mask 12 = of_nat (unat u mod 0x1000)" by (simp only: word_unat_eq_iff) (simp add: unat_of_nat_no_wrap)
  ultimately show ?thesis by simp
qed

lemma frame_plus_pages:
  assumes "is_frame a" "unat a + 0x1000 * n \<le> 2 ^ 52" "k < n"
  shows "is_frame (a + 0x1000 * of_nat k)"
proof -
  have "0x1000 * k < 2 ^ 64" "unat a + 0x1000 * k < 2 ^ 52" using assms(2, 3) by simp_all
  then have "unat (a + 0x1000 * of_nat k) = unat a + 0x1000 * k"
    by (subst unat_add_no_wrap) (simp_all add: unat_mult_no_wrap unat_of_nat_no_wrap)
  then show ?thesis using assms(1) \<open>unat a + 0x1000 * k < 2 ^ 52\<close> by (simp add: is_frame_dvd)
qed

lemma leaf_4K_walk:
  assumes "table_tree m p" "kernel_half u" "leaf m p 3 u = Some (leaf_word page_size_4K f)" "is_frame f"
  shows "walk m 3 p u = Some (True, f + of_nat (unat u mod 0x1000))"
proof -
  have "f AND frame_mask AND NOT (mask 12) = f"
    by (rule bit_word_eqI) (auto simp: bit_and_iff bit_not_iff bit_mask_iff bit_frame_mask dest: frame_bit [OF assms(4)] bit_imp_le_length)
  then have "leaf_word page_size_4K f AND frame_mask AND NOT (mask 12) = f"
    using leaf_word_frame [of f page_size_4K] by simp
  with leaf_walk [OF assms(1, 2) _ _ assms(3)] frame_plus_offset [OF assms(4)] show ?thesis by simp
qed

text \<open>The two loops that fill a segment.\<close>

lemma copy_file_copied:
  assumes "up_safe dest src n" "n < 2 ^ 64"
  shows "copy_file dest src n m = copied m dest src 0 n"
proof -
  define g where "g = (\<lambda>offset m. m(dest + of_nat offset := m (src + of_nat offset)) :: mem)"
  have "fold g [0..<k] m = copied m dest src 0 k" if "k \<le> n" for k
    using that
  proof (induction k)
    case (Suc k)
    then have "fold g [0..<Suc k] m = g k (copied m dest src 0 k)" by simp
    also have "\<dots> = copied m dest src 0 (Suc k)"
      unfolding g_def by (rule copy_byte_up [OF assms(1)]) (use Suc.prems assms(2) in simp_all)
    finally show ?case .
  qed simp
  then show ?thesis by (simp add: copy_file_def g_def)
qed

lemma clear_rest_at: "clear_rest dest n k m x = (if \<exists>j. n \<le> j \<and> j < k \<and> x = dest + of_nat j then 0 else m x)"
proof (cases "n \<le> k")
  case True
  define g where "g = (\<lambda>offset m. m(dest + of_nat offset := 0) :: mem)"
  have "fold g [n..<n + l] m x = (if \<exists>j. n \<le> j \<and> j < n + l \<and> x = dest + of_nat j then 0 else m x)" for l
  proof (induction l)
    case (Suc l)
    have "fold g [n..<n + Suc l] m = g (n + l) (fold g [n..<n + l] m)" by simp
    then have "fold g [n..<n + Suc l] m x = (if x = dest + of_nat (n + l) then 0 else fold g [n..<n + l] m x)"
      by (simp add: g_def del: of_nat_add)
    moreover have "\<exists>j. n \<le> j \<and> j < n + Suc l \<and> x = dest + of_nat j" if "x = dest + of_nat (n + l)"
      by (rule exI [of _ "n + l"]) (simp add: that)
    moreover have "(\<exists>j. n \<le> j \<and> j < n + Suc l \<and> x = dest + of_nat j) = (\<exists>j. n \<le> j \<and> j < n + l \<and> x = dest + of_nat j)"
      if "x \<noteq> dest + of_nat (n + l)"
      using that by (metis add_Suc_right less_Suc_eq)
    ultimately show ?case unfolding Suc by (cases "x = dest + of_nat (n + l)") simp_all
  qed auto
  from this [of "k - n"] True show ?thesis by (simp add: clear_rest_def g_def)
qed (auto simp: clear_rest_def)

lemma filled_segment:
  assumes "disjoint_blocks dest src f" "f \<le> n" "n < 2 ^ 64"
  shows "j < n \<Longrightarrow> clear_rest dest f n (copy_file dest src f m) (dest + of_nat j) = (if j < f then m (src + of_nat j) else 0)"
    "n \<le> unat (x - dest) \<Longrightarrow> clear_rest dest f n (copy_file dest src f m) x = m x"
proof -
  have c: "copy_file dest src f m = copied m dest src 0 f"
    by (rule copy_file_copied [OF disjoint_up_safe [OF assms(1)]]) (use assms in simp)
  have u: "unat (of_nat j :: addr) = j" if "j < n" for j using that assms(3) by (simp add: unat_of_nat_no_wrap)
  have inj: "j = k" if "dest + of_nat j = dest + of_nat k" "j < n" "k < n" for j k
  proof -
    have "unat (of_nat j :: addr) = unat (of_nat k :: addr)" using that(1) by (simp only: add_left_cancel)
    then show ?thesis unfolding u [OF that(2)] u [OF that(3)] .
  qed
  show "clear_rest dest f n (copy_file dest src f m) (dest + of_nat j) = (if j < f then m (src + of_nat j) else 0)" if j: "j < n"
  proof (cases "j < f")
    case True
    have "\<not> (\<exists>k. f \<le> k \<and> k < n \<and> dest + of_nat j = dest + of_nat k)"
    proof (intro notI, elim exE conjE)
      fix k assume k: "f \<le> k" "k < n" "dest + of_nat j = dest + of_nat k"
      have "j = k" by (rule inj [OF k(3) j k(2)])
      then show False using True k(1) by linarith
    qed
    then show ?thesis using True j assms(3) by (simp only: clear_rest_at if_False c copied_at) simp
  next
    case False
    then show ?thesis using j by (auto simp: clear_rest_at)
  qed
  show "clear_rest dest f n (copy_file dest src f m) x = m x" if x: "n \<le> unat (x - dest)"
  proof -
    have "x \<noteq> dest + of_nat k" if "k < n" for k
    proof
      assume "x = dest + of_nat k"
      then have "unat (x - dest) = k" using that assms(3) by (simp add: unat_of_nat_no_wrap)
      with x that show False by simp
    qed
    then have "\<not> (\<exists>k. f \<le> k \<and> k < n \<and> x = dest + of_nat k)" by blast
    then show ?thesis using x assms(2) by (simp only: clear_rest_at if_False c) (simp add: copied_outside)
  qed
qed

text \<open>
  The state between two segments: what is mapped lies below \<open>b\<close>, and \<open>used\<close> is memory the firmware
  will not give again: the kernel's file and the segments loaded so far.
\<close>

definition kernel_loading :: "page_alloc \<Rightarrow> addr \<Rightarrow> addr set \<Rightarrow> nat \<Rightarrow> addr \<times> boot_state \<times> mem \<Rightarrow> bool" where
  "kernel_loading alloc p used b = (\<lambda>(l0, (m, i), phys). loader_tables (one_page alloc) p (m, i) \<and>
     firmware_blocks alloc i used \<and> mapped_below b p m \<and> unat l0 < b)"

text \<open>Every byte of the segment is where the processor looks for it: the file's bytes, then zeros.\<close>

definition segment_loaded :: "mem \<Rightarrow> addr \<Rightarrow> elf64_program_header \<Rightarrow> addr \<Rightarrow> addr set \<Rightarrow> table_mem \<Rightarrow> mem \<Rightarrow> bool" where
  "segment_loaded file elf ph p used m phys \<longleftrightarrow> (\<forall>j < unat (p_memsz ph). \<exists>q \<in> used.
     walk m 3 p (p_vaddr ph + of_nat j) = Some (True, q) \<and>
     phys q = (if j < unat (p_filesz ph) then file (elf + p_offset ph + of_nat j) else 0))"

lemma firmware_pages_later:
  assumes "firmware_pages answers i U" "i \<le> j"
  shows "firmware_pages answers j U"
  unfolding firmware_pages_def
proof (intro allI impI)
  fix k assume "j \<le> k"
  then have "i \<le> k" using assms(2) by simp
  from assms(1) [unfolded firmware_pages_def, rule_format, OF this]
  show "case answers k of Inl status \<Rightarrow> status \<noteq> EFI_SUCCESS
    | Inr a \<Rightarrow> is_frame a \<and> a \<notin> U \<and> (\<forall>l \<ge> j. l \<noteq> k \<longrightarrow> answers l \<noteq> Inr a)"
    using assms(2) by (cases "answers k") auto
qed

lemma loader_tables_later: "loader_tables answers p (m, i) \<Longrightarrow> i \<le> j \<Longrightarrow> loader_tables answers p (m, j)"
  by (auto simp: loader_tables_def intro: firmware_pages_later)

lemma page_below:
  assumes "loadable ph" "k < page_count ph" "drop_bit 12 u = drop_bit 12 (start_page ph + 0x1000 * of_nat k)"
  shows "unat (start_page ph) \<le> unat u" "unat u < end_page ph"
proof -
  define s where "s = unat (start_page ph)"
  have s: "0x1000 * (s div 0x1000) = s" unfolding s_def unat_start_page by (simp add: minus_mod_eq_mult_div)
  have "unat u div 0x1000 = (s + 0x1000 * k) div 0x1000"
    using assms(3) unfolding drop_bit_unat unat_page [OF assms(1, 2)] s_def by simp
  then have u: "unat u div 0x1000 = s div 0x1000 + k" by simp
  have "0x1000 * (unat u div 0x1000) \<le> unat u" "unat u < 0x1000 * (unat u div 0x1000) + 0x1000"
    by (simp, metis mod_less_divisor mult_div_mod_eq nat_add_left_cancel_less zero_less_numeral)
  then have "s + 0x1000 * k \<le> unat u" "unat u < s + 0x1000 * k + 0x1000" unfolding u using s by (simp_all add: algebra_simps)
  then show "unat (start_page ph) \<le> unat u" "unat u < end_page ph" using assms(2) by (simp_all add: end_page_def s_def)
qed

lemma pages_sorted:
  assumes "loadable ph"
  shows "sorted_wrt (\<lambda>j k. drop_bit 12 (start_page ph + 0x1000 * of_nat j) < drop_bit 12 (start_page ph + 0x1000 * of_nat k)) [0..<page_count ph]"
proof -
  have "drop_bit 12 (start_page ph + 0x1000 * of_nat j) < drop_bit 12 (start_page ph + 0x1000 * of_nat k)"
    if "j < k" "k < page_count ph" for j k
  proof -
    have "j < page_count ph" using that by simp
    have "(unat (start_page ph) + 0x1000 * j) div 0x1000 < (unat (start_page ph) + 0x1000 * k) div 0x1000" using that(1) by simp
    then show ?thesis
      by (simp only: word_less_nat_alt unat_drop_bit_eq unat_page [OF assms \<open>j < page_count ph\<close>] unat_page [OF assms that(2)])
        (simp only: drop_bit_eq_div, simp)
  qed
  then show ?thesis by (simp add: sorted_wrt_iff_nth_less)
qed

lemma segment_mapped_below:
  assumes "loadable ph" "mapped_below b p m" "b \<le> unat (start_page ph)"
    and "segment_mapped p (\<lambda>k. start_page ph + 0x1000 * of_nat k) q l0 {0..<page_count ph} m m'"
  shows "mapped_below (end_page ph) p m'"
    "kernel_half u \<Longrightarrow> unat u < unat (start_page ph) \<Longrightarrow> k \<le> 3 \<Longrightarrow> leaf m' p k u = leaf m p k u"
proof -
  let ?v = "\<lambda>k. start_page ph + 0x1000 * of_nat k"
  note D = segment_mappedD [OF assms(4)]
  show out: "leaf m' p k u = leaf m p k u" if u: "kernel_half u" "unat u < unat (start_page ph)" "k \<le> 3" for u k
  proof (cases "k = 3")
    case True
    have "drop_bit 12 u \<noteq> drop_bit 12 (?v j)" if "j \<in> {0..<page_count ph}" for j
      using page_below(1) [OF assms(1), of j u] u(2) that by auto
    with D(2) [OF u(1)] True show ?thesis by blast
  next
    case False
    with D(1) [OF u(1), of k] u(3) show ?thesis by simp
  qed
  have "k = 3 \<and> unat u < end_page ph" if u: "kernel_half u" "k \<le> 3" "leaf m' p k u \<noteq> None" for u k
  proof (cases "leaf m p k u = None")
    case False
    then have "k = 3" "unat u < b" using assms(2) u by (auto simp: mapped_below_def)
    then show ?thesis using assms(3) by (simp add: end_page_def)
  next
    case True
    with u(2, 3) D(1) [OF u(1), of k] have k: "k = 3" by (cases "k = 3") auto
    obtain j where j: "j \<in> {0..<page_count ph}" "drop_bit 12 u = drop_bit 12 (?v j)"
      using D(2) [OF u(1)] True u(3) k by metis
    with page_below(2) [OF assms(1), of j u] k show ?thesis by simp
  qed
  moreover have "table_at m' p 2 u = None" if u: "kernel_half u" "unat u < 0xFFFFFF1000000000" for u
  proof -
    have "\<not> same_upto 2 u (?v j)" if j: "j \<in> {0..<page_count ph}" for j
    proof
      assume "same_upto 2 u (?v j)"
      then have "unat u div 2 ^ 30 = unat (?v j) div 2 ^ 30" by (simp add: same_upto_def drop_bit_unat)
      moreover have "unat (?v j) \<ge> 0xFFFFFF1000000000"
        using unat_page [OF assms(1), of j] j start_page_kernel [OF assms(1)] by simp
      ultimately have "0xFFFFFF1000000000 div 2 ^ 30 \<le> unat u div 2 ^ 30" by (metis div_le_mono)
      with u(2) show False by (simp add: less_eq_div_iff_mult_less_eq)
    qed
    with D(4) [OF u(1), of 2] have "table_at m' p 2 u = table_at m p 2 u" by auto
    then show ?thesis using assms(2) u by (simp add: mapped_below_def)
  qed
  ultimately show "mapped_below (end_page ph) p m'" by (simp add: mapped_below_def)
qed

text \<open>Where the bytes go: the segment's offset in its first page, and the end of its pages.\<close>

lemma segment_room: "unat (p_vaddr ph) mod 0x1000 + unat (p_memsz ph) \<le> 0x1000 * page_count ph"
proof -
  have "unat (p_memsz ph) < 0x1000 * (unat (p_memsz ph) div 0x1000) + 0x1000"
    by (metis mod_less_divisor mult_div_mod_eq nat_add_left_cancel_less zero_less_numeral)
  moreover have "unat (p_vaddr ph) mod 0x1000 < 0x1000" by simp
  ultimately show ?thesis by (simp add: page_count_def)
qed

lemma segment_offset: "p_vaddr ph - start_page ph = of_nat (unat (p_vaddr ph) mod 0x1000)"
proof -
  have "start_page ph \<le> p_vaddr ph" by (simp add: word_le_nat_alt unat_start_page)
  then have "unat (p_vaddr ph - start_page ph) = unat (p_vaddr ph) mod 0x1000" by (simp add: unat_sub_no_wrap unat_start_page)
  then show ?thesis by (simp only: word_unat_eq_iff) (simp add: unat_of_nat_no_wrap)
qed

lemma seg_page_offset:
  assumes "loadable ph" "j < unat (p_memsz ph)"
  shows "0x1000 * seg_page ph j + unat (p_vaddr ph + of_nat j) mod 0x1000 = unat (p_vaddr ph) mod 0x1000 + j"
  unfolding seg_page(2) [OF assms] seg_page_def by (metis mod_add_left_eq mult_div_mod_eq)

lemma load_segment_eq:
  assumes "loadable ph" "alloc i (p_memsz ph div 4096 + 2) = Inr a"
    and "map_segment alloc p (start_page ph) a [0..<page_count ph] l0 (m, i + 1) = (st, l, m2, i2)"
  shows "load_segment alloc p elf ph (l0, (m, i), phys) =
    (if st \<noteq> EFI_SUCCESS then (st, l, (m2, i2), phys)
     else (EFI_SUCCESS, l, (m2, i2), clear_rest (a + of_nat (unat (p_vaddr ph) mod 0x1000)) (unat (p_filesz ph)) (unat (p_memsz ph))
       (copy_file (a + of_nat (unat (p_vaddr ph) mod 0x1000)) (elf + p_offset ph) (unat (p_filesz ph)) phys)))"
  by (simp only: load_segment_def prod.case Let_def assms(2) sum.case start_page_def [symmetric] pages_word(1) [OF assms(1)]
      assms(3) segment_offset)

text \<open>
  What \<open>load_segment\<close> does whether or not some of its pages are taken: \<open>a\<close> is the block it got.
\<close>

definition segment_placed :: "page_alloc \<Rightarrow> addr \<Rightarrow> addr set \<Rightarrow> addr \<Rightarrow> elf64_program_header \<Rightarrow> addr \<Rightarrow>
    addr \<times> boot_state \<times> mem \<Rightarrow> addr \<times> boot_state \<times> mem \<Rightarrow> bool" where
  "segment_placed alloc p used elf ph a = (\<lambda>(l0, (m, i), phys) (l1, (m', i'), phys').
     (let n = page_count ph; v = (\<lambda>k. start_page ph + 0x1000 * of_nat k); off = unat (p_vaddr ph) mod 0x1000
      in is_frame a \<and> unat a + 0x1000 * n \<le> 2 ^ 52 \<and> loader_tables (one_page alloc) p (m', i') \<and>
         firmware_blocks alloc i' (used \<union> pages_at a n) \<and>
         segment_mapped p v (\<lambda>k. a + 0x1000 * of_nat k) l0 {0..<n} m m' \<and> l1 \<in> insert l0 (v ` {0..<n}) \<and>
         (\<forall>x \<in> used. phys' x = phys x) \<and>
         (\<forall>j < unat (p_memsz ph). a + of_nat (off + j) \<in> pages_at a n \<and>
            phys' (a + of_nat (off + j)) = (if j < unat (p_filesz ph) then phys (elf + p_offset ph + of_nat j) else 0))))"

lemma load_segment_places:
  assumes inv: "kernel_loading alloc p used b (l0, (m, i), phys)" and ph: "loadable ph"
    and elf: "\<And>j. j < unat (p_filesz ph) \<Longrightarrow> elf + p_offset ph + of_nat j \<in> used"
    and run: "load_segment alloc p elf ph (l0, (m, i), phys) = (EFI_SUCCESS, l1, (m', i'), phys')"
  shows "\<exists>a. segment_placed alloc p used elf ph a (l0, (m, i), phys) (l1, (m', i'), phys')"
proof -
  let ?v = "\<lambda>k. start_page ph + 0x1000 * of_nat k" and ?pages = "p_memsz ph div 4096 + 2"
  define n where "n = page_count ph"
  note pw = pages_word [OF ph(1), folded n_def]
  have tabs: "loader_tables (one_page alloc) p (m, i)" and blocks: "firmware_blocks alloc i used"
    and below: "mapped_below b p m" using inv by (simp_all add: kernel_loading_def)
  obtain a where a: "alloc i ?pages = Inr a"
    using run firmware_blocks_error [OF blocks order_refl, of ?pages] by (cases "alloc i ?pages") (auto simp: load_segment_def)
  note D = firmware_blocksD(1-3) [OF blocks order_refl a, unfolded pw]
  obtain st l m2 i2 where ms: "map_segment alloc p (start_page ph) a [0..<n] l0 (m, i + 1) = (st, l, (m2, i2))" by (metis surj_pair)
  define off where "off = unat (p_vaddr ph) mod 0x1000"
  define dest where "dest = a + of_nat off"
  define src where "src = elf + p_offset ph"
  define f g where "f = unat (p_filesz ph)" and "g = unat (p_memsz ph)"
  have st: "st = EFI_SUCCESS" and out: "l1 = l" "m' = m2" "i' = i2" "phys' = clear_rest dest f g (copy_file dest src f phys)"
    using run unfolding load_segment_eq [OF ph(1) a ms [unfolded n_def]] dest_def off_def src_def f_def g_def
    by (auto split: if_splits)
  have room: "\<forall>k \<in> set [0..<n]. kernel_half (?v k) \<and> room_for p 3 (?v k) m"
    using page_kernel_half [OF ph(1)] mapped_below_room [OF below] by (simp add: n_def)
  from map_segment_adds [OF loader_tables_later [OF tabs, of "i + 1"] room pages_sorted [OF ph(1), folded n_def] ms [unfolded st]]
  have tabs': "loader_tables (one_page alloc) p (m2, i2)" and i2: "i + 1 \<le> i2"
    and mapped: "segment_mapped p ?v (\<lambda>k. a + 0x1000 * of_nat k) l0 {0..<n} m m2" and l: "l \<in> insert l0 (?v ` {0..<n})" by simp_all
  have fit: "off + g \<le> 0x1000 * n" "f \<le> g" "off < 0x1000" "g < 2 ^ 64"
    using segment_room [of ph] ph(1) by (simp_all add: off_def g_def n_def f_def loadable_def word_le_nat_alt)
  have n52: "0x1000 * n \<le> 2 ^ 52" using D(2) by linarith
  have offw: "unat (of_nat off :: addr) = off" using fit(3) by (simp add: unat_of_nat_no_wrap)
  have outside: "g \<le> unat (x - dest)" if "x \<notin> pages_at a n" for x
  proof -
    have x: "0x1000 * n \<le> unat (x - a)" using that by (simp add: pages_at_def)
    then have "of_nat off \<le> x - a" using fit by (simp add: word_le_nat_alt offw)
    then have "unat (x - a - of_nat off) = unat (x - a) - off" by (simp add: unat_sub_no_wrap offw)
    moreover have "x - dest = x - a - of_nat off" unfolding dest_def by (rule diff_diff_eq [symmetric])
    ultimately have "unat (x - dest) = unat (x - a) - off" by (simp only:)
    then show ?thesis using x fit by linarith
  qed
  have inside: "dest + of_nat j \<in> pages_at a n" if "j < g" for j
  proof -
    have "off + j < 2 ^ 64" using that fit n52 by simp
    then have "unat (of_nat (off + j) :: addr) = off + j" by (intro unat_of_nat_no_wrap) simp
    moreover have "dest + of_nat j - a = of_nat (off + j)" by (simp add: dest_def)
    ultimately have "unat (dest + of_nat j - a) = off + j" by (simp only:)
    then show ?thesis using that fit by (simp add: pages_at_def)
  qed
  have "disjoint_blocks dest src f"
    unfolding disjoint_blocks_def
  proof (intro allI impI)
    fix k assume "k < f"
    then have "src + of_nat k \<notin> pages_at a n" using elf D(3) by (auto simp: src_def f_def)
    from outside [OF this] fit(2) show "f \<le> unat (src + of_nat k - dest)" by simp
  qed
  note filled = filled_segment [OF this fit(2, 4), of _ phys, folded out(4)]
  have kept: "phys' x = phys x" if "x \<in> used" for x
    by (rule filled(2) [OF outside]) (use that D(3) in auto)
  have "firmware_blocks alloc i2 (used \<union> pages_at a n)"
  proof (rule firmware_blocks_later [OF firmware_blocks_use [OF blocks a, unfolded pw] i2])
    fix k m' c assume "i2 \<le> k" "alloc k m' = Inr c"
    then show "pages_at c (unat m') \<inter> (used \<union> pages_at a n) = {}"
      using firmware_blocksD(3) [OF firmware_blocks_use [OF blocks a, unfolded pw], of k m' c] i2 by simp
  qed
  moreover have "a + of_nat (off + j) \<in> pages_at a n \<and> phys' (a + of_nat (off + j)) = (if j < f then phys (elf + p_offset ph + of_nat j) else 0)"
    if "j < g" for j
  proof -
    have "a + of_nat (off + j) = dest + of_nat j" by (simp add: dest_def add.assoc)
    then show ?thesis using inside [OF that] filled(1) [OF that] by (simp only: src_def simp_thms)
  qed
  ultimately show ?thesis
    using D(1, 2) tabs' mapped l kept unfolding out(1-3) segment_placed_def n_def off_def f_def g_def
    by (intro exI [of _ a]) (simp only: Let_def prod.case, blast)
qed

lemma load_segment_loads:
  assumes inv: "kernel_loading alloc p used b (l0, (m, i), phys)" and ph: "loadable ph" "b \<le> unat (start_page ph)"
    and elf: "\<And>j. j < unat (p_filesz ph) \<Longrightarrow> elf + p_offset ph + of_nat j \<in> used"
    and run: "load_segment alloc p elf ph (l0, (m, i), phys) = (EFI_SUCCESS, l1, (m', i'), phys')"
  shows "\<exists>used'. used \<subseteq> used' \<and> kernel_loading alloc p used' (end_page ph) (l1, (m', i'), phys') \<and>
    segment_loaded phys elf ph p used' m' phys' \<and> (\<forall>x \<in> used. phys' x = phys x) \<and>
    (\<forall>u. kernel_half u \<and> unat u < b \<longrightarrow> walk m' 3 p u = walk m 3 p u) \<and> keeps_pml4 p m m'"
proof -
  let ?v = "\<lambda>k. start_page ph + 0x1000 * of_nat k"
  define n where "n = page_count ph"
  define off where "off = unat (p_vaddr ph) mod 0x1000"
  have tabs: "loader_tables (one_page alloc) p (m, i)" and below: "mapped_below b p m" and l0: "unat l0 < b"
    using inv by (simp_all add: kernel_loading_def)
  obtain a where frame: "is_frame a" "unat a + 0x1000 * n \<le> 2 ^ 52" and tabs': "loader_tables (one_page alloc) p (m', i')"
    and blocks: "firmware_blocks alloc i' (used \<union> pages_at a n)"
    and mapped: "segment_mapped p ?v (\<lambda>k. a + 0x1000 * of_nat k) l0 {0..<n} m m'" and l1: "l1 \<in> insert l0 (?v ` {0..<n})"
    and kept: "\<forall>x \<in> used. phys' x = phys x"
    and bytes: "\<And>j. j < unat (p_memsz ph) \<Longrightarrow> a + of_nat (off + j) \<in> pages_at a n \<and>
       phys' (a + of_nat (off + j)) = (if j < unat (p_filesz ph) then phys (elf + p_offset ph + of_nat j) else 0)"
    using load_segment_places [OF inv ph(1) elf run] unfolding segment_placed_def n_def off_def Let_def prod.case by blast
  note M = segment_mapped_below [OF ph(1) below ph(2) mapped [unfolded n_def]]
  have trees: "table_tree m p" "table_tree m' p" using tabs tabs' by (simp_all add: loader_tables_def)
  have "segment_loaded phys elf ph p (used \<union> pages_at a n) m' phys'"
    unfolding segment_loaded_def
  proof (intro allI impI)
    fix j assume j: "j < unat (p_memsz ph)"
    note s = seg_page [OF ph(1) j]
    let ?u = "p_vaddr ph + of_nat j" and ?k = "seg_page ph j"
    have k: "?k \<in> {0..<n}" using s(1) by (simp add: n_def)
    have "unat l0 < unat (?v ?k)" using l0 ph(2) unat_page [OF ph(1) s(1)] by simp
    then have "leaf m' p 3 ?u = Some (leaf_word page_size_4K (a + 0x1000 * of_nat ?k))"
      using segment_mappedD(3) [OF mapped s(3) k s(5)] by (simp add: word_less_nat_alt)
    from leaf_4K_walk [OF trees(2) s(3) this frame_plus_pages [OF frame]] k
    have "walk m' 3 p ?u = Some (True, a + of_nat (0x1000 * ?k + unat ?u mod 0x1000))" by (simp add: add.assoc)
    then have "walk m' 3 p ?u = Some (True, a + of_nat (off + j))" unfolding seg_page_offset [OF ph(1) j] off_def .
    with bytes [OF j] show "\<exists>q \<in> used \<union> pages_at a n. walk m' 3 p ?u = Some (True, q) \<and>
        phys' q = (if j < unat (p_filesz ph) then phys (elf + p_offset ph + of_nat j) else 0)" by blast
  qed
  moreover have "unat l1 < end_page ph"
    using l1 l0 ph(2) unat_page [OF ph(1)] by (auto simp: end_page_def n_def)
  moreover have "walk m' 3 p u = walk m 3 p u" if "kernel_half u" "unat u < b" for u
    by (rule same_leaves_walk [OF trees that(1)]) (use M(2) [OF that(1)] that(2) ph(2) in auto)
  moreover have "keeps_pml4 p m m'" using mapped by (simp add: segment_mapped_def)
  ultimately show ?thesis
    using tabs' blocks M(1) kept unfolding kernel_loading_def by (intro exI [of _ "used \<union> pages_at a n"]) auto
qed

text \<open>
  A segment whose first page is at or below the last page the loader gave to a segment before it gets
  no mapping for that page: the addresses there still lead to the other segment's memory, unchanged.
\<close>

lemma load_segment_skips:
  assumes inv: "kernel_loading alloc p used b (l0, (m, i), phys)" and ph: "loadable ph" "start_page ph \<le> l0"
    and elf: "\<And>j. j < unat (p_filesz ph) \<Longrightarrow> elf + p_offset ph + of_nat j \<in> used"
    and run: "load_segment alloc p elf ph (l0, (m, i), phys) = (EFI_SUCCESS, l1, (m', i'), phys')"
    and u: "drop_bit 12 u = drop_bit 12 (start_page ph)"
  shows "walk m' 3 p u = walk m 3 p u \<and> (\<forall>x \<in> used. phys' x = phys x)"
proof -
  obtain a where placed: "segment_placed alloc p used elf ph a (l0, (m, i), phys) (l1, (m', i'), phys')"
    using load_segment_places [OF inv ph(1) elf run] by blast
  let ?v = "\<lambda>k. start_page ph + 0x1000 * of_nat k" and ?q = "\<lambda>k. a + 0x1000 * of_nat k"
  have mapped: "segment_mapped p ?v ?q l0 {0..<page_count ph} m m'" and trees: "table_tree m p" "table_tree m' p"
    and kept: "\<forall>x \<in> used. phys' x = phys x"
    using placed inv by (auto simp: segment_placed_def kernel_loading_def loader_tables_def Let_def)
  have 0: "0 \<in> {0..<page_count ph}" by (simp add: page_count_def)
  have half: "kernel_half u"
  proof -
    have "drop_bit 39 w = drop_bit 27 (drop_bit 12 w)" for w :: addr by simp
    moreover have "kernel_half (start_page ph)" using page_kernel_half [OF ph(1), of 0] by (simp add: page_count_def)
    ultimately show ?thesis using u unfolding kernel_half_def by metis
  qed
  note D = segment_mappedD [OF mapped half]
  have "leaf m' p 3 u = leaf m p 3 u" using D(3) [OF 0] u leD [OF ph(2)] by simp
  then have "\<forall>k. 0 < k \<and> k \<le> 3 \<longrightarrow> leaf m' p k u = leaf m p k u" using D(1) by (auto simp: le_less)
  from same_leaves_walk [OF trees half this] kept show ?thesis by simp
qed

section \<open>Loading every segment\<close>

lemma stored_eqI: "(\<And>k. k < n \<Longrightarrow> m' (p + of_nat k) = m (p + of_nat k)) \<Longrightarrow> stored m' n p = stored m n p"
proof (induction n arbitrary: p)
  case (Suc n)
  have "stored m' n (p + 1) = stored m n (p + 1)"
    using Suc.prems [of "Suc _"] by (intro Suc.IH) (simp add: add.assoc)
  then show ?case using Suc.prems [of 0] by simp
qed simp

lemma stored_part:
  assumes "\<And>k. k < n \<Longrightarrow> m' (p + of_nat k) = m (p + of_nat k)" "d + l \<le> n"
  shows "stored m' l (p + of_nat d) = stored m l (p + of_nat d)"
proof (rule stored_eqI)
  fix k assume "k < l"
  then show "m' (p + of_nat d + of_nat k) = m (p + of_nat d + of_nat k)"
    using assms(1) [of "d + k"] assms(2) by (simp add: add.assoc)
qed

lemma program_header_cong:
  assumes "\<And>k. k < 56 \<Longrightarrow> m' (p + of_nat k) = m (p + of_nat k)"
  shows "program_header_at m' p = program_header_at m p"
proof -
  have s: "stored m' l (p + of_nat d) = stored m l (p + of_nat d)" if "d + l \<le> 56" for d l
    by (rule stored_part [OF _ that]) (rule assms)
  have "stored m' 4 (p + of_nat 0) = stored m 4 (p + of_nat 0)" "stored m' 4 (p + of_nat 4) = stored m 4 (p + of_nat 4)"
    "stored m' 8 (p + of_nat 8) = stored m 8 (p + of_nat 8)" "stored m' 8 (p + of_nat 16) = stored m 8 (p + of_nat 16)"
    "stored m' 8 (p + of_nat 24) = stored m 8 (p + of_nat 24)" "stored m' 8 (p + of_nat 32) = stored m 8 (p + of_nat 32)"
    "stored m' 8 (p + of_nat 40) = stored m 8 (p + of_nat 40)" "stored m' 8 (p + of_nat 48) = stored m 8 (p + of_nat 48)"
    by (rule s; simp)+
  then show ?thesis by (simp add: program_header_at_def stored32_def)
qed

text \<open>
  The program headers of the file: each lies in \<open>F\<close>, the memory of the file; the segments to load fit
  into the kernel's addresses from \<open>b\<close> on, have their bytes in the file and do not share pages, counting
  the up to two pages more than it needs that the loader gives to each.
\<close>

definition header_at :: "mem \<Rightarrow> addr \<Rightarrow> u64 \<Rightarrow> nat \<Rightarrow> elf64_program_header" where
  "header_at file hs sz i = program_header_at file (hs + sz * of_nat i)"

definition to_load :: "mem \<Rightarrow> addr \<Rightarrow> u64 \<Rightarrow> nat \<Rightarrow> bool" where
  "to_load file hs sz i \<longleftrightarrow> p_type (header_at file hs sz i) = PT_LOAD"

definition headers_ok :: "mem \<Rightarrow> addr set \<Rightarrow> addr \<Rightarrow> addr \<Rightarrow> u64 \<Rightarrow> nat \<Rightarrow> nat list \<Rightarrow> bool" where
  "headers_ok file F elf hs sz b is \<longleftrightarrow> (\<forall>i \<in> set is. (\<forall>k < 56. hs + sz * of_nat i + of_nat k \<in> F) \<and>
       (to_load file hs sz i \<longrightarrow> loadable (header_at file hs sz i) \<and> b \<le> unat (start_page (header_at file hs sz i)) \<and>
          (\<forall>j < unat (p_filesz (header_at file hs sz i)). elf + p_offset (header_at file hs sz i) + of_nat j \<in> F))) \<and>
     sorted_wrt (\<lambda>i j. to_load file hs sz i \<and> to_load file hs sz j \<longrightarrow>
       end_page (header_at file hs sz i) \<le> unat (start_page (header_at file hs sz j))) is"

lemma segment_loaded_keep:
  assumes "segment_loaded file elf ph p used m phys" "loadable ph" "used \<subseteq> used'" "\<forall>x \<in> used. phys' x = phys x"
    and "\<forall>u. kernel_half u \<and> unat u < end_page ph \<longrightarrow> walk m' 3 p u = walk m 3 p u"
  shows "segment_loaded file elf ph p used' m' phys'"
  unfolding segment_loaded_def
proof (intro allI impI)
  fix j assume j: "j < unat (p_memsz ph)"
  with assms(1) obtain q where q: "q \<in> used" "walk m 3 p (p_vaddr ph + of_nat j) = Some (True, q)"
    "phys q = (if j < unat (p_filesz ph) then file (elf + p_offset ph + of_nat j) else 0)" by (auto simp: segment_loaded_def)
  have "walk m' 3 p (p_vaddr ph + of_nat j) = Some (True, q)" using assms(5) seg_page(3, 4) [OF assms(2) j] q(2) by simp
  then show "\<exists>q \<in> used'. walk m' 3 p (p_vaddr ph + of_nat j) = Some (True, q) \<and>
      phys' q = (if j < unat (p_filesz ph) then file (elf + p_offset ph + of_nat j) else 0)"
    using q assms(3, 4) by (intro bexI [of _ q]) auto
qed

lemma load_segments_loads:
  assumes "kernel_loading alloc p used b (l0, (m, i), phys)" "F \<subseteq> used" "\<forall>x \<in> F. phys x = file x"
    and "headers_ok file F elf hs sz b is"
    and "load_segments alloc p elf hs sz is (l0, (m, i), phys) = (EFI_SUCCESS, l1, (m', i'), phys')"
  shows "\<exists>used' b'. used \<subseteq> used' \<and> kernel_loading alloc p used' b' (l1, (m', i'), phys') \<and> b \<le> b' \<and>
    (\<forall>i \<in> set is. to_load file hs sz i \<longrightarrow> segment_loaded file elf (header_at file hs sz i) p used' m' phys') \<and>
    (\<forall>x \<in> used. phys' x = phys x) \<and> (\<forall>u. kernel_half u \<and> unat u < b \<longrightarrow> walk m' 3 p u = walk m 3 p u) \<and> keeps_pml4 p m m'"
  using assms
proof (induction "is" arbitrary: l0 m i phys used b)
  case Nil
  then show ?case by auto
next
  case (Cons n "is")
  let ?h = "header_at file hs sz"
  have F: "hs + sz * of_nat n + of_nat k \<in> F" if "k < 56" for k using Cons.prems(4) that by (simp add: headers_ok_def)
  have h: "program_header_at phys (hs + sz * of_nat n) = ?h n"
    unfolding header_at_def by (rule program_header_cong) (use F Cons.prems(3) in blast)
  have tail: "headers_ok file F elf hs sz b is" using Cons.prems(4) by (simp add: headers_ok_def)
  show ?case
  proof (cases "to_load file hs sz n")
    case False
    then have "load_segments alloc p elf hs sz is (l0, (m, i), phys) = (EFI_SUCCESS, l1, (m', i'), phys')"
      using Cons.prems(5) by (simp add: h to_load_def)
    from Cons.IH [OF Cons.prems(1-3) tail this] False show ?thesis by auto
  next
    case True
    obtain st l2 m2 i2 phys2 where r: "load_segment alloc p elf (?h n) (l0, (m, i), phys) = (st, l2, (m2, i2), phys2)" by (metis surj_pair)
    have st: "st = EFI_SUCCESS" and rest: "load_segments alloc p elf hs sz is (l2, (m2, i2), phys2) = (EFI_SUCCESS, l1, (m', i'), phys')"
      using Cons.prems(5) True by (auto simp: h to_load_def r split: if_splits)
    have ok: "loadable (?h n)" "b \<le> unat (start_page (?h n))" and bytes: "\<And>j. j < unat (p_filesz (?h n)) \<Longrightarrow> elf + p_offset (?h n) + of_nat j \<in> F"
      using Cons.prems(4) True by (auto simp: headers_ok_def)
    have "elf + p_offset (?h n) + of_nat j \<in> used" if "j < unat (p_filesz (?h n))" for j using bytes [OF that] Cons.prems(2) by blast
    from load_segment_loads [OF Cons.prems(1) ok this r [unfolded st]] obtain used2 where
      one: "used \<subseteq> used2" "kernel_loading alloc p used2 (end_page (?h n)) (l2, (m2, i2), phys2)"
        "segment_loaded phys elf (?h n) p used2 m2 phys2" "\<forall>x \<in> used. phys2 x = phys x"
        "\<forall>u. kernel_half u \<and> unat u < b \<longrightarrow> walk m2 3 p u = walk m 3 p u" "keeps_pml4 p m m2" by blast
    have F2: "F \<subseteq> used2" "\<forall>x \<in> F. phys2 x = file x" using one(1, 4) Cons.prems(2, 3) by auto
    have tail2: "headers_ok file F elf hs sz (end_page (?h n)) is" using Cons.prems(4) True by (simp add: headers_ok_def)
    from Cons.IH [OF one(2) F2 tail2 rest] obtain used' b' where
      IH: "used2 \<subseteq> used'" "kernel_loading alloc p used' b' (l1, (m', i'), phys')" "end_page (?h n) \<le> b'"
        "\<forall>i \<in> set is. to_load file hs sz i \<longrightarrow> segment_loaded file elf (?h i) p used' m' phys'" "\<forall>x \<in> used2. phys' x = phys2 x"
        "\<forall>u. kernel_half u \<and> unat u < end_page (?h n) \<longrightarrow> walk m' 3 p u = walk m2 3 p u" "keeps_pml4 p m2 m'" by blast
    have "segment_loaded file elf (?h n) p used2 m2 phys2"
      using one(3) bytes Cons.prems(3) by (auto simp: segment_loaded_def)
    then have "segment_loaded file elf (?h n) p used' m' phys'" by (rule segment_loaded_keep [OF _ ok(1) IH(1, 5, 6)])
    moreover have "b \<le> end_page (?h n)" using ok(2) by (simp add: end_page_def)
    moreover have "\<forall>u. kernel_half u \<and> unat u < b \<longrightarrow> walk m' 3 p u = walk m 3 p u"
      using one(5) IH(6) \<open>b \<le> end_page (?h n)\<close> by simp
    moreover have "keeps_pml4 p m m'" by (rule keeps_pml4_trans [OF one(6) IH(7)])
    ultimately show ?thesis using IH one(1, 4) by (intro exI [of _ used'] exI [of _ b']) auto
  qed
qed

end
