(* ===== verification/Boot_Hand_Over.thy ===== *)
theory Boot_Hand_Over
  imports Boot_Load
begin

text \<open>
  The end of the boot loader: the direct map, the page tables as a whole, the graphics mode chosen,
  and what holds when \<^verbatim>\<open>efi_main\<close> jumps to the kernel.
\<close>

section \<open>The direct map\<close>

lemma unat_phys_page: "k < 64 \<Longrightarrow> unat (PHYS_TO_VIRT (0x40000000 * of_nat k)) = 0xFFFFFF0000000000 + 0x40000000 * k"
proof -
  assume k: "k < 64"
  then have "unat (0x40000000 * of_nat k :: u64) = 0x40000000 * k" by (simp add: unat_mult_no_wrap unat_of_nat_no_wrap)
  then show ?thesis using k by (simp add: PHYS_TO_VIRT_def unat_add_no_wrap)
qed

lemma phys_page_bits:
  assumes "k < 64" "bit (0x40000000 * of_nat k :: addr) n"
  shows "30 \<le> n \<and> n < 36"
proof -
  have "unat (of_nat k :: addr) < 2 ^ 6" using assms(1) by (simp add: unat_of_nat_no_wrap)
  then have b: "\<not> bit (of_nat k :: addr) n" if "6 \<le> n" for n using that by (rule not_bit_above)
  have "bit (push_bit 30 (of_nat k :: addr)) n" using assms(2) by (simp add: push_bit_eq_mult mult.commute)
  then have n: "30 \<le> n" "bit (of_nat k :: addr) (n - 30)" by (simp_all add: bit_push_bit_iff)
  then show ?thesis using b [of "n - 30"] by linarith
qed

lemma phys_page_aligned:
  assumes "k < 64"
  shows "(0x40000000 * of_nat k :: addr) AND frame_mask AND NOT (mask 30) = 0x40000000 * of_nat k"
  using phys_page_bits [OF assms]
  by (intro bit_word_eqI) (auto simp: bit_and_iff bit_not_iff bit_mask_iff bit_frame_mask not_less; fastforce)

lemma map_phys_adds:
  assumes "loader_tables (one_page alloc) p (m, i)" "distinct ks"
    and "\<forall>k \<in> set ks. k < 64 \<and> room_for p 1 (PHYS_TO_VIRT (0x40000000 * of_nat k)) m"
    and "map_phys alloc p ks (m, i) = (EFI_SUCCESS, (m', i'))"
  shows "table_tree m' p \<and> keeps_pml4 p m m' \<and>
    (\<forall>u k. kernel_half u \<and> k \<in> set ks \<and> drop_bit 30 u = drop_bit 30 (PHYS_TO_VIRT (0x40000000 * of_nat k)) \<longrightarrow>
       walk m' 3 p u = Some (True, 0x40000000 * of_nat k OR (u AND mask 30))) \<and>
    (\<forall>u. kernel_half u \<and> (\<forall>k \<in> set ks. drop_bit 30 u \<noteq> drop_bit 30 (PHYS_TO_VIRT (0x40000000 * of_nat k))) \<longrightarrow>
       walk m' 3 p u = walk m 3 p u)"
  using assms
proof (induction ks arbitrary: m i)
  case Nil
  then show ?case by (simp add: loader_tables_def)
next
  case (Cons k ks)
  let ?v = "\<lambda>k. PHYS_TO_VIRT (0x40000000 * of_nat k)" and ?a = "\<lambda>k. 0x40000000 * of_nat k :: addr"
  have k: "k < 64" and room: "room_for p (table_levels page_size_1G) (?v k) m" using Cons.prems(3) by simp_all
  have half: "kernel_half (?v j)" if "j < 64" for j using that unat_phys_page [OF that] by (simp add: kernel_half_iff)
  obtain st m1 i1 where r: "add_page_mapping (one_page alloc) p (?v k) (?a k) page_size_1G (m, i) = (st, m1, i1)" by (metis surj_pair)
  have st: "st = EFI_SUCCESS" and rest: "map_phys alloc p ks (m1, i1) = (EFI_SUCCESS, (m', i'))"
    using Cons.prems(4) by (auto simp: Let_def r split: if_splits)
  note r = r [unfolded st]
  have al: "?a k AND frame_mask AND NOT (mask (page_bits page_size_1G)) = ?a k" using phys_page_aligned [OF k] by simp
  note up = add_page_mapping_updates [OF Cons.prems(1) half [OF k] room al r]
  from add_page_mapping_adds [OF Cons.prems(1) half [OF k] room r]
  have added: "page_added p 1 (leaf_word page_size_1G (?a k)) (?v k) m m1" by simp
  have room1: "room_for p 1 (?v j) m1" if "j \<in> set ks" for j
  proof -
    have j: "kernel_half (?v j)" "room_for p 1 (?v j) m" using Cons.prems(3) that half by auto
    have "leaf m1 p 0 (?v j) = None" using page_added_leaf(1) [OF added j(1), of 0] j(2) by (simp add: room_for_def)
    moreover have "table_at m1 p (Suc 1) (?v j) = table_at m p (Suc 1) (?v j)" using page_added_leaf(2) [OF added j(1), of "Suc 1"] by simp
    ultimately show ?thesis using j(2) by (simp add: room_for_def del: table_at.simps)
  qed
  have ks: "distinct ks" "\<forall>k \<in> set ks. k < 64 \<and> room_for p 1 (?v k) m1" using Cons.prems(2, 3) room1 by auto
  have inv1: "loader_tables (one_page alloc) p (m1, i1)" using up by blast
  note IH = Cons.IH [OF inv1 ks rest]
  have other: "drop_bit 30 (?v k) \<noteq> drop_bit 30 (?v j)" if "j \<in> set ks" for j
  proof -
    have "j < 64" "j \<noteq> k" using that ks(2) Cons.prems(2) by auto
    then show ?thesis unfolding drop_bit_unat unat_phys_page [OF k] unat_phys_page [OF \<open>j < 64\<close>] by simp
  qed
  have "walk m' 3 p u = Some (True, ?a j OR (u AND mask 30))"
    if u: "kernel_half u" "j \<in> set (k # ks)" "drop_bit 30 u = drop_bit 30 (?v j)" for u j
  proof (cases "j \<in> set ks")
    case True
    then show ?thesis using IH u by blast
  next
    case False
    then have j: "j = k" using u(2) by simp
    then have "walk m' 3 p u = walk m1 3 p u" using IH u other by auto
    also have "\<dots> = Some (True, ?a k OR (u AND mask 30))" using up u(1, 3) j by simp
    finally show ?thesis using j by simp
  qed
  moreover have "walk m' 3 p u = walk m 3 p u"
    if u: "kernel_half u" "\<forall>j \<in> set (k # ks). drop_bit 30 u \<noteq> drop_bit 30 (?v j)" for u
  proof -
    have "walk m' 3 p u = walk m1 3 p u" using IH u by auto
    then show ?thesis using up u by simp
  qed
  moreover have "keeps_pml4 p m m'" using IH page_added_keeps [OF added] by (blast intro: keeps_pml4_trans)
  ultimately show ?case using IH by blast
qed

lemma phys_base_mod: "(0xFFFFFF0000000000 :: nat) mod 2 ^ 30 = 0"
  by simp

text \<open>The whole loop: every address of the direct map translates to the physical address it stands for.\<close>

lemma map_phys_direct:
  assumes "loader_tables (one_page alloc) p (m, i)" "mapped_below b p m"
    and run: "map_phys alloc p [0..<64] (m, i) = (EFI_SUCCESS, (m', i'))"
  shows "unat x < 2 ^ 36 \<Longrightarrow> walk m' 3 p (PHYS_TO_VIRT x) = Some (True, x)"
    "kernel_half u \<Longrightarrow> 0xFFFFFF1000000000 \<le> unat u \<Longrightarrow> walk m' 3 p u = walk m 3 p u"
    "keeps_pml4 p m m'"
proof -
  let ?v = "\<lambda>k. PHYS_TO_VIRT (0x40000000 * of_nat k)" and ?a = "\<lambda>k. 0x40000000 * of_nat k :: addr"
  have half: "kernel_half (?v j)" if "j < 64" for j using that unat_phys_page [OF that] by (simp add: kernel_half_iff)
  have "room_for p 1 (?v k) m" if k: "k < 64" for k
  proof -
    have "unat (?v k) < 0xFFFFFF1000000000" using unat_phys_page [OF k] k by simp
    then have "table_at m p 2 (?v k) = None" "leaf m p 0 (?v k) = None"
      using assms(2) half [OF k] unfolding mapped_below_def by (metis le_numeral_extra(3) zero_le zero_neq_numeral)+
    then show ?thesis by (simp add: room_for_def flip: numeral_2_eq_2)
  qed
  then have "\<forall>k \<in> set [0..<64]. k < 64 \<and> room_for p 1 (?v k) m" by simp
  note D = map_phys_adds [OF assms(1) distinct_upt this run]
  show "keeps_pml4 p m m'" using D by blast
  show "walk m' 3 p u = walk m 3 p u" if u: "kernel_half u" "0xFFFFFF1000000000 \<le> unat u"
  proof -
    have "drop_bit 30 u \<noteq> drop_bit 30 (?v k)" if "k \<in> set [0..<64]" for k
    proof -
      have k: "k < 64" using that by simp
      have "unat (?v k) < 0xFFFFFF1000000000" using unat_phys_page [OF k] k by simp
      then have "unat (?v k) div 2 ^ 30 < 0xFFFFFF1000000000 div 2 ^ 30" by (simp add: less_mult_imp_div_less)
      moreover have "0xFFFFFF1000000000 div 2 ^ 30 \<le> unat u div 2 ^ 30" by (rule div_le_mono [OF u(2)])
      ultimately show ?thesis unfolding drop_bit_unat by simp
    qed
    then show ?thesis using D u(1) by blast
  qed
  show "walk m' 3 p (PHYS_TO_VIRT x) = Some (True, x)" if x: "unat x < 2 ^ 36"
  proof -
    define k where "k = unat x div 2 ^ 30"
    let ?u = "PHYS_TO_VIRT x"
    have k: "k < 64" using x by (simp add: k_def less_mult_imp_div_less)
    have u: "unat ?u = 0xFFFFFF0000000000 + unat x" using x by (simp add: PHYS_TO_VIRT_def unat_add_no_wrap)
    have "unat ?u div 2 ^ 30 = unat (?v k) div 2 ^ 30" unfolding u unat_phys_page [OF k] by (simp add: k_def)
    then have "walk m' 3 p ?u = Some (True, ?a k OR (?u AND mask 30))"
      using D k x u by (auto simp: drop_bit_unat kernel_half_iff)
    moreover have "?a k OR (?u AND mask 30) = x"
    proof -
      have "?a k AND (?u AND mask 30) = 0"
        by (rule bit_word_eqI) (auto simp: bit_and_iff bit_mask_iff dest!: phys_page_bits [OF k])
      then have "?a k OR (?u AND mask 30) = ?a k + (?u AND mask 30)" using disjunctive_add_eq_or [of "?a k" "?u AND mask 30"] by simp
      moreover have um: "unat (?u AND mask 30) = unat x mod 2 ^ 30"
        by (simp only: take_bit_eq_mask [symmetric] unsigned_take_bit_eq)
          (simp only: take_bit_eq_mod u, metis (no_types) mod_add_left_eq add_0 phys_base_mod)
      moreover have "unat (?a k) = 2 ^ 30 * k" using k by (simp add: unat_mult_no_wrap unat_of_nat_no_wrap)
      then have "unat (?a k + (?u AND mask 30)) = 2 ^ 30 * k + unat x mod 2 ^ 30"
        by (subst unat_add_no_wrap) (use k um in \<open>simp_all add: add_mono\<close>)
      then have "unat (?a k + (?u AND mask 30)) = unat x" by (simp add: k_def)
      ultimately show ?thesis by (simp add: word_unat_eq_iff)
    qed
    ultimately show ?thesis by simp
  qed
qed

section \<open>The loader's copy of the PML4\<close>

lemma copy_pml4_at:
  assumes "is_frame p" "is_frame old" "p \<noteq> old" "i < 512"
  shows "copy_pml4 p old m (p + 8 * of_nat i) =
    (if i = 511 then p OR PAGING_FLAG_PRESENT OR PAGING_FLAG_READ_WRITE else m (old + 8 * of_nat i))"
proof -
  define g where "g = (\<lambda>i m. m(p + 8 * of_nat i := m (old + 8 * of_nat i)) :: table_mem)"
  have inj: "j = k" if "p + 8 * of_nat j = p + 8 * of_nat k" "j < 512" "k < 512" for j k
  proof -
    have "unat (8 * of_nat j :: addr) = unat (8 * of_nat k :: addr)" using that(1) by simp
    then show ?thesis using that(2, 3) by (simp add: unat_mult_no_wrap unat_of_nat_no_wrap)
  qed
  have apart: "old + 8 * of_nat j \<noteq> p + 8 * of_nat k" if "j < 512" "k < 512" for j k
    using page_of_cell [OF assms(1) that(2)] page_of_cell [OF assms(2) that(1)] assms(3) by auto
  have "(\<forall>j < k. fold g [0..<k] m (p + 8 * of_nat j) = m (old + 8 * of_nat j)) \<and>
      (\<forall>j < 512. fold g [0..<k] m (old + 8 * of_nat j) = m (old + 8 * of_nat j))" if "k \<le> 512" for k
    using that
  proof (induction k)
    case (Suc k)
    then have k: "k < 512" and IH: "\<forall>j < k. fold g [0..<k] m (p + 8 * of_nat j) = m (old + 8 * of_nat j)"
      "\<forall>j < 512. fold g [0..<k] m (old + 8 * of_nat j) = m (old + 8 * of_nat j)" by simp_all
    have "fold g [0..<Suc k] m = (fold g [0..<k] m)(p + 8 * of_nat k := m (old + 8 * of_nat k))"
      using IH(2) k by (simp add: g_def)
    then show ?case using IH apart k inj [of _ k] by (auto simp: less_Suc_eq)
  qed simp
  from this [of 512] have c: "fold g [0..<512] m (p + 8 * of_nat i) = m (old + 8 * of_nat i)" using assms(4) by simp
  have "p + 8 * of_nat i = p + 8 * 511 \<longleftrightarrow> i = 511" using inj [of i 511] assms(4) by auto
  then show ?thesis using c by (simp add: copy_pml4_def g_def [symmetric] Let_def)
qed

section \<open>Loading as a whole\<close>

lemma no_kernel_tables_below: "no_kernel_tables p m \<Longrightarrow> mapped_below b p m"
  by (simp add: mapped_below_def no_kernel_tables_fresh del: table_at.simps)

lemma load_kernel_run:
  assumes "load_kernel alloc old elf m phys = Inr (p, m', phys')"
  obtains l m1 i1 i' where "alloc 1 1 = Inr p"
    "load_segments alloc p elf (elf + e_phoff (elf_header_at phys elf)) (ucast (e_phentsize (elf_header_at phys elf)))
       [0..<unat (e_phnum (elf_header_at phys elf))] (0, (copy_pml4 p old m, 2), phys) = (EFI_SUCCESS, l, (m1, i1), phys')"
    "map_phys alloc p [0..<64] (m1, i1) = (EFI_SUCCESS, (m', i'))"
proof (cases "alloc 1 1")
  case (Inr a)
  obtain st l m1 i1 phys1 where s: "load_segments alloc a elf (elf + e_phoff (elf_header_at phys elf)) (ucast (e_phentsize (elf_header_at phys elf)))
       [0..<unat (e_phnum (elf_header_at phys elf))] (0, (copy_pml4 a old m, 2), phys) = (st, l, (m1, i1), phys1)" by (metis surj_pair)
  obtain st' m2 i2 where d: "map_phys alloc a [0..<64] (m1, i1) = (st', (m2, i2))" by (metis surj_pair)
  have "st = EFI_SUCCESS" "st' = EFI_SUCCESS" "a = p" "m2 = m'" "phys1 = phys'"
    using assms by (auto simp: load_kernel_def Inr Let_def s d check_def simp del: One_nat_def split: if_splits)
  with that Inr s d show ?thesis by blast
qed (use assms in \<open>simp add: load_kernel_def del: One_nat_def\<close>)

text \<open>What the kernel finds: its segments, the direct map, and the PML4 in the form the kernel's recursive
  mapping relies on.\<close>

definition kernel_in_place :: "mem \<Rightarrow> addr \<Rightarrow> addr \<Rightarrow> table_mem \<Rightarrow> mem \<Rightarrow> bool" where
  "kernel_in_place file elf p m phys \<longleftrightarrow>
     (let h = elf_header_at file elf; hs = elf + e_phoff h; sz = ucast (e_phentsize h)
      in (\<forall>i < unat (e_phnum h). to_load file hs sz i \<longrightarrow> segment_loaded file elf (header_at file hs sz i) p UNIV m phys)) \<and>
     (\<forall>x. unat x < 2 ^ 36 \<longrightarrow> walk m 3 p (PHYS_TO_VIRT x) = Some (True, x)) \<and>
     m (p + 8 * 511) = p OR PAGING_FLAG_PRESENT OR PAGING_FLAG_READ_WRITE"

text \<open>
  What the loader relies on: \<open>F\<close> is the memory the kernel's file was read to; the firmware's page tables
  leave entry 510 of the PML4 free.
\<close>

definition loader_start :: "page_alloc \<Rightarrow> addr \<Rightarrow> addr \<Rightarrow> addr set \<Rightarrow> table_mem \<Rightarrow> mem \<Rightarrow> bool" where
  "loader_start alloc old elf F m phys \<longleftrightarrow> firmware_blocks alloc 1 (F \<union> pages_at old 1) \<and> is_frame old \<and> \<not> bit (m (old + 8 * 510)) 0 \<and>
     (let h = elf_header_at phys elf in headers_ok phys F elf (elf + e_phoff h) (ucast (e_phentsize h)) 0xFFFFFF1000000000 [0..<unat (e_phnum h)])"

lemma load_kernel_places:
  assumes start: "loader_start alloc old elf F m phys" and run: "load_kernel alloc old elf m phys = Inr (p, m', phys')"
  shows "kernel_in_place phys elf p m' phys'" "\<forall>x \<in> F. phys' x = phys x"
    "\<forall>i < 510. m' (p + 8 * of_nat i) = m (old + 8 * of_nat i)"
proof -
  let ?h = "elf_header_at phys elf"
  let ?hs = "elf + e_phoff ?h" and ?sz = "ucast (e_phentsize ?h) :: u64" and ?is = "[0..<unat (e_phnum ?h)]"
  define m0 where "m0 = copy_pml4 p old m"
  obtain l m1 i1 i' where a: "alloc 1 1 = Inr p"
    and seg: "load_segments alloc p elf ?hs ?sz ?is (0, (m0, 2), phys) = (EFI_SUCCESS, l, (m1, i1), phys')"
    and dir: "map_phys alloc p [0..<64] (m1, i1) = (EFI_SUCCESS, (m', i'))"
    using load_kernel_run [OF run] unfolding m0_def by blast
  have fb: "firmware_blocks alloc 1 (F \<union> pages_at old 1)" and old: "is_frame old" "\<not> bit (m (old + 8 * 510)) 0"
    and hd: "headers_ok phys F elf ?hs ?sz 0xFFFFFF1000000000 ?is" using start by (simp_all add: loader_start_def Let_def)
  note D = firmware_blocksD(1-3) [OF fb order_refl a]
  let ?used = "F \<union> pages_at old 1 \<union> pages_at p 1"
  have self: "x \<in> pages_at x 1" for x by (simp add: pages_at_def)
  have "p \<noteq> old" using D(3) self [of p] self [of old] by auto
  note cp = copy_pml4_at [OF D(1) old(1) this, of _ m, folded m0_def]
  have "no_kernel_tables p m0" using cp [of 510] D(1) old(2) by (simp add: no_kernel_tables_def)
  note fresh = no_kernel_tables_below [OF this] and this
  have two: "(1 :: nat) + 1 = 2" by simp
  have fb2: "firmware_blocks alloc 2 ?used" using firmware_blocks_use [OF fb a] unfolding two by simp
  have "firmware_pages (one_page alloc) 2 {p}" by (rule firmware_blocks_pages [OF fb2]) (use self in simp)
  from no_kernel_tables_loader [OF \<open>no_kernel_tables p m0\<close> this]
  have "kernel_loading alloc p ?used 0xFFFFFF1000000000 (0, (m0, 2), phys)" using fb2 fresh by (simp add: kernel_loading_def)
  from load_segments_loads [OF this _ _ hd seg] obtain used' b' where
    L: "kernel_loading alloc p used' b' (l, (m1, i1), phys')" 
      "\<forall>i \<in> set ?is. to_load phys ?hs ?sz i \<longrightarrow> segment_loaded phys elf (header_at phys ?hs ?sz i) p used' m1 phys'"
      "\<forall>x \<in> ?used. phys' x = phys x" "keeps_pml4 p m0 m1" by blast
  have inv: "loader_tables (one_page alloc) p (m1, i1)" "mapped_below b' p m1" using L(1) by (simp_all add: kernel_loading_def)
  note M = map_phys_direct [OF inv dir]
  have keep: "keeps_pml4 p m0 m'" by (rule keeps_pml4_trans [OF L(4) M(3)])
  have entry: "m' (p + 8 * of_nat i) = m0 (p + 8 * of_nat i)" if "i < 512" "i \<noteq> 510" for i
  proof -
    have "unat (8 * of_nat i :: addr) = 8 * i" using that(1) by (simp add: unat_mult_no_wrap unat_of_nat_no_wrap)
    then have "8 * of_nat i \<noteq> (8 * 510 :: addr)" using that(2) by (auto dest: arg_cong [of _ _ unat])
    then have "p + 8 * of_nat i \<noteq> p + 8 * 510" by (simp only: add_left_cancel) simp
    then show ?thesis using keep page_of_cell [OF D(1) that(1)] by (simp add: keeps_pml4_def)
  qed
  show "\<forall>i < 510. m' (p + 8 * of_nat i) = m (old + 8 * of_nat i)" using entry cp by simp
  show "\<forall>x \<in> F. phys' x = phys x" using L(3) by simp
  have "segment_loaded phys elf (header_at phys ?hs ?sz i) p UNIV m' phys'" if i: "i < unat (e_phnum ?h)" "to_load phys ?hs ?sz i" for i
  proof -
    let ?ph = "header_at phys ?hs ?sz i"
    have ok: "loadable ?ph" using hd i by (simp add: headers_ok_def)
    have "segment_loaded phys elf ?ph p used' m1 phys'" using L(2) i by simp
    moreover have "walk m' 3 p (p_vaddr ?ph + of_nat j) = walk m1 3 p (p_vaddr ?ph + of_nat j)" if j: "j < unat (p_memsz ?ph)" for j
      by (rule M(2) [OF seg_page(3) [OF ok j]]) (use seg_page(2) [OF ok j] ok in \<open>simp add: loadable_def\<close>)
    ultimately show ?thesis unfolding segment_loaded_def by (metis UNIV_I)
  qed
  moreover have "m' (p + 8 * 511) = p OR PAGING_FLAG_PRESENT OR PAGING_FLAG_READ_WRITE" using entry [of 511] cp [of 511] by simp
  ultimately show "kernel_in_place phys elf p m' phys'" using M(1) by (simp add: kernel_in_place_def Let_def)
qed

section \<open>Failing\<close>

text \<open>Every error of the loops is one that \<^verbatim>\<open>AllocatePages\<close> reported for a page of a table, within a bounded
  number of calls.\<close>

definition reported :: "page_alloc \<Rightarrow> nat \<Rightarrow> nat \<Rightarrow> u64 \<Rightarrow> bool" where
  "reported alloc i k status \<longleftrightarrow> (\<exists>j. i \<le> j \<and> j < k \<and> alloc j 1 = Inl status)"

lemma reported_mono: "reported alloc i k st \<Longrightarrow> i' \<le> i \<Longrightarrow> k \<le> k' \<Longrightarrow> reported alloc i' k' st"
  unfolding reported_def by (meson le_trans less_le_trans)

lemma add_page_mapping_reported:
  assumes "add_page_mapping (one_page alloc) p v a sz (m, i) = (st, m', i')"
  shows "(st = EFI_SUCCESS \<or> reported alloc i (i + 3) st) \<and> i \<le> i' \<and> i' \<le> i + 3"
  using add_page_mapping_outcome [OF assms] add_page_mapping_calls [OF assms]
  by (auto simp: reported_def one_page_def)

lemma map_segment_reported:
  "map_segment alloc p start a ks l0 (m, i) = (st, l1, (m', i')) \<Longrightarrow>
    (st = EFI_SUCCESS \<or> reported alloc i (i + 3 * length ks) st) \<and> i \<le> i' \<and> i' \<le> i + 3 * length ks"
proof (induction ks arbitrary: l0 m i)
  case (Cons k ks)
  let ?v = "start + 0x1000 * of_nat k"
  show ?case
  proof (cases "?v \<le> l0")
    case True
    then show ?thesis using Cons.IH [of l0 m i] Cons.prems reported_mono [of alloc i "i + 3 * length ks" st i "i + 3 * length (k # ks)"] by (auto simp: Let_def)
  next
    case False
    obtain st1 m1 i1 where r: "add_page_mapping (one_page alloc) p ?v (a + 0x1000 * of_nat k) page_size_4K (m, i) = (st1, m1, i1)" by (metis surj_pair)
    note o1 = add_page_mapping_reported [OF r]
    show ?thesis
    proof (cases "st1 = EFI_SUCCESS")
      case True
      then have "map_segment alloc p start a ks ?v (m1, i1) = (st, l1, (m', i'))" using Cons.prems False r by (simp add: Let_def)
      from Cons.IH [OF this] o1 show ?thesis using reported_mono [of alloc i1 "i1 + 3 * length ks" st i "i + 3 * length (k # ks)"] by auto
    next
      case err: False
      then have "st = st1" "i' = i1" using Cons.prems False r by (auto simp: Let_def)
      with o1 err show ?thesis using reported_mono [of alloc i "i + 3" st i "i + 3 * length (k # ks)"] by auto
    qed
  qed
qed simp

lemma map_phys_reported:
  "map_phys alloc p ks (m, i) = (st, (m', i')) \<Longrightarrow> st = EFI_SUCCESS \<or> reported alloc i (i + 3 * length ks) st"
proof (induction ks arbitrary: m i)
  case (Cons k ks)
  obtain st1 m1 i1 where r: "add_page_mapping (one_page alloc) p (PHYS_TO_VIRT (0x40000000 * of_nat k)) (0x40000000 * of_nat k) page_size_1G (m, i) = (st1, m1, i1)" by (metis surj_pair)
  note o1 = add_page_mapping_reported [OF r]
  show ?case
  proof (cases "st1 = EFI_SUCCESS")
    case True
    then have "map_phys alloc p ks (m1, i1) = (st, (m', i'))" using Cons.prems r by (simp add: Let_def)
    from Cons.IH [OF this] o1 show ?thesis using reported_mono [of alloc i1 "i1 + 3 * length ks" st i "i + 3 * length (k # ks)"] by auto
  next
    case False
    then have "st = st1" using Cons.prems r by (auto simp: Let_def)
    with o1 False show ?thesis using reported_mono [of alloc i "i + 3" st i "i + 3 * length (k # ks)"] by auto
  qed
qed simp

lemma load_segment_reported:
  assumes "load_segment alloc p elf ph (l0, (m, i), phys) = (st, l1, (m', i'), phys')"
    and "N = unat ((p_memsz ph div 4096 + 2) * 0x1000) div 0x1000"
  shows "(st = EFI_SUCCESS \<or> alloc i (p_memsz ph div 4096 + 2) = Inl st \<or> reported alloc (i + 1) (i + 1 + 3 * N) st) \<and> i' \<le> i + 1 + 3 * N"
proof (cases "alloc i (p_memsz ph div 4096 + 2)")
  case (Inl e)
  then show ?thesis using assms(1) by (auto simp: load_segment_def Let_def)
next
  case (Inr a)
  obtain st1 l m1 i1 where r: "map_segment alloc p (start_page ph) a [0..<N] l0 (m, i + 1) = (st1, l, (m1, i1))" by (metis surj_pair)
  have "st = st1 \<and> i' = i1 \<or> st = EFI_SUCCESS \<and> i' = i1"
    using assms(1) r [unfolded assms(2)] unfolding load_segment_def prod.case Inr sum.case Let_def start_page_def [symmetric]
    by (auto split: if_splits)
  with map_segment_reported [OF r] show ?thesis by auto
qed

lemma load_segments_reported:
  "load_segments alloc p elf hs sz is (l0, (m, i), phys) = (st, l1, (m', i'), phys') \<Longrightarrow>
     st = EFI_SUCCESS \<or> (\<exists>j n. alloc j n = Inl st)"
proof (induction "is" arbitrary: l0 m i phys)
  case (Cons n "is")
  let ?ph = "program_header_at phys (hs + sz * of_nat n)"
  obtain st1 l2 m2 i2 phys2 where r: "load_segment alloc p elf ?ph (l0, (m, i), phys) = (st1, l2, (m2, i2), phys2)" by (metis surj_pair)
  note o1 = load_segment_reported [OF r refl]
  show ?case
  proof (cases "p_type ?ph = PT_LOAD \<and> st1 \<noteq> EFI_SUCCESS")
    case True
    then have "st = st1" using Cons.prems r by (auto simp: Let_def)
    then show ?thesis using o1 True by (auto simp: reported_def)
  next
    case False
    then show ?thesis using Cons.prems r Cons.IH by (auto simp: Let_def split: if_splits)
  qed
qed simp

lemma load_kernel_reported:
  assumes "load_kernel alloc old elf m phys = Inl st"
  shows "\<exists>j n. alloc j n = Inl st"
proof (cases "alloc 1 1")
  case (Inl e)
  then show ?thesis using assms by (auto simp: load_kernel_def simp del: One_nat_def)
next
  case (Inr a)
  obtain st1 l m1 i1 phys1 where s: "load_segments alloc a elf (elf + e_phoff (elf_header_at phys elf)) (ucast (e_phentsize (elf_header_at phys elf)))
       [0..<unat (e_phnum (elf_header_at phys elf))] (0, (copy_pml4 a old m, 2), phys) = (st1, l, (m1, i1), phys1)" by (metis surj_pair)
  obtain st2 m2 i2 where d: "map_phys alloc a [0..<64] (m1, i1) = (st2, (m2, i2))" by (metis surj_pair)
  have "st1 \<noteq> EFI_SUCCESS \<and> st = st1 \<or> st2 \<noteq> EFI_SUCCESS \<and> st = st2"
    using assms by (auto simp: load_kernel_def Inr Let_def s d check_def simp del: One_nat_def split: if_splits)
  then show ?thesis using load_segments_reported [OF s] map_phys_reported [OF d] by (auto simp: reported_def)
qed

text \<open>
  C5. The boot loader loads a kernel whose segments do not share pages. \<open>loader_start\<close> is what it relies
  on: \<^verbatim>\<open>AllocatePages\<close> gives page frames that are not in use, entry 510 of the firmware's PML4 is free, and
  the segments of the file are at addresses of the kernel, ascending, with no page in common, where each
  segment counts with the up to two pages more than it needs that it is given (theorem
  \<open>load_segment_shadowed\<close> is about the files that break this). Then either the call ends with an error the firmware reported, or every
  byte of every segment is found at its virtual address (the file's bytes, zeros behind them), every
  address of the direct map translates to the physical address below 64 GB it stands for, the last
  entry of the new PML4 points to itself, the others are the firmware's, and the file is unchanged.
\<close>

theorem load_kernel_in_place:
  assumes "loader_start alloc old elf F m phys"
  shows "case load_kernel alloc old elf m phys of
      Inl status \<Rightarrow> \<exists>j n. alloc j n = Inl status
    | Inr (p, m', phys') \<Rightarrow> kernel_in_place phys elf p m' phys' \<and> (\<forall>x \<in> F. phys' x = phys x) \<and>
        (\<forall>i < 510. m' (p + 8 * of_nat i) = m (old + 8 * of_nat i))"
proof (cases "load_kernel alloc old elf m phys")
  case (Inl st)
  with load_kernel_reported [OF Inl] show ?thesis by simp
next
  case (Inr r)
  obtain p m' phys' where "r = (p, m', phys')" by (cases r)
  with load_kernel_places [OF assms] Inr show ?thesis by simp
qed

text \<open>
  A file with one segment: two bytes of data and one of zeros at the kernel's address; ACPI's root
  pointer at \<^verbatim>\<open>0x2000\<close>, of revision 2 and with its table at \<^verbatim>\<open>0x7000\<close>; firmware with room for a thousand requests
  of up to two pages.
\<close>

definition demo_low :: mem where
  "demo_low = (\<lambda>_. 0)(0x200F := 2, 0x2019 := 0x70)"

definition demo_used :: "addr set" where
  "demo_used = pages_at 0x100000 1 \<union> pages_at 0x2000 1"

definition demo_file :: mem where
  "demo_file = demo_low(0x100020 := 64, 0x100036 := 56, 0x100038 := 1, 0x100040 := 1, 0x100049 := 1,
     0x100054 := 0x10, 0x100055 := 0xFF, 0x100056 := 0xFF, 0x100057 := 0xFF, 0x100060 := 2, 0x100068 := 3,
     0x100100 := 0xAA, 0x100101 := 0xBB)"

definition demo_alloc :: page_alloc where
  "demo_alloc j n = (if j < 1000 \<and> n \<le> 2 then Inr (0x100000 + 0x2000 * of_nat j) else Inl 9)"

lemma pages_apart:
  assumes "unat a + 0x1000 * k \<le> unat b" "unat b + 0x1000 * n \<le> 2 ^ 52"
  shows "pages_at a k \<inter> pages_at b n = {}"
proof -
  have "\<not> (x \<in> pages_at a k \<and> x \<in> pages_at b n)" for x
  proof
    assume x: "x \<in> pages_at a k \<and> x \<in> pages_at b n"
    define da db where "da = x - a" and "db = x - b"
    have "unat da < 0x1000 * k" "unat db < 0x1000 * n" using x by (simp_all add: pages_at_def da_def db_def)
    moreover have "unat (a + da) = unat a + unat da" "unat (b + db) = unat b + unat db"
      using calculation assms by (simp_all add: unat_add_no_wrap)
    moreover have "a + da = b + db" by (simp add: da_def db_def)
    ultimately show False using assms by simp
  qed
  then show ?thesis by blast
qed

lemma demo_alloc_at: "j < 1000 \<Longrightarrow> unat (0x100000 + 0x2000 * of_nat j :: addr) = 0x100000 + 0x2000 * j"
  by (simp add: unat_add_no_wrap unat_mult_no_wrap unat_of_nat_no_wrap)

lemma demo_firmware: "firmware_blocks demo_alloc 1 (demo_used \<union> pages_at 0x1000 1)"
proof -
  have a: "j < 1000 \<and> n \<le> 2 \<and> a = 0x100000 + 0x2000 * of_nat j" if "demo_alloc j n = Inr a" for j n a
    using that by (simp add: demo_alloc_def split: if_splits)
  have n: "unat n \<le> 2" if "n \<le> 2" for n :: u64 using that by (simp add: word_le_nat_alt)
  have low: "pages_at b 1 \<inter> pages_at a (unat n) = {}" if "demo_alloc j n = Inr a" "unat b \<le> 0x100000" "1 \<le> j" for j n a b
    using a [OF that(1)] n [of n] demo_alloc_at [of j] that(2, 3) by (intro pages_apart) auto
  have apart: "pages_at a (unat n) \<inter> pages_at b (unat n') = {}"
    if "demo_alloc j n = Inr a" "demo_alloc k n' = Inr b" "j < k" for j k n n' a b
    using a [OF that(1)] a [OF that(2)] n [of n] n [of n'] demo_alloc_at [of j] demo_alloc_at [of k] that(3) by (intro pages_apart) auto
  have "is_frame a" "unat a + 0x1000 * unat n \<le> 2 ^ 52" if "demo_alloc j n = Inr a" for j n a
    using a [OF that] n [of n] demo_alloc_at [of j] by (auto simp: is_frame_dvd)
  moreover have "pages_at a (unat n) \<inter> pages_at b (unat n') = {}"
    if "demo_alloc j n = Inr a" "demo_alloc k n' = Inr b" "k \<noteq> j" for j k n n' a b
    using apart [OF that(1, 2)] apart [OF that(2, 1)] that(3) by (cases "j < k") (auto simp: Int_commute)
  moreover have "pages_at a (unat n) \<inter> (demo_used \<union> pages_at 0x1000 1) = {}" if "demo_alloc j n = Inr a" "1 \<le> j" for j n a
    using low [OF that(1) _ that(2), of "0x100000"] low [OF that(1) _ that(2), of "0x1000"]
      low [OF that(1) _ that(2), of "0x2000"] by (auto simp: demo_used_def)
  moreover have "status = 9" if "demo_alloc j n = Inl status" for j n status
    using that by (simp add: demo_alloc_def split: if_splits)
  ultimately show ?thesis unfolding firmware_blocks_def
    by (fastforce simp: EFI_SUCCESS_def split: sum.split)
qed

lemma demo_headers:
  "e_phoff (elf_header_at demo_file 0x100000) = 64" "e_phentsize (elf_header_at demo_file 0x100000) = 56"
  "e_phnum (elf_header_at demo_file 0x100000) = 1"
  by (simp_all add: elf_header_at_def stored_numeral demo_file_def demo_low_def)

lemma demo_segment:
  "p_type (program_header_at demo_file 0x100040) = PT_LOAD" "p_offset (program_header_at demo_file 0x100040) = 0x100"
  "p_vaddr (program_header_at demo_file 0x100040) = 0xFFFFFF1000000000"
  "p_filesz (program_header_at demo_file 0x100040) = 2" "p_memsz (program_header_at demo_file 0x100040) = 3"
  by (simp_all add: program_header_at_def stored32_def stored_numeral demo_file_def demo_low_def PT_LOAD_def)

lemma demo_start: "loader_start demo_alloc 0x1000 0x100000 demo_used (\<lambda>_. 0) demo_file"
proof -
  let ?ph = "program_header_at demo_file 0x100040"
  have s: "start_page ?ph = 0xFFFFFF1000000000" "page_count ?ph = 2" "end_page ?ph = 0xFFFFFF1000002000"
    by (simp_all add: start_page_def page_count_def end_page_def demo_segment)
  have "0x100040 + of_nat k \<in> pages_at 0x100000 1" if "k < 56" for k
    using that by (simp add: pages_at_def unat_add_no_wrap unat_of_nat_no_wrap)
  moreover have "0x100000 + p_offset ?ph + of_nat j \<in> pages_at 0x100000 1" if "j < unat (p_filesz ?ph)" for j
    using that by (simp add: demo_segment pages_at_def unat_add_no_wrap unat_of_nat_no_wrap)
  moreover have "loadable ?ph" using s by (simp add: loadable_def demo_segment)
  ultimately have "headers_ok demo_file demo_used 0x100000 0x100040 56 0xFFFFFF1000000000 [0]"
    using s by (simp add: headers_ok_def header_at_def demo_used_def)
  moreover have "is_frame 0x1000" by (simp add: is_frame_dvd)
  ultimately show ?thesis using demo_firmware by (simp add: loader_start_def Let_def demo_headers)
qed

lemma demo_not_reported: "reported demo_alloc i k st \<Longrightarrow> k \<le> 1000 \<Longrightarrow> False"
  by (auto simp: reported_def demo_alloc_def split: if_splits)

lemma demo_loads: "\<exists>p m' phys'. load_kernel demo_alloc 0x1000 0x100000 (\<lambda>_. 0) demo_file = Inr (p, m', phys')"
proof -
  let ?p = "0x102000 :: addr" and ?ph = "program_header_at demo_file 0x100040" and ?m = "copy_pml4 0x102000 0x1000 (\<lambda>_. 0)"
  have a: "demo_alloc 1 1 = Inr ?p" "demo_alloc 2 2 = Inr 0x104000" by (simp_all add: demo_alloc_def)
  have pg: "p_memsz ?ph div 4096 + 2 = 2" by (simp add: demo_segment)
  obtain st l m1 i1 phys1 where s: "load_segment demo_alloc ?p 0x100000 ?ph (0, (?m, 2), demo_file) = (st, l, (m1, i1), phys1)" by (metis surj_pair)
  have N: "unat ((2 :: u64) * 0x1000) div 0x1000 = 2" by simp
  have "\<not> reported demo_alloc (2 + 1) (2 + 1 + 3 * 2) st" using demo_not_reported [of "2 + 1" "2 + 1 + 3 * 2" st] by auto
  with load_segment_reported [OF s refl, unfolded pg N] a(2) have st: "st = EFI_SUCCESS" and i1: "i1 \<le> 9" by auto
  obtain st' m2 i2 where d: "map_phys demo_alloc ?p [0..<64] (m1, i1) = (st', (m2, i2))" by (metis surj_pair)
  have st': "st' = EFI_SUCCESS" using map_phys_reported [OF d] demo_not_reported [of i1 "i1 + 3 * length [0..<64]" st'] i1 by auto
  have "load_segments demo_alloc ?p 0x100000 (0x100000 + 64) 56 [0..<1] (0, (?m, 2), demo_file) = (EFI_SUCCESS, (l, (m1, i1), phys1))"
    using s st demo_segment(1) by simp
  then show ?thesis using d st' by (simp add: load_kernel_def a(1) Let_def demo_headers check_def del: One_nat_def)
qed

theorem load_kernel_in_place_witness:
  "\<exists>p m' phys'. load_kernel demo_alloc 0x1000 0x100000 (\<lambda>_. 0) demo_file = Inr (p, m', phys') \<and>
     (\<exists>q. walk m' 3 p 0xFFFFFF1000000000 = Some (True, q) \<and> phys' q = 0xAA) \<and>
     (\<exists>q. walk m' 3 p 0xFFFFFF1000000002 = Some (True, q) \<and> phys' q = 0) \<and>
     walk m' 3 p 0xFFFFFF00000FEDCB = Some (True, 0xFEDCB)"
proof -
  obtain p m' phys' where r: "load_kernel demo_alloc 0x1000 0x100000 (\<lambda>_. 0) demo_file = Inr (p, m', phys')" using demo_loads by blast
  from load_kernel_in_place [OF demo_start] have k: "kernel_in_place demo_file 0x100000 p m' phys'" unfolding r by simp
  have h: "header_at demo_file 0x100040 56 0 = program_header_at demo_file 0x100040" by (simp add: header_at_def)
  have "segment_loaded demo_file 0x100000 (program_header_at demo_file 0x100040) p UNIV m' phys'"
    using k h demo_segment(1) by (simp add: kernel_in_place_def Let_def demo_headers to_load_def)
  then have seg: "\<exists>q. walk m' 3 p (0xFFFFFF1000000000 + of_nat j) = Some (True, q) \<and>
      phys' q = (if j < 2 then demo_file (0x100000 + 0x100 + of_nat j) else 0)" if "j < 3" for j
    using that unfolding segment_loaded_def demo_segment by (simp del: walk.simps)
  have "demo_file 0x100100 = 0xAA" by (simp add: demo_file_def demo_low_def)
  with seg [of 0] seg [of 2] have "\<exists>q. walk m' 3 p 0xFFFFFF1000000000 = Some (True, q) \<and> phys' q = 0xAA"
    "\<exists>q. walk m' 3 p 0xFFFFFF1000000002 = Some (True, q) \<and> phys' q = 0" by (simp_all del: walk.simps)
  moreover have "walk m' 3 p 0xFFFFFF00000FEDCB = Some (True, 0xFEDCB)"
    using k [unfolded kernel_in_place_def, THEN conjunct2, THEN conjunct1, rule_format, of "0xFEDCB"] by (simp add: PHYS_TO_VIRT_def del: walk.simps)
  ultimately have "load_kernel demo_alloc 0x1000 0x100000 (\<lambda>_. 0) demo_file = Inr (p, m', phys') \<and>
     (\<exists>q. walk m' 3 p 0xFFFFFF1000000000 = Some (True, q) \<and> phys' q = 0xAA) \<and>
     (\<exists>q. walk m' 3 p 0xFFFFFF1000000002 = Some (True, q) \<and> phys' q = 0) \<and>
     walk m' 3 p 0xFFFFFF00000FEDCB = Some (True, 0xFEDCB)" using r by (intro conjI)
  then show ?thesis by (intro exI)
qed

section \<open>Segments that share pages\<close>

text \<open>
  A segment that starts at or below the last page given to the segment before it, which has up to two
  pages more than it needs, is not seen at its address: the loader skips that page, so every address
  in it still leads to the other segment's memory, and what is stored there does not change.
\<close>

theorem load_segment_shadowed:
  assumes "kernel_loading alloc p used b (l0, (m, i), phys)" "loadable ph" "start_page ph \<le> l0"
    and "\<forall>j < unat (p_filesz ph). elf + p_offset ph + of_nat j \<in> used"
    and "load_segment alloc p elf ph (l0, (m, i), phys) = (EFI_SUCCESS, l1, (m', i'), phys')"
    and "drop_bit 12 u = drop_bit 12 (start_page ph)"
  shows "walk m' 3 p u = walk m 3 p u \<and> (\<forall>x \<in> used. phys' x = phys x)"
  by (rule load_segment_skips [OF assms(1-3) _ assms(5, 6)]) (use assms(4) in blast)

text \<open>The segment of \<open>demo_file\<close>, after another one that had the page at \<^verbatim>\<open>0xFFFFFF1000001000\<close> as its last.\<close>

theorem load_segment_shadowed_witness:
  "\<exists>l1 m' i' phys'. load_segment demo_alloc 0x102000 0x100000 (program_header_at demo_file 0x100040)
       (0xFFFFFF1000001000, (\<lambda>_. 0, 2), demo_file) = (EFI_SUCCESS, l1, (m', i'), phys') \<and>
     walk m' 3 0x102000 0xFFFFFF1000000000 = None"
proof -
  let ?ph = "program_header_at demo_file 0x100040" and ?l = "0xFFFFFF1000001000 :: addr" and ?m = "(\<lambda>_. 0) :: table_mem"
  have pg: "p_memsz ?ph div 4096 + 2 = 2" by (simp add: demo_segment)
  have N: "unat ((2 :: u64) * 0x1000) div 0x1000 = 2" by simp
  obtain st l1 m' i' phys' where s: "load_segment demo_alloc 0x102000 0x100000 ?ph (?l, (?m, 2), demo_file) = (st, l1, (m', i'), phys')"
    by (metis surj_pair)
  have "\<not> reported demo_alloc (2 + 1) (2 + 1 + 3 * 2) st" using demo_not_reported [of "2 + 1" "2 + 1 + 3 * 2" st] by auto
  moreover have "demo_alloc 2 2 = Inr 0x104000" by (simp add: demo_alloc_def)
  ultimately have st: "st = EFI_SUCCESS" using load_segment_reported [OF s refl, unfolded pg N] by auto
  have none: "no_kernel_tables 0x102000 ?m" by (simp add: no_kernel_tables_def is_frame_dvd)
  have two: "(1 :: nat) + 1 = 2" by simp
  have blocks: "firmware_blocks demo_alloc 2 (demo_used \<union> pages_at 0x1000 1 \<union> pages_at 0x102000 1)"
    using firmware_blocks_use [OF demo_firmware, of 1 "0x102000"] unfolding two by (simp add: demo_alloc_def)
  have "firmware_pages (one_page demo_alloc) 2 {0x102000}"
    by (rule firmware_blocks_pages [OF blocks]) (simp add: pages_at_def)
  from no_kernel_tables_loader [OF none this] blocks no_kernel_tables_below [OF none]
  have inv: "kernel_loading demo_alloc 0x102000 (demo_used \<union> pages_at 0x1000 1 \<union> pages_at 0x102000 1) 0xFFFFFF1000002000 (?l, (?m, 2), demo_file)"
    by (simp add: kernel_loading_def)
  have "loadable ?ph" "start_page ?ph = 0xFFFFFF1000000000"
    by (simp_all add: loadable_def end_page_def start_page_def page_count_def demo_segment)
  moreover have "\<forall>j < unat (p_filesz ?ph). 0x100000 + p_offset ?ph + of_nat j \<in> demo_used \<union> pages_at 0x1000 1 \<union> pages_at 0x102000 1"
    by (auto simp: demo_segment demo_used_def pages_at_def unat_add_no_wrap unat_of_nat_no_wrap)
  ultimately have "walk m' 3 0x102000 0xFFFFFF1000000000 = walk ?m 3 0x102000 0xFFFFFF1000000000"
    using load_segment_shadowed [OF inv _ _ _ s [unfolded st], of "0xFFFFFF1000000000"] by (simp del: walk.simps)
  moreover have "walk ?m 3 0x102000 0xFFFFFF1000000000 = None" by (simp add: walk_levels Let_def)
  ultimately have "load_segment demo_alloc 0x102000 0x100000 ?ph (?l, (?m, 2), demo_file) = (EFI_SUCCESS, l1, (m', i'), phys') \<and>
     walk m' 3 0x102000 0xFFFFFF1000000000 = None" using s st by simp
  then show ?thesis by (intro exI)
qed

section \<open>The graphics mode\<close>

text \<open>The number of pixels of a mode the loader accepts.\<close>

definition mode_pixels :: "u32 option \<Rightarrow> u32 option \<Rightarrow> (u32 \<Rightarrow> gop_mode option) \<Rightarrow> u32 \<Rightarrow> u64 option" where
  "mode_pixels mh mv q n = (case q n of None \<Rightarrow> None | Some info \<Rightarrow>
     if PixelFormat info = PixelBlueGreenRedReserved8BitPerColor \<and> \<not> too_large mh (HorizontalResolution info) \<and>
        \<not> too_large mv (VerticalResolution info)
     then Some (ucast (HorizontalResolution info) * ucast (VerticalResolution info)) else None)"

lemma consider_mode_pixels:
  "consider_mode mh mv q n (px, best) = (case mode_pixels mh mv q n of None \<Rightarrow> (px, best)
     | Some c \<Rightarrow> if ucast best < c then (c, n) else (px, best))"
  by (simp add: consider_mode_def mode_pixels_def split: option.split)

lemma unat_ucast_mode: "unat (ucast (x :: u32) :: u64) = unat x"
  using unat_u32_less [of x] by (simp add: unsigned_ucast_eq take_bit_nat_eq_self)

lemma select_mode_fold:
  assumes "\<forall>n < k. \<forall>c. mode_pixels mh mv q (of_nat n) = Some c \<longrightarrow> k \<le> unat c \<and> unat b0 < unat c" "k \<le> 2 ^ 32"
  shows "fold (\<lambda>n. consider_mode mh mv q (of_nat n)) [0..<k] (0, b0) =
    (case List.find (\<lambda>n. mode_pixels mh mv q (of_nat n) \<noteq> None) (rev [0..<k]) of None \<Rightarrow> (0, b0)
     | Some n \<Rightarrow> (the (mode_pixels mh mv q (of_nat n)), of_nat n))"
proof -
  have "fold (\<lambda>n. consider_mode mh mv q (of_nat n)) [0..<j] (0, b0) =
    (case List.find (\<lambda>n. mode_pixels mh mv q (of_nat n) \<noteq> None) (rev [0..<j]) of None \<Rightarrow> (0, b0)
     | Some n \<Rightarrow> (the (mode_pixels mh mv q (of_nat n)), of_nat n))" if "j \<le> k" for j
    using that
  proof (induction j)
    case (Suc j)
    let ?f = "List.find (\<lambda>n. mode_pixels mh mv q (of_nat n) \<noteq> None) (rev [0..<j])"
    have j: "j < k" using Suc.prems by simp
    have best: "unat (ucast (of_nat n :: u32) :: u64) = n" if "n < k" for n
      using that assms(2) by (simp add: unat_ucast_mode unat_of_nat_no_wrap)
    show ?case
    proof (cases "mode_pixels mh mv q (of_nat j)")
      case None
      then show ?thesis using Suc by (simp add: consider_mode_pixels split: option.splits)
    next
      case (Some c)
      have "k \<le> unat c" "unat b0 < unat c" using assms(1) j Some by blast+
      moreover have "unat (ucast b0 :: u64) = unat b0" by (rule unat_ucast_mode)
      moreover have "n < j" if "?f = Some n" for n using that by (auto simp: find_Some_iff rev_nth)
      ultimately show ?thesis using Suc j Some best
        by (auto simp: consider_mode_pixels word_less_nat_alt split: option.splits)
    qed
  qed simp
  then show ?thesis by simp
qed

text \<open>
  The loader does not choose the largest mode but the last it accepts, whatever its size: the number
  of pixels is compared with the number of the best mode so far, not with its pixels. This is so
  whenever modes have more pixels than there are modes, and than the value the variable starts with.
\<close>

theorem select_mode_takes_last:
  assumes "\<forall>n < unat nmodes. \<forall>c. mode_pixels mh mv q (of_nat n) = Some c \<longrightarrow> unat nmodes \<le> unat c \<and> unat b0 < unat c"
  shows "select_mode mh mv q nmodes b0 =
    map_option of_nat (List.find (\<lambda>n. mode_pixels mh mv q (of_nat n) \<noteq> None) (rev [0..<unat nmodes]))"
proof -
  have "unat nmodes \<le> 2 ^ 32" using unat_u32_less [of nmodes] by simp
  note f = select_mode_fold [OF assms this]
  show ?thesis
  proof (cases "List.find (\<lambda>n. mode_pixels mh mv q (of_nat n) \<noteq> None) (rev [0..<unat nmodes])")
    case None
    then show ?thesis by (simp add: select_mode_def f)
  next
    case (Some n)
    then have "n < unat nmodes" "mode_pixels mh mv q (of_nat n) \<noteq> None" by (auto simp: find_Some_iff rev_nth)
    then obtain c where c: "mode_pixels mh mv q (of_nat n) = Some c" "unat b0 < unat c" using assms by blast
    then have "c \<noteq> 0" by auto
    then show ?thesis using Some c by (simp add: select_mode_def f)
  qed
qed

definition demo_modes :: "u32 \<Rightarrow> gop_mode option" where
  "demo_modes n = (let bgr = PixelBlueGreenRedReserved8BitPerColor
     in if n = 0 then Some \<lparr>PixelFormat = bgr, HorizontalResolution = 1920, VerticalResolution = 1080, PixelsPerScanLine = 1920\<rparr>
        else if n = 1 then Some \<lparr>PixelFormat = PixelBltOnly, HorizontalResolution = 1024, VerticalResolution = 768, PixelsPerScanLine = 1024\<rparr>
        else if n = 2 then Some \<lparr>PixelFormat = bgr, HorizontalResolution = 640, VerticalResolution = 480, PixelsPerScanLine = 640\<rparr>
        else None)"

theorem select_mode_takes_last_witness: "select_mode None None demo_modes 3 0 = Some 2"
proof -
  have m: "mode_pixels None None demo_modes (of_nat 0) = Some 2073600" "mode_pixels None None demo_modes (of_nat 1) = None"
    "mode_pixels None None demo_modes (of_nat 2) = Some 307200"
    by (simp_all add: mode_pixels_def demo_modes_def too_large_def)
  have "unat (3 :: u32) \<le> unat c \<and> unat (0 :: u32) < unat c"
    if "n < unat (3 :: u32)" "mode_pixels None None demo_modes (of_nat n) = Some c" for n c
  proof -
    have "n = 0 \<or> n = 1 \<or> n = 2" using that(1) by auto
    then show ?thesis using that(2) m by auto
  qed
  then have "select_mode None None demo_modes 3 0 =
    map_option of_nat (List.find (\<lambda>n. mode_pixels None None demo_modes (of_nat n) \<noteq> None) (rev [0..<unat (3 :: u32)]))"
    by (intro select_mode_takes_last) blast
  also have "rev [0..<unat (3 :: u32)] = [2, 1, 0]" by (simp add: upt_conv_Cons)
  finally show ?thesis using m by simp
qed

section \<open>Starting the kernel\<close>

lemma bindE_Inr: "bindE r f = Inr y \<longleftrightarrow> (\<exists>x. r = Inr x \<and> f x = Inr y)"
  by (cases r) auto

lemma check_Inr: "check status = Inr x \<longleftrightarrow> status = EFI_SUCCESS"
  by (simp add: check_def)

text \<open>A mode that is selected is one of those the loader accepts.\<close>

lemma select_mode_accepted:
  assumes "select_mode mh mv q nmodes b0 = Some n"
  shows "unat n < unat nmodes \<and> mode_pixels mh mv q n \<noteq> None"
proof -
  have "fst st = 0 \<or> unat (snd st) < k \<and> mode_pixels mh mv q (snd st) \<noteq> None"
    if "st = fold (\<lambda>n. consider_mode mh mv q (of_nat n)) [0..<k] (0, b0)" "k \<le> unat nmodes" for st k
    using that
  proof (induction k arbitrary: st)
    case (Suc k)
    obtain px best where f: "fold (\<lambda>n. consider_mode mh mv q (of_nat n)) [0..<k] (0, b0) = (px, best)" by (metis surj_pair)
    have "unat (of_nat k :: u32) = k" using Suc.prems(2) unat_u32_less [of nmodes] by (simp add: unat_of_nat_no_wrap)
    moreover have "px = 0 \<or> unat best < k \<and> mode_pixels mh mv q best \<noteq> None" using Suc.IH [OF f [symmetric]] Suc.prems(2) by simp
    ultimately show ?case using Suc.prems(1) f
      by (auto simp: consider_mode_pixels split: option.splits)
  qed simp
  from this [OF refl order_refl] show ?thesis using assms
    by (auto simp: select_mode_def split: prod.splits if_splits)
qed

lemma find_rsdp_first: "snd (find_rsdp guid20 guid10 cfg r) = (case map_of cfg guid20 of None \<Rightarrow> 0 | Some t \<Rightarrow> t)"
  by (induction guid20 guid10 cfg r rule: find_rsdp.induct) auto

lemma efi_main_run:
  assumes "efi_main fw m phys = Inr h" "read_kernel_file fw phys = Inr (freq, elf, phys0)"
  shows "load_kernel (allocate_pages fw) (current_pml4 fw) elf m phys0 = Inr (new_cr3 h, boot_tables h, boot_mem h)"
    and "kernel_entry h = e_entry (elf_header_at (boot_mem h) elf)"
    and "\<exists>n info base. select_mode (fst (max_resolution fw)) (snd (max_resolution fw)) (query_mode fw) (max_mode fw) (fst (junk fw)) = Some n \<and>
      set_mode fw n = Inr (info, base) \<and>
      gop_fb_info (kernel_arg h) = \<lparr>hres = HorizontalResolution info, vres = VerticalResolution info,
        width = PixelsPerScanLine info, fb_addr = base\<rparr>"
    and "\<exists>r10 r20. find_rsdp (fst (acpi_guids fw)) (snd (acpi_guids fw)) (configuration_table fw) 0 = (r10, r20) \<and>
      acpi_x_r_sdt (kernel_arg h) = choose_sdt (boot_mem h) r10 r20 (snd (junk fw)) \<and> acpi_x_r_sdt (kernel_arg h) \<noteq> 0"
    and "\<exists>key. memory_map fw = Inr (mmap_size (mmap_data (kernel_arg h)), key, descriptor_size (mmap_data (kernel_arg h))) \<and>
      exit_boot_services fw key = EFI_SUCCESS \<and> descriptors (mmap_data (kernel_arg h)) = mmap_buffer fw"
    and "tsc_freq_hz (kernel_arg h) = freq"
proof -
  obtain r10 r20 where "find_rsdp (fst (acpi_guids fw)) (snd (acpi_guids fw)) (configuration_table fw) 0 = (r10, r20)" by (metis surj_pair)
  note run = assms(1) [unfolded efi_main_def assms(2) bindE.simps prod.case this]
  show "load_kernel (allocate_pages fw) (current_pml4 fw) elf m phys0 = Inr (new_cr3 h, boot_tables h, boot_mem h)"
    "kernel_entry h = e_entry (elf_header_at (boot_mem h) elf)"
    "\<exists>n info base. select_mode (fst (max_resolution fw)) (snd (max_resolution fw)) (query_mode fw) (max_mode fw) (fst (junk fw)) = Some n \<and>
      set_mode fw n = Inr (info, base) \<and>
      gop_fb_info (kernel_arg h) = \<lparr>hres = HorizontalResolution info, vres = VerticalResolution info,
        width = PixelsPerScanLine info, fb_addr = base\<rparr>"
    "\<exists>r10 r20. find_rsdp (fst (acpi_guids fw)) (snd (acpi_guids fw)) (configuration_table fw) 0 = (r10, r20) \<and>
      acpi_x_r_sdt (kernel_arg h) = choose_sdt (boot_mem h) r10 r20 (snd (junk fw)) \<and> acpi_x_r_sdt (kernel_arg h) \<noteq> 0"
    "\<exists>key. memory_map fw = Inr (mmap_size (mmap_data (kernel_arg h)), key, descriptor_size (mmap_data (kernel_arg h))) \<and>
      exit_boot_services fw key = EFI_SUCCESS \<and> descriptors (mmap_data (kernel_arg h)) = mmap_buffer fw"
    "tsc_freq_hz (kernel_arg h) = freq"
    using run \<open>find_rsdp _ _ _ 0 = (r10, r20)\<close>
    by (auto simp: bindE_Inr check_Inr Let_def split: option.splits if_splits)
qed

lemma elf_entry_cong:
  assumes "\<And>k. k < 64 \<Longrightarrow> m' (p + of_nat k) = m (p + of_nat k)"
  shows "e_entry (elf_header_at m' p) = e_entry (elf_header_at m p)"
proof -
  have "stored m' 8 (p + of_nat 24) = stored m 8 (p + of_nat 24)" by (rule stored_part [of 64]) (use assms in simp_all)
  then show ?thesis by (simp add: elf_header_at_def)
qed

text \<open>
  C27. When \<^verbatim>\<open>efi_main\<close> starts the kernel, for a file and firmware as \<open>loader_start\<close> requires (see C5: in particular the
  segments share no page). The page tables it loads have the kernel in place and it jumps to the entry
  point of the file. It passes the resolution, line width and address of the framebuffer as they are after the mode was set that
  the loader selected, which is a mode it accepts; the memory map with whose key the boot
  services were left; and an address that is not 0 for ACPI's tables, which is that of the XSDT where the
  configuration table has an ACPI 2.0 entry first found with a revision of 2 or more and an XSDT. (Without such
  an entry the address may be what an uninitialised variable held.)
\<close>

theorem efi_main_starts_kernel:
  assumes "efi_main fw m phys = Inr h" "read_kernel_file fw phys = Inr (freq, elf, phys0)"
    and "loader_start (allocate_pages fw) (current_pml4 fw) elf F m phys0" "\<forall>k < 64. elf + of_nat k \<in> F"
  shows "kernel_in_place phys0 elf (new_cr3 h) (boot_tables h) (boot_mem h) \<and>
    kernel_entry h = e_entry (elf_header_at phys0 elf) \<and> tsc_freq_hz (kernel_arg h) = freq \<and>
    (\<exists>n info base. select_mode (fst (max_resolution fw)) (snd (max_resolution fw)) (query_mode fw) (max_mode fw) (fst (junk fw)) = Some n \<and>
       unat n < unat (max_mode fw) \<and> mode_pixels (fst (max_resolution fw)) (snd (max_resolution fw)) (query_mode fw) n \<noteq> None \<and>
       set_mode fw n = Inr (info, base) \<and> gop_fb_info (kernel_arg h) = \<lparr>hres = HorizontalResolution info,
         vres = VerticalResolution info, width = PixelsPerScanLine info, fb_addr = base\<rparr>) \<and>
    (\<exists>key. memory_map fw = Inr (mmap_size (mmap_data (kernel_arg h)), key, descriptor_size (mmap_data (kernel_arg h))) \<and>
       exit_boot_services fw key = EFI_SUCCESS \<and> descriptors (mmap_data (kernel_arg h)) = mmap_buffer fw) \<and>
    acpi_x_r_sdt (kernel_arg h) \<noteq> 0 \<and>
    (\<forall>r. map_of (configuration_table fw) (fst (acpi_guids fw)) = Some r \<and> r \<noteq> 0 \<and> 2 \<le> rsdp_revision (rsdp_at (boot_mem h) r) \<and>
       rsdp_xsdt_addr (rsdp_at (boot_mem h) r) \<noteq> 0 \<longrightarrow> acpi_x_r_sdt (kernel_arg h) = rsdp_xsdt_addr (rsdp_at (boot_mem h) r))"
proof -
  note R = efi_main_run [OF assms(1, 2)]
  note P = load_kernel_places [OF assms(3) R(1)]
  have "e_entry (elf_header_at (boot_mem h) elf) = e_entry (elf_header_at phys0 elf)"
    by (rule elf_entry_cong) (use P(2) assms(4) in blast)
  moreover obtain r10 r20 where r: "find_rsdp (fst (acpi_guids fw)) (snd (acpi_guids fw)) (configuration_table fw) 0 = (r10, r20)"
    "acpi_x_r_sdt (kernel_arg h) = choose_sdt (boot_mem h) r10 r20 (snd (junk fw))" "acpi_x_r_sdt (kernel_arg h) \<noteq> 0" using R(4) by blast
  have "acpi_x_r_sdt (kernel_arg h) = rsdp_xsdt_addr (rsdp_at (boot_mem h) t)"
    if "map_of (configuration_table fw) (fst (acpi_guids fw)) = Some t" "t \<noteq> 0" "2 \<le> rsdp_revision (rsdp_at (boot_mem h) t)"
      "rsdp_xsdt_addr (rsdp_at (boot_mem h) t) \<noteq> 0" for t
  proof -
    have "r20 = t" using find_rsdp_first [of "fst (acpi_guids fw)" "snd (acpi_guids fw)" "configuration_table fw" 0] r(1) that(1) by simp
    then show ?thesis using r(2) that by (simp add: choose_sdt_def)
  qed
  moreover obtain n info base where n:
    "select_mode (fst (max_resolution fw)) (snd (max_resolution fw)) (query_mode fw) (max_mode fw) (fst (junk fw)) = Some n"
    "set_mode fw n = Inr (info, base)" "gop_fb_info (kernel_arg h) = \<lparr>hres = HorizontalResolution info,
       vres = VerticalResolution info, width = PixelsPerScanLine info, fb_addr = base\<rparr>" using R(3) by blast
  ultimately show ?thesis using P(1) R(2, 5, 6) r(3) select_mode_accepted [OF n(1)] n by auto
qed

text \<open>Firmware that has the file \<open>demo_file\<close> and the modes \<open>demo_modes\<close>, and names the root pointer at \<^verbatim>\<open>0x2000\<close>.\<close>

definition demo_fw :: firmware where
  "demo_fw = \<lparr>locate_text = 0, clear_screen = 0, stall = 0, tsc_readings = (5, 30000005), locate_file_system = 0,
     open_volume = 0, open_kernel = 0, kernel_file_size = Inr 0x102, read_kernel = Inr (map (\<lambda>k. demo_file (0x100000 + of_nat k)) [0..<0x102]),
     allocate_pages = demo_alloc, current_pml4 = 0x1000, locate_gop = 0, max_mode = 3,
     query_mode = demo_modes, set_mode = (\<lambda>n. case demo_modes n of None \<Rightarrow> Inl 3 | Some info \<Rightarrow> Inr (info, 0x80000000)),
     acpi_guids = ((1, 2), (3, 4)), configuration_table = [((5, 6), 0x9000), ((1, 2), 0x2000)], memory_map = Inr (480, 7, 48),
     exit_boot_services = (\<lambda>_. 0), max_resolution = (None, None), junk = (0, 0x1234), mmap_buffer = 0x70000\<rparr>"

lemma store_bytes_at:
  assumes "length bs < 2 ^ 64"
  shows "store_bytes p bs m x = (if unat (x - p) < length bs then bs ! unat (x - p) else m x)"
proof -
  have "fold (\<lambda>k m. m(p + of_nat k := bs ! k)) [0..<n] m x = (if unat (x - p) < n then bs ! unat (x - p) else m x)" if "n \<le> length bs" for n
    using that
  proof (induction n)
    case (Suc n)
    have "unat (of_nat n :: addr) = n" using Suc.prems assms by (simp add: unat_of_nat_no_wrap)
    then have "x = p + of_nat n \<longleftrightarrow> unat (x - p) = n" by (auto simp: word_unat_eq_iff [of "x - p" "of_nat n"] algebra_simps)
    then show ?case using Suc by (auto simp: less_Suc_eq)
  qed simp
  then show ?thesis by (simp add: store_bytes_def)
qed

lemma demo_read: "read_kernel_file demo_fw demo_low = Inr (3000000000, 0x100000, demo_file)"
proof -
  have "store_bytes 0x100000 (map (\<lambda>k. demo_file (0x100000 + of_nat k)) [0..<0x102]) demo_low = demo_file"
  proof
    fix x
    have "demo_file x = demo_low x" if "0x102 \<le> unat (x - 0x100000)" using that by (auto simp: demo_file_def)
    then show "store_bytes 0x100000 (map (\<lambda>k. demo_file (0x100000 + of_nat k)) [0..<0x102]) demo_low x = demo_file x"
      by (subst store_bytes_at) simp_all
  qed
  then show ?thesis
    by (simp add: read_kernel_file_def demo_fw_def check_def EFI_SUCCESS_def demo_alloc_def Let_def del: fun_upd_apply)
qed

theorem efi_main_starts_kernel_witness:
  "\<exists>h. efi_main demo_fw (\<lambda>_. 0) demo_low = Inr h \<and> kernel_in_place demo_file 0x100000 (new_cr3 h) (boot_tables h) (boot_mem h) \<and>
     acpi_x_r_sdt (kernel_arg h) = 0x7000 \<and> width (gop_fb_info (kernel_arg h)) = 640"
proof -
  obtain p m' phys' where lk: "load_kernel demo_alloc 0x1000 0x100000 (\<lambda>_. 0) demo_file = Inr (p, m', phys')" using demo_loads by blast
  have fw: "allocate_pages demo_fw = demo_alloc" "current_pml4 demo_fw = 0x1000" by (simp_all add: demo_fw_def)
  have sel: "select_mode None None demo_modes 3 0 = Some 2"
    by (simp add: select_mode_def consider_mode_def demo_modes_def too_large_def upt_rec)
  have "phys' (0x2000 + of_nat k) = demo_file (0x2000 + of_nat k)" if "k < 0x1000" for k
    by (rule load_kernel_places(2) [OF demo_start lk, rule_format]) (use that in \<open>simp add: demo_used_def pages_at_def unat_of_nat_no_wrap\<close>)
  from this [of 15] this [of 24] this [of 25] this [of 26] this [of 27] this [of 28] this [of 29] this [of 30] this [of 31]
  have rsdp: "rsdp_revision (rsdp_at phys' 0x2000) = 2" "rsdp_xsdt_addr (rsdp_at phys' 0x2000) = 0x7000"
    by (simp_all add: rsdp_at_def stored_numeral demo_file_def demo_low_def)
  have "\<exists>h. efi_main demo_fw (\<lambda>_. 0) demo_low = Inr h \<and> boot_mem h = phys' \<and> width (gop_fb_info (kernel_arg h)) = 640"
    unfolding efi_main_def demo_read bindE.simps prod.case fw lk
    by (simp add: demo_fw_def check_def EFI_SUCCESS_def sel choose_sdt_def rsdp Let_def) (simp add: demo_modes_def)
  then obtain h where h: "efi_main demo_fw (\<lambda>_. 0) demo_low = Inr h" "boot_mem h = phys'" "width (gop_fb_info (kernel_arg h)) = 640" by blast
  have F: "\<forall>k < 64. 0x100000 + of_nat k \<in> demo_used"
    by (simp add: demo_used_def pages_at_def unat_of_nat_no_wrap)
  have acpi: "map_of (configuration_table demo_fw) (fst (acpi_guids demo_fw)) = Some 0x2000" by (simp add: demo_fw_def)
  note E = efi_main_starts_kernel [OF h(1) demo_read _ F, unfolded fw, OF demo_start]
  have "acpi_x_r_sdt (kernel_arg h) = 0x7000" using E acpi rsdp by (simp add: h(2))
  then show ?thesis using E h by blast
qed

end
