(* ===== verification/Spec2Isabelle.thy ===== *)
theory Spec2Isabelle
  imports Stdlib Processors Kernel_Start Boot_Hand_Over
begin

text \<open>
  KoalemOS: a boot loader for UEFI firmware and a small kernel for x86-64 with several processors.
  Paths are relative to the repository's \<^verbatim>\<open>src\<close> directory, headers are in \<^verbatim>\<open>include\<close>.

  \<^bold>\<open>The program.\<close> The loader (\<^verbatim>\<open>src/boot\<close>) reads the kernel's ELF file through the firmware, builds page tables
  with the segments, a direct map and an entry through which the tables map themselves, and jumps to
  the kernel with a \<open>boot_info\<close>. On the boot processor the kernel (\<^verbatim>\<open>src/kernel\<close>) sets up segments,
  interrupts and its local interrupt controller, takes over memory from the firmware's map (physical
  pages, virtual addresses, paging, heap), opens the graphics console, reads the ACPI tables, finds the
  PCI devices, starts the other processors and waits for them; those run the first three of these steps and join. The
  C library (\<^verbatim>\<open>src/libc\<close>) is linked into the kernel. The heap takes pages from the physical map and
  maps them by \<open>map_page\<close>; the array of the virtual map lives in the heap; drivers reach physical
  memory by \<open>create_virt_mapping\<close>; every shared structure is behind a spin mutex; a change of the page
  tables is announced to the other processors by an inter-processor call.

  \<^bold>\<open>Data.\<close> A pointer and a \<^verbatim>\<open>uint64_t\<close> are a \<open>64 word\<close>, the narrower types words of their width, so that
  wrap-around is that of the code. A call returns \<open>'a res\<close>: \<open>Inl\<close> of a \<open>stop\<close> when it does not come back
  (a panic with its message, a loop that does not end, an access outside its array), else \<open>Inr\<close>. Static
  variables are fields of the record of their file; every function takes and returns the record.

  \<^bold>\<open>Theories.\<close>
  \<^item> \<open>Prelude\<close>: types, \<open>res\<close>, loops over lists, word arithmetic without wrap-around (\<open>no_wrap\<close>).
  \<^item> \<open>Threads\<close>: \<^verbatim>\<open>src/libc/threads.c\<close>, for one thread and as interleaved atomic steps; mutual exclusion.
  \<^item> \<open>Mmap\<close>: \<^verbatim>\<open>src/kernel/mmap.c\<close>, arrays of page ranges. First fit, no page handed out twice, and the round
    trip of taking and giving back.
  \<^item> \<open>Kernel_State\<close>, \<open>Paging\<close>: the static state of \<^verbatim>\<open>src/kernel/memory.c\<close>; the processor's page walk, the tables
    reached through the recursive mapping, \<open>map_page\<close>, \<open>unmap_page\<close>, shoot-down. \<open>Page_Tables\<close> sees the tables as a
    trie, with an invariant of well-formed tables and what single changes of entries do to all walks; \<open>Map_Page\<close>
    follows \<open>map_page\<close> through it: with any tables missing, a mapped page translates to what was asked, and no other
    page changes.
  \<^item> \<open>Heap\<close>: \<open>kmalloc\<close>, \<open>kfree\<close>, \<open>krealloc\<close> on linked entries. \<open>Heap_Blocks\<close> has the abstract heap, a list of
    blocks (\<open>heap_is\<close>), and shows that allocation is first fit on this list and that
    \<open>kfree\<close> joins free neighbours; \<open>Heap_Pages\<close> growth and trimming, with the pages underneath, and that a block is
    fresh whether the heap grows for it or not;
    \<open>Krealloc\<close> the branches of \<open>krealloc\<close>.
  \<^item> \<open>Virt_Memory\<close>, \<open>Mappings\<close>: the rest of \<^verbatim>\<open>memory.c\<close> and \<^verbatim>\<open>src/kernel/runtime_error_check.c\<close>; the address
    \<open>create_virt_mapping\<close> returns translates to the physical range, byte by byte, however many page tables it
    takes.
  \<^item> \<open>CMem\<close>, \<open>LibcString\<close>, \<open>Stdlib\<close>: byte memory and \<^verbatim>\<open>src/libc/string.c\<close>, \<^verbatim>\<open>ctype.c\<close>, \<^verbatim>\<open>stdlib.c\<close>: overlapping copies,
    comparison, number parsing, sorting.
  \<^item> \<open>Gdt\<close>, \<open>Interrupt\<close>, \<open>Apic\<close>, \<open>Processors\<close>: \<^verbatim>\<open>src/kernel/gdt.c\<close>, \<^verbatim>\<open>interrupt.c\<close>, \<^verbatim>\<open>apic.c\<close> and the handlers in
    \<^verbatim>\<open>src/kernel/isr\<close>. Descriptors are stated by what the processor reads out of them, vectors by their
    owners, timers by their ticks; a call between processors returns when all have run it.
  \<^item> \<open>Graphics\<close>: \<^verbatim>\<open>src/kernel/graphics.c\<close>: the cache of glyphs is transparent, a character is drawn in its cell.
  \<^item> \<open>Acpi\<close>, \<open>Pci\<close>, \<open>Pci_Config\<close>: \<^verbatim>\<open>src/kernel/acpi.c\<close>, \<^verbatim>\<open>pci.c\<close>: the table looked for, the devices found with
    their base address registers, and reads and writes of their configuration.
  \<^item> \<open>Tls\<close>, \<open>Startup\<close>, \<open>Ap_Boot\<close>, \<open>Kernel_Start\<close>: \<^verbatim>\<open>src/kernel/tls.c\<close>, \<^verbatim>\<open>ap_boot.c\<close>, \<^verbatim>\<open>kernel_start.c\<close> and the entry of
    the other processors in \<^verbatim>\<open>kernel_start.s\<close>. \<open>Startup\<close> interleaves the accesses of all processors to shared
    state (private storage, no processor past the barrier too early, progress); \<open>Ap_Boot\<close> is what the
    boot processor writes to the trampoline; \<open>Kernel_Start\<close> composes the initialisations.
  \<^item> \<open>Boot_Info\<close>, \<open>Boot_Paging\<close>, \<open>Boot_Tables\<close>, \<open>Boot_Main\<close>, \<open>Boot_Load\<close>, \<open>Boot_Hand_Over\<close>: \<^verbatim>\<open>src/boot/paging.c\<close> and
    \<^verbatim>\<open>src/boot/boot.c\<close>. The tables are refined to a map from addresses to pages; on top of it, every byte of the
    kernel is at its address when it is started.

  \<^bold>\<open>Interfaces.\<close> Four locales state what clients rely on: \<open>mutex_ops\<close> (locking and releasing, interpreted on
  the mutexes of the C library, the memory manager and the console), \<open>page_source\<close> (whoever takes and
  gives back pages keeps what is held apart; the page-range maps), \<open>registry\<close> (the same for named
  resources with an owner; the interrupt vectors) and \<open>memo\<close> (a cache that answers like the function it
  caches; the glyphs).

  \<^bold>\<open>Loops.\<close> There is no fuel. A loop that may not end, along links, over a string without end, on a
  counter others change, is a \<open>partial_function\<close> into \<open>option\<close>, \<open>None\<close> when it does not end, and the
  properties say when it returns; others are structural or have a measure.

  \<^bold>\<open>Parameters.\<close> The firmware (a record of what its calls answer; pages it allocates are distinct and unused), FreeType (the bitmap
  of a code point or an error), what a device latches in a base address register or keeps of a byte written to its configuration
  space, readings of the time stamp
  counter, addresses fixed by the linker, and the assembled trampoline are arguments. Properties that
  assume something of them have a witness with a concrete one.

  \<^bold>\<open>Not modelled.\<close> Assembly, but for the entry of the application processors: mode switches, the interrupt stubs, the trampoline's
  instructions, \<^verbatim>\<open>setjmp\<close>. Of access rights, those beyond the present, writable and page-size bits. Translations
  that stay in a TLB until they are flushed; the flushes themselves are recorded. Rounding of floating-point numbers: the blended
  colours and the font's advances are parameters, the timer's frequency is exact. What FreeType does with
  the heap it is given, beyond the two parameters of \<open>Kernel_Start\<close>. \<^verbatim>\<open>kmain\<close> is an empty loop. The
  configuration of FreeType in \<^verbatim>\<open>include/freetype\<close> is not the program's code. Memory is divided by use: page tables, heap entries, the
  bytes of blocks, device registers and the bytes of physical memory are separate maps, so
  that a stray write from one into another is outside the model; where a definition can make one, it is
  an \<open>Overrun\<close>.
\<close>

end
